(* ===== verification/Wire_Prelude.thy ===== *)
theory Wire_Prelude
  imports Main "HOL-Library.Word" "HOL-Library.Finite_Map"
begin

text \<open>
  Shared vocabulary of the development: machine integers at their Rust width,
  byte strings, Rust's \<open>Result\<close> as a sum type with its \<open>?\<close> operator, big-endian
  encodings of integers, exact reads from a byte stream, and finite maps with
  the operations the code uses of \<open>HashMap\<close> and \<open>DashMap\<close>.
  A Rust \<open>String\<close> or \<open>&str\<close> is its UTF-8 byte sequence; \<open>usize\<close> is \<open>nat\<close>.
\<close>

unbundle bit_operations_syntax

type_synonym u8 = "8 word"
type_synonym u16 = "16 word"
type_synonym u32 = "32 word"
type_synonym u64 = "64 word"
type_synonym bytes = "u8 list"

named_theorems wire_simps \<open>encoders and decoders of fixed-width fields\<close>
named_theorems result_elims \<open>inversion of successful computations\<close>

subsection \<open>String literals as bytes\<close>

definition str :: "string \<Rightarrow> bytes" where
  "str s = map of_char s"

lemma str_Nil [simp]: "str [] = []"
  by (simp add: str_def)

lemma str_Cons [simp]: "str (c # cs) = of_char c # str cs"
  by (simp add: str_def)

lemma length_str [simp]: "length (str s) = length s"
  by (simp add: str_def)

subsection \<open>Results and the \<open>?\<close> operator\<close>

fun bindr :: "'e + 'a \<Rightarrow> ('a \<Rightarrow> 'e + 'b) \<Rightarrow> 'e + 'b" where
  "bindr (Inl e) f = Inl e"
| "bindr (Inr x) f = f x"

lemma bindr_Inr_iff: "bindr m f = Inr y \<longleftrightarrow> (\<exists>x. m = Inr x \<and> f x = Inr y)"
  by (cases m) auto

lemma bindr_Inl_iff: "bindr m f = Inl e \<longleftrightarrow> m = Inl e \<or> (\<exists>x. m = Inr x \<and> f x = Inl e)"
  by (cases m) auto

lemma bindr_InrE [result_elims]:
  assumes "bindr m f = Inr y"
  obtains x where "m = Inr x" and "f x = Inr y"
  using assms by (auto simp: bindr_Inr_iff)

lemma bindr_cong [fundef_cong]:
  "m = m' \<Longrightarrow> (\<And>x. m' = Inr x \<Longrightarrow> f x = g x) \<Longrightarrow> bindr m f = bindr m' g"
  by (cases m') auto

text \<open>\<open>Option::context\<close> and \<open>Option::ok_or\<close>.\<close>

definition ok_or :: "'e \<Rightarrow> 'a option \<Rightarrow> 'e + 'a" where
  "ok_or e x = (case x of None \<Rightarrow> Inl e | Some a \<Rightarrow> Inr a)"

lemma ok_or_Inr_iff [simp]: "ok_or e x = Inr a \<longleftrightarrow> x = Some a"
  by (cases x) (auto simp: ok_or_def)

fun map_res :: "('a \<Rightarrow> 'e + 'b) \<Rightarrow> 'a list \<Rightarrow> 'e + 'b list" where
  "map_res f [] = Inr []"
| "map_res f (x # xs) = bindr (f x) (\<lambda>y. bindr (map_res f xs) (\<lambda>ys. Inr (y # ys)))"

lemma map_res_Inr_iff:
  "map_res f xs = Inr ys \<longleftrightarrow> list_all2 (\<lambda>x y. f x = Inr y) xs ys"
  by (induction xs arbitrary: ys) (auto simp: bindr_Inr_iff list_all2_Cons1)

subsection \<open>Big-endian integers\<close>

definition to_be :: "nat \<Rightarrow> 'a::len word \<Rightarrow> bytes" where
  "to_be n w = map (\<lambda>i. ucast (drop_bit (8 * i) w)) (rev [0..<n])"

definition from_be :: "bytes \<Rightarrow> 'a::len word" where
  "from_be bs = foldl (\<lambda>acc b. push_bit 8 acc OR ucast b) 0 bs"

lemma length_to_be [simp]: "length (to_be n w) = n"
  by (simp add: to_be_def)

lemma to_be_0 [simp]: "to_be 0 w = []"
  by (simp add: to_be_def)

lemma to_be_Suc: "to_be (Suc n) w = ucast (drop_bit (8 * n) w) # to_be n w"
  by (simp add: to_be_def)

lemma foldl_to_be:
  fixes acc w :: "'a::len word"
  shows "foldl (\<lambda>acc b. push_bit 8 acc OR ucast b) acc (to_be n w) =
     push_bit (8 * n) acc OR take_bit (8 * n) w"
proof (induction n arbitrary: acc)
  case 0
  then show ?case by simp
next
  case (Suc n)
  have "push_bit (8 * n) (push_bit 8 acc OR ucast (ucast (drop_bit (8 * n) w) :: u8)) OR take_bit (8 * n) w
      = push_bit (8 * Suc n) acc OR take_bit (8 * Suc n) w"
    by (rule bit_word_eqI) (auto simp: bit_simps ac_simps)
  then show ?case by (simp add: to_be_Suc Suc.IH)
qed

lemma from_be_to_be: "from_be (to_be n w) = take_bit (8 * n) w"
  by (simp add: from_be_def foldl_to_be)

lemma from_be_to_be_id [wire_simps]:
  fixes w :: "'a::len word"
  shows "LENGTH('a) \<le> 8 * n \<Longrightarrow> from_be (to_be n w) = w"
  by (simp add: from_be_to_be take_bit_word_eq_self)

lemma to_be_2: "to_be 2 w = [ucast (drop_bit 8 w), ucast w]"
  by (simp add: to_be_def numeral_2_eq_2)

lemma from_be_pair:
  fixes w :: u16
  shows "from_be [ucast (drop_bit 8 w), ucast w] = w"
  using from_be_to_be_id [of 2 w] by (simp add: to_be_2)

lemma from_be_Nil [simp]: "from_be [] = 0"
  by (simp add: from_be_def)

lemma from_be_snoc: "from_be (bs @ [b]) = push_bit 8 (from_be bs) OR ucast b"
  by (simp add: from_be_def)

subsection \<open>Exact reads from a byte stream\<close>

text \<open>
  A stream is the bytes it still delivers before its end. \<open>read_exact\<close> fails when the
  stream ends first (\<open>UnexpectedEof\<close>).
\<close>

definition read_exact :: "nat \<Rightarrow> bytes \<Rightarrow> (bytes \<times> bytes) option" where
  "read_exact n s = (if n \<le> length s then Some (take n s, drop n s) else None)"

definition read_u8 :: "bytes \<Rightarrow> (u8 \<times> bytes) option" where
  "read_u8 s = (case s of [] \<Rightarrow> None | b # rest \<Rightarrow> Some (b, rest))"

definition read_be :: "nat \<Rightarrow> bytes \<Rightarrow> ('a::len word \<times> bytes) option" where
  "read_be n s = map_option (\<lambda>(bs, rest). (from_be bs, rest)) (read_exact n s)"

lemma read_exact_append [wire_simps]: "length xs = n \<Longrightarrow> read_exact n (xs @ rest) = Some (xs, rest)"
  by (simp add: read_exact_def)

lemma read_exact_None_iff: "read_exact n s = None \<longleftrightarrow> length s < n"
  by (simp add: read_exact_def)

lemma read_exact_Some_iff:
  "read_exact n s = Some (xs, rest) \<longleftrightarrow> s = xs @ rest \<and> length xs = n"
  by (auto simp: read_exact_def)

lemma read_u8_Cons [simp]: "read_u8 (b # rest) = Some (b, rest)"
  by (simp add: read_u8_def)

lemma read_u8_Nil [simp]: "read_u8 [] = None"
  by (simp add: read_u8_def)

lemma read_be_to_be [wire_simps]:
  fixes w :: "'a::len word"
  shows "LENGTH('a) \<le> 8 * n \<Longrightarrow> read_be n (to_be n w @ rest) = Some (w, rest)"
  by (simp add: read_be_def wire_simps)

lemma read_be_alt:
  "read_be n s = (if n \<le> length s then Some (from_be (take n s), drop n s) else None)"
  by (simp add: read_be_def read_exact_def)

lemma read_exact_more:
  "read_exact n s = Some (xs, rest) \<Longrightarrow> read_exact n (s @ more) = Some (xs, rest @ more)"
  by (auto simp: read_exact_Some_iff)

lemma read_be_more:
  "read_be n s = Some (w, rest) \<Longrightarrow> read_be n (s @ more) = Some (w, rest @ more)"
  by (auto simp: read_be_alt split: if_splits)

lemma read_u8_more:
  "read_u8 s = Some (b, rest) \<Longrightarrow> read_u8 (s @ more) = Some (b, rest @ more)"
  by (auto simp: read_u8_def split: list.splits)

lemmas read_more = read_exact_more read_be_more read_u8_more

lemma read_lengths:
  "read_exact n s = Some (xs, rest) \<Longrightarrow> length rest + n = length s"
  "read_be n s = Some (w, rest) \<Longrightarrow> length rest + n = length s"
  "read_u8 s = Some (b, rest) \<Longrightarrow> length rest + 1 = length s"
  by (auto simp: read_be_alt read_u8_def read_exact_def split: if_splits list.splits)

text \<open>The successful part of a result.\<close>

fun ok_of :: "'e + 'a \<Rightarrow> 'a option" where
  "ok_of (Inl e) = None"
| "ok_of (Inr x) = Some x"

lemma ok_of_Some_iff: "ok_of r = Some x \<longleftrightarrow> r = Inr x"
  by (cases r) auto

lemma ok_of_None_iff: "ok_of r = None \<longleftrightarrow> (\<exists>e. r = Inl e)"
  by (cases r) auto

subsection \<open>Bytes and sizes\<close>

lemma unat_u8_lt [simp]: "unat (b :: u8) < 256"
  using unsigned_less [of b] by simp

lemma unat_u16_lt [simp]: "unat (b :: u16) < 65536"
  using unsigned_less [of b] by simp

lemma unat_of_nat_u8: "n < 256 \<Longrightarrow> unat (of_nat n :: u8) = n"
  by (simp add: unsigned_of_nat take_bit_nat_eq_self)

lemma unat_of_nat_u16: "n < 65536 \<Longrightarrow> unat (of_nat n :: u16) = n"
  by (simp add: unsigned_of_nat take_bit_nat_eq_self)

lemma unat_of_nat_u64: "n < 2 ^ 64 \<Longrightarrow> unat (of_nat n :: u64) = n"
  by (simp add: unsigned_of_nat take_bit_nat_eq_self)

text \<open>\<open>u16::try_from\<close> and \<open>u8::try_from\<close> of a length.\<close>

definition u16_try_from :: "nat \<Rightarrow> u16 option" where
  "u16_try_from n = (if n < 65536 then Some (of_nat n) else None)"

definition u8_try_from :: "nat \<Rightarrow> u8 option" where
  "u8_try_from n = (if n < 256 then Some (of_nat n) else None)"

subsection \<open>Finite maps\<close>

definition hm_len :: "('k, 'v) fmap \<Rightarrow> nat" where
  "hm_len m = fcard (fmdom m)"

lemma hm_len_empty [simp]: "hm_len fmempty = 0"
  by (simp add: hm_len_def)

lemma hm_len_insert: "hm_len (fmupd k v m) = (if k |\<in>| fmdom m then hm_len m else Suc (hm_len m))"
  by (simp add: hm_len_def finsert_absorb fcard_finsert_disjoint)

lemma hm_len_insert_le: "hm_len (fmupd k v m) \<le> Suc (hm_len m)"
  by (simp add: hm_len_insert)

lemma hm_len_mono: "fmdom m |\<subseteq>| fmdom m' \<Longrightarrow> hm_len m \<le> hm_len m'"
  by (simp add: hm_len_def fcard_mono)

lemma hm_len_drop_le [simp]: "hm_len (fmdrop k m) \<le> hm_len m"
  by (rule hm_len_mono) auto

lemma hm_len_filter_le [simp]: "hm_len (fmfilter P m) \<le> hm_len m"
  by (rule hm_len_mono) auto

text \<open>\<open>HashMap::retain\<close> with a predicate on keys and values.\<close>

definition hm_retain :: "('k \<Rightarrow> 'v \<Rightarrow> bool) \<Rightarrow> ('k, 'v) fmap \<Rightarrow> ('k, 'v) fmap" where
  "hm_retain P m = fmfilter (\<lambda>k. case fmlookup m k of None \<Rightarrow> False | Some v \<Rightarrow> P k v) m"

lemma fmlookup_hm_retain:
  "fmlookup (hm_retain P m) k =
     (case fmlookup m k of None \<Rightarrow> None | Some v \<Rightarrow> if P k v then Some v else None)"
  by (simp add: hm_retain_def split: option.split)

lemma hm_len_retain_le [simp]: "hm_len (hm_retain P m) \<le> hm_len m"
  by (simp add: hm_retain_def)

end
