(* ===== verification/Rust_Std.thy ===== *)
theory Rust_Std
  imports Wire_Prelude
begin

text \<open>
  What the program uses of Rust's standard library on text: UTF-8 validation
  (\<open>String::from_utf8\<close>), lossy decoding (\<open>String::from_utf8_lossy\<close>), ASCII case
  folding, decimal numbers, and the parsers and printers of \<open>std::net\<close> addresses.
  Strings are their UTF-8 bytes throughout.
\<close>

subsection \<open>UTF-8\<close>

definition is_cont :: "u8 \<Rightarrow> bool" where
  "is_cont b \<longleftrightarrow> 0x80 \<le> b \<and> b \<le> 0xBF"

definition byte_at :: "bytes \<Rightarrow> nat \<Rightarrow> u8" where
  "byte_at bs i = (if i < length bs then bs ! i else 0)"

text \<open>
  \<open>utf8_step b bs\<close> reads one character whose first byte is \<open>b\<close>: whether it is well
  formed, and how many bytes of \<open>bs\<close> it takes. An ill-formed one takes the longest
  prefix that could have started a character (the Unicode maximal subpart).
\<close>

definition second_ok :: "u8 \<Rightarrow> u8 \<Rightarrow> bool" where
  "second_ok b c =
     (if b = 0xE0 then 0xA0 \<le> c \<and> c \<le> 0xBF
      else if b = 0xED then 0x80 \<le> c \<and> c \<le> 0x9F
      else if b = 0xF0 then 0x90 \<le> c \<and> c \<le> 0xBF
      else if b = 0xF4 then 0x80 \<le> c \<and> c \<le> 0x8F
      else is_cont c)"

definition utf8_step :: "u8 \<Rightarrow> bytes \<Rightarrow> bool \<times> nat" where
  "utf8_step b bs =
     (if b < 0x80 then (True, 0)
      else if 0xC2 \<le> b \<and> b \<le> 0xDF then
        (if is_cont (byte_at bs 0) then (True, 1) else (False, 0))
      else if 0xE0 \<le> b \<and> b \<le> 0xEF then
        (if \<not> second_ok b (byte_at bs 0) then (False, 0)
         else if \<not> is_cont (byte_at bs 1) then (False, 1) else (True, 2))
      else if 0xF0 \<le> b \<and> b \<le> 0xF4 then
        (if \<not> second_ok b (byte_at bs 0) then (False, 0)
         else if \<not> is_cont (byte_at bs 1) then (False, 1)
         else if \<not> is_cont (byte_at bs 2) then (False, 2) else (True, 3))
      else (False, 0))"

function utf8_valid :: "bytes \<Rightarrow> bool" where
  "utf8_valid [] = True"
| "utf8_valid (b # bs) = (fst (utf8_step b bs) \<and> utf8_valid (drop (snd (utf8_step b bs)) bs))"
  by pat_completeness auto
termination
  by (relation "measure length") auto

definition from_utf8 :: "bytes \<Rightarrow> bytes option" where
  "from_utf8 bs = (if utf8_valid bs then Some bs else None)"

function from_utf8_lossy :: "bytes \<Rightarrow> bytes" where
  "from_utf8_lossy [] = []"
| "from_utf8_lossy (b # bs) =
     (let (ok, k) = utf8_step b bs
      in (if ok then b # take k bs else [0xEF, 0xBF, 0xBD]) @ from_utf8_lossy (drop k bs))"
  by pat_completeness auto
termination
  by (relation "measure length") auto

lemma from_utf8_lossy_valid: "utf8_valid bs \<Longrightarrow> from_utf8_lossy bs = bs"
proof (induction bs rule: utf8_valid.induct)
  case 1
  then show ?case by simp
next
  case (2 b bs)
  obtain ok k where s: "utf8_step b bs = (ok, k)" by (cases "utf8_step b bs")
  from 2 s show ?case by simp
qed

lemma from_utf8_Some_iff: "from_utf8 bs = Some s \<longleftrightarrow> s = bs \<and> utf8_valid bs"
  by (auto simp: from_utf8_def)

lemma utf8_valid_ascii: "\<forall>b \<in> set bs. b < 0x80 \<Longrightarrow> utf8_valid bs"
  by (induction bs) (auto simp: utf8_step_def)

subsection \<open>ASCII case\<close>

definition to_ascii_lower :: "u8 \<Rightarrow> u8" where
  "to_ascii_lower b = (if 0x41 \<le> b \<and> b \<le> 0x5A then b + 0x20 else b)"

definition eq_ignore_ascii_case :: "bytes \<Rightarrow> bytes \<Rightarrow> bool" where
  "eq_ignore_ascii_case xs ys \<longleftrightarrow> map to_ascii_lower xs = map to_ascii_lower ys"

lemma eq_ignore_ascii_case_refl [simp]: "eq_ignore_ascii_case xs xs"
  by (simp add: eq_ignore_ascii_case_def)

lemma eq_ignore_ascii_case_length: "eq_ignore_ascii_case xs ys \<Longrightarrow> length xs = length ys"
  unfolding eq_ignore_ascii_case_def by (rule map_eq_imp_length_eq)

subsection \<open>Decimal and hexadecimal numbers\<close>

definition digit_val :: "nat \<Rightarrow> u8 \<Rightarrow> nat option" where
  "digit_val radix b =
     (let d = (if 0x30 \<le> b \<and> b \<le> 0x39 then Some (unat b - 0x30)
               else if 0x61 \<le> b \<and> b \<le> 0x7A then Some (unat b - 0x61 + 10)
               else if 0x41 \<le> b \<and> b \<le> 0x5A then Some (unat b - 0x41 + 10)
               else None)
      in case d of None \<Rightarrow> None | Some v \<Rightarrow> if v < radix then Some v else None)"

fun digits_val :: "nat \<Rightarrow> nat \<Rightarrow> bytes \<Rightarrow> nat option" where
  "digits_val radix acc [] = Some acc"
| "digits_val radix acc (b # bs) =
     (case digit_val radix b of None \<Rightarrow> None | Some d \<Rightarrow> digits_val radix (acc * radix + d) bs)"

text \<open>\<open>str::parse\<close> of an unsigned integer with the given maximum: an optional plus sign,
  then at least one digit, and no overflow.\<close>

definition parse_uint :: "nat \<Rightarrow> bytes \<Rightarrow> nat option" where
  "parse_uint maxval s =
     (let ds = (case s of b # rest \<Rightarrow> if b = 0x2B then rest else s | [] \<Rightarrow> [])
      in if ds = [] then None
         else case digits_val 10 0 ds of None \<Rightarrow> None
              | Some v \<Rightarrow> if v \<le> maxval then Some v else None)"

fun show_nat :: "nat \<Rightarrow> bytes" where
  "show_nat n = (if n < 10 then [of_nat (0x30 + n)] else show_nat (n div 10) @ [of_nat (0x30 + n mod 10)])"

declare show_nat.simps [simp del]

lemma digits_val_append:
  "digits_val r acc (xs @ ys) = Option.bind (digits_val r acc xs) (\<lambda>v. digits_val r v ys)"
  by (induction xs arbitrary: acc) (auto split: option.splits)

lemma digit_val_10: "d < 10 \<Longrightarrow> digit_val 10 (of_nat (0x30 + d)) = Some d"
proof -
  assume d: "d < 10"
  then have u: "unat (of_nat (0x30 + d) :: u8) = 0x30 + d"
    by (intro unat_of_nat_u8) simp
  with d show ?thesis
    by (simp add: digit_val_def word_le_nat_alt del: of_nat_add)
qed

lemma digits_val_show_nat: "digits_val 10 0 (show_nat n) = Some n"
proof (induction n rule: show_nat.induct)
  case (1 n)
  show ?case
  proof (cases "n < 10")
    case True
    then show ?thesis
      by (subst show_nat.simps) (simp add: digit_val_10 del: of_nat_add)
  next
    case False
    with "1.IH" have "digits_val 10 0 (show_nat (n div 10)) = Some (n div 10)" by simp
    with False show ?thesis
      by (subst show_nat.simps) (simp add: digits_val_append digit_val_10 del: of_nat_add)
  qed
qed

lemma show_nat_digit: "b \<in> set (show_nat n) \<Longrightarrow> 0x30 \<le> b \<and> b \<le> 0x39"
proof (induction n arbitrary: b rule: show_nat.induct)
  case (1 n)
  have dig: "0x30 \<le> (of_nat (0x30 + d) :: u8) \<and> (of_nat (0x30 + d) :: u8) \<le> 0x39" if "d < 10" for d
  proof -
    from that have "unat (of_nat (0x30 + d) :: u8) = 0x30 + d"
      by (intro unat_of_nat_u8) simp
    with that show ?thesis by (simp add: word_le_nat_alt del: of_nat_add)
  qed
  show ?case
  proof (cases "n < 10")
    case True
    with "1.prems" dig [of n] show ?thesis by (simp add: show_nat.simps del: of_nat_add)
  next
    case False
    with "1.prems" have "b \<in> set (show_nat (n div 10)) \<or> b = of_nat (0x30 + n mod 10)"
      by (auto simp: show_nat.simps [of n])
    with False "1.IH" dig [of "n mod 10"] show ?thesis by auto
  qed
qed

lemma show_nat_nonempty: "show_nat n \<noteq> []"
  by (subst show_nat.simps) simp

lemma parse_uint_show_nat: "n \<le> m \<Longrightarrow> parse_uint m (show_nat n) = Some n"
proof -
  assume le: "n \<le> m"
  obtain b rest where s: "show_nat n = b # rest"
    using show_nat_nonempty [of n] by (cases "show_nat n") auto
  then have "b \<noteq> 0x2B" using show_nat_digit [of b n] by (auto simp: word_le_nat_alt)
  with s le digits_val_show_nat [of n] show ?thesis
    by (simp add: parse_uint_def del: digits_val.simps)
qed

subsection \<open>Trimming white space\<close>

text \<open>The UTF-8 encodings of the characters with the Unicode property \<open>White_Space\<close>.\<close>

definition white_space :: "bytes list" where
  "white_space =
     [[0x09], [0x0A], [0x0B], [0x0C], [0x0D], [0x20], [0xC2, 0x85], [0xC2, 0xA0], [0xE1, 0x9A, 0x80],
      [0xE2, 0x80, 0x80], [0xE2, 0x80, 0x81], [0xE2, 0x80, 0x82], [0xE2, 0x80, 0x83], [0xE2, 0x80, 0x84],
      [0xE2, 0x80, 0x85], [0xE2, 0x80, 0x86], [0xE2, 0x80, 0x87], [0xE2, 0x80, 0x88], [0xE2, 0x80, 0x89],
      [0xE2, 0x80, 0x8A], [0xE2, 0x80, 0xA8], [0xE2, 0x80, 0xA9], [0xE2, 0x80, 0xAF], [0xE2, 0x81, 0x9F],
      [0xE3, 0x80, 0x80]]"

function strip_any :: "bytes list \<Rightarrow> bytes \<Rightarrow> bytes" where
  "strip_any ws s =
     (case find (\<lambda>w. w \<noteq> [] \<and> take (length w) s = w) ws of
        None \<Rightarrow> s
      | Some w \<Rightarrow> strip_any ws (drop (length w) s))"
  by pat_completeness auto
termination
  by (relation "measure (\<lambda>(_, s). length s)") (force simp: find_Some_iff intro!: diff_less)+

declare strip_any.simps [simp del]

definition trim_start :: "bytes \<Rightarrow> bytes" where
  "trim_start s = strip_any white_space s"

definition trim_end :: "bytes \<Rightarrow> bytes" where
  "trim_end s = rev (strip_any (map rev white_space) (rev s))"

definition trim :: "bytes \<Rightarrow> bytes" where
  "trim s = trim_end (trim_start s)"

lemma strip_any_id:
  assumes "\<forall>w \<in> set ws. w \<noteq> [] \<longrightarrow> s = [] \<or> hd w \<noteq> hd s"
  shows "strip_any ws s = s"
proof -
  have "find (\<lambda>w. w \<noteq> [] \<and> take (length w) s = w) ws = None"
    unfolding find_None_iff
  proof (intro notI, elim exE conjE)
    fix w
    assume w: "w \<in> set ws" "w \<noteq> []" "take (length w) s = w"
    then have "s \<noteq> []" by (metis take_Nil)
    with w have "hd w = hd s" by (metis hd_take length_greater_0_conv)
    with assms w \<open>s \<noteq> []\<close> show False by blast
  qed
  then show ?thesis by (subst strip_any.simps) simp
qed

text \<open>Text between printable ASCII characters is not trimmed.\<close>

definition graph_ascii :: "u8 \<Rightarrow> bool" where
  "graph_ascii b \<longleftrightarrow> 0x20 < b \<and> b < 0x80"

lemma trim_id:
  assumes "s = [] \<or> graph_ascii (hd s) \<and> graph_ascii (last s)"
  shows "trim s = s"
proof -
  have ws: "\<forall>w \<in> set white_space. \<not> graph_ascii (hd w) \<and> \<not> graph_ascii (hd (rev w)) \<and> w \<noteq> []"
    by (simp add: white_space_def graph_ascii_def)
  have "trim_start s = s"
    unfolding trim_start_def by (rule strip_any_id) (use assms ws in fastforce)
  moreover have "strip_any (map rev white_space) (rev s) = rev s"
    by (rule strip_any_id) (use assms ws in \<open>fastforce simp: hd_rev\<close>)
  ultimately show ?thesis by (simp add: trim_def trim_end_def)
qed

subsection \<open>Splitting\<close>

definition split_once :: "u8 \<Rightarrow> bytes \<Rightarrow> (bytes \<times> bytes) option" where
  "split_once c s =
     (let a = takeWhile (\<lambda>b. b \<noteq> c) s
      in if length a = length s then None else Some (a, drop (Suc (length a)) s))"

fun split_on :: "u8 \<Rightarrow> bytes \<Rightarrow> bytes list" where
  "split_on c [] = [[]]"
| "split_on c (b # bs) =
     (if b = c then [] # split_on c bs
      else case split_on c bs of p # ps \<Rightarrow> (b # p) # ps | [] \<Rightarrow> [[b]])"

text \<open>\<open>str::lines\<close>: the carriage return of a terminated line goes with the line feed, and a final
  empty line is not reported.\<close>

definition strip_cr :: "bytes \<Rightarrow> bytes" where
  "strip_cr s = (if s \<noteq> [] \<and> last s = 0x0D then butlast s else s)"

definition str_lines :: "bytes \<Rightarrow> bytes list" where
  "str_lines s =
     (let ps = split_on 0x0A s
      in map strip_cr (butlast ps) @ (if last ps = [] then [] else [last ps]))"

lemma split_on_prefix: "c \<notin> set l \<Longrightarrow> split_on c (l @ c # rest) = l # split_on c rest"
  by (induction l) auto

lemma split_on_nonempty [simp]: "split_on c s \<noteq> []"
  by (induction s) (auto split: list.splits)

lemma str_lines_prefix: "0x0A \<notin> set l \<Longrightarrow> str_lines (l @ 0x0A # rest) = strip_cr l # str_lines rest"
  by (simp add: str_lines_def split_on_prefix Let_def)

text \<open>Conversions between \<open>usize\<close> and \<open>i64\<close> with \<open>as\<close> reinterpret the 64 bits.\<close>

definition as_i64 :: "nat \<Rightarrow> int" where
  "as_i64 n = (if n < 2 ^ 63 then int n else int n - 2 ^ 64)"

definition as_usize :: "int \<Rightarrow> nat" where
  "as_usize i = nat (i mod 2 ^ 64)"

lemma as_usize_i64: "n < 2 ^ 64 \<Longrightarrow> as_usize (as_i64 n) = n"
proof -
  assume n: "n < 2 ^ 64"
  have "(int n - 2 ^ 64) mod 2 ^ 64 = int n mod 2 ^ 64" by (rule minus_mod_self2)
  with n show ?thesis by (simp add: as_i64_def as_usize_def)
qed

text \<open>\<open>Vec::resize(n, 0)\<close>. An allocation beyond \<open>isize::MAX\<close> bytes panics.\<close>

definition vec_resize :: "bytes \<Rightarrow> nat \<Rightarrow> bytes" where
  "vec_resize v n = take n v @ replicate (n - length v) 0"

abbreviation (input) ISIZE_MAX :: nat where
  "ISIZE_MAX \<equiv> 2 ^ 63 - 1"

subsection \<open>IP and socket addresses\<close>

datatype ip_addr = V4 "32 word" | V6 "128 word"

text \<open>\<open>SocketAddr\<close>: the IPv6 form also carries a flow label and a scope id.\<close>

datatype socket_addr = SockV4 "32 word" u16 | SockV6 "128 word" u16 u32 u32

fun sock_new :: "ip_addr \<Rightarrow> u16 \<Rightarrow> socket_addr" where
  "sock_new (V4 a) p = SockV4 a p"
| "sock_new (V6 a) p = SockV6 a p 0 0"

fun sock_ip :: "socket_addr \<Rightarrow> ip_addr" where
  "sock_ip (SockV4 a p) = V4 a"
| "sock_ip (SockV6 a p f s) = V6 a"

fun sock_port :: "socket_addr \<Rightarrow> u16" where
  "sock_port (SockV4 a p) = p"
| "sock_port (SockV6 a p f s) = p"

text \<open>The parsers of \<open>core::net::parser\<close>: each returns the value and the rest of the input,
  or \<open>None\<close> leaving the input unread.\<close>

type_synonym 'a parser = "bytes \<Rightarrow> ('a \<times> bytes) option"

definition read_given :: "u8 \<Rightarrow> unit parser" where
  "read_given c s = (case s of b # rest \<Rightarrow> if b = c then Some ((), rest) else None | [] \<Rightarrow> None)"

definition is_digit :: "nat \<Rightarrow> u8 \<Rightarrow> bool" where
  "is_digit radix b \<longleftrightarrow> digit_val radix b \<noteq> None"

definition read_number :: "nat \<Rightarrow> nat option \<Rightarrow> bool \<Rightarrow> nat \<Rightarrow> nat parser" where
  "read_number radix max_digits allow_zero_prefix maxval s =
     (let ds = takeWhile (is_digit radix) s;
          rest = dropWhile (is_digit radix) s;
          n = length ds
      in if n = 0 then None
         else if (case max_digits of None \<Rightarrow> False | Some m \<Rightarrow> n > m) then None
         else if \<not> allow_zero_prefix \<and> hd ds = 0x30 \<and> n > 1 then None
         else case digits_val radix 0 ds of None \<Rightarrow> None
              | Some v \<Rightarrow> if v \<le> maxval then Some (v, rest) else None)"

definition read_separator :: "u8 \<Rightarrow> nat \<Rightarrow> 'a parser \<Rightarrow> 'a parser" where
  "read_separator sep index inner s =
     (if index > 0
      then Option.bind (read_given sep s) (\<lambda>(_, s'). inner s')
      else inner s)"

definition read_octet :: "nat \<Rightarrow> nat parser" where
  "read_octet i = read_separator 0x2E i (read_number 10 (Some 3) False 255)"

definition read_ipv4_addr :: "(32 word) parser" where
  "read_ipv4_addr s =
     Option.bind (read_octet 0 s) (\<lambda>(a, s1).
     Option.bind (read_octet 1 s1) (\<lambda>(b, s2).
     Option.bind (read_octet 2 s2) (\<lambda>(c, s3).
     Option.bind (read_octet 3 s3) (\<lambda>(d, s4).
       Some (from_be [of_nat a, of_nat b, of_nat c, of_nat d], s4)))))"

text \<open>\<open>read_groups limit\<close> reads at most \<open>limit\<close> groups; the groups read so far are
  \<open>gs\<close>, and the flag tells whether a trailing dotted IPv4 address ended it.\<close>

function read_groups :: "nat \<Rightarrow> u16 list \<Rightarrow> bytes \<Rightarrow> u16 list \<times> bool \<times> bytes" where
  "read_groups limit gs s =
     (let i = length gs in
      if i \<ge> limit then (gs, False, s)
      else case (if i < limit - 1 then read_separator 0x3A i read_ipv4_addr s else None) of
        Some (a, s') \<Rightarrow> (gs @ [ucast (drop_bit 16 a), ucast a], True, s')
      | None \<Rightarrow>
          (case read_separator 0x3A i (read_number 16 (Some 4) True 65535) s of
             Some (g, s') \<Rightarrow> read_groups limit (gs @ [of_nat g]) s'
           | None \<Rightarrow> (gs, False, s)))"
  by pat_completeness auto
termination
  by (relation "measure (\<lambda>(limit, gs, s). limit - length gs)") auto

declare read_groups.simps [simp del]

definition groups_addr :: "u16 list \<Rightarrow> 128 word" where
  "groups_addr gs = from_be (concat (map (to_be 2) gs))"

definition read_ipv6_addr :: "(128 word) parser" where
  "read_ipv6_addr s =
     (let (head, head_ipv4, s1) = read_groups 8 [] s in
      if length head = 8 then Some (groups_addr head, s1)
      else if head_ipv4 then None
      else
        Option.bind (read_given 0x3A s1) (\<lambda>(_, s2).
        Option.bind (read_given 0x3A s2) (\<lambda>(_, s3).
          let (tail, _, s4) = read_groups (8 - (length head + 1)) [] s3 in
          Some (groups_addr (head @ replicate (8 - length head - length tail) 0 @ tail), s4))))"

text \<open>\<open>parse_with\<close>: the whole input must be read.\<close>

definition parse_all :: "'a parser \<Rightarrow> bytes \<Rightarrow> 'a option" where
  "parse_all p s = (case p s of Some (a, []) \<Rightarrow> Some a | _ \<Rightarrow> None)"

definition read_ip_addr :: "ip_addr parser" where
  "read_ip_addr s =
     (case read_ipv4_addr s of
        Some (a, s') \<Rightarrow> Some (V4 a, s')
      | None \<Rightarrow> map_option (\<lambda>(a, s'). (V6 a, s')) (read_ipv6_addr s))"

definition parse_ip_addr :: "bytes \<Rightarrow> ip_addr option" where
  "parse_ip_addr = parse_all read_ip_addr"

definition read_port :: "u16 parser" where
  "read_port s =
     Option.bind (read_given 0x3A s) (\<lambda>(_, s').
       map_option (\<lambda>(n, r). (of_nat n, r)) (read_number 10 None True 65535 s'))"

definition read_scope_id :: "u32 parser" where
  "read_scope_id s =
     Option.bind (read_given 0x25 s) (\<lambda>(_, s').
       map_option (\<lambda>(n, r). (of_nat n, r)) (read_number 10 None True 4294967295 s'))"

definition read_socket_addr_v4 :: "socket_addr parser" where
  "read_socket_addr_v4 s =
     Option.bind (read_ipv4_addr s) (\<lambda>(a, s1).
     Option.bind (read_port s1) (\<lambda>(p, s2). Some (SockV4 a p, s2)))"

definition read_socket_addr_v6 :: "socket_addr parser" where
  "read_socket_addr_v6 s =
     Option.bind (read_given 0x5B s) (\<lambda>(_, s1).
     Option.bind (read_ipv6_addr s1) (\<lambda>(a, s2).
     (let (scope, s3) = (case read_scope_id s2 of Some x \<Rightarrow> x | None \<Rightarrow> (0, s2)) in
     Option.bind (read_given 0x5D s3) (\<lambda>(_, s4).
     Option.bind (read_port s4) (\<lambda>(p, s5). Some (SockV6 a p 0 scope, s5))))))"

definition read_socket_addr :: "socket_addr parser" where
  "read_socket_addr s =
     (case read_socket_addr_v4 s of Some x \<Rightarrow> Some x | None \<Rightarrow> read_socket_addr_v6 s)"

definition parse_socket_addr :: "bytes \<Rightarrow> socket_addr option" where
  "parse_socket_addr = parse_all read_socket_addr"

text \<open>\<open>Display\<close> of addresses: IPv6 prints IPv4-mapped addresses dotted and otherwise
  compresses the first longest run of at least two zero groups.\<close>

definition show_hex_digit :: "nat \<Rightarrow> u8" where
  "show_hex_digit d = (if d < 10 then of_nat (0x30 + d) else of_nat (0x57 + d))"

fun show_hex :: "nat \<Rightarrow> bytes" where
  "show_hex n = (if n < 16 then [show_hex_digit n] else show_hex (n div 16) @ [show_hex_digit (n mod 16)])"

declare show_hex.simps [simp del]

fun join :: "bytes \<Rightarrow> bytes list \<Rightarrow> bytes" where
  "join sep [] = []"
| "join sep [x] = x"
| "join sep (x # y # xs) = x @ sep @ join sep (y # xs)"

definition show_ipv4 :: "32 word \<Rightarrow> bytes" where
  "show_ipv4 a = join [0x2E] (map (\<lambda>b. show_nat (unat b)) (to_be 4 a))"

definition addr_groups :: "128 word \<Rightarrow> u16 list" where
  "addr_groups a = map (\<lambda>i. ucast (drop_bit (16 * i) a)) (rev [0..<8])"

fun longest_zero_run :: "u16 list \<Rightarrow> nat \<Rightarrow> nat \<times> nat \<Rightarrow> nat \<times> nat \<Rightarrow> nat \<times> nat" where
  "longest_zero_run [] i cur best = best"
| "longest_zero_run (g # gs) i (cs, cl) (ls, ll) =
     (if g = 0 then
        (let cs' = (if cl = 0 then i else cs); cl' = cl + 1
         in longest_zero_run gs (i + 1) (cs', cl') (if cl' > ll then (cs', cl') else (ls, ll)))
      else longest_zero_run gs (i + 1) (0, 0) (ls, ll))"

definition show_groups :: "u16 list \<Rightarrow> bytes" where
  "show_groups gs = join [0x3A] (map (\<lambda>g. show_hex (unat g)) gs)"

definition show_ipv6 :: "128 word \<Rightarrow> bytes" where
  "show_ipv6 a =
     (let gs = addr_groups a in
      if take 5 gs = replicate 5 0 \<and> gs ! 5 = 0xFFFF
      then str ''::ffff:'' @ show_ipv4 (ucast a)
      else
        let (st, len) = longest_zero_run gs 0 (0, 0) (0, 0) in
        if len > 1
        then show_groups (take st gs) @ [0x3A, 0x3A] @ show_groups (drop (st + len) gs)
        else show_groups gs)"

fun show_ip :: "ip_addr \<Rightarrow> bytes" where
  "show_ip (V4 a) = show_ipv4 a"
| "show_ip (V6 a) = show_ipv6 a"

fun show_socket_addr :: "socket_addr \<Rightarrow> bytes" where
  "show_socket_addr (SockV4 a p) = show_ipv4 a @ [0x3A] @ show_nat (unat p)"
| "show_socket_addr (SockV6 a p f s) =
     (if s = 0 then [0x5B] @ show_ipv6 a @ [0x5D, 0x3A] @ show_nat (unat p)
      else [0x5B] @ show_ipv6 a @ [0x25] @ show_nat (unat s) @ [0x5D, 0x3A] @ show_nat (unat p))"

text \<open>Equations that evaluate the address parsers on concrete input.\<close>

lemmas ip_eval = parse_ip_addr_def parse_socket_addr_def parse_all_def read_ip_addr_def
  read_ipv4_addr_def read_octet_def read_separator_def read_number_def is_digit_def digit_val_def
  read_given_def read_ipv6_addr_def read_groups.simps read_socket_addr_def
  read_socket_addr_v4_def read_socket_addr_v6_def read_port_def read_scope_id_def Let_def

lemma sock_port_new [simp]: "sock_port (sock_new ip p) = p"
  by (cases ip) simp_all

lemma sock_ip_new [simp]: "sock_ip (sock_new ip p) = ip"
  by (cases ip) simp_all

subsection \<open>Printed IPv4 socket addresses parse back\<close>

lemma is_digit_10: "is_digit 10 b \<longleftrightarrow> 0x30 \<le> b \<and> b \<le> 0x39"
  by (auto simp: is_digit_def digit_val_def Let_def word_le_nat_alt split: if_splits)

lemma show_nat_takeWhile:
  assumes "\<not> is_digit 10 c"
  shows "takeWhile (is_digit 10) (show_nat n @ c # rest) = show_nat n"
    and "dropWhile (is_digit 10) (show_nat n @ c # rest) = c # rest"
    and "takeWhile (is_digit 10) (show_nat n) = show_nat n"
    and "dropWhile (is_digit 10) (show_nat n) = []"
  using assms show_nat_digit [of _ n]
  by (auto simp: takeWhile_append dropWhile_append takeWhile_eq_all_conv dropWhile_eq_Nil_conv is_digit_10)

lemma length_show_nat_3: "n < 1000 \<Longrightarrow> length (show_nat n) \<le> 3"
  by (simp add: show_nat.simps [of n] show_nat.simps [of "n div 10"] show_nat.simps [of "n div 10 div 10"])

lemma hd_show_nat: "hd (show_nat n) = 0x30 \<Longrightarrow> n = 0"
proof (induction n rule: show_nat.induct)
  case (1 n)
  show ?case
  proof (cases "n < 10")
    case True
    with 1 have "(of_nat (0x30 + n) :: u8) = of_nat 0x30"
      by (simp add: show_nat.simps)
    then have "unat (of_nat (0x30 + n) :: u8) = unat (of_nat 0x30 :: u8)"
      by (simp only:)
    with True show ?thesis
      by (simp only: unat_of_nat_u8)
  next
    case False
    with 1 have "n div 10 = 0"
      by (simp add: show_nat.simps [of n] hd_append show_nat_nonempty)
    with False show ?thesis by simp
  qed
qed

lemma read_number_show_nat:
  assumes "n \<le> m" and "\<not> is_digit 10 c"
  shows "read_number 10 None True m (show_nat n @ c # rest) = Some (n, c # rest)"
    and "read_number 10 None True m (show_nat n) = Some (n, [])"
  using assms by (simp_all add: read_number_def Let_def show_nat_takeWhile digits_val_show_nat show_nat_nonempty)

lemma read_octet_show:
  assumes "n \<le> 255" and "\<not> is_digit 10 c"
  shows "read_octet 0 (show_nat n @ c # rest) = Some (n, c # rest)"
    and "0 < i \<Longrightarrow> read_octet i (0x2E # show_nat n @ c # rest) = Some (n, c # rest)"
  using assms length_show_nat_3 [of n] hd_show_nat [of n]
  by (auto simp: read_octet_def read_separator_def read_given_def read_number_def Let_def show_nat_takeWhile
      digits_val_show_nat show_nat_nonempty show_nat.simps [of 0])

lemma to_be_4: "to_be 4 w = [ucast (drop_bit 24 w), ucast (drop_bit 16 w), ucast (drop_bit 8 w), ucast w]"
  by (simp add: to_be_def eval_nat_numeral)

lemma read_ipv4_show:
  assumes "\<not> is_digit 10 c"
  shows "read_ipv4_addr (show_ipv4 a @ c # rest) = Some (a, c # rest)"
proof -
  have dot: "\<not> is_digit 10 (0x2E :: u8)" by (simp add: is_digit_10)
  have le: "unat (b :: u8) \<le> 255" for b using unat_u8_lt [of b] by linarith
  have "from_be (to_be 4 a) = a" by (simp add: wire_simps)
  then show ?thesis
    unfolding read_ipv4_addr_def show_ipv4_def to_be_4
    by (simp add: read_octet_show [OF le dot] read_octet_show [OF le assms] del: One_nat_def)
qed

lemma parse_socket_addr_show_v4: "parse_socket_addr (show_socket_addr (SockV4 a p)) = Some (SockV4 a p)"
proof -
  have col: "\<not> is_digit 10 (0x3A :: u8)" by (simp add: is_digit_10)
  have le: "unat p \<le> 65535" using unat_u16_lt [of p] by linarith
  show ?thesis
    using read_number_show_nat(2) [OF le col]
    by (simp add: parse_socket_addr_def parse_all_def read_socket_addr_def read_socket_addr_v4_def
        read_ipv4_show [OF col] read_port_def read_given_def)
qed

end
