(* ===== verification/Target_Addr.thy ===== *)
theory Target_Addr
  imports Rust_Std
begin

text \<open>
  The destination address of a proxied connection, \<open>TargetAddr\<close> of
  \<open>src/src/proxy/mod.rs\<close>: its SOCKS5 / Trojan wire format (\<open>write_to\<close>,
  \<open>read_from\<close>, \<open>decode\<close>), and its text format (\<open>from_str\<close>, \<open>Display\<close>).
  The lemmas show that the streaming reader and the buffer decoder agree, that
  decoding is stable under more input, and that both formats round trip.
\<close>

datatype target_addr = Ip socket_addr | Domain bytes u16

datatype addr_error =
    UnexpectedEof
  | InvalidAtyp u8
  | InvalidDomain
  | NoPort
  | InvalidPort
  | EmptyHostname
  | HostnameTooLong

fun port :: "target_addr \<Rightarrow> u16" where
  "port (Ip addr) = sock_port addr"
| "port (Domain _ p) = p"

fun host :: "target_addr \<Rightarrow> bytes" where
  "host (Ip addr) = show_ip (sock_ip addr)"
| "host (Domain d _) = d"

subsection \<open>The SOCKS5 / Trojan encoding\<close>

fun encoded_len :: "target_addr \<Rightarrow> nat" where
  "encoded_len (Ip (SockV4 _ _)) = 1 + 4 + 2"
| "encoded_len (Ip (SockV6 _ _ _ _)) = 1 + 16 + 2"
| "encoded_len (Domain d _) = 1 + 1 + length d + 2"

text \<open>\<open>write_to\<close> appends to the packet; \<open>domain.len() as u8\<close> truncates.\<close>

fun write_to :: "target_addr \<Rightarrow> bytes \<Rightarrow> bytes" where
  "write_to (Ip (SockV4 a p)) packet = packet @ [1] @ to_be 4 a @ to_be 2 p"
| "write_to (Ip (SockV6 a p _ _)) packet = packet @ [4] @ to_be 16 a @ to_be 2 p"
| "write_to (Domain d p) packet = packet @ [3] @ [of_nat (length d)] @ d @ to_be 2 p"

definition to_bytes :: "target_addr \<Rightarrow> bytes" where
  "to_bytes t = write_to t []"

definition read_domain_target :: "bytes \<Rightarrow> u16 \<Rightarrow> addr_error + target_addr" where
  "read_domain_target raw p =
     (case from_utf8 raw of
        None \<Rightarrow> Inl InvalidDomain
      | Some d \<Rightarrow>
          (case parse_ip_addr d of
             Some ip \<Rightarrow> Inr (Ip (sock_new ip p))
           | None \<Rightarrow> Inr (Domain d p)))"

definition read_from :: "bytes \<Rightarrow> addr_error + target_addr \<times> bytes" where
  "read_from s0 =
     (case read_u8 s0 of None \<Rightarrow> Inl UnexpectedEof | Some (atyp, s1) \<Rightarrow>
      if atyp = 1 then
        (case read_exact 4 s1 of None \<Rightarrow> Inl UnexpectedEof | Some (ip, s2) \<Rightarrow>
         case read_be 2 s2 of None \<Rightarrow> Inl UnexpectedEof | Some (p, s3) \<Rightarrow>
           Inr (Ip (sock_new (V4 (from_be ip)) p), s3))
      else if atyp = 3 then
        (case read_u8 s1 of None \<Rightarrow> Inl UnexpectedEof | Some (len, s2) \<Rightarrow>
         case read_exact (unat len) s2 of None \<Rightarrow> Inl UnexpectedEof | Some (raw, s3) \<Rightarrow>
         case read_be 2 s3 of None \<Rightarrow> Inl UnexpectedEof | Some (p, s4) \<Rightarrow>
           bindr (read_domain_target raw p) (\<lambda>t. Inr (t, s4)))
      else if atyp = 4 then
        (case read_exact 16 s1 of None \<Rightarrow> Inl UnexpectedEof | Some (ip, s2) \<Rightarrow>
         case read_be 2 s2 of None \<Rightarrow> Inl UnexpectedEof | Some (p, s3) \<Rightarrow>
           Inr (Ip (sock_new (V6 (from_be ip)) p), s3))
      else Inl (InvalidAtyp atyp))"

definition slice :: "bytes \<Rightarrow> nat \<Rightarrow> nat \<Rightarrow> bytes" where
  "slice buf a b = take (b - a) (drop a buf)"

definition port_at :: "bytes \<Rightarrow> nat \<Rightarrow> u16" where
  "port_at buf at = from_be [buf ! at, buf ! (at + 1)]"

definition decode :: "bytes \<Rightarrow> addr_error + (target_addr \<times> nat) option" where
  "decode buf =
     (case buf of [] \<Rightarrow> Inr None | atyp # _ \<Rightarrow>
      if atyp = 1 then
        (if length buf < 7 then Inr None
         else Inr (Some (Ip (sock_new (V4 (from_be [buf ! 1, buf ! 2, buf ! 3, buf ! 4])) (port_at buf 5)), 7)))
      else if atyp = 3 then
        (if length buf < 2 then Inr None
         else
           let e = 2 + unat (buf ! 1) + 2 in
           if length buf < e then Inr None
           else bindr (read_domain_target (slice buf 2 (e - 2)) (port_at buf (e - 2)))
                  (\<lambda>t. Inr (Some (t, e))))
      else if atyp = 4 then
        (if length buf < 19 then Inr None
         else Inr (Some (Ip (sock_new (V6 (from_be (slice buf 1 17))) (port_at buf 17)), 19)))
      else Inl (InvalidAtyp atyp))"

definition dummy :: target_addr where
  "dummy = Ip (sock_new (V4 0) 0)"

subsection \<open>The text format\<close>

text \<open>\<open>s.rfind(':')\<close> with the parts before and after the last colon.\<close>

definition rsplit_colon :: "bytes \<Rightarrow> (bytes \<times> bytes) option" where
  "rsplit_colon s =
     (let tl = rev (takeWhile (\<lambda>b. b \<noteq> 0x3A) (rev s))
      in if length tl = length s then None
         else Some (take (length s - length tl - 1) s, tl))"

definition from_str :: "bytes \<Rightarrow> addr_error + target_addr" where
  "from_str s =
     (case parse_socket_addr s of
        Some addr \<Rightarrow> Inr (Ip addr)
      | None \<Rightarrow>
          (case rsplit_colon s of
             None \<Rightarrow> Inl NoPort
           | Some (h, port_str) \<Rightarrow>
               (case parse_uint 65535 port_str of
                  None \<Rightarrow> Inl InvalidPort
                | Some p \<Rightarrow>
                    if h = [] then Inl EmptyHostname
                    else if length h > 255 then Inl HostnameTooLong
                    else Inr (Domain h (of_nat p)))))"

definition from_str2 :: "bytes \<Rightarrow> u16 \<Rightarrow> addr_error + target_addr" where
  "from_str2 d p = from_str (d @ [0x3A] @ show_nat (unat p))"

fun target_to_string :: "target_addr \<Rightarrow> bytes" where
  "target_to_string (Ip addr) = show_socket_addr addr"
| "target_to_string (Domain d p) = d @ [0x3A] @ show_nat (unat p)"

subsection \<open>Lemmas: wire format\<close>

lemma write_to_append: "write_to t packet = packet @ to_bytes t"
  unfolding to_bytes_def by (cases "(t, packet)" rule: write_to.cases) simp_all

lemma length_to_bytes: "length (to_bytes t) = encoded_len t"
  unfolding to_bytes_def by (cases t rule: encoded_len.cases) simp_all

text \<open>What decoding makes of an encoded address: domain names that are IP literals become
  IP addresses, and IPv6 scope and flow label are not transmitted.\<close>

fun canonical :: "target_addr \<Rightarrow> target_addr" where
  "canonical (Ip addr) = Ip (sock_new (sock_ip addr) (sock_port addr))"
| "canonical (Domain d p) =
     (case parse_ip_addr d of Some ip \<Rightarrow> Ip (sock_new ip p) | None \<Rightarrow> Domain d p)"

fun encodable :: "target_addr \<Rightarrow> bool" where
  "encodable (Ip _) = True"
| "encodable (Domain d _) \<longleftrightarrow> utf8_valid d \<and> length d < 256"

lemma list_4: "4 \<le> length xs \<Longrightarrow> [xs ! 0, xs ! 1, xs ! 2, xs ! 3] = take 4 xs"
  by (cases xs rule: list.exhaust; cases "tl xs"; cases "tl (tl xs)"; cases "tl (tl (tl xs))")
    (auto simp: eval_nat_numeral)

lemma from_be_two: "2 \<le> length xs \<Longrightarrow> from_be [xs ! 0, xs ! 1] = from_be (take 2 xs)"
  by (cases xs rule: list.exhaust; cases "tl xs") (auto simp: eval_nat_numeral)

lemma port_at_drop: "k + 2 \<le> length buf \<Longrightarrow> port_at buf k = from_be (take 2 (drop k buf))"
  using from_be_two [of "drop k buf"] by (simp add: port_at_def le_diff_conv2)

text \<open>The streaming reader, expressed through the buffer decoder, one address type at a time.\<close>

definition stream_view :: "bytes \<Rightarrow> addr_error + (target_addr \<times> nat) option \<Rightarrow> addr_error + target_addr \<times> bytes" where
  "stream_view buf r =
     (case r of Inl e \<Rightarrow> Inl e
      | Inr None \<Rightarrow> Inl UnexpectedEof
      | Inr (Some (t, n)) \<Rightarrow> Inr (t, drop n buf))"

lemma read_from_v4: "read_from (1 # s) = stream_view (1 # s) (decode (1 # s))"
  using list_4 [of s]
  by (auto simp: stream_view_def decode_def read_from_def read_exact_def read_be_alt port_at_drop eval_nat_numeral)

lemma read_from_v6: "read_from (4 # s) = stream_view (4 # s) (decode (4 # s))"
  by (auto simp: stream_view_def decode_def read_from_def read_exact_def read_be_alt port_at_drop slice_def)

lemma read_from_domain: "read_from (3 # s) = stream_view (3 # s) (decode (3 # s))"
  by (cases s)
    (auto simp: stream_view_def decode_def read_from_def read_exact_def read_be_alt port_at_drop slice_def
      Let_def read_domain_target_def split: option.splits)

lemma read_from_stream_view: "read_from buf = stream_view buf (decode buf)"
proof (cases buf)
  case Nil
  then show ?thesis by (simp add: stream_view_def decode_def read_from_def)
next
  case (Cons b s)
  consider "b = 1" | "b = 3" | "b = 4" | "b \<notin> {1, 3, 4}" by blast
  then show ?thesis
  proof cases
    case 4
    with Cons show ?thesis by (simp add: stream_view_def decode_def read_from_def)
  qed (simp_all add: Cons read_from_v4 read_from_v6 read_from_domain)
qed

lemma decode_consumed: "decode buf = Inr (Some (t, n)) \<Longrightarrow> 0 < n \<and> n \<le> length buf"
  by (auto simp: decode_def Let_def bindr_Inr_iff split: list.splits if_splits)

lemma port_at_append: "k + 2 \<le> length buf \<Longrightarrow> port_at (buf @ more) k = port_at buf k"
  by (simp add: port_at_def nth_append)

lemma slice_append: "b \<le> length buf \<Longrightarrow> slice (buf @ more) a b = slice buf a b"
  by (simp add: slice_def)

lemma decode_append:
  assumes "decode buf = Inr (Some (t, n))"
  shows "decode (buf @ more) = Inr (Some (t, n))"
proof (cases buf)
  case Nil
  with assms show ?thesis by (simp add: decode_def)
next
  case (Cons b s)
  then show ?thesis using assms port_at_append [of _ buf more] slice_append [of _ buf more]
    by (auto simp: decode_def nth_append Let_def split: if_splits)
qed

lemma decode_invalid_append: "decode buf = Inl e \<Longrightarrow> decode (buf @ more) = Inl e"
proof (cases buf)
  case (Cons b s)
  assume "decode buf = Inl e"
  with Cons show ?thesis using port_at_append [of _ buf more] slice_append [of _ buf more]
    by (auto simp: decode_def nth_append Let_def split: if_splits)
qed (simp add: decode_def)

lemma read_from_to_bytes:
  assumes "encodable t"
  shows "read_from (to_bytes t @ rest) = Inr (canonical t, rest)"
proof (cases t rule: encoded_len.cases)
  case (3 d p)
  with assms have "unat (of_nat (length d) :: u8) = length d"
    by (intro unat_of_nat_u8) simp
  with 3 assms show ?thesis
    by (simp add: to_bytes_def read_from_def wire_simps read_domain_target_def from_utf8_def
        del: of_nat_unat split: option.split)
qed (simp_all add: to_bytes_def read_from_def wire_simps)

lemma decode_to_bytes:
  assumes "encodable t"
  shows "decode (to_bytes t @ rest) = Inr (Some (canonical t, encoded_len t))"
proof -
  let ?buf = "to_bytes t @ rest"
  from read_from_to_bytes [OF assms, of rest]
  have sv: "stream_view ?buf (decode ?buf) = Inr (canonical t, rest)"
    by (simp add: read_from_stream_view)
  then obtain n where d: "decode ?buf = Inr (Some (canonical t, n))" and r: "rest = drop n ?buf"
    by (auto simp: stream_view_def split: sum.splits option.splits)
  from r decode_consumed [OF d] have "n = length (to_bytes t)"
    by (metis add_diff_cancel_right' diff_diff_cancel length_append length_drop)
  with d show ?thesis by (simp add: length_to_bytes)
qed

subsection \<open>Lemmas: text format\<close>

lemma rsplit_colon_last:
  assumes "0x3A \<notin> set post"
  shows "rsplit_colon (h @ 0x3A # post) = Some (h, post)"
proof -
  have "takeWhile (\<lambda>b. b \<noteq> 0x3A) (rev post @ 0x3A # rev h) = rev post"
    using assms by (subst takeWhile_append2) auto
  then show ?thesis by (simp add: rsplit_colon_def)
qed

lemma rsplit_colon_Some:
  assumes "rsplit_colon s = Some (h, post)"
  shows "s = h @ 0x3A # post \<and> 0x3A \<notin> set post"
proof -
  let ?r = "takeWhile (\<lambda>b. b \<noteq> 0x3A) (rev s)" and ?d = "dropWhile (\<lambda>b. b \<noteq> 0x3A) (rev s)"
  have split: "rev s = ?r @ ?d" by simp
  from assms have post_eq: "post = rev ?r" and ne: "length ?r \<noteq> length s"
    by (auto simp: rsplit_colon_def Let_def split: if_splits)
  from ne split have "?d \<noteq> []" by (metis append_Nil2 length_rev)
  then obtain q where d: "?d = 0x3A # q"
    by (metis (mono_tags, lifting) hd_dropWhile list.collapse)
  from split d have "s = rev q @ 0x3A # post"
    by (metis append.assoc append_Cons append_Nil rev.simps(2) rev_append rev_rev_ident post_eq)
  moreover have "0x3A \<notin> set post" unfolding post_eq
    by (auto dest: set_takeWhileD)
  ultimately show ?thesis
    using assms rsplit_colon_last [of post "rev q"] by auto
qed

lemma show_nat_no_colon: "0x3A \<notin> set (show_nat n)"
  using show_nat_digit [of "0x3A" n] by (auto simp: word_le_nat_alt)

lemma from_str_domain:
  assumes "h \<noteq> []" and "length h \<le> 255"
    and "parse_socket_addr (target_to_string (Domain h p)) = None"
  shows "from_str (target_to_string (Domain h p)) = Inr (Domain h p)"
proof -
  have "unat p \<le> 65535" using unat_u16_lt [of p] by linarith
  then show ?thesis using assms
    by (simp add: from_str_def rsplit_colon_last show_nat_no_colon parse_uint_show_nat)
qed

subsection \<open>Properties\<close>

text \<open>Wire round trip. An encodable address followed by arbitrary bytes is decoded, by the
  buffer decoder and by the streaming reader, to its canonical form, consuming exactly its
  encoding.\<close>

theorem target_wire_roundtrip:
  assumes "encodable t"
  shows "decode (to_bytes t @ rest) = Inr (Some (canonical t, encoded_len t)) \<and>
    read_from (to_bytes t @ rest) = Inr (canonical t, rest) \<and> length (to_bytes t) = encoded_len t"
  using assms by (simp add: decode_to_bytes read_from_to_bytes length_to_bytes)

theorem target_wire_roundtrip_witness:
  "decode (to_bytes (Domain (str ''a.io'') 443) @ [7, 7]) = Inr (Some (Domain (str ''a.io'') 443, 8))"
proof -
  have "encodable (Domain (str ''a.io'') 443)"
    using utf8_valid_ascii [of "str ''a.io''"] by (simp add: word_less_nat_alt del: utf8_valid.simps)
  moreover have "canonical (Domain (str ''a.io'') 443) = Domain (str ''a.io'') 443"
    by (simp add: ip_eval)
  ultimately show ?thesis using target_wire_roundtrip [of "Domain (str ''a.io'') 443" "[7, 7]"] by simp
qed

text \<open>The streaming reader and the incremental buffer decoder agree on every input: the
  reader fails with end-of-file exactly where the decoder asks for more bytes, fails with the
  same error, and otherwise yields the same address and leaves the undecoded bytes.\<close>

theorem read_from_agrees_decode:
  "read_from buf =
     (case decode buf of Inl e \<Rightarrow> Inl e
      | Inr None \<Rightarrow> Inl UnexpectedEof
      | Inr (Some (t, n)) \<Rightarrow> Inr (t, drop n buf))"
  using read_from_stream_view [of buf] by (simp add: stream_view_def)

text \<open>Incremental decoding is stable: once an address is decoded, more input never changes
  it, every shorter prefix of what was consumed asks for more bytes (it neither decodes to
  something else nor is rejected), and at least one byte is consumed.\<close>

theorem decode_incremental:
  assumes "decode buf = Inr (Some (t, n))"
  shows "decode (buf @ m) = Inr (Some (t, n)) \<and> 0 < n \<and> n \<le> length buf \<and>
    (k < n \<longrightarrow> decode (take k buf) = Inr None)"
proof -
  have "decode (take k buf) = Inr None" if k: "k < n"
  proof (cases "decode (take k buf)")
    case (Inl e)
    from decode_invalid_append [OF Inl, of "drop k buf"] assms show ?thesis by simp
  next
    case (Inr r)
    show ?thesis
    proof (cases r)
      case (Some q)
      then obtain t' n' where d: "decode (take k buf) = Inr (Some (t', n'))" using Inr by (cases q) simp
      from decode_append [OF d, of "drop k buf"] assms decode_consumed [OF d] k show ?thesis by simp
    qed (simp add: Inr)
  qed
  with assms decode_append [OF assms] decode_consumed [OF assms] show ?thesis by blast
qed

theorem decode_incremental_witness:
  "decode ([1, 10, 0, 0, 1, 0, 80] @ [9]) = Inr (Some (Ip (SockV4 0x0A000001 80), 7)) \<and>
   decode (take 3 [1, 10, 0, 0, 1, 0, 80]) = Inr None"
proof -
  have "decode [1, 10, 0, 0, 1, 0, 80] = Inr (Some (Ip (SockV4 0x0A000001 80), 7))"
    by (simp add: decode_def port_at_def from_be_def)
  from decode_incremental [OF this, of "[9]" 3] show ?thesis by simp
qed

text \<open>Text round trip. Parsing the printed form of an address gives the address back: for
  every IPv4 socket address, and for every host name of 1 to 255 bytes whose printed form is
  not itself a socket address literal.\<close>

theorem target_text_roundtrip:
  assumes "(\<exists>a p. t = Ip (SockV4 a p)) \<or>
    (\<exists>h p. t = Domain h p \<and> h \<noteq> [] \<and> length h \<le> 255 \<and> parse_socket_addr (target_to_string t) = None)"
  shows "from_str (target_to_string t) = Inr t"
  using assms
proof (elim disjE exE conjE)
  fix a p
  assume "t = Ip (SockV4 a p)"
  then show ?thesis
    using parse_socket_addr_show_v4 [of a p] by (simp add: from_str_def del: show_socket_addr.simps)
next
  fix h p
  assume "t = Domain h p" "h \<noteq> []" "length h \<le> 255" "parse_socket_addr (target_to_string t) = None"
  then show ?thesis by (simp add: from_str_domain del: target_to_string.simps)
qed

theorem target_text_roundtrip_witness:
  "from_str (target_to_string (Ip (SockV4 0x01020304 53))) = Inr (Ip (SockV4 0x01020304 53))"
  by (rule target_text_roundtrip) simp

end
