(* ===== verification/Codec.thy ===== *)
theory Codec
  imports Wire_Prelude
begin

text \<open>
  The two contracts the wire formats of the program satisfy, as locales.
  \<open>stream_codec\<close>: a decoder undoes an encoder and hands back what follows.
  \<open>incremental_decoder\<close>: a decoder over a growing buffer never changes its mind
  when more bytes arrive, and consumes what it decodes.
  Inside them: sequences of messages decode to themselves, encodings are prefix
  free, and the messages cut out of a byte stream do not depend on how the stream
  was split into reads.
\<close>

subsection \<open>Running a decoder over a sequence of messages\<close>

fun decode_n :: "(bytes \<Rightarrow> ('f \<times> bytes) option) \<Rightarrow> nat \<Rightarrow> bytes \<Rightarrow> ('f list \<times> bytes) option" where
  "decode_n dec 0 s = Some ([], s)"
| "decode_n dec (Suc n) s =
     (case dec s of None \<Rightarrow> None
      | Some (f, s') \<Rightarrow> map_option (\<lambda>(fs, r). (f # fs, r)) (decode_n dec n s'))"

function drain :: "(bytes \<Rightarrow> ('f \<times> bytes) option) \<Rightarrow> bytes \<Rightarrow> 'f list \<times> bytes" where
  "drain dec b =
     (case dec b of None \<Rightarrow> ([], b)
      | Some (f, r) \<Rightarrow>
          if length r < length b then (let (fs, q) = drain dec r in (f # fs, q)) else ([f], r))"
  by pat_completeness auto
termination
  by (relation "measure (\<lambda>(dec, b). length b)") auto

declare drain.simps [simp del]

text \<open>Chunks arrive one after the other; after each, all complete messages are taken.\<close>

fun feed :: "(bytes \<Rightarrow> ('f \<times> bytes) option) \<Rightarrow> bytes \<Rightarrow> bytes list \<Rightarrow> 'f list \<times> bytes" where
  "feed dec b [] = ([], b)"
| "feed dec b (c # cs) =
     (let (fs, r) = drain dec (b @ c); (gs, q) = feed dec r cs in (fs @ gs, q))"

subsection \<open>The contracts\<close>

locale stream_codec =
  fixes ok :: "'f \<Rightarrow> bool"
    and enc :: "'f \<Rightarrow> bytes"
    and dec :: "bytes \<Rightarrow> ('f \<times> bytes) option"
  assumes dec_enc: "ok f \<Longrightarrow> dec (enc f @ rest) = Some (f, rest)"
begin

lemma decode_n_concat:
  assumes "list_all ok fs"
  shows "decode_n dec (length fs) (concat (map enc fs) @ rest) = Some (fs, rest)"
  using assms by (induction fs) (simp_all add: dec_enc)

lemma prefix_free:
  assumes "ok f" and "ok g" and "enc f @ r = enc g @ q"
  shows "f = g \<and> r = q"
  using dec_enc [OF assms(1), of r] dec_enc [OF assms(2), of q] assms(3)
  by (metis option.inject prod.inject)

end

locale incremental_decoder =
  fixes dec :: "bytes \<Rightarrow> ('f \<times> bytes) option"
  assumes dec_more: "dec b = Some (f, r) \<Longrightarrow> dec (b @ more) = Some (f, r @ more)"
    and dec_consumes: "dec b = Some (f, r) \<Longrightarrow> length r < length b"
begin

lemma drain_Some: "dec b = Some (f, r) \<Longrightarrow> drain dec b = (f # fst (drain dec r), snd (drain dec r))"
  by (subst drain.simps) (simp add: dec_consumes split_beta)

lemma drain_None: "dec b = None \<Longrightarrow> drain dec b = ([], b)"
  by (subst drain.simps) simp

lemma drain_done: "dec (snd (drain dec b)) = None"
proof (induction "length b" arbitrary: b rule: less_induct)
  case less
  show ?case
  proof (cases "dec b")
    case None
    then show ?thesis by (simp add: drain_None)
  next
    case (Some p)
    then obtain f r where d: "dec b = Some (f, r)" by (cases p) simp
    from less [OF dec_consumes [OF d]] d show ?thesis by (simp add: drain_Some)
  qed
qed

lemma drain_append:
  "drain dec (b @ c) =
     (fst (drain dec b) @ fst (drain dec (snd (drain dec b) @ c)),
      snd (drain dec (snd (drain dec b) @ c)))"
proof (induction "length b" arbitrary: b rule: less_induct)
  case less
  show ?case
  proof (cases "dec b")
    case None
    then show ?thesis by (simp add: drain_None)
  next
    case (Some p)
    then obtain f r where d: "dec b = Some (f, r)" by (cases p) simp
    from less [OF dec_consumes [OF d]] d dec_more [OF d, of c]
    show ?thesis by (simp add: drain_Some)
  qed
qed

lemma feed_eq_drain:
  assumes "dec b = None"
  shows "feed dec b cs = drain dec (b @ concat cs)"
  using assms
proof (induction cs arbitrary: b)
  case Nil
  then show ?case by (simp add: drain_None)
next
  case (Cons c cs)
  let ?r = "snd (drain dec (b @ c))"
  have "feed dec ?r cs = drain dec (?r @ concat cs)"
    by (rule Cons.IH) (rule drain_done)
  moreover have "drain dec (b @ concat (c # cs)) = drain dec ((b @ c) @ concat cs)" by simp
  ultimately show ?case
    by (simp only: feed.simps drain_append [of "b @ c"]) (simp add: split_beta)
qed

end

locale incremental_codec = stream_codec ok enc dec + incremental_decoder dec
  for ok :: "'f \<Rightarrow> bool" and enc :: "'f \<Rightarrow> bytes" and dec :: "bytes \<Rightarrow> ('f \<times> bytes) option"
begin

lemma drain_concat:
  assumes "list_all ok fs"
  shows "drain dec (concat (map enc fs) @ rest) = (fs @ fst (drain dec rest), snd (drain dec rest))"
  using assms by (induction fs) (simp_all add: drain_Some dec_enc)

text \<open>However the encoded messages are split into chunks, feeding the chunks gives back
  exactly the messages.\<close>

lemma feed_concat:
  assumes "list_all ok fs" and "concat cs = concat (map enc fs) @ rest"
    and "dec [] = None" and "dec rest = None"
  shows "feed dec [] cs = (fs, rest)"
  using assms by (simp add: feed_eq_drain drain_concat drain_None)

end

end
