(* ===== verification/Read_Ahead.thy ===== *)
theory Read_Ahead
  imports Codec
begin

text \<open>
  The read-ahead buffer of \<open>src/src/utils/read_ahead.rs\<close>. A stream is the script of
  its \<open>poll_read\<close> results: not ready yet, an I/O error, or bytes (no bytes means end of
  stream, as does the end of the script). \<open>poll_fill\<close> returns the new stream and
  buffer also when it is not ready, so a caller that gives up keeps them.
\<close>

datatype poll_read = Pending | Failed | Data bytes

type_synonym stream = "poll_read list"

datatype fill_result = FillPending | Filled | CleanEof | EofInFrame | FillFailed

definition fill_eof :: "bool \<Rightarrow> bytes \<Rightarrow> fill_result" where
  "fill_eof allow_eof buf = (if allow_eof \<and> buf = [] then CleanEof else EofInFrame)"

fun poll_fill :: "stream \<Rightarrow> bytes \<Rightarrow> nat \<Rightarrow> bool \<Rightarrow> fill_result \<times> stream \<times> bytes" where
  "poll_fill [] buf count allow_eof =
     (if count \<le> length buf then (Filled, [], buf) else (fill_eof allow_eof buf, [], buf))"
| "poll_fill (r # st) buf count allow_eof =
     (if count \<le> length buf then (Filled, r # st, buf)
      else case r of
        Pending \<Rightarrow> (FillPending, st, buf)
      | Failed \<Rightarrow> (FillFailed, st, buf)
      | Data d \<Rightarrow> if d = [] then (fill_eof allow_eof buf, st, buf)
                  else poll_fill st (buf @ d) count allow_eof)"

lemma poll_fill_pending_shorter:
  "poll_fill st buf count e = (FillPending, st', buf') \<Longrightarrow> length st' < length st"
  by (induction st buf count e rule: poll_fill.induct)
    (auto simp: fill_eof_def split: if_splits poll_read.splits)

text \<open>The awaited form: polled again each time the stream becomes ready.\<close>

function fill :: "stream \<Rightarrow> bytes \<Rightarrow> nat \<Rightarrow> bool \<Rightarrow> fill_result \<times> stream \<times> bytes" where
  "fill st buf count allow_eof =
     (let (r, st', buf') = poll_fill st buf count allow_eof
      in if r = FillPending then fill st' buf' count allow_eof else (r, st', buf'))"
  by pat_completeness auto
termination
  by (relation "measure (\<lambda>(st, _). length st)") (auto dest: poll_fill_pending_shorter [OF sym])

declare fill.simps [simp del]

text \<open>The bytes a stream delivers before it ends or fails.\<close>

fun wire :: "stream \<Rightarrow> bytes" where
  "wire [] = []"
| "wire (Pending # st) = wire st"
| "wire (Failed # st) = []"
| "wire (Data d # st) = (if d = [] then [] else d @ wire st)"

text \<open>Nothing that was read is lost, whatever the outcome.\<close>

lemma poll_fill_enough:
  assumes "count \<le> length (buf @ wire st)" and "poll_fill st buf count e = (r, st', buf')"
  shows "(r = Filled \<and> count \<le> length buf' \<or> r = FillPending) \<and> buf' @ wire st' = buf @ wire st"
  using assms
  by (induction st buf count e rule: poll_fill.induct) (auto split: if_splits poll_read.splits)

lemma fill_step:
  "fill st buf count e =
     (case poll_fill st buf count e of
        (FillPending, st', buf') \<Rightarrow> fill st' buf' count e
      | other \<Rightarrow> other)"
  by (subst fill.simps) (auto simp: Let_def split: prod.splits fill_result.splits)

lemma fill_enough:
  assumes "count \<le> length (buf @ wire st)"
  obtains st' buf' where "fill st buf count e = (Filled, st', buf')"
    and "count \<le> length buf'" and "buf' @ wire st' = buf @ wire st"
proof -
  from assms have "\<exists>st' buf'. fill st buf count e = (Filled, st', buf') \<and> count \<le> length buf' \<and>
      buf' @ wire st' = buf @ wire st"
  proof (induction st buf count e rule: fill.induct)
    case (1 st buf count e)
    obtain r st1 buf1 where p: "poll_fill st buf count e = (r, st1, buf1)"
      by (cases "poll_fill st buf count e")
    note q = poll_fill_enough [OF "1.prems" p]
    show ?case
    proof (cases "r = FillPending")
      case True
      moreover have "count \<le> length (buf1 @ wire st1)" using "1.prems" q by simp
      ultimately show ?thesis using "1.IH" [OF p [symmetric] refl] p q
        by (auto simp: fill_step [of st])
    next
      case False
      with p q show ?thesis by (auto simp: fill_step [of st])
    qed
  qed
  with that show thesis by blast
qed

lemma poll_fill_short:
  assumes "length (buf @ wire st) < count" and "poll_fill st buf count e = (r, st', buf')"
  shows "(r = FillPending \<longrightarrow> buf' @ wire st' = buf @ wire st) \<and> r \<noteq> Filled"
  using assms
  by (induction st buf count e rule: poll_fill.induct)
    (auto simp: fill_eof_def split: if_splits poll_read.splits)

lemma fill_short:
  assumes "length (buf @ wire st) < count"
  shows "fst (fill st buf count e) \<in> {CleanEof, EofInFrame, FillFailed}"
  using assms
proof (induction st buf count e rule: fill.induct)
  case (1 st buf count e)
  obtain r st1 buf1 where p: "poll_fill st buf count e = (r, st1, buf1)"
    by (cases "poll_fill st buf count e")
  note q = poll_fill_short [OF "1.prems" p]
  show ?case
  proof (cases "r = FillPending")
    case True
    with q "1.prems" have "length (buf1 @ wire st1) < count" by metis
    with True show ?thesis using "1.IH" [OF p [symmetric] refl] p by (simp add: fill_step [of st])
  next
    case False
    with p q show ?thesis by (cases r) (simp_all add: fill_step [of st])
  qed
qed

lemma fill_Filled_iff: "fst (fill st buf count e) = Filled \<longleftrightarrow> count \<le> length (buf @ wire st)"
  using fill_short [of buf st count e] fill_enough [of count buf st e]
  by (metis fill_result.distinct(9,15,17,11,13) fst_conv insertE linorder_not_less singletonD)

text \<open>Giving up while not ready and calling again later gives the same result.\<close>

lemma fill_resume:
  "poll_fill st buf count e = (FillPending, st', buf') \<Longrightarrow> fill st buf count e = fill st' buf' count e"
  by (simp add: fill_step [of st])

lemma poll_fill_prefix: "poll_fill st buf count e = (r, st', buf') \<Longrightarrow> \<exists>d. buf' = buf @ d"
  by (induction st buf count e rule: poll_fill.induct)
    (fastforce split: if_splits poll_read.splits)+

lemma poll_fill_ready: "count \<le> length buf \<Longrightarrow> poll_fill st buf count e = (Filled, st, buf)"
  by (cases st) simp_all

lemma fill_ready: "count \<le> length buf \<Longrightarrow> fill st buf count e = (Filled, st, buf)"
  by (simp add: fill_step [of st] poll_fill_ready)

lemma fill_of_poll:
  "poll_fill st buf count e = (r, st', buf') \<Longrightarrow> r \<noteq> FillPending \<Longrightarrow> fill st buf count e = (r, st', buf')"
  by (cases r) (simp_all add: fill_step [of st])

lemma poll_fill_Filled_length:
  "poll_fill st buf count e = (Filled, st', buf') \<Longrightarrow> count \<le> length buf'"
  by (induction st buf count e rule: poll_fill.induct)
    (auto simp: fill_eof_def split: if_splits poll_read.splits)

text \<open>A fill that asks for more than there is takes something from the stream.\<close>

lemma poll_fill_progress: "poll_fill st buf n e = (r, st', buf') \<Longrightarrow> length buf < n \<Longrightarrow> st \<noteq> [] \<Longrightarrow> length st' < length st"
proof (induction st buf n e rule: poll_fill.induct)
  case (2 r st buf n e)
  then show ?case by (cases st) (auto split: poll_read.splits if_splits dest: less_SucI)
qed simp

lemma poll_fill_nil: "poll_fill [] buf n e = (r, st', buf') \<Longrightarrow> length buf < n \<Longrightarrow> r \<noteq> Filled"
  by (auto simp: fill_eof_def split: if_splits)

lemma poll_fill_pending: "poll_fill st buf n e = (FillPending, st', buf') \<Longrightarrow> length buf' < n"
  by (induction st buf n e rule: poll_fill.induct) (auto simp: fill_eof_def split: poll_read.splits if_splits)

lemma fill_progress:
  assumes "fill st buf n e = (Filled, st', buf')" and "length buf < n"
  shows "length st' < length st"
  using assms
proof (induction st buf n e rule: fill.induct)
  case (1 st buf n e)
  obtain r st1 buf1 where p: "poll_fill st buf n e = (r, st1, buf1)" by (cases "poll_fill st buf n e")
  show ?case
  proof (cases "r = FillPending")
    case True
    with p "1.prems"(1) have "fill st1 buf1 n e = (Filled, st', buf')" by (simp add: fill_step [of st])
    from "1.IH" [OF p [symmetric] refl refl True this] poll_fill_pending poll_fill_pending_shorter p True show ?thesis
      by (meson less_trans)
  next
    case False
    with p "1.prems"(1) have r: "r = Filled" "st1 = st'" by (auto simp: fill_step [of st] split: fill_result.splits)
    then show ?thesis using poll_fill_progress [OF p "1.prems"(2)] poll_fill_nil p "1.prems"(2) by (cases "st = []") auto
  qed
qed

end
