(* ===== verification/Anytls_Proto.thy ===== *)
theory Anytls_Proto
  imports Target_Addr Read_Ahead
begin

text \<open>
  The AnyTLS wire protocol of \<open>src/src/proxy/anytls_proto.rs\<close>: frame commands, the
  frame reader over a read-ahead buffer, the unread tail of a stream, and the
  UDP-over-TCP (UoT) packets with their own address format and incremental decoder.
  Frames and UoT packets are interpreted as incremental codecs, which gives
  independence of the read boundaries.
\<close>

subsection \<open>UoT addresses\<close>

datatype uot_error =
    EmptyUotPacket
  | UotV4TooShort
  | UotV6TooShort
  | UotDomainTooShort
  | UotDomainLengthTooShort
  | UnknownUotAtyp u8
  | UotPayloadTooLong
  | UotTooShortForLength
  | UotTooShortForPayload

fun uot_write_target :: "target_addr \<Rightarrow> bytes \<Rightarrow> bytes" where
  "uot_write_target (Ip (SockV4 a p)) buf = buf @ [0x00] @ to_be 4 a @ to_be 2 p"
| "uot_write_target (Ip (SockV6 a p _ _)) buf = buf @ [0x01] @ to_be 16 a @ to_be 2 p"
| "uot_write_target (Domain d p) buf = buf @ [0x02] @ [of_nat (length d)] @ d @ to_be 2 p"

definition uot_encode_target :: "target_addr \<Rightarrow> bytes" where
  "uot_encode_target t = uot_write_target t []"

definition uot_decode_target :: "bytes \<Rightarrow> uot_error + target_addr \<times> nat" where
  "uot_decode_target data =
     (case data of [] \<Rightarrow> Inl EmptyUotPacket | atyp # _ \<Rightarrow>
      if atyp = 0x00 then
        (if length data < 7 then Inl UotV4TooShort
         else Inr (Ip (SockV4 (from_be (slice data 1 5)) (port_at data 5)), 7))
      else if atyp = 0x01 then
        (if length data < 19 then Inl UotV6TooShort
         else Inr (Ip (SockV6 (from_be (slice data 1 17)) (port_at data 17) 0 0), 19))
      else if atyp = 0x02 then
        (if length data < 2 then Inl UotDomainTooShort
         else
           let domain_len = unat (data ! 1) in
           if length data < 2 + domain_len + 2 then Inl UotDomainLengthTooShort
           else
             Inr (Domain (from_utf8_lossy (slice data 2 (2 + domain_len))) (port_at data (2 + domain_len)),
                  2 + domain_len + 2))
      else Inl (UnknownUotAtyp atyp))"

subsection \<open>Frames\<close>

datatype command =
    Waste | Syn | Psh | Fin | Settings | Alert | UpdatePaddingScheme | SynAck
  | HeartRequest | HeartResponse | ServerSettings

fun command_u8 :: "command \<Rightarrow> u8" where
  "command_u8 Waste = 0"
| "command_u8 Syn = 1"
| "command_u8 Psh = 2"
| "command_u8 Fin = 3"
| "command_u8 Settings = 4"
| "command_u8 Alert = 5"
| "command_u8 UpdatePaddingScheme = 6"
| "command_u8 SynAck = 7"
| "command_u8 HeartRequest = 8"
| "command_u8 HeartResponse = 9"
| "command_u8 ServerSettings = 10"

datatype frame_error = UnknownCommand u8 | FrameEof | FrameIo | PayloadTooLong

definition command_try_from :: "u8 \<Rightarrow> frame_error + command" where
  "command_try_from v =
     (if v = 0 then Inr Waste else if v = 1 then Inr Syn else if v = 2 then Inr Psh
      else if v = 3 then Inr Fin else if v = 4 then Inr Settings else if v = 5 then Inr Alert
      else if v = 6 then Inr UpdatePaddingScheme else if v = 7 then Inr SynAck
      else if v = 8 then Inr HeartRequest else if v = 9 then Inr HeartResponse
      else if v = 10 then Inr ServerSettings else Inl (UnknownCommand v))"

type_synonym frame = "command \<times> u32 \<times> bytes"

abbreviation (input) FRAME_HEADER_SIZE :: nat where
  "FRAME_HEADER_SIZE \<equiv> 7"

text \<open>The unbuffered reader: one exact read per field.\<close>

definition read_frame :: "bytes \<Rightarrow> frame_error + frame \<times> bytes" where
  "read_frame s0 =
     (case read_u8 s0 of None \<Rightarrow> Inl FrameEof | Some (c, s1) \<Rightarrow>
      bindr (command_try_from c) (\<lambda>cmd.
      case read_be 4 s1 of None \<Rightarrow> Inl FrameEof | Some (stream_id, s2) \<Rightarrow>
      case read_be 2 s2 of None \<Rightarrow> Inl FrameEof | Some (len :: u16, s3) \<Rightarrow>
      if unat len = 0 then Inr ((cmd, stream_id, []), s3)
      else case read_exact (unat len) s3 of None \<Rightarrow> Inl FrameEof
           | Some (data, s4) \<Rightarrow> Inr ((cmd, stream_id, data), s4)))"

record frame_reader =
  fr_stream :: stream
  fr_buf :: bytes

definition fill_frame_error :: "fill_result \<Rightarrow> frame_error" where
  "fill_frame_error r = (case r of FillFailed \<Rightarrow> FrameIo | _ \<Rightarrow> FrameEof)"

text \<open>\<open>FrameReader::read_frame\<close>, with the reader as it is left behind.\<close>

definition fr_read_frame :: "frame_reader \<Rightarrow> (frame_error + frame) \<times> frame_reader" where
  "fr_read_frame fr =
     (case fill (fr_stream fr) (fr_buf fr) FRAME_HEADER_SIZE False of (r1, st1, buf1) \<Rightarrow>
      let fr1 = \<lparr>fr_stream = st1, fr_buf = buf1\<rparr> in
      if r1 \<noteq> Filled then (Inl (fill_frame_error r1), fr1)
      else case command_try_from (buf1 ! 0) of
        Inl e \<Rightarrow> (Inl e, fr1)
      | Inr cmd \<Rightarrow>
          let stream_id = from_be (slice buf1 1 5);
              data_len = unat (from_be (slice buf1 5 7) :: u16)
          in case fill st1 buf1 (FRAME_HEADER_SIZE + data_len) False of (r2, st2, buf2) \<Rightarrow>
             if r2 \<noteq> Filled
             then (Inl (fill_frame_error r2), \<lparr>fr_stream = st2, fr_buf = buf2\<rparr>)
             else
               let adv = drop FRAME_HEADER_SIZE buf2 in
               (Inr (cmd, stream_id, take data_len adv),
                \<lparr>fr_stream = st2, fr_buf = drop data_len adv\<rparr>))"

text \<open>One poll of the same future: what a caller that may be cancelled sees.\<close>

datatype frame_poll = FramePending | FrameReady "frame_error + frame"

definition fr_poll_frame :: "frame_reader \<Rightarrow> frame_poll \<times> frame_reader" where
  "fr_poll_frame fr =
     (case poll_fill (fr_stream fr) (fr_buf fr) FRAME_HEADER_SIZE False of (r1, st1, buf1) \<Rightarrow>
      let fr1 = \<lparr>fr_stream = st1, fr_buf = buf1\<rparr> in
      if r1 = FillPending then (FramePending, fr1)
      else if r1 \<noteq> Filled then (FrameReady (Inl (fill_frame_error r1)), fr1)
      else case command_try_from (buf1 ! 0) of
        Inl e \<Rightarrow> (FrameReady (Inl e), fr1)
      | Inr cmd \<Rightarrow>
          let stream_id = from_be (slice buf1 1 5);
              data_len = unat (from_be (slice buf1 5 7) :: u16)
          in case poll_fill st1 buf1 (FRAME_HEADER_SIZE + data_len) False of (r2, st2, buf2) \<Rightarrow>
             let fr2 = \<lparr>fr_stream = st2, fr_buf = buf2\<rparr> in
             if r2 = FillPending then (FramePending, fr2)
             else if r2 \<noteq> Filled then (FrameReady (Inl (fill_frame_error r2)), fr2)
             else
               let adv = drop FRAME_HEADER_SIZE buf2 in
               (FrameReady (Inr (cmd, stream_id, take data_len adv)),
                \<lparr>fr_stream = st2, fr_buf = drop data_len adv\<rparr>))"

definition append_frame :: "bytes \<Rightarrow> command \<Rightarrow> u32 \<Rightarrow> bytes \<Rightarrow> frame_error + bytes" where
  "append_frame dst cmd stream_id data =
     (case u16_try_from (length data) of
        None \<Rightarrow> Inl PayloadTooLong
      | Some data_len \<Rightarrow> Inr (dst @ [command_u8 cmd] @ to_be 4 stream_id @ to_be 2 data_len @ data))"

definition build_frame :: "command \<Rightarrow> u32 \<Rightarrow> bytes \<Rightarrow> frame_error + bytes" where
  "build_frame cmd stream_id data = append_frame [] cmd stream_id data"

text \<open>\<open>write_frame\<close> onto the bytes already sent.\<close>

definition write_frame :: "bytes \<Rightarrow> u32 \<Rightarrow> command \<Rightarrow> bytes \<Rightarrow> frame_error + bytes" where
  "write_frame sent stream_id cmd data =
     bindr (build_frame cmd stream_id data) (\<lambda>f. Inr (sent @ f))"

subsection \<open>The unread tail of a frame\<close>

record read_buf =
  rb_filled :: bytes
  rb_capacity :: nat

definition rb_remaining :: "read_buf \<Rightarrow> nat" where
  "rb_remaining dst = rb_capacity dst - length (rb_filled dst)"

definition put_slice :: "read_buf \<Rightarrow> bytes \<Rightarrow> read_buf" where
  "put_slice dst xs = dst\<lparr>rb_filled := rb_filled dst @ xs\<rparr>"

definition copy_to :: "bytes \<Rightarrow> read_buf \<Rightarrow> bool \<times> bytes \<times> read_buf" where
  "copy_to pending dst =
     (if pending = [] then (False, pending, dst)
      else if rb_remaining dst = 0 then (True, pending, dst)
      else
        let len = min (length pending) (rb_remaining dst)
        in (True, drop len pending, put_slice dst (take len pending)))"

definition copy_from :: "bytes \<Rightarrow> read_buf \<Rightarrow> bytes \<times> read_buf" where
  "copy_from data dst = snd (copy_to data dst)"

subsection \<open>UoT packets\<close>

definition uot_target_len :: "bytes \<Rightarrow> uot_error + nat option" where
  "uot_target_len data =
     bindr
       (case data of [] \<Rightarrow> Inr None | atyp # rest \<Rightarrow>
        if atyp = 0x00 then Inr (Some 7)
        else if atyp = 0x01 then Inr (Some 19)
        else if atyp = 0x02 then
          (case rest of domain_len # _ \<Rightarrow> Inr (Some (4 + unat domain_len)) | [] \<Rightarrow> Inr None)
        else Inl (UnknownUotAtyp atyp))
       (\<lambda>req. case req of None \<Rightarrow> Inr None
         | Some required \<Rightarrow> Inr (if required \<le> length data then Some required else None))"

definition encode_uot_packet :: "bytes \<Rightarrow> target_addr option \<Rightarrow> uot_error + bytes" where
  "encode_uot_packet payload target =
     (case u16_try_from (length payload) of
        None \<Rightarrow> Inl UotPayloadTooLong
      | Some payload_len \<Rightarrow>
          Inr ((case target of None \<Rightarrow> [] | Some t \<Rightarrow> uot_write_target t []) @ to_be 2 payload_len @ payload))"

definition decode_uot_packet :: "bytes \<Rightarrow> bool \<Rightarrow> uot_error + target_addr option \<times> bytes" where
  "decode_uot_packet data is_connect =
     bindr
       (if is_connect then Inr (None, 0)
        else bindr (uot_decode_target data) (\<lambda>(t, len). Inr (Some t, len)))
       (\<lambda>(target, header_len).
         if length data < header_len + 2 then Inl UotTooShortForLength
         else
           let payload_len = unat (port_at data header_len); payload_start = header_len + 2 in
           if length data < payload_start + payload_len then Inl UotTooShortForPayload
           else Inr (target, slice data payload_start (payload_start + payload_len)))"

text \<open>\<open>UotReadBuffer\<close> is its buffered bytes.\<close>

definition uot_push :: "bytes \<Rightarrow> bytes \<Rightarrow> bytes" where
  "uot_push buf data = buf @ data"

definition packet_header_len :: "bytes \<Rightarrow> bool \<Rightarrow> uot_error + nat option" where
  "packet_header_len buf is_connect =
     (if is_connect then Inr (if length buf < 2 then None else Some 0) else uot_target_len buf)"

definition next_packet :: "bytes \<Rightarrow> bool \<Rightarrow> uot_error + bytes option \<times> bytes" where
  "next_packet buf is_connect =
     bindr (packet_header_len buf is_connect)
       (\<lambda>hl. case hl of None \<Rightarrow> Inr (None, buf)
         | Some header_len \<Rightarrow>
             if length buf < header_len + 2 then Inr (None, buf)
             else
               let payload_len = unat (port_at buf header_len);
                   packet_len = header_len + 2 + payload_len
               in if length buf < packet_len then Inr (None, buf)
                  else Inr (Some (take packet_len buf), drop packet_len buf))"

subsection \<open>Frames: codec laws\<close>

lemma command_try_from_u8 [simp]: "command_try_from (command_u8 cmd) = Inr cmd"
  by (cases cmd) (simp_all add: command_try_from_def)

lemma command_try_from_Inr: "command_try_from v = Inr cmd \<Longrightarrow> v = command_u8 cmd"
  by (auto simp: command_try_from_def split: if_splits)

lemma command_try_from_Inl_iff: "command_try_from v = Inl e \<longleftrightarrow> 10 < v \<and> e = UnknownCommand v"
proof (cases "v \<le> 10")
  case True
  then have "unat v \<le> 10" by (simp add: word_le_nat_alt)
  then have "unat v \<in> {0, 1, 2, 3, 4, 5, 6, 7, 8, 9, 10}"
    unfolding insert_iff empty_iff by presburger
  then have "v \<in> {0, 1, 2, 3, 4, 5, 6, 7, 8, 9, 10}"
    by (auto simp: word_unat_eq_iff)
  then show ?thesis using True by (auto simp: command_try_from_def)
next
  case False
  then show ?thesis by (auto simp: command_try_from_def not_le)
qed

fun frame_ok :: "frame \<Rightarrow> bool" where
  "frame_ok (cmd, stream_id, data) \<longleftrightarrow> length data < 65536"

fun frame_enc :: "frame \<Rightarrow> bytes" where
  "frame_enc (cmd, stream_id, data) = (case build_frame cmd stream_id data of Inr f \<Rightarrow> f | Inl _ \<Rightarrow> [])"

definition frame_dec :: "bytes \<Rightarrow> (frame \<times> bytes) option" where
  "frame_dec s = ok_of (read_frame s)"

lemma frame_enc_ok:
  "length data < 65536 \<Longrightarrow>
     frame_enc (cmd, sid, data) = [command_u8 cmd] @ to_be 4 sid @ to_be 2 (of_nat (length data) :: u16) @ data"
  by (simp add: build_frame_def append_frame_def u16_try_from_def)

lemma read_frame_enc: "frame_ok f \<Longrightarrow> read_frame (frame_enc f @ rest) = Inr (f, rest)"
  by (cases f)
    (auto simp: frame_enc_ok read_frame_def wire_simps unat_of_nat_u16 simp del: frame_enc.simps)

text \<open>A successful unbuffered read in terms of positions in the input.\<close>

definition frame_len :: "bytes \<Rightarrow> nat" where
  "frame_len s = unat (from_be (slice s 5 7) :: u16)"

lemma read_frame_long:
  assumes "7 \<le> length s"
  shows "read_frame s =
     bindr (command_try_from (s ! 0)) (\<lambda>cmd.
       if 7 + frame_len s \<le> length s
       then Inr ((cmd, from_be (slice s 1 5), slice s 7 (7 + frame_len s)), drop (7 + frame_len s) s)
       else Inl FrameEof)"
proof -
  from assms obtain b s1 where s: "s = b # s1" by (cases s) auto
  have l: "frame_len s = unat (from_be (take 2 (drop 4 s1)) :: u16)"
    by (simp add: frame_len_def slice_def s)
  show ?thesis
    using assms unfolding l
    by (cases "command_try_from b") (auto simp: s read_frame_def read_be_alt read_exact_def slice_def drop_Cons' ac_simps)
qed

lemma read_frame_short: "length s < 7 \<Longrightarrow> read_frame s \<noteq> Inr r"
  by (auto simp: read_frame_def bindr_Inr_iff read_be_alt read_u8_def split: list.splits)

lemma read_frame_Inr_iff:
  "read_frame s = Inr ((cmd, sid, data), rest) \<longleftrightarrow>
     7 + frame_len s \<le> length s \<and> command_try_from (s ! 0) = Inr cmd \<and>
     sid = from_be (slice s 1 5) \<and> data = slice s 7 (7 + frame_len s) \<and> rest = drop (7 + frame_len s) s"
  using read_frame_short [of s] by (cases "7 \<le> length s") (auto simp: read_frame_long bindr_Inr_iff)

lemma read_frame_more: "read_frame b = Inr (f, r) \<Longrightarrow> read_frame (b @ m) = Inr (f, r @ m)"
proof (cases f)
  case (fields cmd sid data)
  assume r: "read_frame b = Inr (f, r)"
  then have "7 + frame_len b \<le> length b" by (simp add: fields read_frame_Inr_iff)
  moreover from this have "frame_len (b @ m) = frame_len b"
    by (simp add: frame_len_def slice_append)
  moreover from calculation have "(b @ m) ! 0 = b ! 0" by (cases b) auto
  ultimately show ?thesis using r by (simp add: fields read_frame_Inr_iff slice_append)
qed

lemma read_frame_consumes: "read_frame b = Inr (f, r) \<Longrightarrow> length r < length b"
  by (cases f) (auto simp: read_frame_Inr_iff)

interpretation anytls_frames: incremental_codec frame_ok frame_enc frame_dec
  by unfold_locales
    (auto simp: frame_dec_def ok_of_Some_iff read_frame_enc read_frame_more read_frame_consumes)

lemma frame_dec_Nil [simp]: "frame_dec [] = None"
  by (simp add: frame_dec_def read_frame_def)

subsection \<open>The frame reader\<close>

lemma slice_prefix: "b \<le> length xs \<Longrightarrow> xs @ ys = s \<Longrightarrow> slice xs a b = slice s a b"
  by (metis slice_append)

lemma fr_read_frame_ok:
  assumes "read_frame (fr_buf fr @ wire (fr_stream fr)) = Inr (f, rest)"
  obtains fr' where "fr_read_frame fr = (Inr f, fr')" and "fr_buf fr' @ wire (fr_stream fr') = rest"
proof -
  let ?s = "fr_buf fr @ wire (fr_stream fr)"
  obtain cmd sid data where f: "f = (cmd, sid, data)" by (cases f)
  with assms have r: "7 + frame_len ?s \<le> length ?s" "command_try_from (?s ! 0) = Inr cmd"
      "sid = from_be (slice ?s 1 5)" "data = slice ?s 7 (7 + frame_len ?s)" "rest = drop (7 + frame_len ?s) ?s"
    by (simp_all only: read_frame_Inr_iff)
  from r(1) have "7 \<le> length ?s" by simp
  then obtain st1 buf1 where f1: "fill (fr_stream fr) (fr_buf fr) 7 False = (Filled, st1, buf1)"
    and b1: "7 \<le> length buf1" "buf1 @ wire st1 = ?s"
    by (rule fill_enough)
  have n: "buf1 ! 0 = ?s ! 0" "slice buf1 1 5 = slice ?s 1 5" "slice buf1 5 7 = slice ?s 5 7"
    using b1(1) slice_prefix [OF _ b1(2)] by (cases buf1; simp add: b1(2) [symmetric])+
  from r(1) b1 have "7 + frame_len ?s \<le> length (buf1 @ wire st1)" by simp
  then obtain st2 buf2 where f2: "fill st1 buf1 (7 + frame_len ?s) False = (Filled, st2, buf2)"
    and b2: "7 + frame_len ?s \<le> length buf2" "buf2 @ wire st2 = buf1 @ wire st1"
    by (rule fill_enough)
  have b2s: "buf2 @ wire st2 = ?s" using b2 b1 by simp
  have d: "take (frame_len ?s) (drop 7 buf2) = data"
    using slice_prefix [OF b2(1) b2s, of 7] r(4) by (simp add: slice_def)
  have l: "unat (from_be (slice buf1 5 7) :: u16) = frame_len ?s" by (simp add: frame_len_def n(3))
  have "fr_read_frame fr =
      (Inr f, \<lparr>fr_stream = st2, fr_buf = drop (7 + frame_len ?s) buf2\<rparr>)"
    by (simp add: fr_read_frame_def f1 f2 l n(1,2) r(2) r(3) f d Let_def add.commute del: One_nat_def)
  moreover have "drop (7 + frame_len ?s) buf2 @ wire st2 = rest"
    using b2(1) r(5) by (simp add: b2s [symmetric])
  ultimately show thesis using that by simp
qed

lemma fr_read_frame_Inr:
  assumes "fst (fr_read_frame fr) = Inr f"
  shows "\<exists>rest. read_frame (fr_buf fr @ wire (fr_stream fr)) = Inr (f, rest)"
proof -
  let ?s = "fr_buf fr @ wire (fr_stream fr)"
  obtain r1 st1 buf1 where f1: "fill (fr_stream fr) (fr_buf fr) 7 False = (r1, st1, buf1)"
    by (cases "fill (fr_stream fr) (fr_buf fr) 7 False")
  with assms have [simp]: "r1 = Filled"
    by (auto simp: fr_read_frame_def Let_def split: if_splits)
  with f1 have "7 \<le> length ?s" using fill_Filled_iff [of "fr_stream fr" "fr_buf fr" 7 False] by simp
  then have b1: "7 \<le> length buf1" "buf1 @ wire st1 = ?s"
    using fill_enough [of 7 "fr_buf fr" "fr_stream fr" False] f1 by auto
  from assms f1 obtain cmd where c: "command_try_from (buf1 ! 0) = Inr cmd"
    by (cases "command_try_from (buf1 ! 0)") (auto simp: fr_read_frame_def Let_def)
  let ?n = "unat (from_be (slice buf1 5 7) :: u16)"
  have n: "?n = frame_len ?s" using b1(1) slice_prefix [OF _ b1(2)] by (simp add: frame_len_def)
  obtain r2 st2 buf2 where f2: "fill st1 buf1 (7 + ?n) False = (r2, st2, buf2)"
    by (cases "fill st1 buf1 (7 + ?n) False")
  with assms f1 c have "r2 = Filled"
    by (auto simp: fr_read_frame_def Let_def split: if_splits)
  with f2 have "7 + frame_len ?s \<le> length ?s"
    using fill_Filled_iff [of st1 buf1 "7 + ?n" False] b1(2) n by (metis fst_conv)
  moreover have "?s ! 0 = buf1 ! 0" using b1 by (cases buf1) (auto simp: b1(2) [symmetric])
  ultimately have ex: "\<exists>f' rest. read_frame ?s = Inr (f', rest)"
    using c by (auto simp: read_frame_Inr_iff)
  then obtain f' rest where rf: "read_frame ?s = Inr (f', rest)" by blast
  then obtain fr' where "fr_read_frame fr = (Inr f', fr')" by (rule fr_read_frame_ok)
  with assms rf show ?thesis by auto
qed

fun fr_read_n :: "nat \<Rightarrow> frame_reader \<Rightarrow> (frame_error + frame list) \<times> frame_reader" where
  "fr_read_n 0 fr = (Inr [], fr)"
| "fr_read_n (Suc n) fr =
     (case fr_read_frame fr of
        (Inl e, fr1) \<Rightarrow> (Inl e, fr1)
      | (Inr f, fr1) \<Rightarrow>
          (case fr_read_n n fr1 of
             (Inl e, fr2) \<Rightarrow> (Inl e, fr2)
           | (Inr fs, fr2) \<Rightarrow> (Inr (f # fs), fr2)))"

lemma fr_read_n_concat:
  assumes "list_all frame_ok fs" and "fr_buf fr @ wire (fr_stream fr) = concat (map frame_enc fs) @ rest"
  shows "\<exists>fr'. fr_read_n (length fs) fr = (Inr fs, fr') \<and> fr_buf fr' @ wire (fr_stream fr') = rest"
  using assms
proof (induction fs arbitrary: fr)
  case Nil
  then show ?case by simp
next
  case (Cons f fs)
  from Cons.prems have "read_frame (fr_buf fr @ wire (fr_stream fr)) = Inr (f, concat (map frame_enc fs) @ rest)"
    by (simp add: read_frame_enc)
  then obtain fr1 where "fr_read_frame fr = (Inr f, fr1)"
    and "fr_buf fr1 @ wire (fr_stream fr1) = concat (map frame_enc fs) @ rest"
    by (rule fr_read_frame_ok)
  with Cons.IH [of fr1] Cons.prems(1) show ?case by auto
qed

lemma fr_poll_frame_ready:
  assumes "fr_poll_frame fr = (FrameReady r, fr')"
  shows "fr_read_frame fr = (r, fr')"
  using assms
  by (auto simp: fr_poll_frame_def fr_read_frame_def Let_def dest!: fill_of_poll
      split: prod.splits if_splits sum.splits)

lemma fr_poll_frame_pending:
  assumes "fr_poll_frame fr = (FramePending, fr')"
  shows "fr_read_frame fr' = fr_read_frame fr"
proof -
  obtain r1 st1 buf1 where p1: "poll_fill (fr_stream fr) (fr_buf fr) 7 False = (r1, st1, buf1)"
    by (cases "poll_fill (fr_stream fr) (fr_buf fr) 7 False")
  show ?thesis
  proof (cases "r1 = FillPending")
    case True
    with p1 assms have "fr' = \<lparr>fr_stream = st1, fr_buf = buf1\<rparr>"
      by (simp add: fr_poll_frame_def)
    moreover from p1 True have "fill (fr_stream fr) (fr_buf fr) 7 False = fill st1 buf1 7 False"
      by (simp add: fill_resume)
    ultimately show ?thesis by (simp add: fr_read_frame_def)
  next
    case False
    with p1 assms have [simp]: "r1 = Filled"
      by (auto simp: fr_poll_frame_def Let_def split: if_splits)
    from p1 have f1: "fill (fr_stream fr) (fr_buf fr) 7 False = (Filled, st1, buf1)"
      by (simp add: fill_of_poll)
    from p1 have b1: "7 \<le> length buf1" by (simp add: poll_fill_Filled_length)
    from p1 assms obtain cmd where c: "command_try_from (buf1 ! 0) = Inr cmd"
      by (cases "command_try_from (buf1 ! 0)") (auto simp: fr_poll_frame_def Let_def)
    let ?n = "unat (from_be (slice buf1 5 7) :: u16)"
    obtain r2 st2 buf2 where p2: "poll_fill st1 buf1 (7 + ?n) False = (r2, st2, buf2)"
      by (cases "poll_fill st1 buf1 (7 + ?n) False")
    with p1 c assms have [simp]: "r2 = FillPending" and fr': "fr' = \<lparr>fr_stream = st2, fr_buf = buf2\<rparr>"
      by (auto simp: fr_poll_frame_def Let_def split: if_splits)
    from p2 obtain d where d: "buf2 = buf1 @ d" using poll_fill_prefix by blast
    with b1 have hd: "fill st2 buf2 7 False = (Filled, st2, buf2)" "buf2 ! 0 = buf1 ! 0"
        "slice buf2 1 5 = slice buf1 1 5" "slice buf2 5 7 = slice buf1 5 7"
      by (auto simp: fill_ready slice_append) (cases buf1; simp)
    from p2 have "fill st1 buf1 (7 + ?n) False = fill st2 buf2 (7 + ?n) False"
      by (simp add: fill_resume)
    with f1 hd c fr' show ?thesis by (simp add: fr_read_frame_def Let_def del: One_nat_def)
  qed
qed

subsection \<open>UoT packets: codec laws\<close>

fun uot_encodable :: "target_addr \<Rightarrow> bool" where
  "uot_encodable (Ip (SockV4 _ _)) = True"
| "uot_encodable (Ip (SockV6 _ _ f s)) \<longleftrightarrow> f = 0 \<and> s = 0"
| "uot_encodable (Domain d _) \<longleftrightarrow> utf8_valid d \<and> length d < 256"

lemma port_at_to_be: "length h = k \<Longrightarrow> port_at (h @ to_be 2 w @ rest) k = w"
  by (simp add: port_at_def to_be_2 nth_append from_be_pair)

lemma port_at_to_be_Cons:
  "length h = k \<Longrightarrow> port_at (x # h @ to_be 2 w @ rest) (Suc k) = w"
  "length h = k \<Longrightarrow> port_at (x # y # h @ to_be 2 w @ rest) (Suc (Suc k)) = w"
  using port_at_to_be [of "x # h" "Suc k"] port_at_to_be [of "x # y # h" "Suc (Suc k)"] by simp_all

lemma slice_append_mid: "length h = a \<Longrightarrow> a + length xs = b \<Longrightarrow> slice (h @ xs @ rest) a b = xs"
  by (auto simp: slice_def)

lemma slice_Cons: "slice (x # xs) (Suc a) (Suc b) = slice xs a b"
  by (simp add: slice_def)

lemma uot_decode_write:
  assumes "uot_encodable t"
  shows "uot_decode_target (uot_write_target t [] @ rest) = Inr (t, encoded_len t)"
proof (cases t rule: uot_encodable.cases)
  case (1 a p)
  have "port_at ((0x00 # to_be 4 a) @ to_be 2 p @ rest) 5 = p" by (rule port_at_to_be) simp
  moreover have "slice ([0x00] @ to_be 4 a @ to_be 2 p @ rest) 1 5 = to_be 4 a" by (rule slice_append_mid) simp_all
  ultimately show ?thesis by (simp add: 1 uot_decode_target_def wire_simps)
next
  case (2 a p f s)
  have "port_at ((0x01 # to_be 16 a) @ to_be 2 p @ rest) 17 = p" by (rule port_at_to_be) simp
  moreover have "slice ([0x01] @ to_be 16 a @ to_be 2 p @ rest) 1 17 = to_be 16 a" by (rule slice_append_mid) simp_all
  ultimately show ?thesis using assms by (simp add: 2 uot_decode_target_def wire_simps)
next
  case (3 d p)
  let ?n = "length d"
  from assms 3 have l: "unat (of_nat ?n :: u8) = ?n" and u: "utf8_valid d"
    by (simp_all add: unat_of_nat_u8)
  have "port_at ((0x02 # of_nat ?n # d) @ to_be 2 p @ rest) (2 + ?n) = p" by (rule port_at_to_be) simp
  moreover have "slice ([0x02, of_nat ?n] @ d @ to_be 2 p @ rest) 2 (2 + ?n) = d" by (rule slice_append_mid) simp_all
  ultimately show ?thesis using l
    by (simp add: 3 uot_decode_target_def wire_simps Let_def from_utf8_lossy_valid [OF u] del: of_nat_unat)
qed

lemma length_uot_write: "length (uot_write_target t []) = encoded_len t"
  by (cases t rule: encoded_len.cases) simp_all

lemma uot_target_len_write:
  assumes "uot_encodable t"
  shows "uot_target_len (uot_write_target t [] @ rest) = Inr (Some (encoded_len t))"
  using assms by (cases t rule: uot_encodable.cases) (simp_all add: uot_target_len_def unat_of_nat_u8)

lemma uot_target_len_more:
  "uot_target_len b = Inr (Some n) \<Longrightarrow> uot_target_len (b @ m) = Inr (Some n)"
  by (auto simp: uot_target_len_def bindr_Inr_iff split: list.splits if_splits option.splits)

fun uot_ok :: "bool \<Rightarrow> target_addr option \<times> bytes \<Rightarrow> bool" where
  "uot_ok is_connect (target, payload) \<longleftrightarrow>
     length payload < 65536 \<and>
     (case target of None \<Rightarrow> is_connect | Some t \<Rightarrow> \<not> is_connect \<and> uot_encodable t)"

fun uot_enc :: "target_addr option \<times> bytes \<Rightarrow> bytes" where
  "uot_enc (target, payload) = (case encode_uot_packet payload target of Inr p \<Rightarrow> p | Inl _ \<Rightarrow> [])"

definition uot_dec :: "bool \<Rightarrow> bytes \<Rightarrow> ((target_addr option \<times> bytes) \<times> bytes) option" where
  "uot_dec is_connect buf =
     (case next_packet buf is_connect of
        Inr (Some p, buf') \<Rightarrow> map_option (\<lambda>m. (m, buf')) (ok_of (decode_uot_packet p is_connect))
      | _ \<Rightarrow> None)"

definition uot_header :: "target_addr option \<Rightarrow> bytes" where
  "uot_header target = (case target of None \<Rightarrow> [] | Some t \<Rightarrow> uot_write_target t [])"

lemma uot_enc_ok:
  "length payload < 65536 \<Longrightarrow>
     uot_enc (target, payload) = uot_header target @ to_be 2 (of_nat (length payload) :: u16) @ payload"
  by (simp add: encode_uot_packet_def u16_try_from_def uot_header_def)

lemma next_packet_enc:
  assumes "uot_ok c (target, payload)"
  shows "next_packet (uot_enc (target, payload) @ rest) c = Inr (Some (uot_enc (target, payload)), rest)"
proof -
  let ?h = "uot_header target" and ?l = "of_nat (length payload) :: u16"
  from assms have l: "unat ?l = length payload" and len: "length payload < 65536"
    by (simp_all add: unat_of_nat_u16)
  have hl: "packet_header_len (?h @ q) c = Inr (Some (length ?h))" if "2 \<le> length q" for q
    using assms that
    by (cases target) (auto simp: packet_header_len_def uot_header_def uot_target_len_write length_uot_write)
  have "port_at (?h @ to_be 2 ?l @ payload @ rest) (length ?h) = ?l" by (rule port_at_to_be) simp
  with l hl [of "to_be 2 ?l @ payload @ rest"] show ?thesis
    unfolding uot_enc_ok [OF len] by (simp add: next_packet_def Let_def del: of_nat_unat)
qed

lemma decode_uot_packet_enc:
  assumes "uot_ok c (target, payload)"
  shows "decode_uot_packet (uot_enc (target, payload)) c = Inr (target, payload)"
proof -
  let ?h = "uot_header target" and ?l = "of_nat (length payload) :: u16"
  from assms have l: "unat ?l = length payload" and len: "length payload < 65536"
    by (simp_all add: unat_of_nat_u16)
  have hd: "(if c then Inr (None, 0) else bindr (uot_decode_target (?h @ q)) (\<lambda>(t, len). Inr (Some t, len))) =
      Inr (target, length ?h)" for q
    using assms by (cases target) (auto simp: uot_header_def uot_decode_write length_uot_write)
  have "port_at (?h @ to_be 2 ?l @ payload) (length ?h) = ?l" by (rule port_at_to_be) simp
  moreover have "slice ((?h @ to_be 2 ?l) @ payload @ []) (length ?h + 2) (length ?h + 2 + length payload) = payload"
    by (rule slice_append_mid) simp_all
  ultimately show ?thesis
    unfolding uot_enc_ok [OF len] decode_uot_packet_def hd by (simp add: l Let_def del: of_nat_unat)
qed

lemma next_packet_Some:
  assumes "next_packet b c = Inr (Some p, r)"
  shows "b = p @ r \<and> 2 \<le> length p" and "next_packet (b @ m) c = Inr (Some p, r @ m)"
proof -
  from assms obtain h where h: "packet_header_len b c = Inr (Some h)"
      "h + 2 \<le> length b" "h + 2 + unat (port_at b h) \<le> length b"
      and p: "p = take (h + 2 + unat (port_at b h)) b" "r = drop (h + 2 + unat (port_at b h)) b"
    by (auto simp: next_packet_def bindr_Inr_iff Let_def split: option.splits if_splits)
  from h p show "b = p @ r \<and> 2 \<le> length p" by simp
  from h have "packet_header_len (b @ m) c = Inr (Some h)"
    by (auto simp: packet_header_len_def uot_target_len_more split: if_splits)
  with h p show "next_packet (b @ m) c = Inr (Some p, r @ m)"
    unfolding next_packet_def by (simp add: Let_def port_at_append)
qed

lemma uot_dec_Some_iff:
  "uot_dec c b = Some (f, r) \<longleftrightarrow> (\<exists>p. next_packet b c = Inr (Some p, r) \<and> decode_uot_packet p c = Inr f)"
  by (cases f) (auto simp: uot_dec_def ok_of_Some_iff split: sum.splits prod.splits option.splits)

interpretation uot_packets: incremental_codec "uot_ok c" uot_enc "uot_dec c" for c
proof unfold_locales
  fix f rest
  assume "uot_ok c f"
  then show "uot_dec c (uot_enc f @ rest) = Some (f, rest)"
    by (cases f) (metis next_packet_enc decode_uot_packet_enc uot_dec_Some_iff)
next
  fix b f r m
  assume "uot_dec c b = Some (f, r)"
  then obtain p where p: "next_packet b c = Inr (Some p, r)" "decode_uot_packet p c = Inr f"
    by (auto simp: uot_dec_Some_iff)
  then show "uot_dec c (b @ m) = Some (f, r @ m)"
    by (auto simp: uot_dec_Some_iff next_packet_Some(2))
  from next_packet_Some(1) [OF p(1)] show "length r < length b" by auto
qed

subsection \<open>The unread tail: nothing is lost\<close>

lemma copy_to_keeps:
  assumes "copy_to pending dst = (r, pending', dst')"
  shows "rb_filled dst' @ pending' = rb_filled dst @ pending"
    and "rb_capacity dst' = rb_capacity dst"
    and "length (rb_filled dst) \<le> rb_capacity dst \<Longrightarrow> length (rb_filled dst') \<le> rb_capacity dst"
    and "r \<longleftrightarrow> pending \<noteq> []"
  using assms by (auto simp: copy_to_def rb_remaining_def put_slice_def Let_def split: if_splits)

fun read_all :: "bytes \<Rightarrow> nat list \<Rightarrow> bytes list \<times> bytes" where
  "read_all pending [] = ([], pending)"
| "read_all pending (n # ns) =
     (case copy_to pending \<lparr>rb_filled = [], rb_capacity = n\<rparr> of (_, pending', dst) \<Rightarrow>
      case read_all pending' ns of (outs, rest) \<Rightarrow> (rb_filled dst # outs, rest))"

lemma read_all_concat: "read_all pending ns = (outs, rest) \<Longrightarrow> concat outs @ rest = pending"
proof (induction ns arbitrary: pending outs)
  case (Cons n ns)
  from Cons.prems obtain r pending' dst outs' where
    c: "copy_to pending \<lparr>rb_filled = [], rb_capacity = n\<rparr> = (r, pending', dst)"
    and a: "read_all pending' ns = (outs', rest)" "outs = rb_filled dst # outs'"
    by (auto split: prod.splits)
  from copy_to_keeps(1) [OF c] Cons.IH [OF a(1)] a(2) show ?case by simp
qed simp

subsection \<open>Properties\<close>

text \<open>C5. Frames survive any segmentation. If the bytes buffered and still to arrive are the
  encodings of frames with payloads below 64 KiB, reading that many frames yields exactly
  those frames, whatever the chunk boundaries and delays of the stream, and leaves exactly
  the bytes that follow.\<close>

theorem frame_reader_any_chunking:
  assumes "list_all frame_ok fs"
    and "fr_buf fr @ wire (fr_stream fr) = concat (map frame_enc fs) @ rest"
  shows "\<exists>fr'. fr_read_n (length fs) fr = (Inr fs, fr') \<and> fr_buf fr' @ wire (fr_stream fr') = rest"
  using fr_read_n_concat [OF assms] .

theorem frame_reader_any_chunking_witness:
  "\<exists>fr'. fr_read_n 2 \<lparr>fr_stream = [Data [1, 0, 0], Pending, Data [0, 9, 0, 0, 2, 0, 0, 0], Data [9, 0, 1, 5, 6]],
       fr_buf = []\<rparr> = (Inr [(Syn, 9, []), (Psh, 9, [5])], fr') \<and>
     fr_buf fr' @ wire (fr_stream fr') = [6]"
proof -
  let ?st = "[Data [1, 0, 0], Pending, Data [0, 9, 0, 0, 2, 0, 0, 0], Data [9, 0, 1, 5, 6]]"
  let ?fs = "[(Syn, 9, []), (Psh, 9, [5])] :: frame list"
  have "concat (map frame_enc ?fs) = [1, 0, 0, 0, 9, 0, 0, 2, 0, 0, 0, 9, 0, 1, 5]"
    by (simp add: build_frame_def append_frame_def u16_try_from_def to_be_2 to_be_4)
  then have "\<exists>fr'. fr_read_n (length ?fs) \<lparr>fr_stream = ?st, fr_buf = []\<rparr> = (Inr ?fs, fr') \<and>
      fr_buf fr' @ wire (fr_stream fr') = [6]"
    by (intro frame_reader_any_chunking) (simp_all del: frame_enc.simps)
  moreover have "length ?fs = 2" by simp
  ultimately show ?thesis by (simp only:)
qed

text \<open>The buffered \<open>FrameReader\<close> succeeds exactly when the unbuffered reader does on the
  same bytes, with the same frame.\<close>

theorem frame_reader_equiv:
  "fst (fr_read_frame fr) = Inr f \<longleftrightarrow>
     (\<exists>rest. read_frame (fr_buf fr @ wire (fr_stream fr)) = Inr (f, rest))"
  using fr_read_frame_Inr [of fr f] by (metis fr_read_frame_ok fst_conv)

text \<open>Cancel safety. Polling the frame future once and dropping it while it is pending loses
  nothing: reading afterwards gives the frame, the error and the reader state that reading
  without the interruption would have given. A poll that is ready gives the result of the
  uninterrupted read.\<close>

theorem frame_reader_cancel_safe:
  "case fr_poll_frame fr of
     (FramePending, fr') \<Rightarrow> fr_read_frame fr' = fr_read_frame fr
   | (FrameReady r, fr') \<Rightarrow> fr_read_frame fr = (r, fr')"
  using fr_poll_frame_ready [of fr] fr_poll_frame_pending [of fr]
  by (auto split: prod.split frame_poll.split)

text \<open>UDP-over-TCP packets survive any fragmentation of the stream that carries them: pushing
  the chunks into the packet buffer and taking the complete packets after each push gives
  the packets that were sent, in order, in connected mode (no addresses) and in
  per-packet-address mode.\<close>

theorem uot_any_fragmentation:
  assumes "list_all (uot_ok is_connect) ps" and "concat chunks = concat (map uot_enc ps)"
  shows "feed (uot_dec is_connect) [] chunks = (ps, [])"
proof (rule uot_packets.feed_concat)
  show "uot_dec is_connect [] = None"
    by (simp add: uot_dec_def next_packet_def packet_header_len_def uot_target_len_def)
  then show "uot_dec is_connect [] = None" .
qed (use assms in simp_all)

theorem uot_any_fragmentation_witness:
  "feed (uot_dec True) [] [[0], [2, 8], [9, 0], [1, 5]] = ([(None, [8, 9]), (None, [5])], [])"
  using uot_any_fragmentation [of True "[(None, [8, 9]), (None, [5])]" "[[0], [2, 8], [9, 0], [1, 5]]"]
  by (simp add: encode_uot_packet_def u16_try_from_def to_be_2 del: feed.simps)

text \<open>The unread tail of a frame is handed out without loss or duplication: over any sequence
  of read calls with destination buffers of any sizes, the bytes copied out followed by the
  bytes still pending are the bytes that were pending at the start.\<close>

theorem unread_tail_no_loss:
  "concat (fst (read_all pending ns)) @ snd (read_all pending ns) = pending"
  using read_all_concat [of pending ns] by (metis prod.collapse)

end
