(* ===== verification/Qpack.thy ===== *)
theory Qpack
  imports Rust_Std
begin

text \<open>
  The QPACK subset of \<open>src/src/proxy/outbound/hysteria2/qpack.rs\<close>: prefixed integers,
  string literals, HPACK Huffman decoding and header field sections.
  The Rust \<open>Reader\<close> is a slice with a position; here it is the bytes from that position on.
  \<open>u64\<close> additions wrap, as in the release build, and \<open>usize\<close> has 64 bits.
\<close>

datatype qpack_error =
    TruncatedSection
  | IntegerOverflow
  | StringLengthOverflow
  | TruncatedString
  | UnsupportedPrefixWidth
  | HuffmanEos
  | InvalidHuffmanCode
  | InvalidHuffmanPadding
  | DynamicTableReference
  | NonzeroBase
  | DynamicIndexedReference
  | StaticIndexOutOfRange u64
  | StaticNameIndexOutOfRange u64
  | UnsupportedFieldLine u8

subsection \<open>Tables\<close>

text \<open>RFC 7541 Appendix B: code and bit length per symbol; row 256 is EOS.\<close>

definition HPACK_HUFFMAN :: "(u32 \<times> nat) list" where
  "HPACK_HUFFMAN = [
     (0x1ff8, 13), (0x7fffd8, 23), (0xfffffe2, 28), (0xfffffe3, 28), (0xfffffe4, 28),
     (0xfffffe5, 28), (0xfffffe6, 28), (0xfffffe7, 28), (0xfffffe8, 28), (0xffffea, 24),
     (0x3ffffffc, 30), (0xfffffe9, 28), (0xfffffea, 28), (0x3ffffffd, 30), (0xfffffeb, 28),
     (0xfffffec, 28), (0xfffffed, 28), (0xfffffee, 28), (0xfffffef, 28), (0xffffff0, 28),
     (0xffffff1, 28), (0xffffff2, 28), (0x3ffffffe, 30), (0xffffff3, 28), (0xffffff4, 28),
     (0xffffff5, 28), (0xffffff6, 28), (0xffffff7, 28), (0xffffff8, 28), (0xffffff9, 28),
     (0xffffffa, 28), (0xffffffb, 28), (0x14, 6), (0x3f8, 10), (0x3f9, 10), (0xffa, 12),
     (0x1ff9, 13), (0x15, 6), (0xf8, 8), (0x7fa, 11), (0x3fa, 10), (0x3fb, 10), (0xf9, 8),
     (0x7fb, 11), (0xfa, 8), (0x16, 6), (0x17, 6), (0x18, 6), (0x0, 5), (0x1, 5), (0x2, 5),
     (0x19, 6), (0x1a, 6), (0x1b, 6), (0x1c, 6), (0x1d, 6), (0x1e, 6), (0x1f, 6), (0x5c, 7),
     (0xfb, 8), (0x7ffc, 15), (0x20, 6), (0xffb, 12), (0x3fc, 10), (0x1ffa, 13), (0x21, 6),
     (0x5d, 7), (0x5e, 7), (0x5f, 7), (0x60, 7), (0x61, 7), (0x62, 7), (0x63, 7), (0x64, 7),
     (0x65, 7), (0x66, 7), (0x67, 7), (0x68, 7), (0x69, 7), (0x6a, 7), (0x6b, 7), (0x6c, 7),
     (0x6d, 7), (0x6e, 7), (0x6f, 7), (0x70, 7), (0x71, 7), (0x72, 7), (0xfc, 8), (0x73, 7),
     (0xfd, 8), (0x1ffb, 13), (0x7fff0, 19), (0x1ffc, 13), (0x3ffc, 14), (0x22, 6), (0x7ffd, 15),
     (0x3, 5), (0x23, 6), (0x4, 5), (0x24, 6), (0x5, 5), (0x25, 6), (0x26, 6), (0x27, 6), (0x6, 5),
     (0x74, 7), (0x75, 7), (0x28, 6), (0x29, 6), (0x2a, 6), (0x7, 5), (0x2b, 6), (0x76, 7),
     (0x2c, 6), (0x8, 5), (0x9, 5), (0x2d, 6), (0x77, 7), (0x78, 7), (0x79, 7), (0x7a, 7),
     (0x7b, 7), (0x7ffe, 15), (0x7fc, 11), (0x3ffd, 14), (0x1ffd, 13), (0xffffffc, 28),
     (0xfffe6, 20), (0x3fffd2, 22), (0xfffe7, 20), (0xfffe8, 20), (0x3fffd3, 22), (0x3fffd4, 22),
     (0x3fffd5, 22), (0x7fffd9, 23), (0x3fffd6, 22), (0x7fffda, 23), (0x7fffdb, 23),
     (0x7fffdc, 23), (0x7fffdd, 23), (0x7fffde, 23), (0xffffeb, 24), (0x7fffdf, 23),
     (0xffffec, 24), (0xffffed, 24), (0x3fffd7, 22), (0x7fffe0, 23), (0xffffee, 24),
     (0x7fffe1, 23), (0x7fffe2, 23), (0x7fffe3, 23), (0x7fffe4, 23), (0x1fffdc, 21),
     (0x3fffd8, 22), (0x7fffe5, 23), (0x3fffd9, 22), (0x7fffe6, 23), (0x7fffe7, 23),
     (0xffffef, 24), (0x3fffda, 22), (0x1fffdd, 21), (0xfffe9, 20), (0x3fffdb, 22), (0x3fffdc, 22),
     (0x7fffe8, 23), (0x7fffe9, 23), (0x1fffde, 21), (0x7fffea, 23), (0x3fffdd, 22),
     (0x3fffde, 22), (0xfffff0, 24), (0x1fffdf, 21), (0x3fffdf, 22), (0x7fffeb, 23),
     (0x7fffec, 23), (0x1fffe0, 21), (0x1fffe1, 21), (0x3fffe0, 22), (0x1fffe2, 21),
     (0x7fffed, 23), (0x3fffe1, 22), (0x7fffee, 23), (0x7fffef, 23), (0xfffea, 20), (0x3fffe2, 22),
     (0x3fffe3, 22), (0x3fffe4, 22), (0x7ffff0, 23), (0x3fffe5, 22), (0x3fffe6, 22),
     (0x7ffff1, 23), (0x3ffffe0, 26), (0x3ffffe1, 26), (0xfffeb, 20), (0x7fff1, 19),
     (0x3fffe7, 22), (0x7ffff2, 23), (0x3fffe8, 22), (0x1ffffec, 25), (0x3ffffe2, 26),
     (0x3ffffe3, 26), (0x3ffffe4, 26), (0x7ffffde, 27), (0x7ffffdf, 27), (0x3ffffe5, 26),
     (0xfffff1, 24), (0x1ffffed, 25), (0x7fff2, 19), (0x1fffe3, 21), (0x3ffffe6, 26),
     (0x7ffffe0, 27), (0x7ffffe1, 27), (0x3ffffe7, 26), (0x7ffffe2, 27), (0xfffff2, 24),
     (0x1fffe4, 21), (0x1fffe5, 21), (0x3ffffe8, 26), (0x3ffffe9, 26), (0xffffffd, 28),
     (0x7ffffe3, 27), (0x7ffffe4, 27), (0x7ffffe5, 27), (0xfffec, 20), (0xfffff3, 24),
     (0xfffed, 20), (0x1fffe6, 21), (0x3fffe9, 22), (0x1fffe7, 21), (0x1fffe8, 21), (0x7ffff3, 23),
     (0x3fffea, 22), (0x3fffeb, 22), (0x1ffffee, 25), (0x1ffffef, 25), (0xfffff4, 24),
     (0xfffff5, 24), (0x3ffffea, 26), (0x7ffff4, 23), (0x3ffffeb, 26), (0x7ffffe6, 27),
     (0x3ffffec, 26), (0x3ffffed, 26), (0x7ffffe7, 27), (0x7ffffe8, 27), (0x7ffffe9, 27),
     (0x7ffffea, 27), (0x7ffffeb, 27), (0xffffffe, 28), (0x7ffffec, 27), (0x7ffffed, 27),
     (0x7ffffee, 27), (0x7ffffef, 27), (0x7fffff0, 27), (0x3ffffee, 26), (0x3fffffff, 30)]"

text \<open>RFC 9204 Appendix A: name and value, row = index.\<close>

definition QPACK_STATIC_TABLE :: "(bytes \<times> bytes) list" where
  "QPACK_STATIC_TABLE = map (\<lambda>(n, v). (str n, str v)) [
     ('':authority'', []), ('':path'', ''/''), (''age'', ''0''), (''content-disposition'', []),
     (''content-length'', ''0''), (''cookie'', []), (''date'', []), (''etag'', []),
     (''if-modified-since'', []), (''if-none-match'', []), (''last-modified'', []), (''link'', []),
     (''location'', []), (''referer'', []), (''set-cookie'', []), ('':method'', ''CONNECT''),
     ('':method'', ''DELETE''), ('':method'', ''GET''), ('':method'', ''HEAD''),
     ('':method'', ''OPTIONS''), ('':method'', ''POST''), ('':method'', ''PUT''),
     ('':scheme'', ''http''), ('':scheme'', ''https''), ('':status'', ''103''),
     ('':status'', ''200''), ('':status'', ''304''), ('':status'', ''404''),
     ('':status'', ''503''), (''accept'', ''*/*''), (''accept'', ''application/dns-message''),
     (''accept-encoding'', ''gzip, deflate, br''), (''accept-ranges'', ''bytes''),
     (''access-control-allow-headers'', ''cache-control''),
     (''access-control-allow-headers'', ''content-type''),
     (''access-control-allow-origin'', ''*''), (''cache-control'', ''max-age=0''),
     (''cache-control'', ''max-age=2592000''), (''cache-control'', ''max-age=604800''),
     (''cache-control'', ''no-cache''), (''cache-control'', ''no-store''),
     (''cache-control'', ''public, max-age=31536000''), (''content-encoding'', ''br''),
     (''content-encoding'', ''gzip''), (''content-type'', ''application/dns-message''),
     (''content-type'', ''application/javascript''), (''content-type'', ''application/json''),
     (''content-type'', ''application/x-www-form-urlencoded''), (''content-type'', ''image/gif''),
     (''content-type'', ''image/jpeg''), (''content-type'', ''image/png''),
     (''content-type'', ''text/css''), (''content-type'', ''text/html; charset=utf-8''),
     (''content-type'', ''text/plain''), (''content-type'', ''text/plain;charset=utf-8''),
     (''range'', ''bytes=0-''), (''strict-transport-security'', ''max-age=31536000''),
     (''strict-transport-security'', ''max-age=31536000; includesubdomains''),
     (''strict-transport-security'', ''max-age=31536000; includesubdomains; preload''),
     (''vary'', ''accept-encoding''), (''vary'', ''origin''),
     (''x-content-type-options'', ''nosniff''), (''x-xss-protection'', ''1; mode=block''),
     ('':status'', ''100''), ('':status'', ''204''), ('':status'', ''206''),
     ('':status'', ''302''), ('':status'', ''400''), ('':status'', ''403''),
     ('':status'', ''421''), ('':status'', ''425''), ('':status'', ''500''),
     (''accept-language'', []), (''access-control-allow-credentials'', ''FALSE''),
     (''access-control-allow-credentials'', ''TRUE''), (''access-control-allow-headers'', ''*''),
     (''access-control-allow-methods'', ''get''),
     (''access-control-allow-methods'', ''get, post, options''),
     (''access-control-allow-methods'', ''options''),
     (''access-control-expose-headers'', ''content-length''),
     (''access-control-request-headers'', ''content-type''),
     (''access-control-request-method'', ''get''), (''access-control-request-method'', ''post''),
     (''alt-svc'', ''clear''), (''authorization'', []),
     (''content-security-policy'', ''script-src '' @ [CHR 0x27] @ ''none'' @ [CHR 0x27] @ ''; object-src '' @ [CHR 0x27] @ ''none'' @ [CHR 0x27] @ ''; base-uri '' @ [CHR 0x27] @ ''none'' @ [CHR 0x27] @ []),
     (''early-data'', ''1''), (''expect-ct'', []), (''forwarded'', []), (''if-range'', []),
     (''origin'', []), (''purpose'', ''prefetch''), (''server'', []),
     (''timing-allow-origin'', ''*''), (''upgrade-insecure-requests'', ''1''),
     (''user-agent'', []), (''x-forwarded-for'', []), (''x-frame-options'', ''deny''),
     (''x-frame-options'', ''sameorigin'')]"

subsection \<open>Prefixed integers\<close>

function append_int_rest :: "u64 \<Rightarrow> bytes" where
  "append_int_rest rest =
     (if 128 \<le> rest then ((ucast rest AND 0x7f) OR 0x80) # append_int_rest (drop_bit 7 rest)
      else [ucast rest])"
  by pat_completeness auto
termination
proof (relation "measure unat")
  fix rest :: u64
  assume "128 \<le> rest"
  then have "128 \<le> unat rest" by (simp add: word_le_nat_alt)
  then show "(drop_bit 7 rest, rest) \<in> measure unat"
    unfolding in_measure unat_drop_bit_eq by (simp add: drop_bit_nat_def)
qed simp

declare append_int_rest.simps [simp del]

definition int_max :: "nat \<Rightarrow> u64" where
  "int_max prefix = push_bit prefix 1 - 1"

definition append_int :: "bytes \<Rightarrow> nat \<Rightarrow> u64 \<Rightarrow> u8 \<Rightarrow> bytes" where
  "append_int out prefix value flags =
     (let mx = int_max prefix in
      if value < mx then out @ [flags OR ucast value]
      else out @ [flags OR ucast mx] @ append_int_rest (value - mx))"

definition read_byte :: "bytes \<Rightarrow> qpack_error + u8 \<times> bytes" where
  "read_byte s = (case s of [] \<Rightarrow> Inl TruncatedSection | b # rest \<Rightarrow> Inr (b, rest))"

text \<open>The continuation loop of an integer, with the error it raises past 63 bits.\<close>

fun read_int_loop :: "qpack_error \<Rightarrow> bytes \<Rightarrow> u64 \<Rightarrow> nat \<Rightarrow> qpack_error + u64 \<times> bytes" where
  "read_int_loop err [] value shift = Inl TruncatedSection"
| "read_int_loop err (b # rest) value shift =
     (let value' = value + push_bit shift (ucast (b AND 0x7f)) in
      if b AND 0x80 = 0 then Inr (value', rest)
      else if shift + 7 > 63 then Inl err
      else read_int_loop err rest value' (shift + 7))"

definition read_int :: "nat \<Rightarrow> bytes \<Rightarrow> qpack_error + u64 \<times> bytes" where
  "read_int prefix s =
     bindr (read_byte s) (\<lambda>(first, rest).
       let mx = int_max prefix; value = ucast first AND mx in
       if value < mx then Inr (value, rest)
       else read_int_loop IntegerOverflow rest value 0)"

subsection \<open>Huffman decoding\<close>

fun find_symbol :: "(u32 \<times> nat) list \<Rightarrow> nat \<Rightarrow> u32 \<Rightarrow> nat \<Rightarrow> nat option" where
  "find_symbol [] symb acc acc_len = None"
| "find_symbol ((code, len) # tab) symb acc acc_len =
     (if len = acc_len \<and> code = acc then Some symb else find_symbol tab (symb + 1) acc acc_len)"

function huffman_loop :: "bytes \<Rightarrow> nat \<Rightarrow> u32 \<Rightarrow> nat \<Rightarrow> bytes \<Rightarrow> qpack_error + bytes \<times> nat" where
  "huffman_loop input stream_pos acc acc_len out =
     (if stream_pos < length input * 8 then
        let b = drop_bit (7 - stream_pos mod 8) (input ! (stream_pos div 8)) AND 1;
            acc' = push_bit 1 acc OR ucast b;
            acc_len' = acc_len + 1
        in case find_symbol HPACK_HUFFMAN 0 acc' acc_len' of
             Some symb \<Rightarrow>
               if symb = 256 then Inl HuffmanEos
               else huffman_loop input (stream_pos + 1) 0 0 (out @ [of_nat symb])
           | None \<Rightarrow>
               if acc_len' = 30 then Inl InvalidHuffmanCode
               else huffman_loop input (stream_pos + 1) acc' acc_len' out
      else Inr (out, stream_pos))"
  by pat_completeness auto
termination
  by (relation "measure (\<lambda>(input, stream_pos, _). length input * 8 - stream_pos)") auto

declare huffman_loop.simps [simp del]

definition huffman_decode :: "bytes \<Rightarrow> qpack_error + bytes" where
  "huffman_decode input =
     bindr (huffman_loop input 0 0 0 []) (\<lambda>(out, stream_pos).
       let padded = length input * 8 - stream_pos in
       if padded > 0 then
         (let mask = push_bit padded 1 - 1 in
          if last input AND mask \<noteq> mask then Inl InvalidHuffmanPadding else Inr out)
       else Inr out)"

subsection \<open>String literals\<close>

definition read_string :: "nat \<Rightarrow> bytes \<Rightarrow> qpack_error + bytes \<times> bytes" where
  "read_string prefix_width s =
     bindr (read_byte s) (\<lambda>(first, rest).
     bindr (if prefix_width = 4 then Inr (first AND 0x08 \<noteq> 0)
            else if prefix_width = 8 then Inr (first AND 0x80 \<noteq> 0)
            else Inl UnsupportedPrefixWidth) (\<lambda>huffman.
     let length_prefix = prefix_width - 1;
         mask = push_bit length_prefix 1 - 1;
         len0 = ucast (first AND mask) :: u64
     in
     bindr (if len0 \<ge> push_bit length_prefix 1 - 1
            then read_int_loop StringLengthOverflow rest len0 0
            else Inr (len0, rest)) (\<lambda>(len, rest1).
     if length rest1 < unat len then Inl TruncatedString
     else
       let raw = take (unat len) rest1; rest2 = drop (unat len) rest1 in
       if huffman then bindr (huffman_decode raw) (\<lambda>d. Inr (d, rest2))
       else Inr (raw, rest2))))"

subsection \<open>Field sections\<close>

definition encode_field :: "bytes \<Rightarrow> bytes \<times> bytes \<Rightarrow> bytes" where
  "encode_field out nv =
     (case nv of (name, value) \<Rightarrow>
      append_int (append_int out 3 (of_nat (length name)) 0x20 @ name) 7 (of_nat (length value)) 0x00 @ value)"

definition encode_field_section :: "(bytes \<times> bytes) list \<Rightarrow> bytes" where
  "encode_field_section fields = foldl encode_field [0x00, 0x00] fields"

text \<open>One iteration of the decoding loop.\<close>

definition decode_field :: "bytes \<Rightarrow> qpack_error + (bytes \<times> bytes) \<times> bytes" where
  "decode_field s =
     bindr (read_byte s) (\<lambda>(first, _).
     if first AND 0x80 \<noteq> 0 then
       (if first AND 0x40 = 0 then Inl DynamicIndexedReference
        else bindr (read_int 6 s) (\<lambda>(index, rest).
          if unat index < length QPACK_STATIC_TABLE
          then Inr (QPACK_STATIC_TABLE ! unat index, rest)
          else Inl (StaticIndexOutOfRange index)))
     else if first AND 0xc0 = 0x40 then
       bindr (read_int 4 s) (\<lambda>(index, rest).
         if unat index < length QPACK_STATIC_TABLE
         then bindr (read_string 8 rest) (\<lambda>(value, rest2).
                Inr ((fst (QPACK_STATIC_TABLE ! unat index), from_utf8_lossy value), rest2))
         else Inl (StaticNameIndexOutOfRange index))
     else if first AND 0xe0 = 0x20 then
       bindr (read_string 4 s) (\<lambda>(name, rest).
       bindr (read_string 8 rest) (\<lambda>(value, rest2).
         Inr ((from_utf8_lossy name, from_utf8_lossy value), rest2)))
     else Inl (UnsupportedFieldLine first))"

lemma read_byte_consumes: "read_byte s = Inr (b, rest) \<Longrightarrow> s = b # rest"
  by (auto simp: read_byte_def split: list.splits)

lemma read_int_loop_consumes:
  "read_int_loop err s v sh = Inr (w, rest) \<Longrightarrow> length rest < length s"
  by (induction err s v sh rule: read_int_loop.induct) (auto simp: Let_def split: if_splits)

lemma read_int_consumes: "read_int p s = Inr (w, rest) \<Longrightarrow> length rest < length s"
  by (auto simp: read_int_def Let_def bindr_Inr_iff dest!: read_byte_consumes read_int_loop_consumes
      split: if_splits)

lemma read_string_consumes: "read_string p s = Inr (w, rest) \<Longrightarrow> length rest < length s"
  by (auto simp: read_string_def Let_def bindr_Inr_iff dest!: read_byte_consumes read_int_loop_consumes
      split: if_splits)

lemma decode_field_consumes: "decode_field s = Inr (f, rest) \<Longrightarrow> length rest < length s"
  by (auto simp: decode_field_def bindr_Inr_iff
      dest!: read_byte_consumes read_int_consumes read_string_consumes split: if_splits)

function decode_fields :: "bytes \<Rightarrow> qpack_error + (bytes \<times> bytes) list" where
  "decode_fields s =
     (if s = [] then Inr []
      else bindr (decode_field s) (\<lambda>(f, rest). bindr (decode_fields rest) (\<lambda>fs. Inr (f # fs))))"
  by pat_completeness auto
termination
  by (relation "measure length") (auto dest: decode_field_consumes)

declare decode_fields.simps [simp del]

definition decode_field_section :: "bytes \<Rightarrow> qpack_error + (bytes \<times> bytes) list" where
  "decode_field_section block =
     bindr (read_int 8 block) (\<lambda>(required_insert_count, s1).
     if required_insert_count \<noteq> 0 then Inl DynamicTableReference
     else bindr (read_int 7 s1) (\<lambda>(base, s2).
     if base \<noteq> 0 then Inl NonzeroBase else decode_fields s2))"

subsection \<open>Integers and sections round trip\<close>

lemma bit_0x80: "bit (0x80 :: int) n \<longleftrightarrow> n = 7"
proof -
  have "(0x80 :: int) = 2 ^ 7" by simp
  then show ?thesis by (simp only: bit_exp_iff) auto
qed

lemma bit_0x7f: "bit (0x7f :: int) n \<longleftrightarrow> n < 7"
proof -
  have "(0x7f :: int) = mask 7" by (simp add: mask_eq_exp_minus_1)
  then show ?thesis by (simp only: bit_mask_iff) auto
qed

lemma low7_bits:
  fixes r :: u64
  shows "ucast (((ucast r AND 0x7f) OR 0x80 :: u8) AND 0x7f) = take_bit 7 r"
    and "((ucast r AND 0x7f) OR 0x80 :: u8) AND 0x80 \<noteq> 0"
proof -
  show "ucast (((ucast r AND 0x7f) OR 0x80 :: u8) AND 0x7f) = take_bit 7 r"
    by (rule bit_word_eqI) (auto simp: bit_simps bit_0x80 bit_0x7f)
  have "bit (((ucast r AND 0x7f) OR 0x80 :: u8) AND 0x80) 7"
    by (simp add: bit_simps bit_0x80 bit_0x7f)
  then show "((ucast r AND 0x7f) OR 0x80 :: u8) AND 0x80 \<noteq> 0" by auto
qed

lemma small7_bits:
  fixes r :: u64
  assumes "r < 128"
  shows "ucast ((ucast r :: u8) AND 0x7f) = r" and "(ucast r :: u8) AND 0x80 = 0"
proof -
  from assms have t: "take_bit 7 r = r"
    by (simp add: word_unat_eq_iff unsigned_take_bit_eq take_bit_nat_eq_self word_less_nat_alt)
  have "ucast ((ucast r :: u8) AND 0x7f) = take_bit 7 r"
    by (rule bit_word_eqI) (auto simp: bit_simps bit_0x80 bit_0x7f)
  with t show "ucast ((ucast r :: u8) AND 0x7f) = r" by simp
  have "\<not> bit r 7" using t by (metis bit_take_bit_iff less_irrefl_nat)
  then show "(ucast r :: u8) AND 0x80 = 0" 
    by (intro bit_word_eqI) (auto simp: bit_simps bit_0x80 bit_0x7f)
qed

lemma read_int_loop_append:
  assumes "sh \<le> 63" and "unat r < 2 ^ (64 - sh)"
  shows "read_int_loop err (append_int_rest r @ rest) v sh = Inr (v + push_bit sh r, rest)"
  using assms
proof (induction r arbitrary: v sh rule: append_int_rest.induct)
  case (1 r)
  show ?case
  proof (cases "128 \<le> r")
    case False
    then have "r < 128" by simp
    from small7_bits [OF this] False show ?thesis
      by (subst append_int_rest.simps) simp
  next
    case True
    then have r: "128 \<le> unat r" by (simp add: word_le_nat_alt)
    with "1.prems" have "(2::nat) ^ 7 < 2 ^ (64 - sh)" by simp
    then have sh: "7 < 64 - sh" by (rule power_less_imp_less_exp [rotated]) simp
    have d: "unat (drop_bit 7 r) < 2 ^ (64 - (sh + 7))"
    proof -
      have "(2::nat) ^ (64 - sh) = 2 ^ 7 * 2 ^ (64 - (sh + 7))"
        unfolding power_add [symmetric] using sh by simp
      with "1.prems" show ?thesis
        by (simp add: unat_drop_bit_eq drop_bit_nat_def less_mult_imp_div_less mult.commute)
    qed
    have "push_bit sh (take_bit 7 r) + push_bit (sh + 7) (drop_bit 7 r) = push_bit sh r"
      using bits_ident [of 7 r] by (metis add.commute push_bit_add push_bit_push_bit)
    with "1.IH" [OF True _ d, of "v + push_bit sh (take_bit 7 r)"] sh low7_bits [of r] True
    show ?thesis by (subst append_int_rest.simps) (simp add: add.assoc)
  qed
qed

lemma int_max_mask: "int_max p = mask p"
  by (simp add: int_max_def mask_eq_exp_minus_1 push_bit_eq_mult)

lemma take_bit_le_mask:
  fixes v :: u64
  assumes "v \<le> mask p"
  shows "take_bit p v = v"
proof (cases "p < 64")
  case True
  from assms have "unat v \<le> unat (mask p :: u64)" by (simp add: word_le_nat_alt)
  also have "unat (mask p :: u64) = unat (of_nat (mask p) :: u64)" by (simp only: of_nat_mask_eq)
  also have "\<dots> \<le> mask p"
    by (simp only: unsigned_of_nat of_nat_id) (rule take_bit_nat_less_eq_self)
  also have "(mask p :: nat) < 2 ^ p" by (simp add: mask_nat_def)
  finally show ?thesis
    by (simp add: word_unat_eq_iff unsigned_take_bit_eq take_bit_nat_eq_self)
qed (simp add: take_bit_word_eq_self)

text \<open>The b0 byte of an integer: flags above, the value or all ones below.\<close>

lemma int_b0_byte:
  fixes v :: u64 and flags :: u8
  assumes "v \<le> mask p" and "p \<le> 8" and "take_bit p flags = 0"
  shows "ucast (flags OR ucast v :: u8) AND mask p = v"
    and "ucast ((flags OR ucast v :: u8) AND mask p) = v"
proof -
  have t: "take_bit p v = v" by (rule take_bit_le_mask) fact
  have nf: "\<not> bit flags i" if "i < p" for i
    using assms(3) that by (metis bit_0_eq bit_take_bit_iff bot_apply bot_bool_def)
  have nv: "bit v i \<Longrightarrow> i < p" for i using t by (metis bit_take_bit_iff)
  show "ucast (flags OR ucast v :: u8) AND mask p = v"
    using assms(2) by (intro bit_word_eqI) (auto simp: bit_simps nf dest: nv)
  then show "ucast ((flags OR ucast v :: u8) AND mask p) = v"
    using assms(2) by (intro bit_word_eqI) (auto simp: bit_simps nf dest: nv)
qed

lemma read_int_append_int:
  assumes "p \<le> 8" and "take_bit p flags = 0"
  shows "read_int p (append_int [] p value flags @ rest) = Inr (value, rest)"
proof (cases "value < mask p")
  case True
  then have "value \<le> mask p" by simp
  from int_b0_byte(1) [OF this assms] True show ?thesis
    by (simp add: read_int_def append_int_def int_max_mask Let_def read_byte_def)
next
  case False
  have "unat (value - mask p) < 2 ^ (64 - 0)" using unsigned_less [of "value - mask p"] by simp
  from read_int_loop_append [OF _ this] int_b0_byte(1) [OF order_refl assms] False show ?thesis
    by (simp add: read_int_def append_int_def int_max_mask Let_def read_byte_def)
qed

lemma append_int_append: "append_int out p v f = out @ append_int [] p v f"
  by (simp add: append_int_def Let_def)

lemma read_string_append_int:
  assumes "w = 4 \<or> w = 8" and "take_bit w flags = 0" and "length raw < 2 ^ 64"
  shows "read_string w (append_int [] (w - 1) (of_nat (length raw)) flags @ raw @ rest) = Inr (raw, rest)"
proof -
  let ?v = "of_nat (length raw) :: u64"
  let ?p = "w - 1"
  let ?m = "mask ?p :: u64"
  from assms(1) have p: "?p \<le> 8" "?p < 8" by auto
  from assms(1,2) have tf: "take_bit ?p flags = 0"
    by (metis diff_le_self min.absorb2 min_def take_bit_of_0 take_bit_take_bit)
  have nbf: "\<not> bit flags ?p"
    using assms(1,2) by (metis bit_0_eq bit_take_bit_iff bot_apply bot_bool_def diff_less less_numeral_extra(1) zero_less_numeral)
  have l: "unat ?v = length raw" using assms(3) by (rule unat_of_nat_u64)
  have hb: "\<not> bit (flags OR ucast x :: u8) ?p" if "x \<le> ?m" for x :: u64
    using take_bit_le_mask [OF that] nbf by (auto simp: bit_simps) (metis bit_take_bit_iff less_irrefl_nat)
  have huff: "(if w = 4 then Inr (b AND 0x08 \<noteq> 0) else if w = 8 then Inr (b AND 0x80 \<noteq> 0)
        else Inl UnsupportedPrefixWidth) = Inr (bit b ?p)" for b :: u8
    using assms(1) and_exp_eq_0_iff_not_bit [of b 3] and_exp_eq_0_iff_not_bit [of b 7] by auto
  have lim: "push_bit ?p 1 - 1 = ?m" "push_bit ?p 1 - 1 = (mask ?p :: u8)"
    by (simp_all add: mask_eq_exp_minus_1 push_bit_eq_mult)
  show ?thesis
  proof (cases "?v < ?m")
    case True
    then have le: "?v \<le> ?m" by simp
    show ?thesis unfolding append_int_def read_string_def int_max_mask Let_def lim huff
      using True True [unfolded not_le [symmetric]] hb [OF le] int_b0_byte(2) [OF le p(1) tf]
      by (simp add: l read_byte_def del: of_nat_unat)
  next
    case False
    have "unat (?v - ?m) < 2 ^ (64 - 0)" using unsigned_less [of "?v - ?m"] by simp
    note loop = read_int_loop_append [OF _ this]
    show ?thesis unfolding append_int_def read_string_def int_max_mask Let_def lim huff
      using False hb [OF order_refl] int_b0_byte(2) [OF order_refl p(1) tf] loop
      by (simp add: l read_byte_def del: of_nat_unat)
  qed
qed


definition field_ok :: "bytes \<times> bytes \<Rightarrow> bool" where
  "field_ok f \<longleftrightarrow> utf8_valid (fst f) \<and> utf8_valid (snd f) \<and> length (fst f) < 2 ^ 64 \<and> length (snd f) < 2 ^ 64"

lemma encode_field_append: "encode_field out f = out @ encode_field [] f"
proof (cases f)
  case (Pair n v)
  show ?thesis unfolding Pair encode_field_def
    by (simp add: append_int_append [of "out @ append_int [] 3 (of_nat (length n)) 0x20 @ n"]
        append_int_append [of "append_int [] 3 (of_nat (length n)) 0x20 @ n"] append_int_append [of out])
qed

lemma encode_field_flat:
  "encode_field [] (n, v) =
     append_int [] 3 (of_nat (length n)) 0x20 @ n @ append_int [] 7 (of_nat (length v)) 0x00 @ v"
  by (simp add: encode_field_def append_int_append [of "append_int [] 3 (of_nat (length n)) 0x20 @ n"])

lemma encode_field_section_append:
  "foldl encode_field out fs = out @ concat (map (encode_field []) fs)"
proof (induction fs arbitrary: out)
  case (Cons f fs)
  then show ?case using encode_field_append [of out f] by simp
qed simp

lemma append_int_hd: "append_int [] p v f \<noteq> [] \<and> hd (append_int [] p v f) = f OR ucast (min v (int_max p))"
  by (auto simp: append_int_def Let_def min_def)

lemma literal_b0_byte:
  assumes "append_int [] 3 v 0x20 = b0 # bs0"
  shows "b0 AND 0x80 = 0" and "b0 AND 0xc0 \<noteq> 0x40" and "b0 AND 0xe0 = 0x20"
proof -
  have f: "b0 = 0x20 OR ucast (min v (int_max 3))"
    using append_int_hd [of 3 v "0x20"] assms by simp
  have "min v (int_max 3) \<le> 7" by (simp add: int_max_def)
  then have "unat (min v (int_max 3)) \<le> 7" by (simp add: word_le_nat_alt)
  then have "unat (min v (int_max 3)) \<in> {0, 1, 2, 3, 4, 5, 6, 7}"
    unfolding insert_iff empty_iff by presburger
  then have "min v (int_max 3) \<in> {0, 1, 2, 3, 4, 5, 6, 7}"
    by (simp add: word_unat_eq_iff)
  then show "b0 AND 0x80 = 0" "b0 AND 0xc0 \<noteq> 0x40" "b0 AND 0xe0 = 0x20"
    unfolding f by auto
qed

lemma decode_field_encode:
  assumes "field_ok f"
  shows "decode_field (encode_field [] f @ rest) = Inr (f, rest)"
proof (cases f)
  case (Pair name val)
  let ?n = "append_int [] 3 (of_nat (length name)) 0x20"
  let ?v = "append_int [] 7 (of_nat (length val)) 0x00"
  have e: "encode_field [] f @ rest = ?n @ name @ ?v @ val @ rest"
    by (simp add: Pair encode_field_flat)
  obtain b0 bs0 where n: "?n = b0 # bs0"
    using append_int_hd [of 3 _ "0x20"] by (cases ?n) auto
  from assms have ok: "utf8_valid name" "utf8_valid val" "length name < 2 ^ 64" "length val < 2 ^ 64"
    by (simp_all add: field_ok_def Pair)
  have rn: "read_string 4 (?n @ name @ r) = Inr (name, r)" for r
    using read_string_append_int [of 4 "0x20" name r] ok by simp
  have rv: "read_string 8 (?v @ val @ rest) = Inr (val, rest)"
    using read_string_append_int [of 8 "0x00" val rest] ok by simp
  show ?thesis
    unfolding e decode_field_def
    using literal_b0_byte [OF n] rn [of "?v @ val @ rest"] rv ok
    by (simp add: n read_byte_def Pair from_utf8_lossy_valid)
qed

lemma decode_fields_encode:
  assumes "list_all field_ok fs"
  shows "decode_fields (concat (map (encode_field []) fs)) = Inr fs"
  using assms
proof (induction fs)
  case Nil
  then show ?case by (simp add: decode_fields.simps)
next
  case (Cons f fs)
  have "encode_field [] f \<noteq> []"
    using append_int_hd [of 3 _ "0x20"] by (cases f) (simp add: encode_field_flat)
  with Cons show ?case
    by (subst decode_fields.simps) (simp add: decode_field_encode)
qed

lemma decode_section_encode:
  assumes "list_all field_ok fs"
  shows "decode_field_section (encode_field_section fs) = Inr fs"
proof -
  have "read_int p (0 # r) = Inr (0, r)" if "p = 7 \<or> p = 8" for p r
    using that by (auto simp: read_int_def read_byte_def int_max_def)
  with assms show ?thesis
    by (simp add: decode_field_section_def encode_field_section_def encode_field_section_append decode_fields_encode)
qed

subsection \<open>Properties\<close>

text \<open>Every 64-bit integer round trips through the prefixed-integer coding, for every prefix
  width up to eight bits and every flag byte that leaves the prefix bits clear, whatever bytes
  follow.\<close>

theorem qpack_int_roundtrip:
  assumes "p \<le> 8" and "take_bit p flags = 0"
  shows "read_int p (append_int [] p v flags @ rest) = Inr (v, rest)"
  using assms by (rule read_int_append_int)

theorem qpack_int_roundtrip_witness:
  "read_int 5 (append_int [] 5 1337 0xE0 @ [9]) = Inr (1337, [9])"
  by (rule qpack_int_roundtrip) (simp_all add: take_bit_eq_mask mask_eq_exp_minus_1)

text \<open>C37. Field sections round trip: decoding the section built from a list of UTF-8 headers
  gives back the same list, in order.\<close>

theorem qpack_section_roundtrip:
  assumes "list_all field_ok fs"
  shows "decode_field_section (encode_field_section fs) = Inr fs"
  using assms by (rule decode_section_encode)

theorem qpack_section_roundtrip_witness:
  "decode_field_section (encode_field_section [(str '':status'', str ''233''), (str ''a'', [])]) =
     Inr [(str '':status'', str ''233''), (str ''a'', [])]"
proof (rule qpack_section_roundtrip)
  have "utf8_valid (str '':status'')" "utf8_valid (str ''233'')" "utf8_valid (str ''a'')" "utf8_valid []"
    by (intro utf8_valid_ascii; simp add: word_less_nat_alt)+
  then show "list_all field_ok [(str '':status'', str ''233''), (str ''a'', [])]"
    by (simp add: field_ok_def del: utf8_valid.simps)
qed

text \<open>A literal field line whose name reference points into the dynamic table (T bit clear)
  is decoded as if it pointed into the static table: the two bytes that differ only in the
  T bit give the same header, so the decoder does not reject these dynamic references.\<close>

theorem name_reference_ignores_table_bit:
  assumes "i < 15"
  shows "decode_field ((0x40 OR i) # rest) = decode_field ((0x50 OR i) # rest)"
proof -
  from assms have "unat i < 15" by (simp add: word_less_nat_alt)
  then have "unat i \<in> {0, 1, 2, 3, 4, 5, 6, 7, 8, 9, 10, 11, 12, 13, 14}"
    unfolding insert_iff empty_iff by presburger
  then have "i \<in> {0, 1, 2, 3, 4, 5, 6, 7, 8, 9, 10, 11, 12, 13, 14}"
    by (simp add: word_unat_eq_iff)
  then show ?thesis
    by (elim insertE emptyE; hypsubst) (simp_all add: decode_field_def read_byte_def read_int_def int_max_def)
qed

theorem name_reference_ignores_table_bit_witness:
  "decode_field [0x45, 0x00] = decode_field [0x55, 0x00]"
  using name_reference_ignores_table_bit [of 5 "[0x00]"] by simp

end
