(* ===== verification/Huffman_Code.thy ===== *)
theory Huffman_Code
  imports Qpack
begin

text \<open>
  The HPACK code as a prefix code. The table is checked once: in canonical order the codes,
  padded to 30 bits, tile the range from 0 to \<open>2 ^ 30\<close> (\<open>huffman_chain\<close>). So no code is a
  prefix of another and every sequence of 30 bits starts with a code, from which the
  behaviour of \<open>huffman_decode\<close> on every input follows.
\<close>

definition canonical_order :: "nat list" where
  "canonical_order = [
     48, 49, 50, 97, 99, 101, 105, 111, 115, 116, 32, 37, 45, 46, 47, 51, 52, 53, 54, 55, 56, 57,
     61, 65, 95, 98, 100, 102, 103, 104, 108, 109, 110, 112, 114, 117, 58, 66, 67, 68, 69, 70, 71,
     72, 73, 74, 75, 76, 77, 78, 79, 80, 81, 82, 83, 84, 85, 86, 87, 89, 106, 107, 113, 118, 119,
     120, 121, 122, 38, 42, 44, 59, 88, 90, 33, 34, 40, 41, 63, 39, 43, 124, 35, 62, 0, 36, 64, 91,
     93, 126, 94, 125, 60, 96, 123, 92, 195, 208, 128, 130, 131, 162, 184, 194, 224, 226, 153, 161,
     167, 172, 176, 177, 179, 209, 216, 217, 227, 229, 230, 129, 132, 133, 134, 136, 146, 154, 156,
     160, 163, 164, 169, 170, 173, 178, 181, 185, 186, 187, 189, 190, 196, 198, 228, 232, 233, 1,
     135, 137, 138, 139, 140, 141, 143, 147, 149, 150, 151, 152, 155, 157, 158, 165, 166, 168, 174,
     175, 180, 182, 183, 188, 191, 197, 231, 239, 9, 142, 144, 145, 148, 159, 171, 206, 215, 225,
     236, 237, 199, 207, 234, 235, 192, 193, 200, 201, 202, 205, 210, 213, 218, 219, 238, 240, 242,
     243, 255, 203, 204, 211, 212, 214, 221, 222, 223, 241, 244, 245, 246, 247, 248, 250, 251, 252,
     253, 254, 2, 3, 4, 5, 6, 7, 8, 11, 12, 14, 15, 16, 17, 18, 19, 20, 21, 23, 24, 25, 26, 27, 28,
     29, 30, 31, 127, 220, 249, 10, 13, 22, 256]"

fun code_chain :: "nat \<Rightarrow> (u32 \<times> nat) list \<Rightarrow> bool" where
  "code_chain x [] \<longleftrightarrow> x = 2 ^ 30"
| "code_chain x ((code, len) # tab) \<longleftrightarrow>
     unat code * 2 ^ (30 - len) = x \<and> 0 < len \<and> len \<le> 30 \<and> code_chain (x + 2 ^ (30 - len)) tab"

lemma huffman_chain: "code_chain 0 (map (\<lambda>s. HPACK_HUFFMAN ! s) canonical_order)"
  by (simp add: canonical_order_def HPACK_HUFFMAN_def)

lemma length_canonical_order: "length canonical_order = 257"
  and canonical_order_bound: "list_all (\<lambda>s. s < 257) canonical_order"
  by (simp_all add: canonical_order_def)

lemma length_HPACK_HUFFMAN: "length HPACK_HUFFMAN = 257"
  by (simp add: HPACK_HUFFMAN_def)

subsection \<open>Codes as intervals\<close>

definition code_lo :: "u32 \<times> nat \<Rightarrow> nat" where
  "code_lo e = unat (fst e) * 2 ^ (30 - snd e)"

definition code_hi :: "u32 \<times> nat \<Rightarrow> nat" where
  "code_hi e = code_lo e + 2 ^ (30 - snd e)"

lemma code_lo_less_hi: "code_lo e < code_hi e"
  by (simp add: code_hi_def)

lemma code_chain_ge: "code_chain x tab \<Longrightarrow> k < length tab \<Longrightarrow> x \<le> code_lo (tab ! k)"
proof (induction x tab arbitrary: k rule: code_chain.induct)
  case (2 x code len tab)
  show ?case
  proof (cases k)
    case 0
    with 2 show ?thesis by (simp add: code_lo_def)
  next
    case (Suc j)
    with 2 have "x + 2 ^ (30 - len) \<le> code_lo (tab ! j)" by simp
    with Suc show ?thesis by simp
  qed
qed simp

lemma code_chain_step:
  "code_chain x tab \<Longrightarrow> i < j \<Longrightarrow> j < length tab \<Longrightarrow> code_hi (tab ! i) \<le> code_lo (tab ! j)"
proof (induction x tab arbitrary: i j rule: code_chain.induct)
  case (2 x code len tab)
  then obtain j' where j: "j = Suc j'" by (cases j) auto
  show ?case
  proof (cases i)
    case 0
    have "x + 2 ^ (30 - len) \<le> code_lo (tab ! j')" using 2 j by (auto intro: code_chain_ge)
    with 2 j 0 show ?thesis by (simp add: code_hi_def code_lo_def)
  next
    case (Suc i')
    with 2 j show ?thesis by simp
  qed
qed simp

lemma code_chain_lengths: "code_chain x tab \<Longrightarrow> e \<in> set tab \<Longrightarrow> 0 < snd e \<and> snd e \<le> 30"
  by (induction x tab rule: code_chain.induct) auto

lemma code_chain_covers:
  "code_chain x tab \<Longrightarrow> x \<le> v \<Longrightarrow> v < 2 ^ 30 \<Longrightarrow> \<exists>e \<in> set tab. code_lo e \<le> v \<and> v < code_hi e"
proof (induction x tab rule: code_chain.induct)
  case (2 x code len tab)
  show ?case
  proof (cases "v < x + 2 ^ (30 - len)")
    case True
    with 2 have "code_lo (code, len) \<le> v \<and> v < code_hi (code, len)"
      by (simp add: code_lo_def code_hi_def)
    then show ?thesis by auto
  next
    case False
    with 2 show ?thesis by auto
  qed
qed simp

definition entry :: "nat \<Rightarrow> u32 \<times> nat" where
  "entry s = HPACK_HUFFMAN ! s"

lemma order_disjoint:
  "i < j \<Longrightarrow> j < 257 \<Longrightarrow> code_hi (entry (canonical_order ! i)) \<le> code_lo (entry (canonical_order ! j))"
  using code_chain_step [OF huffman_chain, of i j] by (simp add: entry_def length_canonical_order)

lemma distinct_canonical_order: "distinct canonical_order"
proof (unfold distinct_conv_nth, intro allI impI)
  fix i j
  assume "i < length canonical_order" "j < length canonical_order" "i \<noteq> j"
  then show "canonical_order ! i \<noteq> canonical_order ! j"
    using order_disjoint [of i j] order_disjoint [of j i] code_lo_less_hi
    by (metis length_canonical_order linorder_neqE_nat not_less)
qed

lemma set_canonical_order: "set canonical_order = {..<257}"
proof (rule card_subset_eq)
  show "set canonical_order \<subseteq> {..<257}"
    using canonical_order_bound by (auto simp: list_all_iff)
  show "card (set canonical_order) = card {..<257::nat}"
    using distinct_canonical_order by (simp add: distinct_card length_canonical_order)
qed simp

lemma symbol_position: "s < 257 \<Longrightarrow> \<exists>i<257. canonical_order ! i = s"
  using set_canonical_order by (metis in_set_conv_nth length_canonical_order lessThan_iff)

text \<open>Overlapping intervals belong to the same symbol.\<close>

lemma symbols_disjoint:
  assumes "s < 257" "t < 257" "code_lo (entry s) < code_hi (entry t)" "code_lo (entry t) < code_hi (entry s)"
  shows "s = t"
proof -
  obtain i j where ij: "i < 257" "j < 257" "canonical_order ! i = s" "canonical_order ! j = t"
    using symbol_position assms(1,2) by blast
  with assms(3,4) order_disjoint [of i j] order_disjoint [of j i] have "i = j"
    by (metis linorder_neqE_nat not_less)
  with ij show ?thesis by simp
qed

lemma entry_length: "s < 257 \<Longrightarrow> 0 < snd (entry s) \<and> snd (entry s) \<le> 30"
proof -
  assume "s < 257"
  then have "entry s \<in> set (map (\<lambda>s. HPACK_HUFFMAN ! s) canonical_order)"
    using set_canonical_order by (auto simp: entry_def)
  then show ?thesis by (rule code_chain_lengths [OF huffman_chain])
qed

lemma some_entry_covers:
  "v < 2 ^ 30 \<Longrightarrow> \<exists>s<257. code_lo (entry s) \<le> v \<and> v < code_hi (entry s)"
  using code_chain_covers [OF huffman_chain, of v] set_canonical_order by (auto simp: entry_def)

subsection \<open>Bit strings\<close>

fun bits_val :: "nat \<Rightarrow> bool list \<Rightarrow> nat" where
  "bits_val acc [] = acc"
| "bits_val acc (b # bs) = bits_val (2 * acc + of_bool b) bs"

lemma bits_val_append: "bits_val acc (xs @ ys) = bits_val (bits_val acc xs) ys"
  by (induction xs arbitrary: acc) auto

lemma bits_val_split: "bits_val acc bs = acc * 2 ^ length bs + bits_val 0 bs"
proof (induction bs arbitrary: acc)
  case (Cons b bs)
  from Cons [of "2 * acc + of_bool b"] Cons [of "of_bool b"] show ?case
    by (simp add: algebra_simps)
qed simp

lemma bits_val_bound: "bits_val 0 bs < 2 ^ length bs"
proof (induction bs)
  case (Cons b bs)
  from bits_val_split [of "of_bool b" bs] Cons show ?case by (cases b) simp_all
qed simp

fun nat_bits :: "nat \<Rightarrow> nat \<Rightarrow> bool list" where
  "nat_bits 0 n = []"
| "nat_bits (Suc k) n = nat_bits k (n div 2) @ [odd n]"

lemma nat_bits_numeral [simp]:
  "nat_bits (numeral k) n = nat_bits (pred_numeral k) (n div 2) @ [odd n]"
  by (simp add: numeral_eq_Suc)

lemma length_nat_bits [simp]: "length (nat_bits k n) = k"
  by (induction k arbitrary: n) auto

lemma bits_val_nat_bits: "n < 2 ^ k \<Longrightarrow> bits_val 0 (nat_bits k n) = n"
proof (induction k arbitrary: n)
  case (Suc k)
  then have "bits_val 0 (nat_bits k (n div 2)) = n div 2" by (simp add: less_mult_imp_div_less mult.commute)
  then show ?case by (simp add: bits_val_append)
qed simp

text \<open>The bits of a symbol's code, most significant first.\<close>

definition code_bits :: "nat \<Rightarrow> bool list" where
  "code_bits s = nat_bits (snd (entry s)) (unat (fst (entry s)))"

lemma length_code_bits [simp]: "length (code_bits s) = snd (entry s)"
  by (simp add: code_bits_def)

lemma code_hi_bound: "s < 257 \<Longrightarrow> code_hi (entry s) \<le> 2 ^ 30"
proof -
  assume s: "s < 257"
  then obtain i where i: "i < 257" "canonical_order ! i = s" using symbol_position by blast
  have chain_le: "code_chain x tab \<Longrightarrow> k < length tab \<Longrightarrow> code_hi (tab ! k) \<le> 2 ^ 30" for x tab k
  proof (induction x tab arbitrary: k rule: code_chain.induct)
    case (2 x code len tab)
    have top: "code_chain y tb \<Longrightarrow> y \<le> 2 ^ 30" for y tb
      by (induction y tb rule: code_chain.induct) auto
    from 2 top [of "x + 2 ^ (30 - len)" tab] show ?case
      by (cases k) (auto simp: code_hi_def code_lo_def)
  qed simp
  from chain_le [OF huffman_chain, of i] i show ?thesis
    by (simp add: length_canonical_order entry_def)
qed

lemma bits_val_code_bits: "s < 257 \<Longrightarrow> bits_val 0 (code_bits s) = unat (fst (entry s))"
proof -
  assume s: "s < 257"
  let ?l = "snd (entry s)"
  have l: "?l \<le> 30" using entry_length [OF s] by simp
  have "unat (fst (entry s)) * 2 ^ (30 - ?l) < 2 ^ 30"
    using code_hi_bound [OF s] code_lo_less_hi [of "entry s"] by (simp add: code_lo_def)
  also have "(2::nat) ^ 30 = 2 ^ ?l * 2 ^ (30 - ?l)"
    unfolding power_add [symmetric] using l by simp
  finally have "unat (fst (entry s)) < 2 ^ ?l" by simp
  then show ?thesis unfolding code_bits_def by (rule bits_val_nat_bits)
qed

text \<open>A symbol whose code is a prefix of some bits has an interval that holds their value.\<close>

lemma prefix_overlap:
  assumes "length w \<le> 30" and "w = w' @ v"
  shows "bits_val 0 w' * 2 ^ (30 - length w') \<le> bits_val 0 w * 2 ^ (30 - length w)"
    and "bits_val 0 w * 2 ^ (30 - length w) < bits_val 0 w' * 2 ^ (30 - length w') + 2 ^ (30 - length w')"
proof -
  let ?k = "30 - length w"
  have e: "(2::nat) ^ (30 - length w') = 2 ^ length v * 2 ^ ?k"
    unfolding power_add [symmetric] using assms by simp
  have v: "bits_val 0 w = bits_val 0 w' * 2 ^ length v + bits_val 0 v"
    using assms(2) bits_val_split [of "bits_val 0 w'" v] by (simp add: bits_val_append)
  show "bits_val 0 w' * 2 ^ (30 - length w') \<le> bits_val 0 w * 2 ^ ?k"
    by (simp add: e v algebra_simps)
  have "(bits_val 0 v + 1) * 2 ^ ?k \<le> 2 ^ length v * 2 ^ ?k"
    using bits_val_bound [of v] by (intro mult_right_mono) auto
  moreover have "(0::nat) < 2 ^ ?k" by simp
  ultimately have "bits_val 0 v * 2 ^ ?k < 2 ^ length v * 2 ^ ?k"
    by (simp only: distrib_right)
  then show "bits_val 0 w * 2 ^ ?k < bits_val 0 w' * 2 ^ (30 - length w') + 2 ^ (30 - length w')"
    by (simp add: e v algebra_simps)
qed

lemma code_prefix_unique:
  assumes "s < 257" "t < 257" "code_bits s = w' @ v"
    and "snd (entry t) = length w'" "unat (fst (entry t)) = bits_val 0 w'"
  shows "t = s"
proof -
  have l: "length (code_bits s) \<le> 30" using entry_length [OF assms(1)] by simp
  from prefix_overlap [OF l assms(3)] bits_val_code_bits [OF assms(1)]
  have "code_lo (entry t) \<le> code_lo (entry s)" "code_lo (entry s) < code_hi (entry t)"
    by (simp_all add: code_lo_def code_hi_def assms(4,5))
  moreover have "code_lo (entry s) < code_hi (entry s)" by (rule code_lo_less_hi)
  ultimately show ?thesis
    using symbols_disjoint [OF assms(2,1)] by linarith
qed

subsection \<open>Symbol search\<close>

lemma find_symbol_None_iff: "find_symbol tab k acc l = None \<longleftrightarrow> (acc, l) \<notin> set tab"
  by (induction tab k acc l rule: find_symbol.induct) auto

lemma find_symbol_Some:
  "find_symbol tab k acc l = Some s \<Longrightarrow> k \<le> s \<and> s < k + length tab \<and> tab ! (s - k) = (acc, l)"
proof (induction tab k acc l rule: find_symbol.induct)
  case (2 code len tab k acc l)
  show ?case
  proof (cases "len = l \<and> code = acc")
    case True
    with 2 show ?thesis by simp
  next
    case False
    with 2 have IH: "k + 1 \<le> s \<and> s < k + 1 + length tab \<and> tab ! (s - (k + 1)) = (acc, l)" by auto
    then have "s - k = Suc (s - (k + 1))" by arith
    with IH show ?thesis by simp
  qed
qed simp

lemma find_entry_Some: "find_symbol HPACK_HUFFMAN 0 acc l = Some s \<Longrightarrow> s < 257 \<and> entry s = (acc, l)"
  using find_symbol_Some [of HPACK_HUFFMAN 0 acc l s] by (simp add: length_HPACK_HUFFMAN entry_def)

lemma find_entry_None: "find_symbol HPACK_HUFFMAN 0 acc l = None \<Longrightarrow> s < 257 \<Longrightarrow> entry s \<noteq> (acc, l)"
  unfolding find_symbol_None_iff entry_def by (metis length_HPACK_HUFFMAN nth_mem)

text \<open>Searching while the bits read so far, \<open>w\<close>, are a prefix of the code of \<open>s\<close>.\<close>

lemma find_in_code:
  assumes "s < 257" "code_bits s = w @ v" "unat acc = bits_val 0 w"
  shows "find_symbol HPACK_HUFFMAN 0 acc (length w) = (if v = [] then Some s else None)"
proof (cases "find_symbol HPACK_HUFFMAN 0 acc (length w)")
  case None
  have "v \<noteq> []"
  proof
    assume "v = []"
    with assms have "unat (fst (entry s)) = unat acc" "snd (entry s) = length w"
      using bits_val_code_bits [OF assms(1)] length_code_bits [of s] by auto
    then have "entry s = (acc, length w)" by (metis prod.collapse word_unat_eq_iff)
    with find_entry_None [OF None assms(1)] show False by simp
  qed
  with None show ?thesis by simp
next
  case (Some t)
  with find_entry_Some have t: "t < 257" "entry t = (acc, length w)" by auto
  with assms have "t = s" by (intro code_prefix_unique [of s t w v]) auto
  with t assms have "v = []" using length_code_bits [of s] by simp
  with Some \<open>t = s\<close> show ?thesis by simp
qed

subsection \<open>The decoder on bit strings\<close>

definition byte_bits :: "u8 \<Rightarrow> bool list" where
  "byte_bits b = map (\<lambda>i. bit b (7 - i)) [0..<8]"

definition input_bits :: "bytes \<Rightarrow> bool list" where
  "input_bits input = concat (map byte_bits input)"

lemma byte_bits_unfold: "byte_bits b = [bit b 7, bit b 6, bit b 5, bit b 4, bit b 3, bit b 2, bit b 1, bit b 0]"
  by (simp add: byte_bits_def numeral_eq_Suc)

lemma length_byte_bits [simp]: "length (byte_bits b) = 8"
  by (simp add: byte_bits_def)

lemma length_input_bits [simp]: "length (input_bits input) = length input * 8"
  by (induction input) (simp_all add: input_bits_def)

lemma input_bits_nth:
  "i < length input * 8 \<Longrightarrow> input_bits input ! i = bit (input ! (i div 8)) (7 - i mod 8)"
proof (induction input arbitrary: i)
  case (Cons b input)
  show ?case
  proof (cases "i < 8")
    case True
    then show ?thesis by (simp add: input_bits_def nth_append byte_bits_def)
  next
    case False
    then have "(i - 8) div 8 = i div 8 - 1" "(i - 8) mod 8 = i mod 8" "0 < i div 8"
      by (auto simp: div_if mod_if)
    with False Cons show ?thesis by (simp add: input_bits_def nth_append nth_Cons')
  qed
qed simp

fun huff_run :: "bool list \<Rightarrow> u32 \<Rightarrow> nat \<Rightarrow> bytes \<Rightarrow> qpack_error + bytes" where
  "huff_run [] acc l out = Inr out"
| "huff_run (b # bs) acc l out =
     (let acc' = push_bit 1 acc OR of_bool b in
      case find_symbol HPACK_HUFFMAN 0 acc' (l + 1) of
        Some s \<Rightarrow> if s = 256 then Inl HuffmanEos else huff_run bs 0 0 (out @ [of_nat s])
      | None \<Rightarrow> if l + 1 = 30 then Inl InvalidHuffmanCode else huff_run bs acc' (l + 1) out)"

lemma bit_step:
  fixes x :: u8
  shows "ucast (drop_bit k x AND 1) = (of_bool (bit x k) :: u32)"
  by (simp add: and_one_eq bit_iff_odd_drop_bit mod_2_eq_odd)

lemma huffman_loop_run:
  "pos \<le> length input * 8 \<Longrightarrow>
     huffman_loop input pos acc l out =
       bindr (huff_run (drop pos (input_bits input)) acc l out) (\<lambda>o'. Inr (o', length input * 8))"
proof (induction input pos acc l out rule: huffman_loop.induct)
  case (1 input pos acc l out)
  show ?case
  proof (cases "pos < length input * 8")
    case True
    let ?b = "bit (input ! (pos div 8)) (7 - pos mod 8)"
    have d: "drop pos (input_bits input) = ?b # drop (Suc pos) (input_bits input)"
      using Cons_nth_drop_Suc [of pos "input_bits input"] True
      by (simp only: length_input_bits input_bits_nth [OF True, symmetric])
    let ?acc = "push_bit 1 acc OR ucast (drop_bit (7 - pos mod 8) (input ! (pos div 8)) AND 1)"
    have a: "push_bit 1 acc OR of_bool ?b = ?acc" by (simp only: bit_step)
    note IH = "1.IH" [OF True refl refl refl]
    have step: "pos + 1 \<le> length input * 8" using True by simp
    show ?thesis
    proof (cases "find_symbol HPACK_HUFFMAN 0 ?acc (l + 1)")
      case None
      show ?thesis unfolding d huff_run.simps Let_def a None huffman_loop.simps [of input pos]
        using True IH(1) [OF None _ step] None by simp
    next
      case (Some t)
      show ?thesis unfolding d huff_run.simps Let_def a Some huffman_loop.simps [of input pos]
        using True IH(2) [OF Some _ step] Some by simp
    qed
  next
    case False
    with "1.prems" show ?thesis by (subst huffman_loop.simps) simp
  qed
qed

lemma huffman_decode_run: "huffman_decode input = huff_run (input_bits input) 0 0 []"
  unfolding huffman_decode_def
  by (cases "huff_run (input_bits input) 0 0 []") (simp_all add: huffman_loop_run Let_def)

lemma acc_step:
  fixes acc :: u32
  assumes "unat acc = bits_val 0 w" and "length w < 30"
  shows "unat (push_bit 1 acc OR of_bool b) = bits_val 0 (w @ [b])"
proof -
  have "bits_val 0 w < 2 ^ length w" by (rule bits_val_bound)
  also have "(2::nat) ^ length w \<le> 2 ^ 29" using assms(2) by (intro power_increasing) auto
  finally have bound: "unat acc < 2 ^ 29" by (simp add: assms(1))
  have "push_bit 1 acc OR of_bool b = 2 * acc + of_bool b"
    by (rule bit_word_eqI) (cases b; simp add: push_bit_eq_mult mult.commute add.commute even_bit_succ_iff [symmetric] bit_simps)
  then have "unat (push_bit 1 acc OR of_bool b) = unat (2 * acc + of_bool b)" by simp
  also have "\<dots> = 2 * unat acc + of_bool b"
    using bound by (cases b) (simp_all add: unat_word_ariths)
  finally show ?thesis by (simp add: assms(1) bits_val_append)
qed

text \<open>Reading the rest \<open>v\<close> of the code of a symbol after its first part \<open>w\<close>.\<close>

lemma huff_run_code:
  assumes "s < 257" "code_bits s = w @ v" "v \<noteq> []" "unat acc = bits_val 0 w"
  shows "huff_run (v @ rest) acc (length w) out =
     (if s = 256 then Inl HuffmanEos else huff_run rest 0 0 (out @ [of_nat s]))"
  using assms
proof (induction v arbitrary: w acc)
  case (Cons b v)
  have len: "length (w @ b # v) \<le> 30"
    using entry_length [OF Cons.prems(1)] length_code_bits [of s] by (simp only: Cons.prems(2) [symmetric])
  let ?acc = "push_bit 1 acc OR of_bool b :: u32"
  have a: "unat ?acc = bits_val 0 (w @ [b])"
    using Cons.prems(4) len by (intro acc_step) auto
  have f: "find_symbol HPACK_HUFFMAN 0 ?acc (length w + 1) = (if v = [] then Some s else None)"
    using find_in_code [of s "w @ [b]" v ?acc] Cons.prems a by simp
  show ?case
  proof (cases "v = []")
    case True
    with f show ?thesis by simp
  next
    case False
    with len have "length w + 1 \<noteq> 30" by (cases v) auto
    with f False Cons.IH [of "w @ [b]" ?acc] Cons.prems a show ?thesis by simp
  qed
qed simp

text \<open>Stopping inside a code is not an error.\<close>

lemma huff_run_partial:
  assumes "s < 257" "code_bits s = w @ v @ u" "u \<noteq> []" "unat acc = bits_val 0 w"
  shows "huff_run v acc (length w) out = Inr out"
  using assms
proof (induction v arbitrary: w acc)
  case (Cons b v)
  have len: "length (w @ b # v @ u) \<le> 30"
    using entry_length [OF Cons.prems(1)] length_code_bits [of s] Cons.prems(2) by simp
  let ?acc = "push_bit 1 acc OR of_bool b :: u32"
  have a: "unat ?acc = bits_val 0 (w @ [b])"
    using Cons.prems(4) len by (intro acc_step) auto
  have "find_symbol HPACK_HUFFMAN 0 ?acc (length w + 1) = None"
    using find_in_code [of s "w @ [b]" "v @ u" ?acc] Cons.prems a by simp
  moreover have "length w + 1 \<noteq> 30" using len Cons.prems(3) by (cases u) auto
  ultimately show ?case using Cons.IH [of "w @ [b]" ?acc] Cons.prems a by simp
qed simp

definition encode_bits :: "bytes \<Rightarrow> bool list" where
  "encode_bits xs = concat (map (\<lambda>x. code_bits (unat x)) xs)"

lemma huff_run_encode: "huff_run (encode_bits xs @ rest) 0 0 out = huff_run rest 0 0 (out @ xs)"
proof (induction xs arbitrary: out)
  case (Cons x xs)
  have x: "unat x < 257" "unat x \<noteq> 256" using unat_u8_lt [of x] by linarith+
  have "code_bits (unat x) \<noteq> []" using entry_length [OF x(1)] by (metis length_code_bits length_greater_0_conv)
  from huff_run_code [OF x(1) _ this, of "[]" 0] x(2) Cons show ?case
    by (simp add: encode_bits_def)
qed (simp add: encode_bits_def)

lemma huffman_decode_encode:
  assumes "input_bits input = encode_bits xs @ pad" and "t < 257" and "code_bits t = pad @ u" and "u \<noteq> []"
  shows "huffman_decode input = Inr xs"
  using huff_run_partial [of t "[]" pad u 0 xs] assms
  by (simp add: huffman_decode_run huff_run_encode)

lemma nat_bits_ones: "nat_bits k (2 ^ k - 1) = replicate k True"
proof (induction k)
  case (Suc k)
  have "(2 ^ Suc k - 1) div 2 = (2 ^ k - 1 :: nat)" by (induction k) auto
  moreover have "odd (2 ^ Suc k - 1 :: nat)" by simp
  ultimately show ?case using Suc by (simp add: replicate_append_same [symmetric])
qed simp

lemma eos_bits: "code_bits 256 = replicate 30 True"
proof -
  have "entry 256 = (0x3fffffff, 30)" by (simp add: entry_def HPACK_HUFFMAN_def)
  then show ?thesis using nat_bits_ones [of 30] by (simp add: code_bits_def del: nat_bits.simps nat_bits_numeral)
qed

text \<open>The code is complete: while no code has matched, fewer than 30 bits have been read.\<close>

lemma complete_code:
  assumes "length w = 30"
  shows "\<exists>s<257. \<exists>v. w = code_bits s @ v"
proof -
  from assms bits_val_bound [of w] have "bits_val 0 w < 2 ^ 30" by simp
  then obtain s where s: "s < 257" "code_lo (entry s) \<le> bits_val 0 w" "bits_val 0 w < code_hi (entry s)"
    using some_entry_covers by blast
  let ?l = "snd (entry s)"
  let ?p = "take ?l w" and ?v = "drop ?l w"
  have l: "?l \<le> 30" using entry_length [OF s(1)] by simp
  have v: "bits_val 0 w = bits_val 0 ?p * 2 ^ (30 - ?l) + bits_val 0 ?v" "bits_val 0 ?v < 2 ^ (30 - ?l)"
    using bits_val_append [of 0 ?p ?v] bits_val_split [of "bits_val 0 ?p" ?v] bits_val_bound [of ?v] assms l by simp_all
  have "bits_val 0 ?p = unat (fst (entry s))"
  proof (rule ccontr)
    assume "bits_val 0 ?p \<noteq> unat (fst (entry s))"
    then consider "bits_val 0 ?p + 1 \<le> unat (fst (entry s))" | "unat (fst (entry s)) + 1 \<le> bits_val 0 ?p" by linarith
    then show False
    proof cases
      case 1
      then have "(bits_val 0 ?p + 1) * 2 ^ (30 - ?l) \<le> code_lo (entry s)"
        unfolding code_lo_def by (rule mult_right_mono) simp
      with v s(2) show False by simp
    next
      case 2
      then have "(unat (fst (entry s)) + 1) * 2 ^ (30 - ?l) \<le> bits_val 0 ?p * 2 ^ (30 - ?l)"
        by (rule mult_right_mono) simp
      with v s(3) show False by (simp add: code_hi_def code_lo_def)
    qed
  qed
  moreover have inj: "length xs = length ys \<Longrightarrow> bits_val 0 xs = bits_val 0 ys \<Longrightarrow> xs = ys" for xs ys
  proof (induction xs arbitrary: ys rule: rev_induct)
    case (snoc x xs)
    then obtain ys' y where ys: "ys = ys' @ [y]" by (cases ys rule: rev_cases) auto
    with snoc.prems have "2 * bits_val 0 xs + of_bool x = 2 * bits_val 0 ys' + of_bool y"
      by (simp add: bits_val_append)
    then have "x = y \<and> bits_val 0 xs = bits_val 0 ys'" by (cases x; cases y; simp; presburger)
    with snoc ys show ?case by simp
  qed simp
  ultimately have "code_bits s = ?p"
    using l assms by (intro inj) (simp_all add: bits_val_code_bits [OF s(1)])
  with s(1) show ?thesis by (metis append_take_drop_id)
qed

definition unmatched :: "bool list \<Rightarrow> bool" where
  "unmatched w \<longleftrightarrow> (\<forall>s v. s < 257 \<longrightarrow> w \<noteq> code_bits s @ v)"

lemma unmatched_Nil: "unmatched []"
  unfolding unmatched_def by (metis append_is_Nil_conv entry_length length_code_bits length_greater_0_conv)

lemma unmatched_short: "unmatched w \<Longrightarrow> length w \<noteq> 30"
  using complete_code unmatched_def by blast

lemma unmatched_snoc:
  assumes "unmatched w" "find_symbol HPACK_HUFFMAN 0 acc (length w + 1) = None"
    and "unat acc = bits_val 0 (w @ [b])"
  shows "unmatched (w @ [b])"
  unfolding unmatched_def
proof (intro allI impI notI)
  fix s v
  assume s: "s < 257" and eq: "w @ [b] = code_bits s @ v"
  show False
  proof (cases v rule: rev_cases)
    case Nil
    with eq have c: "code_bits s = (w @ [b]) @ []" by simp
    from find_in_code [OF s c assms(3)] assms(2) show False by simp
  next
    case (snoc v' y)
    with eq have "w = code_bits s @ v'" by simp
    with assms(1) s show False by (auto simp: unmatched_def)
  qed
qed

lemma huff_run_error:
  assumes "unat acc = bits_val 0 w" "length w < 30" "unmatched w"
    and "huff_run bs acc (length w) out = Inl e"
  shows "e = HuffmanEos"
  using assms
proof (induction bs arbitrary: w acc out)
  case (Cons b bs)
  let ?acc = "push_bit 1 acc OR of_bool b :: u32"
  have a: "unat ?acc = bits_val 0 (w @ [b])" using Cons.prems by (intro acc_step) auto
  show ?case
  proof (cases "find_symbol HPACK_HUFFMAN 0 ?acc (length w + 1)")
    case (Some t)
    show ?thesis
    proof (cases "t = 256")
      case False
      with Some Cons.prems(4) have "huff_run bs 0 (length ([] :: bool list)) (out @ [of_nat t]) = Inl e" by simp
      with unmatched_Nil show ?thesis by (rule Cons.IH [rotated 2]) simp_all
    qed (use Some Cons.prems(4) in simp)
  next
    case None
    have u: "unmatched (w @ [b])" by (rule unmatched_snoc [OF Cons.prems(3) None a])
    with unmatched_short have "length w + 1 \<noteq> 30" by fastforce
    with None Cons.prems have "huff_run bs ?acc (length (w @ [b])) out = Inl e" "length (w @ [b]) < 30" by simp_all
    with a u show ?thesis by (intro Cons.IH [of ?acc "w @ [b]"])
  qed
qed simp

subsection \<open>Properties\<close>

text \<open>Huffman decoding inverts the HPACK code: when the bits of the input are the
  codes of \<open>xs\<close> followed by fewer than 30 one bits (a proper prefix of EOS), the decoder
  returns exactly \<open>xs\<close>.\<close>

theorem huffman_roundtrip:
  assumes "input_bits input = encode_bits xs @ replicate k True" and "k < 30"
  shows "huffman_decode input = Inr xs"
proof (rule huffman_decode_encode [OF assms(1), of 256 "replicate (30 - k) True"])
  show "code_bits 256 = replicate k True @ replicate (30 - k) True"
    using assms(2) by (simp add: eos_bits replicate_add [symmetric])
qed (use assms(2) in simp_all)

lemma sample_codes:
  "code_bits 0x77 = [True, True, True, True, False, False, False]"
  "code_bits 0x2E = [False, True, False, True, True, True]"
  by (simp_all add: code_bits_def entry_def HPACK_HUFFMAN_def)

lemma ones_3: "replicate 3 True = [True, True, True]"
  and ones_30: "replicate 30 True @ [True, True] = replicate 32 True"
  and ones_32: "replicate 32 True = concat (replicate 4 (replicate 8 True))"
  by (simp_all add: numeral_eq_Suc)

theorem huffman_roundtrip_witness:
  "input_bits [0xF0, 0xBF] = encode_bits [0x77, 0x2E] @ replicate 3 True \<and>
   huffman_decode [0xF0, 0xBF] = Inr [0x77, 0x2E]"
proof -
  have "input_bits [0xF0, 0xBF] = encode_bits [0x77, 0x2E] @ replicate 3 True"
    by (simp add: input_bits_def byte_bits_unfold encode_bits_def sample_codes ones_3)
  with huffman_roundtrip [of "[0xF0, 0xBF]" "[0x77, 0x2E]" 3] show ?thesis by simp
qed

text \<open>The only error Huffman decoding can report is an EOS symbol inside the string:
  the code is complete, so no 30 bits are an invalid code, and the padding check after the
  loop never rejects anything, because the loop has consumed every bit of the last byte.\<close>

theorem huffman_only_eos_error:
  assumes "huffman_decode input = Inl e"
  shows "e = HuffmanEos"
  using huff_run_error [of 0 "[]"] assms unmatched_Nil by (simp add: huffman_decode_run)

theorem huffman_only_eos_error_witness:
  "huffman_decode [0xFF, 0xFF, 0xFF, 0xFF] = Inl HuffmanEos"
proof -
  have "input_bits [0xFF, 0xFF, 0xFF, 0xFF] = replicate 30 True @ [True, True]"
    unfolding ones_30 ones_32 by (simp add: input_bits_def byte_bits_def numeral_eq_Suc)
  then have "huffman_decode [0xFF, 0xFF, 0xFF, 0xFF] = Inl HuffmanEos"
    using huff_run_code [of 256 "[]" "replicate 30 True" 0 "[True, True]" "[]"]
    by (simp add: huffman_decode_run eos_bits)
  with huffman_only_eos_error [OF this] show ?thesis by simp
qed

end
