(* ===== verification/Quic_Varint.thy ===== *)
theory Quic_Varint
  imports Wire_Prelude
begin

text \<open>
  QUIC variable-length integers (RFC 9000) as \<open>src/src/proxy/outbound/hysteria2/mod.rs\<close>
  writes and reads them.
\<close>

datatype varint_error = VarintTruncated

definition varint_len :: "u64 \<Rightarrow> nat" where
  "varint_len v = (if v \<le> 63 then 1 else if v \<le> 16383 then 2 else if v \<le> 1073741823 then 4 else 8)"

definition append_varint :: "bytes \<Rightarrow> u64 \<Rightarrow> bytes" where
  "append_varint out v =
     (if v \<le> 63 then out @ [ucast v]
      else if v \<le> 16383 then out @ [0x40 OR ucast (drop_bit 8 v), ucast v]
      else if v \<le> 1073741823 then
        out @ [0x80 OR ucast (drop_bit 24 v), ucast (drop_bit 16 v), ucast (drop_bit 8 v), ucast v]
      else
        out @ [0xc0 OR ucast (drop_bit 56 v), ucast (drop_bit 48 v), ucast (drop_bit 40 v),
               ucast (drop_bit 32 v), ucast (drop_bit 24 v), ucast (drop_bit 16 v),
               ucast (drop_bit 8 v), ucast v])"

definition varint_width :: "u8 \<Rightarrow> nat" where
  "varint_width b0 = 2 ^ unat (drop_bit 6 b0)"

definition varint_fold :: "u8 \<Rightarrow> bytes \<Rightarrow> u64" where
  "varint_fold b0 tail = foldl (\<lambda>v b. push_bit 8 v OR ucast b) (ucast (b0 AND 0x3f)) tail"

definition read_varint :: "bytes \<Rightarrow> varint_error + u64 \<times> nat" where
  "read_varint buf =
     (case buf of [] \<Rightarrow> Inl VarintTruncated | b0 # _ \<Rightarrow>
      let len = varint_width b0 in
      if length buf < len then Inl VarintTruncated
      else Inr (varint_fold b0 (take (len - 1) (drop 1 buf)), len))"

subsection \<open>Round trip\<close>

lemma bit_0x3f: "bit (0x3f :: int) n \<longleftrightarrow> n < 6"
proof -
  have "(0x3f :: int) = mask 6" by (simp add: mask_eq_exp_minus_1)
  then show ?thesis by (simp only: bit_mask_iff) auto
qed

text \<open>The two tag bits of the first byte, and the six value bits below them.\<close>

lemma first_byte_value:
  fixes x :: u8
  assumes "tag \<in> {0, 0x40, 0x80, 0xc0}"
  shows "(tag OR x) AND 0x3f = take_bit 6 x"
proof -
  from assms have z: "tag AND 0x3f = 0" by auto
  have "(tag OR x) AND 0x3f = (tag AND 0x3f) OR (x AND 0x3f)" by (rule bit.conj_disj_distrib2)
  moreover have "x AND 0x3f = take_bit 6 x" by (simp add: take_bit_eq_mask mask_eq_exp_minus_1)
  ultimately show ?thesis by (simp add: z)
qed

lemma first_byte_width:
  fixes x :: u8
  assumes "take_bit 6 x = x"
  shows "varint_width (0 OR x) = 1" "varint_width (0x40 OR x) = 2"
    "varint_width (0x80 OR x) = 4" "varint_width (0xc0 OR x) = 8"
proof -
  have z: "drop_bit 6 x = 0" using assms by (metis drop_bit_take_bit diff_self_eq_0 take_bit_0)
  have d: "drop_bit 6 (t OR x) = drop_bit 6 t" for t :: u8
    by (simp add: drop_bit_or z)
  show "varint_width (0 OR x) = 1" "varint_width (0x40 OR x) = 2"
    "varint_width (0x80 OR x) = 4" "varint_width (0xc0 OR x) = 8"
    unfolding varint_width_def d by simp_all
qed

lemma varint_bytes_ok:
  fixes v :: u64
  assumes "take_bit (8 * n + 6) v = v" and "tag \<in> {0, 0x40, 0x80, 0xc0}" and "8 * n + 6 < 64"
  shows "varint_fold (tag OR ucast (drop_bit (8 * n) v)) (to_be n v) = v"
    and "take_bit 6 (ucast (drop_bit (8 * n) v) :: u8) = ucast (drop_bit (8 * n) v)"
proof -
  have hi: "bit v i \<Longrightarrow> i < 8 * n + 6" for i
    using assms(1) by (metis bit_take_bit_iff)
  show "take_bit 6 (ucast (drop_bit (8 * n) v) :: u8) = ucast (drop_bit (8 * n) v)"
    by (rule bit_word_eqI) (auto simp: bit_simps dest: hi)
  have "push_bit (8 * n) (ucast (take_bit 6 (ucast (drop_bit (8 * n) v) :: u8))) OR take_bit (8 * n) v = v"
  proof (rule bit_word_eqI)
    fix i
    show "bit (push_bit (8 * n) (ucast (take_bit 6 (ucast (drop_bit (8 * n) v) :: u8))) OR take_bit (8 * n) v) i = bit v i"
      if "i < LENGTH(64)"
      using that hi [of i] by (cases "i < 8 * n") (auto simp: bit_simps)
  qed
  then show "varint_fold (tag OR ucast (drop_bit (8 * n) v)) (to_be n v) = v"
    unfolding varint_fold_def foldl_to_be first_byte_value [OF assms(2)] .
qed

lemma to_be_numerals:
  "to_be 0 v = []" "to_be 1 v = [ucast v]"
  "to_be 3 v = [ucast (drop_bit 16 v), ucast (drop_bit 8 v), ucast v]"
  "to_be 7 v = [ucast (drop_bit 48 v), ucast (drop_bit 40 v), ucast (drop_bit 32 v), ucast (drop_bit 24 v),
     ucast (drop_bit 16 v), ucast (drop_bit 8 v), ucast v]"
  by (simp_all add: to_be_def numeral_eq_Suc)

lemma append_varint_to_be:
  "append_varint out v = out @
     (if v \<le> 63 then (0 OR ucast (drop_bit (8 * 0) v)) # to_be 0 v
      else if v \<le> 16383 then (0x40 OR ucast (drop_bit (8 * 1) v)) # to_be 1 v
      else if v \<le> 1073741823 then (0x80 OR ucast (drop_bit (8 * 3) v)) # to_be 3 v
      else (0xc0 OR ucast (drop_bit (8 * 7) v)) # to_be 7 v)"
  by (simp add: append_varint_def to_be_numerals del: to_be_0 One_nat_def)

lemma length_append_varint: "length (append_varint [] v) = varint_len v"
  by (simp add: append_varint_def varint_len_def)

lemma take_bit_bound: "unat v < 2 ^ k \<Longrightarrow> take_bit k (v :: u64) = v"
  by (simp add: word_unat_eq_iff unsigned_take_bit_eq take_bit_nat_eq_self)

text \<open>What both readers see of an encoded integer: its first byte and its tail.\<close>

lemma varint_form:
  fixes v :: u64
  assumes "(tag, n) \<in> {(0, 0), (0x40, 1), (0x80, 3), (0xc0, 7)}" and "unat v < 2 ^ (8 * n + 6)"
  shows "varint_width (tag OR ucast (drop_bit (8 * n) v)) = Suc n"
    and "varint_fold (tag OR ucast (drop_bit (8 * n) v)) (to_be n v) = v"
proof -
  have t: "take_bit (8 * n + 6) v = v" by (rule take_bit_bound) fact
  have tag: "tag \<in> {0, 0x40, 0x80, 0xc0}" and n: "8 * n + 6 < 64" using assms(1) by auto
  show "varint_fold (tag OR ucast (drop_bit (8 * n) v)) (to_be n v) = v"
    by (rule varint_bytes_ok [OF t tag n])
  from first_byte_width [OF varint_bytes_ok(2) [OF t tag n]] assms(1)
  show "varint_width (tag OR ucast (drop_bit (8 * n) v)) = Suc n" by auto
qed

lemma append_varint_split:
  assumes "unat v < 2 ^ 62"
  obtains b0 tl where "append_varint [] v = b0 # tl" and "varint_width b0 = Suc (length tl)"
    and "varint_fold b0 tl = v"
proof -
  have "\<exists>tag n. (tag, n) \<in> {(0, 0), (0x40, 1), (0x80, 3), (0xc0, 7)} \<and> unat v < 2 ^ (8 * n + 6) \<and>
      append_varint [] v = (tag OR ucast (drop_bit (8 * n) v)) # to_be n v"
  proof -
    consider "v \<le> 63" | "\<not> v \<le> 63" "v \<le> 16383" | "\<not> v \<le> 63" "\<not> v \<le> 16383" "v \<le> 1073741823"
      | "\<not> v \<le> 63" "\<not> v \<le> 16383" "\<not> v \<le> 1073741823" by blast
    then show ?thesis
    proof cases
      case 1
      then show ?thesis
        by (intro exI [of _ 0]) (simp add: append_varint_to_be word_le_nat_alt)
    next
      case 2
      then show ?thesis
        by (intro exI [of _ "0x40"] exI [of _ 1]) (simp add: append_varint_to_be word_le_nat_alt)
    next
      case 3
      then show ?thesis
        by (intro exI [of _ "0x80"] exI [of _ 3]) (simp add: append_varint_to_be word_le_nat_alt)
    next
      case 4
      then show ?thesis using assms
        by (intro exI [of _ "0xc0"] exI [of _ 7]) (simp add: append_varint_to_be)
    qed
  qed
  then show thesis using that varint_form by (metis length_to_be)
qed

lemma read_varint_append:
  assumes "unat v < 2 ^ 62"
  shows "read_varint (append_varint [] v @ rest) = Inr (v, length (append_varint [] v))"
proof -
  obtain b0 tl where "append_varint [] v = b0 # tl" "varint_width b0 = Suc (length tl)" "varint_fold b0 tl = v"
    using append_varint_split [OF assms] .
  then show ?thesis by (simp add: read_varint_def)
qed

lemma append_varint_append: "append_varint out v = out @ append_varint [] v"
  by (simp add: append_varint_def)

lemma read_varint_consumed: "read_varint buf = Inr (v, n) \<Longrightarrow> 0 < n \<and> n \<le> length buf"
  by (auto simp: read_varint_def varint_width_def Let_def split: list.splits if_splits)

end
