(* ===== verification/Http3.thy ===== *)
theory Http3
  imports Qpack Quic_Varint
begin

text \<open>
  The HTTP/3 client of the Hysteria2 handshake, \<open>src/src/proxy/outbound/hysteria2/http3.rs\<close>:
  the auth request it sends and the loop that reads the response under a byte budget.
  The QUIC connection (the \<open>quinn\<close> crate) is the parameter \<open>io\<close>: whether each of its
  operations succeeds, fails or times out. The response is the bytes of the stream until
  its end; the random padding is an argument.
\<close>

datatype h3_error =
    ControlStreamFailed
  | SettingsWriteFailed
  | OpenTimedOut
  | OpenFailed
  | WriteTimedOut
  | WriteFailed
  | ResponseTooLarge
  | VarintReadFailed
  | FrameTooLarge
  | ResponseTimedOut
  | ResponseReadFailed
  | HeadersInvalid qpack_error
  | InvalidStatus
  | NoStatus

abbreviation (input) STATUS_AUTH_OK :: u16 where "STATUS_AUTH_OK \<equiv> 233"
abbreviation (input) FRAME_SETTINGS :: u64 where "FRAME_SETTINGS \<equiv> 4"
abbreviation (input) FRAME_HEADERS :: u64 where "FRAME_HEADERS \<equiv> 1"
abbreviation (input) MAX_AUTH_RESPONSE_BYTES :: nat where "MAX_AUTH_RESPONSE_BYTES \<equiv> 65536"

record auth_result =
  status :: u16
  udp_enabled :: bool

text \<open>The bytes of \<open>H3Control::open\<close>: stream type, then an empty SETTINGS frame.\<close>

definition control_bytes :: bytes where
  "control_bytes = [0x00, ucast FRAME_SETTINGS, 0x00]"

text \<open>The module's own copy of the varint encoder.\<close>

definition h3_append_varint :: "bytes \<Rightarrow> u64 \<Rightarrow> bytes" where
  "h3_append_varint out v =
     (if v \<le> 63 then out @ [ucast v]
      else if v \<le> 16383 then out @ [0x40 OR ucast (drop_bit 8 v), ucast v]
      else if v \<le> 1073741823 then
        out @ [0x80 OR ucast (drop_bit 24 v), ucast (drop_bit 16 v), ucast (drop_bit 8 v), ucast v]
      else
        out @ [0xc0 OR ucast (drop_bit 56 v), ucast (drop_bit 48 v), ucast (drop_bit 40 v),
               ucast (drop_bit 32 v), ucast (drop_bit 24 v), ucast (drop_bit 16 v),
               ucast (drop_bit 8 v), ucast v])"

text \<open>The streaming varint reader: value, rest of the stream, remaining budget.\<close>

definition h3_read_varint :: "bytes \<Rightarrow> nat \<Rightarrow> h3_error + u64 \<times> bytes \<times> nat" where
  "h3_read_varint s budget =
     (case read_u8 s of None \<Rightarrow> Inl VarintReadFailed | Some (b0, s1) \<Rightarrow>
      let tail = varint_width b0 - 1 in
      case read_exact tail s1 of None \<Rightarrow> Inl VarintReadFailed
      | Some (bs, s2) \<Rightarrow> Inr (varint_fold b0 bs, s2, budget - 1 - tail))"

definition auth_fields :: "bytes \<Rightarrow> bytes \<Rightarrow> (bytes \<times> bytes) list" where
  "auth_fields password padding =
     [(str '':method'', str ''POST''), (str '':scheme'', str ''https''), (str '':path'', str ''/auth''),
      (str '':authority'', str ''hysteria''), (str ''hysteria-auth'', password),
      (str ''hysteria-cc-rx'', str ''0''), (str ''hysteria-padding'', padding)]"

definition build_auth_request :: "bytes \<Rightarrow> bytes \<Rightarrow> bytes" where
  "build_auth_request password padding =
     (let payload = encode_field_section (auth_fields password padding)
      in h3_append_varint (h3_append_varint [] FRAME_HEADERS) (of_nat (length payload)) @ payload)"

text \<open>The loop over the decoded response headers.\<close>

fun auth_headers :: "(bytes \<times> bytes) list \<Rightarrow> u16 option \<Rightarrow> bool \<Rightarrow> h3_error + u16 option \<times> bool" where
  "auth_headers [] st udp = Inr (st, udp)"
| "auth_headers ((name, v) # fs) st udp =
     (if name = str '':status'' then
        (case parse_uint 65535 v of
           None \<Rightarrow> Inl InvalidStatus
         | Some n \<Rightarrow> auth_headers fs (Some (of_nat n)) udp)
      else if eq_ignore_ascii_case name (str ''hysteria-udp'') then
        auth_headers fs st (v = str ''true'')
      else auth_headers fs st udp)"

text \<open>The response loop. \<open>late i\<close>: reading the payload of the \<open>i\<close>-th frame times out.\<close>

lemma h3_read_varint_consumes: "h3_read_varint s b = Inr (v, s', b') \<Longrightarrow> length s' < length s"
  by (auto simp: h3_read_varint_def Let_def dest!: read_lengths split: option.splits)

function auth_loop ::
  "(nat \<Rightarrow> bool) \<Rightarrow> nat \<Rightarrow> bytes \<Rightarrow> nat \<Rightarrow> u16 option \<Rightarrow> bool \<Rightarrow> h3_error + auth_result" where
  "auth_loop late i s budget st udp =
     (if budget = 0 then Inl ResponseTooLarge
      else bindr (h3_read_varint s budget) (\<lambda>(frame_type, s1, budget1).
      bindr (h3_read_varint s1 budget1) (\<lambda>(frame_len, s2, budget2).
      if unat frame_len > budget2 then Inl FrameTooLarge
      else if late i then Inl ResponseTimedOut
      else case read_exact (unat frame_len) s2 of None \<Rightarrow> Inl ResponseReadFailed
      | Some (payload, s3) \<Rightarrow>
        let budget3 = budget2 - unat frame_len in
        if frame_type = FRAME_HEADERS then
          (case decode_field_section payload of
             Inl e \<Rightarrow> Inl (HeadersInvalid e)
           | Inr hs \<Rightarrow>
               bindr (auth_headers hs st udp) (\<lambda>(st', udp').
               case st' of Some code \<Rightarrow> Inr \<lparr>status = code, udp_enabled = udp'\<rparr>
               | None \<Rightarrow> Inl NoStatus))
        else (case st of None \<Rightarrow> Inl NoStatus
              | Some _ \<Rightarrow> auth_loop late (i + 1) s3 budget3 st udp))))"
  by pat_completeness auto
termination
  by (relation "measure (\<lambda>(late, i, s, _). length s)")
    (auto dest!: h3_read_varint_consumes read_lengths)

declare auth_loop.simps [simp del]

datatype io_outcome = IoOk | IoFailed | IoTimedOut

record h3_io =
  open_control :: bool
  write_settings :: bool
  open_bi :: io_outcome
  write_request :: io_outcome
  payload_late :: "nat \<Rightarrow> bool"

text \<open>\<open>authenticate\<close>: the bytes written (control stream, auth stream) and the result.\<close>

definition authenticate ::
  "h3_io \<Rightarrow> bytes \<Rightarrow> bytes \<Rightarrow> bytes \<Rightarrow> (bytes \<times> bytes) \<times> (h3_error + auth_result)" where
  "authenticate io password padding response =
     (if \<not> open_control io then (([], []), Inl ControlStreamFailed)
      else if \<not> write_settings io then (([], []), Inl SettingsWriteFailed)
      else case open_bi io of
        IoTimedOut \<Rightarrow> ((control_bytes, []), Inl OpenTimedOut)
      | IoFailed \<Rightarrow> ((control_bytes, []), Inl OpenFailed)
      | IoOk \<Rightarrow>
          (case write_request io of
             IoTimedOut \<Rightarrow> ((control_bytes, []), Inl WriteTimedOut)
           | IoFailed \<Rightarrow> ((control_bytes, []), Inl WriteFailed)
           | IoOk \<Rightarrow>
               ((control_bytes, build_auth_request password padding),
                auth_loop (payload_late io) 0 response MAX_AUTH_RESPONSE_BYTES None False)))"

subsection \<open>Lemmas\<close>

lemma h3_append_varint_eq: "h3_append_varint out v = append_varint out v"
  by (simp add: h3_append_varint_def append_varint_def)

lemma h3_read_varint_append:
  assumes "unat v < 2 ^ 62"
  shows "h3_read_varint (append_varint [] v @ rest) budget = Inr (v, rest, budget - varint_len v)"
proof -
  obtain b0 tl where s: "append_varint [] v = b0 # tl" "varint_width b0 = Suc (length tl)" "varint_fold b0 tl = v"
    using append_varint_split [OF assms] .
  from s(1) length_append_varint [of v] have "varint_len v = Suc (length tl)" by simp
  with s show ?thesis by (simp add: h3_read_varint_def read_exact_append Let_def)
qed

lemma utf8_literals:
  "utf8_valid (str '':method'')" "utf8_valid (str ''POST'')" "utf8_valid (str '':scheme'')"
  "utf8_valid (str ''https'')" "utf8_valid (str '':path'')" "utf8_valid (str ''/auth'')"
  "utf8_valid (str '':authority'')" "utf8_valid (str ''hysteria'')" "utf8_valid (str ''hysteria-auth'')"
  "utf8_valid (str ''hysteria-cc-rx'')" "utf8_valid (str ''0'')" "utf8_valid (str ''hysteria-padding'')"
  by (intro utf8_valid_ascii; simp add: word_less_nat_alt)+

lemma auth_fields_ok:
  assumes "utf8_valid password" "utf8_valid padding" "length password < 2 ^ 64" "length padding < 2 ^ 64"
  shows "list_all field_ok (auth_fields password padding)"
  using assms utf8_literals by (simp add: auth_fields_def field_ok_def)

text \<open>A response is one frame; the loop never goes round.\<close>

definition response_frame :: "u64 \<Rightarrow> bytes \<Rightarrow> bytes" where
  "response_frame ty payload = append_varint [] ty @ append_varint [] (of_nat (length payload)) @ payload"

lemma varint_len_le: "varint_len v \<le> 8"
  by (simp add: varint_len_def)

lemma auth_loop_frame:
  assumes "unat ty < 2 ^ 62" and "length payload \<le> 65520" and "\<not> late i" and "65536 \<le> budget"
  shows "auth_loop late i (response_frame ty payload @ rest) budget None False =
     (if ty = FRAME_HEADERS then
        (case decode_field_section payload of
           Inl e \<Rightarrow> Inl (HeadersInvalid e)
         | Inr hs \<Rightarrow>
             bindr (auth_headers hs None False) (\<lambda>(st', udp').
             case st' of Some code \<Rightarrow> Inr \<lparr>status = code, udp_enabled = udp'\<rparr> | None \<Rightarrow> Inl NoStatus))
      else Inl NoStatus)"
proof -
  let ?n = "of_nat (length payload) :: u64"
  have n: "unat ?n = length payload" using assms(2) by (intro unat_of_nat_u64) simp
  have n62: "unat ?n < 2 ^ 62" using assms(2) by (simp add: n)
  have b: "length payload \<le> budget - varint_len ty - varint_len ?n"
    using assms(2,4) varint_len_le [of ty] varint_len_le [of ?n] by linarith
  show ?thesis
    using assms b n
    by (subst auth_loop.simps)
      (simp add: response_frame_def h3_read_varint_append [OF assms(1)] h3_read_varint_append [OF n62]
        read_exact_append del: of_nat_unat split: sum.split)
qed

subsection \<open>Properties\<close>

text \<open>Every integer below \<open>2 ^ 62\<close> round trips through the QUIC varint coding, for the
  slice reader of the wire codecs and for the budgeted stream reader of the handshake, which
  charges the encoded length to its budget.\<close>

theorem varint_roundtrip:
  assumes "unat v < 2 ^ 62"
  shows "read_varint (append_varint [] v @ rest) = Inr (v, varint_len v) \<and>
    h3_read_varint (h3_append_varint [] v @ rest) budget = Inr (v, rest, budget - varint_len v)"
  using assms
  by (simp add: read_varint_append h3_append_varint_eq h3_read_varint_append length_append_varint)

theorem varint_roundtrip_witness:
  "read_varint (append_varint [] 0x401 @ [5]) = Inr (0x401, 2)"
  using varint_roundtrip [of "0x401" "[5]"] by (simp add: varint_len_def)

text \<open>The auth request is a single HEADERS frame: a reader of the stream sees the HEADERS
  frame type, a length that covers exactly the rest of the request, and a field section that
  decodes to the auth POST carrying the password and the padding.\<close>

theorem auth_request_decodes:
  assumes "utf8_valid password" and "utf8_valid padding"
    and "length (encode_field_section (auth_fields password padding)) < 2 ^ 62"
    and "length password < 2 ^ 64" and "length padding < 2 ^ 64"
  shows "\<exists>payload s1.
    h3_read_varint (build_auth_request password padding) budget = Inr (FRAME_HEADERS, s1, budget - 1) \<and>
    (\<exists>b. h3_read_varint s1 (budget - 1) = Inr (of_nat (length payload), payload, b)) \<and>
    decode_field_section payload = Inr (auth_fields password padding)"
proof -
  let ?p = "encode_field_section (auth_fields password padding)"
  let ?n = "of_nat (length ?p) :: u64"
  have n: "unat ?n < 2 ^ 62"
    using assms(3) unat_of_nat_u64 [of "length ?p"] by simp
  have r: "build_auth_request password padding = append_varint [] FRAME_HEADERS @ append_varint [] ?n @ ?p"
    by (simp add: build_auth_request_def Let_def h3_append_varint_eq append_varint_append [of "append_varint [] 1"])
  have h: "h3_read_varint (build_auth_request password padding) budget =
      Inr (FRAME_HEADERS, append_varint [] ?n @ ?p, budget - 1)"
    unfolding r by (subst h3_read_varint_append) (simp_all add: varint_len_def)
  have "decode_field_section ?p = Inr (auth_fields password padding)"
    using assms by (intro decode_section_encode auth_fields_ok)
  with h h3_read_varint_append [OF n, of ?p "budget - 1"] show ?thesis by blast
qed

lemma short_auth_request:
  "length (encode_field_section (auth_fields (str ''pw'') (str ''pad''))) < 2 ^ 62"
  by (simp add: encode_field_section_def auth_fields_def encode_field_def append_int_def int_max_def Let_def
      append_int_rest.simps)

theorem auth_request_decodes_witness:
  "\<exists>payload s1.
    h3_read_varint (build_auth_request (str ''pw'') (str ''pad'')) 64 = Inr (FRAME_HEADERS, s1, 64 - 1) \<and>
    (\<exists>b. h3_read_varint s1 (64 - 1) = Inr (of_nat (length payload), payload, b)) \<and>
    decode_field_section payload = Inr (auth_fields (str ''pw'') (str ''pad''))"
proof (rule auth_request_decodes)
  show "utf8_valid (str ''pw'')" "utf8_valid (str ''pad'')"
    by (intro utf8_valid_ascii; simp add: word_less_nat_alt)+
qed (use short_auth_request in simp_all)

text \<open>The handshake decides on the first frame of the response: a HEADERS frame is judged by
  its \<open>:status\<close> header (the last one wins, and a section without one is an error), and any
  other frame type ends the handshake with the missing-status error even when a HEADERS frame
  follows, so the loop never goes round.\<close>

theorem auth_first_frame_decides:
  assumes "unat ty < 2 ^ 62" and "length payload \<le> 65520"
    and "open_control io" and "write_settings io" and "open_bi io = IoOk" and "write_request io = IoOk"
    and "\<not> payload_late io 0"
  shows "snd (authenticate io password padding (response_frame ty payload @ rest)) =
     (if ty = FRAME_HEADERS then
        (case decode_field_section payload of
           Inl e \<Rightarrow> Inl (HeadersInvalid e)
         | Inr hs \<Rightarrow>
             bindr (auth_headers hs None False) (\<lambda>(st', udp').
             case st' of Some code \<Rightarrow> Inr \<lparr>status = code, udp_enabled = udp'\<rparr> | None \<Rightarrow> Inl NoStatus))
      else Inl NoStatus)"
  using assms auth_loop_frame [OF assms(1,2), of "payload_late io" 0 65536 rest]
  by (simp add: authenticate_def)

theorem auth_first_frame_decides_witness:
  "snd (authenticate \<lparr>open_control = True, write_settings = True, open_bi = IoOk, write_request = IoOk,
      payload_late = \<lambda>_. False\<rparr> (str ''pw'') [] (response_frame 0 [1, 2] @ response_frame 1 [])) = Inl NoStatus"
  by (subst auth_first_frame_decides) simp_all

end
