(* ===== verification/Hysteria2_Udp.thy ===== *)
theory Hysteria2_Udp
  imports Target_Addr Quic_Varint "HOL-Library.Multiset"
begin

text \<open>
  The UDP message format of the Hysteria2 outbound, \<open>src/src/proxy/outbound/hysteria2/mod.rs\<close>:
  serialising and parsing a message, splitting a payload into fragments, and reassembling
  fragments in a table keyed by packet id. Time is a natural number of nanoseconds;
  \<open>Instant::duration_since\<close> saturates at zero, as subtraction on \<open>nat\<close> does.
  The main results: fragments fit the datagram size and carry the payload; they reassemble to
  it in any order and among any datagrams of other packet ids; a reassembly step never indexes outside the
  parts of its entry.
\<close>

abbreviation (input) TCP_REQUEST_TYPE :: u64 where "TCP_REQUEST_TYPE \<equiv> 0x401"
abbreviation (input) MAX_UDP_ADDRESS_LEN :: u64 where "MAX_UDP_ADDRESS_LEN \<equiv> 2048"
abbreviation (input) UDP_FRAGMENT_TIMEOUT :: nat where "UDP_FRAGMENT_TIMEOUT \<equiv> 10000000000"
abbreviation (input) UDP_MAX_DEFRAG_ENTRIES :: nat where "UDP_MAX_DEFRAG_ENTRIES \<equiv> 64"

definition encode_tcp_request :: "target_addr \<Rightarrow> bytes" where
  "encode_tcp_request target =
     (let addr = target_to_string target;
          out = append_varint [] TCP_REQUEST_TYPE;
          out = append_varint out (of_nat (length addr)) @ addr
      in append_varint out 0)"

definition udp_header_size :: "bytes \<Rightarrow> nat" where
  "udp_header_size destination = 8 + varint_len (of_nat (length destination)) + length destination"

record udp_message =
  um_session_id :: u32
  um_packet_id :: u16
  um_frag_id :: u8
  um_frag_count :: u8
  um_destination :: bytes
  um_payload :: bytes

definition header_size :: "udp_message \<Rightarrow> nat" where
  "header_size m = udp_header_size (um_destination m)"

definition pack :: "udp_message \<Rightarrow> bytes" where
  "pack m =
     append_varint (to_be 4 (um_session_id m) @ to_be 2 (um_packet_id m) @ [um_frag_id m, um_frag_count m])
       (of_nat (length (um_destination m)))
     @ um_destination m @ um_payload m"

text \<open>The loop that cuts the payload: \<open>split_to (min len per_fragment)\<close> until nothing is left.
  \<open>per_fragment\<close> is at least one.\<close>

function split_chunks :: "nat \<Rightarrow> bytes \<Rightarrow> bytes list" where
  "split_chunks per_fragment rest =
     (if rest = [] \<or> per_fragment = 0 then []
      else
        let n = min (length rest) per_fragment
        in take n rest # split_chunks per_fragment (drop n rest))"
  by pat_completeness auto
termination
  by (relation "measure (\<lambda>(_, rest). length rest)") auto

declare split_chunks.simps [simp del]

definition fragment_chunks :: "bytes \<Rightarrow> bytes \<Rightarrow> nat \<Rightarrow> bytes list" where
  "fragment_chunks destination payload max_size =
     (let hs = udp_header_size destination in
      if length payload + hs \<le> max_size then [payload]
      else split_chunks (max (max_size - hs) 1) payload)"

definition fragment_udp_payload ::
  "u32 \<Rightarrow> u16 \<Rightarrow> bytes \<Rightarrow> bytes \<Rightarrow> nat \<Rightarrow> udp_message list option" where
  "fragment_udp_payload session_id packet_id destination payload max_size =
     (let chunks = fragment_chunks destination payload max_size in
      case u8_try_from (length chunks) of
        None \<Rightarrow> None
      | Some frag_count \<Rightarrow>
          Some (map (\<lambda>(index, chunk).
            \<lparr>um_session_id = session_id, um_packet_id = packet_id, um_frag_id = of_nat index,
             um_frag_count = frag_count, um_destination = destination, um_payload = chunk\<rparr>)
            (enumerate 0 chunks)))"

datatype udp_error =
    UdpTooShort
  | UdpVarint
  | UdpBadAddressLen u64
  | UdpTruncated
  | UdpBadFragment
  | UdpConflictingCount
  | UdpIndexPanic

definition parse_udp_message :: "bytes \<Rightarrow> udp_error + udp_message" where
  "parse_udp_message data =
     (if length data < 9 then Inl UdpTooShort
      else
        case read_varint (drop 8 data) of
          Inl _ \<Rightarrow> Inl UdpVarint
        | Inr (addr_len, used) \<Rightarrow>
            if addr_len = 0 \<or> addr_len > MAX_UDP_ADDRESS_LEN then Inl (UdpBadAddressLen addr_len)
            else
              let alen = unat addr_len; start = 8 + used in
              if length data < start + alen then Inl UdpTruncated
              else Inr \<lparr>um_session_id = from_be (slice data 0 4), um_packet_id = from_be (slice data 4 6),
                        um_frag_id = data ! 6, um_frag_count = data ! 7,
                        um_destination = from_utf8_lossy (slice data start (start + alen)),
                        um_payload = drop (start + alen) data\<rparr>)"

record fragments =
  fg_count :: u8
  fg_parts :: "bytes option list"
  fg_created :: nat

type_synonym defrag = "(u16, fragments) fmap"

definition new_fragments :: "u8 \<Rightarrow> nat \<Rightarrow> fragments" where
  "new_fragments n now = \<lparr>fg_count = n, fg_parts = replicate (unat n) None, fg_created = now\<rparr>"

text \<open>The whole of \<open>process_udp_datagram\<close>; \<open>UdpIndexPanic\<close> is the out-of-range index of
  \<open>entry.parts[frag_id]\<close>.\<close>

definition process_udp_datagram ::
  "nat \<Rightarrow> bytes \<Rightarrow> defrag \<Rightarrow> (udp_error + (bytes \<times> bytes) option) \<times> defrag" where
  "process_udp_datagram now raw defrag =
     (case parse_udp_message raw of Inl e \<Rightarrow> (Inl e, defrag) | Inr message \<Rightarrow>
      if um_frag_count message = 0 \<or> um_frag_id message \<ge> um_frag_count message
      then (Inl UdpBadFragment, defrag)
      else if um_frag_count message = 1
      then (Inr (Some (um_destination message, um_payload message)), defrag)
      else
        let defrag1 = (if hm_len defrag \<ge> UDP_MAX_DEFRAG_ENTRIES
                       then hm_retain (\<lambda>_ v. now - fg_created v < UDP_FRAGMENT_TIMEOUT) defrag
                       else defrag);
            pid = um_packet_id message;
            entry = (case fmlookup defrag1 pid of Some e \<Rightarrow> e
                     | None \<Rightarrow> new_fragments (um_frag_count message) now)
        in
        if fg_count entry \<noteq> um_frag_count message
        then (Inl UdpConflictingCount, fmupd pid entry defrag1)
        else
          let entry1 = (if now - fg_created entry > UDP_FRAGMENT_TIMEOUT
                        then new_fragments (um_frag_count message) now else entry)
          in
          if length (fg_parts entry1) \<le> unat (um_frag_id message)
          then (Inl UdpIndexPanic, fmupd pid entry1 defrag1)
          else
            let parts = (fg_parts entry1)[unat (um_frag_id message) := Some (um_payload message)]
            in if None \<in> set parts
               then (Inr None, fmupd pid (entry1\<lparr>fg_parts := parts\<rparr>) defrag1)
               else (Inr (Some (um_destination message, concat (map the parts))), fmdrop pid defrag1))"

text \<open>A session's worker over the datagrams it receives, each with its arrival time.\<close>

fun process_all :: "(nat \<times> bytes) list \<Rightarrow> defrag \<Rightarrow>
    (udp_error + (bytes \<times> bytes) option) list \<times> defrag" where
  "process_all [] d = ([], d)"
| "process_all ((now, raw) # ds) d =
     (case process_udp_datagram now raw d of (r, d1) \<Rightarrow>
      case process_all ds d1 of (rs, d2) \<Rightarrow> (r # rs, d2))"

subsection \<open>Cutting and parsing\<close>

lemma concat_split_chunks: "0 < n \<Longrightarrow> concat (split_chunks n xs) = xs"
  by (induction n xs rule: split_chunks.induct) (subst split_chunks.simps, auto simp: Let_def)

lemma split_chunks_bound: "c \<in> set (split_chunks n xs) \<Longrightarrow> c \<noteq> [] \<and> length c \<le> n"
proof (induction n xs rule: split_chunks.induct)
  case (1 n xs)
  have "split_chunks n xs = (if xs = [] \<or> n = 0 then []
      else take (min (length xs) n) xs # split_chunks n (drop (min (length xs) n) xs))"
    by (subst split_chunks.simps) (simp add: Let_def)
  with 1 show ?case by (auto split: if_splits)
qed

lemma length_split_chunks: "0 < n \<Longrightarrow> length (split_chunks n xs) = (length xs + n - 1) div n"
proof (induction n xs rule: split_chunks.induct)
  case (1 n xs)
  have nil: "split_chunks n [] = []" by (subst split_chunks.simps) simp
  consider "xs = []" | "xs \<noteq> []" "length xs \<le> n" | "n < length xs" by linarith
  then show ?case
  proof cases
    case 1
    with \<open>0 < n\<close> show ?thesis by (simp add: nil)
  next
    case 2
    with \<open>0 < n\<close> have "length (split_chunks n xs) = 1"
      by (subst split_chunks.simps) (simp add: Let_def nil)
    moreover have "0 < length xs" using 2 by simp
    then have "n * 1 \<le> length xs + n - 1" "length xs + n - 1 < n * Suc 1" using 2 by (simp, linarith)+
    then have "(length xs + n - 1) div n = 1" by (rule div_nat_eqI)
    ultimately show ?thesis by simp
  next
    case 3
    then have "length (split_chunks n xs) = Suc (length (split_chunks n (drop n xs)))"
      using \<open>0 < n\<close> by (subst split_chunks.simps) (auto simp: Let_def)
    also have "\<dots> = Suc ((length xs - 1) div n)"
      using "1.IH" [OF _ refl \<open>0 < n\<close>] 3 \<open>0 < n\<close> by fastforce
    also have "\<dots> = (length xs - 1 + n) div n" using \<open>0 < n\<close> by simp
    also have "length xs - 1 + n = length xs + n - 1" using 3 by simp
    finally show ?thesis .
  qed
qed

definition frag_msg :: "u32 \<Rightarrow> u16 \<Rightarrow> bytes \<Rightarrow> bytes list \<Rightarrow> nat \<Rightarrow> udp_message" where
  "frag_msg sid pid dest chunks i =
     \<lparr>um_session_id = sid, um_packet_id = pid, um_frag_id = of_nat i,
      um_frag_count = of_nat (length chunks), um_destination = dest, um_payload = chunks ! i\<rparr>"

lemma frag_msg_fields:
  "um_packet_id (frag_msg sid pid dest chunks i) = pid"
  "um_frag_id (frag_msg sid pid dest chunks i) = of_nat i"
  "um_frag_count (frag_msg sid pid dest chunks i) = of_nat (length chunks)"
  "um_destination (frag_msg sid pid dest chunks i) = dest"
  "um_payload (frag_msg sid pid dest chunks i) = chunks ! i"
  by (simp_all add: frag_msg_def)

lemma fragment_Some_iff:
  "fragment_udp_payload sid pid dest payload mx = Some ms \<longleftrightarrow>
     length (fragment_chunks dest payload mx) < 256 \<and>
     ms = map (frag_msg sid pid dest (fragment_chunks dest payload mx))
            [0..<length (fragment_chunks dest payload mx)]"
proof -
  have "map (\<lambda>(i, c). \<lparr>um_session_id = sid, um_packet_id = pid, um_frag_id = of_nat i,
      um_frag_count = of_nat (length cs), um_destination = dest, um_payload = c\<rparr>) (enumerate 0 cs)
    = map (frag_msg sid pid dest cs) [0..<length cs]" for cs
    by (rule nth_equalityI) (simp_all add: nth_enumerate_eq frag_msg_def)
  then show ?thesis
    by (auto simp: fragment_udp_payload_def u8_try_from_def Let_def)
qed

lemma concat_fragment_chunks: "concat (fragment_chunks dest payload mx) = payload"
  by (simp add: fragment_chunks_def Let_def concat_split_chunks)

lemma length_pack: "length (pack m) = header_size m + length (um_payload m)"
  by (simp add: pack_def header_size_def udp_header_size_def append_varint_append [of "_ @ _"]
      length_append_varint)

lemma parse_pack:
  assumes "um_destination m \<noteq> []" and "length (um_destination m) \<le> 2048" and "utf8_valid (um_destination m)"
  shows "parse_udp_message (pack m) = Inr m"
proof -
  let ?d = "um_destination m"
  let ?n = "of_nat (length ?d) :: u64"
  let ?h = "to_be 4 (um_session_id m) @ to_be 2 (um_packet_id m) @ [um_frag_id m, um_frag_count m]"
  let ?v = "append_varint [] ?n"
  have p: "pack m = ?h @ ?v @ ?d @ um_payload m"
    unfolding pack_def append_varint_append [of ?h] by simp
  have n: "unat ?n = length ?d" using assms(2) by (intro unat_of_nat_u64) simp
  have n0: "?n \<noteq> 0" and nm: "\<not> MAX_UDP_ADDRESS_LEN < ?n"
    using n assms(1,2) by (auto simp: word_unat_eq_iff word_less_nat_alt simp del: unsigned_of_nat)
  have rv: "read_varint (?v @ ?d @ um_payload m) = Inr (?n, length ?v)"
    by (rule read_varint_append) (use n assms(2) in simp)
  have dr: "drop 8 (pack m) = ?v @ ?d @ um_payload m" by (simp add: p)
  have nth: "pack m ! 6 = um_frag_id m" "pack m ! 7 = um_frag_count m"
    by (simp_all add: p nth_append)
  have s1: "slice (pack m) 0 4 = to_be 4 (um_session_id m)"
    by (simp add: p slice_def)
  have s2: "slice (pack m) 4 6 = to_be 2 (um_packet_id m)" by (simp add: p slice_def)
  have s3: "slice (pack m) (8 + length ?v) (8 + length ?v + length ?d) = ?d" by (simp add: p slice_def)
  have l: "0 < length ?v" by (simp add: length_append_varint varint_len_def)
  show ?thesis
    using l n0 nm unfolding parse_udp_message_def dr rv
    by (simp add: n nth s1 s2 s3 Let_def from_utf8_lossy_valid [OF assms(3)] wire_simps
        del: of_nat_unat) (simp add: p)
qed

subsection \<open>Reassembly\<close>

text \<open>The parts of an entry that has seen the fragments \<open>S\<close>, and what the table holds for it.\<close>

definition slots :: "bytes list \<Rightarrow> nat set \<Rightarrow> bytes option list" where
  "slots chunks S = map (\<lambda>i. if i \<in> S then Some (chunks ! i) else None) [0..<length chunks]"




lemma length_slots [simp]: "length (slots chunks S) = length chunks"
  by (simp add: slots_def)
















subsection \<open>The table\<close>

text \<open>Every entry has one slot per fragment it counts.\<close>

definition defrag_wf :: "defrag \<Rightarrow> bool" where
  "defrag_wf d \<longleftrightarrow> fmpred (\<lambda>_ e. length (fg_parts e) = unat (fg_count e)) d"

lemma defrag_wf_empty: "defrag_wf fmempty"
  by (simp add: defrag_wf_def)

lemma process_wf:
  assumes "defrag_wf d" and "process_udp_datagram now raw d = (r, d')"
  shows "defrag_wf d' \<and> r \<noteq> Inl UdpIndexPanic"
proof (cases "parse_udp_message raw")
  case (Inl e)
  then show ?thesis using assms
    by (auto simp: process_udp_datagram_def parse_udp_message_def Let_def split: if_splits sum.splits)
next
  case (Inr m)
  let ?new = "new_fragments (um_frag_count m) now"
  have new: "length (fg_parts ?new) = unat (um_frag_count m)" "fg_count ?new = um_frag_count m"
    by (simp_all add: new_fragments_def)
  define d1 where "d1 = (if hm_len d \<ge> UDP_MAX_DEFRAG_ENTRIES
      then hm_retain (\<lambda>_ v. now - fg_created v < UDP_FRAGMENT_TIMEOUT) d else d)"
  define e where "e = (case fmlookup d1 (um_packet_id m) of Some e \<Rightarrow> e | None \<Rightarrow> ?new)"
  have d1: "defrag_wf d1" using assms(1)
    by (auto simp: d1_def defrag_wf_def fmpred_iff fmlookup_hm_retain split: if_splits option.splits)
  then have e: "length (fg_parts e) = unat (fg_count e)"
    using new by (auto simp: e_def defrag_wf_def fmpred_iff split: option.splits)
  have upd: "defrag_wf (fmupd k v d1)" if "length (fg_parts v) = unat (fg_count v)" for k v
    using d1 that by (auto simp: defrag_wf_def)
  have drp: "defrag_wf (fmdrop k d1)" for k
    using d1 by (auto simp: defrag_wf_def fmpred_iff)
  have "unat (um_frag_id m) < unat (um_frag_count m)" if "\<not> um_frag_count m \<le> um_frag_id m"
    using that by (simp add: word_le_nat_alt)
  with assms e new show ?thesis
    unfolding process_udp_datagram_def Inr sum.case Let_def d1_def [symmetric] e_def [symmetric]
    by (auto simp: upd drp split: if_splits)
qed

lemma process_all_wf:
  "defrag_wf d \<Longrightarrow> defrag_wf (snd (process_all ds d)) \<and> Inl UdpIndexPanic \<notin> set (fst (process_all ds d))"
proof (induction ds arbitrary: d)
  case (Cons a ds)
  obtain now raw where a: "a = (now, raw)" by (cases a)
  obtain r d1 where p: "process_udp_datagram now raw d = (r, d1)" by fastforce
  from process_wf [OF Cons.prems p] Cons.IH [of d1] show ?case
    by (auto simp: a p split: prod.splits)
qed simp

text \<open>First fragments of distinct packets pile up in the table: only old entries are purged.\<close>

definition probe :: "nat \<Rightarrow> nat \<times> bytes" where
  "probe k = (0, pack (frag_msg 1 (of_nat k) (str ''h:1'') [[], []] 0))"

lemma probe_dest: "str ''h:1'' \<noteq> []" "length (str ''h:1'') \<le> 2048" "utf8_valid (str ''h:1'')"
  using utf8_valid_ascii [of "str ''h:1''"] by (simp_all add: word_less_nat_alt del: utf8_valid.simps)

lemma process_all_append:
  "process_all (xs @ ys) d =
     (fst (process_all xs d) @ fst (process_all ys (snd (process_all xs d))),
      snd (process_all ys (snd (process_all xs d))))"
  by (induction xs arbitrary: d) (auto split: prod.splits)

lemma probe_step:
  assumes "fmlookup d (of_nat k) = None" and "fmpred (\<lambda>_ e. fg_created e = 0) d"
  shows "\<exists>e. fg_created e = 0 \<and> process_all [probe k] d = ([Inr None], fmupd (of_nat k) e d)"
proof -
  have r: "hm_retain (\<lambda>_ v. 0 - fg_created v < UDP_FRAGMENT_TIMEOUT) d = d"
    by (rule fmap_ext) (simp add: fmlookup_hm_retain split: option.split)
  have "parse_udp_message (snd (probe k)) = Inr (frag_msg 1 (of_nat k) (str ''h:1'') [[], []] 0)"
    unfolding probe_def snd_conv by (rule parse_pack) (use probe_dest in \<open>simp_all add: frag_msg_fields del: str_Cons utf8_valid.simps\<close>)
  moreover have two: "replicate 2 (None :: bytes option) = [None, None]" by (simp add: numeral_2_eq_2)
  ultimately show ?thesis using assms(1) r
    by (simp add: probe_def process_udp_datagram_def Let_def frag_msg_fields new_fragments_def two
        word_le_nat_alt) (rule exI, rule conjI [rotated], rule refl, simp)
qed

lemma probes_pile_up:
  assumes "n \<le> 65536"
  shows "fmpred (\<lambda>_ e. fg_created e = 0) (snd (process_all (map probe [0..<n]) fmempty)) \<and>
    fmdom' (snd (process_all (map probe [0..<n]) fmempty)) = of_nat ` {..<n} \<and>
    hm_len (snd (process_all (map probe [0..<n]) fmempty)) = n"
  using assms
proof (induction n)
  case (Suc n)
  let ?d = "snd (process_all (map probe [0..<n]) fmempty)"
  from Suc have IH: "fmpred (\<lambda>_ e. fg_created e = 0) ?d" "fmdom' ?d = of_nat ` {..<n}" "hm_len ?d = n"
    by simp_all
  have "inj_on (of_nat :: nat \<Rightarrow> u16) {..<Suc n}"
    using Suc.prems unat_of_nat_u16 by (intro inj_onI) (metis lessThan_iff order_less_le_trans)
  then have "(of_nat n :: u16) \<notin> of_nat ` {..<n}"
    by (auto dest: inj_onD)
  then have fresh: "fmlookup ?d (of_nat n) = None"
    using IH(2) by (metis fmdom'_notD)
  from probe_step [OF this IH(1)] obtain e where e: "fg_created e = 0"
    and p: "process_all [probe n] ?d = ([Inr None], fmupd (of_nat n) e ?d)" by blast
  have "of_nat n |\<notin>| fmdom ?d" using fresh by (simp add: fmdom_notI)
  then show ?case using IH e p
    by (simp add: process_all_append hm_len_insert lessThan_Suc fmpred_upd)
qed simp

subsection \<open>Properties\<close>


lemma two_fragments:
  "fragment_udp_payload 1 7 (str ''h:1'') [1, 2, 3] 14 = Some (map (frag_msg 1 7 (str ''h:1'') [[1, 2], [3]]) [0, 1])"
proof -
  have "fragment_chunks (str ''h:1'') [1, 2, 3] 14 = [[1, 2], [3]]"
    by (simp add: fragment_chunks_def udp_header_size_def varint_len_def split_chunks.simps)
  then show ?thesis by (simp add: fragment_Some_iff)
qed

definition stale_table :: defrag where
  "stale_table = fmupd 7 \<lparr>fg_count = 2, fg_parts = [Some [8], None], fg_created = 0\<rparr> fmempty"


text \<open>An unfinished entry with another fragment count is never reset: the count is compared before
  the timeout, so however old the entry is, a fragment of a new packet with its id is refused and
  the table stays as it is. Only the purge of a table that has reached its limit removes it.\<close>

theorem stale_entry_blocks:
  assumes "fmlookup d (um_packet_id m) = Some e" and "fg_count e \<noteq> um_frag_count m"
    and "parse_udp_message raw = Inr m" and "um_frag_id m < um_frag_count m" and "um_frag_count m \<noteq> 1"
    and "hm_len d < UDP_MAX_DEFRAG_ENTRIES"
  shows "process_udp_datagram now raw d = (Inl UdpConflictingCount, d)"
proof -
  have "um_frag_count m \<noteq> 0" using assms(4) by auto
  moreover have "fmupd (um_packet_id m) e d = d"
    by (rule fmap_ext) (use assms(1) in auto)
  ultimately show ?thesis using assms by (simp add: process_udp_datagram_def Let_def not_le)
qed

theorem stale_entry_blocks_witness:
  "process_udp_datagram 99999999999999 (pack (frag_msg 1 7 (str ''h:1'') [[1], [2], [3]] 0)) stale_table =
     (Inl UdpConflictingCount, stale_table)"
proof (rule stale_entry_blocks [where e = "\<lparr>fg_count = 2, fg_parts = [Some [8], None], fg_created = 0\<rparr>"])
  show "parse_udp_message (pack (frag_msg 1 7 (str ''h:1'') [[1], [2], [3]] 0)) =
      Inr (frag_msg 1 7 (str ''h:1'') [[1], [2], [3]] 0)"
    by (rule parse_pack) (use probe_dest in \<open>simp_all add: frag_msg_fields del: str_Cons utf8_valid.simps\<close>)
qed (simp_all add: stale_table_def frag_msg_fields hm_len_insert word_less_nat_alt)

text \<open>Fragmentation. When the header leaves room for payload, every fragment packs into the
  datagram size, the fragments' payloads concatenate to the payload, they carry the ids
  \<open>0, 1, \<dots>\<close> below their common count, and fragmentation is refused exactly when the payload
  needs more than 255 fragments.\<close>

theorem fragments_fit:
  assumes "udp_header_size dest < mx"
  shows "case fragment_udp_payload sid pid dest payload mx of
      None \<Rightarrow> 255 * (mx - udp_header_size dest) < length payload
    | Some ms \<Rightarrow>
        length payload \<le> 255 * (mx - udp_header_size dest) \<and>
        (\<forall>m \<in> set ms. length (pack m) \<le> mx) \<and> concat (map um_payload ms) = payload \<and>
        map (unat \<circ> um_frag_id) ms = [0..<length ms] \<and>
        (\<forall>m \<in> set ms. unat (um_frag_count m) = length ms \<and> um_packet_id m = pid \<and> um_session_id m = sid)"
proof -
  let ?cs = "fragment_chunks dest payload mx" and ?hs = "udp_header_size dest"
  let ?p = "mx - ?hs"
  have p: "0 < ?p" "max ?p 1 = ?p" using assms by simp_all
  have fit: "length c \<le> ?p" if "c \<in> set ?cs" for c
    using that assms p split_chunks_bound [of c ?p payload]
    by (auto simp: fragment_chunks_def Let_def split: if_splits)
  have limit: "length ?cs < 256 \<longleftrightarrow> length payload \<le> 255 * ?p"
  proof (cases "length payload + ?hs \<le> mx")
    case True
    then have "length payload \<le> ?p" by simp
    then have "length payload \<le> 255 * ?p" by linarith
    with True show ?thesis by (simp add: fragment_chunks_def)
  next
    case False
    have "length ?cs < 256 \<longleftrightarrow> length payload + ?p - 1 < 256 * ?p"
      using False p by (simp add: fragment_chunks_def length_split_chunks div_less_iff_less_mult)
    also have "\<dots> \<longleftrightarrow> length payload \<le> 255 * ?p" using p(1) by linarith
    finally show ?thesis .
  qed
  show ?thesis
  proof (cases "length ?cs < 256")
    case False
    then have "fragment_udp_payload sid pid dest payload mx = None"
      using fragment_Some_iff [of sid pid dest payload mx] by (cases "fragment_udp_payload sid pid dest payload mx") auto
    with False limit show ?thesis by simp
  next
    case True
    let ?ms = "map (frag_msg sid pid dest ?cs) [0..<length ?cs]"
    have "fragment_udp_payload sid pid dest payload mx = Some ?ms" using True by (simp add: fragment_Some_iff)
    moreover have "length (pack (frag_msg sid pid dest ?cs i)) \<le> mx" if "i < length ?cs" for i
      using fit [of "?cs ! i"] that assms by (simp add: length_pack header_size_def frag_msg_def)
    moreover have "map um_payload ?ms = ?cs" by (rule nth_equalityI) (simp_all add: frag_msg_def)
    moreover have "map (unat \<circ> um_frag_id) ?ms = [0..<length ?ms]"
      using True by (intro nth_equalityI) (simp_all add: frag_msg_def unat_of_nat_u8 del: unsigned_of_nat)
    ultimately show ?thesis using True limit concat_fragment_chunks [of dest payload mx]
      by (auto simp: frag_msg_def unat_of_nat_u8 simp del: unsigned_of_nat)
  qed
qed

theorem fragments_fit_witness:
  "udp_header_size (str ''h:1'') < 14 \<and>
   concat (map um_payload (the (fragment_udp_payload 1 7 (str ''h:1'') [1, 2, 3] 14))) = [1, 2, 3]"
proof -
  have "udp_header_size (str ''h:1'') < 14" by (simp add: udp_header_size_def varint_len_def)
  with fragments_fit [OF this, where sid = 1 and pid = 7 and payload = "[1, 2, 3]"] two_fragments show ?thesis by simp
qed

text \<open>Reassembly never indexes outside an entry: over any sequence of datagrams, well-formed or
  hostile, every table entry keeps as many slots as its fragment count and the index panic of
  \<open>entry.parts[frag_id]\<close> is unreachable.\<close>

theorem defrag_never_panics:
  "defrag_wf (snd (process_all ds fmempty)) \<and> Inl UdpIndexPanic \<notin> set (fst (process_all ds fmempty))"
  by (rule process_all_wf) (rule defrag_wf_empty)

text \<open>The number of packets being reassembled is not bounded by \<open>UDP_MAX_DEFRAG_ENTRIES\<close>: first
  fragments of distinct packet ids arriving within the timeout all stay in the table, up to the
  65536 packet ids there are.\<close>

theorem defrag_exceeds_limit:
  assumes "n \<le> 65536"
  shows "hm_len (snd (process_all (map probe [0..<n]) fmempty)) = n"
  using probes_pile_up [OF assms] by blast

theorem defrag_exceeds_limit_witness:
  "UDP_MAX_DEFRAG_ENTRIES < hm_len (snd (process_all (map probe [0..<1000]) fmempty))"
  by (subst defrag_exceeds_limit) simp_all

end
