(* ===== verification/Hysteria2_Tcp.thy ===== *)
theory Hysteria2_Tcp
  imports Hysteria2_Udp Read_Ahead
begin

text \<open>
  A Hysteria2 TCP proxy stream, \<open>Hy2TcpStream\<close> of
  \<open>src/src/proxy/outbound/hysteria2/mod.rs\<close>: the state machine that parses the response in
  front of the payload, the read side that strips it, and the write side that puts the
  request in front of the first payload bytes. A receive stream is the script of its poll
  results (theory Read_Ahead), of which one read takes at most its buffer's size; a send
  stream is the script of how much each write accepts.
\<close>

abbreviation (input) MAX_TCP_RESPONSE_MESSAGE :: u64 where "MAX_TCP_RESPONSE_MESSAGE \<equiv> 2048"
abbreviation (input) MAX_TCP_RESPONSE_PADDING :: u64 where "MAX_TCP_RESPONSE_PADDING \<equiv> 4096"

subsection \<open>The response parser\<close>

datatype response_step = StepStatus | StepMsgLen | StepMsg nat | StepPadLen | StepPad nat | StepDone

record response_reader =
  rr_buf :: bytes
  rr_step :: response_step
  rr_error :: "bytes option"

definition response_new :: response_reader where
  "response_new = \<lparr>rr_buf = [], rr_step = StepStatus, rr_error = None\<rparr>"

definition is_done :: "response_reader \<Rightarrow> bool" where
  "is_done r \<longleftrightarrow> rr_step r = StepDone"

datatype response_need = More

datatype response_error = MessageTooLong | PaddingTooLong | ResponseVarint

fun step_rank :: "response_step \<Rightarrow> nat" where
  "step_rank StepStatus = 5"
| "step_rank StepMsgLen = 4"
| "step_rank (StepMsg _) = 3"
| "step_rank StepPadLen = 2"
| "step_rank (StepPad _) = 1"
| "step_rank StepDone = 0"

text \<open>The length prefix both \<open>MsgLen\<close> and \<open>PadLen\<close> read: not enough bytes, an error, or the
  length and the remaining buffer.\<close>

definition read_len :: "u64 \<Rightarrow> response_error \<Rightarrow> bytes \<Rightarrow> response_error + (nat \<times> bytes) option" where
  "read_len limit too_long buf =
     (if buf = [] then Inr None
      else if length buf < varint_width (buf ! 0) then Inr None
      else case read_varint buf of
        Inl _ \<Rightarrow> Inl ResponseVarint
      | Inr (len, used) \<Rightarrow> if len > limit then Inl too_long else Inr (Some (unat len, drop used buf)))"

function parse_step :: "response_reader \<Rightarrow> (response_error + response_need option) \<times> response_reader" where
  "parse_step r =
     (case rr_step r of
        StepDone \<Rightarrow> (Inr None, r)
      | StepStatus \<Rightarrow>
          if length (rr_buf r) < 1 then (Inr (Some More), r)
          else parse_step (r\<lparr>rr_error := (if rr_buf r ! 0 \<noteq> 0 then Some [] else rr_error r),
                             rr_buf := drop 1 (rr_buf r), rr_step := StepMsgLen\<rparr>)
      | StepMsgLen \<Rightarrow>
          (case read_len MAX_TCP_RESPONSE_MESSAGE MessageTooLong (rr_buf r) of
             Inl e \<Rightarrow> (Inl e, r)
           | Inr None \<Rightarrow> (Inr (Some More), r)
           | Inr (Some (len, rest)) \<Rightarrow> parse_step (r\<lparr>rr_buf := rest, rr_step := StepMsg len\<rparr>))
      | StepMsg len \<Rightarrow>
          if length (rr_buf r) < len then (Inr (Some More), r)
          else parse_step (r\<lparr>rr_error := (case rr_error r of None \<Rightarrow> None
                                  | Some _ \<Rightarrow> Some (from_utf8_lossy (take len (rr_buf r)))),
                             rr_buf := drop len (rr_buf r), rr_step := StepPadLen\<rparr>)
      | StepPadLen \<Rightarrow>
          (case read_len MAX_TCP_RESPONSE_PADDING PaddingTooLong (rr_buf r) of
             Inl e \<Rightarrow> (Inl e, r)
           | Inr None \<Rightarrow> (Inr (Some More), r)
           | Inr (Some (len, rest)) \<Rightarrow> parse_step (r\<lparr>rr_buf := rest, rr_step := StepPad len\<rparr>))
      | StepPad len \<Rightarrow>
          if length (rr_buf r) < len then (Inr (Some More), r)
          else parse_step (r\<lparr>rr_buf := drop len (rr_buf r), rr_step := StepDone\<rparr>))"
  by pat_completeness auto
termination
  by (relation "measure (\<lambda>r. step_rank (rr_step r))") auto

declare parse_step.simps [simp del]

subsection \<open>Reading\<close>

text \<open>One \<open>poll_read\<close> of the receive stream into a buffer of \<open>n\<close> bytes.\<close>

fun stream_read :: "nat \<Rightarrow> stream \<Rightarrow> poll_read \<times> stream" where
  "stream_read n [] = (Data [], [])"
| "stream_read n (Pending # st) = (Pending, st)"
| "stream_read n (Failed # st) = (Failed, st)"
| "stream_read n (Data d # st) =
     (if length d \<le> n then (Data d, st) else (Data (take n d), Data (drop n d) # st))"

fun stream_weight :: "stream \<Rightarrow> nat" where
  "stream_weight [] = 0"
| "stream_weight (Data d # st) = Suc (length d) + stream_weight st"
| "stream_weight (_ # st) = Suc (stream_weight st)"

lemma stream_read_weight:
  "stream_read n st = (Data d, st') \<Longrightarrow> d \<noteq> [] \<Longrightarrow> stream_weight st' < stream_weight st"
  by (cases "(n, st)" rule: stream_read.cases) (auto split: if_splits)

datatype tcp_error =
    ClosedBeforeResponse
  | BadResponse response_error
  | StreamFailed
  | RemoteFailed
  | RemoteError bytes

datatype 'a poll = PollPending | PollReady "tcp_error + 'a"

text \<open>\<open>poll_response\<close>: the parser and the stream as they are left behind.\<close>

function poll_response :: "response_reader \<Rightarrow> stream \<Rightarrow> unit poll \<times> response_reader \<times> stream" where
  "poll_response r st =
     (case parse_step r of
        (Inr None, r1) \<Rightarrow> (PollReady (Inr ()), r1, st)
      | (Inl e, r1) \<Rightarrow> (PollReady (Inl (BadResponse e)), r1, st)
      | (Inr (Some More), r1) \<Rightarrow>
          (case stream_read 2048 st of
             (Pending, st1) \<Rightarrow> (PollPending, r1, st1)
           | (Failed, st1) \<Rightarrow> (PollReady (Inl StreamFailed), r1, st1)
           | (Data d, st1) \<Rightarrow>
               if d = [] then (PollReady (Inl ClosedBeforeResponse), r1, st1)
               else poll_response (r1\<lparr>rr_buf := rr_buf r1 @ d\<rparr>) st1))"
  by pat_completeness auto
termination
  by (relation "measure (\<lambda>(_, st). stream_weight st)") (auto dest: stream_read_weight [OF sym])

declare poll_response.simps [simp del]

datatype write_poll = WPending | WFailed | WAccept nat

record tcp_stream =
  ts_send :: "write_poll list"
  ts_sent :: bytes
  ts_recv :: stream
  ts_pending_request :: "bytes option"
  ts_response :: response_reader

definition tcp_new :: "write_poll list \<Rightarrow> stream \<Rightarrow> bytes \<Rightarrow> tcp_stream" where
  "tcp_new ws rs request =
     \<lparr>ts_send = ws, ts_sent = [], ts_recv = rs, ts_pending_request = Some request,
      ts_response = response_new\<rparr>"

definition remote_failure :: "bytes \<Rightarrow> tcp_error" where
  "remote_failure message = (if message = [] then RemoteFailed else RemoteError message)"

text \<open>The end of \<open>poll_read\<close>: serve what the parser over-read, then the stream.\<close>

definition serve :: "tcp_stream \<Rightarrow> nat \<Rightarrow> unit poll \<times> bytes \<times> tcp_stream" where
  "serve ts cap =
     (let r = ts_response ts;
          n = min (length (rr_buf r)) cap;
          out = take n (rr_buf r);
          ts1 = ts\<lparr>ts_response := r\<lparr>rr_buf := drop n (rr_buf r)\<rparr>\<rparr>
      in if cap - n = 0 then (PollReady (Inr ()), out, ts1)
         else case stream_read (cap - n) (ts_recv ts1) of
             (Data d, st) \<Rightarrow> (PollReady (Inr ()), out @ d, ts1\<lparr>ts_recv := st\<rparr>)
           | (Failed, st) \<Rightarrow> (PollReady (Inl StreamFailed), out, ts1\<lparr>ts_recv := st\<rparr>)
           | (Pending, st) \<Rightarrow>
               (if 0 < n then PollReady (Inr ()) else PollPending, out, ts1\<lparr>ts_recv := st\<rparr>))"

text \<open>\<open>poll_read\<close> into an empty buffer of \<open>cap\<close> bytes: the result, the bytes put there, the stream.\<close>

definition tcp_poll_read :: "tcp_stream \<Rightarrow> nat \<Rightarrow> unit poll \<times> bytes \<times> tcp_stream" where
  "tcp_poll_read ts cap =
     (case rr_error (ts_response ts) of
        Some message \<Rightarrow>
          (PollReady (Inl (remote_failure message)), [],
           ts\<lparr>ts_response := (ts_response ts)\<lparr>rr_error := None\<rparr>\<rparr>)
      | None \<Rightarrow>
          if is_done (ts_response ts) then serve ts cap
          else case poll_response (ts_response ts) (ts_recv ts) of
              (PollPending, r, st) \<Rightarrow> (PollPending, [], ts\<lparr>ts_response := r, ts_recv := st\<rparr>)
            | (PollReady (Inl e), r, st) \<Rightarrow> (PollReady (Inl e), [], ts\<lparr>ts_response := r, ts_recv := st\<rparr>)
            | (PollReady (Inr _), r, st) \<Rightarrow>
                (case rr_error r of
                   Some message \<Rightarrow>
                     (PollReady (Inl (remote_failure message)), [],
                      ts\<lparr>ts_response := r\<lparr>rr_error := None\<rparr>, ts_recv := st\<rparr>)
                 | None \<Rightarrow> serve (ts\<lparr>ts_response := r, ts_recv := st\<rparr>) cap))"

subsection \<open>Writing\<close>

text \<open>One \<open>poll_write\<close> of the send stream: how many bytes it took.\<close>

definition send_write :: "write_poll list \<Rightarrow> bytes \<Rightarrow> (nat poll) \<times> bytes \<times> write_poll list" where
  "send_write ws buf =
     (case ws of [] \<Rightarrow> (PollPending, [], [])
      | WPending # ws' \<Rightarrow> (PollPending, [], ws')
      | WFailed # ws' \<Rightarrow> (PollReady (Inl StreamFailed), [], ws')
      | WAccept n # ws' \<Rightarrow> (PollReady (Inr (min n (length buf))), take n buf, ws'))"

function tcp_poll_write :: "tcp_stream \<Rightarrow> bytes \<Rightarrow> nat poll \<times> tcp_stream" where
  "tcp_poll_write ts buf =
     (case ts_pending_request ts of
        None \<Rightarrow>
          (case send_write (ts_send ts) buf of (r, out, ws) \<Rightarrow>
             (r, ts\<lparr>ts_send := ws, ts_sent := ts_sent ts @ out\<rparr>))
      | Some request \<Rightarrow>
          (case send_write (ts_send ts) (request @ buf) of (r, out, ws) \<Rightarrow>
             let ts1 = ts\<lparr>ts_send := ws, ts_sent := ts_sent ts @ out\<rparr> in
             case r of
               PollPending \<Rightarrow> (PollPending, ts1)
             | PollReady (Inl e) \<Rightarrow> (PollReady (Inl e), ts1)
             | PollReady (Inr n) \<Rightarrow>
                 if n = 0 then (PollReady (Inr 0), ts1)
                 else if n > length request
                 then (PollReady (Inr (n - length request)), ts1\<lparr>ts_pending_request := None\<rparr>)
                 else if n = length request
                 then tcp_poll_write (ts1\<lparr>ts_pending_request := None\<rparr>) buf
                 else tcp_poll_write (ts1\<lparr>ts_pending_request := Some (drop n request)\<rparr>) buf))"
  by pat_completeness auto
termination
  by (relation "measure (\<lambda>(ts, _). case ts_pending_request ts of None \<Rightarrow> 0 | Some p \<Rightarrow> Suc (length p))") auto

declare tcp_poll_write.simps [simp del]

text \<open>\<open>poll_flush\<close> with the flush result of the send stream.\<close>

definition tcp_poll_flush :: "unit poll \<Rightarrow> tcp_stream \<Rightarrow> unit poll" where
  "tcp_poll_flush flushed ts =
     (case ts_pending_request ts of Some _ \<Rightarrow> PollReady (Inr ()) | None \<Rightarrow> flushed)"

subsection \<open>The parser is incremental\<close>

definition ext :: "bytes \<Rightarrow> response_reader \<Rightarrow> response_reader" where
  "ext m r = r\<lparr>rr_buf := rr_buf r @ m\<rparr>"

lemma ext_simps [simp]:
  "rr_buf (ext m r) = rr_buf r @ m" "rr_step (ext m r) = rr_step r" "rr_error (ext m r) = rr_error r"
  "ext [] r = r" "ext a (ext b r) = ext (b @ a) r"
  by (simp_all add: ext_def)

lemma read_varint_more: "read_varint b = Inr (v, n) \<Longrightarrow> read_varint (b @ m) = Inr (v, n)"
  by (auto simp: read_varint_def Let_def split: list.splits if_splits)

lemma read_len_enough:
  assumes "b \<noteq> []" and "varint_width (b ! 0) \<le> length b"
  obtains v where "\<And>m. read_varint (b @ m) = Inr (v, varint_width (b ! 0))"
  using assms by (cases b) (auto simp: read_varint_def Let_def)

lemma read_len_more:
  "read_len l t b = Inr (Some (n, rest)) \<Longrightarrow> read_len l t (b @ m) = Inr (Some (n, rest @ m))"
  "read_len l t b = Inl e \<Longrightarrow> read_len l t (b @ m) = Inl e"
proof -
  have "read_len l t (b @ m) = (case read_len l t b of
      Inr (Some (n, rest)) \<Rightarrow> Inr (Some (n, rest @ m)) | q \<Rightarrow> q)" if "read_len l t b \<noteq> Inr None"
  proof -
    from that have b: "b \<noteq> []" "varint_width (b ! 0) \<le> length b"
      by (auto simp: read_len_def split: if_splits)
    then obtain v where v: "\<And>m. read_varint (b @ m) = Inr (v, varint_width (b ! 0))"
      by (rule read_len_enough) blast
    from b v [of m] v [of "[]"] show ?thesis by (auto simp: read_len_def nth_append)
  qed
  then show "read_len l t b = Inr (Some (n, rest)) \<Longrightarrow> read_len l t (b @ m) = Inr (Some (n, rest @ m))"
    and "read_len l t b = Inl e \<Longrightarrow> read_len l t (b @ m) = Inl e" by simp_all
qed

text \<open>The parser, one equation per step.\<close>

abbreviation rr :: "bytes \<Rightarrow> response_step \<Rightarrow> bytes option \<Rightarrow> response_reader" where
  "rr b st e \<equiv> \<lparr>rr_buf = b, rr_step = st, rr_error = e\<rparr>"

lemma parse_step_eqs:
  "parse_step (rr b StepDone e) = (Inr None, rr b StepDone e)"
  "parse_step (rr [] StepStatus e) = (Inr (Some More), rr [] StepStatus e)"
  "parse_step (rr (x # b) StepStatus e) = parse_step (rr b StepMsgLen (if x \<noteq> 0 then Some [] else e))"
  "parse_step (rr b StepMsgLen e) =
     (case read_len MAX_TCP_RESPONSE_MESSAGE MessageTooLong b of
        Inl er \<Rightarrow> (Inl er, rr b StepMsgLen e)
      | Inr None \<Rightarrow> (Inr (Some More), rr b StepMsgLen e)
      | Inr (Some (len, rest)) \<Rightarrow> parse_step (rr rest (StepMsg len) e))"
  "parse_step (rr b (StepMsg len) e) =
     (if length b < len then (Inr (Some More), rr b (StepMsg len) e)
      else parse_step (rr (drop len b) StepPadLen (map_option (\<lambda>_. from_utf8_lossy (take len b)) e)))"
  "parse_step (rr b StepPadLen e) =
     (case read_len MAX_TCP_RESPONSE_PADDING PaddingTooLong b of
        Inl er \<Rightarrow> (Inl er, rr b StepPadLen e)
      | Inr None \<Rightarrow> (Inr (Some More), rr b StepPadLen e)
      | Inr (Some (len, rest)) \<Rightarrow> parse_step (rr rest (StepPad len) e))"
  "parse_step (rr b (StepPad len) e) =
     (if length b < len then (Inr (Some More), rr b (StepPad len) e)
      else parse_step (rr (drop len b) StepDone e))"
  by (subst parse_step.simps; simp add: map_option_case split: option.split sum.split)+

lemma ext_rr [simp]: "ext m (rr b st e) = rr (b @ m) st e"
  by (simp add: ext_def)

text \<open>Appending bytes to a finished parse extends what is left; to a failed one, nothing
  changes; to an unfinished one, the parse resumes where it stopped.\<close>

definition resumes :: "bytes \<Rightarrow> response_reader \<Rightarrow> bool" where
  "resumes m r \<longleftrightarrow> parse_step (ext m r) =
     (case parse_step r of
        (Inr (Some More), r') \<Rightarrow> parse_step (ext m r')
      | (q, r') \<Rightarrow> (q, ext m r'))"

lemma resumes_done: "resumes m (rr b StepDone e)"
  by (simp add: resumes_def parse_step_eqs)

lemma resumes_pad: "resumes m (rr b (StepPad len) e)"
  using resumes_done [of m "drop len b" e] by (simp add: resumes_def parse_step_eqs(7) [of _ len])

lemma resumes_len:
  assumes "\<And>rest len. resumes m (rr rest (K len) e)"
    and "\<And>b. parse_step (rr b st e) =
      (case read_len limit er0 b of
         Inl er \<Rightarrow> (Inl er, rr b st e)
       | Inr None \<Rightarrow> (Inr (Some More), rr b st e)
       | Inr (Some (len, rest)) \<Rightarrow> parse_step (rr rest (K len) e))"
  shows "resumes m (rr b st e)"
proof (cases "read_len limit er0 b")
  case (Inl er)
  with read_len_more(2) [OF Inl, of m] show ?thesis by (simp add: resumes_def assms(2))
next
  case (Inr q)
  show ?thesis
  proof (cases q)
    case None
    then show ?thesis using Inr by (simp add: resumes_def assms(2) [of b])
  next
    case (Some lr)
    then obtain len rest where q: "q = Some (len, rest)" by (cases lr) simp
    from assms(1) [of rest len] read_len_more(1) [OF Inr [unfolded q], of m] Inr q
    show ?thesis by (simp add: resumes_def assms(2))
  qed
qed

lemma resumes_padlen: "resumes m (rr b StepPadLen e)"
  using resumes_pad parse_step_eqs(6) by (rule resumes_len)

lemma resumes_msg: "resumes m (rr b (StepMsg len) e)"
  using resumes_padlen [of m "drop len b" "map_option (\<lambda>_. from_utf8_lossy (take len b)) e"]
  by (simp add: resumes_def parse_step_eqs(5) [of _ len])

lemma resumes_msglen: "resumes m (rr b StepMsgLen e)"
  using resumes_msg parse_step_eqs(4) by (rule resumes_len)

lemma resumes_status: "resumes m (rr b StepStatus e)"
proof (cases b)
  case Nil
  then show ?thesis by (simp add: resumes_def parse_step_eqs)
next
  case (Cons x c)
  with resumes_msglen [of m c "if x \<noteq> 0 then Some [] else e"] show ?thesis
    by (simp only: resumes_def Cons ext_rr append_Cons parse_step_eqs(3))
qed

lemma parse_step_ext: "resumes m r"
proof (cases r)
  case (fields b st e)
  then show ?thesis
    by (cases st) (simp_all add: resumes_done resumes_pad resumes_padlen resumes_msg resumes_msglen resumes_status)
qed

lemma parse_step_at_done: "rr_step r = StepDone \<Longrightarrow> parse_step r = (Inr None, r)"
  by (subst parse_step.simps) simp

lemma parse_step_props:
  assumes "parse_step r = (q, r')"
  shows "q = Inr None \<Longrightarrow> rr_step r' = StepDone" and "rr_error r' = None \<Longrightarrow> rr_error r = None"
    and "length (rr_buf r') \<le> length (rr_buf r)"
proof -
  have "(q = Inr None \<longrightarrow> rr_step r' = StepDone) \<and> (rr_error r' = None \<longrightarrow> rr_error r = None) \<and>
      length (rr_buf r') \<le> length (rr_buf r)"
    using assms
  proof (induction r arbitrary: q r' rule: parse_step.induct)
    case (1 r)
    have len: "length rest \<le> length b" if "read_len l t b = Inr (Some (n, rest))" for l t b n rest
      using that by (auto simp: read_len_def split: if_splits sum.splits)
    from "1.prems" show ?case
    proof (cases "rr_step r")
      case StepStatus
      with "1.prems" "1.IH"(1) [OF StepStatus] show ?thesis
        by (subst (asm) parse_step.simps) (auto split: if_splits, (fastforce+)?)
    next
      case StepMsgLen
      with "1.prems" "1.IH"(2) [OF StepMsgLen] show ?thesis
        by (subst (asm) parse_step.simps) (fastforce split: sum.splits option.splits dest: len)
    next
      case (StepMsg n)
      with "1.prems" "1.IH"(3) [OF StepMsg] show ?thesis
        by (subst (asm) parse_step.simps) (fastforce split: if_splits option.splits)
    next
      case StepPadLen
      with "1.prems" "1.IH"(4) [OF StepPadLen] show ?thesis
        by (subst (asm) parse_step.simps) (fastforce split: sum.splits option.splits dest: len)
    next
      case (StepPad n)
      with "1.prems" "1.IH"(5) [OF StepPad] show ?thesis
        by (subst (asm) parse_step.simps) (fastforce split: if_splits)
    next
      case StepDone
      with "1.prems" show ?thesis by (subst (asm) parse_step.simps) auto
    qed
  qed
  then show "q = Inr None \<Longrightarrow> rr_step r' = StepDone" "rr_error r' = None \<Longrightarrow> rr_error r = None"
    "length (rr_buf r') \<le> length (rr_buf r)" by blast+
qed

subsection \<open>What the reader still has to deliver\<close>

definition whole :: "response_reader \<Rightarrow> stream \<Rightarrow> (response_error + response_need option) \<times> response_reader" where
  "whole r st = parse_step (ext (wire st) r)"

definition unread :: "tcp_stream \<Rightarrow> bytes" where
  "unread ts = (case whole (ts_response ts) (ts_recv ts) of (Inr None, r) \<Rightarrow> rr_buf r | _ \<Rightarrow> [])"

definition accepted :: "tcp_stream \<Rightarrow> bool" where
  "accepted ts \<longleftrightarrow> (\<exists>r. whole (ts_response ts) (ts_recv ts) = (Inr None, r) \<and> rr_error r = None)"

definition clean :: "stream \<Rightarrow> bool" where
  "clean st \<longleftrightarrow> Failed \<notin> set st \<and> Data [] \<notin> set st"

definition read_weight :: "tcp_stream \<Rightarrow> nat" where
  "read_weight ts = 2 * stream_weight (ts_recv ts) + length (rr_buf (ts_response ts))"

lemma stream_read_cases:
  assumes "clean st" and "0 < n"
  obtains "st = []" and "stream_read n st = (Data [], [])"
  | st' where "stream_read n st = (Pending, st')" and "wire st' = wire st" and "clean st'"
      and "stream_weight st' < stream_weight st"
  | d st' where "stream_read n st = (Data d, st')" and "d \<noteq> []" and "length d \<le> n"
      and "wire st = d @ wire st'" and "clean st'" and "2 * stream_weight st' + length d < 2 * stream_weight st"
proof (cases "(n, st)" rule: stream_read.cases)
  case (4 m d st1)
  with assms have d: "d \<noteq> []" "m = n" by (auto simp: clean_def)
  show ?thesis
  proof (cases "length d \<le> n")
    case True
    with 4 d assms show ?thesis by (intro that(3) [of d st1]) (auto simp: clean_def)
  next
    case False
    with 4 d assms show ?thesis by (intro that(3) [of "take n d" "Data (drop n d) # st1"]) (auto simp: clean_def)
  qed
qed (use that assms in \<open>auto simp: clean_def\<close>)

lemma whole_resume:
  assumes "parse_step r = (Inr (Some More), r1)"
  shows "whole r st = whole r1 st"
  using parse_step_ext [of "wire st" r] assms by (simp add: whole_def resumes_def)

lemma whole_done:
  assumes "parse_step r = (Inr None, r1)"
  shows "whole r st = (Inr None, ext (wire st) r1)"
  using parse_step_ext [of "wire st" r] assms by (simp add: whole_def resumes_def)

lemma poll_response_accepted:
  assumes "clean st" and "whole r st = (Inr None, rf)" and "poll_response r st = (q, r', st')"
  shows "clean st' \<and> whole r' st' = (Inr None, rf) \<and>
    (q = PollPending \<or> q = PollReady (Inr ()) \<and> rr_step r' = StepDone) \<and>
    2 * stream_weight st' + length (rr_buf r') \<le> 2 * stream_weight st + length (rr_buf r) \<and>
    (q = PollPending \<longrightarrow> 2 * stream_weight st' + length (rr_buf r') < 2 * stream_weight st + length (rr_buf r))"
  using assms
proof (induction r st arbitrary: q r' st' rule: poll_response.induct)
  case (1 r st)
  obtain p r1 where p: "parse_step r = (p, r1)" by fastforce
  note len = parse_step_props(3) [OF p]
  consider e where "p = Inl e" | "p = Inr None" | "p = Inr (Some More)"
    by (metis option.exhaust response_need.exhaust sum.exhaust)
  then show ?case
  proof cases
    case 1
    with p "1.prems"(2) parse_step_ext [of "wire st" r] show ?thesis by (simp add: whole_def resumes_def)
  next
    case 2
    with p "1.prems" parse_step_props(1) [OF p] show ?thesis
      using whole_done [of r r1 st] len
      by (auto simp: poll_response.simps [of r st] whole_def parse_step_at_done)
  next
    case 3
    then have pm: "parse_step r = (Inr (Some More), r1)" using p by simp
    note w = whole_resume [OF pm, of st]
    show ?thesis
    proof (cases rule: stream_read_cases [of st 2048, OF "1.prems"(1)])
      case 2
      then show ?thesis using "1.prems"(2) pm by (simp add: whole_def)
    next
      case (3 st1)
      with "1.prems" pm w len show ?thesis
        by (auto simp: poll_response.simps [of r st] whole_def)
    next
      case (4 d st1)
      have e: "whole (r1\<lparr>rr_buf := rr_buf r1 @ d\<rparr>) st1 = (Inr None, rf)"
        using w "1.prems"(2) 4 by (simp add: whole_def ext_def)
      have "poll_response (r1\<lparr>rr_buf := rr_buf r1 @ d\<rparr>) st1 = (q, r', st')"
        using "1.prems"(3) pm 4 by (simp add: poll_response.simps [of r st])
      from "1.IH" [OF pm [symmetric] refl refl refl _ _ _ 4(5) e this] 4 len show ?thesis by fastforce
    qed simp
  qed
qed

lemma serve_keeps:
  assumes "rr_step (ts_response ts) = StepDone" and "clean (ts_recv ts)" and "0 < cap"
    and "serve ts cap = (q, out, ts')"
  shows "out @ rr_buf (ts_response ts') @ wire (ts_recv ts') = rr_buf (ts_response ts) @ wire (ts_recv ts) \<and>
    length out \<le> cap \<and> (q = PollPending \<and> out = [] \<or> q = PollReady (Inr ())) \<and> clean (ts_recv ts') \<and>
    rr_step (ts_response ts') = StepDone \<and> rr_error (ts_response ts') = rr_error (ts_response ts) \<and>
    read_weight ts' \<le> read_weight ts - 1"
proof -
  let ?b = "rr_buf (ts_response ts)"
  show ?thesis
  proof (cases "cap \<le> length ?b")
    case True
    with assms show ?thesis
      by (auto simp: serve_def Let_def read_weight_def)
  next
    case False
    then have c: "0 < cap - length ?b" "min (length ?b) cap = length ?b" by simp_all
    from assms(2) c(1) show ?thesis
    proof (cases rule: stream_read_cases)
      case 1
      with assms c show ?thesis by (auto simp: serve_def Let_def read_weight_def clean_def)
    next
      case (2 st')
      with assms c show ?thesis by (auto simp: serve_def Let_def read_weight_def split: if_splits)
    next
      case (3 d st')
      with assms c show ?thesis by (auto simp: serve_def Let_def read_weight_def)
    qed
  qed
qed

text \<open>One read of an accepted stream: it delivers the next payload bytes and no others, it
  fails for no reason of its own, and it makes progress.\<close>

lemma unread_done:
  assumes "rr_step (ts_response ts) = StepDone" and "rr_error (ts_response ts) = None"
  shows "accepted ts" and "unread ts = rr_buf (ts_response ts) @ wire (ts_recv ts)"
  using assms by (simp_all add: accepted_def unread_def whole_def parse_step_at_done)

lemma poll_read_step:
  assumes "accepted ts" and "clean (ts_recv ts)" and "0 < cap" and "tcp_poll_read ts cap = (q, out, ts')"
  shows "out @ unread ts' = unread ts \<and> length out \<le> cap \<and>
    (q = PollPending \<and> out = [] \<or> q = PollReady (Inr ())) \<and> accepted ts' \<and> clean (ts_recv ts') \<and>
    read_weight ts' \<le> read_weight ts - 1"
proof -
  from assms(1) obtain rf where w: "whole (ts_response ts) (ts_recv ts) = (Inr None, rf)" "rr_error rf = None"
    by (auto simp: accepted_def)
  then have ne: "rr_error (ts_response ts) = None"
    using parse_step_props(2) [of "ext (wire (ts_recv ts)) (ts_response ts)" "Inr None" rf] by (simp add: whole_def)
  show ?thesis
  proof (cases "is_done (ts_response ts)")
    case True
    then have d: "rr_step (ts_response ts) = StepDone" by (simp add: is_done_def)
    have "serve ts cap = (q, out, ts')" using assms(4) True ne by (simp add: tcp_poll_read_def)
    from serve_keeps [OF d assms(2,3) this] unread_done [OF d ne] ne unread_done [of ts'] show ?thesis by auto
  next
    case False
    obtain p r1 st1 where p: "poll_response (ts_response ts) (ts_recv ts) = (p, r1, st1)"
      by (cases "poll_response (ts_response ts) (ts_recv ts)")
    let ?ts1 = "ts\<lparr>ts_response := r1, ts_recv := st1\<rparr>"
    note acc = poll_response_accepted [OF assms(2) w(1) p]
    have u1: "accepted ?ts1" "unread ?ts1 = unread ts"
      using acc w by (simp_all add: accepted_def unread_def)
    have ne1: "rr_error r1 = None"
      using acc w(2) parse_step_props(2) [of "ext (wire st1) r1" "Inr None" rf] by (simp add: whole_def)
    show ?thesis
    proof (cases "p = PollPending")
      case True
      with assms(4) ne False p have "q = PollPending" "out = []" "ts' = ?ts1"
        by (simp_all add: tcp_poll_read_def)
      with acc True u1 show ?thesis by (simp add: read_weight_def) linarith
    next
      case rdy: False
      with acc have d: "p = PollReady (Inr ())" "rr_step (ts_response ?ts1) = StepDone"
        and cl: "clean (ts_recv ?ts1)" and le: "read_weight ?ts1 \<le> read_weight ts"
        by (auto simp: read_weight_def)
      have "serve ?ts1 cap = (q, out, ts')"
        using assms(4) ne False p d(1) ne1 by (simp add: tcp_poll_read_def)
      from serve_keeps [OF d(2) cl assms(3) this] unread_done [OF d(2)] ne1 unread_done [of ts'] u1 le
      show ?thesis by auto
    qed
  qed
qed

fun read_many :: "tcp_stream \<Rightarrow> nat list \<Rightarrow> (unit poll \<times> bytes) list \<times> tcp_stream" where
  "read_many ts [] = ([], ts)"
| "read_many ts (cap # caps) =
     (case tcp_poll_read ts cap of (q, out, ts1) \<Rightarrow>
      case read_many ts1 caps of (rs, ts2) \<Rightarrow> ((q, out) # rs, ts2))"

lemma read_many_step:
  assumes "accepted ts" and "clean (ts_recv ts)" and "\<forall>c \<in> set caps. 0 < c" and "read_many ts caps = (rs, ts')"
  shows "concat (map snd rs) @ unread ts' = unread ts \<and>
    (\<forall>(q, out) \<in> set rs. q = PollPending \<and> out = [] \<or> q = PollReady (Inr ())) \<and>
    (read_weight ts \<le> length caps \<longrightarrow> read_weight ts' = 0) \<and> accepted ts'"
  using assms
proof (induction caps arbitrary: ts rs)
  case (Cons cap caps)
  obtain q out ts1 where p: "tcp_poll_read ts cap = (q, out, ts1)" by (cases "tcp_poll_read ts cap")
  obtain rs1 where m: "read_many ts1 caps = (rs1, ts')" "rs = (q, out) # rs1"
    using Cons.prems(4) p by (auto split: prod.splits)
  have step: "out @ unread ts1 = unread ts" "q = PollPending \<and> out = [] \<or> q = PollReady (Inr ())"
      "accepted ts1" "clean (ts_recv ts1)" "read_weight ts1 \<le> read_weight ts - 1"
    using poll_read_step [OF Cons.prems(1,2) _ p] Cons.prems(3) by auto
  have IH: "concat (map snd rs1) @ unread ts' = unread ts1 \<and>
    (\<forall>(q, out) \<in> set rs1. q = PollPending \<and> out = [] \<or> q = PollReady (Inr ())) \<and>
    (read_weight ts1 \<le> length caps \<longrightarrow> read_weight ts' = 0) \<and> accepted ts'"
    using Cons.IH [OF step(3,4) _ m(1)] Cons.prems(3) by simp
  from IH step m(2) show ?case by auto
qed simp

subsection \<open>The write side\<close>

definition pend :: "tcp_stream \<Rightarrow> bytes" where
  "pend ts = (case ts_pending_request ts of None \<Rightarrow> [] | Some p \<Rightarrow> p)"

fun taken :: "nat poll \<Rightarrow> nat" where
  "taken (PollReady (Inr n)) = n"
| "taken _ = 0"

lemma send_write_out:
  "send_write ws buf = (r, out, ws') \<Longrightarrow> out = take (taken r) buf \<and> taken r \<le> length buf"
  by (auto simp: send_write_def split: list.splits write_poll.splits) (simp add: min_def)

text \<open>One write: what is on the wire followed by what is left of the request grows by exactly
  the payload bytes reported as written, and payload is taken only once the request is out.\<close>

lemma poll_write_step:
  assumes "tcp_poll_write ts buf = (r, ts')"
  shows "ts_sent ts' @ pend ts' = ts_sent ts @ pend ts @ take (taken r) buf \<and> taken r \<le> length buf \<and>
    (0 < taken r \<longrightarrow> ts_pending_request ts' = None) \<and> ts_recv ts' = ts_recv ts \<and> ts_response ts' = ts_response ts"
  using assms
proof (induction ts buf arbitrary: r ts' rule: tcp_poll_write.induct)
  case (1 ts buf)
  show ?case
  proof (cases "ts_pending_request ts")
    case None
    obtain r1 out ws where w: "send_write (ts_send ts) buf = (r1, out, ws)" by (cases "send_write (ts_send ts) buf")
    with None "1.prems" send_write_out [OF w] show ?thesis
      by (auto simp: tcp_poll_write.simps [of ts buf] pend_def)
  next
    case (Some request)
    obtain r1 out ws where w: "send_write (ts_send ts) (request @ buf) = (r1, out, ws)"
      by (cases "send_write (ts_send ts) (request @ buf)")
    note o = send_write_out [OF w]
    let ?ts1 = "ts\<lparr>ts_send := ws, ts_sent := ts_sent ts @ out\<rparr>"
    have unf: "tcp_poll_write ts buf =
        (case r1 of PollPending \<Rightarrow> (PollPending, ?ts1) | PollReady (Inl e) \<Rightarrow> (PollReady (Inl e), ?ts1)
         | PollReady (Inr n) \<Rightarrow>
           if n = 0 then (PollReady (Inr 0), ?ts1)
           else if n > length request then (PollReady (Inr (n - length request)), ?ts1\<lparr>ts_pending_request := None\<rparr>)
           else if n = length request then tcp_poll_write (?ts1\<lparr>ts_pending_request := None\<rparr>) buf
           else tcp_poll_write (?ts1\<lparr>ts_pending_request := Some (drop n request)\<rparr>) buf)"
      by (subst tcp_poll_write.simps) (simp add: Some w Let_def)
    consider "r1 = PollPending" | e where "r1 = PollReady (Inl e)" | n where "r1 = PollReady (Inr n)"
      by (metis poll.exhaust sum.exhaust)
    then show ?thesis
    proof cases
      case ready: (3 n)
      note IH = "1.IH" [OF Some w [symmetric] refl refl ready refl]
      from o ready have out: "out = take n (request @ buf)" "n \<le> length request + length buf" by simp_all
      consider "n = 0" | "length request < n" | "n = length request" "n \<noteq> 0" | "n < length request" "n \<noteq> 0"
        by linarith
      then show ?thesis
      proof cases
        case 1
        with "1.prems" ready Some out show ?thesis by (auto simp: unf pend_def)
      next
        case 2
        with "1.prems" ready Some out show ?thesis by (auto simp: unf pend_def)
      next
        case exact: 3
        with "1.prems" ready IH(1) out Some show ?thesis by (simp add: unf pend_def)
      next
        case 4
        with "1.prems" ready IH(2) out Some show ?thesis by (simp add: unf pend_def)
      qed
    qed (use "1.prems" Some o in \<open>auto simp: unf pend_def\<close>)
  qed
qed

fun write_many :: "tcp_stream \<Rightarrow> bytes list \<Rightarrow> nat poll list \<times> tcp_stream" where
  "write_many ts [] = ([], ts)"
| "write_many ts (buf # bufs) =
     (case tcp_poll_write ts buf of (r, ts1) \<Rightarrow>
      case write_many ts1 bufs of (rs, ts2) \<Rightarrow> (r # rs, ts2))"

lemma write_many_step:
  "write_many ts bufs = (rs, ts') \<Longrightarrow>
     ts_sent ts' @ pend ts' = ts_sent ts @ pend ts @ concat (map2 (\<lambda>r buf. take (taken r) buf) rs bufs)"
proof (induction bufs arbitrary: ts rs)
  case (Cons buf bufs)
  obtain r ts1 where w: "tcp_poll_write ts buf = (r, ts1)" by fastforce
  obtain rs1 where m: "write_many ts1 bufs = (rs1, ts')" "rs = r # rs1"
    using Cons.prems w by (auto split: prod.splits)
  from Cons.IH [OF m(1)] poll_write_step [OF w] m(2) show ?case by simp
qed simp

subsection \<open>Properties\<close>

definition enc_response :: "u8 \<Rightarrow> bytes \<Rightarrow> bytes \<Rightarrow> bytes" where
  "enc_response status msg padding =
     [status] @ append_varint [] (of_nat (length msg)) @ msg @ append_varint [] (of_nat (length padding)) @ padding"

lemma read_len_enc:
  assumes "length xs \<le> unat limit" and "length xs < 2 ^ 62"
  shows "read_len limit er (append_varint [] (of_nat (length xs)) @ rest) = Inr (Some (length xs, rest))"
proof -
  let ?n = "of_nat (length xs) :: u64"
  have n: "unat ?n = length xs" using assms(2) by (intro unat_of_nat_u64) simp
  have n62: "unat ?n < 2 ^ 62" using assms(2) by (simp add: n del: unsigned_of_nat)
  obtain b0 tl0 where s: "append_varint [] ?n = b0 # tl0" "varint_width b0 = Suc (length tl0)"
    using append_varint_split [OF n62] by metis
  have "\<not> limit < ?n" using assms(1) n by (simp add: word_less_nat_alt del: unsigned_of_nat)
  with read_varint_append [OF n62, of rest] n s show ?thesis
    by (simp add: read_len_def del: unsigned_of_nat)
qed

lemma parse_response:
  assumes "length msg \<le> 2048" and "length padding \<le> 4096"
  shows "parse_step (ext (enc_response status msg padding @ payload) response_new) =
    (Inr None, rr payload StepDone (if status = 0 then None else Some (from_utf8_lossy msg)))"
proof -
  have m: "read_len MAX_TCP_RESPONSE_MESSAGE MessageTooLong (append_varint [] (of_nat (length msg)) @ r) =
      Inr (Some (length msg, r))" for r
    using assms(1) by (intro read_len_enc) simp_all
  have p: "read_len MAX_TCP_RESPONSE_PADDING PaddingTooLong (append_varint [] (of_nat (length padding)) @ r) =
      Inr (Some (length padding, r))" for r
    using assms(2) by (intro read_len_enc) simp_all
  show ?thesis
    by (simp add: response_new_def enc_response_def parse_step_eqs m p)
qed

text \<open>The TCP response never leaks into the application stream. For a stream that delivers a
  successful response followed by the payload, cut into chunks in any way and with any delays,
  reads of any sizes return exactly the payload, in order, without an error; a read that
  reports not-ready returns no bytes; and enough reads return all of it.\<close>

theorem tcp_response_stripped:
  assumes "length msg \<le> 2048" and "length padding \<le> 4096"
    and "clean st" and "wire st = enc_response 0 msg padding @ payload"
    and "\<forall>c \<in> set caps. 0 < c" and "2 * stream_weight st \<le> length caps"
    and "read_many (tcp_new ws st request) caps = (rs, ts')"
  shows "concat (map snd rs) = payload \<and>
    (\<forall>(q, out) \<in> set rs. q = PollPending \<and> out = [] \<or> q = PollReady (Inr ()))"
proof -
  let ?ts = "tcp_new ws st request"
  have w: "whole (ts_response ?ts) (ts_recv ?ts) = (Inr None, rr payload StepDone None)"
    using parse_response [OF assms(1,2), of 0 payload] assms(4) by (simp add: whole_def tcp_new_def)
  then have acc: "accepted ?ts" and un: "unread ?ts = payload"
    by (simp_all add: accepted_def unread_def)
  have "clean (ts_recv ?ts)" "read_weight ?ts \<le> length caps"
    using assms(3,6) by (simp_all add: tcp_new_def read_weight_def response_new_def)
  with read_many_step [OF acc _ assms(5,7)] have r: "concat (map snd rs) @ unread ts' = payload"
      "\<forall>(q, out) \<in> set rs. q = PollPending \<and> out = [] \<or> q = PollReady (Inr ())"
      "read_weight ts' = 0" "accepted ts'" by (simp_all add: un)
  have "ts_recv ts' = []" "rr_buf (ts_response ts') = []"
    using r(3) by (auto simp: read_weight_def elim: stream_weight.elims)
  moreover from r(4) obtain rf where rf: "whole (ts_response ts') (ts_recv ts') = (Inr None, rf)"
    by (auto simp: accepted_def)
  ultimately have "rr_buf rf = []"
    using parse_step_props(3) [of "ts_response ts'" "Inr None" rf] by (simp add: whole_def)
  with rf r show ?thesis by (simp add: unread_def)
qed

theorem tcp_response_stripped_witness:
  "concat (map snd (fst (read_many (tcp_new [] [Data [0, 1], Pending, Data [65, 0, 7, 8]] []) (replicate 18 4)))) = [7, 8]"
proof -
  let ?st = "[Data [0, 1], Pending, Data [65, 0, 7, 8]]"
  have "wire ?st = enc_response 0 [65] [] @ [7, 8]" by (simp add: enc_response_def append_varint_def)
  moreover have "clean ?st" "2 * stream_weight ?st \<le> length (replicate 18 (4 :: nat))" by (simp_all add: clean_def)
  ultimately show ?thesis
    using tcp_response_stripped [of "[65]" "[]" ?st "[7, 8]" "replicate 18 4" "[]" "[]"]
    by (metis (no_types, lifting) in_set_replicate le_numeral_extra(3) length_Cons list.size(3) prod.collapse
        zero_le zero_less_numeral numeral_One one_le_numeral One_nat_def)
qed

text \<open>The TCP request goes out exactly once and first. Over any sequence of writes, however
  much of each the send stream accepts, delays or fails, the bytes on the wire followed by the
  unsent rest of the request are the request followed by exactly the payload bytes that the
  writes reported as taken.\<close>

theorem tcp_request_precedes_payload:
  assumes "write_many (tcp_new ws st request) bufs = (rs, ts')"
  shows "ts_sent ts' @ pend ts' = request @ concat (map2 (\<lambda>r buf. take (taken r) buf) rs bufs)"
  using write_many_step [OF assms] by (simp add: tcp_new_def pend_def)

theorem tcp_request_precedes_payload_witness:
  "ts_sent (snd (write_many (tcp_new [WAccept 1, WPending, WAccept 1, WAccept 9] [] [1, 2]) [[5], [6]])) = [1, 2, 6]"
proof -
  have w: "write_many (tcp_new [WAccept 1, WPending, WAccept 1, WAccept 9] [] [1, 2]) [[5], [6]] =
      ([PollPending, PollReady (Inr 1)],
       (tcp_new [] [] [1, 2])\<lparr>ts_sent := [1, 2, 6], ts_pending_request := None\<rparr>)"
    by (simp add: tcp_new_def tcp_poll_write.simps send_write_def)
  from tcp_request_precedes_payload [OF w] show ?thesis unfolding w by (simp add: pend_def)
qed

text \<open>A remote dial error loses its message when the status byte arrives ahead of the rest: the
  pending read leaves the placeholder error set by the status byte, and the next read reports
  it before the message has been parsed.\<close>

theorem remote_error_message_lost:
  assumes "s \<noteq> 0" and "tcp_poll_read (tcp_new ws (Data [s] # Pending # st) request) cap = (q, out, ts)"
  shows "q = PollPending \<and> fst (tcp_poll_read ts cap') = PollReady (Inl RemoteFailed)"
proof -
  have more: "parse_step (rr [] StepMsgLen (Some [])) = (Inr (Some More), rr [] StepMsgLen (Some []))"
    by (simp add: parse_step_eqs read_len_def)
  have "poll_response response_new (Data [s] # Pending # st) = (PollPending, rr [] StepMsgLen (Some []), st)"
    using assms(1) more
    by (subst poll_response.simps) (simp add: response_new_def parse_step_eqs poll_response.simps)
  with assms(2) show ?thesis
    by (auto simp: tcp_poll_read_def tcp_new_def is_done_def response_new_def remote_failure_def)
qed

theorem remote_error_message_lost_witness:
  "case tcp_poll_read (tcp_new [] [Data [1], Pending, Data [2, 72, 105, 0]] []) 16 of
     (q, _, ts) \<Rightarrow> fst (tcp_poll_read ts 16) = PollReady (Inl RemoteFailed)"
  using remote_error_message_lost [of 1 "[]" "[Data [2, 72, 105, 0]]" "[]" 16] by (auto split: prod.split)

end
