(* ===== verification/Redb_Store.thy ===== *)
theory Redb_Store
  imports Wire_Prelude
begin

text \<open>
  The persistent store behind the caches: \<open>src/src/cache/redb_store.rs\<close> and the raw and
  expiring caches of \<open>src/src/cache/mod.rs\<close>. The \<open>redb\<close> database is a map from table and key to
  bytes whose transactions either commit as a whole or leave it unchanged; which of the next
  transactions fail is part of the state (\<open>db_faults\<close>). Writes are committed without being made
  durable, so the state also holds what a crash would leave. \<open>serde_json\<close> is a pair of
  arguments, encoder and decoder. The locale \<open>raw_store\<close> states what the clients of a raw table
  rely on.
\<close>

subsection \<open>The shared database\<close>

type_synonym tables = "(bytes \<times> bytes, bytes) fmap"

record shared_db =
  db_tables :: tables
  db_durable :: tables
  db_dirty :: bool
  db_faults :: "bool list"

text \<open>One transaction: does it go through?\<close>

definition next_txn :: "shared_db \<Rightarrow> bool \<times> shared_db" where
  "next_txn d = (case db_faults d of [] \<Rightarrow> (True, d) | f # fs \<Rightarrow> (\<not> f, d\<lparr>db_faults := fs\<rparr>))"

text \<open>\<open>begin_cache_write\<close>, the change, \<open>commit_cache_write\<close>.\<close>

definition cache_write :: "(tables \<Rightarrow> tables) \<Rightarrow> shared_db \<Rightarrow> bool \<times> shared_db" where
  "cache_write change d =
     (case next_txn d of (ok, d1) \<Rightarrow>
      if ok then (True, d1\<lparr>db_tables := change (db_tables d1), db_dirty := True\<rparr>) else (False, d1))"

definition flush :: "shared_db \<Rightarrow> bool \<times> shared_db" where
  "flush d =
     (if \<not> db_dirty d then (True, d)
      else
        let d0 = d\<lparr>db_dirty := False\<rparr> in
        case next_txn d0 of (ok, d1) \<Rightarrow>
          if ok then (True, d1\<lparr>db_durable := db_tables d1\<rparr>) else (False, d1\<lparr>db_dirty := True\<rparr>))"

text \<open>What the next start finds after a crash.\<close>

definition crash :: "shared_db \<Rightarrow> shared_db" where
  "crash d = d\<lparr>db_tables := db_durable d, db_dirty := False\<rparr>"

definition set_raw :: "bytes \<Rightarrow> shared_db \<Rightarrow> bytes \<Rightarrow> bytes \<Rightarrow> bool \<times> shared_db" where
  "set_raw table d key val = cache_write (fmupd (table, key) val) d"

definition get_raw :: "bytes \<Rightarrow> shared_db \<Rightarrow> bytes \<Rightarrow> bytes option option \<times> shared_db" where
  "get_raw table d key =
     (case next_txn d of (ok, d1) \<Rightarrow> (if ok then Some (fmlookup (db_tables d1) (table, key)) else None, d1))"

definition delete_raw :: "bytes \<Rightarrow> shared_db \<Rightarrow> bytes \<Rightarrow> bool \<times> shared_db" where
  "delete_raw table d key = cache_write (fmdrop (table, key)) d"

definition delete_table :: "bytes \<Rightarrow> shared_db \<Rightarrow> bool option \<times> shared_db" where
  "delete_table table d =
     (let existed = fBex (fmdom (db_tables d)) (\<lambda>(t, _). t = table) in
      case cache_write (fmfilter (\<lambda>(t, _). t \<noteq> table)) d of (ok, d1) \<Rightarrow>
        (if ok then Some existed else None, d1))"

subsection \<open>Entries encoded as JSON\<close>

definition set_entry :: "('v \<Rightarrow> bytes) \<Rightarrow> bytes \<Rightarrow> shared_db \<Rightarrow> bytes \<Rightarrow> 'v \<Rightarrow> bool \<times> shared_db" where
  "set_entry enc table d key v = cache_write (fmupd (table, key) (enc v)) d"

text \<open>An undecodable entry is an error (\<open>None\<close>).\<close>

definition get_entry :: "(bytes \<Rightarrow> 'v option) \<Rightarrow> bytes \<Rightarrow> shared_db \<Rightarrow> bytes \<Rightarrow> 'v option option \<times> shared_db" where
  "get_entry decd table d key =
     (case next_txn d of (ok, d1) \<Rightarrow>
        (if \<not> ok then None
         else case fmlookup (db_tables d1) (table, key) of
             None \<Rightarrow> Some None
           | Some raw \<Rightarrow> (case decd raw of Some v \<Rightarrow> Some (Some v) | None \<Rightarrow> None), d1))"

text \<open>\<open>delete_entry\<close>: a decoding error aborts the transaction.\<close>

definition delete_entry :: "(bytes \<Rightarrow> 'v option) \<Rightarrow> bytes \<Rightarrow> shared_db \<Rightarrow> bytes \<Rightarrow> 'v option option \<times> shared_db" where
  "delete_entry decd table d key =
     (case fmlookup (db_tables d) (table, key) of
        None \<Rightarrow> (case cache_write id d of (ok, d1) \<Rightarrow> (if ok then Some None else None, d1))
      | Some raw \<Rightarrow>
          (case decd raw of
             None \<Rightarrow> (None, snd (next_txn d))
           | Some v \<Rightarrow>
               (case cache_write (fmdrop (table, key)) d of (ok, d1) \<Rightarrow> (if ok then Some (Some v) else None, d1))))"

text \<open>\<open>merge_entries\<close>: one transaction for the batch.\<close>

definition merge_one :: "('v \<Rightarrow> bytes) \<Rightarrow> (bytes \<Rightarrow> 'v option) \<Rightarrow> bytes \<Rightarrow> ('v \<Rightarrow> 'v \<Rightarrow> 'v) \<Rightarrow> tables \<Rightarrow> bytes \<times> 'v \<Rightarrow> tables" where
  "merge_one enc decd table merge t kv =
     (let existing = Option.bind (fmlookup t (table, fst kv)) decd;
          merged = (case existing of Some current \<Rightarrow> merge current (snd kv) | None \<Rightarrow> snd kv)
      in fmupd (table, fst kv) (enc merged) t)"

definition merge_entries :: "('v \<Rightarrow> bytes) \<Rightarrow> (bytes \<Rightarrow> 'v option) \<Rightarrow> bytes \<Rightarrow> ('v \<Rightarrow> 'v \<Rightarrow> 'v) \<Rightarrow> (bytes \<times> 'v) list \<Rightarrow>
    shared_db \<Rightarrow> bool \<times> shared_db" where
  "merge_entries enc decd table merge items d =
     (if items = [] then (True, d)
      else cache_write (\<lambda>t. foldl (merge_one enc decd table merge) t items) d)"

text \<open>\<open>order\<close> is the order in which \<open>redb\<close> iterates over the keys of a table.\<close>

definition table_keys :: "bytes \<Rightarrow> tables \<Rightarrow> bytes fset" where
  "table_keys table t = snd |`| ffilter (\<lambda>(u, _). u = table) (fmdom t)"

fun decode_entries :: "(bytes \<Rightarrow> 'v option) \<Rightarrow> bytes \<Rightarrow> tables \<Rightarrow> bytes list \<Rightarrow> (bytes \<times> 'v) list option" where
  "decode_entries decd table t [] = Some []"
| "decode_entries decd table t (k # ks) =
     (case Option.bind (fmlookup t (table, k)) decd of
        None \<Rightarrow> None
      | Some v \<Rightarrow> map_option (Cons (k, v)) (decode_entries decd table t ks))"

definition get_all_entries :: "(bytes fset \<Rightarrow> bytes list) \<Rightarrow> (bytes \<Rightarrow> 'v option) \<Rightarrow> bytes \<Rightarrow> shared_db \<Rightarrow>
    (bytes \<times> 'v) list option \<times> shared_db" where
  "get_all_entries order decd table d =
     (case next_txn d of (ok, d1) \<Rightarrow>
        (if ok then decode_entries decd table (db_tables d1) (order (table_keys table (db_tables d1))) else None, d1))"

text \<open>\<open>drain_entries\<close> removes undecodable entries too.\<close>

definition drained_entries :: "(bytes \<Rightarrow> 'v option) \<Rightarrow> bytes \<Rightarrow> tables \<Rightarrow> bytes list \<Rightarrow> (bytes \<times> 'v) list" where
  "drained_entries decd table t ks =
     List.map_filter (\<lambda>k. map_option (Pair k) (Option.bind (fmlookup t (table, k)) decd)) ks"

definition drain_entries :: "(bytes fset \<Rightarrow> bytes list) \<Rightarrow> (bytes \<Rightarrow> 'v option) \<Rightarrow> bytes \<Rightarrow> shared_db \<Rightarrow>
    (bytes \<times> 'v) list option \<times> shared_db" where
  "drain_entries order decd table d =
     (let ks = order (table_keys table (db_tables d));
          entries = drained_entries decd table (db_tables d) ks
      in case cache_write (\<lambda>t. fold (\<lambda>k. fmdrop (table, k)) ks t) d of (ok, d1) \<Rightarrow>
        (if ok then Some entries else None, d1))"

subsection \<open>The expiring cache\<close>

record 'v expiring_value =
  ev_value :: 'v
  ev_expiry :: u64

text \<open>\<open>CacheWithExpire::get\<close>: \<open>None\<close> for an error, else the value and its expiry.\<close>

definition expire_get :: "(bytes \<Rightarrow> 'v expiring_value option) \<Rightarrow> bytes \<Rightarrow> u64 \<Rightarrow> shared_db \<Rightarrow> bytes \<Rightarrow>
    ('v \<times> u64) option option \<times> shared_db" where
  "expire_get decd table now d key =
     (case get_entry decd table d key of
        (None, d1) \<Rightarrow> (None, d1)
      | (Some None, d1) \<Rightarrow> (Some None, d1)
      | (Some (Some ev), d1) \<Rightarrow>
          if ev_expiry ev > now then (Some (Some (ev_value ev, ev_expiry ev)), d1)
          else (case delete_entry decd table d1 key of
                  (None, d2) \<Rightarrow> (None, d2)
                | (Some _, d2) \<Rightarrow> (Some None, d2)))"

definition expire_set :: "('v expiring_value \<Rightarrow> bytes) \<Rightarrow> bytes \<Rightarrow> u64 \<Rightarrow> shared_db \<Rightarrow> bytes \<Rightarrow> 'v \<Rightarrow> u64 \<Rightarrow> bool \<times> shared_db" where
  "expire_set enc table now d key v ttl = set_entry enc table d key \<lparr>ev_value = v, ev_expiry = now + ttl\<rparr>"

definition expire_delete :: "(bytes \<Rightarrow> 'v expiring_value option) \<Rightarrow> bytes \<Rightarrow> shared_db \<Rightarrow> bytes \<Rightarrow> 'v option option \<times> shared_db" where
  "expire_delete decd table d key =
     (case delete_entry decd table d key of (r, d1) \<Rightarrow> (map_option (map_option ev_value) r, d1))"

subsection \<open>The contract of a raw table\<close>

record 'd raw_ops =
  op_get :: "'d \<Rightarrow> bytes \<Rightarrow> bytes option option \<times> 'd"
  op_set :: "'d \<Rightarrow> bytes \<Rightarrow> bytes \<Rightarrow> bool \<times> 'd"
  op_delete :: "'d \<Rightarrow> bytes \<Rightarrow> bool \<times> 'd"

locale raw_store =
  fixes ops :: "'d raw_ops"
    and view :: "'d \<Rightarrow> bytes \<Rightarrow> bytes option"
  assumes get_view: "op_get ops d k = (r, d') \<Longrightarrow> view d' = view d \<and> (r = None \<or> r = Some (view d k))"
    and set_view: "op_set ops d k v = (ok, d') \<Longrightarrow> view d' = (if ok then (view d)(k \<mapsto> v) else view d)"
    and delete_view: "op_delete ops d k = (ok, d') \<Longrightarrow> view d' = (if ok then (view d)(k := None) else view d)"
begin

lemma view_after_set: "op_set ops d k v = (ok, d') \<Longrightarrow> view d' k = Some v \<or> view d' k = view d k"
  by (auto dest!: set_view)

lemma view_other:
  "op_set ops d k v = (ok, d') \<Longrightarrow> j \<noteq> k \<Longrightarrow> view d' j = view d j"
  "op_delete ops d k = (ok, d') \<Longrightarrow> j \<noteq> k \<Longrightarrow> view d' j = view d j"
  by (auto dest!: set_view delete_view)

end

text \<open>The raw table \<open>table\<close> of a shared database satisfies it.\<close>

definition redb_ops :: "bytes \<Rightarrow> shared_db raw_ops" where
  "redb_ops table = \<lparr>op_get = get_raw table, op_set = set_raw table, op_delete = delete_raw table\<rparr>"

definition redb_view :: "bytes \<Rightarrow> shared_db \<Rightarrow> bytes \<Rightarrow> bytes option" where
  "redb_view table d key = fmlookup (db_tables d) (table, key)"

lemma next_txn_tables: "next_txn d = (ok, d') \<Longrightarrow>
    db_tables d' = db_tables d \<and> db_durable d' = db_durable d \<and> db_dirty d' = db_dirty d"
  by (auto simp: next_txn_def split: list.splits)

lemma cache_write_tables: "cache_write f d = (ok, d') \<Longrightarrow>
    db_tables d' = (if ok then f (db_tables d) else db_tables d) \<and> db_durable d' = db_durable d \<and>
    db_dirty d' = (db_dirty d \<or> ok)"
  by (auto simp: cache_write_def dest!: next_txn_tables split: prod.splits if_splits)

interpretation redb_raw: raw_store "redb_ops table" "redb_view table" for table
  by unfold_locales
    (auto simp: redb_ops_def redb_view_def get_raw_def set_raw_def delete_raw_def fun_eq_iff
      dest!: next_txn_tables cache_write_tables split: prod.splits if_splits)

subsection \<open>Durability\<close>

text \<open>A clean database has nothing to lose.\<close>

definition dirty_ok :: "shared_db \<Rightarrow> bool" where
  "dirty_ok d \<longleftrightarrow> db_dirty d \<or> db_durable d = db_tables d"

datatype db_op = OpSet bytes bytes bytes | OpDelete bytes bytes | OpDropTable bytes | OpGet bytes bytes | OpFlush

fun db_exec :: "db_op \<Rightarrow> shared_db \<Rightarrow> shared_db" where
  "db_exec (OpSet t k v) d = snd (set_raw t d k v)"
| "db_exec (OpDelete t k) d = snd (delete_raw t d k)"
| "db_exec (OpDropTable t) d = snd (delete_table t d)"
| "db_exec (OpGet t k) d = snd (get_raw t d k)"
| "db_exec OpFlush d = snd (flush d)"

lemma cache_write_dirty_ok: "dirty_ok d \<Longrightarrow> dirty_ok (snd (cache_write f d))"
  by (cases "cache_write f d") (auto simp: dirty_ok_def dest!: cache_write_tables split: if_splits)

lemma db_exec_dirty_ok: "dirty_ok d \<Longrightarrow> dirty_ok (db_exec op d)"
proof (cases op)
  case OpFlush
  assume "dirty_ok d"
  obtain ok d1 where n: "next_txn (d\<lparr>db_dirty := False\<rparr>) = (ok, d1)" by fastforce
  with next_txn_tables [OF n] \<open>dirty_ok d\<close> show ?thesis
    by (simp add: OpFlush flush_def dirty_ok_def) blast
next
  case (OpGet t k)
  assume "dirty_ok d"
  obtain ok d1 where n: "next_txn d = (ok, d1)" by fastforce
  with next_txn_tables [OF n] \<open>dirty_ok d\<close> show ?thesis by (simp add: OpGet get_raw_def dirty_ok_def)
next
  case (OpDropTable t)
  assume "dirty_ok d"
  with cache_write_dirty_ok [of d "fmfilter (\<lambda>(u, _). u \<noteq> t)"] show ?thesis
    by (simp add: OpDropTable delete_table_def Let_def split_beta)
qed (simp_all add: set_raw_def delete_raw_def cache_write_dirty_ok)

lemma db_run_dirty_ok: "dirty_ok d \<Longrightarrow> dirty_ok (fold db_exec ops d)"
  by (induction ops arbitrary: d) (simp_all add: db_exec_dirty_ok)

lemma flush_durable:
  assumes "dirty_ok d" and "flush d = (True, d')"
  shows "db_durable d' = db_tables d' \<and> db_tables d' = db_tables d"
  using assms by (auto simp: flush_def dirty_ok_def Let_def dest!: next_txn_tables split: if_splits prod.splits)

subsection \<open>Properties\<close>

text \<open>C38. A successful flush loses nothing in a crash: after any sequence of reads, writes,
  deletions, dropped tables and earlier flushes, failed transactions included, a flush that
  reports success leaves a database whose crash recovery is exactly its contents. (Only because
  the dirty mark survives a failed flush and is set by every committed write.)\<close>

theorem flush_makes_durable:
  assumes "flush (fold db_exec ops \<lparr>db_tables = t, db_durable = t, db_dirty = False, db_faults = faults\<rparr>) = (True, d')"
  shows "db_tables (crash d') = db_tables d'"
proof -
  have "dirty_ok (fold db_exec ops \<lparr>db_tables = t, db_durable = t, db_dirty = False, db_faults = faults\<rparr>)"
    by (rule db_run_dirty_ok) (simp add: dirty_ok_def)
  from flush_durable [OF this assms] show ?thesis by (simp add: crash_def)
qed

theorem flush_makes_durable_witness:
  "db_tables (crash (snd (flush (fold db_exec [OpSet [1] [2] [3], OpFlush]
     \<lparr>db_tables = fmempty, db_durable = fmempty, db_dirty = False, db_faults = [False, True]\<rparr>)))) =
   fmupd ([1], [2]) [3] fmempty"
proof -
  let ?d = "fold db_exec [OpSet [1] [2] [3], OpFlush]
     \<lparr>db_tables = fmempty, db_durable = fmempty, db_dirty = False, db_faults = [False, True]\<rparr>"
  have d: "flush ?d = (True, \<lparr>db_tables = fmupd ([1], [2]) [3] fmempty, db_durable = fmupd ([1], [2]) [3] fmempty,
      db_dirty = False, db_faults = []\<rparr>)"
    by (simp add: flush_def set_raw_def cache_write_def next_txn_def)
  from flush_makes_durable [OF d] show ?thesis unfolding d by simp
qed

end
