(* ===== verification/Routing.thy ===== *)
theory Routing
  imports Target_Addr
begin

text \<open>
  Rule parsing, rule matching and outbound selection: \<open>src/src/proxy/router/rule.rs\<close>,
  \<open>src/src/proxy/router.rs\<close> and the router types of \<open>src/src/config/mod.rs\<close>.
  Outbounds, DNS servers and GeoIP matchers are handles, named by their tags. What comes from
  other crates is an argument: CIDR parsing and membership (\<open>ipnet\<close>), the first question of
  a DNS packet (\<open>simple_dns\<close>). What other modules answer is a field of the environment: the
  reverse lookup and fake-IP test of a DNS server, and the GeoIP lookup, which may change a
  state (its cache).
\<close>

subsection \<open>Data\<close>

datatype network_type = Tcp | Udp

datatype router_mode = ModeRule | ModeProxy | ModeDirect

datatype qtype = QA | QAAAA | QOther nat

record rule_config =
  cfg_mode :: "bytes list option"
  cfg_domain :: "bytes list option"
  cfg_domain_suffix :: "bytes list option"
  cfg_inbounds :: "bytes list option"
  cfg_ip_cidr :: "bytes list option"
  cfg_port :: "u16 list option"
  cfg_port_range :: "bytes list option"
  cfg_network :: "bytes list option"
  cfg_protocol :: "bytes list option"
  cfg_query_type :: "bytes list option"
  cfg_outbound :: "bytes option"
  cfg_dns :: "bytes option"
  cfg_geoip :: "bytes list option"
  cfg_reverse :: "bytes option"

record 'net rule =
  r_mode :: "router_mode list option"
  r_domain :: "bytes list option"
  r_domain_suffix :: "bytes list option"
  r_inbounds_tag :: "bytes list option"
  r_ip_cidr :: "'net list option"
  r_port :: "u16 list option"
  r_port_range :: "(u16 \<times> u16) list option"
  r_network :: "network_type list option"
  r_protocol :: "bytes list option"
  r_query_type :: "qtype list option"
  r_dns :: "bytes option"
  r_geoip :: "bytes list"
  r_reverse :: "bytes option"
  r_outbound :: bytes

datatype rule_error =
    UnsupportedNetwork bytes
  | UnsupportedMode bytes
  | InvalidCidr bytes
  | InvalidPortRange bytes
  | UnsupportedQueryType bytes
  | UnknownDns bytes
  | MissingOutbound
  | UnknownOutbound bytes
  | UnknownGeoip bytes

text \<open>The registries \<open>Rule::new\<close> consults, and the CIDR parser.\<close>

record 'net registry =
  parse_cidr :: "bytes \<Rightarrow> 'net option"
  known_dns :: "bytes \<Rightarrow> bool"
  known_outbound :: "bytes \<Rightarrow> bool"
  known_geoip :: "bytes \<Rightarrow> bool"

subsection \<open>Parsing a rule\<close>

text \<open>\<open>to_uppercase\<close>/\<open>to_lowercase\<close> against literals of letters that no non-ASCII character
  maps to, so the comparison is the ASCII one.\<close>

definition parse_network :: "bytes \<Rightarrow> rule_error + network_type" where
  "parse_network t =
     (if eq_ignore_ascii_case t (str ''TCP'') then Inr Tcp
      else if eq_ignore_ascii_case t (str ''UDP'') then Inr Udp
      else Inl (UnsupportedNetwork t))"

definition parse_mode :: "bytes \<Rightarrow> rule_error + router_mode" where
  "parse_mode t =
     (if eq_ignore_ascii_case t (str ''rule'') then Inr ModeRule
      else if eq_ignore_ascii_case t (str ''proxy'') then Inr ModeProxy
      else if eq_ignore_ascii_case t (str ''direct'') then Inr ModeDirect
      else Inl (UnsupportedMode t))"

definition parse_query_type :: "bytes \<Rightarrow> rule_error + qtype" where
  "parse_query_type t =
     (if eq_ignore_ascii_case t (str ''A'') then Inr QA
      else if eq_ignore_ascii_case t (str ''AAAA'') then Inr QAAAA
      else Inl (UnsupportedQueryType t))"

definition parse_port :: "bytes \<Rightarrow> u16 option" where
  "parse_port s = map_option of_nat (parse_uint 65535 (trim s))"

definition parse_port_range :: "bytes \<Rightarrow> rule_error + u16 \<times> u16" where
  "parse_port_range s =
     (case split_once 0x2D s of
        Some (start_s, end_s) \<Rightarrow>
          (case parse_port start_s of None \<Rightarrow> Inl (InvalidPortRange s)
           | Some start \<Rightarrow>
               (case parse_port end_s of None \<Rightarrow> Inl (InvalidPortRange s)
                | Some e \<Rightarrow> if start \<le> e then Inr (start, e) else Inl (InvalidPortRange s)))
      | None \<Rightarrow>
          (case parse_port s of None \<Rightarrow> Inl (InvalidPortRange s) | Some p \<Rightarrow> Inr (p, p)))"

text \<open>\<open>Option::map(..).transpose()?\<close>, and the filter that drops empty lists.\<close>

definition opt_res :: "('a \<Rightarrow> 'e + 'b) \<Rightarrow> 'a option \<Rightarrow> 'e + 'b option" where
  "opt_res f x = (case x of None \<Rightarrow> Inr None | Some a \<Rightarrow> bindr (f a) (\<lambda>b. Inr (Some b)))"

definition non_empty :: "'a list option \<Rightarrow> 'a list option" where
  "non_empty x = (case x of Some [] \<Rightarrow> None | _ \<Rightarrow> x)"

definition check_tag :: "(bytes \<Rightarrow> bool) \<Rightarrow> (bytes \<Rightarrow> rule_error) \<Rightarrow> bytes \<Rightarrow> rule_error + bytes" where
  "check_tag known err tag = (if known tag then Inr tag else Inl (err tag))"

definition rule_new :: "'net registry \<Rightarrow> rule_config \<Rightarrow> rule_error + 'net rule" where
  "rule_new reg cfg =
     bindr (opt_res (map_res parse_network) (cfg_network cfg)) (\<lambda>network.
     bindr (opt_res (map_res parse_mode) (cfg_mode cfg)) (\<lambda>mode.
     bindr (opt_res (map_res (\<lambda>s. case parse_cidr reg s of Some n \<Rightarrow> Inr n | None \<Rightarrow> Inl (InvalidCidr s)))
       (cfg_ip_cidr cfg)) (\<lambda>ip_cidr.
     bindr (opt_res (map_res parse_port_range) (cfg_port_range cfg)) (\<lambda>port_range.
     bindr (opt_res (map_res parse_query_type) (non_empty (cfg_query_type cfg))) (\<lambda>query_type.
     bindr (opt_res (check_tag (known_dns reg) UnknownDns) (cfg_reverse cfg)) (\<lambda>reverse.
     bindr (opt_res (check_tag (known_dns reg) UnknownDns) (cfg_dns cfg)) (\<lambda>dns.
     bindr (case cfg_outbound cfg of None \<Rightarrow> Inl MissingOutbound
            | Some tag \<Rightarrow> check_tag (known_outbound reg) UnknownOutbound tag) (\<lambda>outbound.
     bindr (opt_res (map_res (check_tag (known_geoip reg) UnknownGeoip)) (non_empty (cfg_geoip cfg))) (\<lambda>geoip.
     Inr \<lparr>r_mode = mode, r_domain = non_empty (cfg_domain cfg),
          r_domain_suffix = non_empty (cfg_domain_suffix cfg),
          r_inbounds_tag = non_empty (cfg_inbounds cfg), r_ip_cidr = ip_cidr,
          r_port = non_empty (cfg_port cfg), r_port_range = port_range, r_network = network,
          r_protocol = non_empty (cfg_protocol cfg), r_query_type = query_type, r_dns = dns,
          r_geoip = (case geoip of None \<Rightarrow> [] | Some g \<Rightarrow> g), r_reverse = reverse,
          r_outbound = outbound\<rparr>)))))))))"

subsection \<open>Matching a rule\<close>

text \<open>\<open>rev_dns\<close>: \<open>AnyDNS::reverse\<close>; \<open>fake_ip\<close>: \<open>AnyDNS::is_fakeip\<close>; \<open>geo\<close>: \<open>Geoip::lookup\<close>, \<open>None\<close>
  for an error.\<close>

record ('net, 's) env =
  net_contains :: "'net \<Rightarrow> ip_addr \<Rightarrow> bool"
  rev_dns :: "bytes \<Rightarrow> ip_addr \<Rightarrow> bytes option"
  fake_ip :: "bytes \<Rightarrow> ip_addr \<Rightarrow> bool"
  geo :: "bytes \<Rightarrow> target_addr \<Rightarrow> 's \<Rightarrow> bool option \<times> 's"

definition domain_matches_suffix :: "bytes \<Rightarrow> bytes \<Rightarrow> bool" where
  "domain_matches_suffix domain suffix =
     (if suffix = [] \<or> length domain < length suffix then False
      else
        let start = length domain - length suffix
        in eq_ignore_ascii_case (drop start domain) suffix \<and> (start = 0 \<or> domain ! (start - 1) = 0x2E))"

definition has_some :: "'a list option \<Rightarrow> bool" where
  "has_some x \<longleftrightarrow> (case x of None \<Rightarrow> False | Some xs \<Rightarrow> xs \<noteq> [])"

definition opt_any :: "('a \<Rightarrow> bool) \<Rightarrow> 'a list option \<Rightarrow> bool" where
  "opt_any P x \<longleftrightarrow> (case x of None \<Rightarrow> False | Some xs \<Rightarrow> list_ex P xs)"

text \<open>The loop over the GeoIP matchers: stops at the first hit, skips errors.\<close>

fun geo_any :: "('net, 's) env \<Rightarrow> bytes list \<Rightarrow> target_addr \<Rightarrow> 's \<Rightarrow> bool \<times> 's" where
  "geo_any env [] target s = (False, s)"
| "geo_any env (g # gs) target s =
     (case geo env g target s of
        (Some True, s1) \<Rightarrow> (True, s1)
      | (_, s1) \<Rightarrow> geo_any env gs target s1)"

text \<open>The criteria in the order the code checks them; each is true when the rule is out.\<close>

definition inbound_fails :: "'net rule \<Rightarrow> bytes \<Rightarrow> bool" where
  "inbound_fails r inbound_tag \<longleftrightarrow>
     has_some (r_inbounds_tag r) \<and> \<not> opt_any (\<lambda>t. t = inbound_tag) (r_inbounds_tag r)"

definition protocol_fails :: "'net rule \<Rightarrow> bytes option \<Rightarrow> bool" where
  "protocol_fails r protocol \<longleftrightarrow>
     has_some (r_protocol r) \<and>
     (case protocol of Some p \<Rightarrow> \<not> opt_any (\<lambda>q. q = p) (r_protocol r) | None \<Rightarrow> True)"

definition network_fails :: "'net rule \<Rightarrow> network_type option \<Rightarrow> bool" where
  "network_fails r network \<longleftrightarrow>
     has_some (r_network r) \<and>
     (case network of Some n \<Rightarrow> \<not> opt_any (\<lambda>m. m = n) (r_network r) | None \<Rightarrow> True)"

definition port_fails :: "'net rule \<Rightarrow> target_addr \<Rightarrow> bool" where
  "port_fails r target \<longleftrightarrow>
     (has_some (r_port r) \<or> has_some (r_port_range r)) \<and>
     \<not> (opt_any (\<lambda>p. p = port target) (r_port r) \<or>
         opt_any (\<lambda>(start, e). start \<le> port target \<and> port target \<le> e) (r_port_range r))"

definition domain_fails :: "'net rule \<Rightarrow> target_addr \<Rightarrow> bool" where
  "domain_fails r target \<longleftrightarrow>
     (has_some (r_domain r) \<or> has_some (r_domain_suffix r)) \<and>
     (case target of
        Domain domain _ \<Rightarrow>
          \<not> (opt_any (\<lambda>d. eq_ignore_ascii_case domain d) (r_domain r) \<or>
              opt_any (\<lambda>suffix. domain_matches_suffix domain suffix) (r_domain_suffix r))
      | Ip _ \<Rightarrow> True)"

definition query_type_fails :: "'net rule \<Rightarrow> qtype option \<Rightarrow> bool" where
  "query_type_fails r query_type \<longleftrightarrow>
     (case r_query_type r of None \<Rightarrow> False
      | Some types \<Rightarrow> (case query_type of Some q \<Rightarrow> q \<notin> set types | None \<Rightarrow> True))"

definition cidr_fails :: "('net, 's) env \<Rightarrow> 'net rule \<Rightarrow> target_addr \<Rightarrow> bool" where
  "cidr_fails env r target \<longleftrightarrow>
     has_some (r_ip_cidr r) \<and>
     (case target of
        Ip a \<Rightarrow> \<not> opt_any (\<lambda>c. net_contains env c (sock_ip a)) (r_ip_cidr r)
      | Domain _ _ \<Rightarrow> True)"

definition match_lookups :: "('net, 's) env \<Rightarrow> 'net rule \<Rightarrow> target_addr \<Rightarrow> 's \<Rightarrow> (bool \<times> target_addr option) \<times> 's" where
  "match_lookups env r target s =
     (case r_reverse r of
        Some dns \<Rightarrow>
          (case target of
             Ip a \<Rightarrow>
               (case rev_dns env dns (sock_ip a) of
                  Some domain \<Rightarrow> ((True, Some (Domain domain (sock_port a))), s)
                | None \<Rightarrow> ((False, None), s))
           | Domain _ _ \<Rightarrow> ((False, None), s))
      | None \<Rightarrow>
          if r_geoip r = [] then ((True, None), s)
          else case geo_any env (r_geoip r) target s of
              (hit, s1) \<Rightarrow> (if hit then ((True, None), s1) else ((False, None), s1)))"

definition matches :: "('net, 's) env \<Rightarrow> 'net rule \<Rightarrow> target_addr \<Rightarrow> bytes \<Rightarrow> network_type option \<Rightarrow>
    bytes option \<Rightarrow> qtype option \<Rightarrow> 's \<Rightarrow> (bool \<times> target_addr option) \<times> 's" where
  "matches env r target inbound_tag network protocol query_type s =
     (if inbound_fails r inbound_tag then ((False, None), s)
      else if protocol_fails r protocol then ((False, None), s)
      else if network_fails r network then ((False, None), s)
      else if port_fails r target then ((False, None), s)
      else if domain_fails r target then ((False, None), s)
      else if query_type_fails r query_type then ((False, None), s)
      else if cidr_fails env r target then ((False, None), s)
      else match_lookups env r target s)"

subsection \<open>Selecting the outbound\<close>

definition mode_to_u8 :: "router_mode \<Rightarrow> u8" where
  "mode_to_u8 m = (case m of ModeRule \<Rightarrow> 0 | ModeProxy \<Rightarrow> 1 | ModeDirect \<Rightarrow> 2)"


record 'net router =
  rt_mode :: u8
  rt_default_outbound :: bytes
  rt_rules :: "'net rule list"


definition set_mode :: "router_mode \<Rightarrow> 'net router \<Rightarrow> 'net router" where
  "set_mode m rt = rt\<lparr>rt_mode := mode_to_u8 m\<rparr>"

definition router_new :: "'net registry \<Rightarrow> router_mode \<Rightarrow> rule_config list \<Rightarrow> bytes option \<Rightarrow> rule_error + 'net router" where
  "router_new reg default_mode cfgs default_outbound =
     bindr (map_res (rule_new reg) cfgs) (\<lambda>rules.
     case default_outbound of None \<Rightarrow> Inl MissingOutbound
     | Some o1 \<Rightarrow> Inr \<lparr>rt_mode = mode_to_u8 default_mode, rt_default_outbound = o1, rt_rules = rules\<rparr>)"










subsection \<open>Forwarding UDP packets\<close>

text \<open>The address translation of \<open>forward_udp_inbound_once\<close> and \<open>forward_udp_outbound_once\<close>, and
  what one batch makes the other side send (destination or source, and payload). \<open>ok\<close> says
  which sends succeed; the first failing send ends the batch.\<close>

definition nat_out :: "target_addr \<Rightarrow> target_addr \<Rightarrow> target_addr \<Rightarrow> target_addr" where
  "nat_out original final target = (if target = original then final else target)"

definition nat_in :: "target_addr \<Rightarrow> target_addr \<Rightarrow> target_addr \<Rightarrow> target_addr" where
  "nat_in original final from = (if from = final then original else from)"

fun forward_udp_inbound_once :: "(target_addr \<Rightarrow> bytes \<Rightarrow> bool) \<Rightarrow> target_addr \<Rightarrow> target_addr \<Rightarrow>
    (target_addr \<times> target_addr \<times> bytes) list \<Rightarrow> (target_addr \<times> bytes) list \<times> bool" where
  "forward_udp_inbound_once ok original final [] = ([], True)"
| "forward_udp_inbound_once ok original final ((from, target, buf) # ps) =
     (let t = nat_out original final target in
      if ok t buf then
        (case forward_udp_inbound_once ok original final ps of (sent, r) \<Rightarrow> ((t, buf) # sent, r))
      else ([], False))"

fun forward_udp_outbound_once :: "(target_addr \<Rightarrow> bytes \<Rightarrow> bool) \<Rightarrow> target_addr \<Rightarrow> target_addr \<Rightarrow>
    (target_addr \<times> target_addr \<times> bytes) list \<Rightarrow> (target_addr \<times> bytes) list \<times> bool" where
  "forward_udp_outbound_once ok original final [] = ([], True)"
| "forward_udp_outbound_once ok original final ((from, target, buf) # ps) =
     (let f = nat_in original final from in
      if ok f buf then
        (case forward_udp_outbound_once ok original final ps of (sent, r) \<Rightarrow> ((f, buf) # sent, r))
      else ([], False))"

subsection \<open>Domain suffixes\<close>

lemma eq_ignore_ascii_case_append:
  "length xs = length ys \<Longrightarrow>
     eq_ignore_ascii_case (xs @ us) (ys @ vs) \<longleftrightarrow> eq_ignore_ascii_case xs ys \<and> eq_ignore_ascii_case us vs"
  by (auto simp: eq_ignore_ascii_case_def)

lemma domain_matches_suffix_iff:
  "domain_matches_suffix domain suffix \<longleftrightarrow>
     suffix \<noteq> [] \<and>
     (eq_ignore_ascii_case domain suffix \<or>
      (\<exists>sub tail. domain = sub @ [0x2E] @ tail \<and> eq_ignore_ascii_case tail suffix))"
proof (cases "suffix = [] \<or> length domain < length suffix")
  case True
  then show ?thesis
    by (auto simp: domain_matches_suffix_def dest!: eq_ignore_ascii_case_length)
next
  case False
  define start where "start = length domain - length suffix"
  have split: "domain = take start domain @ drop start domain" by simp
  have d: "length (drop start domain) = length suffix" using False by (simp add: start_def)
  show ?thesis
  proof (cases "start = 0")
    case True
    then have len: "length domain = length suffix" using False by (simp add: start_def)
    have "\<not> (\<exists>sub tail. domain = sub @ [0x2E] @ tail \<and> eq_ignore_ascii_case tail suffix)"
      using len by (auto dest!: eq_ignore_ascii_case_length)
    with True False show ?thesis by (auto simp: domain_matches_suffix_def Let_def start_def)
  next
    case start: False
    have ne: "\<not> eq_ignore_ascii_case domain suffix"
      using start by (auto simp: start_def dest!: eq_ignore_ascii_case_length)
    have "(\<exists>sub tail. domain = sub @ [0x2E] @ tail \<and> eq_ignore_ascii_case tail suffix) \<longleftrightarrow>
        eq_ignore_ascii_case (drop start domain) suffix \<and> domain ! (start - 1) = 0x2E"
    proof
      assume "\<exists>sub tail. domain = sub @ [0x2E] @ tail \<and> eq_ignore_ascii_case tail suffix"
      then obtain sub tail where t: "domain = sub @ [0x2E] @ tail" "eq_ignore_ascii_case tail suffix" by blast
      from eq_ignore_ascii_case_length [OF t(2)] t(1) have "start = Suc (length sub)" by (simp add: start_def)
      with t show "eq_ignore_ascii_case (drop start domain) suffix \<and> domain ! (start - 1) = 0x2E"
        by (simp add: nth_append)
    next
      assume r: "eq_ignore_ascii_case (drop start domain) suffix \<and> domain ! (start - 1) = 0x2E"
      have "start - 1 < length domain" using start False by (simp add: start_def)
      then have "domain = take (start - 1) domain @ [domain ! (start - 1)] @ drop start domain"
        using start by (metis Cons_nth_drop_Suc Suc_diff_1 append_Cons append_Nil append_take_drop_id bot_nat_0.not_eq_extremum)
      with r show "\<exists>sub tail. domain = sub @ [0x2E] @ tail \<and> eq_ignore_ascii_case tail suffix" by metis
    qed
    with ne False start show ?thesis
      by (simp add: domain_matches_suffix_def Let_def start_def [symmetric])
  qed
qed

subsection \<open>Parsed rules are well-formed\<close>

definition rule_wf :: "'net registry \<Rightarrow> 'net rule \<Rightarrow> bool" where
  "rule_wf reg r \<longleftrightarrow>
     (\<forall>rs. r_port_range r = Some rs \<longrightarrow> (\<forall>(a, b) \<in> set rs. a \<le> b)) \<and>
     r_domain r \<noteq> Some [] \<and> r_domain_suffix r \<noteq> Some [] \<and> r_inbounds_tag r \<noteq> Some [] \<and>
     r_port r \<noteq> Some [] \<and> r_protocol r \<noteq> Some [] \<and> r_query_type r \<noteq> Some [] \<and>
     known_outbound reg (r_outbound r) \<and> list_all (known_geoip reg) (r_geoip r) \<and>
     pred_option (known_dns reg) (r_dns r) \<and> pred_option (known_dns reg) (r_reverse r)"

lemma non_empty_Some: "non_empty x \<noteq> Some []"
  by (auto simp: non_empty_def split: option.split list.split)

lemma opt_res_Inr_iff: "opt_res f x = Inr y \<longleftrightarrow> (case x of None \<Rightarrow> y = None | Some a \<Rightarrow> \<exists>b. f a = Inr b \<and> y = Some b)"
  by (auto simp: opt_res_def bindr_Inr_iff split: option.split)

lemma check_tag_Inr_iff: "check_tag known err tag = Inr t \<longleftrightarrow> t = tag \<and> known tag"
  by (auto simp: check_tag_def)

lemma parse_port_range_le: "parse_port_range s = Inr (a, b) \<Longrightarrow> a \<le> b"
  by (auto simp: parse_port_range_def split: option.splits if_splits prod.splits)

lemma opt_check_tag: "opt_res (check_tag known err) x = Inr y \<Longrightarrow> pred_option known y"
  by (auto simp: opt_res_Inr_iff check_tag_Inr_iff split: option.splits)

lemma map_check_tag: "map_res (check_tag known err) xs = Inr ys \<Longrightarrow> list_all known ys"
  by (auto simp: map_res_Inr_iff check_tag_Inr_iff list_all2_conv_all_nth list_all_length)

lemma rule_new_wf:
  assumes "rule_new reg cfg = Inr r"
  shows "rule_wf reg r"
proof -
  from assms [unfolded rule_new_def bindr_Inr_iff] obtain network mode ip_cidr pr qt rv dn ob g where
    pr: "opt_res (map_res parse_port_range) (cfg_port_range cfg) = Inr pr"
    and qt: "opt_res (map_res parse_query_type) (non_empty (cfg_query_type cfg)) = Inr qt"
    and rv: "opt_res (check_tag (known_dns reg) UnknownDns) (cfg_reverse cfg) = Inr rv"
    and dn: "opt_res (check_tag (known_dns reg) UnknownDns) (cfg_dns cfg) = Inr dn"
    and ob: "(case cfg_outbound cfg of None \<Rightarrow> Inl MissingOutbound
            | Some tag \<Rightarrow> check_tag (known_outbound reg) UnknownOutbound tag) = Inr ob"
    and g: "opt_res (map_res (check_tag (known_geoip reg) UnknownGeoip)) (non_empty (cfg_geoip cfg)) = Inr g"
    and r: "r = \<lparr>r_mode = mode, r_domain = non_empty (cfg_domain cfg),
          r_domain_suffix = non_empty (cfg_domain_suffix cfg),
          r_inbounds_tag = non_empty (cfg_inbounds cfg), r_ip_cidr = ip_cidr,
          r_port = non_empty (cfg_port cfg), r_port_range = pr, r_network = network,
          r_protocol = non_empty (cfg_protocol cfg), r_query_type = qt, r_dns = dn,
          r_geoip = (case g of None \<Rightarrow> [] | Some g \<Rightarrow> g), r_reverse = rv, r_outbound = ob\<rparr>"
    by (elim exE conjE) (rule that, assumption+, rule sym, erule Inr_inject)
  have 1: "\<forall>rs. r_port_range r = Some rs \<longrightarrow> (\<forall>(a, b) \<in> set rs. a \<le> b)"
    using pr by (fastforce simp: r opt_res_Inr_iff map_res_Inr_iff list_all2_conv_all_nth in_set_conv_nth
        dest: parse_port_range_le split: option.splits)
  have 2: "r_query_type r \<noteq> Some []"
    using qt non_empty_Some [of "cfg_query_type cfg"]
    by (auto simp: r opt_res_Inr_iff map_res_Inr_iff split: option.splits)
  have 3: "list_all (known_geoip reg) (r_geoip r)"
    using g by (auto simp: r opt_res_Inr_iff dest: map_check_tag split: option.splits)
  have 4: "known_outbound reg (r_outbound r)"
    using ob by (simp add: r check_tag_Inr_iff split: option.splits)
  have 5: "pred_option (known_dns reg) (r_dns r)" "pred_option (known_dns reg) (r_reverse r)"
    using opt_check_tag [OF dn] opt_check_tag [OF rv] by (simp_all add: r)
  have 6: "r_domain r \<noteq> Some []" "r_domain_suffix r \<noteq> Some []" "r_inbounds_tag r \<noteq> Some []"
      "r_port r \<noteq> Some []" "r_protocol r \<noteq> Some []"
    by (simp_all add: r non_empty_Some)
  show ?thesis unfolding rule_wf_def using 1 2 3 4 5 6 by blast
qed

subsection \<open>First match\<close>










subsection \<open>Properties\<close>


definition plain_rule :: "bytes \<Rightarrow> unit rule" where
  "plain_rule out = \<lparr>r_mode = None, r_domain = None, r_domain_suffix = None, r_inbounds_tag = None,
     r_ip_cidr = None, r_port = None, r_port_range = None, r_network = None, r_protocol = None,
     r_query_type = None, r_dns = None, r_geoip = [], r_reverse = None, r_outbound = out\<rparr>"


text \<open>What a rule matches. Every configured criterion must hold and the alternatives inside one
  criterion are or-ed; ports and port ranges form one criterion, as do domains and domain
  suffixes; absent or empty lists are ignored; domain criteria never match an IP target and CIDR
  criteria never match a domain. A reverse-DNS rule then needs an IP target with a reverse name;
  otherwise one of the GeoIP matchers must hit, if there are any.\<close>

theorem matches_semantics:
  "fst (fst (matches env r target tag network protocol qt s)) \<longleftrightarrow>
     (case r_inbounds_tag r of None \<Rightarrow> True | Some xs \<Rightarrow> xs = [] \<or> tag \<in> set xs) \<and>
     (case r_protocol r of None \<Rightarrow> True | Some xs \<Rightarrow> xs = [] \<or> (\<exists>p. protocol = Some p \<and> p \<in> set xs)) \<and>
     (case r_network r of None \<Rightarrow> True | Some xs \<Rightarrow> xs = [] \<or> (\<exists>n. network = Some n \<and> n \<in> set xs)) \<and>
     (r_port r \<in> {None, Some []} \<and> r_port_range r \<in> {None, Some []} \<or>
      (\<exists>ps. r_port r = Some ps \<and> port target \<in> set ps) \<or>
      (\<exists>rs a b. r_port_range r = Some rs \<and> (a, b) \<in> set rs \<and> a \<le> port target \<and> port target \<le> b)) \<and>
     (r_domain r \<in> {None, Some []} \<and> r_domain_suffix r \<in> {None, Some []} \<or>
      (\<exists>d p. target = Domain d p \<and>
        ((\<exists>ds x. r_domain r = Some ds \<and> x \<in> set ds \<and> eq_ignore_ascii_case d x) \<or>
         (\<exists>ss x. r_domain_suffix r = Some ss \<and> x \<in> set ss \<and> domain_matches_suffix d x)))) \<and>
     (case r_query_type r of None \<Rightarrow> True | Some ts \<Rightarrow> \<exists>q. qt = Some q \<and> q \<in> set ts) \<and>
     (r_ip_cidr r \<in> {None, Some []} \<or>
      (\<exists>cs a c. r_ip_cidr r = Some cs \<and> target = Ip a \<and> c \<in> set cs \<and> net_contains env c (sock_ip a))) \<and>
     (case r_reverse r of
        Some dns \<Rightarrow> \<exists>a d. target = Ip a \<and> rev_dns env dns (sock_ip a) = Some d
      | None \<Rightarrow> r_geoip r = [] \<or> fst (geo_any env (r_geoip r) target s))"
proof -
  have 1: "\<not> inbound_fails r tag \<longleftrightarrow> (case r_inbounds_tag r of None \<Rightarrow> True | Some xs \<Rightarrow> xs = [] \<or> tag \<in> set xs)"
    by (auto simp: inbound_fails_def has_some_def opt_any_def list_ex_iff split: option.split)
  have 2: "\<not> protocol_fails r protocol \<longleftrightarrow>
      (case r_protocol r of None \<Rightarrow> True | Some xs \<Rightarrow> xs = [] \<or> (\<exists>p. protocol = Some p \<and> p \<in> set xs))"
    by (auto simp: protocol_fails_def has_some_def opt_any_def list_ex_iff split: option.split)
  have 3: "\<not> network_fails r network \<longleftrightarrow>
      (case r_network r of None \<Rightarrow> True | Some xs \<Rightarrow> xs = [] \<or> (\<exists>n. network = Some n \<and> n \<in> set xs))"
    by (auto simp: network_fails_def has_some_def opt_any_def list_ex_iff split: option.split)
  have 4: "\<not> port_fails r target \<longleftrightarrow>
      (r_port r \<in> {None, Some []} \<and> r_port_range r \<in> {None, Some []} \<or>
       (\<exists>ps. r_port r = Some ps \<and> port target \<in> set ps) \<or>
       (\<exists>rs a b. r_port_range r = Some rs \<and> (a, b) \<in> set rs \<and> a \<le> port target \<and> port target \<le> b))"
    by (cases "r_port r"; cases "r_port_range r")
      (auto simp: port_fails_def has_some_def opt_any_def list_ex_iff)
  have 5: "\<not> domain_fails r target \<longleftrightarrow>
      (r_domain r \<in> {None, Some []} \<and> r_domain_suffix r \<in> {None, Some []} \<or>
       (\<exists>d p. target = Domain d p \<and>
         ((\<exists>ds x. r_domain r = Some ds \<and> x \<in> set ds \<and> eq_ignore_ascii_case d x) \<or>
          (\<exists>ss x. r_domain_suffix r = Some ss \<and> x \<in> set ss \<and> domain_matches_suffix d x))))"
    by (cases "r_domain r"; cases "r_domain_suffix r"; cases target)
      (auto simp: domain_fails_def has_some_def opt_any_def list_ex_iff)
  have 6: "\<not> query_type_fails r qt \<longleftrightarrow> (case r_query_type r of None \<Rightarrow> True | Some ts \<Rightarrow> \<exists>q. qt = Some q \<and> q \<in> set ts)"
    by (auto simp: query_type_fails_def split: option.split)
  have 7: "\<not> cidr_fails env r target \<longleftrightarrow> (r_ip_cidr r \<in> {None, Some []} \<or>
      (\<exists>cs a c. r_ip_cidr r = Some cs \<and> target = Ip a \<and> c \<in> set cs \<and> net_contains env c (sock_ip a)))"
    by (cases "r_ip_cidr r"; cases target) (auto simp: cidr_fails_def has_some_def opt_any_def list_ex_iff)
  have 8: "fst (fst (match_lookups env r target s)) \<longleftrightarrow>
      (case r_reverse r of Some dns \<Rightarrow> \<exists>a d. target = Ip a \<and> rev_dns env dns (sock_ip a) = Some d
       | None \<Rightarrow> r_geoip r = [] \<or> fst (geo_any env (r_geoip r) target s))"
    by (auto simp: match_lookups_def split: option.split target_addr.split prod.split)
  show ?thesis
    unfolding 1 [symmetric] 2 [symmetric] 3 [symmetric] 4 [symmetric] 5 [symmetric] 6 [symmetric]
      7 [symmetric] 8 [symmetric] matches_def by simp
qed

text \<open>A domain suffix matches the domain itself and its subdomains, case-insensitively, and
  nothing else: a longer domain must have a dot right before the suffix.\<close>

theorem domain_suffix_semantics:
  "domain_matches_suffix domain suffix \<longleftrightarrow>
     suffix \<noteq> [] \<and>
     (eq_ignore_ascii_case domain suffix \<or>
      (\<exists>sub tail. domain = sub @ [0x2E] @ tail \<and> eq_ignore_ascii_case tail suffix))"
  by (rule domain_matches_suffix_iff)

text \<open>A rule that parses is well-formed: port ranges are ordered, no list criterion that should
  have been dropped for being empty is left, and every outbound, DNS and GeoIP tag it names is
  registered.\<close>

theorem parsed_rule_wf:
  assumes "rule_new reg cfg = Inr r"
  shows "rule_wf reg r"
  using assms by (rule rule_new_wf)

theorem parsed_rule_wf_witness:
  "rule_wf \<lparr>parse_cidr = \<lambda>_. None :: unit option, known_dns = \<lambda>_. False, known_outbound = \<lambda>t. t = [1], known_geoip = \<lambda>_. False\<rparr>
     ((plain_rule [1])\<lparr>r_port := Some [80], r_network := Some [Tcp]\<rparr>)"
  by (rule parsed_rule_wf [where cfg = "\<lparr>cfg_mode = None, cfg_domain = Some [], cfg_domain_suffix = None,
        cfg_inbounds = None, cfg_ip_cidr = None, cfg_port = Some [80], cfg_port_range = None,
        cfg_network = Some [str ''tcp''], cfg_protocol = None, cfg_query_type = Some [], cfg_outbound = Some [1],
        cfg_dns = None, cfg_geoip = None, cfg_reverse = None\<rparr>"])
    (simp add: rule_new_def opt_res_def parse_network_def eq_ignore_ascii_case_def to_ascii_lower_def
      check_tag_def non_empty_def plain_rule_def)

text \<open>In a rule with a reverse-DNS criterion the GeoIP list is dead: changing it never changes
  the outcome of matching.\<close>

theorem reverse_shadows_geoip:
  assumes "r_reverse r = Some dns"
  shows "matches env (r\<lparr>r_geoip := gs\<rparr>) target tag network protocol qt s =
    matches env r target tag network protocol qt s"
  using assms
  by (cases target; cases protocol; cases network; cases "r_query_type r")
    (simp_all add: matches_def match_lookups_def inbound_fails_def protocol_fails_def network_fails_def
      port_fails_def domain_fails_def query_type_fails_def cidr_fails_def)

theorem reverse_shadows_geoip_witness:
  "matches \<lparr>net_contains = \<lambda>_ _. False, rev_dns = \<lambda>_ _. Some [97], fake_ip = \<lambda>_ _. False, geo = \<lambda>_ _ s. (Some False, s)\<rparr>
      ((plain_rule [2])\<lparr>r_reverse := Some [5], r_geoip := [[6]]\<rparr>) (Ip (SockV4 1 53)) [] None None None () =
    matches \<lparr>net_contains = \<lambda>_ _. False, rev_dns = \<lambda>_ _. Some [97], fake_ip = \<lambda>_ _. False, geo = \<lambda>_ _ s. (Some False, s)\<rparr>
      ((plain_rule [2])\<lparr>r_reverse := Some [5]\<rparr>) (Ip (SockV4 1 53)) [] None None None ()"
  by (rule reverse_shadows_geoip) simp

lemma nat_in_out:
  "nat_in original final (nat_out original final t) = (if t = final then original else t)"
  by (auto simp: nat_in_def nat_out_def)

end
