(* ===== verification/Dns_Cache.thy ===== *)
theory Dns_Cache
  imports Redb_Store Routing
begin

text \<open>
  The DNS response cache of \<open>src/src/dns/cache.rs\<close> (a bounded map in memory in front of a raw
  table, and the sharing of in-flight queries) and the TTL handling of \<open>src/src/dns/mod.rs\<close>.
  Time is the 64-bit Unix second counter \<open>now\<close>; the raw table is any implementation of the
  operations of theory Redb_Store, used through the locale \<open>raw_store\<close>. DNS packets are
  parsed and built by another crate: the TTL functions work on the records of the three
  sections.
\<close>

abbreviation (input) MEMORY_ENTRIES :: nat where "MEMORY_ENTRIES \<equiv> 2048"
abbreviation (input) EXPIRY_LEN :: nat where "EXPIRY_LEN \<equiv> 8"

record entry =
  en_response :: bytes
  en_expiry :: u64

type_synonym memory = "(bytes, entry) fmap"

record 'd dns_cache =
  dc_memory :: memory
  dc_disk :: 'd

definition remember :: "memory \<Rightarrow> bytes \<Rightarrow> bytes \<Rightarrow> u64 \<Rightarrow> u64 \<Rightarrow> memory" where
  "remember m key response expiry now =
     (let m1 =
        (if hm_len m \<ge> MEMORY_ENTRIES \<and> key |\<notin>| fmdom m then
           let m2 = hm_retain (\<lambda>_ e. en_expiry e > now) m
           in if hm_len m2 \<ge> MEMORY_ENTRIES then fmempty else m2
         else m)
      in fmupd key \<lparr>en_response = response, en_expiry = expiry\<rparr> m1)"

definition remove_if :: "('v \<Rightarrow> bool) \<Rightarrow> 'k \<Rightarrow> ('k, 'v) fmap \<Rightarrow> ('k, 'v) fmap" where
  "remove_if P k m = (case fmlookup m k of Some v \<Rightarrow> if P v then fmdrop k m else m | None \<Rightarrow> m)"

text \<open>The part of \<open>DnsCache::get\<close> after a miss in memory.\<close>

definition dns_get_disk :: "'d raw_ops \<Rightarrow> u64 \<Rightarrow> 'd dns_cache \<Rightarrow> bytes \<Rightarrow> (bytes \<times> u64) option \<times> 'd dns_cache" where
  "dns_get_disk ops now c key =
     (let m = remove_if (\<lambda>e. en_expiry e \<le> now) key (dc_memory c) in
      case op_get ops (dc_disk c) key of
        (Some (Some raw), d) \<Rightarrow>
          if length raw > EXPIRY_LEN then
            let expiry = from_be (take EXPIRY_LEN raw) in
            if expiry > now then
              let response = drop EXPIRY_LEN raw
              in (Some (response, expiry),
                  \<lparr>dc_memory = remember m key response expiry now, dc_disk = d\<rparr>)
            else (None, \<lparr>dc_memory = m, dc_disk = snd (op_delete ops d key)\<rparr>)
          else (None, \<lparr>dc_memory = m, dc_disk = snd (op_delete ops d key)\<rparr>)
      | (_, d) \<Rightarrow> (None, \<lparr>dc_memory = m, dc_disk = d\<rparr>))"

definition dns_get :: "'d raw_ops \<Rightarrow> u64 \<Rightarrow> 'd dns_cache \<Rightarrow> bytes \<Rightarrow> (bytes \<times> u64) option \<times> 'd dns_cache" where
  "dns_get ops now c key =
     (case fmlookup (dc_memory c) key of
        Some e \<Rightarrow> if en_expiry e > now then (Some (en_response e, en_expiry e), c)
                   else dns_get_disk ops now c key
      | None \<Rightarrow> dns_get_disk ops now c key)"

definition dns_set :: "'d raw_ops \<Rightarrow> u64 \<Rightarrow> 'd dns_cache \<Rightarrow> bytes \<Rightarrow> bytes \<Rightarrow> u64 \<Rightarrow> bool \<times> 'd dns_cache" where
  "dns_set ops now c key response ttl =
     (let expiry = now + ttl;
          m = remember (dc_memory c) key response expiry now
      in case op_set ops (dc_disk c) key (to_be EXPIRY_LEN expiry @ response) of
           (ok, d) \<Rightarrow> (ok, \<lparr>dc_memory = m, dc_disk = d\<rparr>))"

definition dns_remove :: "'d raw_ops \<Rightarrow> 'd dns_cache \<Rightarrow> bytes \<Rightarrow> 'd dns_cache" where
  "dns_remove ops c key =
     \<lparr>dc_memory = fmdrop key (dc_memory c), dc_disk = snd (op_delete ops (dc_disk c) key)\<rparr>"

subsection \<open>Sharing in-flight queries\<close>

text \<open>A watch channel: its value, and whether its sender is alive. Channels are numbered in the
  order of their creation; \<open>fl_inflight\<close> is \<open>DnsCache::inflight\<close>.\<close>

type_synonym outcome = "bytes + bytes"

record watch =
  wa_value :: "outcome option"
  wa_open :: bool

record flights =
  fl_inflight :: "(bytes, nat) fmap"
  fl_chans :: "watch list"

datatype flight = Leader nat | Follower nat

definition join_flight :: "bytes \<Rightarrow> flights \<Rightarrow> flight \<times> flights" where
  "join_flight key fl =
     (case fmlookup (fl_inflight fl) key of
        Some c \<Rightarrow> (Follower c, fl)
      | None \<Rightarrow>
          (Leader (length (fl_chans fl)),
           \<lparr>fl_inflight = fmupd key (length (fl_chans fl)) (fl_inflight fl),
            fl_chans = fl_chans fl @ [\<lparr>wa_value = None, wa_open = True\<rparr>]\<rparr>))"

text \<open>\<open>FlightLeader::finish\<close>; the sender is dropped after sending.\<close>

definition finish_flight :: "bytes \<Rightarrow> outcome \<Rightarrow> flights \<Rightarrow> flights" where
  "finish_flight key o1 fl =
     (case fmlookup (fl_inflight fl) key of
        Some c \<Rightarrow> \<lparr>fl_inflight = fmdrop key (fl_inflight fl),
                    fl_chans = (fl_chans fl)[c := \<lparr>wa_value = Some o1, wa_open = False\<rparr>]\<rparr>
      | None \<Rightarrow> fl)"

text \<open>\<open>Drop for FlightLeader\<close>.\<close>

definition drop_flight :: "bytes \<Rightarrow> flights \<Rightarrow> flights" where
  "drop_flight key fl =
     (case fmlookup (fl_inflight fl) key of
        Some c \<Rightarrow> \<lparr>fl_inflight = fmdrop key (fl_inflight fl),
                    fl_chans = (fl_chans fl)[c := (fl_chans fl ! c)\<lparr>wa_open := False\<rparr>]\<rparr>
      | None \<Rightarrow> fl)"

datatype follow_poll = FollowPending | FollowReady "outcome option"

text \<open>One poll of \<open>follow\<close>: \<open>wait_for(Option::is_some)\<close> fails when the sender is gone.\<close>

definition follow :: "nat \<Rightarrow> flights \<Rightarrow> follow_poll" where
  "follow c fl =
     (case wa_value (fl_chans fl ! c) of
        Some o1 \<Rightarrow> FollowReady (Some o1)
      | None \<Rightarrow> if wa_open (fl_chans fl ! c) then FollowPending else FollowReady None)"

text \<open>The callers: the set of live leaders, each a key and its channel. A leader either finishes
  or is dropped; anyone may join at any time.\<close>

inductive flight_step :: "flights \<times> (bytes \<times> nat) set \<Rightarrow> flights \<times> (bytes \<times> nat) set \<Rightarrow> bool" where
  lead: "join_flight key fl = (Leader c, fl') \<Longrightarrow> flight_step (fl, L) (fl', insert (key, c) L)"
| foll: "join_flight key fl = (Follower c, fl') \<Longrightarrow> flight_step (fl, L) (fl', L)"
| fin: "(key, c) \<in> L \<Longrightarrow> flight_step (fl, L) (finish_flight key o1 fl, L - {(key, c)})"
| dropped: "(key, c) \<in> L \<Longrightarrow> flight_step (fl, L) (drop_flight key fl, L - {(key, c)})"

inductive_cases flight_stepE: "flight_step (fl, L) (fl', L')"

definition no_flights :: flights where
  "no_flights = \<lparr>fl_inflight = fmempty, fl_chans = []\<rparr>"

subsection \<open>Record lifetimes\<close>

record dns_record =
  dr_data :: bytes
  dr_ttl :: u32

record dns_packet =
  pk_answers :: "dns_record list"
  pk_name_servers :: "dns_record list"
  pk_additional :: "dns_record list"

definition clamp_ttl :: "u64 option \<Rightarrow> u64 option \<Rightarrow> u32 \<Rightarrow> u32" where
  "clamp_ttl min_ttl max_ttl ttl =
     (let t1 = (case min_ttl of Some m \<Rightarrow> if ttl < ucast m then ucast m else ttl | None \<Rightarrow> ttl)
      in (case max_ttl of Some m \<Rightarrow> if t1 > ucast m then ucast m else t1 | None \<Rightarrow> t1))"

fun clamp_records :: "u64 option \<Rightarrow> u64 option \<Rightarrow> dns_record list \<Rightarrow> u32 option \<Rightarrow> dns_record list \<times> u32 option" where
  "clamp_records mn mx [] acc = ([], acc)"
| "clamp_records mn mx (r # rs) acc =
     (let t = clamp_ttl mn mx (dr_ttl r);
          acc' = Some (case acc of None \<Rightarrow> t | Some current \<Rightarrow> min current t)
      in (case clamp_records mn mx rs acc' of (rs', a) \<Rightarrow> (r\<lparr>dr_ttl := t\<rparr> # rs', a)))"

definition apply_ttl_to_response :: "dns_packet \<Rightarrow> u64 option \<Rightarrow> u64 option \<Rightarrow> u32 option \<times> dns_packet" where
  "apply_ttl_to_response p mn mx =
     (case clamp_records mn mx (pk_answers p) None of (an, a1) \<Rightarrow>
      case clamp_records mn mx (pk_name_servers p) a1 of (ns, a2) \<Rightarrow>
      case clamp_records mn mx (pk_additional p) a2 of (ad, a3) \<Rightarrow>
        (a3, \<lparr>pk_answers = an, pk_name_servers = ns, pk_additional = ad\<rparr>))"

definition cap_records :: "u32 \<Rightarrow> dns_record list \<Rightarrow> dns_record list" where
  "cap_records remaining rs = map (\<lambda>r. r\<lparr>dr_ttl := min (dr_ttl r) remaining\<rparr>) rs"

definition cap_record_ttls :: "dns_packet \<Rightarrow> u32 \<Rightarrow> dns_packet" where
  "cap_record_ttls p remaining =
     \<lparr>pk_answers = cap_records remaining (pk_answers p),
      pk_name_servers = cap_records remaining (pk_name_servers p),
      pk_additional = cap_records remaining (pk_additional p)\<rparr>"

definition pk_records :: "dns_packet \<Rightarrow> dns_record list" where
  "pk_records p = pk_answers p @ pk_name_servers p @ pk_additional p"

text \<open>\<open>cached_response\<close>: \<open>parse\<close> reads a stored response; \<open>now'\<close> is the clock when the remaining
  time is computed. \<open>Inl\<close> is the parse error.\<close>

definition cached_response :: "'d raw_ops \<Rightarrow> (bytes \<Rightarrow> dns_packet option) \<Rightarrow> u64 \<Rightarrow> u64 \<Rightarrow> 'd dns_cache \<Rightarrow> bytes \<Rightarrow>
    (unit + dns_packet option) \<times> 'd dns_cache" where
  "cached_response ops parse now now' c key =
     (case dns_get ops now c key of
        (None, c1) \<Rightarrow> (Inr None, c1)
      | (Some (cached, expiry), c1) \<Rightarrow>
          let remaining = (if expiry > now' then expiry - now' else 0) in
          (case parse cached of
             None \<Rightarrow> (Inl (), c1)
           | Some p \<Rightarrow> (Inr (Some (cap_record_ttls p (ucast (min remaining 0xFFFFFFFF)))), c1)))"

text \<open>\<open>exchange_and_store\<close> after the upstream answer \<open>resp\<close>: limit the TTLs, store unless the
  smallest is zero. \<open>build\<close> serialises a packet; \<open>None\<close> is its error.\<close>

definition store_response :: "'d raw_ops \<Rightarrow> (dns_packet \<Rightarrow> bytes option) \<Rightarrow> u64 option \<Rightarrow> u64 option \<Rightarrow> u64 \<Rightarrow>
    'd dns_cache \<Rightarrow> bytes \<Rightarrow> dns_packet \<Rightarrow> dns_packet option \<times> 'd dns_cache" where
  "store_response ops build mn mx now c key resp =
     (case apply_ttl_to_response resp mn mx of (min_ttl, p) \<Rightarrow>
      case min_ttl of
        None \<Rightarrow> (Some p, c)
      | Some t \<Rightarrow>
          if t > 0 then
            (case build p of
               None \<Rightarrow> (None, c)
             | Some raw \<Rightarrow> (Some p, snd (dns_set ops now c key raw (ucast t))))
          else (Some p, c))"

subsection \<open>The memory bound\<close>



datatype cache_op = CGet u64 bytes | CSet u64 bytes bytes u64 | CRemove bytes

fun cache_exec :: "'d raw_ops \<Rightarrow> cache_op \<Rightarrow> 'd dns_cache \<Rightarrow> 'd dns_cache" where
  "cache_exec ops (CGet now k) c = snd (dns_get ops now c k)"
| "cache_exec ops (CSet now k r ttl) c = snd (dns_set ops now c k r ttl)"
| "cache_exec ops (CRemove k) c = dns_remove ops c k"




subsection \<open>Coherence of memory and disk\<close>

lemma remember_lookup:
  "fmlookup (remember m k r e now) k = Some \<lparr>en_response = r, en_expiry = e\<rparr>"
  "j \<noteq> k \<Longrightarrow> fmlookup (remember m k r e now) j = fmlookup m j \<or> fmlookup (remember m k r e now) j = None"
  by (auto simp: remember_def Let_def fmlookup_hm_retain split: option.splits)

lemma remove_if_lookup: "fmlookup (remove_if P k m) j = fmlookup m j \<or> fmlookup (remove_if P k m) j = None"
  by (auto simp: remove_if_def split: option.splits)

text \<open>The cache holds exactly one response for a key: on disk, and in memory if at all.\<close>

definition holds_key :: "('d \<Rightarrow> bytes \<Rightarrow> bytes option) \<Rightarrow> 'd dns_cache \<Rightarrow> bytes \<Rightarrow> bytes \<Rightarrow> u64 \<Rightarrow> bool" where
  "holds_key view c key resp expiry \<longleftrightarrow>
     (\<forall>e. fmlookup (dc_memory c) key = Some e \<longrightarrow> e = \<lparr>en_response = resp, en_expiry = expiry\<rparr>) \<and>
     view (dc_disk c) key = Some (to_be EXPIRY_LEN expiry @ resp)"

fun harmless :: "bytes \<Rightarrow> u64 \<Rightarrow> cache_op \<Rightarrow> bool" where
  "harmless key expiry (CGet now k) \<longleftrightarrow> k \<noteq> key \<or> now < expiry"
| "harmless key expiry (CSet now k r ttl) \<longleftrightarrow> k \<noteq> key"
| "harmless key expiry (CRemove k) \<longleftrightarrow> k \<noteq> key"

context raw_store
begin

lemma set_holds:
  assumes "dns_set ops now c key resp ttl = (True, c')"
  shows "holds_key view c' key resp (now + ttl)"
  using assms
  by (auto simp: dns_set_def holds_key_def Let_def remember_lookup dest!: set_view split: prod.splits)

text \<open>Reading the key while it is fresh: the stored response, unless memory misses and the disk
  read fails.\<close>

lemma get_held:
  assumes "holds_key view c key resp expiry" and "now < expiry" and "resp \<noteq> []"
  shows "holds_key view (snd (dns_get ops now c key)) key resp expiry \<and>
    (fst (dns_get ops now c key) = Some (resp, expiry) \<or>
     fst (dns_get ops now c key) = None \<and> fst (op_get ops (dc_disk c) key) = None)"
proof (cases "fmlookup (dc_memory c) key")
  case (Some e)
  with assms show ?thesis by (simp add: dns_get_def holds_key_def)
next
  case None
  obtain r d where g: "op_get ops (dc_disk c) key = (r, d)" by fastforce
  from get_view [OF g] assms(1) have v: "view d key = Some (to_be EXPIRY_LEN expiry @ resp)"
    and r: "r = None \<or> r = Some (Some (to_be EXPIRY_LEN expiry @ resp))" by (auto simp: holds_key_def)
  have exp: "from_be (to_be 8 expiry) = expiry" by (simp add: wire_simps)
  have m: "fmlookup (remove_if (\<lambda>e. en_expiry e \<le> now) key (dc_memory c)) key = None"
    using None remove_if_lookup [of _ key "dc_memory c" key] by auto
  from r show ?thesis
  proof
    assume "r = None"
    with None g v m show ?thesis by (simp add: dns_get_def dns_get_disk_def holds_key_def Let_def)
  next
    assume "r = Some (Some (to_be EXPIRY_LEN expiry @ resp))"
    with None g v m assms(2,3) exp show ?thesis
      by (simp add: dns_get_def dns_get_disk_def holds_key_def Let_def remember_lookup)
  qed
qed

lemma dns_get_other:
  assumes "j \<noteq> k" and "dns_get ops now c k = (r, c')"
  shows "(fmlookup (dc_memory c') j = fmlookup (dc_memory c) j \<or> fmlookup (dc_memory c') j = None) \<and>
    view (dc_disk c') j = view (dc_disk c) j"
proof -
  let ?m = "remove_if (\<lambda>e. en_expiry e \<le> now) k (dc_memory c)"
  obtain q d where g: "op_get ops (dc_disk c) k = (q, d)" by fastforce
  note gv = get_view [OF g]
  have del: "view (snd (op_delete ops d k)) j = view d j"
    by (cases "op_delete ops d k") (simp add: view_other(2) assms(1))
  have m: "fmlookup m' j = fmlookup (dc_memory c) j \<or> fmlookup m' j = None"
    if "m' = ?m \<or> (\<exists>r e. m' = remember ?m k r e now)" for m'
    using that remove_if_lookup [of "\<lambda>e. en_expiry e \<le> now" k "dc_memory c" j]
      remember_lookup(2) [OF assms(1), of ?m] by metis
  have disk: "(fmlookup (dc_memory c'') j = fmlookup (dc_memory c) j \<or> fmlookup (dc_memory c'') j = None) \<and>
      view (dc_disk c'') j = view (dc_disk c) j" if "dns_get_disk ops now c k = (r'', c'')" for r'' c''
  proof -
    from that have "dc_memory c'' = ?m \<or> (\<exists>r e. dc_memory c'' = remember ?m k r e now)"
      and "dc_disk c'' = d \<or> dc_disk c'' = snd (op_delete ops d k)"
      by (auto simp: dns_get_disk_def g Let_def split: option.splits if_splits) blast+
    then show ?thesis using m [of "dc_memory c''"] gv del by auto
  qed
  with assms(2) show ?thesis unfolding dns_get_def by (auto split: option.splits if_splits)
qed

lemma exec_holds:
  assumes "holds_key view c key resp expiry" and "resp \<noteq> []" and "harmless key expiry op"
  shows "holds_key view (cache_exec ops op c) key resp expiry"
proof (cases op)
  case (CGet now k)
  show ?thesis
  proof (cases "k = key")
    case True
    with CGet assms get_held [OF assms(1) _ assms(2)] show ?thesis by simp
  next
    case False
    with dns_get_other [of key k now c] assms(1) CGet show ?thesis
      by (cases "dns_get ops now c k") (auto simp: holds_key_def)
  qed
next
  case (CSet now k r ttl)
  with assms(3) have k: "key \<noteq> k" by simp
  from assms(1) k view_other(1) remember_lookup(2) [OF k, of "dc_memory c" r "now + ttl" now] show ?thesis
    by (auto simp: CSet dns_set_def holds_key_def Let_def split: prod.split)
next
  case (CRemove k)
  with assms(3) have k: "key \<noteq> k" by simp
  have "view (snd (op_delete ops (dc_disk c) k)) key = view (dc_disk c) key"
    by (cases "op_delete ops (dc_disk c) k") (simp add: view_other(2) k)
  with assms(1) k show ?thesis by (simp add: CRemove dns_remove_def holds_key_def)
qed

lemma run_holds:
  "\<lbrakk>holds_key view c key resp expiry; resp \<noteq> []; list_all (harmless key expiry) xs\<rbrakk>
    \<Longrightarrow> holds_key view (fold (cache_exec ops) xs c) key resp expiry"
  by (induction xs arbitrary: c) (simp_all add: exec_holds)

lemma set_run_get:
  assumes "dns_set ops now c key resp ttl = (True, c1)" and "resp \<noteq> []"
    and "list_all (harmless key (now + ttl)) xs" and "now' < now + ttl"
  shows "fst (dns_get ops now' (fold (cache_exec ops) xs c1) key) = Some (resp, now + ttl) \<or>
    fst (dns_get ops now' (fold (cache_exec ops) xs c1) key) = None \<and>
    fst (op_get ops (dc_disk (fold (cache_exec ops) xs c1)) key) = None"
  using get_held [OF run_holds [OF set_holds [OF assms(1)] assms(2,3)] assms(4,2)] by blast

end


subsection \<open>Flights\<close>

definition flight_inv :: "flights \<times> (bytes \<times> nat) set \<Rightarrow> bool" where
  "flight_inv s \<longleftrightarrow>
     (case s of (fl, L) \<Rightarrow>
       L = {(k, c). fmlookup (fl_inflight fl) k = Some c} \<and>
       (\<forall>(k, c) \<in> L. c < length (fl_chans fl)) \<and>
       (\<forall>k k' c. (k, c) \<in> L \<longrightarrow> (k', c) \<in> L \<longrightarrow> k = k') \<and>
       (\<forall>c < length (fl_chans fl). wa_open (fl_chans fl ! c) \<longleftrightarrow> (\<exists>k. (k, c) \<in> L)) \<and>
       (\<forall>c < length (fl_chans fl). wa_open (fl_chans fl ! c) \<longrightarrow> wa_value (fl_chans fl ! c) = None))"

lemma flight_inv_init: "flight_inv (no_flights, {})"
  by (simp add: flight_inv_def no_flights_def)

text \<open>Ending a flight, by an outcome or by dropping the leader.\<close>

definition end_flight :: "bytes \<Rightarrow> watch \<Rightarrow> flights \<Rightarrow> flights" where
  "end_flight key w fl =
     (case fmlookup (fl_inflight fl) key of
        Some c \<Rightarrow> \<lparr>fl_inflight = fmdrop key (fl_inflight fl), fl_chans = (fl_chans fl)[c := w]\<rparr>
      | None \<Rightarrow> fl)"

lemma end_flight_inv:
  assumes "flight_inv (fl, L)" and "(key, c) \<in> L" and "\<not> wa_open w"
  shows "flight_inv (end_flight key w fl, L - {(key, c)})"
proof -
  from assms(1,2) have l: "fmlookup (fl_inflight fl) key = Some c" and c: "c < length (fl_chans fl)"
    and inj: "\<And>k. (k, c) \<in> L \<Longrightarrow> k = key" by (auto simp: flight_inv_def)
  have e: "end_flight key w fl = \<lparr>fl_inflight = fmdrop key (fl_inflight fl), fl_chans = (fl_chans fl)[c := w]\<rparr>"
    by (simp add: end_flight_def l)
  show ?thesis unfolding e flight_inv_def
    using assms(1,3) inj l c by (auto simp: flight_inv_def nth_list_update split: if_splits)
qed

lemma finish_end: "finish_flight key o1 fl = end_flight key \<lparr>wa_value = Some o1, wa_open = False\<rparr> fl"
  by (simp add: finish_flight_def end_flight_def)

lemma drop_end:
  "fmlookup (fl_inflight fl) key = Some c \<Longrightarrow> drop_flight key fl = end_flight key ((fl_chans fl ! c)\<lparr>wa_open := False\<rparr>) fl"
  by (simp add: drop_flight_def end_flight_def)

lemma flight_step_inv:
  assumes "flight_step s s'" and "flight_inv s"
  shows "flight_inv s'"
  using assms
proof (induction rule: flight_step.induct)
  case (lead key fl c fl' L)
  then have "fmlookup (fl_inflight fl) key = None" "c = length (fl_chans fl)"
    "fl' = \<lparr>fl_inflight = fmupd key c (fl_inflight fl), fl_chans = fl_chans fl @ [\<lparr>wa_value = None, wa_open = True\<rparr>]\<rparr>"
    by (auto simp: join_flight_def split: option.splits)
  with lead(2) show ?case
    by (auto simp: flight_inv_def nth_append less_Suc_eq split: if_splits)
next
  case (foll key fl c fl' L)
  then show ?case by (auto simp: join_flight_def split: option.splits)
next
  case (fin key c L fl o1)
  then show ?case by (simp add: finish_end end_flight_inv)
next
  case (dropped key c L fl)
  then have "fmlookup (fl_inflight fl) key = Some c" by (auto simp: flight_inv_def)
  with dropped show ?case by (simp add: drop_end end_flight_inv)
qed

lemma flight_reach_inv: "flight_step\<^sup>*\<^sup>* s s' \<Longrightarrow> flight_inv s \<Longrightarrow> flight_inv s'"
  by (induction rule: rtranclp_induct) (auto intro: flight_step_inv)

text \<open>A closed channel never changes.\<close>

lemma flight_step_closed:
  assumes "flight_step (fl, L) (fl', L')" and "flight_inv (fl, L)"
    and "c < length (fl_chans fl)" and "\<not> wa_open (fl_chans fl ! c)"
  shows "c < length (fl_chans fl') \<and> fl_chans fl' ! c = fl_chans fl ! c"
proof -
  have ne: "d \<noteq> c" if "(k, d) \<in> L" for k d
    using that assms(2-4) by (auto simp: flight_inv_def)
  have lk: "fmlookup (fl_inflight fl) k = Some d" if "(k, d) \<in> L" for k d
    using that assms(2) by (auto simp: flight_inv_def)
  from assms(1) show ?thesis
  proof (rule flight_stepE)
    fix key d
    assume "fl' = drop_flight key fl" "(key, d) \<in> L"
    with lk ne assms(3) show ?thesis by (simp add: drop_flight_def)
  next
    fix key d o1
    assume "fl' = finish_flight key o1 fl" "(key, d) \<in> L"
    with lk ne assms(3) show ?thesis by (simp add: finish_flight_def)
  qed (use assms(3) in \<open>auto simp: join_flight_def nth_append split: option.splits\<close>)
qed

lemma flight_closed_forever:
  assumes "flight_step\<^sup>*\<^sup>* s s'" and "flight_inv s"
    and "c < length (fl_chans (fst s))" and "\<not> wa_open (fl_chans (fst s) ! c)"
  shows "c < length (fl_chans (fst s')) \<and> fl_chans (fst s') ! c = fl_chans (fst s) ! c"
  using assms
proof (induction rule: rtranclp_induct)
  case (step y z)
  have "flight_inv y" using step.hyps(1) assms(2) by (rule flight_reach_inv)
  with step show ?case using flight_step_closed [of "fst y" "snd y" "fst z" "snd z" c] by simp
qed simp

subsection \<open>Lifetimes\<close>

lemma clamp_ttl_bounds:
  "(case mx of Some m \<Rightarrow> clamp_ttl mn mx t \<le> ucast m | None \<Rightarrow> True)"
  "(case mn of Some m \<Rightarrow> (case mx of Some x \<Rightarrow> min (ucast m) (ucast x) \<le> clamp_ttl mn mx t | None \<Rightarrow> ucast m \<le> clamp_ttl mn mx t) | None \<Rightarrow> True)"
  by (auto simp: clamp_ttl_def Let_def min_def split: option.splits)

lemma Min_insert_min: "finite A \<Longrightarrow> Min (insert (min a b) A) = Min (insert a (insert b A))"
  by (cases "A = {}") (simp_all add: min.assoc)

lemma clamp_records_spec:
  assumes "clamp_records mn mx rs acc = (rs', a)"
  shows "rs' = map (\<lambda>r. r\<lparr>dr_ttl := clamp_ttl mn mx (dr_ttl r)\<rparr>) rs \<and>
    a = (if rs = [] then acc
         else Some (Min (set (map dr_ttl rs') \<union> (case acc of None \<Rightarrow> {} | Some t \<Rightarrow> {t}))))"
  using assms
proof (induction rs arbitrary: acc rs' a)
  case (Cons r rs)
  let ?t = "clamp_ttl mn mx (dr_ttl r)"
  let ?acc = "case acc of None \<Rightarrow> ?t | Some current \<Rightarrow> min current ?t"
  obtain rs1 where c: "clamp_records mn mx rs (Some ?acc) = (rs1, a)" and rs': "rs' = r\<lparr>dr_ttl := ?t\<rparr> # rs1"
    using Cons.prems by (auto simp: Let_def split: prod.splits)
  from Cons.IH [OF c] have m: "rs1 = map (\<lambda>r. r\<lparr>dr_ttl := clamp_ttl mn mx (dr_ttl r)\<rparr>) rs"
    and a: "a = (if rs = [] then Some ?acc else Some (Min (set (map dr_ttl rs1) \<union> {?acc})))" by simp_all
  have "a = Some (Min (set (map dr_ttl rs') \<union> (case acc of None \<Rightarrow> {} | Some t \<Rightarrow> {t})))"
    using Min_insert_min [of "set (map dr_ttl rs1)" _ ?t] m
    by (cases acc) (simp_all add: a rs' insert_commute)
  with m rs' show ?case by simp
qed simp

lemma clamp_records_append:
  "clamp_records mn mx (xs @ ys) acc =
     (case clamp_records mn mx xs acc of (xs', a) \<Rightarrow>
      case clamp_records mn mx ys a of (ys', b) \<Rightarrow> (xs' @ ys', b))"
  by (induction xs arbitrary: acc) (simp_all add: Let_def split: prod.split)

lemma apply_ttl_records:
  assumes "apply_ttl_to_response p mn mx = (t, p')"
  shows "clamp_records mn mx (pk_records p) None = (pk_records p', t)"
  using assms by (auto simp: apply_ttl_to_response_def pk_records_def clamp_records_append split: prod.splits)

subsection \<open>Properties\<close>

text \<open>C36. Get after set. After a response has been stored with success, and after any number of
  operations on other keys (which may evict it from memory) and reads of this key, reading the
  key before its expiry gives exactly that response and expiry; the only other answer is a miss
  because the database read itself failed. An empty response is the exception: it cannot be told
  from a corrupt entry.\<close>

theorem dns_cache_coherent:
  assumes "dns_set (redb_ops table) now c key resp ttl = (True, c1)" and "resp \<noteq> []"
    and "list_all (harmless key (now + ttl)) xs" and "now' < now + ttl"
  shows "fst (dns_get (redb_ops table) now' (fold (cache_exec (redb_ops table)) xs c1) key) = Some (resp, now + ttl) \<or>
    fst (dns_get (redb_ops table) now' (fold (cache_exec (redb_ops table)) xs c1) key) = None \<and>
    fst (get_raw table (dc_disk (fold (cache_exec (redb_ops table)) xs c1)) key) = None"
  using redb_raw.set_run_get [OF assms] by (simp add: redb_ops_def)

theorem dns_cache_coherent_witness:
  "fst (dns_get (redb_ops [9]) 130 (fold (cache_exec (redb_ops [9])) [CRemove [2]]
      (snd (dns_set (redb_ops [9]) 100 \<lparr>dc_memory = fmempty, dc_disk =
         \<lparr>db_tables = fmempty, db_durable = fmempty, db_dirty = False, db_faults = []\<rparr>\<rparr> [1] [7] 60))) [1]) = Some ([7], 160)"
proof -
  let ?d = "\<lparr>db_tables = fmempty, db_durable = fmempty, db_dirty = False, db_faults = []\<rparr>"
  let ?c = "\<lparr>dc_memory = fmempty, dc_disk = ?d\<rparr>"
  let ?c1 = "snd (dns_set (redb_ops [9]) 100 ?c [1] [7] 60)"
  have ok: "fst (dns_set (redb_ops [9]) 100 ?c [1] [7] 60)"
    by (simp add: dns_set_def redb_ops_def set_raw_def cache_write_def next_txn_def)
  then have s: "dns_set (redb_ops [9]) 100 ?c [1] [7] 60 = (True, ?c1)" by (metis prod.collapse)
  have "db_faults (dc_disk (fold (cache_exec (redb_ops [9])) [CRemove [2]] ?c1)) = []"
    by (simp add: dns_set_def dns_remove_def redb_ops_def set_raw_def delete_raw_def cache_write_def next_txn_def)
  then have "fst (get_raw [9] (dc_disk (fold (cache_exec (redb_ops [9])) [CRemove [2]] ?c1)) [1]) \<noteq> None"
    by (simp add: get_raw_def next_txn_def)
  with dns_cache_coherent [OF s, of "[CRemove [2]]" 130] show ?thesis by auto
qed


text \<open>Single flight. However joins, finishes and dropped leaders interleave, a key has at most
  one leader, exactly the keys in flight have one, and a follower waits only while the leader of
  its channel is alive: no follower is ever left waiting for a query nobody is making.\<close>

theorem single_flight:
  assumes "flight_step\<^sup>*\<^sup>* (no_flights, {}) (fl, L)"
  shows "(\<forall>k c c'. (k, c) \<in> L \<longrightarrow> (k, c') \<in> L \<longrightarrow> c = c') \<and>
    (\<forall>k. k |\<in>| fmdom (fl_inflight fl) \<longleftrightarrow> (\<exists>c. (k, c) \<in> L)) \<and>
    (\<forall>c < length (fl_chans fl). follow c fl = FollowPending \<longleftrightarrow> (\<exists>k. (k, c) \<in> L))"
proof -
  have inv: "flight_inv (fl, L)" using assms flight_inv_init by (rule flight_reach_inv)
  then have L: "L = {(k, c). fmlookup (fl_inflight fl) k = Some c}" by (simp add: flight_inv_def)
  have "k |\<in>| fmdom (fl_inflight fl) \<longleftrightarrow> (\<exists>c. (k, c) \<in> L)" for k
    unfolding L by (auto simp: fmlookup_dom_iff)
  moreover have "follow c fl = FollowPending \<longleftrightarrow> (\<exists>k. (k, c) \<in> L)" if "c < length (fl_chans fl)" for c
    using inv that by (auto simp: flight_inv_def follow_def split: option.split)
  ultimately show ?thesis using L by auto
qed

theorem single_flight_witness:
  "\<exists>fl. flight_step\<^sup>*\<^sup>* (no_flights, {}) (fl, {([1], 0)}) \<and> follow 0 fl = FollowPending"
proof -
  let ?fl = "snd (join_flight [1] no_flights)"
  have "flight_step (no_flights, {}) (?fl, insert ([1], 0) {})"
    by (rule flight_step.lead) (simp add: join_flight_def no_flights_def)
  then have r: "flight_step\<^sup>*\<^sup>* (no_flights, {}) (?fl, {([1], 0)})" by simp
  have "0 < length (fl_chans ?fl)" by (simp add: join_flight_def no_flights_def)
  with single_flight [OF r] r show ?thesis by blast
qed

text \<open>Followers share their leader's outcome. When the leader of a channel finishes, every
  follower of that channel gets that outcome, then and at any later time, whatever happens to
  other flights and to later flights of the same key; when the leader is dropped instead, they
  are released without one.\<close>

theorem followers_share_outcome:
  assumes "flight_step\<^sup>*\<^sup>* (no_flights, {}) (fl, L)" and "(key, c) \<in> L"
  shows "(flight_step\<^sup>*\<^sup>* (finish_flight key o1 fl, L - {(key, c)}) s1 \<longrightarrow> follow c (fst s1) = FollowReady (Some o1)) \<and>
    (flight_step\<^sup>*\<^sup>* (drop_flight key fl, L - {(key, c)}) s2 \<longrightarrow> follow c (fst s2) = FollowReady None)"
proof -
  have inv: "flight_inv (fl, L)" using assms(1) flight_inv_init by (rule flight_reach_inv)
  have l: "fmlookup (fl_inflight fl) key = Some c" "c < length (fl_chans fl)"
    using inv assms(2) by (auto simp: flight_inv_def)
  moreover have "wa_open (fl_chans fl ! c)" using inv assms(2) l(2) by (auto simp: flight_inv_def)
  ultimately have none: "wa_value (fl_chans fl ! c) = None" using inv by (simp add: flight_inv_def)
  have fi: "flight_inv (finish_flight key o1 fl, L - {(key, c)})"
    by (rule flight_step_inv [OF flight_step.fin [OF assms(2)] inv])
  have dr: "flight_inv (drop_flight key fl, L - {(key, c)})"
    by (rule flight_step_inv [OF flight_step.dropped [OF assms(2)] inv])
  have "follow c (fst s1) = FollowReady (Some o1)" if "flight_step\<^sup>*\<^sup>* (finish_flight key o1 fl, L - {(key, c)}) s1"
    using flight_closed_forever [OF that fi, of c] l by (simp add: finish_flight_def follow_def)
  moreover have "follow c (fst s2) = FollowReady None" if "flight_step\<^sup>*\<^sup>* (drop_flight key fl, L - {(key, c)}) s2"
    using flight_closed_forever [OF that dr, of c] l none by (simp add: drop_flight_def follow_def)
  ultimately show ?thesis by blast
qed

theorem followers_share_outcome_witness:
  "follow 0 (finish_flight [1] (Inr [5]) (snd (join_flight [1] no_flights))) = FollowReady (Some (Inr [5]))"
proof -
  let ?fl = "snd (join_flight [1] no_flights)"
  have "flight_step (no_flights, {}) (?fl, insert ([1], 0) {})"
    by (rule flight_step.lead) (simp add: join_flight_def no_flights_def)
  then have "flight_step\<^sup>*\<^sup>* (no_flights, {}) (?fl, {([1], 0)})" by simp
  from followers_share_outcome [OF this, of "[1]" 0 "Inr [5]" "(finish_flight [1] (Inr [5]) ?fl, {([1], 0)} - {([1], 0)})"]
  show ?thesis by simp
qed

text \<open>TTL limits. After the limits are applied every record's TTL is at most the configured
  maximum and at least the configured minimum (or the maximum, where that is smaller), and the
  lifetime reported for caching is the smallest TTL among all records of the three sections.\<close>

theorem ttl_limits:
  assumes "apply_ttl_to_response p mn mx = (t, p')"
  shows "t = (if pk_records p' = [] then None else Some (Min (set (map dr_ttl (pk_records p'))))) \<and>
    (\<forall>r \<in> set (pk_records p').
      (case mx of Some x \<Rightarrow> dr_ttl r \<le> ucast x | None \<Rightarrow> True) \<and>
      (case mn of Some m \<Rightarrow>
         (case mx of Some x \<Rightarrow> min (ucast m) (ucast x) \<le> dr_ttl r | None \<Rightarrow> ucast m \<le> dr_ttl r) | None \<Rightarrow> True))"
proof -
  from clamp_records_spec [OF apply_ttl_records [OF assms]]
  have all: "pk_records p' = map (\<lambda>r. r\<lparr>dr_ttl := clamp_ttl mn mx (dr_ttl r)\<rparr>) (pk_records p)"
    and "t = (if pk_records p' = [] then None else Some (Min (set (map dr_ttl (pk_records p')))))"
    by auto
  moreover have "\<forall>r \<in> set (pk_records p').
      (case mx of Some x \<Rightarrow> dr_ttl r \<le> ucast x | None \<Rightarrow> True) \<and>
      (case mn of Some m \<Rightarrow>
         (case mx of Some x \<Rightarrow> min (ucast m) (ucast x) \<le> dr_ttl r | None \<Rightarrow> ucast m \<le> dr_ttl r) | None \<Rightarrow> True)"
    using clamp_ttl_bounds [where mx = mx and mn = mn]
    by (cases mx; cases mn) (simp_all add: all)
  ultimately show ?thesis by blast
qed

theorem ttl_limits_witness:
  "fst (apply_ttl_to_response \<lparr>pk_answers = [\<lparr>dr_data = [], dr_ttl = 5\<rparr>], pk_name_servers = [],
      pk_additional = [\<lparr>dr_data = [], dr_ttl = 900\<rparr>]\<rparr> (Some 60) (Some 600)) = Some 60"
proof -
  let ?p = "\<lparr>pk_answers = [\<lparr>dr_data = [], dr_ttl = 60\<rparr>], pk_name_servers = [],
      pk_additional = [\<lparr>dr_data = [], dr_ttl = 600\<rparr>]\<rparr>"
  have e: "apply_ttl_to_response \<lparr>pk_answers = [\<lparr>dr_data = [], dr_ttl = 5\<rparr>], pk_name_servers = [],
      pk_additional = [\<lparr>dr_data = [], dr_ttl = 900\<rparr>]\<rparr> (Some 60) (Some 600) = (Some 60, ?p)"
    by (simp add: apply_ttl_to_response_def clamp_ttl_def)
  from ttl_limits [OF e] show ?thesis unfolding e by simp
qed

text \<open>A response served from the cache promises no record for longer than the cache entry
  still has to live.\<close>

theorem served_ttl_within_lifetime:
  assumes "cached_response ops parse now now' c key = (Inr (Some p), c')"
  shows "\<exists>response expiry. fst (dns_get ops now c key) = Some (response, expiry) \<and>
    (\<forall>r \<in> set (pk_records p). unat (dr_ttl r) \<le> unat expiry - unat now')"
proof -
  from assms obtain response expiry c1 q where g: "dns_get ops now c key = (Some (response, expiry), c1)"
    and p: "p = cap_record_ttls q (ucast (min (if expiry > now' then expiry - now' else 0) 0xFFFFFFFF))"
    by (auto simp: cached_response_def Let_def split: prod.splits option.splits)
  let ?rem = "if expiry > now' then expiry - now' else 0"
  have "unat (ucast (min ?rem 0xFFFFFFFF) :: u32) \<le> unat (min ?rem 0xFFFFFFFF)"
    by (simp add: unsigned_ucast_eq unsigned_take_bit_eq take_bit_nat_less_eq_self)
  also have "\<dots> \<le> unat ?rem" by (simp add: word_le_nat_alt [symmetric])
  also have "\<dots> \<le> unat expiry - unat now'" by (auto simp: unat_sub less_imp_le)
  finally have b: "unat (ucast (min ?rem 0xFFFFFFFF) :: u32) \<le> unat expiry - unat now'" .
  have "unat (dr_ttl r) \<le> unat expiry - unat now'" if "r \<in> set (pk_records p)" for r
  proof -
    from that have "dr_ttl r \<le> ucast (min ?rem 0xFFFFFFFF)"
      by (auto simp: p pk_records_def cap_record_ttls_def cap_records_def)
    then show ?thesis using b by (simp only: word_le_nat_alt)
  qed
  with g show ?thesis by simp
qed

theorem served_ttl_within_lifetime_witness:
  "\<exists>p c'. cached_response (redb_ops [9]) (\<lambda>_. Some \<lparr>pk_answers = [\<lparr>dr_data = [], dr_ttl = 900\<rparr>], pk_name_servers = [],
       pk_additional = []\<rparr>) 100 100 \<lparr>dc_memory = fmupd [1] \<lparr>en_response = [7], en_expiry = 160\<rparr> fmempty, dc_disk =
         \<lparr>db_tables = fmempty, db_durable = fmempty, db_dirty = False, db_faults = []\<rparr>\<rparr> [1] =
     (Inr (Some p), c') \<and> (\<forall>r \<in> set (pk_records p). unat (dr_ttl r) \<le> 60)"
proof -
  let ?c = "\<lparr>dc_memory = fmupd [1] \<lparr>en_response = [7], en_expiry = 160\<rparr> fmempty, dc_disk =
    \<lparr>db_tables = fmempty, db_durable = fmempty, db_dirty = False, db_faults = []\<rparr>\<rparr>"
  have e: "cached_response (redb_ops [9]) (\<lambda>_. Some \<lparr>pk_answers = [\<lparr>dr_data = [], dr_ttl = 900\<rparr>], pk_name_servers = [],
       pk_additional = []\<rparr>) 100 100 ?c [1] =
      (Inr (Some \<lparr>pk_answers = [\<lparr>dr_data = [], dr_ttl = 60\<rparr>], pk_name_servers = [], pk_additional = []\<rparr>), ?c)"
    by (simp add: cached_response_def dns_get_def cap_record_ttls_def cap_records_def min_def)
  have "fst (dns_get (redb_ops [9]) 100 ?c [1]) = Some ([7], 160)" by (simp add: dns_get_def)
  with served_ttl_within_lifetime [OF e] e show ?thesis by auto
qed

end
