(* ===== verification/Tokio_Std.thy ===== *)
theory Tokio_Std
  imports Rust_Std
begin

text \<open>
  What the program uses of tokio's synchronisation primitives, as pure state:
  bounded \<open>mpsc\<close> channels (\<open>try_send\<close>, \<open>recv\<close>, \<open>try_recv\<close>) and \<open>Notify\<close>
  (\<open>notified\<close>, \<open>notify_waiters\<close>). A \<open>Notified\<close> future remembers how many
  \<open>notify_waiters\<close> calls had happened when it was created and is ready once there
  was another one.
\<close>

subsection \<open>Bounded channels\<close>

record 'a chan =
  ch_items :: "'a list"
  ch_cap :: nat
  ch_closed :: bool

datatype try_send_result = SendOk | SendFull | SendClosed

definition channel :: "nat \<Rightarrow> 'a chan" where
  "channel cap = \<lparr>ch_items = [], ch_cap = cap, ch_closed = False\<rparr>"

definition try_send :: "'a \<Rightarrow> 'a chan \<Rightarrow> try_send_result \<times> 'a chan" where
  "try_send x c =
     (if ch_closed c then (SendClosed, c)
      else if ch_cap c \<le> length (ch_items c) then (SendFull, c)
      else (SendOk, c\<lparr>ch_items := ch_items c @ [x]\<rparr>))"

definition try_recv :: "'a chan \<Rightarrow> 'a option \<times> 'a chan" where
  "try_recv c = (case ch_items c of [] \<Rightarrow> (None, c) | x # xs \<Rightarrow> (Some x, c\<lparr>ch_items := xs\<rparr>))"

definition chan_ok :: "nat \<Rightarrow> 'a chan \<Rightarrow> bool" where
  "chan_ok cap c \<longleftrightarrow> ch_cap c = cap \<and> \<not> ch_closed c \<and> length (ch_items c) \<le> cap"

lemma chan_ok_channel [simp]: "chan_ok cap (channel cap)"
  by (simp add: chan_ok_def channel_def)

lemma items_channel [simp]: "ch_items (channel cap) = []"
  by (simp add: channel_def)

lemma chan_ok_try_send: "chan_ok cap c \<Longrightarrow> chan_ok cap (snd (try_send x c))"
  by (auto simp: chan_ok_def try_send_def)

lemma chan_ok_try_recv: "chan_ok cap c \<Longrightarrow> chan_ok cap (snd (try_recv c))"
  by (auto simp: chan_ok_def try_recv_def split: list.split)

lemma try_send_not_closed: "chan_ok cap c \<Longrightarrow> fst (try_send x c) \<noteq> SendClosed"
  by (simp add: chan_ok_def try_send_def)

lemma try_send_room:
  "chan_ok cap c \<Longrightarrow> length (ch_items c) < cap \<Longrightarrow>
     try_send x c = (SendOk, c\<lparr>ch_items := ch_items c @ [x]\<rparr>)"
  by (simp add: chan_ok_def try_send_def)

lemma try_send_items: "set (ch_items (snd (try_send x c))) \<subseteq> insert x (set (ch_items c))"
  by (auto simp: try_send_def)

subsection \<open>Notify\<close>

text \<open>A \<open>Notify\<close> is its number of \<open>notify_waiters\<close> calls; a future is that number at its
  creation.\<close>

type_synonym notify = nat

definition notified :: "notify \<Rightarrow> nat" where
  "notified n = n"

definition notify_waiters :: "notify \<Rightarrow> notify" where
  "notify_waiters n = Suc n"

definition notified_ready :: "notify \<Rightarrow> nat \<Rightarrow> bool" where
  "notified_ready n f \<longleftrightarrow> f < n"

end
