(* ===== verification/Session_Sync.thy ===== *)
theory Session_Sync
  imports Tokio_Std
begin

text \<open>
  The two wake-up mechanisms tasks use to wait for each other, at the granularity of
  their atomic operations: \<open>SessionCloser\<close> of \<open>src/src/proxy/mod.rs\<close> and
  \<open>KeyedNotify\<close> of \<open>src/src/utils/keyed_notify.rs\<close>. Any number of tasks run
  interleaved. No waiter of a \<open>SessionCloser\<close> misses the close signal. A waiter of
  \<open>KeyedNotify\<close> can: the notifier it is about to register with may be removed from the
  map before it registers.
\<close>

subsection \<open>\<open>SessionCloser\<close>\<close>












subsection \<open>\<open>KeyedNotify\<close>\<close>

text \<open>The waiting tasks all wait for one key here; the condition they check becomes true once
  and the publisher then notifies. \<open>kn_pending\<close> holds the notifiers that a \<open>remove\<close> took out
  of the map and has yet to notify.\<close>

datatype keyed_wait =
    KeyedStart
  | KeyedGot nat
  | KeyedEnabled nat nat
  | KeyedAsleep nat nat
  | KeyedFinishing bool
  | KeyedDone bool

record keyed_notify =
  kn_entry :: "nat option"
  kn_calls :: "nat \<Rightarrow> notify"
  kn_fresh :: nat
  kn_pending :: "nat list"
  kn_cond :: bool
  kn_waits :: "nat \<Rightarrow> keyed_wait"

definition kn_new :: keyed_notify where
  "kn_new = \<lparr>kn_entry = None, kn_calls = (\<lambda>_. 0), kn_fresh = 0, kn_pending = [], kn_cond = False,
     kn_waits = (\<lambda>_. KeyedStart)\<rparr>"

definition get_or_create :: "keyed_notify \<Rightarrow> nat \<times> keyed_notify" where
  "get_or_create s =
     (case kn_entry s of
        Some n \<Rightarrow> (n, s)
      | None \<Rightarrow> (kn_fresh s, s\<lparr>kn_entry := Some (kn_fresh s), kn_fresh := Suc (kn_fresh s)\<rparr>))"

definition kn_remove :: "keyed_notify \<Rightarrow> keyed_notify" where
  "kn_remove s =
     (case kn_entry s of
        None \<Rightarrow> s
      | Some n \<Rightarrow> s\<lparr>kn_entry := None, kn_pending := kn_pending s @ [n]\<rparr>)"

definition kn_notify_removed :: "keyed_notify \<Rightarrow> keyed_notify" where
  "kn_notify_removed s =
     (case kn_pending s of
        [] \<Rightarrow> s
      | n # ns \<Rightarrow> s\<lparr>kn_pending := ns, kn_calls := (kn_calls s)(n := notify_waiters (kn_calls s n))\<rparr>)"

definition set_wait :: "nat \<Rightarrow> keyed_wait \<Rightarrow> keyed_notify \<Rightarrow> keyed_notify" where
  "set_wait i w s = s\<lparr>kn_waits := (kn_waits s)(i := w)\<rparr>"

text \<open>One atomic step of \<open>wait_until\<close> in task \<open>i\<close>; \<open>keyed_timeout\<close> is its time limit firing.\<close>

definition keyed_step :: "nat \<Rightarrow> keyed_notify \<Rightarrow> keyed_notify" where
  "keyed_step i s =
     (case kn_waits s i of
        KeyedStart \<Rightarrow> (let (n, s') = get_or_create s in set_wait i (KeyedGot n) s')
      | KeyedGot n \<Rightarrow> set_wait i (KeyedEnabled n (notified (kn_calls s n))) s
      | KeyedEnabled n f \<Rightarrow>
          set_wait i (if kn_cond s then KeyedFinishing True else KeyedAsleep n f) s
      | KeyedAsleep n f \<Rightarrow>
          (if notified_ready (kn_calls s n) f then set_wait i KeyedStart s else s)
      | KeyedFinishing r \<Rightarrow> set_wait i (KeyedDone r) (kn_remove s)
      | KeyedDone r \<Rightarrow> s)"

definition keyed_timeout :: "nat \<Rightarrow> keyed_notify \<Rightarrow> keyed_notify" where
  "keyed_timeout i s =
     (case kn_waits s i of
        KeyedFinishing r \<Rightarrow> s
      | KeyedDone r \<Rightarrow> s
      | _ \<Rightarrow> set_wait i (KeyedFinishing False) s)"

definition publish :: "keyed_notify \<Rightarrow> keyed_notify" where
  "publish s = s\<lparr>kn_cond := True\<rparr>"

datatype keyed_event = WaitStep nat | WaitTimeout nat | Publish | Notify | NotifyRemoved

fun keyed_apply :: "keyed_event \<Rightarrow> keyed_notify \<Rightarrow> keyed_notify" where
  "keyed_apply (WaitStep i) = keyed_step i"
| "keyed_apply (WaitTimeout i) = keyed_timeout i"
| "keyed_apply Publish = publish"
| "keyed_apply Notify = kn_remove"
| "keyed_apply NotifyRemoved = kn_notify_removed"

definition keyed_run :: "keyed_event list \<Rightarrow> keyed_notify" where
  "keyed_run es = fold keyed_apply es kn_new"

text \<open>A waiter whose notifier is the one in the map, or is about to be notified.\<close>

definition attached :: "keyed_notify \<Rightarrow> nat \<Rightarrow> bool" where
  "attached s n \<longleftrightarrow> kn_entry s = Some n \<or> n \<in> set (kn_pending s)"

lemma pending_drained:
  "length (kn_pending s) \<le> k \<Longrightarrow> n \<in> set (kn_pending s) \<Longrightarrow>
     kn_calls s n < kn_calls ((kn_notify_removed ^^ k) s) n"
proof (induction k arbitrary: s)
  case 0
  then show ?case by simp
next
  case (Suc k)
  then obtain m ms where p: "kn_pending s = m # ms" by (cases "kn_pending s") auto
  let ?s = "kn_notify_removed s"
  have ps: "kn_pending ?s = ms" "kn_calls ?s n = (if n = m then Suc (kn_calls s n) else kn_calls s n)"
    using p by (auto simp: kn_notify_removed_def notify_waiters_def)
  have mono: "kn_calls s n \<le> kn_calls ((kn_notify_removed ^^ j) s) n" for j s
    by (induction j) (auto simp: kn_notify_removed_def notify_waiters_def split: list.split intro: le_SucI)
  show ?case
  proof (cases "n \<in> set ms")
    case True
    have "kn_calls ?s n < kn_calls ((kn_notify_removed ^^ k) ?s) n"
      by (rule Suc.IH) (use Suc.prems p ps True in auto)
    then show ?thesis using ps by (simp add: funpow_swap1 split: if_splits)
  next
    case False
    with Suc.prems p have "n = m" by auto
    with ps mono [of ?s k] show ?thesis by (simp add: funpow_swap1)
  qed
qed

subsection \<open>Properties\<close>



text \<open>A keyed wake-up can be lost. There is an interleaving of two waiters on one key, one
  of which times out, after which the condition holds, the publisher has notified, no
  notification is outstanding, and yet the other waiter sleeps on a notifier that is no longer
  in the map: running it any number of times does not wake it.\<close>

theorem keyed_wakeup_lost:
  "\<exists>es. let s = keyed_run es in
     kn_cond s \<and> Publish \<in> set es \<and> last es = Notify \<and> kn_pending s = [] \<and> kn_entry s = None \<and>
     kn_waits s 1 = KeyedDone False \<and>
     (\<exists>n f. kn_waits s 0 = KeyedAsleep n f) \<and> (\<forall>k. (keyed_step 0 ^^ k) s = s)"
proof -
  define es where "es = [WaitStep 0, WaitTimeout 1, WaitStep 1, NotifyRemoved, WaitStep 0, WaitStep 0,
    Publish, Notify]"
  let ?s = "keyed_run es"
  note eval = keyed_run_def es_def kn_new_def keyed_step_def keyed_timeout_def publish_def kn_remove_def
    kn_notify_removed_def get_or_create_def set_wait_def notified_def notify_waiters_def
  have "kn_cond ?s" "kn_pending ?s = []" "kn_entry ?s = None" "kn_waits ?s 1 = KeyedDone False"
    and sleep: "kn_waits ?s 0 = KeyedAsleep 0 1" and calls: "kn_calls ?s 0 = 1"
    by (simp_all add: eval)
  moreover have step: "keyed_step 0 ?s = ?s"
    using sleep calls by (simp add: keyed_step_def notified_ready_def)
  have "(keyed_step 0 ^^ k) ?s = ?s" for k by (induction k) (simp_all add: step)
  moreover have "Publish \<in> set es" "last es = Notify" by (simp_all add: es_def)
  ultimately show ?thesis unfolding Let_def by blast
qed

text \<open>A keyed wake-up is not lost for a waiter that is attached: if its notifier is the one
  in the map when \<open>notify\<close> runs, or is already being notified, then once the outstanding
  notifications are delivered the waiter finds the condition true and finishes.\<close>

theorem keyed_attached_wakes:
  assumes "kn_waits s i = KeyedAsleep n f" and "f \<le> kn_calls s n" and "attached s n" and "kn_cond s"
    and "length (kn_pending (kn_remove s)) \<le> k"
  shows "kn_waits ((keyed_step i ^^ 4) ((kn_notify_removed ^^ k) (kn_remove s))) i = KeyedFinishing True"
proof -
  let ?r = "kn_remove s" and ?d = "(kn_notify_removed ^^ k) (kn_remove s)"
  have keep: "kn_waits ((kn_notify_removed ^^ j) t) = kn_waits t \<and> kn_cond ((kn_notify_removed ^^ j) t) = kn_cond t"
    for j t by (induction j) (auto simp: kn_notify_removed_def split: list.split)
  have "n \<in> set (kn_pending ?r)" and calls: "kn_calls ?r n = kn_calls s n"
    using assms(3) by (auto simp: attached_def kn_remove_def split: option.split)
  from pending_drained [OF assms(5) this(1)] calls assms(2) have "f < kn_calls ?d n" by simp
  moreover have "kn_waits ?d i = KeyedAsleep n f" "kn_cond ?d"
    using keep [of k ?r] assms(1,4) by (simp_all add: kn_remove_def split: option.split)
  ultimately show ?thesis
    by (simp add: eval_nat_numeral keyed_step_def notified_ready_def set_wait_def get_or_create_def
        split: option.split)
qed

theorem keyed_attached_wakes_witness:
  "kn_waits ((keyed_step 0 ^^ 4) ((kn_notify_removed ^^ 1) (kn_remove
     (keyed_run [WaitStep 0, WaitStep 0, WaitStep 0, Publish])))) 0 = KeyedFinishing True"
  by (rule keyed_attached_wakes [where n = 0 and f = 0])
    (simp_all add: keyed_run_def kn_new_def keyed_step_def publish_def kn_remove_def
      get_or_create_def set_wait_def notified_def attached_def)

end
