(* ===== verification/Shadow_Udp.thy ===== *)
theory Shadow_Udp
  imports Target_Addr Tokio_Std Read_Ahead
begin

text \<open>
  UDP over a ShadowQUIC connection, \<open>src/src/proxy/shadowquic_udp.rs\<close>. A UDP session has a
  control stream on which each side announces \<open>address | context id\<close>; payloads then travel
  as QUIC datagrams \<open>context id | payload\<close>, or on one unidirectional stream per address as
  \<open>length | payload\<close>. All sessions of a connection share the map from context ids to
  receivers and the buffers of datagrams that arrive before their announcement.
  A \<open>ShadowUdpReceiver\<close> behind an \<open>Arc\<close> is an index into the connection's list of receivers,
  so \<open>Arc::ptr_eq\<close> is equality of indices.
\<close>

definition UDP_RECEIVE_QUEUE_CAPACITY :: nat where "UDP_RECEIVE_QUEUE_CAPACITY = 64"
definition WAITING_DATAGRAM_QUEUE_CAPACITY :: nat where "WAITING_DATAGRAM_QUEUE_CAPACITY = 8"
definition MAX_WAITING_DATAGRAM_CONTEXTS :: nat where "MAX_WAITING_DATAGRAM_CONTEXTS = 1024"
definition UDP_CONTEXT_ID_RECONNECT_MARGIN :: nat where "UDP_CONTEXT_ID_RECONNECT_MARGIN = 256"
definition LIVENESS_IDLE :: nat where "LIVENESS_IDLE = 30000"
definition LIVENESS_SILENCE :: nat where "LIVENESS_SILENCE = LIVENESS_IDLE"

subsection \<open>Path liveness\<close>

record path_liveness =
  last_rx :: u64
  last_tx :: u64
  last_alive_at :: u64

definition liveness_new :: "u64 \<Rightarrow> path_liveness" where
  "liveness_new now = \<lparr>last_rx = 0, last_tx = 0, last_alive_at = now\<rparr>"

definition mark_alive :: "u64 \<Rightarrow> path_liveness \<Rightarrow> path_liveness" where
  "mark_alive now l = l\<lparr>last_alive_at := now\<rparr>"

definition observe_at :: "u64 \<Rightarrow> u64 \<Rightarrow> u64 \<Rightarrow> path_liveness \<Rightarrow> bool \<times> path_liveness" where
  "observe_at rx tx now l =
     (let prev_rx = last_rx l; prev_tx = last_tx l; l' = l\<lparr>last_rx := rx, last_tx := tx\<rparr>
      in if rx > prev_rx then (False, l'\<lparr>last_alive_at := now\<rparr>)
         else let silent_for = unat now - unat (last_alive_at l')
              in (silent_for \<ge> LIVENESS_IDLE \<or> (silent_for \<ge> LIVENESS_SILENCE \<and> tx > prev_tx), l'))"

subsection \<open>Receivers and the shared maps of a connection\<close>

record receiver =
  rc_queue :: "(target_addr \<times> bytes) chan"
  rc_bound :: "(u16, target_addr) fmap"
  rc_closed :: bool

text \<open>A buffer of early datagrams and its task, as long as the buffer is in the map: not yet spawned,
  waiting for the receiver, in its loop, with a payload to feed, with a payload and its address to send,
  about to close the session, about to remove the buffer.\<close>

datatype waiter =
    Unspawned
  | Waiting
  | Looping nat
  | Feeding nat bytes
  | Sending nat target_addr bytes
  | ClosingSession nat
  | Removing

record waiting_buffer =
  wb_queue :: "bytes chan"
  wb_task :: waiter

record udp_conn =
  uc_receivers :: "receiver list"
  uc_recv_map :: "(u16, nat) fmap"
  uc_waiting :: "(u16, waiting_buffer) fmap"

datatype udp_error =
    UnknownContextId
  | ReceiveQueueClosed
  | AlreadyBound
  | DatagramSenderClosed

definition conn_new :: udp_conn where
  "conn_new = \<lparr>uc_receivers = [], uc_recv_map = fmempty, uc_waiting = fmempty\<rparr>"

definition receiver_new :: receiver where
  "receiver_new = \<lparr>rc_queue = channel UDP_RECEIVE_QUEUE_CAPACITY, rc_bound = fmempty, rc_closed = False\<rparr>"

definition buffer_new :: waiting_buffer where
  "buffer_new = \<lparr>wb_queue = channel WAITING_DATAGRAM_QUEUE_CAPACITY, wb_task = Unspawned\<rparr>"

definition add_receiver :: "udp_conn \<Rightarrow> udp_conn" where
  "add_receiver c = c\<lparr>uc_receivers := uc_receivers c @ [receiver_new]\<rparr>"

definition upd_receiver :: "nat \<Rightarrow> (receiver \<Rightarrow> receiver) \<Rightarrow> udp_conn \<Rightarrow> udp_conn" where
  "upd_receiver r f c = c\<lparr>uc_receivers := (uc_receivers c)[r := f (uc_receivers c ! r)]\<rparr>"

definition close_receiver :: "nat \<Rightarrow> udp_conn \<Rightarrow> udp_conn" where
  "close_receiver r = upd_receiver r (\<lambda>x. x\<lparr>rc_closed := True\<rparr>)"

definition feed_datagram :: "nat \<Rightarrow> bytes \<Rightarrow> u16 \<Rightarrow> udp_conn \<Rightarrow> (udp_error + unit) \<times> udp_conn" where
  "feed_datagram r payload cid c =
     (let rc = uc_receivers c ! r
      in case fmlookup (rc_bound rc) cid of
           None \<Rightarrow> (Inl UnknownContextId, c)
         | Some target \<Rightarrow>
             (case try_send (target, payload) (rc_queue rc) of
                (SendOk, q) \<Rightarrow> (Inr (), upd_receiver r (\<lambda>x. x\<lparr>rc_queue := q\<rparr>) c)
              | (SendFull, q) \<Rightarrow> (Inr (), c)
              | (SendClosed, q) \<Rightarrow> (Inl ReceiveQueueClosed, close_receiver r c)))"

definition bind_context_id :: "nat \<Rightarrow> target_addr \<Rightarrow> u16 \<Rightarrow> udp_conn \<Rightarrow> (udp_error + unit) \<times> udp_conn" where
  "bind_context_id r target cid c =
     (case fmlookup (uc_recv_map c) cid of
        None \<Rightarrow>
          (Inr (), (upd_receiver r (\<lambda>x. x\<lparr>rc_bound := fmupd cid target (rc_bound x)\<rparr>) c)
                     \<lparr>uc_recv_map := fmupd cid r (uc_recv_map c)\<rparr>)
      | Some _ \<Rightarrow> (Inl AlreadyBound, c))"

text \<open>\<open>udp_recv_map.remove_if(&cid, ptr_eq)\<close>.\<close>

definition unmap :: "nat \<Rightarrow> u16 \<Rightarrow> udp_conn \<Rightarrow> udp_conn" where
  "unmap r cid c =
     (if fmlookup (uc_recv_map c) cid = Some r
      then c\<lparr>uc_recv_map := fmdrop cid (uc_recv_map c)\<rparr> else c)"

text \<open>\<open>binded_context_id.remove(&cid)\<close>.\<close>

definition bound_remove :: "nat \<Rightarrow> u16 \<Rightarrow> udp_conn \<Rightarrow> udp_conn" where
  "bound_remove r cid = upd_receiver r (\<lambda>x. x\<lparr>rc_bound := fmdrop cid (rc_bound x)\<rparr>)"

text \<open>\<open>clean\<close> and the end of a unidirectional-stream worker, each without another task in between; the
  single operations are interleaved in the theory \<open>Shadow_Udp_Tasks\<close>.\<close>

definition bound_ids :: "nat \<Rightarrow> udp_conn \<Rightarrow> u16 list" where
  "bound_ids r c = sorted_list_of_fset (fmdom (rc_bound (uc_receivers c ! r)))"

definition clean :: "nat \<Rightarrow> udp_conn \<Rightarrow> udp_conn" where
  "clean r c = fold (\<lambda>cid c. unmap r cid (bound_remove r cid c)) (bound_ids r c) c"

definition worker_exit :: "nat \<Rightarrow> u16 \<Rightarrow> udp_conn \<Rightarrow> udp_conn" where
  "worker_exit r cid c =
     (let c' = unmap r cid (bound_remove r cid c)
      in if rc_bound (uc_receivers c' ! r) = fmempty then close_receiver r c' else c')"

subsection \<open>The control stream\<close>

definition read_addr_and_context_id :: "bytes \<Rightarrow> addr_error + (u16 \<times> target_addr) \<times> bytes" where
  "read_addr_and_context_id s =
     bindr (read_from s) (\<lambda>(target, s1).
       case read_be 2 s1 of None \<Rightarrow> Inl UnexpectedEof | Some (cid, s2) \<Rightarrow> Inr ((cid, target), s2))"

definition announce :: "u16 \<Rightarrow> target_addr \<Rightarrow> bytes" where
  "announce cid target = to_bytes target @ to_be 2 cid"

lemma read_addr_consumes:
  "read_addr_and_context_id s = Inr (x, s') \<Longrightarrow> length s' < length s"
proof -
  assume "read_addr_and_context_id s = Inr (x, s')"
  then obtain target s1 and cid :: u16 where r: "read_from s = Inr (target, s1)" and b: "read_be 2 s1 = Some (cid, s')"
    by (auto simp: read_addr_and_context_id_def bindr_Inr_iff split: option.splits)
  from r have "length s1 \<le> length s"
    by (auto simp: read_from_stream_view stream_view_def split: sum.splits option.splits)
  moreover from b have "length s' < length s1" by (auto simp: read_be_alt split: if_splits)
  ultimately show ?thesis by simp
qed

text \<open>\<open>run_bistream_recv_listener\<close>: one round of its loop on the bytes of the control stream (\<open>None\<close>
  when the loop breaks, on a read error or a duplicate id), and the whole loop up to the end of
  the stream, after which it cleans up and closes.\<close>

definition recv_round :: "nat \<Rightarrow> bytes \<times> udp_conn \<Rightarrow> (bytes \<times> udp_conn) option" where
  "recv_round r = (\<lambda>(s, c).
     case read_addr_and_context_id s of
       Inl e \<Rightarrow> None
     | Inr ((cid, source), s') \<Rightarrow>
         (case bind_context_id r source cid c of (Inl e, _) \<Rightarrow> None | (Inr _, c') \<Rightarrow> Some (s', c')))"

fun recv_rounds :: "nat \<Rightarrow> nat \<Rightarrow> bytes \<times> udp_conn \<Rightarrow> (bytes \<times> udp_conn) option" where
  "recv_rounds r 0 x = Some x"
| "recv_rounds r (Suc n) x = Option.bind (recv_round r x) (recv_rounds r n)"

lemma recv_round_consumes: "recv_round r (s, c) = Some (s', c') \<Longrightarrow> length s' < length s"
  by (auto simp: recv_round_def dest: read_addr_consumes split: sum.splits prod.splits)

function recv_listener :: "nat \<Rightarrow> bytes \<Rightarrow> udp_conn \<Rightarrow> udp_conn" where
  "recv_listener r s c =
     (case recv_round r (s, c) of
        None \<Rightarrow> close_receiver r (clean r c)
      | Some (s', c') \<Rightarrow> recv_listener r s' c')"
  by pat_completeness auto
termination
  by (relation "measure (\<lambda>(_, s, _). length s)") (auto dest: recv_round_consumes)

declare recv_listener.simps [simp del]

subsection \<open>Datagrams\<close>

definition drop_waiting :: "u16 \<Rightarrow> udp_conn \<Rightarrow> udp_conn" where
  "drop_waiting cid c = c\<lparr>uc_waiting := fmdrop cid (uc_waiting c)\<rparr>"

definition put_waiting :: "u16 \<Rightarrow> waiting_buffer \<Rightarrow> udp_conn \<Rightarrow> udp_conn" where
  "put_waiting cid w c = c\<lparr>uc_waiting := fmupd cid w (uc_waiting c)\<rparr>"

definition handle_datagram :: "bytes \<Rightarrow> udp_conn \<Rightarrow> (udp_error + unit) \<times> udp_conn" where
  "handle_datagram datagram c =
     (if length datagram < 2 then (Inr (), c)
      else
        let cid = from_be (take 2 datagram); payload = drop 2 datagram
        in case fmlookup (uc_recv_map c) cid of
             Some r \<Rightarrow> feed_datagram r payload cid c
           | None \<Rightarrow>
               if cid |\<notin>| fmdom (uc_waiting c) \<and> hm_len (uc_waiting c) \<ge> MAX_WAITING_DATAGRAM_CONTEXTS
               then (Inr (), c)
               else
                 let item = (case fmlookup (uc_waiting c) cid of None \<Rightarrow> buffer_new | Some w \<Rightarrow> w);
                     c' = put_waiting cid item c
                 in case try_send payload (wb_queue item) of
                      (SendOk, q) \<Rightarrow>
                        (Inr (), put_waiting cid (item\<lparr>wb_queue := q,
                           wb_task := if cid |\<in>| fmdom (uc_waiting c) then wb_task item else Waiting\<rparr>) c')
                    | (SendFull, q) \<Rightarrow> (Inr (), c')
                    | (SendClosed, q) \<Rightarrow> (Inl DatagramSenderClosed, drop_waiting cid c'))"

text \<open>The steps of a buffer's task: \<open>get_receiver\<close> succeeds or times out; in its loop it takes a payload
  or sees that the session is closed; the rest goes on by itself (\<open>feed_datagram\<close> in its two parts, the
  final removal).\<close>

definition set_task :: "u16 \<Rightarrow> waiting_buffer \<Rightarrow> waiter \<Rightarrow> udp_conn \<Rightarrow> udp_conn" where
  "set_task cid w t = put_waiting cid (w\<lparr>wb_task := t\<rparr>)"

definition waiter_acquire :: "u16 \<Rightarrow> udp_conn \<Rightarrow> udp_conn" where
  "waiter_acquire cid c =
     (case (fmlookup (uc_waiting c) cid, fmlookup (uc_recv_map c) cid) of
        (Some w, Some r) \<Rightarrow> if wb_task w = Waiting then set_task cid w (Looping r) c else c
      | _ \<Rightarrow> c)"

definition waiter_timeout :: "u16 \<Rightarrow> udp_conn \<Rightarrow> udp_conn" where
  "waiter_timeout cid c =
     (case fmlookup (uc_waiting c) cid of
        Some w \<Rightarrow> if wb_task w = Waiting then set_task cid w Removing c else c
      | None \<Rightarrow> c)"

definition waiter_take :: "u16 \<Rightarrow> udp_conn \<Rightarrow> udp_conn" where
  "waiter_take cid c =
     (case fmlookup (uc_waiting c) cid of
        Some w \<Rightarrow>
          (case (wb_task w, try_recv (wb_queue w)) of
             (Looping r, (Some payload, q)) \<Rightarrow> put_waiting cid (w\<lparr>wb_queue := q, wb_task := Feeding r payload\<rparr>) c
           | _ \<Rightarrow> c)
      | None \<Rightarrow> c)"

definition waiter_closed :: "u16 \<Rightarrow> udp_conn \<Rightarrow> udp_conn" where
  "waiter_closed cid c =
     (case fmlookup (uc_waiting c) cid of
        Some w \<Rightarrow>
          (case wb_task w of
             Looping r \<Rightarrow> if rc_closed (uc_receivers c ! r) then set_task cid w Removing c else c
           | _ \<Rightarrow> c)
      | None \<Rightarrow> c)"

definition waiter_step :: "u16 \<Rightarrow> udp_conn \<Rightarrow> udp_conn" where
  "waiter_step cid c =
     (case fmlookup (uc_waiting c) cid of
        None \<Rightarrow> c
      | Some w \<Rightarrow>
          (case wb_task w of
             Feeding r payload \<Rightarrow>
               (case fmlookup (rc_bound (uc_receivers c ! r)) cid of
                  None \<Rightarrow> set_task cid w Removing c
                | Some target \<Rightarrow> set_task cid w (Sending r target payload) c)
           | Sending r target payload \<Rightarrow>
               (case try_send (target, payload) (rc_queue (uc_receivers c ! r)) of
                  (SendOk, q) \<Rightarrow> set_task cid w (Looping r) (upd_receiver r (\<lambda>x. x\<lparr>rc_queue := q\<rparr>) c)
                | (SendFull, q) \<Rightarrow> set_task cid w (Looping r) c
                | (SendClosed, q) \<Rightarrow> set_task cid w (ClosingSession r) c)
           | ClosingSession r \<Rightarrow> set_task cid w Removing (close_receiver r c)
           | Removing \<Rightarrow> drop_waiting cid c
           | _ \<Rightarrow> c))"

subsection \<open>Packets on a unidirectional stream\<close>

definition uni_encode :: "bytes \<Rightarrow> bytes" where
  "uni_encode payload = to_be 2 (of_nat (length payload) :: u16) @ payload"

text \<open>One round of the worker's loop, reading ahead: two bytes of length, then the payload.\<close>

definition uni_read :: "stream \<Rightarrow> bytes \<Rightarrow> (fill_result + bytes) \<times> stream \<times> bytes" where
  "uni_read st buf =
     (case fill st buf 2 False of
        (Filled, st1, buf1) \<Rightarrow>
          let len = unat (from_be (take 2 buf1) :: u16)
          in (case fill st1 buf1 (2 + len) False of
                (Filled, st2, buf2) \<Rightarrow> (Inr (take len (drop 2 buf2)), st2, drop len (drop 2 buf2))
              | (e, st2, buf2) \<Rightarrow> (Inl e, st2, buf2))
      | (e, st1, buf1) \<Rightarrow> (Inl e, st1, buf1))"

definition uni_decode :: "bytes \<Rightarrow> (bytes \<times> bytes) option" where
  "uni_decode b =
     (if length b < 2 then None
      else let len = unat (from_be (take 2 b) :: u16)
           in if length b < 2 + len then None
              else Some (take len (drop 2 b), drop (2 + len) b))"

text \<open>The packets the worker cuts out of the stream until it ends.\<close>

fun uni_read_n :: "nat \<Rightarrow> stream \<Rightarrow> bytes \<Rightarrow> (bytes list \<times> stream \<times> bytes) option" where
  "uni_read_n 0 st buf = Some ([], st, buf)"
| "uni_read_n (Suc n) st buf =
     (case uni_read st buf of
        (Inl e, _) \<Rightarrow> None
      | (Inr p, st', buf') \<Rightarrow>
          map_option (\<lambda>(ps, r). (p # ps, r)) (uni_read_n n st' buf'))"

text \<open>Handing a packet to the session waits while the queue is full; the address is the one
  bound when the worker started.\<close>

definition worker_start :: "nat \<Rightarrow> u16 \<Rightarrow> udp_conn \<Rightarrow> udp_error + target_addr" where
  "worker_start r cid c =
     (case fmlookup (rc_bound (uc_receivers c ! r)) cid of
        None \<Rightarrow> Inl UnknownContextId | Some t \<Rightarrow> Inr t)"

definition worker_deliver :: "nat \<Rightarrow> target_addr \<Rightarrow> bytes \<Rightarrow> udp_conn \<Rightarrow> udp_conn option" where
  "worker_deliver r source payload c =
     (case try_send (source, payload) (rc_queue (uc_receivers c ! r)) of
        (SendOk, q) \<Rightarrow> Some (upd_receiver r (\<lambda>x. x\<lparr>rc_queue := q\<rparr>) c)
      | (SendFull, q) \<Rightarrow> None
      | (SendClosed, q) \<Rightarrow> Some (close_receiver r c))"

subsection \<open>Receiving in the session\<close>

text \<open>\<open>recv_many\<close> takes the first packet and up to nine more; \<open>None\<close> while there is none. A
  client sees \<open>(source, dummy, payload)\<close>, a server \<open>(peer, target, payload)\<close>.\<close>

type_synonym packet_info = "target_addr \<times> target_addr \<times> bytes"

definition packet_info :: "bool \<Rightarrow> socket_addr \<Rightarrow> target_addr \<times> bytes \<Rightarrow> packet_info" where
  "packet_info is_client remote x =
     (if is_client then (fst x, dummy, snd x) else (Ip remote, fst x, snd x))"

definition recv_many :: "bool \<Rightarrow> socket_addr \<Rightarrow> nat \<Rightarrow> udp_conn \<Rightarrow> (packet_info list \<times> udp_conn) option" where
  "recv_many is_client remote r c =
     (case ch_items (rc_queue (uc_receivers c ! r)) of
        [] \<Rightarrow> None
      | first # rest \<Rightarrow>
          Some (map (packet_info is_client remote) (first # take 9 rest),
            upd_receiver r (\<lambda>x. x\<lparr>rc_queue := (rc_queue x)\<lparr>ch_items := drop 9 rest\<rparr>\<rparr>) c))"

definition recv_from :: "bool \<Rightarrow> socket_addr \<Rightarrow> nat \<Rightarrow> udp_conn \<Rightarrow> (packet_info \<times> udp_conn) option" where
  "recv_from is_client remote r c =
     (case try_recv (rc_queue (uc_receivers c ! r)) of
        (None, q) \<Rightarrow> None
      | (Some x, q) \<Rightarrow> Some (packet_info is_client remote x, upd_receiver r (\<lambda>x. x\<lparr>rc_queue := q\<rparr>) c))"

subsection \<open>Sending\<close>

text \<open>What the QUIC connection does with each operation is a parameter. \<open>sd_cells\<close> holds the
  initialised cells of the sender map: context id and, in stream mode, the stream.\<close>

datatype write_result = WriteOk | WriteStopped | WriteFailed
datatype datagram_result = DatagramOk | DatagramTooLarge | DatagramFailed

record quic_io =
  io_control :: bool
  io_open_uni :: bool
  io_header :: "nat \<Rightarrow> bool"
  io_write :: "nat \<Rightarrow> write_result"
  io_max_datagram :: "nat option"
  io_datagram :: datagram_result

record udp_sender =
  sd_over_unistream :: bool
  sd_is_client :: bool
  sd_cells :: "(target_addr, u16 \<times> nat option) fmap"
  sd_next_context_id :: u32
  sd_control :: bytes
  sd_unis :: "bytes list"
  sd_datagrams :: "bytes list"

datatype send_error =
    ContextIdsExhausted
  | ControlWriteFailed
  | OpenUniFailed
  | UniWriteFailed
  | PayloadTooLong
  | SenderKeepsStopping
  | SendDatagramFailed
  | NotAUnistream

definition sender_new :: "bool \<Rightarrow> bool \<Rightarrow> u32 \<Rightarrow> udp_sender" where
  "sender_new over_uni is_client nxt =
     \<lparr>sd_over_unistream = over_uni, sd_is_client = is_client, sd_cells = fmempty, sd_next_context_id = nxt,
      sd_control = [], sd_unis = [], sd_datagrams = []\<rparr>"

definition write_uni :: "nat \<Rightarrow> bytes \<Rightarrow> udp_sender \<Rightarrow> udp_sender" where
  "write_uni i bs s = s\<lparr>sd_unis := (sd_unis s)[i := sd_unis s ! i @ bs]\<rparr>"

definition create_sender ::
    "quic_io \<Rightarrow> u16 \<Rightarrow> target_addr \<Rightarrow> udp_sender \<Rightarrow> (send_error + u16 \<times> nat option) \<times> udp_sender" where
  "create_sender io cid target s =
     (if \<not> io_control io then (Inl ControlWriteFailed, s)
      else
        let s1 = s\<lparr>sd_control := sd_control s @ announce cid target\<rparr>
        in if sd_over_unistream s then
             (if \<not> io_open_uni io then (Inl OpenUniFailed, s1)
              else
                let i = length (sd_unis s1); s2 = s1\<lparr>sd_unis := sd_unis s1 @ [[]]\<rparr>
                in if \<not> io_header io i then (Inl UniWriteFailed, s2)
                   else (Inr (cid, Some i), write_uni i (to_be 2 cid) s2))
           else (Inr (cid, None), s1))"

definition get_send_context_id ::
    "quic_io \<Rightarrow> target_addr \<Rightarrow> udp_sender \<Rightarrow> (send_error + u16 \<times> nat option) \<times> udp_sender" where
  "get_send_context_id io target s =
     (case fmlookup (sd_cells s) target of
        Some item \<Rightarrow> (Inr item, s)
      | None \<Rightarrow>
          let context_id = sd_next_context_id s; s1 = s\<lparr>sd_next_context_id := context_id + 1\<rparr>
          in case u16_try_from (unat context_id) of
               None \<Rightarrow> (Inl ContextIdsExhausted, s1)
             | Some cid \<Rightarrow>
                 (case create_sender io cid target s1 of
                    (Inl e, s2) \<Rightarrow> (Inl e, s2)
                  | (Inr item, s2) \<Rightarrow> (Inr item, s2\<lparr>sd_cells := fmupd target item (sd_cells s2)\<rparr>)))"

fun send_uni :: "quic_io \<Rightarrow> nat \<Rightarrow> bytes \<Rightarrow> target_addr \<Rightarrow> udp_sender \<Rightarrow> (send_error + nat) \<times> udp_sender" where
  "send_uni io 0 buf addr s = (Inl SenderKeepsStopping, s)"
| "send_uni io (Suc n) buf addr s =
     (case get_send_context_id io addr s of
        (Inl e, s1) \<Rightarrow> (Inl e, s1)
      | (Inr (_, None), s1) \<Rightarrow> (Inl NotAUnistream, s1)
      | (Inr (_, Some i), s1) \<Rightarrow>
          (case u16_try_from (length buf) of
             None \<Rightarrow> (Inl PayloadTooLong, s1)
           | Some _ \<Rightarrow>
               (case io_write io i of
                  WriteOk \<Rightarrow> (Inr (length buf), write_uni i (uni_encode buf) s1)
                | WriteStopped \<Rightarrow> send_uni io n buf addr (s1\<lparr>sd_cells := fmdrop addr (sd_cells s1)\<rparr>)
                | WriteFailed \<Rightarrow> (Inl UniWriteFailed, s1))))"

definition send_to ::
    "quic_io \<Rightarrow> bytes \<Rightarrow> target_addr \<Rightarrow> target_addr \<Rightarrow> udp_sender \<Rightarrow> (send_error + nat) \<times> udp_sender" where
  "send_to io buf from target s =
     (let context_addr = (if sd_is_client s then target else from)
      in if sd_over_unistream s then send_uni io 2 buf context_addr s
         else
           (case get_send_context_id io context_addr s of
              (Inl e, s1) \<Rightarrow> (Inl e, s1)
            | (Inr (cid, _), s1) \<Rightarrow>
                let packet = to_be 2 cid @ buf
                in if (case io_max_datagram io of Some m \<Rightarrow> length packet > m | None \<Rightarrow> False)
                   then (Inr 0, s1)
                   else (case io_datagram io of
                           DatagramOk \<Rightarrow> (Inr (length buf), s1\<lparr>sd_datagrams := sd_datagrams s1 @ [packet]\<rparr>)
                         | DatagramTooLarge \<Rightarrow> (Inr 0, s1)
                         | DatagramFailed \<Rightarrow> (Inl SendDatagramFailed, s1))))"

subsection \<open>Requests on a bidirectional stream\<close>

definition read_context_id :: "bytes \<Rightarrow> (u16 \<times> bytes) option" where
  "read_context_id s = read_be 2 s"

definition SUNNY_QUIC_AUTH_LEN :: nat where "SUNNY_QUIC_AUTH_LEN = 64"

definition gen_sunny_auth_hash :: "(bytes \<Rightarrow> bytes) \<Rightarrow> bytes \<Rightarrow> bytes \<Rightarrow> bytes" where
  "gen_sunny_auth_hash sha256 username password =
     (let hash = sha256 (username @ [0x3A] @ password); len = min SUNNY_QUIC_AUTH_LEN (length hash)
      in take len hash @ replicate (SUNNY_QUIC_AUTH_LEN - len) 0)"

datatype request_error = RequestEof | AuthRequiresCmd5 | BadAuthHash | BadTarget addr_error

definition read_sunny_auth :: "bytes \<Rightarrow> request_error + bytes \<times> bytes" where
  "read_sunny_auth s =
     (case read_u8 s of None \<Rightarrow> Inl RequestEof
      | Some (cmd, s1) \<Rightarrow>
          if cmd \<noteq> 5 then Inl AuthRequiresCmd5
          else (case read_exact SUNNY_QUIC_AUTH_LEN s1 of None \<Rightarrow> Inl RequestEof | Some x \<Rightarrow> Inr x))"

definition auth_sunnyquic :: "bytes \<Rightarrow> bytes \<Rightarrow> request_error + bytes" where
  "auth_sunnyquic s expected =
     bindr (read_sunny_auth s) (\<lambda>(received, s1). if received \<noteq> expected then Inl BadAuthHash else Inr s1)"

definition lift_addr :: "addr_error + 'a \<Rightarrow> request_error + 'a" where
  "lift_addr r = (case r of Inl e \<Rightarrow> Inl (BadTarget e) | Inr x \<Rightarrow> Inr x)"

definition read_request_head :: "bytes \<Rightarrow> request_error + (u8 \<times> target_addr) \<times> bytes" where
  "read_request_head s =
     (case read_u8 s of None \<Rightarrow> Inl RequestEof
      | Some (cmd, s1) \<Rightarrow>
          if cmd = 0xFF then Inr ((cmd, dummy), s1)
          else bindr (lift_addr (read_from s1)) (\<lambda>(target, s2).
                 if cmd = 3 \<or> cmd = 4
                 then bindr (lift_addr (read_from s2)) (\<lambda>(target, s3). Inr ((cmd, target), s3))
                 else Inr ((cmd, target), s2)))"

datatype extension_request = GetConnStats | UserExtension | UnknownExtension

definition read_extension_request :: "bytes \<Rightarrow> request_error + extension_request \<times> bytes" where
  "read_extension_request s =
     (case (read_be 8 s :: (u64 \<times> bytes) option) of None \<Rightarrow> Inl RequestEof
      | Some (opcode, s1) \<Rightarrow>
          if opcode = 1 then
            (case read_u8 s1 of None \<Rightarrow> Inl RequestEof
             | Some (conn_opcode, s2) \<Rightarrow> Inr (if conn_opcode = 0 then GetConnStats else UnknownExtension, s2))
          else Inr (if opcode = 2 then UserExtension else UnknownExtension, s1))"

text \<open>An \<open>f64\<close> is its IEEE bit pattern.\<close>

definition write_conn_stats_response :: "u64 \<Rightarrow> u64 \<Rightarrow> u64 \<Rightarrow> u16 \<Rightarrow> bytes" where
  "write_conn_stats_response lost sent rtt_bits mtu =
     [0] @ to_be 4 (26 :: u32) @ to_be 8 lost @ to_be 8 sent @ to_be 8 rtt_bits @ to_be 2 mtu"

definition write_ext_error_not_available :: bytes where
  "write_ext_error_not_available = [1, 0]"

end
