(* ===== verification/Shadow_Udp_Laws.thy ===== *)
theory Shadow_Udp_Laws
  imports Shadow_Udp
begin

text \<open>
  The state of a ShadowQUIC connection that is at rest: the map of context ids and the receivers'
  own tables agree, all queues stay within their bounds and no channel is closed. Every operation
  of the connection keeps this when it runs without another task in between; the interleavings are
  the subject of \<open>Shadow_Udp_Tasks\<close>.
\<close>

subsection \<open>Updating one receiver\<close>

lemma upd_receiver_simps [simp]:
  "length (uc_receivers (upd_receiver r f c)) = length (uc_receivers c)"
  "uc_recv_map (upd_receiver r f c) = uc_recv_map c"
  "uc_waiting (upd_receiver r f c) = uc_waiting c"
  by (simp_all add: upd_receiver_def)

lemma upd_receiver_nth [simp]:
  "q < length (uc_receivers c) \<Longrightarrow>
     uc_receivers (upd_receiver r f c) ! q = (if q = r then f (uc_receivers c ! q) else uc_receivers c ! q)"
  by (auto simp: upd_receiver_def nth_list_update)

lemma unmap_simps [simp]:
  "uc_receivers (unmap r cid c) = uc_receivers c" "uc_waiting (unmap r cid c) = uc_waiting c"
  by (simp_all add: unmap_def)

lemma close_receiver_simps [simp]:
  "length (uc_receivers (close_receiver r c)) = length (uc_receivers c)"
  "uc_recv_map (close_receiver r c) = uc_recv_map c" "uc_waiting (close_receiver r c) = uc_waiting c"
  by (simp_all add: close_receiver_def)

lemma bound_remove_simps [simp]:
  "length (uc_receivers (bound_remove r cid c)) = length (uc_receivers c)"
  "uc_recv_map (bound_remove r cid c) = uc_recv_map c" "uc_waiting (bound_remove r cid c) = uc_waiting c"
  by (simp_all add: bound_remove_def)

lemma waiting_updates [simp]:
  "uc_receivers (drop_waiting cid c) = uc_receivers c" "uc_recv_map (drop_waiting cid c) = uc_recv_map c"
  "uc_receivers (put_waiting cid w c) = uc_receivers c" "uc_recv_map (put_waiting cid w c) = uc_recv_map c"
  "uc_receivers (set_task cid w t c) = uc_receivers c" "uc_recv_map (set_task cid w t c) = uc_recv_map c"
  "uc_waiting (drop_waiting cid c) = fmdrop cid (uc_waiting c)"
  "uc_waiting (put_waiting cid w c) = fmupd cid w (uc_waiting c)"
  "uc_waiting (set_task cid w t c) = fmupd cid (w\<lparr>wb_task := t\<rparr>) (uc_waiting c)"
  by (simp_all add: drop_waiting_def put_waiting_def set_task_def)

subsection \<open>The invariant of a connection\<close>

definition bindings_agree :: "udp_conn \<Rightarrow> bool" where
  "bindings_agree c \<longleftrightarrow>
     (\<forall>r < length (uc_receivers c). \<forall>cid.
        fmlookup (rc_bound (uc_receivers c ! r)) cid \<noteq> None \<longleftrightarrow> fmlookup (uc_recv_map c) cid = Some r)"

definition mapped_ok :: "udp_conn \<Rightarrow> bool" where
  "mapped_ok c \<longleftrightarrow> (\<forall>cid r. fmlookup (uc_recv_map c) cid = Some r \<longrightarrow> r < length (uc_receivers c))"

definition queues_ok :: "udp_conn \<Rightarrow> bool" where
  "queues_ok c \<longleftrightarrow>
     (\<forall>r < length (uc_receivers c). chan_ok UDP_RECEIVE_QUEUE_CAPACITY (rc_queue (uc_receivers c ! r)))"

text \<open>The receiver a buffer's task works for.\<close>

fun waiter_receiver :: "waiter \<Rightarrow> nat option" where
  "waiter_receiver (Looping r) = Some r"
| "waiter_receiver (Feeding r p) = Some r"
| "waiter_receiver (Sending r t p) = Some r"
| "waiter_receiver (ClosingSession r) = Some r"
| "waiter_receiver _ = None"

definition waiting_ok :: "udp_conn \<Rightarrow> bool" where
  "waiting_ok c \<longleftrightarrow> hm_len (uc_waiting c) \<le> MAX_WAITING_DATAGRAM_CONTEXTS \<and>
     (\<forall>cid w. fmlookup (uc_waiting c) cid = Some w \<longrightarrow>
        chan_ok WAITING_DATAGRAM_QUEUE_CAPACITY (wb_queue w) \<and>
        (\<forall>r. waiter_receiver (wb_task w) = Some r \<longrightarrow> r < length (uc_receivers c)))"

definition conn_ok :: "udp_conn \<Rightarrow> bool" where
  "conn_ok c \<longleftrightarrow> mapped_ok c \<and> queues_ok c \<and> waiting_ok c"

definition udp_inv :: "udp_conn \<Rightarrow> bool" where
  "udp_inv c \<longleftrightarrow> bindings_agree c \<and> conn_ok c"

lemmas conn_ok_defs = conn_ok_def mapped_ok_def queues_ok_def waiting_ok_def

lemma conn_ok_new: "conn_ok conn_new"
  by (simp add: conn_ok_defs conn_new_def)

lemma conn_ok_add_receiver: "conn_ok c \<Longrightarrow> conn_ok (add_receiver c)"
  unfolding conn_ok_defs add_receiver_def
  by (fastforce simp: nth_append receiver_new_def less_Suc_eq)

lemma conn_ok_upd:
  assumes "conn_ok c"
    and "\<And>x. chan_ok UDP_RECEIVE_QUEUE_CAPACITY (rc_queue x) \<Longrightarrow> x = uc_receivers c ! r \<Longrightarrow>
      chan_ok UDP_RECEIVE_QUEUE_CAPACITY (rc_queue (f x))"
  shows "conn_ok (upd_receiver r f c)"
  using assms by (simp add: conn_ok_defs)

lemma conn_ok_close: "conn_ok c \<Longrightarrow> conn_ok (close_receiver r c)"
  unfolding close_receiver_def by (rule conn_ok_upd) auto

lemma conn_ok_send:
  "conn_ok c \<Longrightarrow> r < length (uc_receivers c) \<Longrightarrow>
     conn_ok (upd_receiver r (\<lambda>x. x\<lparr>rc_queue := snd (try_send y (rc_queue (uc_receivers c ! r)))\<rparr>) c)"
  by (intro conn_ok_upd) (auto simp: conn_ok_defs intro: chan_ok_try_send)

lemma conn_ok_unmap: "conn_ok c \<Longrightarrow> conn_ok (unmap r cid c)"
  by (auto simp: unmap_def conn_ok_defs split: if_splits)

lemma conn_ok_bound_remove: "conn_ok c \<Longrightarrow> conn_ok (bound_remove r cid c)"
  unfolding bound_remove_def by (rule conn_ok_upd) auto

lemma conn_ok_waiting:
  assumes "conn_ok c" and "waiting_ok (c\<lparr>uc_waiting := m\<rparr>)"
  shows "conn_ok (c\<lparr>uc_waiting := m\<rparr>)"
  using assms by (simp add: conn_ok_def mapped_ok_def queues_ok_def)

lemma conn_ok_drop_waiting: "conn_ok c \<Longrightarrow> conn_ok (drop_waiting cid c)"
  unfolding drop_waiting_def
  by (rule conn_ok_waiting) (auto simp: conn_ok_def waiting_ok_def intro: le_trans [OF hm_len_drop_le])

lemma conn_ok_put_waiting:
  assumes "conn_ok c" and "chan_ok WAITING_DATAGRAM_QUEUE_CAPACITY (wb_queue w)"
    and "\<And>r. waiter_receiver (wb_task w) = Some r \<Longrightarrow> r < length (uc_receivers c)"
    and "cid |\<in>| fmdom (uc_waiting c) \<or> hm_len (uc_waiting c) < MAX_WAITING_DATAGRAM_CONTEXTS"
  shows "conn_ok (put_waiting cid w c)"
  unfolding put_waiting_def using assms
  by (intro conn_ok_waiting) (auto simp: conn_ok_def waiting_ok_def hm_len_insert split: if_splits)

lemma waiting_lookup:
  assumes "conn_ok c" and "fmlookup (uc_waiting c) cid = Some w"
  shows "chan_ok WAITING_DATAGRAM_QUEUE_CAPACITY (wb_queue w)"
    and "waiter_receiver (wb_task w) = Some r \<Longrightarrow> r < length (uc_receivers c)"
    and "cid |\<in>| fmdom (uc_waiting c)"
  using assms by (auto simp: conn_ok_def waiting_ok_def fmlookup_dom_iff)

lemma conn_ok_put_task:
  assumes "conn_ok c" and "fmlookup (uc_waiting c) cid = Some w"
    and "chan_ok WAITING_DATAGRAM_QUEUE_CAPACITY q" and "\<And>r. waiter_receiver t = Some r \<Longrightarrow> r < length (uc_receivers c)"
  shows "conn_ok (put_waiting cid (w\<lparr>wb_queue := q, wb_task := t\<rparr>) c)"
  using assms waiting_lookup(3) [OF assms(1,2)] by (intro conn_ok_put_waiting) auto

lemma conn_ok_set_task:
  assumes "conn_ok c" and "fmlookup (uc_waiting c) cid = Some w"
    and "\<And>r. waiter_receiver t = Some r \<Longrightarrow> r < length (uc_receivers c)"
  shows "conn_ok (set_task cid w t c)"
  using assms waiting_lookup [OF assms(1,2)] unfolding set_task_def by (intro conn_ok_put_waiting) auto

lemma mapped_receiver: "conn_ok c \<Longrightarrow> fmlookup (uc_recv_map c) cid = Some r \<Longrightarrow> r < length (uc_receivers c)"
  by (simp add: conn_ok_def mapped_ok_def)

lemma conn_ok_feed:
  assumes "conn_ok c" and "r < length (uc_receivers c)"
  shows "conn_ok (snd (feed_datagram r p cid c))"
proof (cases "fmlookup (rc_bound (uc_receivers c ! r)) cid")
  case (Some t)
  with assms conn_ok_send [OF assms, of "(t, p)"] show ?thesis
    by (auto simp: feed_datagram_def Let_def conn_ok_close split: prod.splits try_send_result.splits)
qed (use assms in \<open>simp add: feed_datagram_def\<close>)

lemma conn_ok_handle_datagram:
  assumes "conn_ok c"
  shows "conn_ok (snd (handle_datagram d c))"
proof -
  let ?cid = "from_be (take 2 d) :: u16"
  let ?w = "case fmlookup (uc_waiting c) ?cid of None \<Rightarrow> buffer_new | Some w \<Rightarrow> w"
  let ?s = "try_send (drop 2 d) (wb_queue ?w)"
  have w: "chan_ok WAITING_DATAGRAM_QUEUE_CAPACITY (wb_queue ?w)"
      "waiter_receiver (wb_task ?w) = Some r \<Longrightarrow> r < length (uc_receivers c)" for r
    using waiting_lookup [OF assms] by (auto simp: buffer_new_def split: option.splits)
  have put: "conn_ok (put_waiting ?cid ?w c) \<and>
      conn_ok (put_waiting ?cid (?w\<lparr>wb_queue := snd ?s\<rparr>) (put_waiting ?cid ?w c)) \<and>
      conn_ok (put_waiting ?cid (?w\<lparr>wb_queue := snd ?s, wb_task := Waiting\<rparr>) (put_waiting ?cid ?w c)) \<and>
      conn_ok (drop_waiting ?cid (put_waiting ?cid ?w c))"
    if "?cid |\<in>| fmdom (uc_waiting c) \<or> hm_len (uc_waiting c) < MAX_WAITING_DATAGRAM_CONTEXTS"
  proof (intro conjI)
    show p: "conn_ok (put_waiting ?cid ?w c)" using assms w that by (intro conn_ok_put_waiting) auto
    then show "conn_ok (drop_waiting ?cid (put_waiting ?cid ?w c))" by (rule conn_ok_drop_waiting)
    from p show "conn_ok (put_waiting ?cid (?w\<lparr>wb_queue := snd ?s\<rparr>) (put_waiting ?cid ?w c))"
      by (rule conn_ok_put_waiting) (use w in \<open>auto simp: chan_ok_try_send\<close>)
    from p show "conn_ok (put_waiting ?cid (?w\<lparr>wb_queue := snd ?s, wb_task := Waiting\<rparr>) (put_waiting ?cid ?w c))"
      by (rule conn_ok_put_waiting) (use w in \<open>auto simp: chan_ok_try_send\<close>)
  qed
  show ?thesis
  proof (cases "length d < 2 \<or> fmlookup (uc_recv_map c) ?cid \<noteq> None \<or>
      (?cid |\<notin>| fmdom (uc_waiting c) \<and> hm_len (uc_waiting c) \<ge> MAX_WAITING_DATAGRAM_CONTEXTS)")
    case True
    with assms show ?thesis
      by (auto simp: handle_datagram_def Let_def conn_ok_feed mapped_receiver split: option.split)
  next
    case False
    then have "?cid |\<in>| fmdom (uc_waiting c) \<or> hm_len (uc_waiting c) < MAX_WAITING_DATAGRAM_CONTEXTS" by auto
    note put = put [OF this]
    obtain res q where s: "?s = (res, q)" by (cases ?s)
    with put False show ?thesis
      by (cases res; cases "?cid |\<in>| fmdom (uc_waiting c)") (auto simp: handle_datagram_def Let_def)
  qed
qed

lemma conn_ok_waiter:
  assumes "conn_ok c"
  shows "conn_ok (waiter_acquire cid c)" and "conn_ok (waiter_timeout cid c)" and "conn_ok (waiter_closed cid c)"
    and "conn_ok (waiter_take cid c)"
proof -
  show "conn_ok (waiter_take cid c)"
  proof (cases "fmlookup (uc_waiting c) cid")
    case (Some w)
    with assms waiting_lookup(2) [OF assms Some] chan_ok_try_recv [OF waiting_lookup(1) [OF assms Some]] show ?thesis
      by (auto simp: waiter_take_def intro!: conn_ok_put_task split: waiter.split prod.splits option.split)
  qed (simp add: waiter_take_def assms)
qed (use assms in \<open>auto simp: waiter_acquire_def waiter_timeout_def waiter_closed_def mapped_receiver
      intro!: conn_ok_set_task split: option.split waiter.split\<close>)

lemma conn_ok_waiter_step:
  assumes "conn_ok c"
  shows "conn_ok (waiter_step cid c)"
proof (cases "fmlookup (uc_waiting c) cid")
  case (Some w)
  note r = waiting_lookup(2) [OF assms Some]
  have send: "conn_ok (set_task cid w (Looping r) (upd_receiver r (\<lambda>x. x\<lparr>rc_queue := snd (try_send y (rc_queue (uc_receivers c ! r)))\<rparr>) c))"
    if "waiter_receiver (wb_task w) = Some r" for r y
    using conn_ok_send [OF assms r [OF that]] r [OF that] Some by (intro conn_ok_set_task) auto
  have close: "conn_ok (set_task cid w Removing (close_receiver r c))" for r
    using conn_ok_close [OF assms] Some by (intro conn_ok_set_task) (auto simp: close_receiver_def)
  show ?thesis
  proof (cases "wb_task w")
    case (Sending r t p)
    then have "conn_ok (set_task cid w (Looping r) c)" "conn_ok (set_task cid w (ClosingSession r) c)"
      using r by (auto intro!: conn_ok_set_task [OF assms Some])
    with Sending send [of r "(t, p)"] Some show ?thesis
      by (auto simp: waiter_step_def split: prod.splits try_send_result.splits)
  qed (use assms Some r close in \<open>auto simp: waiter_step_def conn_ok_drop_waiting intro!: conn_ok_set_task split: option.split\<close>)
qed (simp add: waiter_step_def assms)

lemma conn_ok_recv_many:
  assumes "conn_ok c" and "recv_many cl remote r c = Some (ps, c')"
  shows "conn_ok c'"
  using assms
  by (auto simp: recv_many_def chan_ok_def intro!: conn_ok_upd split: list.splits)

lemma conn_ok_bind:
  assumes "conn_ok c" and "r < length (uc_receivers c)"
  shows "conn_ok (snd (bind_context_id r t cid c))"
proof -
  have "conn_ok (upd_receiver r (\<lambda>x. x\<lparr>rc_bound := fmupd cid t (rc_bound x)\<rparr>) c)" using assms(1) by (rule conn_ok_upd) auto
  with assms show ?thesis by (auto simp: bind_context_id_def conn_ok_defs split: option.split)
qed

subsection \<open>Agreement of the maps, one operation at a time\<close>

lemma udp_inv_new: "udp_inv conn_new"
  unfolding udp_inv_def using conn_ok_new by (simp add: bindings_agree_def conn_new_def)

lemma udp_inv_add_receiver: "udp_inv c \<Longrightarrow> udp_inv (add_receiver c)"
proof -
  assume inv: "udp_inv c"
  then have "fmlookup (uc_recv_map c) cid \<noteq> Some (length (uc_receivers c))" for cid
    using mapped_receiver [of c cid "length (uc_receivers c)"] by (auto simp: udp_inv_def)
  with inv show ?thesis using conn_ok_add_receiver [of c] unfolding udp_inv_def
    by (auto simp: bindings_agree_def add_receiver_def nth_append receiver_new_def less_Suc_eq)
qed

lemma udp_inv_bind:
  assumes "udp_inv c" and "r < length (uc_receivers c)"
  shows "udp_inv (snd (bind_context_id r t cid c))"
  using assms conn_ok_bind [of c r t cid] unfolding udp_inv_def
  by (auto simp: bind_context_id_def bindings_agree_def split: option.split)

lemma bindings_agree_upd: "bindings_agree c \<Longrightarrow> (\<And>x. rc_bound (f x) = rc_bound x) \<Longrightarrow> bindings_agree (upd_receiver r f c)"
  by (simp add: bindings_agree_def)

lemma bindings_agree_waiting [simp]:
  "bindings_agree (put_waiting cid w c) = bindings_agree c" "bindings_agree (drop_waiting cid c) = bindings_agree c"
  "bindings_agree (set_task cid w t c) = bindings_agree c"
  by (simp_all add: bindings_agree_def set_task_def)

lemma udp_inv_handle_datagram:
  assumes "udp_inv c"
  shows "udp_inv (snd (handle_datagram d c))"
proof -
  have "bindings_agree (snd (feed_datagram r p cid c))" if "bindings_agree c" for r p cid
    using that by (auto simp: feed_datagram_def Let_def close_receiver_def intro!: bindings_agree_upd
        split: option.split prod.split try_send_result.split)
  then show ?thesis using assms conn_ok_handle_datagram unfolding udp_inv_def
    by (auto simp: handle_datagram_def Let_def split: option.split prod.split try_send_result.split)
qed

lemma udp_inv_waiter:
  assumes "udp_inv c"
  shows "udp_inv (waiter_acquire cid c)" and "udp_inv (waiter_take cid c)" and "udp_inv (waiter_step cid c)"
  using assms conn_ok_waiter conn_ok_waiter_step unfolding udp_inv_def
  by (auto simp: waiter_acquire_def waiter_take_def waiter_step_def close_receiver_def intro!: bindings_agree_upd
      split: option.split waiter.split prod.split try_send_result.split)

lemma unbind_inv:
  assumes "udp_inv c" and "r < length (uc_receivers c)"
  shows "udp_inv (unmap r cid (bound_remove r cid c))"
  using assms conn_ok_unmap [OF conn_ok_bound_remove, of c r cid r cid] unfolding udp_inv_def
  by (auto simp: unmap_def bound_remove_def bindings_agree_def split: if_splits)

lemma udp_inv_clean:
  assumes "udp_inv c" and "r < length (uc_receivers c)"
  shows "udp_inv (clean r c)"
proof -
  have "udp_inv (fold (\<lambda>cid c. unmap r cid (bound_remove r cid c)) cids c)" for cids
    using assms by (induction cids arbitrary: c) (simp_all add: unbind_inv)
  then show ?thesis by (simp add: clean_def)
qed

lemma udp_inv_worker_exit:
  assumes "udp_inv c" and "r < length (uc_receivers c)"
  shows "udp_inv (worker_exit r cid c)"
  using unbind_inv [OF assms, of cid] unfolding worker_exit_def Let_def udp_inv_def
  by (auto simp: conn_ok_close close_receiver_def intro: bindings_agree_upd conn_ok_close [unfolded close_receiver_def])

end
