(* ===== verification/Shadow_Udp_Flow.thy ===== *)
theory Shadow_Udp_Flow
  imports Shadow_Udp_Laws
begin

text \<open>
  The data path of a ShadowQUIC UDP session, from the sender's calls to the receiver's queue:
  stream packets under any chunking, early datagrams, allocation of context ids, and the
  composition of a client with its peer.
\<close>

subsection \<open>Stream packets\<close>

lemma uni_decode_encode:
  "length p < 65536 \<Longrightarrow> uni_decode (uni_encode p @ rest) = Some (p, rest)"
  by (simp add: uni_decode_def uni_encode_def from_be_to_be_id unat_of_nat_u16 Let_def)

lemma uni_decode_more: "uni_decode b = Some (p, r) \<Longrightarrow> uni_decode (b @ m) = Some (p, r @ m)"
  by (auto simp: uni_decode_def Let_def split: if_splits)

lemma uni_decode_consumes: "uni_decode b = Some (p, r) \<Longrightarrow> length r < length b"
  by (auto simp: uni_decode_def Let_def split: if_splits)

interpretation uni_packets: incremental_codec "\<lambda>p. length p < 65536" uni_encode uni_decode
  by unfold_locales (simp_all add: uni_decode_encode uni_decode_more uni_decode_consumes)

lemma uni_read_decode:
  assumes "uni_decode (buf @ wire st) = Some (p, rest)"
  obtains st' buf' where "uni_read st buf = (Inr p, st', buf')" and "buf' @ wire st' = rest"
proof -
  let ?b = "buf @ wire st"
  from assms have two: "2 \<le> length ?b" by (auto simp: uni_decode_def Let_def split: if_splits)
  then obtain st1 buf1 where f1: "fill st buf 2 False = (Filled, st1, buf1)" and l1: "2 \<le> length buf1"
    and e1: "buf1 @ wire st1 = ?b"
    by (rule fill_enough)
  define len where "len = unat (from_be (take 2 buf1) :: u16)"
  have len: "len = unat (from_be (take 2 ?b) :: u16)" using l1 e1 [symmetric] by (simp add: len_def)
  with assms have l: "2 + len \<le> length (buf1 @ wire st1)" and p: "p = take len (drop 2 ?b)"
    and r: "rest = drop (2 + len) ?b"
    unfolding e1 by (auto simp: uni_decode_def Let_def split: if_splits)
  then obtain st2 buf2 where f2: "fill st1 buf1 (2 + len) False = (Filled, st2, buf2)"
    and l2: "2 + len \<le> length buf2" and e2: "buf2 @ wire st2 = ?b"
    using e1 by (metis fill_enough)
  have "uni_read st buf = (Inr (take len (drop 2 buf2)), st2, drop len (drop 2 buf2))"
    using f1 f2 by (simp add: uni_read_def len_def Let_def)
  moreover have "take len (drop 2 buf2) = p" "drop len (drop 2 buf2) @ wire st2 = rest"
    using l2 e2 [symmetric] p r by (simp_all add: add.commute)
  ultimately show thesis using that by simp
qed

lemma uni_read_n_packets:
  assumes "list_all (\<lambda>p. length p < 65536) ps" and "buf @ wire st = concat (map uni_encode ps) @ rest"
  shows "\<exists>st' buf'. uni_read_n (length ps) st buf = Some (ps, st', buf') \<and> buf' @ wire st' = rest"
  using assms
proof (induction ps arbitrary: st buf)
  case (Cons p ps)
  then have "uni_decode (buf @ wire st) = Some (p, concat (map uni_encode ps) @ rest)"
    by (simp add: uni_decode_encode)
  then obtain st1 buf1 where r: "uni_read st buf = (Inr p, st1, buf1)"
    and w: "buf1 @ wire st1 = concat (map uni_encode ps) @ rest"
    by (rule uni_read_decode)
  with Cons.IH [OF _ w] Cons.prems(1) show ?case by auto
qed simp

subsection \<open>Early datagrams\<close>

definition dgram :: "u16 \<Rightarrow> bytes \<Rightarrow> bytes" where
  "dgram cid p = to_be 2 cid @ p"

lemma dgram_parts [simp]:
  "\<not> length (dgram cid p) < 2" "(from_be (take 2 (dgram cid p)) :: u16) = cid" "drop 2 (dgram cid p) = p"
  by (simp_all add: dgram_def from_be_to_be_id)

definition handle_all :: "bytes list \<Rightarrow> udp_conn \<Rightarrow> udp_conn" where
  "handle_all ds c = fold (\<lambda>d c. snd (handle_datagram d c)) ds c"

lemma handle_all_simps [simp]:
  "handle_all [] c = c" "handle_all (d # ds) c = handle_all ds (snd (handle_datagram d c))"
  by (simp_all add: handle_all_def)

lemma handle_early:
  assumes "udp_inv c" and "fmlookup (uc_recv_map c) cid = None"
    and "fmlookup (uc_waiting c) cid = Some w" and "length (ch_items (wb_queue w)) < WAITING_DATAGRAM_QUEUE_CAPACITY"
  shows "snd (handle_datagram (dgram cid p) c) =
    put_waiting cid (w\<lparr>wb_queue := (wb_queue w)\<lparr>ch_items := ch_items (wb_queue w) @ [p]\<rparr>\<rparr>) (put_waiting cid w c)"
proof -
  have "try_send p (wb_queue w) = (SendOk, (wb_queue w)\<lparr>ch_items := ch_items (wb_queue w) @ [p]\<rparr>)"
    using waiting_lookup(1) [OF _ assms(3)] assms(1,4) by (intro try_send_room) (auto simp: udp_inv_def)
  with assms(1-3) waiting_lookup(3) [OF _ assms(3)] show ?thesis
    by (simp add: handle_datagram_def Let_def udp_inv_def)
qed

lemma handle_early_all:
  assumes "udp_inv c" and "fmlookup (uc_recv_map c) cid = None"
    and "fmlookup (uc_waiting c) cid = Some w"
    and "length (ch_items (wb_queue w)) + length ps \<le> WAITING_DATAGRAM_QUEUE_CAPACITY"
  shows "\<exists>w'. fmlookup (uc_waiting (handle_all (map (dgram cid) ps) c)) cid = Some w' \<and>
    ch_items (wb_queue w') = ch_items (wb_queue w) @ ps \<and> wb_task w' = wb_task w \<and>
    uc_recv_map (handle_all (map (dgram cid) ps) c) = uc_recv_map c \<and>
    uc_receivers (handle_all (map (dgram cid) ps) c) = uc_receivers c \<and>
    udp_inv (handle_all (map (dgram cid) ps) c)"
  using assms
proof (induction ps arbitrary: c w)
  case (Cons p ps)
  let ?w = "w\<lparr>wb_queue := (wb_queue w)\<lparr>ch_items := ch_items (wb_queue w) @ [p]\<rparr>\<rparr>"
  let ?c = "snd (handle_datagram (dgram cid p) c)"
  have c: "?c = put_waiting cid ?w (put_waiting cid w c)"
    using Cons.prems by (intro handle_early) auto
  have "udp_inv ?c" by (rule udp_inv_handle_datagram) fact
  moreover have "fmlookup (uc_recv_map ?c) cid = None" "fmlookup (uc_waiting ?c) cid = Some ?w"
    "uc_recv_map ?c = uc_recv_map c" "uc_receivers ?c = uc_receivers c"
    using Cons.prems(2) by (simp_all add: c)
  ultimately show ?case using Cons.IH [of ?c ?w] Cons.prems(4) by simp
qed simp

lemma handle_first:
  assumes "udp_inv c" and "fmlookup (uc_recv_map c) cid = None" and "cid |\<notin>| fmdom (uc_waiting c)"
    and "hm_len (uc_waiting c) < MAX_WAITING_DATAGRAM_CONTEXTS"
  shows "\<exists>w. fmlookup (uc_waiting (snd (handle_datagram (dgram cid p) c))) cid = Some w \<and>
    ch_items (wb_queue w) = [p] \<and> wb_task w = Waiting"
    and "uc_recv_map (snd (handle_datagram (dgram cid p) c)) = uc_recv_map c"
    and "uc_receivers (snd (handle_datagram (dgram cid p) c)) = uc_receivers c"
  using assms
  by (auto simp: handle_datagram_def Let_def fmdom_notD buffer_new_def try_send_def channel_def
      WAITING_DATAGRAM_QUEUE_CAPACITY_def)

text \<open>The task takes a payload, looks up the address and hands over the packet.\<close>

definition forward :: "u16 \<Rightarrow> udp_conn \<Rightarrow> udp_conn" where
  "forward cid c = waiter_step cid (waiter_step cid (waiter_take cid c))"

lemma forward_one:
  assumes "udp_inv c" and "fmlookup (uc_waiting c) cid = Some w" and "wb_task w = Looping r"
    and "ch_items (wb_queue w) = p # ps" and "fmlookup (rc_bound (uc_receivers c ! r)) cid = Some t"
    and "length (ch_items (rc_queue (uc_receivers c ! r))) < UDP_RECEIVE_QUEUE_CAPACITY"
  shows "\<exists>w'. fmlookup (uc_waiting (forward cid c)) cid = Some w' \<and> wb_task w' = Looping r \<and>
      ch_items (wb_queue w') = ps \<and>
      uc_receivers (forward cid c) ! r = (uc_receivers c ! r)
        \<lparr>rc_queue := (rc_queue (uc_receivers c ! r))\<lparr>ch_items := ch_items (rc_queue (uc_receivers c ! r)) @ [(t, p)]\<rparr>\<rparr>"
proof -
  let ?q = "rc_queue (uc_receivers c ! r)"
  have r: "r < length (uc_receivers c)" using waiting_lookup(2) [OF _ assms(2), of r] assms(1,3) by (simp add: udp_inv_def)
  then have "try_send (t, p) ?q = (SendOk, ?q\<lparr>ch_items := ch_items ?q @ [(t, p)]\<rparr>)"
    using assms(1,6) by (intro try_send_room) (auto simp: udp_inv_def conn_ok_def queues_ok_def)
  with assms(2-5) r show ?thesis by (simp add: forward_def waiter_take_def waiter_step_def try_recv_def)
qed

lemma forward_all:
  assumes "udp_inv c" and "fmlookup (uc_waiting c) cid = Some w" and "wb_task w = Looping r"
    and "ch_items (wb_queue w) = ps" and "fmlookup (rc_bound (uc_receivers c ! r)) cid = Some t"
    and "length (ch_items (rc_queue (uc_receivers c ! r))) + length ps \<le> UDP_RECEIVE_QUEUE_CAPACITY"
  shows "ch_items (rc_queue (uc_receivers ((forward cid ^^ length ps) c) ! r)) =
    ch_items (rc_queue (uc_receivers c ! r)) @ map (Pair t) ps"
  using assms
proof (induction ps arbitrary: c w)
  case (Cons p ps)
  let ?c = "forward cid c"
  obtain w' where w': "fmlookup (uc_waiting ?c) cid = Some w'" "wb_task w' = Looping r"
    "ch_items (wb_queue w') = ps" and rc: "uc_receivers ?c ! r = (uc_receivers c ! r)
        \<lparr>rc_queue := (rc_queue (uc_receivers c ! r))\<lparr>ch_items := ch_items (rc_queue (uc_receivers c ! r)) @ [(t, p)]\<rparr>\<rparr>"
    using forward_one [OF Cons.prems(1-5)] Cons.prems(6) by auto
  have "udp_inv ?c" unfolding forward_def using Cons.prems(1) by (intro udp_inv_waiter)
  from Cons.IH [OF this w'] Cons.prems(5,6) rc show ?case by (simp add: funpow_swap1)
qed simp

subsection \<open>Context ids of a sender\<close>

definition next_id :: "udp_sender \<Rightarrow> nat" where
  "next_id s = unat (sd_next_context_id s)"

text \<open>Cells hold pairwise different ids, all allocated from this sender's range.\<close>

definition ids_ok :: "nat \<Rightarrow> udp_sender \<Rightarrow> bool" where
  "ids_ok lo s \<longleftrightarrow> lo \<le> next_id s \<and>
     (\<forall>t x. fmlookup (sd_cells s) t = Some x \<longrightarrow> lo \<le> unat (fst x) \<and> unat (fst x) < next_id s) \<and>
     (\<forall>t t' x x'. fmlookup (sd_cells s) t = Some x \<longrightarrow> fmlookup (sd_cells s) t' = Some x' \<longrightarrow>
        fst x = fst x' \<longrightarrow> t = t')"

lemma create_sender_cells:
  "sd_cells (snd (create_sender io cid t s)) = sd_cells s"
  "sd_next_context_id (snd (create_sender io cid t s)) = sd_next_context_id s"
  "fst (create_sender io cid t s) = Inr x \<Longrightarrow> fst x = cid"
  by (auto simp: create_sender_def Let_def write_uni_def split: if_splits)

lemma next_id_Suc:
  "next_id s < 2 ^ 32 - 1 \<Longrightarrow> unat (sd_next_context_id s + 1) = Suc (next_id s)"
  unfolding next_id_def by (simp add: unat_word_ariths)

lemma get_ids:
  assumes "ids_ok lo s" and "next_id s < 2 ^ 32 - 1"
  shows "ids_ok lo (snd (get_send_context_id io t s))"
    and "next_id (snd (get_send_context_id io t s)) \<le> Suc (next_id s)"
proof -
  have "ids_ok lo (snd (get_send_context_id io t s)) \<and> next_id (snd (get_send_context_id io t s)) \<le> Suc (next_id s)"
  proof (cases "fmlookup (sd_cells s) t")
    case None
    let ?s1 = "s\<lparr>sd_next_context_id := sd_next_context_id s + 1\<rparr>"
    have n1: "next_id ?s1 = Suc (next_id s)" using next_id_Suc [OF assms(2)] by (simp add: next_id_def)
    have ok1: "ids_ok lo ?s1"
      using assms(1) n1 unfolding ids_ok_def by (auto simp: less_SucI)
    show ?thesis
    proof (cases "u16_try_from (next_id s)")
      case none: None
      with None ok1 n1 show ?thesis by (simp add: get_send_context_id_def Let_def next_id_def)
    next
      case (Some cid)
      then have cid: "unat cid = next_id s"
        by (auto simp: u16_try_from_def unat_of_nat_u16 split: if_splits)
      obtain r s2 where cs: "create_sender io cid t ?s1 = (r, s2)" by (cases "create_sender io cid t ?s1")
      have c2: "sd_cells s2 = sd_cells s" "next_id s2 = Suc (next_id s)"
        using create_sender_cells [of io cid t ?s1] cs n1 by (simp_all add: next_id_def)
      then have ok2: "ids_ok lo s2" using ok1 n1 by (simp add: ids_ok_def)
      show ?thesis
      proof (cases r)
        case (Inl e)
        with None Some cs c2 ok2 show ?thesis by (simp add: get_send_context_id_def Let_def next_id_def)
      next
        case (Inr x)
        with create_sender_cells(3) [of io cid t ?s1 x] cs have "fst x = cid" by simp
        then have "ids_ok lo (s2\<lparr>sd_cells := fmupd t x (sd_cells s2)\<rparr>)"
          using assms(1) cid c2 unfolding ids_ok_def next_id_def
          by (auto simp: less_SucI) (metis less_irrefl)+
        with None Some cs Inr c2 show ?thesis by (simp add: get_send_context_id_def Let_def next_id_def)
      qed
    qed
  qed (use assms in \<open>simp add: get_send_context_id_def\<close>)
  then show "ids_ok lo (snd (get_send_context_id io t s))"
    and "next_id (snd (get_send_context_id io t s)) \<le> Suc (next_id s)" by simp_all
qed

lemma ids_ok_drop: "ids_ok lo s \<Longrightarrow> ids_ok lo (s\<lparr>sd_cells := fmdrop t (sd_cells s)\<rparr>)"
  by (auto simp: ids_ok_def next_id_def split: if_splits)

lemma ids_ok_out:
  "ids_ok lo (write_uni i bs s) = ids_ok lo s" "ids_ok lo (s\<lparr>sd_datagrams := ds\<rparr>) = ids_ok lo s"
  "next_id (write_uni i bs s) = next_id s" "next_id (s\<lparr>sd_datagrams := ds\<rparr>) = next_id s"
  "next_id (s\<lparr>sd_cells := m\<rparr>) = next_id s"
  by (simp_all add: ids_ok_def next_id_def write_uni_def)

lemma send_uni_ids:
  assumes "ids_ok lo s" and "next_id s + n < 2 ^ 32"
  shows "ids_ok lo (snd (send_uni io n buf t s)) \<and> next_id (snd (send_uni io n buf t s)) \<le> next_id s + n"
  using assms
proof (induction n arbitrary: s)
  case (Suc n)
  obtain r s1 where g: "get_send_context_id io t s = (r, s1)" by (cases "get_send_context_id io t s")
  have ok: "ids_ok lo s1" "next_id s1 \<le> Suc (next_id s)"
    using get_ids [OF Suc.prems(1), of io t] Suc.prems(2) g by simp_all
  let ?s = "s1\<lparr>sd_cells := fmdrop t (sd_cells s1)\<rparr>"
  have IH: "ids_ok lo (snd (send_uni io n buf t ?s)) \<and> next_id (snd (send_uni io n buf t ?s)) \<le> next_id ?s + n"
    using ok Suc.prems(2) by (intro Suc.IH ids_ok_drop) (auto simp: ids_ok_out)
  then show ?case using g ok
    by (auto simp: ids_ok_out split: sum.split option.split write_result.split)
qed (simp add: ids_ok_out)

lemma send_to_ids:
  assumes "ids_ok lo s" and "next_id s + 2 < 2 ^ 32"
  shows "ids_ok lo (snd (send_to io buf from t s)) \<and> next_id (snd (send_to io buf from t s)) \<le> next_id s + 2"
proof (cases "sd_over_unistream s")
  case True
  with send_uni_ids [OF assms] show ?thesis by (simp add: send_to_def)
next
  case False
  obtain r s1 where g: "get_send_context_id io (if sd_is_client s then t else from) s = (r, s1)"
    by (cases "get_send_context_id io (if sd_is_client s then t else from) s")
  have "ids_ok lo s1" "next_id s1 \<le> Suc (next_id s)"
    using get_ids [OF assms(1), of io "if sd_is_client s then t else from"] assms(2) g by simp_all
  with False g show ?thesis
    by (auto simp: send_to_def Let_def ids_ok_out split: sum.split option.split datagram_result.split)
qed

fun send_all :: "(quic_io \<times> bytes \<times> target_addr \<times> target_addr) list \<Rightarrow> udp_sender \<Rightarrow> udp_sender" where
  "send_all [] s = s"
| "send_all ((io, buf, from, t) # xs) s = send_all xs (snd (send_to io buf from t s))"

lemma send_all_ids:
  assumes "ids_ok lo s" and "next_id s + 2 * length xs < 2 ^ 32"
  shows "ids_ok lo (send_all xs s)"
  using assms
proof (induction xs arbitrary: s)
  case (Cons x xs)
  obtain io buf src t where x: "x = (io, buf, src, t)" by (cases x)
  from send_to_ids [OF Cons.prems(1), of io buf src t] Cons.prems(2) x show ?case
    by (simp add: Cons.IH)
qed simp


subsection \<open>A client and its peer, in datagram mode\<close>

text \<open>A connection that supports datagrams, on which no call fails; and the packets it takes: those that
  fit the current limit and for which the limit does not shrink between the check and the call.\<close>

definition io_good :: "quic_io \<Rightarrow> bool" where
  "io_good io \<longleftrightarrow> io_control io \<and> io_max_datagram io \<noteq> None \<and> io_datagram io \<noteq> DatagramFailed"

definition taken :: "quic_io \<Rightarrow> bytes \<Rightarrow> bool" where
  "taken io p \<longleftrightarrow> (case io_max_datagram io of Some m \<Rightarrow> 2 + length p \<le> m | None \<Rightarrow> False) \<and> io_datagram io = DatagramOk"

definition announcements :: "(u16 \<times> target_addr) list \<Rightarrow> bytes" where
  "announcements A = concat (map (\<lambda>(cid, t). announce cid t) A)"

text \<open>\<open>A\<close> lists what the sender has announced, in order.\<close>

definition announced_by :: "nat \<Rightarrow> (u16 \<times> target_addr) list \<Rightarrow> udp_sender \<Rightarrow> bool" where
  "announced_by lo A s \<longleftrightarrow>
     \<not> sd_over_unistream s \<and> sd_is_client s \<and> sd_control s = announcements A \<and>
     distinct (map fst A) \<and> lo \<le> next_id s \<and> length A \<le> next_id s - lo \<and>
     (\<forall>cid t. (cid, t) \<in> set A \<longrightarrow> lo \<le> unat cid \<and> unat cid < next_id s) \<and>
     (\<forall>t x. fmlookup (sd_cells s) t = Some x \<longleftrightarrow> snd x = None \<and> (fst x, t) \<in> set A)"

lemma announcements_append [simp]: "announcements (A @ B) = announcements A @ announcements B"
  by (simp add: announcements_def)

lemma announced_by_new:
  "announced_by (unat nxt) [] (sender_new False True nxt)"
  by (simp add: announced_by_def sender_new_def announcements_def next_id_def)

lemma get_announced:
  assumes "announced_by lo A s" and "io_good io" and "next_id s < 65536"
  obtains cid B s' where "get_send_context_id io t s = (Inr (cid, None), s')" and "announced_by lo (A @ B) s'"
    and "(cid, t) \<in> set (A @ B)" and "sd_datagrams s' = sd_datagrams s" and "next_id s' \<le> Suc (next_id s)"
    and "\<forall>x \<in> set B. snd x = t"
proof (cases "fmlookup (sd_cells s) t")
  case (Some x)
  with assms(1) have "snd x = None" "(fst x, t) \<in> set A" by (cases x; auto simp: announced_by_def)+
  with Some assms(1) show thesis by (intro that [of "fst x" s "[]"]) (auto simp: get_send_context_id_def prod_eq_iff)
next
  case None
  let ?cid = "of_nat (next_id s) :: u16"
  have cid: "unat ?cid = next_id s" and tf: "u16_try_from (next_id s) = Some ?cid"
    using assms(3) by (simp_all add: unat_of_nat_u16 u16_try_from_def)
  define s' where "s' = s\<lparr>sd_next_context_id := sd_next_context_id s + 1, sd_control := sd_control s @ announce ?cid t,
    sd_cells := fmupd t (?cid, None) (sd_cells s)\<rparr>"
  have n: "next_id s' = Suc (next_id s)"
    using assms(3) next_id_Suc [of s] by (simp add: s'_def next_id_def)
  have g: "get_send_context_id io t s = (Inr (?cid, None), s')"
    using None tf assms(1,2)
    by (simp add: get_send_context_id_def Let_def create_sender_def announced_by_def io_good_def s'_def next_id_def)
  have fresh: "?cid \<notin> fst ` set A"
    using assms(1) cid by (fastforce simp: announced_by_def)
  have t: "(c, t) \<notin> set A" for c using None assms(1) unfolding announced_by_def by (metis fst_conv option.distinct(1) snd_conv)
  have "announced_by lo (A @ [(?cid, t)]) s'"
    using assms(1) fresh n cid t unfolding announced_by_def
    by (auto simp: s'_def announcements_def less_SucI prod_eq_iff)
  then show thesis by (rule that [OF g]) (use n in \<open>auto simp: s'_def\<close>)
qed

fun client_sends :: "target_addr \<Rightarrow> (quic_io \<times> target_addr \<times> bytes) list \<Rightarrow> udp_sender \<Rightarrow> udp_sender" where
  "client_sends src [] s = s"
| "client_sends src ((io, t, p) # xs) s = client_sends src xs (snd (send_to io p src t s))"

definition taken_packets :: "(quic_io \<times> target_addr \<times> bytes) list \<Rightarrow> (target_addr \<times> bytes) list" where
  "taken_packets xs = map snd (filter (\<lambda>(io, t, p). taken io p) xs)"

lemma taken_packets_simps [simp]:
  "taken_packets [] = []"
  "taken_packets ((io, t, p) # xs) = (if taken io p then (t, p) # taken_packets xs else taken_packets xs)"
  by (simp_all add: taken_packets_def)

lemma client_sends_announced:
  assumes "announced_by lo A s" and "\<forall>x \<in> set xs. io_good (fst x)" and "next_id s + length xs \<le> 65536"
  shows "\<exists>B cids. announced_by lo (A @ B) (client_sends src xs s) \<and> length cids = length (taken_packets xs) \<and>
    sd_datagrams (client_sends src xs s) = sd_datagrams s @ map2 (\<lambda>cid (t, p). dgram cid p) cids (taken_packets xs) \<and>
    (\<forall>y \<in> set (zip cids (taken_packets xs)). (fst y, fst (snd y)) \<in> set (A @ B)) \<and> snd ` set B \<subseteq> (fst \<circ> snd) ` set xs"
  using assms
proof (induction xs arbitrary: A s)
  case Nil
  then show ?case by (intro exI [of _ "[]"]) simp
next
  case (Cons x xs)
  obtain io t p where x: "x = (io, t, p)" by (cases x)
  have "next_id s < 65536" "io_good io" using Cons.prems x by simp_all
  from get_announced [OF Cons.prems(1) this(2,1)] obtain cid B s' where
    g: "get_send_context_id io t s = (Inr (cid, None), s')" and a: "announced_by lo (A @ B) s'"
    and c: "(cid, t) \<in> set (A @ B)" and d: "sd_datagrams s' = sd_datagrams s"
    and n: "next_id s' \<le> Suc (next_id s)" and B: "\<forall>x \<in> set B. snd x = t"
    by metis
  let ?s = "if taken io p then s'\<lparr>sd_datagrams := sd_datagrams s' @ [dgram cid p]\<rparr> else s'"
  have s: "snd (send_to io p src t s) = ?s"
    using g Cons.prems(1) \<open>io_good io\<close>
    by (auto simp: send_to_def announced_by_def io_good_def taken_def dgram_def split: datagram_result.splits)
  have "announced_by lo (A @ B) ?s" using a by (simp add: announced_by_def next_id_def)
  moreover have "next_id ?s + length xs \<le> 65536" using Cons.prems(3) n by (auto simp: next_id_def)
  ultimately obtain B' cids where
    IH: "announced_by lo ((A @ B) @ B') (client_sends src xs ?s)" "length cids = length (taken_packets xs)"
      "sd_datagrams (client_sends src xs ?s) = sd_datagrams ?s @ map2 (\<lambda>cid (t, p). dgram cid p) cids (taken_packets xs)"
      "\<forall>y \<in> set (zip cids (taken_packets xs)). (fst y, fst (snd y)) \<in> set ((A @ B) @ B')" "snd ` set B' \<subseteq> (fst \<circ> snd) ` set xs"
    using Cons.IH [of "A @ B" ?s] Cons.prems(2) by auto
  show ?case
    by (rule exI [of _ "B @ B'"], rule exI [of _ "if taken io p then cid # cids else cids"]) (use IH c d s x B in auto)
qed

lemma read_announce:
  "encodable t \<Longrightarrow> read_addr_and_context_id (announce cid t @ rest) = Inr ((cid, canonical t), rest)"
  by (simp add: announce_def read_addr_and_context_id_def read_from_to_bytes read_be_to_be)

lemma recv_rounds_announcements:
  assumes "udp_inv c" and "r < length (uc_receivers c)" and "distinct (map fst A)"
    and "\<forall>x \<in> set A. encodable (snd x) \<and> fmlookup (uc_recv_map c) (fst x) = None"
  shows "\<exists>c'. recv_rounds r (length A) (announcements A @ rest, c) = Some (rest, c') \<and> udp_inv c' \<and>
    length (uc_receivers c') = length (uc_receivers c) \<and>
    rc_queue (uc_receivers c' ! r) = rc_queue (uc_receivers c ! r) \<and>
    (\<forall>cid t. (cid, t) \<in> set A \<longrightarrow> fmlookup (rc_bound (uc_receivers c' ! r)) cid = Some (canonical t)) \<and>
    (\<forall>cid. cid \<notin> fst ` set A \<longrightarrow>
      fmlookup (rc_bound (uc_receivers c' ! r)) cid = fmlookup (rc_bound (uc_receivers c ! r)) cid)"
  using assms
proof (induction A arbitrary: c)
  case Nil
  then show ?case by (simp add: announcements_def)
next
  case (Cons x A)
  obtain cid t where x: "x = (cid, t)" by (cases x)
  define c1 where "c1 = snd (bind_context_id r (canonical t) cid c)"
  have free: "fmlookup (uc_recv_map c) cid = None" and enc: "encodable t" using Cons.prems(4) x by auto
  have b: "bind_context_id r (canonical t) cid c = (Inr (), c1)"
    using free by (simp add: c1_def bind_context_id_def)
  have c1: "udp_inv c1" "length (uc_receivers c1) = length (uc_receivers c)"
      "uc_recv_map c1 = fmupd cid r (uc_recv_map c)"
      "rc_queue (uc_receivers c1 ! r) = rc_queue (uc_receivers c ! r)"
      "rc_bound (uc_receivers c1 ! r) = fmupd cid (canonical t) (rc_bound (uc_receivers c ! r))"
    using udp_inv_bind [OF Cons.prems(1,2), of "canonical t" cid] free Cons.prems(2)
    by (simp_all add: c1_def bind_context_id_def)
  have round: "recv_round r (announcements (x # A) @ rest, c) = Some (announcements A @ rest, c1)"
    using read_announce [OF enc, of cid "announcements A @ rest"] b
    by (simp add: recv_round_def announcements_def x)
  have "r < length (uc_receivers c1)" "distinct (map fst A)"
      "\<forall>y \<in> set A. encodable (snd y) \<and> fmlookup (uc_recv_map c1) (fst y) = None"
    using Cons.prems(2-4) c1(2,3) x by auto
  from Cons.IH [OF c1(1) this] obtain c' where
    "recv_rounds r (length A) (announcements A @ rest, c1) = Some (rest, c')" "udp_inv c'"
    "length (uc_receivers c') = length (uc_receivers c1)"
    "rc_queue (uc_receivers c' ! r) = rc_queue (uc_receivers c1 ! r)"
    and bd: "\<forall>cid t. (cid, t) \<in> set A \<longrightarrow> fmlookup (rc_bound (uc_receivers c' ! r)) cid = Some (canonical t)"
    and nb: "\<forall>cid. cid \<notin> fst ` set A \<longrightarrow>
      fmlookup (rc_bound (uc_receivers c' ! r)) cid = fmlookup (rc_bound (uc_receivers c1 ! r)) cid"
    by blast
  moreover have "cid \<notin> fst ` set A" using Cons.prems(3) x by simp
  ultimately show ?case using round c1 x by (intro exI [of _ c']) auto
qed

lemma handle_bound:
  assumes "udp_inv c" and "r < length (uc_receivers c)" and "fmlookup (rc_bound (uc_receivers c ! r)) cid = Some t"
    and "length (ch_items (rc_queue (uc_receivers c ! r))) < UDP_RECEIVE_QUEUE_CAPACITY"
  shows "snd (handle_datagram (dgram cid p) c) = upd_receiver r (\<lambda>x. x\<lparr>rc_queue :=
    (rc_queue (uc_receivers c ! r))\<lparr>ch_items := ch_items (rc_queue (uc_receivers c ! r)) @ [(t, p)]\<rparr>\<rparr>) c"
proof -
  let ?q = "rc_queue (uc_receivers c ! r)"
  have "try_send (t, p) ?q = (SendOk, ?q\<lparr>ch_items := ch_items ?q @ [(t, p)]\<rparr>)"
    using assms(1,2,4) by (intro try_send_room) (auto simp: udp_inv_def conn_ok_def queues_ok_def)
  moreover have "fmlookup (uc_recv_map c) cid = Some r"
    using assms(1-3) unfolding udp_inv_def bindings_agree_def by (metis option.distinct(1))
  ultimately show ?thesis using assms(3) by (simp add: handle_datagram_def feed_datagram_def Let_def)
qed

lemma handle_all_bound:
  assumes "udp_inv c" and "r < length (uc_receivers c)" and "length cids = length xs"
    and "\<forall>y \<in> set (zip cids xs). fmlookup (rc_bound (uc_receivers c ! r)) (fst y) = Some (canonical (fst (snd y)))"
    and "length (ch_items (rc_queue (uc_receivers c ! r))) + length xs \<le> UDP_RECEIVE_QUEUE_CAPACITY"
  shows "ch_items (rc_queue (uc_receivers (handle_all (map2 (\<lambda>cid (t, p). dgram cid p) cids xs) c) ! r)) =
    ch_items (rc_queue (uc_receivers c ! r)) @ map (\<lambda>(t, p). (canonical t, p)) xs"
  using assms(3,1,2,4,5)
proof (induction cids xs arbitrary: c rule: list_induct2)
  case (Cons cid cids x xs)
  obtain t p where x: "x = (t, p)" by (cases x)
  let ?c = "snd (handle_datagram (dgram cid p) c)"
  have c: "?c = upd_receiver r (\<lambda>x. x\<lparr>rc_queue :=
    (rc_queue (uc_receivers c ! r))\<lparr>ch_items := ch_items (rc_queue (uc_receivers c ! r)) @ [(canonical t, p)]\<rparr>\<rparr>) c"
    using Cons.prems x by (intro handle_bound) auto
  have "udp_inv ?c" by (rule udp_inv_handle_datagram) fact
  from Cons.IH [OF this] Cons.prems x show ?case by (simp add: c)
qed simp


subsection \<open>Properties\<close>

text \<open>C1. UDP end to end, in datagram mode. A client sends packets to any number of addresses over a
  connection that supports datagrams, whose size limit may change from packet to packet; the peer reads the
  announcements off the control stream and then receives the datagrams. The peer's session gets exactly
  the packets that fit the limit at their time, in order, each labelled with the (canonical) address it was
  sent to; a packet that does not fit is dropped and nothing else is. This holds
  provided no call of the connection fails, the addresses are encodable, the context ids do not run out and are free at the
  peer, and the packets fit the receive queue.\<close>

theorem udp_end_to_end:
  assumes "\<forall>x \<in> set xs. io_good (fst x)" and "s = sender_new False True nxt" and "unat nxt + length xs \<le> 65536"
    and "\<forall>x \<in> set xs. encodable (fst (snd x))"
    and "udp_inv c" and "r < length (uc_receivers c)"
    and "\<forall>cid. unat nxt \<le> unat cid \<longrightarrow> fmlookup (uc_recv_map c) cid = None"
    and "ch_items (rc_queue (uc_receivers c ! r)) = []" and "length (taken_packets xs) \<le> UDP_RECEIVE_QUEUE_CAPACITY"
  shows "\<exists>n c'. recv_rounds r n (sd_control (client_sends src xs s), c) = Some ([], c') \<and>
    ch_items (rc_queue (uc_receivers (handle_all (sd_datagrams (client_sends src xs s)) c') ! r)) =
      map (\<lambda>(t, p). (canonical t, p)) (taken_packets xs)"
proof -
  let ?s = "client_sends src xs s"
  have "announced_by (unat nxt) [] s" unfolding assms(2) by (rule announced_by_new)
  from client_sends_announced [OF this assms(1), of src] assms(2,3)
  obtain B cids where B: "announced_by (unat nxt) B ?s" "length cids = length (taken_packets xs)"
    and d: "sd_datagrams ?s = map2 (\<lambda>cid (t, p). dgram cid p) cids (taken_packets xs)"
    and z: "\<forall>y \<in> set (zip cids (taken_packets xs)). (fst y, fst (snd y)) \<in> set B" and t: "snd ` set B \<subseteq> (fst \<circ> snd) ` set xs"
    by (auto simp: sender_new_def next_id_def)
  have ctl: "sd_control ?s = announcements B" and dist: "distinct (map fst B)"
    using B(1) by (simp_all add: announced_by_def)
  have "\<forall>x \<in> set B. encodable (snd x) \<and> fmlookup (uc_recv_map c) (fst x) = None"
    using B(1) assms(4,7) t by (fastforce simp: announced_by_def)
  from recv_rounds_announcements [OF assms(5,6) dist this, of "[]"] obtain c' where
    c': "recv_rounds r (length B) (sd_control ?s, c) = Some ([], c')" "udp_inv c'"
      "length (uc_receivers c') = length (uc_receivers c)"
      "rc_queue (uc_receivers c' ! r) = rc_queue (uc_receivers c ! r)"
    and bd: "\<forall>cid t. (cid, t) \<in> set B \<longrightarrow> fmlookup (rc_bound (uc_receivers c' ! r)) cid = Some (canonical t)"
    unfolding ctl by auto
  have "ch_items (rc_queue (uc_receivers (handle_all (sd_datagrams ?s) c') ! r)) =
      ch_items (rc_queue (uc_receivers c' ! r)) @ map (\<lambda>(t, p). (canonical t, p)) (taken_packets xs)"
    unfolding d using c' assms(6,8,9) B(2) bd z by (intro handle_all_bound) auto
  with c' assms(8) show ?thesis by auto
qed

definition sample_io :: quic_io where
  "sample_io = \<lparr>io_control = True, io_open_uni = True, io_header = (\<lambda>_. True), io_write = (\<lambda>_. WriteOk),
     io_max_datagram = Some 4, io_datagram = DatagramOk\<rparr>"

definition sample_sends :: "(quic_io \<times> target_addr \<times> bytes) list" where
  "sample_sends = [(sample_io, Ip (SockV4 1 53), [7]), (sample_io, Ip (SockV4 2 53), [8, 8, 8]), (sample_io, Ip (SockV4 2 53), [8]),
     (sample_io\<lparr>io_datagram := DatagramTooLarge\<rparr>, Ip (SockV4 1 53), [6]), (sample_io, Ip (SockV4 1 53), [])]"

theorem udp_end_to_end_witness:
  "\<exists>n c'. recv_rounds 0 n (sd_control (client_sends dummy sample_sends (sender_new False True 1)), add_receiver conn_new) = Some ([], c') \<and>
     ch_items (rc_queue (uc_receivers (handle_all (sd_datagrams (client_sends dummy sample_sends (sender_new False True 1))) c') ! 0)) =
     [(Ip (SockV4 1 53), [7]), (Ip (SockV4 2 53), [8]), (Ip (SockV4 1 53), [])]"
proof -
  have t: "taken_packets sample_sends = [(Ip (SockV4 1 53), [7]), (Ip (SockV4 2 53), [8]), (Ip (SockV4 1 53), [])]"
    by (simp add: sample_sends_def sample_io_def taken_def)
  have g: "\<forall>x \<in> set sample_sends. io_good (fst x)" "\<forall>x \<in> set sample_sends. encodable (fst (snd x))" "length sample_sends = 5"
    by (simp_all add: sample_sends_def sample_io_def io_good_def)
  show ?thesis
    using udp_end_to_end [OF g(1) refl _ g(2) udp_inv_add_receiver [OF udp_inv_new], of 1 0 dummy]
    by (simp add: t g(3) add_receiver_def conn_new_def receiver_new_def UDP_RECEIVE_QUEUE_CAPACITY_def)
qed

text \<open>Packets on a unidirectional stream survive any chunking: whatever pieces the stream
  delivers and however often it is not ready, the worker reads exactly the packets that were
  written, in order, and nothing of what follows is lost.\<close>

theorem uni_stream_any_chunking:
  assumes "list_all (\<lambda>p. length p < 65536) ps" and "wire st = concat (map uni_encode ps) @ rest"
  shows "\<exists>st' buf'. uni_read_n (length ps) st [] = Some (ps, st', buf') \<and> buf' @ wire st' = rest"
  using uni_read_n_packets [OF assms(1), of "[]" st rest] assms(2) by simp

theorem uni_stream_any_chunking_witness:
  "\<exists>st' buf'. uni_read_n (length [[5 :: u8, 6], []]) [Data [0], Pending, Data [2, 5], Data [6, 0], Pending, Data [0, 9]] [] =
     Some ([[5, 6], []], st', buf') \<and> buf' @ wire st' = [9]"
  by (rule uni_stream_any_chunking) (simp_all add: uni_encode_def to_be_2)

text \<open>Datagrams that arrive before their announcement are not lost: up to eight of them are
  kept while the id is unknown, and once it is announced to a session whose queue has room, the
  forwarding task delivers them to that session in order with the announced address.\<close>

theorem early_datagrams_delivered:
  assumes "udp_inv c" and "fmlookup (uc_recv_map c) cid = None" and "cid |\<notin>| fmdom (uc_waiting c)"
    and "hm_len (uc_waiting c) < MAX_WAITING_DATAGRAM_CONTEXTS"
    and "r < length (uc_receivers c)" and "ch_items (rc_queue (uc_receivers c ! r)) = []"
    and "ps \<noteq> []" and "length ps \<le> WAITING_DATAGRAM_QUEUE_CAPACITY"
  shows "let c1 = handle_all (map (dgram cid) ps) c; c2 = snd (bind_context_id r t cid c1) in
    ch_items (rc_queue (uc_receivers ((forward cid ^^ length ps) (waiter_acquire cid c2)) ! r)) =
      map (Pair t) ps"
proof -
  obtain p qs where ps: "ps = p # qs" using assms(7) by (cases ps) auto
  let ?c0 = "snd (handle_datagram (dgram cid p) c)" and ?c1 = "handle_all (map (dgram cid) ps) c"
  note first = handle_first [OF assms(1-4), of p]
  from first(1) obtain w0 where w0: "fmlookup (uc_waiting ?c0) cid = Some w0" "ch_items (wb_queue w0) = [p]"
    "wb_task w0 = Waiting" by auto
  have "udp_inv ?c0" by (rule udp_inv_handle_datagram) fact
  from handle_early_all [OF this _ w0(1), of qs] first w0 ps assms(2,8) obtain w1 where
    w1: "fmlookup (uc_waiting ?c1) cid = Some w1" "ch_items (wb_queue w1) = ps" "wb_task w1 = Waiting"
    and m1: "fmlookup (uc_recv_map ?c1) cid = None" and r1: "uc_receivers ?c1 = uc_receivers c" and i1: "udp_inv ?c1"
    by auto
  let ?c2 = "snd (bind_context_id r t cid ?c1)" and ?w = "w1\<lparr>wb_task := Looping r\<rparr>"
  have i2: "udp_inv ?c2" using i1 r1 assms(5) by (intro udp_inv_bind) auto
  have c2: "fmlookup (uc_waiting ?c2) cid = Some w1" "fmlookup (uc_recv_map ?c2) cid = Some r"
      "fmlookup (rc_bound (uc_receivers ?c2 ! r)) cid = Some t" "ch_items (rc_queue (uc_receivers ?c2 ! r)) = []"
    using m1 w1 r1 assms(5,6) by (simp_all add: bind_context_id_def)
  then have acq: "waiter_acquire cid ?c2 = put_waiting cid ?w ?c2" using w1 by (simp add: waiter_acquire_def set_task_def)
  have "udp_inv (put_waiting cid ?w ?c2)" unfolding acq [symmetric] by (rule udp_inv_waiter) (rule i2)
  from forward_all [OF this, of cid ?w r ps t] c2 w1 assms(8)
  show ?thesis by (simp add: acq Let_def UDP_RECEIVE_QUEUE_CAPACITY_def WAITING_DATAGRAM_QUEUE_CAPACITY_def)
qed

theorem early_datagrams_delivered_witness:
  "let c1 = handle_all (map (dgram 5) [[1], [2]]) (add_receiver conn_new);
       c2 = snd (bind_context_id 0 dummy 5 c1) in
   ch_items (rc_queue (uc_receivers ((forward 5 ^^ length [[1 :: u8], [2]]) (waiter_acquire 5 c2)) ! 0)) =
     map (Pair dummy) [[1], [2]]"
  using udp_inv_add_receiver [OF udp_inv_new]
  by (intro early_datagrams_delivered)
    (simp_all add: add_receiver_def conn_new_def receiver_new_def MAX_WAITING_DATAGRAM_CONTEXTS_def
      WAITING_DATAGRAM_QUEUE_CAPACITY_def)

text \<open>Context ids are never shared: whatever packets are sent through a session, in either
  mode and with any outcome of the QUIC operations, two addresses with an open sender have
  different context ids, all of them allocated from the connection's counter since the session
  began.\<close>

theorem context_ids_unique:
  assumes "unat nxt + 2 * length xs < 2 ^ 32"
    and "fmlookup (sd_cells (send_all xs (sender_new m cl nxt))) t = Some x"
    and "fmlookup (sd_cells (send_all xs (sender_new m cl nxt))) t' = Some x'" and "t \<noteq> t'"
  shows "fst x \<noteq> fst x' \<and> unat nxt \<le> unat (fst x)"
proof -
  have "ids_ok (unat nxt) (sender_new m cl nxt)" by (simp add: ids_ok_def sender_new_def next_id_def)
  moreover have "next_id (sender_new m cl nxt) + 2 * length xs < 2 ^ 32"
    using assms(1) by (simp add: sender_new_def next_id_def)
  ultimately have "ids_ok (unat nxt) (send_all xs (sender_new m cl nxt))" by (rule send_all_ids)
  with assms(2-4) show ?thesis unfolding ids_ok_def by blast
qed

theorem context_ids_unique_witness:
  "fst (1 :: u16, None :: nat option) \<noteq> fst (2 :: u16, None :: nat option) \<and> unat (1 :: u32) \<le> unat (1 :: u16)"
proof -
  let ?s = "send_all [(sample_io, [7], dummy, Domain [97] 1), (sample_io, [8], dummy, Domain [98] 1)]
    (sender_new False True 1)"
  have "fmlookup (sd_cells ?s) (Domain [97] 1) = Some (1, None)"
    and "fmlookup (sd_cells ?s) (Domain [98] 1) = Some (2, None)"
    by (simp_all add: sender_new_def send_to_def get_send_context_id_def Let_def
        u16_try_from_def create_sender_def sample_io_def)
  from context_ids_unique [OF _ this] show ?thesis by simp
qed

end
