(* ===== verification/Stream_Wrappers.thy ===== *)
theory Stream_Wrappers
  imports Rust_Std
begin

text \<open>
  The two stream wrappers that decide when bytes really go out: \<open>LazyHandshakeStream\<close>
  (\<open>src/src/proxy/outbound/mod.rs\<close>) holds back a protocol header until the first payload write,
  and \<open>ZeroRttStream\<close> (\<open>src/src/proxy/outbound/shadowquic.rs\<close>) keeps what was written as
  early data so that it can be replayed. What the wrapped stream answers to each poll is an
  input. \<open>byte_relay\<close> is their common contract: an invariant between the bytes acknowledged to
  the caller and the state, kept by every poll.
\<close>

subsection \<open>The contract\<close>

text \<open>The outcome of a poll for its caller: not ready, an error, or these bytes were taken.\<close>

datatype poll_out = OPending | OErr | OTaken bytes

fun taken :: "poll_out list \<Rightarrow> bytes" where
  "taken [] = []"
| "taken (OTaken b # os) = b @ taken os"
| "taken (_ # os) = taken os"

lemma taken_append [simp]: "taken (xs @ ys) = taken xs @ taken ys"
  by (induction xs rule: taken.induct) auto

fun relay_run :: "('op \<Rightarrow> 's \<Rightarrow> poll_out \<times> 's) \<Rightarrow> 'op list \<Rightarrow> 's \<Rightarrow> poll_out list \<times> 's" where
  "relay_run step [] s = ([], s)"
| "relay_run step (x # xs) s =
     (let (r, s1) = step x s; (rs, s2) = relay_run step xs s1 in (r # rs, s2))"

locale byte_relay =
  fixes step :: "'op \<Rightarrow> 's \<Rightarrow> poll_out \<times> 's"
    and rel :: "poll_out list \<Rightarrow> 's \<Rightarrow> bool"
  assumes step_rel: "rel outs s \<Longrightarrow> step x s = (r, s') \<Longrightarrow> rel (outs @ [r]) s'"
begin

lemma run_rel:
  assumes "rel outs s"
  shows "rel (outs @ fst (relay_run step xs s)) (snd (relay_run step xs s))"
  using assms
proof (induction xs arbitrary: outs s)
  case (Cons x xs)
  obtain r s1 where st: "step x s = (r, s1)" by (cases "step x s")
  with Cons.prems have "rel (outs @ [r]) s1" by (auto intro: step_rel)
  from Cons.IH [OF this] st show ?case by (simp add: split_beta Let_def)
qed simp

end

subsection \<open>The wrapped stream\<close>

datatype write_poll = WPending | WErr | WOk nat
datatype unit_poll = UPending | UErr | UOk

record out_stream =
  os_early :: bool
  os_written :: bytes
  os_shut :: bool

definition os_take :: "bytes \<Rightarrow> out_stream \<Rightarrow> out_stream" where
  "os_take b s = s\<lparr>os_written := os_written s @ b\<rparr>"

fun inner_write :: "write_poll \<Rightarrow> bytes \<Rightarrow> out_stream \<Rightarrow> poll_out \<times> out_stream" where
  "inner_write WPending buf s = (OPending, s)"
| "inner_write WErr buf s = (OErr, s)"
| "inner_write (WOk n) buf s = (OTaken (take n buf), os_take (take n buf) s)"

fun inner_flush :: "unit_poll \<Rightarrow> poll_out" where
  "inner_flush UPending = OPending"
| "inner_flush UErr = OErr"
| "inner_flush UOk = OTaken []"

fun inner_shutdown :: "unit_poll \<Rightarrow> out_stream \<Rightarrow> poll_out \<times> out_stream" where
  "inner_shutdown UPending s = (OPending, s)"
| "inner_shutdown UErr s = (OErr, s)"
| "inner_shutdown UOk s = (OTaken [], s\<lparr>os_shut := True\<rparr>)"

subsection \<open>\<open>LazyHandshakeStream\<close>\<close>

record lazy_stream =
  lz_stream :: out_stream
  lz_handshake :: "bytes option"

definition lazy_new :: "bytes \<Rightarrow> lazy_stream" where
  "lazy_new h = \<lparr>lz_stream = \<lparr>os_early = False, os_written = [], os_shut = False\<rparr>, lz_handshake = Some h\<rparr>"

text \<open>The first answer is that of \<open>poll_write_vectored\<close> over handshake and buffer (or of
  \<open>poll_write\<close> when there is no handshake left), the second that of the \<open>poll_write\<close> that follows
  when only the handshake went out.\<close>

definition lazy_poll_write :: "write_poll \<Rightarrow> write_poll \<Rightarrow> bytes \<Rightarrow> lazy_stream \<Rightarrow> poll_out \<times> lazy_stream" where
  "lazy_poll_write r1 r2 buf s =
     (case lz_handshake s of
        Some h \<Rightarrow>
          (case r1 of
             WOk n \<Rightarrow>
               if n = 0 then (OTaken [], s)
               else if n \<ge> length h then
                 let s1 = \<lparr>lz_stream = os_take (take n (h @ buf)) (lz_stream s), lz_handshake = None\<rparr>;
                     written_user = n - length h
                 in if written_user = 0 \<and> buf \<noteq> [] then
                      (let (r, st) = inner_write r2 buf (lz_stream s1) in (r, s1\<lparr>lz_stream := st\<rparr>))
                    else (OTaken (take written_user buf), s1)
               else (OPending, \<lparr>lz_stream = os_take (take n (h @ buf)) (lz_stream s), lz_handshake = Some (drop n h)\<rparr>)
           | WErr \<Rightarrow> (OErr, s)
           | WPending \<Rightarrow> (OPending, s))
      | None \<Rightarrow> (let (r, st) = inner_write r1 buf (lz_stream s) in (r, s\<lparr>lz_stream := st\<rparr>)))"

definition lazy_poll_flush :: "unit_poll \<Rightarrow> lazy_stream \<Rightarrow> poll_out \<times> lazy_stream" where
  "lazy_poll_flush r s = (inner_flush r, s)"

definition lazy_poll_shutdown :: "unit_poll \<Rightarrow> lazy_stream \<Rightarrow> poll_out \<times> lazy_stream" where
  "lazy_poll_shutdown r s = (let (o1, st) = inner_shutdown r (lz_stream s) in (o1, s\<lparr>lz_stream := st\<rparr>))"

datatype lazy_op = LWrite write_poll write_poll bytes | LFlush unit_poll | LShutdown unit_poll

fun lazy_step :: "lazy_op \<Rightarrow> lazy_stream \<Rightarrow> poll_out \<times> lazy_stream" where
  "lazy_step (LWrite r1 r2 buf) s = lazy_poll_write r1 r2 buf s"
| "lazy_step (LFlush r) s = lazy_poll_flush r s"
| "lazy_step (LShutdown r) s = lazy_poll_shutdown r s"

definition lazy_rel :: "bytes \<Rightarrow> poll_out list \<Rightarrow> lazy_stream \<Rightarrow> bool" where
  "lazy_rel h outs s \<longleftrightarrow>
     (case lz_handshake s of
        Some rest \<Rightarrow> os_written (lz_stream s) @ rest = h \<and> taken outs = []
      | None \<Rightarrow> os_written (lz_stream s) = h @ taken outs)"

lemma lazy_rel_new: "lazy_rel h [] (lazy_new h)"
  by (simp add: lazy_rel_def lazy_new_def)

lemma inner_write_taken:
  "inner_write r buf st = (o1, st') \<Longrightarrow> os_written st' = os_written st @ taken [o1] \<and> os_early st' = os_early st \<and>
     os_shut st' = os_shut st"
  by (cases r) (auto simp: os_take_def)

lemma lazy_write_rel:
  assumes "lazy_rel h outs s" and "lazy_poll_write r1 r2 buf s = (r, s')"
  shows "lazy_rel h (outs @ [r]) s'"
proof (cases "lz_handshake s")
  case None
  with assms inner_write_taken [of r1 buf "lz_stream s"] show ?thesis
    by (auto simp: lazy_rel_def lazy_poll_write_def split: prod.splits)
next
  case (Some rest)
  with assms(1) have w: "os_written (lz_stream s) @ rest = h" "taken outs = []" by (simp_all add: lazy_rel_def)
  show ?thesis
  proof (cases r1)
    case (WOk n)
    consider "n = 0" | "n \<noteq> 0" "n < length rest" | "n \<noteq> 0" "n = length rest" "buf \<noteq> []"
      | "n \<noteq> 0" "length rest \<le> n" "n = length rest \<longrightarrow> buf = []" by linarith
    then show ?thesis
    proof cases
      case 3
      obtain r0 st0 where i: "inner_write r2 buf (os_take rest (lz_stream s)) = (r0, st0)"
        by (cases "inner_write r2 buf (os_take rest (lz_stream s))")
      with assms(2) Some WOk 3 have "r = r0" "s' = \<lparr>lz_stream = st0, lz_handshake = None\<rparr>"
        by (simp_all add: lazy_poll_write_def Let_def)
      with inner_write_taken [OF i] w show ?thesis by (simp add: lazy_rel_def os_take_def)
    qed (use assms(2) Some WOk w in \<open>auto simp: lazy_rel_def lazy_poll_write_def os_take_def Let_def split: if_splits\<close>)
  qed (use assms(2) Some w in \<open>auto simp: lazy_rel_def lazy_poll_write_def\<close>)
qed

lemma inner_shutdown_written:
  "inner_shutdown r st = (o1, st') \<Longrightarrow> os_written st' = os_written st \<and> taken [o1] = [] \<and> os_early st' = os_early st"
  by (cases r) auto

lemma lazy_step_rel:
  assumes "lazy_rel h outs s" and "lazy_step x s = (r, s')"
  shows "lazy_rel h (outs @ [r]) s'"
proof (cases x)
  case (LWrite r1 r2 buf)
  with assms lazy_write_rel show ?thesis by simp
next
  case (LFlush u)
  with assms show ?thesis by (cases u) (auto simp: lazy_rel_def lazy_poll_flush_def split: option.splits)
next
  case (LShutdown u)
  with assms inner_shutdown_written [of u "lz_stream s"] show ?thesis
    by (auto simp: lazy_rel_def lazy_poll_shutdown_def split: option.splits prod.splits)
qed

interpretation lazy_relay: byte_relay lazy_step "lazy_rel h" for h
  by unfold_locales (rule lazy_step_rel)

subsection \<open>\<open>ZeroRttStream\<close>\<close>

definition ZERO_RTT_REPLAY_LIMIT :: nat where "ZERO_RTT_REPLAY_LIMIT = 64 * 1024"

datatype zero_rtt_phase = Early | Replaying bytes bool | Settled

text \<open>\<open>zr_outcome\<close> is the state of the outcome future: its value once it was polled ready.\<close>

record zero_rtt =
  zr_inner :: out_stream
  zr_outcome :: "bool option"
  zr_sent :: bytes
  zr_shutdown :: bool
  zr_phase :: zero_rtt_phase

definition zero_rtt_new :: zero_rtt where
  "zero_rtt_new = \<lparr>zr_inner = \<lparr>os_early = True, os_written = [], os_shut = False\<rparr>, zr_outcome = None,
     zr_sent = [], zr_shutdown = False, zr_phase = Early\<rparr>"

definition resolve :: "bool \<Rightarrow> zero_rtt \<Rightarrow> zero_rtt" where
  "resolve accepted s =
     (let s1 = s\<lparr>zr_sent := [], zr_outcome := Some accepted\<rparr>
      in if accepted then s1\<lparr>zr_phase := Settled\<rparr>
         else s1\<lparr>zr_phase := Replaying (zr_sent s) (zr_shutdown s)\<rparr>)"

text \<open>What the environment answers during one poll: the outcome future, the replay future, the
  wrapped stream.\<close>

record zr_env =
  ze_outcome :: "bool option"
  ze_replay :: "bool option"
  ze_write :: write_poll
  ze_unit :: unit_poll

definition poll_early :: "zr_env \<Rightarrow> zero_rtt \<Rightarrow> bool \<times> zero_rtt" where
  "poll_early e s =
     (if zr_phase s \<noteq> Early then (True, s)
      else case ze_outcome e of None \<Rightarrow> (False, s) | Some accepted \<Rightarrow> (True, resolve accepted s))"

text \<open>A finished replay has written the kept bytes to a new stream, and shut it down if the old
  one was. When it failed, the wrapper settles on the stream it had.\<close>

definition finish_replay :: "bool \<Rightarrow> bytes \<Rightarrow> bool \<Rightarrow> zero_rtt \<Rightarrow> poll_out \<times> zero_rtt" where
  "finish_replay ok sent shut s =
     (if ok then (OTaken [], s\<lparr>zr_phase := Settled, zr_inner := \<lparr>os_early = False, os_written = sent, os_shut = shut\<rparr>\<rparr>)
      else (OErr, s\<lparr>zr_phase := Settled\<rparr>))"

definition settle_replay :: "zr_env \<Rightarrow> zero_rtt \<Rightarrow> poll_out \<times> zero_rtt" where
  "settle_replay e s =
     (case zr_phase s of
        Replaying sent shut \<Rightarrow>
          (case ze_replay e of None \<Rightarrow> (OPending, s) | Some ok \<Rightarrow> finish_replay ok sent shut s)
      | _ \<Rightarrow> (OTaken [], s))"

definition poll_settled :: "zr_env \<Rightarrow> zero_rtt \<Rightarrow> poll_out \<times> zero_rtt" where
  "poll_settled e s =
     (case zr_phase s of
        Early \<Rightarrow> (case ze_outcome e of None \<Rightarrow> (OPending, s) | Some a \<Rightarrow> settle_replay e (resolve a s))
      | _ \<Rightarrow> settle_replay e s)"

text \<open>\<open>ready!(this.poll_settled(cx))?\<close> and then the operation.\<close>

definition then_settled :: "zr_env \<Rightarrow> zero_rtt \<Rightarrow> (zero_rtt \<Rightarrow> poll_out \<times> zero_rtt) \<Rightarrow> poll_out \<times> zero_rtt" where
  "then_settled e s k =
     (case poll_settled e s of
        (OTaken _, s1) \<Rightarrow> k s1
      | (other, s1) \<Rightarrow> (other, s1))"

definition settled_write :: "zr_env \<Rightarrow> bytes \<Rightarrow> zero_rtt \<Rightarrow> poll_out \<times> zero_rtt" where
  "settled_write e buf s = (let (r, st) = inner_write (ze_write e) buf (zr_inner s) in (r, s\<lparr>zr_inner := st\<rparr>))"

definition zr_poll_write :: "zr_env \<Rightarrow> bytes \<Rightarrow> zero_rtt \<Rightarrow> poll_out \<times> zero_rtt" where
  "zr_poll_write e buf s =
     (case poll_early e s of
        (False, s1) \<Rightarrow>
          if length (zr_sent s1) + length buf > ZERO_RTT_REPLAY_LIMIT then (OPending, s1)
          else (case inner_write (ze_write e) buf (zr_inner s1) of
                  (OTaken b, st) \<Rightarrow> (OTaken b, s1\<lparr>zr_inner := st, zr_sent := zr_sent s1 @ b\<rparr>)
                | (_, st) \<Rightarrow> (OPending, s1\<lparr>zr_inner := st\<rparr>))
      | (True, s1) \<Rightarrow> then_settled e s1 (settled_write e buf))"

definition zr_poll_flush :: "zr_env \<Rightarrow> zero_rtt \<Rightarrow> poll_out \<times> zero_rtt" where
  "zr_poll_flush e s =
     (case poll_early e s of
        (False, s1) \<Rightarrow> (case inner_flush (ze_unit e) of OErr \<Rightarrow> (OPending, s1) | r \<Rightarrow> (r, s1))
      | (True, s1) \<Rightarrow> then_settled e s1 (\<lambda>s2. (inner_flush (ze_unit e), s2)))"

definition zr_poll_shutdown :: "zr_env \<Rightarrow> zero_rtt \<Rightarrow> poll_out \<times> zero_rtt" where
  "zr_poll_shutdown e s =
     (case poll_early e s of
        (False, s1) \<Rightarrow>
          (case inner_shutdown (ze_unit e) (zr_inner s1) of
             (OTaken _, st) \<Rightarrow> (OTaken [], s1\<lparr>zr_inner := st, zr_shutdown := True\<rparr>)
           | (_, st) \<Rightarrow> (OPending, s1))
      | (True, s1) \<Rightarrow>
          then_settled e s1 (\<lambda>s2.
            if zr_shutdown s2 then (OTaken [], s2)
            else (let (r, st) = inner_shutdown (ze_unit e) (zr_inner s2) in (r, s2\<lparr>zr_inner := st\<rparr>))))"

text \<open>Reads do not change what was written; an early read error counts as not ready.\<close>

definition zr_poll_read :: "zr_env \<Rightarrow> zero_rtt \<Rightarrow> poll_out \<times> zero_rtt" where
  "zr_poll_read e s =
     (case poll_early e s of
        (False, s1) \<Rightarrow> (case inner_flush (ze_unit e) of OErr \<Rightarrow> (OPending, s1) | r \<Rightarrow> (r, s1))
      | (True, s1) \<Rightarrow> then_settled e s1 (\<lambda>s2. (inner_flush (ze_unit e), s2)))"

datatype zr_op = ZWrite zr_env bytes | ZFlush zr_env | ZShutdown zr_env | ZRead zr_env

fun zr_step :: "zr_op \<Rightarrow> zero_rtt \<Rightarrow> poll_out \<times> zero_rtt" where
  "zr_step (ZWrite e buf) s = zr_poll_write e buf s"
| "zr_step (ZFlush e) s = zr_poll_flush e s"
| "zr_step (ZShutdown e) s = zr_poll_shutdown e s"
| "zr_step (ZRead e) s = zr_poll_read e s"


subsection \<open>Nothing is lost across a rejection\<close>

definition zr_rel :: "poll_out list \<Rightarrow> zero_rtt \<Rightarrow> bool" where
  "zr_rel outs s \<longleftrightarrow>
     (case zr_phase s of
        Early \<Rightarrow> zr_outcome s = None \<and> os_early (zr_inner s) \<and> os_written (zr_inner s) = taken outs \<and>
          zr_sent s = taken outs \<and> length (zr_sent s) \<le> ZERO_RTT_REPLAY_LIMIT \<and> (zr_shutdown s \<longrightarrow> os_shut (zr_inner s))
      | Replaying sent shut \<Rightarrow> zr_outcome s = Some False \<and> sent = taken outs \<and> shut = zr_shutdown s \<and>
          length sent \<le> ZERO_RTT_REPLAY_LIMIT \<and> os_early (zr_inner s)
      | Settled \<Rightarrow>
          (zr_outcome s = Some True \<and> os_early (zr_inner s) \<or>
           zr_outcome s = Some False \<and> (os_early (zr_inner s) \<longrightarrow> OErr \<in> set outs)) \<and>
          (OErr \<in> set outs \<or> os_written (zr_inner s) = taken outs \<and> (zr_shutdown s \<longrightarrow> os_shut (zr_inner s))))"

lemma zr_rel_new: "zr_rel [] zero_rtt_new"
  by (simp add: zr_rel_def zero_rtt_new_def)

lemma zr_rel_quiet:
  assumes "zr_rel outs s" and "taken [r] = []"
  shows "zr_rel (outs @ [r]) s"
  using assms by (auto simp: zr_rel_def split: zero_rtt_phase.splits)

lemma resolve_rel: "zr_rel outs s \<Longrightarrow> zr_phase s = Early \<Longrightarrow> zr_rel outs (resolve a s)"
  by (auto simp: zr_rel_def resolve_def Let_def)

lemma resolve_phase: "zr_phase (resolve a s) \<noteq> Early"
  by (simp add: resolve_def Let_def)

lemma settle_replay_rel:
  assumes "zr_rel outs s" and "settle_replay e s = (r, s')"
  shows "taken [r] = [] \<and> zr_rel (if r = OErr then outs @ [r] else outs) s' \<and>
    (zr_phase s \<noteq> Early \<longrightarrow> (case r of OTaken _ \<Rightarrow> zr_phase s' = Settled | OPending \<Rightarrow> True | OErr \<Rightarrow> True))"
  using assms
  by (auto simp: settle_replay_def finish_replay_def zr_rel_def split: zero_rtt_phase.splits option.splits if_splits)

lemma poll_settled_rel:
  assumes "zr_rel outs s" and "poll_settled e s = (r, s')"
  shows "taken [r] = [] \<and> zr_rel (if r = OErr then outs @ [r] else outs) s' \<and>
    (case r of OTaken _ \<Rightarrow> zr_phase s' = Settled | OPending \<Rightarrow> True | OErr \<Rightarrow> True)"
proof (cases "zr_phase s")
  case Early
  show ?thesis
  proof (cases "ze_outcome e")
    case None
    with assms Early show ?thesis by (auto simp: poll_settled_def)
  next
    case (Some a)
    with assms(2) Early have "settle_replay e (resolve a s) = (r, s')" by (simp add: poll_settled_def)
    from settle_replay_rel [OF resolve_rel [OF assms(1) Early] this] resolve_phase show ?thesis by blast
  qed
next
  case (Replaying x y)
  with assms(2) have "settle_replay e s = (r, s')" by (simp add: poll_settled_def)
  from settle_replay_rel [OF assms(1) this] Replaying show ?thesis by simp
next
  case Settled
  with assms(2) have "settle_replay e s = (r, s')" by (simp add: poll_settled_def)
  from settle_replay_rel [OF assms(1) this] Settled show ?thesis by simp
qed

lemma then_settled_rel:
  assumes "zr_rel outs s" and "then_settled e s k = (r, s')"
    and "\<And>s1 r s'. zr_rel outs s1 \<Longrightarrow> zr_phase s1 = Settled \<Longrightarrow> k s1 = (r, s') \<Longrightarrow> zr_rel (outs @ [r]) s'"
  shows "zr_rel (outs @ [r]) s'"
proof -
  obtain o1 s1 where p: "poll_settled e s = (o1, s1)" by (cases "poll_settled e s")
  note q = poll_settled_rel [OF assms(1) p]
  show ?thesis
  proof (cases o1)
    case (OTaken b)
    with assms(2) p have "k s1 = (r, s')" by (simp add: then_settled_def)
    with q OTaken show ?thesis by (intro assms(3)) auto
  qed (use assms(2) p q zr_rel_quiet [of outs s1 OPending] in \<open>auto simp: then_settled_def\<close>)
qed

lemma settled_write_rel:
  assumes "zr_rel outs s" and "zr_phase s = Settled" and "settled_write e buf s = (r, s')"
  shows "zr_rel (outs @ [r]) s'"
proof -
  obtain o1 st where i: "inner_write (ze_write e) buf (zr_inner s) = (o1, st)"
    by (cases "inner_write (ze_write e) buf (zr_inner s)")
  with assms(3) have "r = o1" "s' = s\<lparr>zr_inner := st\<rparr>" by (auto simp: settled_write_def)
  with inner_write_taken [OF i] assms(1,2) show ?thesis by (auto simp: zr_rel_def)
qed

lemma settled_shutdown_rel:
  assumes "zr_rel outs s" and "zr_phase s = Settled"
    and "(if zr_shutdown s then (OTaken [], s)
          else (let (r, st) = inner_shutdown u (zr_inner s) in (r, s\<lparr>zr_inner := st\<rparr>))) = (r, s')"
  shows "zr_rel (outs @ [r]) s'"
proof (cases "zr_shutdown s")
  case True
  with assms zr_rel_quiet [of outs s "OTaken []"] show ?thesis by auto
next
  case False
  obtain o1 st where i: "inner_shutdown u (zr_inner s) = (o1, st)" by (cases "inner_shutdown u (zr_inner s)")
  with assms(3) False have "r = o1" "s' = s\<lparr>zr_inner := st\<rparr>" by auto
  with inner_shutdown_written [OF i] assms(1,2) False show ?thesis by (auto simp: zr_rel_def)
qed

lemma poll_early_cases:
  assumes "zr_rel outs s"
  obtains (pending) "poll_early e s = (False, s)" and "zr_phase s = Early"
  | (over) s1 where "poll_early e s = (True, s1)" and "zr_rel outs s1"
  using assms resolve_rel [OF assms]
  by (cases "zr_phase s = Early"; cases "ze_outcome e") (auto simp: poll_early_def)

lemma early_write_rel:
  assumes "zr_rel outs s" and "zr_phase s = Early" and "length (zr_sent s) + length buf \<le> ZERO_RTT_REPLAY_LIMIT"
    and "inner_write w buf (zr_inner s) = (OTaken b, st)"
  shows "zr_rel (outs @ [OTaken b]) (s\<lparr>zr_inner := st, zr_sent := zr_sent s @ b\<rparr>)"
proof -
  have "length b \<le> length buf" using assms(4) by (cases w) auto
  with assms inner_write_taken [OF assms(4)] show ?thesis by (auto simp: zr_rel_def)
qed

lemma early_inner_same: "inner_write w buf st = (r, st') \<Longrightarrow> taken [r] = [] \<Longrightarrow> r = OPending \<or> r = OErr \<Longrightarrow> st' = st"
  by (cases w) auto

lemma zr_write_rel:
  assumes "zr_rel outs s" and "zr_poll_write e buf s = (r, s')"
  shows "zr_rel (outs @ [r]) s'"
using assms(1)
proof (cases rule: poll_early_cases [where e = e, consumes 1, case_names pending over])
  case pending
  obtain o1 st where i: "inner_write (ze_write e) buf (zr_inner s) = (o1, st)"
    by (cases "inner_write (ze_write e) buf (zr_inner s)")
  show ?thesis
  proof (cases "length (zr_sent s) + length buf > ZERO_RTT_REPLAY_LIMIT")
    case True
    with assms pending show ?thesis by (auto simp: zr_poll_write_def intro: zr_rel_quiet)
  next
    case False
    show ?thesis
    proof (cases o1)
      case (OTaken b)
      with assms(2) pending False i early_write_rel [OF assms(1) pending(2), of buf "ze_write e" b st]
      show ?thesis by (auto simp: zr_poll_write_def)
    qed (use assms pending False i early_inner_same [OF i] zr_rel_quiet [OF assms(1), of OPending]
        in \<open>auto simp: zr_poll_write_def\<close>)
  qed
next
  case (over s1)
  with assms(2) show ?thesis
    by (auto simp: zr_poll_write_def intro: then_settled_rel settled_write_rel)
qed

lemma zr_flush_rel:
  assumes "zr_rel outs s"
    and "(case poll_early e s of
        (False, s1) \<Rightarrow> (case inner_flush (ze_unit e) of OErr \<Rightarrow> (OPending, s1) | r \<Rightarrow> (r, s1))
      | (True, s1) \<Rightarrow> then_settled e s1 (\<lambda>s2. (inner_flush (ze_unit e), s2))) = (r, s')"
  shows "zr_rel (outs @ [r]) s'"
using assms(1)
proof (cases rule: poll_early_cases [where e = e, consumes 1, case_names pending over])
  case pending
  with assms show ?thesis by (cases "ze_unit e") (auto intro: zr_rel_quiet)
next
  case (over s1)
  have q: "taken [inner_flush (ze_unit e)] = []" by (cases "ze_unit e") simp_all
  show ?thesis
    by (rule then_settled_rel [OF over(2), of e "\<lambda>s2. (inner_flush (ze_unit e), s2)"])
      (use assms(2) over(1) q zr_rel_quiet in auto)
qed

lemma zr_shutdown_rel:
  assumes "zr_rel outs s" and "zr_poll_shutdown e s = (r, s')"
  shows "zr_rel (outs @ [r]) s'"
using assms(1)
proof (cases rule: poll_early_cases [where e = e, consumes 1, case_names pending over])
  case pending
  with assms show ?thesis
    by (cases "ze_unit e") (auto simp: zr_poll_shutdown_def zr_rel_def)
next
  case (over s1)
  with assms(2) have "then_settled e s1 (\<lambda>s2.
            if zr_shutdown s2 then (OTaken [], s2)
            else (let (r, st) = inner_shutdown (ze_unit e) (zr_inner s2) in (r, s2\<lparr>zr_inner := st\<rparr>))) = (r, s')"
    by (simp add: zr_poll_shutdown_def)
  from then_settled_rel [OF over(2) this settled_shutdown_rel] show ?thesis .
qed

lemma zr_step_rel: "zr_rel outs s \<Longrightarrow> zr_step x s = (r, s') \<Longrightarrow> zr_rel (outs @ [r]) s'"
  by (cases x) (auto simp: zr_poll_flush_def zr_poll_read_def
      intro: zr_write_rel zr_shutdown_rel zr_flush_rel)

interpretation zero_rtt_relay: byte_relay zr_step zr_rel
  by unfold_locales (rule zr_step_rel)

subsection \<open>Properties\<close>

text \<open>A deferred handshake goes out first and once. After any sequence of polls, with any
  answers of the wrapped stream, the bytes on the wire are a
  prefix of the handshake while nothing of the payload was taken, or the whole handshake
  followed by exactly the payload bytes acknowledged to the caller.\<close>

theorem lazy_handshake_first:
  assumes "relay_run lazy_step xs (lazy_new h) = (outs, s)"
  shows "case lz_handshake s of
     Some rest \<Rightarrow> os_written (lz_stream s) @ rest = h \<and> taken outs = []
   | None \<Rightarrow> os_written (lz_stream s) = h @ taken outs"
  using lazy_relay.run_rel [OF lazy_rel_new, of h xs] assms by (simp add: lazy_rel_def)

theorem lazy_handshake_first_witness:
  "os_written (lz_stream (snd (relay_run lazy_step
     [LFlush UOk, LWrite (WOk 2) WPending [7, 8], LWrite (WOk 1) (WOk 1) [7, 8]] (lazy_new [1, 2, 3])))) = [1, 2, 3, 7]"
  using lazy_handshake_first [of "[LFlush UOk, LWrite (WOk 2) WPending [7, 8], LWrite (WOk 1) (WOk 1) [7, 8]]" "[1, 2, 3]"]
  by (simp add: lazy_poll_write_def lazy_poll_flush_def lazy_new_def os_take_def)

text \<open>C6. Early data survives rejection. Whatever a caller writes, flushes and shuts down while
  the server has not answered 0-RTT, and whatever the answer is: if no poll reported an error,
  then once the stream has settled the stream in use (the original one if early data was
  accepted, the replayed one if it was rejected) carries exactly the bytes acknowledged to the
  caller, each once and in order, and is shut down if the caller shut it down before; and at
  no time are more than 64 KiB kept.\<close>

theorem zero_rtt_lossless:
  assumes "relay_run zr_step xs zero_rtt_new = (outs, s)" and "OErr \<notin> set outs"
  shows "(zr_phase s = Early \<longrightarrow> length (zr_sent s) \<le> ZERO_RTT_REPLAY_LIMIT) \<and>
    (zr_phase s = Settled \<longrightarrow> os_written (zr_inner s) = taken outs \<and>
      zr_outcome s = Some (os_early (zr_inner s)) \<and> (zr_shutdown s \<longrightarrow> os_shut (zr_inner s)))"
  using zero_rtt_relay.run_rel [OF zr_rel_new, of xs] assms by (auto simp: zr_rel_def)

definition quiet_env :: zr_env where
  "quiet_env = \<lparr>ze_outcome = None, ze_replay = None, ze_write = WOk 2, ze_unit = UOk\<rparr>"

theorem zero_rtt_lossless_witness:
  "os_written (zr_inner (snd (relay_run zr_step
     [ZWrite quiet_env [1, 2, 3], ZRead (quiet_env\<lparr>ze_outcome := Some False\<rparr>),
      ZWrite (quiet_env\<lparr>ze_replay := Some True\<rparr>) [3]] zero_rtt_new))) = [1, 2, 3]"
  using zero_rtt_lossless [of "[ZWrite quiet_env [1, 2, 3], ZRead (quiet_env\<lparr>ze_outcome := Some False\<rparr>),
      ZWrite (quiet_env\<lparr>ze_replay := Some True\<rparr>) [3]]"]
  by (simp add: zr_poll_write_def zr_poll_read_def poll_early_def zero_rtt_new_def quiet_env_def then_settled_def
      poll_settled_def settle_replay_def finish_replay_def resolve_def settled_write_def os_take_def
      ZERO_RTT_REPLAY_LIMIT_def)

end
