(* ===== verification/Bound_Config.thy ===== *)
theory Bound_Config
  imports Target_Addr
begin

text \<open>
  The configuration of inbounds and outbounds (\<open>src/src/config/mod.rs\<close>) and the TLS
  settings derived from it (\<open>TlsConfig\<close> of \<open>src/src/proxy/mod.rs\<close>): required
  endpoints and credentials, time-outs, the merged user list of an inbound, the
  subscription hosts, and the JLS checks. Shown: merging keeps the first occurrence of every
  user name and nothing else, and a derived \<open>TlsConfig\<close> never enables JLS without
  credentials.
\<close>

subsection \<open>The configuration structures\<close>

record auth_user =
  au_username :: bytes
  au_password :: bytes

record inbound_tls_config =
  it_enable :: bool
  it_server_name :: "bytes option"
  it_cert :: "bytes option"
  it_key :: "bytes option"
  it_alpn :: "bytes list option"
  it_zero_rtt :: "bool option"
  it_enable_jls :: bool
  it_jls_username :: "bytes option"
  it_jls_password :: "bytes option"

record outbound_tls_config =
  ot_enable :: bool
  ot_insecure :: "bool option"
  ot_server_name :: "bytes option"
  ot_ca :: "bytes option"
  ot_alpn :: "bytes list option"
  ot_zero_rtt :: "bool option"
  ot_enable_jls :: bool
  ot_jls_username :: "bytes option"
  ot_jls_password :: "bytes option"

record transport_config =
  tr_type :: bytes
  tr_path :: "bytes option"
  tr_host :: "bytes option"
  tr_service_name :: "bytes option"

datatype tun_stack = Lwip | Smoltcp | SystemStack | Native

record inbound_config =
  ib_type :: bytes
  ib_address :: "bytes option"
  ib_port :: "u16 option"
  ib_set_system_proxy :: bool
  ib_tls :: "inbound_tls_config option"
  ib_transport :: "transport_config option"
  ib_idle_timeout :: "u64 option"
  ib_username :: "bytes option"
  ib_password :: "bytes option"
  ib_uuid :: "bytes option"
  ib_users :: "auth_user list"
  ib_udp_mod :: "bytes option"
  ib_congestion_controller :: "bytes option"
  ib_gso :: bool
  ib_mtu_discovery :: bool
  ib_mtu :: "u16 option"
  ib_min_mtu :: u16
  ib_initial_mtu :: u16
  ib_auto_route :: "bool option"
  ib_strict_route :: bool
  ib_block_ipv6 :: bool
  ib_tun_name :: "bytes option"
  ib_tun_address :: "bytes list option"
  ib_tun_fd :: "32 word option"
  ib_tun_stack :: tun_stack

record outbound_config =
  ob_type :: bytes
  ob_address :: "bytes option"
  ob_port :: "u16 option"
  ob_connect_timeout :: "u64 option"
  ob_attempt_delay_ms :: "u64 option"
  ob_bind_interface :: "bytes option"
  ob_dns :: "bytes option"
  ob_idle_timeout :: "u64 option"
  ob_username :: "bytes option"
  ob_password :: "bytes option"
  ob_uuid :: "bytes option"
  ob_udp_mod :: "bytes option"
  ob_congestion_controller :: "bytes option"
  ob_pool_size :: "u16 option"
  ob_gso :: bool
  ob_mtu_discovery :: bool
  ob_min_mtu :: u16
  ob_initial_mtu :: u16
  ob_outbounds :: "bytes list option"
  ob_default_outbound :: "bytes option"
  ob_url :: "bytes option"
  ob_interval :: "u64 option"
  ob_tolerance :: "u64 option"
  ob_prefer_ipv6 :: "bool option"
  ob_cache :: "bytes option"
  ob_tls :: "outbound_tls_config option"
  ob_transport :: "transport_config option"
  ob_disable_mux :: bool
  ob_liveness_probe :: bool

datatype config_error =
    RequiresAddress
  | RequiresPort
  | RequiresUsername
  | RequiresPassword
  | InvalidSocketAddress
  | InvalidTarget addr_error
  | JlsRequiresCredentials
  | JlsAuthenticationFailed

text \<open>\<open>with_context(..)?\<close> on an option.\<close>

definition required :: "'e \<Rightarrow> 'a option \<Rightarrow> 'e + 'a" where
  "required e v = (case v of None \<Rightarrow> Inl e | Some x \<Rightarrow> Inr x)"

fun unwrap_or :: "'a option \<Rightarrow> 'a \<Rightarrow> 'a" where
  "unwrap_or None d = d"
| "unwrap_or (Some x) d = x"

definition required_endpoint :: "bytes option \<Rightarrow> u16 option \<Rightarrow> config_error + bytes \<times> u16" where
  "required_endpoint address p =
     bindr (required RequiresAddress address) (\<lambda>a.
     bindr (required RequiresPort p) (\<lambda>q. Inr (a, q)))"

definition required_credentials :: "bytes option \<Rightarrow> bytes option \<Rightarrow> config_error + bytes \<times> bytes" where
  "required_credentials u p =
     bindr (required RequiresUsername u) (\<lambda>a.
     bindr (required RequiresPassword p) (\<lambda>q. Inr (a, q)))"

subsection \<open>Durations\<close>

text \<open>A \<open>Duration\<close> in milliseconds.\<close>

definition duration_from_secs_or :: "u64 option \<Rightarrow> nat \<Rightarrow> nat" where
  "duration_from_secs_or v d = unwrap_or (map_option (\<lambda>s. 1000 * unat s) v) d"

definition DEFAULT_IDLE_TIMEOUT :: nat where "DEFAULT_IDLE_TIMEOUT = 30000"
definition DEFAULT_CONNECT_TIMEOUT :: nat where "DEFAULT_CONNECT_TIMEOUT = 30000"
definition DEFAULT_ATTEMPT_DELAY :: nat where "DEFAULT_ATTEMPT_DELAY = 250"

definition in_idle_timeout_or :: "inbound_config \<Rightarrow> nat \<Rightarrow> nat" where
  "in_idle_timeout_or cfg d = duration_from_secs_or (ib_idle_timeout cfg) d"

definition in_idle_timeout :: "inbound_config \<Rightarrow> nat" where
  "in_idle_timeout cfg = in_idle_timeout_or cfg DEFAULT_IDLE_TIMEOUT"

definition out_idle_timeout :: "outbound_config \<Rightarrow> nat" where
  "out_idle_timeout cfg = duration_from_secs_or (ob_idle_timeout cfg) DEFAULT_IDLE_TIMEOUT"

definition out_connect_timeout :: "outbound_config \<Rightarrow> nat" where
  "out_connect_timeout cfg = duration_from_secs_or (ob_connect_timeout cfg) DEFAULT_CONNECT_TIMEOUT"

definition out_attempt_delay :: "outbound_config \<Rightarrow> nat" where
  "out_attempt_delay cfg = unwrap_or (map_option unat (ob_attempt_delay_ms cfg)) DEFAULT_ATTEMPT_DELAY"

subsection \<open>Endpoints and credentials\<close>

definition in_endpoint :: "inbound_config \<Rightarrow> config_error + bytes \<times> u16" where
  "in_endpoint cfg = required_endpoint (ib_address cfg) (ib_port cfg)"

definition in_socket_addr :: "inbound_config \<Rightarrow> config_error + socket_addr" where
  "in_socket_addr cfg =
     bindr (in_endpoint cfg) (\<lambda>(a, p).
       case parse_ip_addr a of None \<Rightarrow> Inl InvalidSocketAddress | Some ip \<Rightarrow> Inr (sock_new ip p))"

definition in_credentials :: "inbound_config \<Rightarrow> config_error + bytes \<times> bytes" where
  "in_credentials cfg = required_credentials (ib_username cfg) (ib_password cfg)"

definition in_udp_mode_or :: "inbound_config \<Rightarrow> bytes \<Rightarrow> bytes" where
  "in_udp_mode_or cfg d = unwrap_or (ib_udp_mod cfg) d"

definition out_endpoint :: "outbound_config \<Rightarrow> config_error + target_addr" where
  "out_endpoint cfg =
     bindr (required_endpoint (ob_address cfg) (ob_port cfg)) (\<lambda>(a, p).
       case from_str2 a p of Inl e \<Rightarrow> Inl (InvalidTarget e) | Inr t \<Rightarrow> Inr t)"

definition out_credentials :: "outbound_config \<Rightarrow> config_error + bytes \<times> bytes" where
  "out_credentials cfg = required_credentials (ob_username cfg) (ob_password cfg)"

definition out_udp_mode_or :: "outbound_config \<Rightarrow> bytes \<Rightarrow> bytes" where
  "out_udp_mode_or cfg d = unwrap_or (ob_udp_mod cfg) d"

subsection \<open>The users of an inbound\<close>

definition push_user :: "auth_user list \<Rightarrow> auth_user \<Rightarrow> auth_user list" where
  "push_user users u =
     (if list_ex (\<lambda>v. au_username v = au_username u) users then users else users @ [u])"

definition vmess_user :: "inbound_config \<Rightarrow> auth_user list" where
  "vmess_user cfg =
     (if eq_ignore_ascii_case (ib_type cfg) (str ''vmess'') then
        (case ib_uuid cfg of None \<Rightarrow> []
         | Some uuid \<Rightarrow> [\<lparr>au_username = uuid, au_password = uuid\<rparr>])
      else [])"

definition legacy_user :: "inbound_config \<Rightarrow> auth_user list" where
  "legacy_user cfg =
     (case ib_password cfg of None \<Rightarrow> []
      | Some pw \<Rightarrow> [\<lparr>au_username = unwrap_or (ib_username cfg) pw, au_password = pw\<rparr>])"

definition jls_user :: "inbound_config \<Rightarrow> auth_user list" where
  "jls_user cfg =
     (if eq_ignore_ascii_case (ib_type cfg) (str ''shadowquic'') then
        (case ib_tls cfg of None \<Rightarrow> []
         | Some tls \<Rightarrow>
             if it_enable_jls tls then
               (case it_jls_password tls of None \<Rightarrow> []
                | Some pw \<Rightarrow> [\<lparr>au_username = unwrap_or (it_jls_username tls) pw, au_password = pw\<rparr>])
             else [])
      else [])"

definition merged_auth_users :: "inbound_config \<Rightarrow> auth_user list \<Rightarrow> auth_user list" where
  "merged_auth_users cfg global =
     foldl push_user
       (foldl push_user
         (foldl push_user (foldl push_user (foldl push_user [] global) (ib_users cfg)) (vmess_user cfg))
         (legacy_user cfg))
       (jls_user cfg)"

text \<open>All candidates in their order of precedence.\<close>

definition candidate_users :: "inbound_config \<Rightarrow> auth_user list \<Rightarrow> auth_user list" where
  "candidate_users cfg global = global @ ib_users cfg @ vmess_user cfg @ legacy_user cfg @ jls_user cfg"

definition named :: "bytes \<Rightarrow> auth_user \<Rightarrow> bool" where
  "named n u \<longleftrightarrow> au_username u = n"

lemma merged_foldl: "merged_auth_users cfg global = foldl push_user [] (candidate_users cfg global)"
  by (simp add: merged_auth_users_def candidate_users_def)

lemma find_snoc: "find P (xs @ [x]) = (case find P xs of Some y \<Rightarrow> Some y | None \<Rightarrow> if P x then Some x else None)"
  by (induction xs) auto

lemma find_append: "find P (xs @ ys) = (case find P xs of Some y \<Rightarrow> Some y | None \<Rightarrow> find P ys)"
  by (induction xs) auto

lemma push_user_distinct:
  "distinct (map au_username us) \<Longrightarrow> distinct (map au_username (push_user us u))"
  by (auto simp: push_user_def list_ex_iff)

lemma push_users_distinct:
  "distinct (map au_username us) \<Longrightarrow> distinct (map au_username (foldl push_user us vs))"
  by (induction vs arbitrary: us) (simp_all add: push_user_distinct)

lemma find_push_user: "find (named n) (push_user us u) = find (named n) (us @ [u])"
  by (auto simp: push_user_def find_snoc find_None_iff list_ex_iff named_def split: option.split)

lemma find_push_users: "find (named n) (foldl push_user us vs) = find (named n) (us @ vs)"
proof (induction vs arbitrary: us)
  case (Cons v vs)
  show ?case by (simp add: Cons.IH find_append find_push_user split: option.split)
qed simp

subsection \<open>Subscription hosts\<close>

datatype subscription_host = Single bytes | Multiple "bytes list"

definition subscription_hosts :: "subscription_host \<Rightarrow> bytes list" where
  "subscription_hosts h =
     (let raw = (case h of Single x \<Rightarrow> [x] | Multiple xs \<Rightarrow> xs)
      in sort_key (\<lambda>h. 0x3A \<notin> set h) (filter (\<lambda>h. h \<noteq> []) (map trim raw)))"

lemma insort_bool_key:
  fixes f :: "'a \<Rightarrow> bool"
  assumes "list_all (\<lambda>x. \<not> f x) xs" and "list_all f ys"
  shows "insort_key f x (xs @ ys) = (if f x then xs @ x # ys else x # xs @ ys)"
  using assms by (induction xs) (cases ys; auto simp: le_bool_def)+

lemma sort_key_bool: "sort_key (f :: 'a \<Rightarrow> bool) xs = filter (\<lambda>x. \<not> f x) xs @ filter f xs"
proof (induction xs)
  case (Cons x xs)
  have "list_all (\<lambda>x. \<not> f x) (filter (\<lambda>x. \<not> f x) xs)" "list_all f (filter f xs)"
    by (simp_all add: list_all_iff)
  from insort_bool_key [OF this, of x] Cons.IH show ?case by simp
qed simp

subsection \<open>TLS settings\<close>

record tls_config =
  tls_enable :: bool
  tls_insecure :: bool
  tls_zero_rtt :: bool
  tls_sni :: "bytes option"
  tls_cert :: "bytes option"
  tls_key :: "bytes option"
  tls_alpns :: "bytes list option"
  tls_enable_jls :: bool
  tls_jls_username :: bytes
  tls_jls_password :: bytes

definition validate_jls :: "bool \<Rightarrow> bytes \<Rightarrow> bytes \<Rightarrow> config_error + unit" where
  "validate_jls enable username password =
     (if enable \<and> (username = [] \<or> password = []) then Inl JlsRequiresCredentials else Inr ())"

text \<open>The JLS state of a connection enters as whether it is \<open>AuthSuccess\<close>.\<close>

definition verify_jls_connection :: "tls_config \<Rightarrow> bool \<Rightarrow> config_error + unit" where
  "verify_jls_connection tls auth_success =
     (if tls_enable_jls tls \<and> \<not> auth_success
      then Inl JlsAuthenticationFailed else Inr ())"

definition from_inbound :: "inbound_config \<Rightarrow> config_error + tls_config" where
  "from_inbound cfg =
     (let tls = ib_tls cfg;
          (cert, key, alpns, user, pw, jls) =
            (case tls of
               Some t \<Rightarrow> (it_cert t, it_key t, it_alpn t, unwrap_or (it_jls_username t) [],
                          unwrap_or (it_jls_password t) [], it_enable_jls t)
             | None \<Rightarrow> (None, None, None, [], [], False))
      in bindr (validate_jls jls user pw) (\<lambda>_.
           Inr \<lparr>tls_enable = unwrap_or (map_option it_enable tls) True,
                tls_insecure = False,
                tls_zero_rtt = unwrap_or (Option.bind tls it_zero_rtt) False,
                tls_sni = Option.bind tls it_server_name,
                tls_cert = cert, tls_key = key, tls_alpns = alpns,
                tls_enable_jls = jls, tls_jls_username = user, tls_jls_password = pw\<rparr>))"

definition from_outbound :: "outbound_config \<Rightarrow> config_error + tls_config" where
  "from_outbound cfg =
     (let tls = ob_tls cfg;
          (insecure, sni, cert, alpns, user, pw, jls) =
            (case tls of
               Some t \<Rightarrow> (unwrap_or (ot_insecure t) False, ot_server_name t, ot_ca t, ot_alpn t,
                          unwrap_or (ot_jls_username t) [], unwrap_or (ot_jls_password t) [], ot_enable_jls t)
             | None \<Rightarrow> (False, None, None, None, [], [], False))
      in bindr (validate_jls jls user pw) (\<lambda>_.
           Inr \<lparr>tls_enable = unwrap_or (map_option ot_enable tls) True,
                tls_insecure = insecure,
                tls_zero_rtt = unwrap_or (Option.bind tls ot_zero_rtt) False,
                tls_sni = sni,
                tls_cert = cert, tls_key = None, tls_alpns = alpns,
                tls_enable_jls = jls, tls_jls_username = user, tls_jls_password = pw\<rparr>))"

text \<open>The invariant of a TLS configuration.\<close>

definition tls_ok :: "tls_config \<Rightarrow> bool" where
  "tls_ok t \<longleftrightarrow> (tls_enable_jls t \<longrightarrow> tls_jls_username t \<noteq> [] \<and> tls_jls_password t \<noteq> [])"

lemma from_inbound_ok: "from_inbound cfg = Inr t \<Longrightarrow> tls_ok t \<and> \<not> tls_insecure t"
  by (auto simp: from_inbound_def validate_jls_def tls_ok_def bindr_Inr_iff Let_def
      split: option.splits if_splits)

lemma from_outbound_ok: "from_outbound cfg = Inr t \<Longrightarrow> tls_ok t \<and> tls_key t = None"
  by (auto simp: from_outbound_def validate_jls_def tls_ok_def bindr_Inr_iff Let_def
      split: option.splits if_splits)

lemma from_outbound_secure_default:
  assumes "from_outbound cfg = Inr t" and "tls_insecure t"
  shows "\<exists>c. ob_tls cfg = Some c \<and> ot_insecure c = Some True"
proof (cases "ob_tls cfg")
  case (Some c)
  with assms show ?thesis
    by (cases "ot_insecure c") (auto simp: from_outbound_def bindr_Inr_iff Let_def)
qed (use assms in \<open>auto simp: from_outbound_def bindr_Inr_iff Let_def\<close>)

subsection \<open>Properties\<close>

text \<open>The users of an inbound have distinct names, and looking a name up gives exactly the
  first candidate with that name in the order global list, inbound list, VMess id, legacy
  credential, JLS credential; so no user is lost and none is overridden by a later source.\<close>

theorem merged_users_first_wins:
  "distinct (map au_username (merged_auth_users cfg global)) \<and>
   find (named n) (merged_auth_users cfg global) = find (named n) (candidate_users cfg global)"
  using push_users_distinct [of "[]"] find_push_users [of n "[]"] by (simp add: merged_foldl)

text \<open>Derived TLS settings are well formed: JLS is never enabled with an empty user name or
  password, an inbound never disables certificate checks, an outbound does so only when its
  configuration says so, and an outbound never carries a private key.\<close>

theorem tls_config_wf:
  assumes "from_inbound icfg = Inr ti" and "from_outbound ocfg = Inr tout"
  shows "tls_ok ti \<and> tls_ok tout \<and> \<not> tls_insecure ti \<and> tls_key tout = None \<and>
    (tls_insecure tout \<longrightarrow> (\<exists>c. ob_tls ocfg = Some c \<and> ot_insecure c = Some True))"
  using from_inbound_ok [OF assms(1)] from_outbound_ok [OF assms(2)] from_outbound_secure_default [OF assms(2)]
  by blast

definition sample_inbound :: inbound_config where
  "sample_inbound = \<lparr>ib_type = str ''shadowquic'', ib_address = None, ib_port = None, ib_set_system_proxy = False,
     ib_tls = Some \<lparr>it_enable = True, it_server_name = None, it_cert = None, it_key = None, it_alpn = None,
       it_zero_rtt = None, it_enable_jls = True, it_jls_username = Some [1], it_jls_password = Some [2]\<rparr>,
     ib_transport = None, ib_idle_timeout = None, ib_username = None, ib_password = None, ib_uuid = None,
     ib_users = [], ib_udp_mod = None, ib_congestion_controller = None, ib_gso = False, ib_mtu_discovery = True,
     ib_mtu = None, ib_min_mtu = 1400, ib_initial_mtu = 1400, ib_auto_route = None, ib_strict_route = False,
     ib_block_ipv6 = False, ib_tun_name = None, ib_tun_address = None, ib_tun_fd = None, ib_tun_stack = Lwip\<rparr>"

definition sample_outbound :: outbound_config where
  "sample_outbound = \<lparr>ob_type = str ''trojan'', ob_address = None, ob_port = None, ob_connect_timeout = None,
     ob_attempt_delay_ms = None, ob_bind_interface = None, ob_dns = None, ob_idle_timeout = None,
     ob_username = None, ob_password = None, ob_uuid = None, ob_udp_mod = None, ob_congestion_controller = None,
     ob_pool_size = None, ob_gso = False, ob_mtu_discovery = True, ob_min_mtu = 1400, ob_initial_mtu = 1400,
     ob_outbounds = None, ob_default_outbound = None, ob_url = None, ob_interval = None, ob_tolerance = None,
     ob_prefer_ipv6 = None, ob_cache = None,
     ob_tls = Some \<lparr>ot_enable = True, ot_insecure = Some True, ot_server_name = None, ot_ca = None, ot_alpn = None,
       ot_zero_rtt = None, ot_enable_jls = False, ot_jls_username = None, ot_jls_password = None\<rparr>,
     ob_transport = None, ob_disable_mux = False, ob_liveness_probe = False\<rparr>"

lemma sample_tls:
  "\<exists>ti. from_inbound sample_inbound = Inr ti" "\<exists>tout. from_outbound sample_outbound = Inr tout \<and> tls_insecure tout"
  by (simp_all add: sample_inbound_def sample_outbound_def from_inbound_def from_outbound_def validate_jls_def)

theorem tls_config_wf_witness:
  "\<exists>ti tout. from_inbound sample_inbound = Inr ti \<and> from_outbound sample_outbound = Inr tout \<and> tls_ok ti \<and> tls_ok tout \<and>
     tls_insecure tout \<and> (\<exists>c. ob_tls sample_outbound = Some c \<and> ot_insecure c = Some True)"
  using sample_tls tls_config_wf by metis

end
