(* ===== verification/Shadow_Quic.thy ===== *)
theory Shadow_Quic
  imports Shadow_Udp_Flow Stream_Wrappers Bound_Config
begin

text \<open>
  The ShadowQUIC outbound's connection cache (\<open>src/src/proxy/outbound/shadowquic.rs\<close>) and the
  inbound's authentication, request dispatch and user management
  (\<open>src/src/proxy/inbound/shadowquic.rs\<close>). A QUIC connection is an index (its \<open>stable_id\<close>)
  into the connections ever made; what the network does is a parameter.
\<close>

subsection \<open>The outbound's cached connection\<close>

record quic_conn =
  qc_open :: bool
  qc_rejected :: bool
  qc_auth_rejected :: bool
  qc_next_context_id :: u32

record sq_outbound =
  sq_conns :: "quic_conn list"
  sq_cached :: "nat option"
  sq_reports :: nat

text \<open>The network during one call: whether a probe finds a connection healthy, whether the
  connection that would get this id can be established, whether a stream can be opened on it,
  and the 0-RTT verdict of a stream opened on it (\<open>None\<close> when no verdict is needed).\<close>

record sq_net =
  nt_healthy :: "nat \<Rightarrow> bool"
  nt_establish :: "nat \<Rightarrow> bool"
  nt_open :: "nat \<Rightarrow> bool"
  nt_verdict :: "nat \<Rightarrow> bool option"

datatype sq_error =
    NotResponding
  | ConnectFailed
  | OpenStreamFailed
  | NoContextIdCapacity
  | KeptRejectingZeroRtt

definition fresh_conn :: quic_conn where
  "fresh_conn = \<lparr>qc_open = True, qc_rejected = False, qc_auth_rejected = False, qc_next_context_id = 1\<rparr>"

definition conn_at :: "nat \<Rightarrow> sq_outbound \<Rightarrow> quic_conn" where
  "conn_at i s = sq_conns s ! i"

definition set_conn :: "nat \<Rightarrow> (quic_conn \<Rightarrow> quic_conn) \<Rightarrow> sq_outbound \<Rightarrow> sq_outbound" where
  "set_conn i f s = s\<lparr>sq_conns := (sq_conns s)[i := f (sq_conns s ! i)]\<rparr>"

definition close_conn :: "nat \<Rightarrow> sq_outbound \<Rightarrow> sq_outbound" where
  "close_conn i = set_conn i (\<lambda>c. c\<lparr>qc_open := False\<rparr>)"

definition zero_rtt_rejected :: "quic_conn \<Rightarrow> bool" where
  "zero_rtt_rejected c \<longleftrightarrow> qc_rejected c \<or> qc_auth_rejected c"

definition report_unhealthy :: "sq_outbound \<Rightarrow> sq_outbound" where
  "report_unhealthy s = s\<lparr>sq_reports := Suc (sq_reports s)\<rparr>"

definition clear_cached_conn :: "nat \<Rightarrow> bool \<Rightarrow> sq_outbound \<Rightarrow> sq_outbound" where
  "clear_cached_conn failed close s =
     (if sq_cached s = Some failed
      then (if close then close_conn failed s else s)\<lparr>sq_cached := None\<rparr> else s)"

definition drop_rejected :: "sq_outbound \<Rightarrow> sq_outbound" where
  "drop_rejected s =
     (case sq_cached s of
        Some i \<Rightarrow> if zero_rtt_rejected (conn_at i s) then (close_conn i s)\<lparr>sq_cached := None\<rparr> else s
      | None \<Rightarrow> s)"

definition connect_new :: "sq_net \<Rightarrow> sq_outbound \<Rightarrow> (sq_error + nat) \<times> sq_outbound" where
  "connect_new net s =
     (let i = length (sq_conns s)
      in if nt_establish net i
         then (Inr i, s\<lparr>sq_conns := sq_conns s @ [fresh_conn], sq_cached := Some i\<rparr>)
         else (Inl ConnectFailed, report_unhealthy (s\<lparr>sq_cached := None\<rparr>)))"

definition ensure_connection :: "sq_net \<Rightarrow> sq_outbound \<Rightarrow> (sq_error + nat) \<times> sq_outbound" where
  "ensure_connection net s0 =
     (let s = drop_rejected s0
      in case sq_cached s of
           Some i \<Rightarrow>
             if qc_open (conn_at i s) then
               (if nt_healthy net i then (Inr i, s)
                else (Inl NotResponding, report_unhealthy ((close_conn i s)\<lparr>sq_cached := None\<rparr>)))
             else connect_new net s
         | None \<Rightarrow> connect_new net s)"

definition open_stream_with_retry :: "sq_net \<Rightarrow> sq_outbound \<Rightarrow> (sq_error + nat) \<times> sq_outbound" where
  "open_stream_with_retry net s =
     (case ensure_connection net s of
        (Inl e, s1) \<Rightarrow> (Inl e, s1)
      | (Inr i, s1) \<Rightarrow>
          if nt_open net i then (Inr i, s1)
          else
            (case ensure_connection net (clear_cached_conn i True s1) of
               (Inl e, s2) \<Rightarrow> (Inl e, s2)
             | (Inr j, s2) \<Rightarrow>
                 if nt_open net j then (Inr j, s2)
                 else (Inl OpenStreamFailed, report_unhealthy (clear_cached_conn j True s2))))"

definition has_capacity :: "quic_conn \<Rightarrow> bool" where
  "has_capacity c \<longleftrightarrow> unat (qc_next_context_id c) < 65535 - UDP_CONTEXT_ID_RECONNECT_MARGIN"

fun open_udp_bistream_with_capacity :: "sq_net \<Rightarrow> nat \<Rightarrow> sq_outbound \<Rightarrow> (sq_error + nat) \<times> sq_outbound" where
  "open_udp_bistream_with_capacity net 0 s = (Inl NoContextIdCapacity, s)"
| "open_udp_bistream_with_capacity net (Suc n) s =
     (case open_stream_with_retry net s of
        (Inl e, s1) \<Rightarrow> (Inl e, s1)
      | (Inr i, s1) \<Rightarrow>
          if has_capacity (conn_at i s1) then (Inr i, s1)
          else open_udp_bistream_with_capacity net n (clear_cached_conn i False s1))"

text \<open>The first stream to see a rejection closes the connection and evicts it.\<close>

definition watch_zero_rtt :: "nat \<Rightarrow> bool \<Rightarrow> sq_outbound \<Rightarrow> sq_outbound" where
  "watch_zero_rtt i accepted s =
     (if \<not> accepted \<and> \<not> qc_rejected (conn_at i s) then
        let s1 = close_conn i (set_conn i (\<lambda>c. c\<lparr>qc_rejected := True\<rparr>) s)
        in (if sq_cached s1 = Some i then s1\<lparr>sq_cached := None\<rparr> else s1)
      else s)"

fun open_udp_bistream_settled :: "sq_net \<Rightarrow> nat \<Rightarrow> sq_outbound \<Rightarrow> (sq_error + nat) \<times> sq_outbound" where
  "open_udp_bistream_settled net 0 s = (Inl KeptRejectingZeroRtt, s)"
| "open_udp_bistream_settled net (Suc n) s =
     (case open_udp_bistream_with_capacity net 2 s of
        (Inl e, s1) \<Rightarrow> (Inl e, s1)
      | (Inr i, s1) \<Rightarrow>
          (case nt_verdict net i of
             None \<Rightarrow> (Inr i, s1)
           | Some accepted \<Rightarrow>
               let s2 = watch_zero_rtt i accepted s1
               in if accepted then (Inr i, s2) else open_udp_bistream_settled net n s2))"

text \<open>\<open>is_healthy\<close> with the connection's UDP counters, the clock and the result of the probe;
  durations in milliseconds.\<close>

definition is_healthy ::
    "bool \<Rightarrow> bool \<Rightarrow> u64 \<Rightarrow> u64 \<Rightarrow> u64 \<Rightarrow> path_liveness \<Rightarrow> bool \<times> path_liveness" where
  "is_healthy liveness_probe probe_ok rx tx now l =
     (if \<not> liveness_probe then (True, l)
      else let (suspect, l1) = observe_at rx tx now l
           in if \<not> suspect then (True, l1)
              else if probe_ok then (True, mark_alive now l1) else (False, l1))"

definition probe_timeout :: "nat \<Rightarrow> nat \<Rightarrow> nat" where
  "probe_timeout rtt connect_timeout = min (min (max (rtt * 4) 800) 3000) connect_timeout"

definition migrate_cached_conn :: "bool \<Rightarrow> sq_outbound \<Rightarrow> sq_outbound" where
  "migrate_cached_conn rebound s =
     (case sq_cached s of
        None \<Rightarrow> s
      | Some i \<Rightarrow> if rebound then s else (close_conn i s)\<lparr>sq_cached := None\<rparr>)"

subsection \<open>The requests a client writes\<close>

definition auth_packet :: "bytes \<Rightarrow> bytes" where
  "auth_packet hash = [5] @ hash"

definition connect_handshake :: "target_addr \<Rightarrow> bytes" where
  "connect_handshake target = [1] @ to_bytes target"

definition udp_handshake :: "bool \<Rightarrow> bytes" where
  "udp_handshake over_unistream = [if over_unistream then 4 else 3] @ to_bytes dummy"

definition SQ_CONN_STATS_REQUEST :: bytes where
  "SQ_CONN_STATS_REQUEST = [0xFF, 0, 0, 0, 0, 0, 0, 0, 1, 0x00]"

definition read_conn_stats :: "bytes \<Rightarrow> (u64 \<times> u64 \<times> u64 \<times> u16) option" where
  "read_conn_stats s0 =
     (case read_u8 s0 of None \<Rightarrow> None | Some (tag, s1) \<Rightarrow>
      if tag \<noteq> 0 then None
      else (case (read_be 4 s1 :: (u32 \<times> bytes) option) of None \<Rightarrow> None | Some (_, s2) \<Rightarrow>
            case read_be 8 s2 of None \<Rightarrow> None | Some (lost, s3) \<Rightarrow>
            case read_be 8 s3 of None \<Rightarrow> None | Some (sent, s4) \<Rightarrow>
            case read_be 8 s4 of None \<Rightarrow> None | Some (rtt, s5) \<Rightarrow>
            case read_be 2 s5 of None \<Rightarrow> None | Some (mtu, _) \<Rightarrow> Some (lost, sent, rtt, mtu)))"

subsection \<open>The inbound: authentication, requests, users\<close>

datatype sq_config_error = TlsError config_error | RequiresTls | RequiresUsers

definition sq_inbound_new :: "inbound_config \<Rightarrow> auth_user list \<Rightarrow> sq_config_error + tls_config \<times> bytes \<times> u16" where
  "sq_inbound_new cfg users =
     (case from_inbound cfg of
        Inl e \<Rightarrow> Inl (TlsError e)
      | Inr tls0 \<Rightarrow>
          let tls = tls0\<lparr>tls_zero_rtt := unwrap_or (Option.bind (ib_tls cfg) it_zero_rtt) True\<rparr>
          in if \<not> tls_enable tls \<and> \<not> tls_enable_jls tls then Inl RequiresTls
             else if \<not> tls_enable_jls tls \<and> users = [] then Inl RequiresUsers
             else (case in_endpoint cfg of Inl e \<Rightarrow> Inl (TlsError e) | Inr (a, p) \<Rightarrow> Inr (tls, a, p)))"

text \<open>Live connections by remote address, with the user they belong to; \<open>si_closed\<close> collects the
  connections the server closed. The observer's \<open>authenticate\<close> is a parameter.\<close>

record sq_inbound =
  si_users :: "auth_user list"
  si_conns :: "(socket_addr, nat \<times> bytes option) fmap"
  si_closed :: "nat list"

record conn_task =
  ct_id :: nat
  ct_remote :: socket_addr
  ct_authed :: bool
  ct_user :: "bytes option"

datatype served =
    ServeStream target_addr bytes
  | ServeUdp bool target_addr u16 bytes
  | ServeStats
  | ServeNotAvailable

datatype stream_outcome = AuthOk | AuthClosed | Served served | RequestFailed

definition si_authenticate ::
    "(bytes \<Rightarrow> bytes) \<Rightarrow> (bytes \<Rightarrow> bytes option) \<Rightarrow> auth_user list \<Rightarrow> bytes \<Rightarrow> bytes option option" where
  "si_authenticate sha256 observer users received =
     (let authed_user = observer received;
          local_ok = list_ex (\<lambda>u. gen_sunny_auth_hash sha256 (au_username u) (au_password u) = received) users
      in if authed_user = None \<and> \<not> local_ok then None else Some authed_user)"

definition serve_request :: "bytes \<Rightarrow> served option" where
  "serve_request s =
     (case read_request_head s of
        Inl e \<Rightarrow> None
      | Inr ((cmd, target), s1) \<Rightarrow>
          if cmd = 1 then Some (ServeStream target s1)
          else if cmd = 3 \<or> cmd = 4 then
            (case read_context_id s1 of None \<Rightarrow> None
             | Some (cid, s2) \<Rightarrow> Some (ServeUdp (cmd = 4) target cid s2))
          else if cmd = 0xFF then
            (case read_extension_request s1 of
               Inl e \<Rightarrow> None
             | Inr (GetConnStats, _) \<Rightarrow> Some ServeStats
             | Inr (_, _) \<Rightarrow> Some ServeNotAvailable)
          else None)"

text \<open>\<open>handle_udp\<close> refuses a session when the context ids are nearly used up and then binds the
  client's first announcement.\<close>

definition handle_udp_accepts :: "u32 \<Rightarrow> bool" where
  "handle_udp_accepts used \<longleftrightarrow> \<not> (unat used \<ge> 65535 - UDP_CONTEXT_ID_RECONNECT_MARGIN)"

datatype handle_udp_error = ContextIdsNearlyExhausted | BindFailed udp_error | SenderFailed send_error

definition handle_udp ::
    "quic_io \<Rightarrow> bool \<Rightarrow> target_addr \<Rightarrow> u16 \<Rightarrow> u32 \<Rightarrow> udp_conn \<Rightarrow> handle_udp_error + nat \<times> udp_sender \<times> udp_conn" where
  "handle_udp io over_stream target cid used c =
     (if \<not> handle_udp_accepts used then Inl ContextIdsNearlyExhausted
      else
        let r = length (uc_receivers c)
        in case bind_context_id r target cid (add_receiver c) of
             (Inl e, _) \<Rightarrow> Inl (BindFailed e)
           | (Inr _, c1) \<Rightarrow>
               (case get_send_context_id io target (sender_new over_stream False used) of
                  (Inl e, _) \<Rightarrow> Inl (SenderFailed e)
                | (Inr _, s) \<Rightarrow> Inr (r, s, c1)))"

text \<open>A new connection is registered; a bistream is an authentication attempt until one has
  succeeded, and a request afterwards. A failed attempt ends the connection.\<close>

definition accept_conn :: "bool \<Rightarrow> (bytes option) \<Rightarrow> nat \<Rightarrow> socket_addr \<Rightarrow> sq_inbound \<Rightarrow> conn_task \<times> sq_inbound" where
  "accept_conn is_jls chosen i remote s =
     (let user = (if is_jls then chosen else None)
      in (\<lparr>ct_id = i, ct_remote = remote, ct_authed = is_jls, ct_user = user\<rparr>,
          s\<lparr>si_conns := fmupd remote (i, user) (si_conns s)\<rparr>))"

definition end_conn :: "conn_task \<Rightarrow> sq_inbound \<Rightarrow> sq_inbound" where
  "end_conn t s = s\<lparr>si_conns := fmdrop (ct_remote t) (si_conns s), si_closed := si_closed s @ [ct_id t]\<rparr>"

definition set_user :: "socket_addr \<Rightarrow> bytes option \<Rightarrow> sq_inbound \<Rightarrow> sq_inbound" where
  "set_user remote u s =
     (case fmlookup (si_conns s) remote of
        None \<Rightarrow> s
      | Some (i, _) \<Rightarrow> s\<lparr>si_conns := fmupd remote (i, u) (si_conns s)\<rparr>)"

definition accept_stream ::
    "(bytes \<Rightarrow> bytes) \<Rightarrow> (bytes \<Rightarrow> bytes option) \<Rightarrow> bytes \<Rightarrow> conn_task \<times> sq_inbound \<Rightarrow> stream_outcome \<times> conn_task \<times> sq_inbound" where
  "accept_stream sha256 observer content = (\<lambda>(t, s).
     if \<not> ct_authed t then
       (case read_sunny_auth content of
          Inl e \<Rightarrow> (AuthClosed, t, end_conn t s)
        | Inr (received, _) \<Rightarrow>
            (case si_authenticate sha256 observer (si_users s) received of
               None \<Rightarrow> (AuthClosed, t, end_conn t s)
             | Some u \<Rightarrow> (AuthOk, t\<lparr>ct_authed := True, ct_user := u\<rparr>, set_user (ct_remote t) u s)))
     else
       (case serve_request content of
          None \<Rightarrow> (RequestFailed, t, s)
        | Some r \<Rightarrow> (Served r, t, s)))"

definition si_add_user :: "auth_user \<Rightarrow> sq_inbound \<Rightarrow> sq_inbound" where
  "si_add_user u s =
     (if list_ex (\<lambda>v. au_username v = au_username u) (si_users s)
      then s\<lparr>si_users := (let (pre, post) = (takeWhile (\<lambda>v. au_username v \<noteq> au_username u) (si_users s),
                                              dropWhile (\<lambda>v. au_username v \<noteq> au_username u) (si_users s))
                           in pre @ ((hd post)\<lparr>au_password := au_password u\<rparr>) # tl post)\<rparr>
      else s\<lparr>si_users := si_users s @ [u]\<rparr>)"

definition close_user_conn :: "socket_addr \<Rightarrow> sq_inbound \<Rightarrow> sq_inbound" where
  "close_user_conn a s =
     (case fmlookup (si_conns s) a of
        None \<Rightarrow> s
      | Some (i, _) \<Rightarrow> s\<lparr>si_conns := fmdrop a (si_conns s), si_closed := si_closed s @ [i]\<rparr>)"

text \<open>The stale addresses are the ones registered under the user, in some order.\<close>

definition si_remove_user :: "socket_addr list \<Rightarrow> bytes \<Rightarrow> sq_inbound \<Rightarrow> sq_inbound" where
  "si_remove_user order name s =
     (let s1 = s\<lparr>si_users := filter (\<lambda>u. au_username u \<noteq> name) (si_users s)\<rparr>;
          stale = filter (\<lambda>a. case fmlookup (si_conns s1) a of Some (_, Some u) \<Rightarrow> u = name | _ \<Rightarrow> False) order
      in fold close_user_conn stale s1)"


subsection \<open>Lemmas: the connection cache\<close>

definition sq_wf :: "sq_outbound \<Rightarrow> bool" where
  "sq_wf s \<longleftrightarrow> (\<forall>i. sq_cached s = Some i \<longrightarrow> i < length (sq_conns s))"

text \<open>The connection returned is the cached one, open, and not known to have lost its early data.\<close>

definition usable :: "nat \<Rightarrow> sq_outbound \<Rightarrow> bool" where
  "usable i s \<longleftrightarrow> sq_cached s = Some i \<and> i < length (sq_conns s) \<and> qc_open (conn_at i s) \<and>
     \<not> zero_rtt_rejected (conn_at i s)"

text \<open>Connections in good standing are never closed by an operation: \<open>keeps\<close> relates the states
  before and after.\<close>

definition keeps :: "sq_net \<Rightarrow> sq_outbound \<Rightarrow> sq_outbound \<Rightarrow> bool" where
  "keeps net s s' \<longleftrightarrow> length (sq_conns s) \<le> length (sq_conns s') \<and>
     (\<forall>j < length (sq_conns s). qc_next_context_id (conn_at j s') = qc_next_context_id (conn_at j s) \<and>
        zero_rtt_rejected (conn_at j s') = zero_rtt_rejected (conn_at j s) \<and>
        (qc_open (conn_at j s) \<and> \<not> zero_rtt_rejected (conn_at j s) \<and> nt_healthy net j \<and> nt_open net j \<longrightarrow>
         qc_open (conn_at j s')))"

lemma keeps_refl: "keeps net s s"
  by (simp add: keeps_def)

lemma keeps_trans: "keeps net s s1 \<Longrightarrow> keeps net s1 s2 \<Longrightarrow> keeps net s s2"
  unfolding keeps_def by (metis le_trans order_less_le_trans)

lemma conn_at_simps [simp]:
  "conn_at i (s\<lparr>sq_cached := c\<rparr>) = conn_at i s"
  "conn_at i (report_unhealthy s) = conn_at i s"
  "sq_conns (report_unhealthy s) = sq_conns s" "sq_cached (report_unhealthy s) = sq_cached s"
  "length (sq_conns (close_conn j s)) = length (sq_conns s)" "sq_cached (close_conn j s) = sq_cached s"
  by (simp_all add: conn_at_def report_unhealthy_def close_conn_def set_conn_def)

lemma conn_at_close:
  "i < length (sq_conns s) \<Longrightarrow>
     conn_at i (close_conn j s) = (if i = j then (conn_at i s)\<lparr>qc_open := False\<rparr> else conn_at i s)"
  by (simp add: conn_at_def close_conn_def set_conn_def nth_list_update)

lemma drop_rejected_laws:
  assumes "sq_wf s"
  shows "sq_wf (drop_rejected s)" and "keeps net s (drop_rejected s)"
    and "sq_cached (drop_rejected s) = Some i \<Longrightarrow> \<not> zero_rtt_rejected (conn_at i (drop_rejected s))"
  using assms
  by (auto simp: drop_rejected_def sq_wf_def keeps_def conn_at_close zero_rtt_rejected_def split: option.splits if_splits)

lemma connect_new_laws:
  assumes "connect_new net s = (r, s')"
  shows "keeps net s s'" and "sq_wf s'" and "r = Inr i \<Longrightarrow> usable i s' \<and> conn_at i s' = fresh_conn"
    and "nt_establish net (length (sq_conns s)) \<Longrightarrow> r = Inr (length (sq_conns s))"
  using assms
  by (auto simp: connect_new_def Let_def keeps_def sq_wf_def usable_def conn_at_def nth_append fresh_conn_def
      zero_rtt_rejected_def report_unhealthy_def split: if_splits)

lemma ensure_laws:
  assumes "sq_wf s" and "ensure_connection net s = (r, s')"
  shows "keeps net s s'" and "sq_wf s'" and "r = Inr i \<Longrightarrow> usable i s'"
proof -
  let ?d = "drop_rejected s"
  note d = drop_rejected_laws [OF assms(1)]
  have "keeps net s s' \<and> sq_wf s' \<and> (\<forall>i. r = Inr i \<longrightarrow> usable i s')"
  proof (cases "sq_cached ?d")
    case None
    with assms(2) have "connect_new net ?d = (r, s')" by (simp add: ensure_connection_def Let_def)
    from connect_new_laws [OF this] d(2) keeps_trans show ?thesis by metis
  next
    case (Some i)
    with d(1) have i: "i < length (sq_conns ?d)" by (simp add: sq_wf_def)
    show ?thesis
    proof (cases "qc_open (conn_at i ?d)")
      case False
      with assms(2) Some have "connect_new net ?d = (r, s')" by (simp add: ensure_connection_def Let_def)
      from connect_new_laws [OF this] d(2) keeps_trans show ?thesis by metis
    next
      case True
      show ?thesis
      proof (cases "nt_healthy net i")
        case h: True
        with assms(2) Some True have "r = Inr i" "s' = ?d" by (auto simp: ensure_connection_def Let_def)
        with d Some True i show ?thesis by (auto simp: usable_def)
      next
        case False
        with assms(2) Some True have r: "r = Inl NotResponding"
          and s': "s' = report_unhealthy ((close_conn i ?d)\<lparr>sq_cached := None\<rparr>)"
          by (auto simp: ensure_connection_def Let_def)
        have "keeps net ?d s'" using False by (auto simp: s' keeps_def conn_at_close zero_rtt_rejected_def)
        with keeps_trans [OF d(2)] r show ?thesis by (auto simp: s' sq_wf_def)
      qed
    qed
  qed
  then show "keeps net s s'" "sq_wf s'" "r = Inr i \<Longrightarrow> usable i s'" by auto
qed

lemma clear_laws:
  assumes "sq_wf s" and "close \<longrightarrow> \<not> nt_open net i"
  shows "sq_wf (clear_cached_conn i close s)" and "keeps net s (clear_cached_conn i close s)"
  using assms by (auto simp: clear_cached_conn_def sq_wf_def keeps_def conn_at_close zero_rtt_rejected_def)

lemma open_retry_laws:
  assumes "sq_wf s" and "open_stream_with_retry net s = (r, s')"
  shows "keeps net s s'" and "sq_wf s'" and "r = Inr i \<Longrightarrow> usable i s' \<and> nt_open net i"
proof -
  obtain r1 s1 where e1: "ensure_connection net s = (r1, s1)" by (cases "ensure_connection net s")
  note l1 = ensure_laws [OF assms(1) e1]
  have "keeps net s s' \<and> sq_wf s' \<and> (\<forall>i. r = Inr i \<longrightarrow> usable i s' \<and> nt_open net i)"
  proof (cases r1)
    case (Inl e)
    with assms(2) e1 l1 show ?thesis by (auto simp: open_stream_with_retry_def)
  next
    case (Inr k)
    show ?thesis
    proof (cases "nt_open net k")
      case True
      with assms(2) e1 l1 Inr show ?thesis by (auto simp: open_stream_with_retry_def)
    next
      case False
      let ?c = "clear_cached_conn k True s1"
      have c: "sq_wf ?c" "keeps net s1 ?c" using clear_laws [of s1 True net k] l1(2) False by auto
      obtain r2 s2 where e2: "ensure_connection net ?c = (r2, s2)" by (cases "ensure_connection net ?c")
      note l2 = ensure_laws [OF c(1) e2]
      have k2: "keeps net s s2" using keeps_trans [OF keeps_trans [OF l1(1) c(2)] l2(1)] .
      show ?thesis
      proof (cases r2)
        case (Inl e)
        with assms(2) e1 e2 Inr False l2 k2 show ?thesis by (auto simp: open_stream_with_retry_def)
      next
        case r2: (Inr j)
        show ?thesis
        proof (cases "nt_open net j")
          case True
          with assms(2) e1 e2 Inr False l2 k2 r2 show ?thesis by (auto simp: open_stream_with_retry_def)
        next
          case nj: False
          with assms(2) e1 e2 Inr False r2 have r: "r = Inl OpenStreamFailed"
            and s': "s' = report_unhealthy (clear_cached_conn j True s2)"
            by (auto simp: open_stream_with_retry_def)
          have c2: "sq_wf (clear_cached_conn j True s2)" "keeps net s2 (clear_cached_conn j True s2)"
            using clear_laws [of s2 True net j] l2(2) nj by auto
          moreover have "keeps net s2 s'" using c2(2) by (simp add: s' keeps_def)
          ultimately show ?thesis using keeps_trans [OF k2] r by (auto simp: s' sq_wf_def)
        qed
      qed
    qed
  qed
  then show "keeps net s s'" "sq_wf s'" "r = Inr i \<Longrightarrow> usable i s' \<and> nt_open net i" by auto
qed

lemma capacity_laws:
  assumes "sq_wf s" and "open_udp_bistream_with_capacity net n s = (r, s')"
  shows "keeps net s s' \<and> sq_wf s' \<and> (\<forall>i. r = Inr i \<longrightarrow> usable i s' \<and> has_capacity (conn_at i s'))"
  using assms
proof (induction n arbitrary: s)
  case 0
  then show ?case by (auto simp: keeps_refl)
next
  case (Suc n)
  obtain r1 s1 where o: "open_stream_with_retry net s = (r1, s1)" by (cases "open_stream_with_retry net s")
  note l = open_retry_laws [OF Suc.prems(1) o]
  show ?case
  proof (cases r1)
    case (Inl e)
    with Suc.prems(2) o l show ?thesis by auto
  next
    case (Inr i)
    show ?thesis
    proof (cases "has_capacity (conn_at i s1)")
      case True
      with Suc.prems(2) o l Inr show ?thesis by auto
    next
      case False
      let ?c = "clear_cached_conn i False s1"
      have "sq_wf ?c" "keeps net s1 ?c" using clear_laws [of s1 False net i] l(2) by auto
      moreover have "open_udp_bistream_with_capacity net n ?c = (r, s')" using Suc.prems(2) o Inr False by simp
      ultimately show ?thesis using Suc.IH [of ?c] keeps_trans [OF l(1)] keeps_trans by blast
    qed
  qed
qed

definition good_net :: "sq_net \<Rightarrow> bool" where
  "good_net net \<longleftrightarrow> (\<forall>i. nt_healthy net i) \<and> (\<forall>i. nt_establish net i) \<and> (\<forall>i. nt_open net i)"

lemma ensure_good:
  assumes "good_net net"
  obtains i s' where "ensure_connection net s = (Inr i, s')"
proof -
  have "\<exists>i s'. ensure_connection net s = (Inr i, s')"
    using assms by (auto simp: ensure_connection_def connect_new_def Let_def good_net_def split: option.split)
  with that show thesis by blast
qed

lemma open_good:
  assumes "good_net net"
  obtains i s' where "open_stream_with_retry net s = (Inr i, s')" and "ensure_connection net s = (Inr i, s')"
  using ensure_good [OF assms, of s] assms by (auto simp: open_stream_with_retry_def good_net_def)

lemma ensure_fresh:
  assumes "good_net net" and "sq_cached s = None"
  shows "\<exists>i s'. ensure_connection net s = (Inr i, s') \<and> conn_at i s' = fresh_conn"
  using assms
  by (auto simp: ensure_connection_def drop_rejected_def connect_new_def Let_def good_net_def conn_at_def nth_append)

lemma capacity_good:
  assumes "good_net net" and "sq_wf s"
  shows "\<exists>i s'. open_udp_bistream_with_capacity net 2 s = (Inr i, s')"
proof -
  obtain i s1 where o: "open_stream_with_retry net s = (Inr i, s1)" by (rule open_good [OF assms(1)])
  show ?thesis
  proof (cases "has_capacity (conn_at i s1)")
    case True
    with o show ?thesis by (simp add: numeral_2_eq_2)
  next
    case False
    let ?c = "clear_cached_conn i False s1"
    have "sq_cached s1 = Some i" using open_retry_laws(3) [OF assms(2) o] by (simp add: usable_def)
    then have "sq_cached ?c = None" by (simp add: clear_cached_conn_def)
    then obtain j s2 where e: "ensure_connection net ?c = (Inr j, s2)" "conn_at j s2 = fresh_conn"
      using ensure_fresh [OF assms(1)] by blast
    then have "open_stream_with_retry net ?c = (Inr j, s2)" using assms(1) by (simp add: open_stream_with_retry_def good_net_def)
    moreover have "has_capacity fresh_conn"
      by (simp add: has_capacity_def fresh_conn_def UDP_CONTEXT_ID_RECONNECT_MARGIN_def)
    ultimately show ?thesis using o False e by (simp add: numeral_2_eq_2)
  qed
qed


subsection \<open>Lemmas: requests\<close>

lemma read_request_connect:
  "encodable t \<Longrightarrow> read_request_head (connect_handshake t @ payload) = Inr ((1, canonical t), payload)"
  by (simp add: read_request_head_def connect_handshake_def read_from_to_bytes lift_addr_def)

lemma encodable_dummy [simp]: "encodable dummy"
  by (simp add: dummy_def)

lemma read_request_udp:
  "encodable t \<Longrightarrow> read_request_head (udp_handshake m @ to_bytes t @ rest) =
     Inr ((if m then 4 else 3, canonical t), rest)"
  by (simp add: read_request_head_def udp_handshake_def read_from_to_bytes lift_addr_def)

lemma serve_udp:
  assumes "encodable t"
  shows "serve_request (udp_handshake m @ announce cid t @ rest) = Some (ServeUdp m (canonical t) cid rest)"
  using read_request_udp [OF assms, of m "to_be 2 cid @ rest"]
  by (simp add: serve_request_def announce_def read_context_id_def read_be_to_be)

lemma serve_stats: "serve_request SQ_CONN_STATS_REQUEST = Some ServeStats"
  by (simp add: serve_request_def SQ_CONN_STATS_REQUEST_def read_request_head_def read_extension_request_def
      read_be_def read_exact_def from_be_def)

lemma conn_stats_roundtrip:
  "read_conn_stats (write_conn_stats_response lost sent rtt mtu @ rest) = Some (lost, sent, rtt, mtu)"
  by (simp add: read_conn_stats_def write_conn_stats_response_def read_be_to_be)

lemma length_sunny_hash: "length (gen_sunny_auth_hash h u p) = SUNNY_QUIC_AUTH_LEN"
  by (simp add: gen_sunny_auth_hash_def Let_def)

lemma read_auth_packet:
  "length h = SUNNY_QUIC_AUTH_LEN \<Longrightarrow> read_sunny_auth (auth_packet h @ rest) = Inr (h, rest)"
  by (simp add: read_sunny_auth_def auth_packet_def read_exact_append)

subsection \<open>Lemmas: the inbound\<close>

text \<open>A connection's streams one after the other; the user list may change in between.\<close>

fun conn_run ::
    "(bytes \<Rightarrow> bytes) \<Rightarrow> (bytes \<Rightarrow> bytes option) \<Rightarrow> (bytes \<times> auth_user list) list \<Rightarrow> conn_task \<times> sq_inbound \<Rightarrow>
     stream_outcome list \<times> conn_task \<times> sq_inbound" where
  "conn_run sha256 observer [] x = ([], x)"
| "conn_run sha256 observer ((content, users) # es) (t, s) =
     (let (r, x) = accept_stream sha256 observer content (t, s\<lparr>si_users := users\<rparr>);
          (rs, y) = conn_run sha256 observer es x
      in (r # rs, y))"

definition authenticates :: "(bytes \<Rightarrow> bytes) \<Rightarrow> (bytes \<Rightarrow> bytes option) \<Rightarrow> bytes \<times> auth_user list \<Rightarrow> bool" where
  "authenticates sha256 observer e \<longleftrightarrow>
     (\<exists>h rest. read_sunny_auth (fst e) = Inr (h, rest) \<and>
        (observer h \<noteq> None \<or>
         (\<exists>u \<in> set (snd e). gen_sunny_auth_hash sha256 (au_username u) (au_password u) = h)))"

lemma accept_stream_unauthed:
  assumes "\<not> ct_authed t" and "accept_stream sha256 observer content (t, s\<lparr>si_users := users\<rparr>) = (r, t', s')"
  shows "(r = AuthOk \<longleftrightarrow> ct_authed t') \<and> (\<forall>x. r \<noteq> Served x) \<and>
    (ct_authed t' \<longrightarrow> authenticates sha256 observer (content, users))"
  using assms
  by (auto simp: accept_stream_def si_authenticate_def Let_def authenticates_def list_ex_iff
      split: sum.splits option.splits if_splits prod.splits)

lemma conn_run_auth:
  assumes "\<not> ct_authed t" and "conn_run sha256 observer es (t, s) = (rs, y)" and "k < length rs"
    and "rs ! k = Served x"
  shows "\<exists>j < k. rs ! j = AuthOk \<and> authenticates sha256 observer (es ! j)"
  using assms
proof (induction es arbitrary: t s rs y k)
  case (Cons e es)
  obtain content users where e: "e = (content, users)" by (cases e)
  obtain r t1 s1 where a: "accept_stream sha256 observer content (t, s\<lparr>si_users := users\<rparr>) = (r, t1, s1)"
    by (cases "accept_stream sha256 observer content (t, s\<lparr>si_users := users\<rparr>)") auto
  obtain rs1 y1 where c: "conn_run sha256 observer es (t1, s1) = (rs1, y1)"
    by (cases "conn_run sha256 observer es (t1, s1)")
  have rs: "rs = r # rs1" using Cons.prems(2) e a c by simp
  note u = accept_stream_unauthed [OF Cons.prems(1) a]
  obtain k' where k: "k = Suc k'" using Cons.prems(4) rs u by (cases k) auto
  show ?case
  proof (cases "ct_authed t1")
    case True
    with u e rs k show ?thesis by (intro exI [of _ 0]) auto
  next
    case False
    from Cons.IH [OF this c, of k'] Cons.prems(3,4) rs k obtain j where
      "j < k'" "rs1 ! j = AuthOk" "authenticates sha256 observer (es ! j)" by auto
    with rs k show ?thesis by (intro exI [of _ "Suc j"]) auto
  qed
qed simp

lemma fold_close_lookup:
  "fmlookup (si_conns (fold close_user_conn as s)) a = (if a \<in> set as then None else fmlookup (si_conns s) a)"
proof (induction as arbitrary: s)
  case (Cons b bs)
  have "fmlookup (si_conns (close_user_conn b s)) a = (if a = b then None else fmlookup (si_conns s) a)"
    by (auto simp: close_user_conn_def split: option.split)
  then show ?case by (auto simp: Cons.IH)
qed simp

lemma fold_close_closed:
  "set (si_closed (fold close_user_conn as s)) \<supseteq> set (si_closed s) \<and>
   (\<forall>a i u. a \<in> set as \<longrightarrow> fmlookup (si_conns s) a = Some (i, u) \<longrightarrow> i \<in> set (si_closed (fold close_user_conn as s)))"
proof (induction as arbitrary: s)
  case (Cons b bs)
  let ?s = "close_user_conn b s"
  have up: "set (si_closed s) \<subseteq> set (si_closed ?s)" by (auto simp: close_user_conn_def split: option.split)
  show ?case
  proof (intro conjI allI impI)
    show "set (si_closed s) \<subseteq> set (si_closed (fold close_user_conn (b # bs) s))" using up Cons.IH [of ?s] by auto
  next
    fix a i u
    assume a: "a \<in> set (b # bs)" and l: "fmlookup (si_conns s) a = Some (i, u)"
    show "i \<in> set (si_closed (fold close_user_conn (b # bs) s))"
    proof (cases "a = b")
      case True
      with l have "i \<in> set (si_closed ?s)" by (simp add: close_user_conn_def)
      with Cons.IH [of ?s] show ?thesis by auto
    next
      case False
      with l have "fmlookup (si_conns ?s) a = Some (i, u)"
        by (simp add: close_user_conn_def split: option.split)
      with a False Cons.IH [of ?s] show ?thesis by auto
    qed
  qed
qed simp

lemma fold_close_users: "si_users (fold close_user_conn as s) = si_users s"
  by (induction as arbitrary: s) (auto simp: close_user_conn_def split: option.split)

subsection \<open>Properties\<close>

text \<open>Opening a UDP session never hands out a connection whose context ids are nearly used up.
  Whatever connection comes back is cached, open, not known to have lost its early data and has
  at least 256 ids left; connections that are healthy stay open for the sessions on them; and
  when the network works, two attempts always suffice.\<close>

theorem udp_session_gets_capacity:
  assumes "sq_wf s" and "open_udp_bistream_with_capacity net 2 s = (r, s')"
  shows "(\<forall>i. r = Inr i \<longrightarrow> usable i s' \<and> has_capacity (conn_at i s')) \<and> keeps net s s' \<and>
    (good_net net \<longrightarrow> (\<exists>i. r = Inr i))"
  using capacity_laws [OF assms] capacity_good [of net s] assms by auto

definition sample_out :: sq_outbound where
  "sample_out = \<lparr>sq_conns = [fresh_conn\<lparr>qc_next_context_id := 65500\<rparr>], sq_cached = Some 0, sq_reports = 0\<rparr>"

definition sample_net :: sq_net where
  "sample_net = \<lparr>nt_healthy = (\<lambda>_. True), nt_establish = (\<lambda>_. True), nt_open = (\<lambda>_. True), nt_verdict = (\<lambda>_. None)\<rparr>"

theorem udp_session_gets_capacity_witness:
  "\<exists>i s'. open_udp_bistream_with_capacity sample_net 2 sample_out = (Inr i, s') \<and> usable i s' \<and>
     has_capacity (conn_at i s') \<and> keeps sample_net sample_out s'"
proof -
  obtain r s' where o: "open_udp_bistream_with_capacity sample_net 2 sample_out = (r, s')"
    by (cases "open_udp_bistream_with_capacity sample_net 2 sample_out")
  from udp_session_gets_capacity [OF _ o] o show ?thesis
    by (auto simp: sq_wf_def sample_out_def good_net_def sample_net_def)
qed

text \<open>Client and server agree on the wire: the server decodes exactly the request a client
  wrote. A stream request gives the (canonical) target and leaves the payload; a UDP request
  followed by the first announcement gives mode, target and context id and leaves the rest of
  the control stream; the statistics request and its answer, and the credential, round trip.\<close>

theorem shadowquic_requests_roundtrip:
  assumes "encodable t"
  shows "serve_request (connect_handshake t @ payload) = Some (ServeStream (canonical t) payload) \<and>
    serve_request (udp_handshake m @ announce cid t @ rest) = Some (ServeUdp m (canonical t) cid rest) \<and>
    serve_request SQ_CONN_STATS_REQUEST = Some ServeStats \<and>
    read_conn_stats (write_conn_stats_response lost sent rtt mtu @ rest) = Some (lost, sent, rtt, mtu) \<and>
    read_sunny_auth (auth_packet (gen_sunny_auth_hash sha u p) @ rest) = Inr (gen_sunny_auth_hash sha u p, rest)"
  using serve_udp [OF assms] serve_stats conn_stats_roundtrip read_auth_packet [OF length_sunny_hash]
  by (simp add: serve_request_def read_request_connect [OF assms])

theorem shadowquic_requests_roundtrip_witness:
  "serve_request (connect_handshake (Ip (SockV4 7 443)) @ [1, 2]) = Some (ServeStream (Ip (SockV4 7 443)) [1, 2])"
  using shadowquic_requests_roundtrip [of "Ip (SockV4 7 443)" "[1, 2]"] by simp

text \<open>C13. No request is served before authentication. On a connection that does not use JLS,
  whenever a stream is served as a request, an earlier stream of the same connection presented
  a credential that the observer or a user configured at that moment accepts.\<close>

theorem served_only_after_auth:
  assumes "conn_run sha256 observer es (accept_conn False chosen i remote s) = (rs, y)" and "k < length rs"
    and "rs ! k = Served x"
  shows "\<exists>j < k. rs ! j = AuthOk \<and> authenticates sha256 observer (es ! j)"
  using conn_run_auth [of "fst (accept_conn False chosen i remote s)" sha256 observer es
      "snd (accept_conn False chosen i remote s)" rs y k x] assms
  by (simp add: accept_conn_def)

definition sample_user :: auth_user where
  "sample_user = \<lparr>au_username = [97], au_password = [98]\<rparr>"

definition sample_in :: sq_inbound where
  "sample_in = \<lparr>si_users = [sample_user], si_conns = fmempty, si_closed = []\<rparr>"

lemma sample_auth:
  "accept_stream sha256 (\<lambda>_. None) (auth_packet (gen_sunny_auth_hash sha256 [97] [98]))
     (t\<lparr>ct_authed := False\<rparr>, s\<lparr>si_users := [sample_user]\<rparr>) =
   (AuthOk, t\<lparr>ct_authed := True, ct_user := None\<rparr>, set_user (ct_remote t) None (s\<lparr>si_users := [sample_user]\<rparr>))"
  using read_auth_packet [OF length_sunny_hash, of sha256 "[97]" "[98]" "[]"]
  by (simp add: accept_stream_def si_authenticate_def sample_user_def Let_def)

theorem served_only_after_auth_witness:
  "\<exists>j < 1. fst (conn_run (\<lambda>_. []) (\<lambda>_. None)
       [(auth_packet (gen_sunny_auth_hash (\<lambda>_. []) [97] [98]), [sample_user]),
        (connect_handshake (Ip (SockV4 1 80)), [])]
       (accept_conn False None 0 (SockV4 9 9) sample_in)) ! j = AuthOk"
proof -
  let ?es = "[(auth_packet (gen_sunny_auth_hash (\<lambda>_. []) [97] [98]), [sample_user]),
        (connect_handshake (Ip (SockV4 1 80)), [])]"
  obtain rs y where c: "conn_run (\<lambda>_. []) (\<lambda>_. None) ?es (accept_conn False None 0 (SockV4 9 9) sample_in) = (rs, y)"
    by (cases "conn_run (\<lambda>_. []) (\<lambda>_. None) ?es (accept_conn False None 0 (SockV4 9 9) sample_in)")
  have sv: "serve_request (connect_handshake (Ip (SockV4 1 80))) = Some (ServeStream (Ip (SockV4 1 80)) [])"
    using read_request_connect [of "Ip (SockV4 1 80)" "[]"] by (simp add: serve_request_def)
  have "rs = [AuthOk, Served (ServeStream (Ip (SockV4 1 80)) [])]"
    using c sample_auth [of "\<lambda>_. []" "\<lparr>ct_id = 0, ct_remote = SockV4 9 9, ct_authed = False, ct_user = None\<rparr>"] sv
    by (auto simp: accept_conn_def accept_stream_def split: prod.splits)
  with served_only_after_auth [OF c, of 1] c show ?thesis by auto
qed

text \<open>Removing a user revokes it: the user can no longer authenticate locally, every live
  connection registered under its name is closed and forgotten, and no other connection is.\<close>

theorem remove_user_revokes:
  assumes "set order = fset (fmdom (si_conns s))"
  shows "(\<forall>u \<in> set (si_users (si_remove_user order name s)). au_username u \<noteq> name) \<and>
    (\<forall>a i. fmlookup (si_conns (si_remove_user order name s)) a \<noteq> Some (i, Some name)) \<and>
    (\<forall>a i. fmlookup (si_conns s) a = Some (i, Some name) \<longrightarrow> i \<in> set (si_closed (si_remove_user order name s))) \<and>
    (\<forall>a i u. u \<noteq> Some name \<longrightarrow> fmlookup (si_conns s) a = Some (i, u) \<longrightarrow>
       fmlookup (si_conns (si_remove_user order name s)) a = Some (i, u))"
proof -
  define s1 where "s1 = s\<lparr>si_users := filter (\<lambda>u. au_username u \<noteq> name) (si_users s)\<rparr>"
  define stale where
    "stale = filter (\<lambda>a. case fmlookup (si_conns s) a of Some (_, Some u) \<Rightarrow> u = name | _ \<Rightarrow> False) order"
  have r: "si_remove_user order name s = fold close_user_conn stale s1"
    by (simp add: si_remove_user_def s1_def stale_def Let_def)
  have st: "a \<in> set stale \<longleftrightarrow> (\<exists>i. fmlookup (si_conns s) a = Some (i, Some name))" for a
    using assms by (auto simp: stale_def fmlookup_dom_iff split: option.splits)
  have c: "si_conns s1 = si_conns s" by (simp add: s1_def)
  have "\<forall>a i. fmlookup (si_conns (fold close_user_conn stale s1)) a \<noteq> Some (i, Some name)"
    using st by (auto simp: fold_close_lookup c)
  moreover have "\<forall>a i u. u \<noteq> Some name \<longrightarrow> fmlookup (si_conns s) a = Some (i, u) \<longrightarrow>
       fmlookup (si_conns (fold close_user_conn stale s1)) a = Some (i, u)"
    using st by (auto simp: fold_close_lookup c)
  moreover have "\<forall>a i. fmlookup (si_conns s) a = Some (i, Some name) \<longrightarrow> i \<in> set (si_closed (fold close_user_conn stale s1))"
    using st fold_close_closed [of s1 stale] c by metis
  moreover have "\<forall>u \<in> set (si_users (fold close_user_conn stale s1)). au_username u \<noteq> name"
    by (simp add: fold_close_users s1_def)
  ultimately show ?thesis unfolding r by blast
qed

theorem remove_user_revokes_witness:
  "3 \<in> set (si_closed (si_remove_user [SockV4 9 9] [97]
     (sample_in\<lparr>si_conns := fmupd (SockV4 9 9) (3, Some [97]) fmempty\<rparr>)))"
  using remove_user_revokes [of "[SockV4 9 9]" "sample_in\<lparr>si_conns := fmupd (SockV4 9 9) (3, Some [97]) fmempty\<rparr>" "[97]"]
  by simp

text \<open>Without an observer, removing a user leaves its sessions running: a connection
  authenticated against the configured users is registered with no name, so removing the user
  closes nothing, and the connection's next request is still served.\<close>

theorem remove_user_misses_local:
  assumes "accept_stream sha256 (\<lambda>_. None) content (t, s) = (AuthOk, t', s')" and "\<not> ct_authed t"
    and "fmlookup (si_conns s) (ct_remote t) = Some (i, None)" and "serve_request req = Some r"
  shows "fmlookup (si_conns (si_remove_user order name s')) (ct_remote t) = Some (i, None) \<and>
    accept_stream sha256 (\<lambda>_. None) req (t', si_remove_user order name s') =
      (Served r, t', si_remove_user order name s')"
proof -
  from assms(1,2) have t': "t' = t\<lparr>ct_authed := True, ct_user := None\<rparr>" and s': "s' = set_user (ct_remote t) None s"
    by (auto simp: accept_stream_def si_authenticate_def Let_def split: sum.splits option.splits if_splits prod.splits)
  have l: "fmlookup (si_conns s') (ct_remote t) = Some (i, None)" using assms(3) by (simp add: s' set_user_def)
  have "fmlookup (si_conns (si_remove_user order name s')) (ct_remote t) = Some (i, None)"
    using l by (auto simp: si_remove_user_def Let_def fold_close_lookup)
  with assms(4) t' show ?thesis by (simp add: accept_stream_def)
qed

theorem remove_user_misses_local_witness:
  "\<exists>s'. fmlookup (si_conns (si_remove_user [SockV4 9 9] [97] s')) (SockV4 9 9) = Some (0, None) \<and>
     si_users (si_remove_user [SockV4 9 9] [97] s') = []"
proof -
  let ?t = "\<lparr>ct_id = 0, ct_remote = SockV4 9 9, ct_authed = False, ct_user = None\<rparr>"
  let ?s = "sample_in\<lparr>si_conns := fmupd (SockV4 9 9) (0, None) fmempty\<rparr>"
  have "accept_stream (\<lambda>_. []) (\<lambda>_. None) (auth_packet (gen_sunny_auth_hash (\<lambda>_. []) [97] [98])) (?t, ?s) =
     (AuthOk, ?t\<lparr>ct_authed := True, ct_user := None\<rparr>, set_user (SockV4 9 9) None ?s)"
    using sample_auth [of "\<lambda>_. []" ?t ?s] by (simp add: sample_in_def)
  from remove_user_misses_local [OF this _ _ serve_stats, of 0 "[SockV4 9 9]" "[97]"]
  show ?thesis
    by (intro exI [of _ "set_user (SockV4 9 9) None ?s"])
      (simp add: set_user_def si_remove_user_def sample_in_def sample_user_def)
qed

end
