(* ===== verification/Anytls_Padding.thy ===== *)
theory Anytls_Padding
  imports Anytls_Proto "HOL-Library.Sublist"
begin

text \<open>
  The sending half of an AnyTLS client session (\<open>src/src/proxy/outbound/anytls.rs\<close>): padding
  schemes and their text format (\<open>PaddingScheme\<close>), the authentication packet
  (\<open>Session::authenticate\<close>), \<open>write_with_padding\<close> and \<open>write_loop\<close>.
  The random sizes come from a parameter \<open>rng\<close> (which draw, lower and upper bound); the MD5
  digest of a scheme from a parameter \<open>md5_hex\<close>.
  The lemmas show that padding is transparent: the peer decodes the queued frames in order,
  interleaved with frames it discards, whatever the scheme, the random draws and the
  batching; and what goes wrong when a scheme asks for more than 65535 bytes.
\<close>

subsection \<open>Padding schemes\<close>

definition DEFAULT_PADDING_SCHEME :: bytes where
  "DEFAULT_PADDING_SCHEME =
     join [0x0A]
       [str ''stop=8'', str ''0=30-30'', str ''1=100-400'',
        str ''2=400-500,c,500-1000,c,500-1000,c,500-1000,c,500-1000'',
        str ''3=9-9,500-1000'', str ''4=500-1000'', str ''5=500-1000'', str ''6=500-1000'', str ''7=500-1000'']"

definition CHECK_MARK :: int where
  "CHECK_MARK = - 1"

datatype padding_entry = Fixed nat | Range nat nat | CheckMark

record padding_scheme =
  ps_stop_at :: u32
  ps_policies :: "(u32, padding_entry list) fmap"
  ps_hash :: bytes
  ps_raw :: bytes

datatype padding_error = SchemeNotUtf8 | InvalidStop | InvalidPaddingMin | InvalidPaddingMax

definition parse_u32 :: "bytes \<Rightarrow> u32 option" where
  "parse_u32 s = map_option of_nat (parse_uint (2 ^ 32 - 1) s)"

definition parse_usize :: "bytes \<Rightarrow> nat option" where
  "parse_usize s = parse_uint (2 ^ 64 - 1) s"

fun parse_parts :: "bytes list \<Rightarrow> padding_error + padding_entry list" where
  "parse_parts [] = Inr []"
| "parse_parts (p # ps) =
     (let part = trim p in
      if part = str ''c'' then bindr (parse_parts ps) (\<lambda>es. Inr (CheckMark # es))
      else case split_once 0x2D part of
        None \<Rightarrow> parse_parts ps
      | Some (a, b) \<Rightarrow>
          bindr (ok_or InvalidPaddingMin (parse_usize (trim a))) (\<lambda>x.
          bindr (ok_or InvalidPaddingMax (parse_usize (trim b))) (\<lambda>y.
          let mn = min x y; mx = max x y in
          if mn = 0 then parse_parts ps
          else bindr (parse_parts ps) (\<lambda>es. Inr ((if mn = mx then Fixed mn else Range mn mx) # es)))))"

definition parse_entries :: "bytes \<Rightarrow> padding_error + padding_entry list" where
  "parse_entries s = parse_parts (split_on 0x2C s)"

fun parse_lines :: "bytes list \<Rightarrow> u32 \<times> (u32, padding_entry list) fmap \<Rightarrow>
    padding_error + u32 \<times> (u32, padding_entry list) fmap" where
  "parse_lines [] acc = Inr acc"
| "parse_lines (l # ls) (stop_at, policies) =
     (let line = trim l in
      if line = [] then parse_lines ls (stop_at, policies)
      else case split_once 0x3D line of
        None \<Rightarrow> parse_lines ls (stop_at, policies)
      | Some (k, v) \<Rightarrow>
          if trim k = str ''stop'' then
            bindr (ok_or InvalidStop (parse_u32 (trim v))) (\<lambda>n. parse_lines ls (n, policies))
          else case parse_u32 (trim k) of
            None \<Rightarrow> parse_lines ls (stop_at, policies)
          | Some pkt_idx \<Rightarrow>
              bindr (parse_entries (trim v)) (\<lambda>es. parse_lines ls (stop_at, fmupd pkt_idx es policies)))"

definition parse_scheme :: "(bytes \<Rightarrow> bytes) \<Rightarrow> bytes \<Rightarrow> padding_error + padding_scheme" where
  "parse_scheme md5_hex raw =
     bindr (ok_or SchemeNotUtf8 (from_utf8 raw)) (\<lambda>text.
     bindr (parse_lines (str_lines text) (0, fmempty)) (\<lambda>(stop_at, policies).
     Inr \<lparr>ps_stop_at = stop_at, ps_policies = policies, ps_hash = md5_hex raw, ps_raw = raw\<rparr>))"

type_synonym rng = "nat \<Rightarrow> nat \<Rightarrow> nat \<Rightarrow> nat"

fun entry_size :: "(nat \<Rightarrow> nat \<Rightarrow> nat) \<Rightarrow> padding_entry \<Rightarrow> int" where
  "entry_size draw (Fixed v) = as_i64 v"
| "entry_size draw (Range mn mx) = as_i64 (draw mn mx)"
| "entry_size draw CheckMark = CHECK_MARK"

definition generate_record_payload_sizes :: "rng \<Rightarrow> padding_scheme \<Rightarrow> u32 \<Rightarrow> int list" where
  "generate_record_payload_sizes rng s pkt =
     (case fmlookup (ps_policies s) pkt of
        Some entries \<Rightarrow> map (\<lambda>(i, e). entry_size (rng i) e) (enumerate 0 entries)
      | None \<Rightarrow> [])"

subsection \<open>The authentication packet\<close>

text \<open>\<open>usize\<close> additions wrap as in a release build; \<open>None\<close> is the panic of a capacity overflow.\<close>

definition anytls_authenticate :: "rng \<Rightarrow> bytes \<Rightarrow> padding_scheme \<Rightarrow> bytes option" where
  "anytls_authenticate rng password_hash scheme =
     (let padding0_size = (case generate_record_payload_sizes rng scheme 0 of [] \<Rightarrow> 30 | t # _ \<Rightarrow> as_usize t);
          cap = (32 + 2 + padding0_size) mod 2 ^ 64;
          p = password_hash @ to_be 2 (of_nat padding0_size :: u16);
          n = (length p + padding0_size) mod 2 ^ 64
      in if cap > ISIZE_MAX \<or> n > ISIZE_MAX then None else Some (vec_resize p n))"

subsection \<open>Writing with padding\<close>

text \<open>\<open>vec![0u8; FRAME_HEADER_SIZE + n]\<close> with the header filled in.\<close>

definition waste_frame :: "nat \<Rightarrow> bytes option" where
  "waste_frame n =
     (let len = (FRAME_HEADER_SIZE + n) mod 2 ^ 64 in
      if len > ISIZE_MAX \<or> len < FRAME_HEADER_SIZE then None
      else Some ([command_u8 Waste] @ to_be 4 (0 :: u32) @ to_be 2 (of_nat n :: u16) @ replicate (len - FRAME_HEADER_SIZE) 0))"

text \<open>The loop over the record sizes: the pieces written, and whether the end was reached
  (\<open>False\<close>: a panic).\<close>

fun pad_records :: "int list \<Rightarrow> bytes \<Rightarrow> bytes list \<times> bool" where
  "pad_records [] remaining = (if remaining = [] then ([], True) else ([remaining], True))"
| "pad_records (t # ts) remaining =
     (if t = CHECK_MARK then (if remaining = [] then ([], True) else pad_records ts remaining)
      else
        let target_size = as_usize t; remain_len = length remaining in
        if remain_len > target_size then
          apfst (Cons (take target_size remaining)) (pad_records ts (drop target_size remaining))
        else if remain_len > 0 then
          let padding_len = target_size - (remain_len + FRAME_HEADER_SIZE) in
          if padding_len > 0 then
            (case waste_frame padding_len of
               None \<Rightarrow> ([], False)
             | Some waste \<Rightarrow> apfst (\<lambda>ps. remaining # waste # ps) (pad_records ts []))
          else apfst (Cons remaining) (pad_records ts [])
        else
          (case waste_frame target_size of
             None \<Rightarrow> ([], False)
           | Some waste \<Rightarrow> apfst (Cons waste) (pad_records ts [])))"

record pad_state =
  pd_send_padding :: bool
  pd_packet_count :: u64
  pd_scheme :: padding_scheme

definition write_with_padding :: "rng \<Rightarrow> bytes \<Rightarrow> pad_state \<Rightarrow> (bytes list \<times> bool) \<times> pad_state" where
  "write_with_padding rng data st =
     (if \<not> pd_send_padding st then (([data], True), st)
      else
        let pkt = pd_packet_count st; st1 = st\<lparr>pd_packet_count := pkt + 1\<rparr> in
        if unat pkt \<ge> unat (ps_stop_at (pd_scheme st))
        then (([data], True), st1\<lparr>pd_send_padding := False\<rparr>)
        else (pad_records (generate_record_payload_sizes rng (pd_scheme st) (ucast pkt)) data, st1))"

subsection \<open>The write loop\<close>

definition SESSION_WRITE_BATCH_BYTES :: nat where
  "SESSION_WRITE_BATCH_BYTES = 256 * 1024"

fun append_batch :: "bytes \<Rightarrow> frame list \<Rightarrow> frame_error + bytes \<times> frame list" where
  "append_batch buffer [] = Inr (buffer, [])"
| "append_batch buffer ((cmd, sid, data) # fs) =
     (if length buffer < SESSION_WRITE_BATCH_BYTES
      then bindr (append_frame buffer cmd sid data) (\<lambda>b. append_batch b fs)
      else Inr (buffer, (cmd, sid, data) # fs))"

text \<open>The loop's state: the frames in the channel, its locals, the session's padding state, the
  bytes on the wire, and whether the loop has ended.\<close>

record write_loop_state =
  wl_queue :: "frame list"
  wl_buffering :: bool
  wl_buffer :: bytes
  wl_pad :: pad_state
  wl_wire :: bytes
  wl_ended :: bool

text \<open>One turn of the loop with a frame in the channel. \<open>written\<close> is what a failing connection
  accepts of the bytes to be written, \<open>None\<close> for a connection that works. When the loop ends,
  the channel's receiver goes with it.\<close>

definition write_loop_turn :: "rng \<Rightarrow> nat option \<Rightarrow> write_loop_state \<Rightarrow> write_loop_state" where
  "write_loop_turn rng written s =
     (case wl_queue s of [] \<Rightarrow> s | (cmd, sid, data) # q \<Rightarrow>
      case append_frame (wl_buffer s) cmd sid data of
        Inl e \<Rightarrow> s\<lparr>wl_queue := [], wl_ended := True\<rparr>
      | Inr b \<Rightarrow>
          let buffering = (wl_buffering s \<and> cmd \<noteq> Psh) in
          if buffering then s\<lparr>wl_queue := q, wl_buffer := b\<rparr>
          else case append_batch b q of
            Inl e \<Rightarrow> s\<lparr>wl_queue := [], wl_buffering := False, wl_ended := True\<rparr>
          | Inr (b', q') \<Rightarrow>
              (case write_with_padding rng b' (wl_pad s) of
                 ((ps, finished), pad) \<Rightarrow>
                   (case written of
                      None \<Rightarrow> s\<lparr>wl_queue := (if finished then q' else []), wl_buffering := False, wl_buffer := [], wl_pad := pad,
                                wl_wire := wl_wire s @ concat ps, wl_ended := \<not> finished\<rparr>
                    | Some n \<Rightarrow> s\<lparr>wl_queue := [], wl_buffering := False, wl_buffer := [], wl_pad := pad,
                                wl_wire := wl_wire s @ take n (concat ps), wl_ended := True\<rparr>)))"

text \<open>What can happen around the loop: a stream queues a frame (\<open>send\<close> waits for room), the loop takes a turn, the read
  loop counts a received frame or replaces the padding scheme, the session is closed.\<close>

datatype write_event =
    Queue frame
  | Turn rng
  | FailingTurn rng nat
  | CountPacket
  | NewScheme padding_scheme
  | CloserFired

definition SESSION_QUEUE_CAPACITY :: nat where
  "SESSION_QUEUE_CAPACITY = 256"

definition can_queue :: "write_loop_state \<Rightarrow> bool" where
  "can_queue s \<longleftrightarrow> \<not> wl_ended s \<and> length (wl_queue s) < SESSION_QUEUE_CAPACITY"

fun write_event_step :: "write_event \<Rightarrow> write_loop_state \<Rightarrow> write_loop_state" where
  "write_event_step (Queue f) s = (if can_queue s then s\<lparr>wl_queue := wl_queue s @ [f]\<rparr> else s)"
| "write_event_step (Turn rng) s = write_loop_turn rng None s"
| "write_event_step (FailingTurn rng n) s = write_loop_turn rng (Some n) s"
| "write_event_step CountPacket s = s\<lparr>wl_pad := (wl_pad s)\<lparr>pd_packet_count := pd_packet_count (wl_pad s) + 1\<rparr>\<rparr>"
| "write_event_step (NewScheme x) s = s\<lparr>wl_pad := (wl_pad s)\<lparr>pd_scheme := x\<rparr>\<rparr>"
| "write_event_step CloserFired s = s\<lparr>wl_queue := [], wl_ended := True\<rparr>"

definition write_loop_new :: "padding_scheme \<Rightarrow> write_loop_state" where
  "write_loop_new scheme =
     \<lparr>wl_queue = [], wl_buffering = True, wl_buffer = [],
      wl_pad = \<lparr>pd_send_padding = True, pd_packet_count = 1, pd_scheme = scheme\<rparr>, wl_wire = [], wl_ended = False\<rparr>"

definition write_loop :: "write_event list \<Rightarrow> write_loop_state \<Rightarrow> write_loop_state" where
  "write_loop evs s = fold write_event_step evs s"

text \<open>The frames the channel accepted.\<close>

fun accepted :: "write_event list \<Rightarrow> write_loop_state \<Rightarrow> frame list" where
  "accepted [] s = []"
| "accepted (ev # evs) s =
     (case ev of Queue f \<Rightarrow> if can_queue s then [f] else [] | _ \<Rightarrow> []) @ accepted evs (write_event_step ev s)"

subsection \<open>Schemes and sizes\<close>

fun entry_wf :: "padding_entry \<Rightarrow> bool" where
  "entry_wf (Fixed v) \<longleftrightarrow> 0 < v \<and> v < 2 ^ 64"
| "entry_wf (Range mn mx) \<longleftrightarrow> 0 < mn \<and> mn < mx \<and> mx < 2 ^ 64"
| "entry_wf CheckMark = True"

fun entry_small :: "padding_entry \<Rightarrow> bool" where
  "entry_small (Fixed v) \<longleftrightarrow> v < 65536"
| "entry_small (Range mn mx) \<longleftrightarrow> mn \<le> mx \<and> mx < 65536"
| "entry_small CheckMark = True"

definition scheme_all :: "(padding_entry \<Rightarrow> bool) \<Rightarrow> padding_scheme \<Rightarrow> bool" where
  "scheme_all P s \<longleftrightarrow> fmpred (\<lambda>_ es. list_all P es) (ps_policies s)"

definition rng_ok :: "rng \<Rightarrow> bool" where
  "rng_ok rng \<longleftrightarrow> (\<forall>i mn mx. mn \<le> mx \<longrightarrow> mn \<le> rng i mn mx \<and> rng i mn mx \<le> mx)"

definition size_ok :: "int \<Rightarrow> bool" where
  "size_ok t \<longleftrightarrow> t = CHECK_MARK \<or> 0 \<le> t \<and> t < 65536"

lemma parse_uint_max: "parse_uint m s = Some v \<Longrightarrow> v \<le> m"
  by (auto simp: parse_uint_def Let_def split: if_splits option.splits)

lemma parse_parts_wf: "parse_parts ps = Inr es \<Longrightarrow> list_all entry_wf es"
proof (induction ps arbitrary: es)
  case (Cons p ps)
  then show ?case
    by (auto simp: Let_def bindr_Inr_iff parse_usize_def dest!: parse_uint_max split: if_splits option.splits)
qed simp

lemma parse_lines_wf:
  assumes "parse_lines ls (n, m) = Inr (n', m')" and "fmpred (\<lambda>_ es. list_all entry_wf es) m"
  shows "fmpred (\<lambda>_ es. list_all entry_wf es) m'"
  using assms
proof (induction ls arbitrary: n m)
  case (Cons l ls)
  have upd: "fmpred (\<lambda>_ es. list_all entry_wf es) (fmupd k x m)" if "parse_parts ps = Inr x" for k x ps
    using Cons.prems(2) parse_parts_wf [OF that] by (rule fmpred_upd)
  from Cons.prems Cons.IH upd show ?case
    by (fastforce simp: Let_def bindr_Inr_iff parse_entries_def split: if_splits option.splits prod.splits)
qed simp

lemma sizes_ok:
  assumes "rng_ok rng" and "scheme_all entry_small s"
  shows "list_all size_ok (generate_record_payload_sizes rng s pkt)"
proof -
  have e: "size_ok (entry_size (rng i) e)" if "entry_small e" for i e
  proof (cases e)
    case (Range mn mx)
    with that assms(1) have "rng i mn mx < 65536" by (auto simp: rng_ok_def dest: le_less_trans)
    then show ?thesis by (simp add: Range size_ok_def as_i64_def)
  qed (use that in \<open>auto simp: size_ok_def as_i64_def\<close>)
  show ?thesis
  proof (cases "fmlookup (ps_policies s) pkt")
    case (Some es)
    then have "list_all entry_small es" using assms(2) by (auto simp: scheme_all_def dest: fmpredD)
    with Some e show ?thesis
      by (auto simp: generate_record_payload_sizes_def list_all_iff in_set_enumerate_eq)
  qed (simp add: generate_record_payload_sizes_def)
qed

subsection \<open>Padding is transparent\<close>

definition waste_frames :: "frame list \<Rightarrow> bool" where
  "waste_frames ws \<longleftrightarrow> list_all (\<lambda>w. fst w = Waste \<and> frame_ok w) ws"

abbreviation payload_frames :: "frame list \<Rightarrow> frame list" where
  "payload_frames fs \<equiv> filter (\<lambda>f. fst f \<noteq> Waste) fs"

lemma waste_frames_simps [simp]:
  "waste_frames []" "waste_frames (w # ws) \<longleftrightarrow> fst w = Waste \<and> frame_ok w \<and> waste_frames ws"
  by (auto simp: waste_frames_def)

lemma waste_frames_payload [simp]: "waste_frames ws \<Longrightarrow> payload_frames ws = []"
  by (induction ws) simp_all

lemma waste_frames_ok [simp]: "waste_frames ws \<Longrightarrow> list_all frame_ok ws"
  by (simp add: waste_frames_def list_all_iff)

lemma waste_frame_enc: "n < 65536 \<Longrightarrow> waste_frame n = Some (frame_enc (Waste, 0, replicate n 0))"
  by (simp add: waste_frame_def frame_enc_ok del: frame_enc.simps)

lemma as_usize_small: "0 \<le> t \<Longrightarrow> t < 65536 \<Longrightarrow> as_usize t = nat t"
  by (simp add: as_usize_def)

lemma pad_records_transparent:
  assumes "list_all size_ok ts"
  shows "\<exists>ps ws. pad_records ts data = (ps, True) \<and> waste_frames ws \<and> concat ps = data @ concat (map frame_enc ws)"
  using assms
proof (induction ts arbitrary: data)
  case Nil
  then show ?case by (auto intro: exI [of _ "[]"])
next
  case (Cons t ts)
  show ?case
  proof (cases "t = CHECK_MARK")
    case True
    with Cons show ?thesis by (cases "data = []") (auto intro: exI [of _ "[]"])
  next
    case False
    with Cons.prems have t: "0 \<le> t" "t < 65536" by (auto simp: size_ok_def)
    let ?n = "nat t" and ?w = "\<lambda>k. (Waste, 0, replicate k 0) :: frame"
    have w: "waste_frame k = Some (frame_enc (?w k))" "frame_ok (?w k)" if "k \<le> ?n" for k
    proof -
      from t that have "k < 65536" by simp
      then show "waste_frame k = Some (frame_enc (?w k))" "frame_ok (?w k)"
        by (simp_all add: waste_frame_enc del: frame_enc.simps)
    qed
    obtain ps ws where rest: "pad_records ts (drop ?n data) = (ps, True)" "waste_frames ws"
        "concat ps = drop ?n data @ concat (map frame_enc ws)"
      using Cons.IH [of "drop ?n data"] Cons.prems by auto
    obtain qs vs where rest0: "pad_records ts [] = (qs, True)" "waste_frames vs" "concat qs = concat (map frame_enc vs)"
      using Cons.IH [of "[]"] Cons.prems by auto
    consider "?n < length data" | "length data \<le> ?n" "data \<noteq> []" | "data = []" by fastforce
    then show ?thesis
    proof cases
      case 1
      with False t rest show ?thesis by (auto simp: as_usize_small Let_def)
    next
      case 2
      let ?k = "?n - (length data + 7)"
      show ?thesis
      proof (cases "0 < ?k")
        case True
        have "pad_records (t # ts) data = (data # frame_enc (?w ?k) # qs, True)"
          using 2 False t True rest0 w(1) [of ?k] by (simp add: as_usize_small Let_def del: frame_enc.simps)
        moreover have "concat (data # frame_enc (?w ?k) # qs) = data @ concat (map frame_enc (?w ?k # vs))"
          using rest0 by simp
        moreover have "waste_frames (?w ?k # vs)" using rest0 w(2) [of ?k] by simp
        ultimately show ?thesis by blast
      next
        case 0: False
        have "pad_records (t # ts) data = (data # qs, True)"
          using 2 False t 0 rest0 by (simp add: as_usize_small Let_def)
        with rest0 show ?thesis by (metis concat.simps(2))
      qed
    next
      case 3
      have "pad_records (t # ts) data = (frame_enc (?w ?n) # qs, True)"
        using 3 False t rest0 w(1) [of ?n] by (simp add: as_usize_small Let_def del: frame_enc.simps)
      moreover have "concat (frame_enc (?w ?n) # qs) = data @ concat (map frame_enc (?w ?n # vs))"
        using rest0 3 by simp
      moreover have "waste_frames (?w ?n # vs)" using rest0 w(2) [of ?n] by simp
      ultimately show ?thesis by blast
    qed
  qed
qed

lemma write_with_padding_transparent:
  assumes "rng_ok rng" and "scheme_all entry_small (pd_scheme st)"
  shows "\<exists>ps ws st'. write_with_padding rng data st = ((ps, True), st') \<and> pd_scheme st' = pd_scheme st \<and>
    waste_frames ws \<and> concat ps = data @ concat (map frame_enc ws)"
proof -
  let ?sizes = "generate_record_payload_sizes rng (pd_scheme st) (ucast (pd_packet_count st))"
  obtain ps ws where "pad_records ?sizes data = (ps, True)" "waste_frames ws"
      "concat ps = data @ concat (map frame_enc ws)"
    using pad_records_transparent [OF sizes_ok [OF assms]] by blast
  then show ?thesis
    by (auto simp: write_with_padding_def Let_def intro: exI [of _ "[]"])
qed

subsection \<open>The write loop delivers what is queued\<close>

fun event_ok :: "write_event \<Rightarrow> bool" where
  "event_ok (Queue f) \<longleftrightarrow> fst f \<noteq> Waste"
| "event_ok (Turn rng) = rng_ok rng"
| "event_ok (FailingTurn rng _) = rng_ok rng"
| "event_ok (NewScheme x) = scheme_all entry_small x"
| "event_ok _ = True"

lemma append_frame_Inr:
  "append_frame b cmd sid data = Inr b' \<longleftrightarrow> frame_ok (cmd, sid, data) \<and> b' = b @ frame_enc (cmd, sid, data)"
  by (auto simp: append_frame_def build_frame_def u16_try_from_def split: option.splits if_splits)

lemma append_batch_Inr:
  "append_batch b q = Inr (b', q') \<Longrightarrow>
     \<exists>fs. q = fs @ q' \<and> list_all frame_ok fs \<and> b' = b @ concat (map frame_enc fs)"
proof (induction q arbitrary: b)
  case (Cons f q)
  obtain cmd sid data where f: "f = (cmd, sid, data)" by (cases f)
  show ?case
  proof (cases "length b < SESSION_WRITE_BATCH_BYTES")
    case True
    with Cons.prems f have ok: "frame_ok f" and b: "append_batch (b @ frame_enc f) q = Inr (b', q')"
      by (auto simp: bindr_Inr_iff append_frame_Inr)
    from Cons.IH [OF b] obtain fs where "q = fs @ q'" "list_all frame_ok fs"
        "b' = (b @ frame_enc f) @ concat (map frame_enc fs)" by blast
    with ok show ?thesis by (intro exI [of _ "f # fs"]) simp
  next
    case False
    with Cons.prems f show ?thesis by (intro exI [of _ "[]"]) simp
  qed
qed simp

text \<open>While the loop runs, the wire holds whole frames, the buffer the frames of the current batch,
  and nothing has left before the first \<open>Psh\<close>. Afterwards the peer sees a prefix.\<close>

definition write_inv :: "frame list \<Rightarrow> write_loop_state \<Rightarrow> bool" where
  "write_inv queued s \<longleftrightarrow>
     scheme_all entry_small (pd_scheme (wl_pad s)) \<and> list_all (\<lambda>f. fst f \<noteq> Waste) queued \<and>
     (if wl_ended s
      then wl_queue s = [] \<and> prefix (payload_frames (fst (drain frame_dec (wl_wire s)))) queued
      else \<exists>fs bs. list_all frame_ok fs \<and> list_all frame_ok bs \<and> wl_wire s = concat (map frame_enc fs) \<and>
             wl_buffer s = concat (map frame_enc bs) \<and> payload_frames fs @ bs @ wl_queue s = queued \<and>
             (if wl_buffering s then fs = [] \<and> list_all (\<lambda>f. fst f \<noteq> Psh) bs else bs = []))"

lemma write_inv_runI:
  assumes "\<not> wl_ended s" "scheme_all entry_small (pd_scheme (wl_pad s))" "list_all (\<lambda>f. fst f \<noteq> Waste) queued"
    and "list_all frame_ok fs" "list_all frame_ok bs" "wl_wire s = concat (map frame_enc fs)"
    and "wl_buffer s = concat (map frame_enc bs)" "payload_frames fs @ bs @ wl_queue s = queued"
    and "if wl_buffering s then fs = [] \<and> list_all (\<lambda>f. fst f \<noteq> Psh) bs else bs = []"
  shows "write_inv queued s"
  unfolding write_inv_def by (intro conjI assms(2,3), simp only: assms(1) if_False) (use assms in blast)

lemma drain_frames: "list_all frame_ok fs \<Longrightarrow> drain frame_dec (concat (map frame_enc fs)) = (fs, [])"
  using anytls_frames.drain_concat [of fs "[]"] by (simp add: anytls_frames.drain_None)

lemma drain_take:
  assumes "list_all frame_ok fs"
  shows "prefix (fst (drain frame_dec (take n (concat (map frame_enc fs))))) fs"
proof -
  let ?b = "concat (map frame_enc fs)"
  have "drain frame_dec (take n ?b @ drop n ?b) = (fs, [])" using drain_frames [OF assms] by simp
  then show ?thesis unfolding anytls_frames.drain_append [of "take n ?b"]
    by (metis fst_conv prefixI)
qed

lemma prefix_filter: "prefix xs ys \<Longrightarrow> prefix (filter P xs) (filter P ys)"
  by (auto simp: prefix_def)

lemma drain_Nil [simp]: "drain frame_dec [] = ([], [])"
  using drain_frames [of "[]"] by simp

lemma write_inv_end:
  assumes "write_inv queued s"
  shows "write_inv queued (s\<lparr>wl_queue := [], wl_buffering := b, wl_ended := True\<rparr>)"
  using assms by (auto simp: write_inv_def drain_frames split: if_splits)

lemma payload_frames_id: "list_all (\<lambda>f. fst f \<noteq> Waste) fs \<Longrightarrow> payload_frames fs = fs"
  by (simp add: list_all_iff)

text \<open>A turn either ends the loop, or keeps buffering, or writes everything buffered.\<close>

lemma write_turn_cases:
  assumes inv: "write_inv queued s" and rng: "rng_ok rng" and nonempty: "wl_queue s \<noteq> []"
  obtains
    (ended) b where "\<And>w. write_loop_turn rng w s = s\<lparr>wl_queue := [], wl_buffering := b, wl_ended := True\<rparr>"
  | (buffered) f q where "wl_queue s = f # q" "frame_ok f" "wl_buffering s" "fst f \<noteq> Psh"
      "\<And>w. write_loop_turn rng w s = s\<lparr>wl_queue := q, wl_buffer := wl_buffer s @ frame_enc f\<rparr>"
  | (written) fs q ws pad x where "wl_queue s = fs @ q" "list_all frame_ok fs" "waste_frames ws"
      "pd_scheme pad = pd_scheme (wl_pad s)"
      "x = wl_buffer s @ concat (map frame_enc fs) @ concat (map frame_enc ws)"
      "\<And>w. write_loop_turn rng w s =
         (case w of
            None \<Rightarrow> s\<lparr>wl_queue := q, wl_buffering := False, wl_buffer := [], wl_pad := pad,
                      wl_wire := wl_wire s @ x, wl_ended := False\<rparr>
          | Some n \<Rightarrow> s\<lparr>wl_queue := [], wl_buffering := False, wl_buffer := [], wl_pad := pad,
                      wl_wire := wl_wire s @ take n x, wl_ended := True\<rparr>)"
proof -
  from nonempty obtain cmd sid data q where q: "wl_queue s = (cmd, sid, data) # q"
    by (cases "wl_queue s") auto
  let ?f = "(cmd, sid, data)"
  let ?b = "wl_buffer s @ frame_enc ?f"
  note turn = write_loop_turn_def q
  show thesis
  proof (cases "append_frame (wl_buffer s) cmd sid data")
    case (Inl e)
    then show ?thesis by (intro ended [of "wl_buffering s"]) (simp add: turn)
  next
    case (Inr b)
    then have ok: "frame_ok ?f" and b: "append_frame (wl_buffer s) cmd sid data = Inr ?b"
      by (simp_all add: append_frame_Inr del: frame_enc.simps)
    show ?thesis
    proof (cases "wl_buffering s \<and> cmd \<noteq> Psh")
      case True
      with ok q show ?thesis by (intro buffered [of ?f q]) (simp_all add: turn b del: frame_enc.simps)
    next
      case flush: False
      show ?thesis
      proof (cases "append_batch ?b q")
        case (Inl e)
        with flush show ?thesis by (intro ended [of False]) (auto simp: turn b Let_def simp del: frame_enc.simps)
      next
        case (Inr r)
        then obtain b' q' where batch: "append_batch ?b q = Inr (b', q')" by (cases r) simp
        then obtain fs where fs: "q = fs @ q'" "list_all frame_ok fs" "b' = ?b @ concat (map frame_enc fs)"
          using append_batch_Inr by blast
        from inv have "scheme_all entry_small (pd_scheme (wl_pad s))" by (simp add: write_inv_def)
        then obtain ps ws pad where w: "write_with_padding rng b' (wl_pad s) = ((ps, True), pad)"
            "pd_scheme pad = pd_scheme (wl_pad s)" "waste_frames ws" "concat ps = b' @ concat (map frame_enc ws)"
          using write_with_padding_transparent [OF rng] by blast
        show ?thesis
        proof (rule written [of "?f # fs" q' ws pad "concat ps"])
          fix wr
          show "write_loop_turn rng wr s =
            (case wr of
               None \<Rightarrow> s\<lparr>wl_queue := q', wl_buffering := False, wl_buffer := [], wl_pad := pad,
                         wl_wire := wl_wire s @ concat ps, wl_ended := False\<rparr>
             | Some n \<Rightarrow> s\<lparr>wl_queue := [], wl_buffering := False, wl_buffer := [], wl_pad := pad,
                         wl_wire := wl_wire s @ take n (concat ps), wl_ended := True\<rparr>)"
            using flush batch w(1) by (auto simp: turn b Let_def split: option.split simp del: frame_enc.simps)
        qed (use q fs ok w in simp_all)
      qed
    qed
  qed
qed

lemma write_inv_turn:
  assumes inv: "write_inv queued s" and rng: "rng_ok rng"
  shows "write_inv queued (write_loop_turn rng w s)"
proof (cases "wl_queue s = []")
  case True
  with inv show ?thesis by (simp add: write_loop_turn_def)
next
  case False
  with inv have run: "\<not> wl_ended s" by (auto simp: write_inv_def)
  with inv obtain fs bs where st: "list_all frame_ok fs" "list_all frame_ok bs" "wl_wire s = concat (map frame_enc fs)"
      "wl_buffer s = concat (map frame_enc bs)" "payload_frames fs @ bs @ wl_queue s = queued"
      "if wl_buffering s then fs = [] \<and> list_all (\<lambda>f. fst f \<noteq> Psh) bs else bs = []"
      and sc: "scheme_all entry_small (pd_scheme (wl_pad s))" "list_all (\<lambda>f. fst f \<noteq> Waste) queued"
    by (auto simp: write_inv_def)
  from inv rng False show ?thesis
  proof (cases rule: write_turn_cases)
    case (ended b)
    then show ?thesis using write_inv_end [OF inv] by simp
  next
    case (buffered f q)
    then have "fs = []" using st(6) by simp
    with buffered st sc run show ?thesis unfolding buffered(5)
      by (intro write_inv_runI [of _ _ "[]" "bs @ [f]"]) (simp_all del: frame_enc.simps)
  next
    case (written gs q ws pad x)
    let ?all = "fs @ bs @ gs @ ws"
    from st written have all: "list_all frame_ok ?all" "wl_wire s @ x = concat (map frame_enc ?all)" by simp_all
    from sc(2) have "list_all (\<lambda>f. fst f \<noteq> Waste) (payload_frames fs @ bs @ gs @ q)"
      by (simp only: st(5) [symmetric] written(1))
    with written(3) have pay: "payload_frames ?all = payload_frames fs @ bs @ gs"
      by (simp add: payload_frames_id)
    show ?thesis
    proof (cases w)
      case None
      have "payload_frames ?all @ [] @ q = queued" unfolding pay using st(5) written(1) by simp
      with None all sc written(4) show ?thesis unfolding written(6)
        by (intro write_inv_runI [of _ _ ?all "[]"]) simp_all
    next
      case (Some n)
      have "wl_wire s @ take n x = take (length (wl_wire s) + n) (concat (map frame_enc ?all))"
        unfolding all(2) [symmetric] by simp
      then have "prefix (payload_frames (fst (drain frame_dec (wl_wire s @ take n x)))) (payload_frames ?all)"
        by (simp only: prefix_filter drain_take [OF all(1)])
      moreover have "prefix (payload_frames ?all) queued" unfolding pay using st(5) written(1) by auto
      ultimately have "prefix (payload_frames (fst (drain frame_dec (wl_wire s @ take n x)))) queued"
        by (rule prefix_order.trans)
      with Some sc written(4) show ?thesis unfolding written(6) write_inv_def by simp
    qed
  qed
qed

lemma write_inv_pad:
  "write_inv queued s \<Longrightarrow> scheme_all entry_small (pd_scheme p) \<Longrightarrow> write_inv queued (s\<lparr>wl_pad := p\<rparr>)"
  by (simp add: write_inv_def cong: if_cong split del: if_split)

lemma write_inv_scheme: "write_inv queued s \<Longrightarrow> scheme_all entry_small (pd_scheme (wl_pad s))"
  by (simp add: write_inv_def)

lemma write_inv_queue:
  assumes "write_inv queued s" and "can_queue s" and "fst f \<noteq> Waste"
  shows "write_inv (queued @ [f]) (s\<lparr>wl_queue := wl_queue s @ [f]\<rparr>)"
proof -
  from assms(1,2) obtain fs bs where "list_all frame_ok fs" "list_all frame_ok bs"
      "wl_wire s = concat (map frame_enc fs)" "wl_buffer s = concat (map frame_enc bs)"
      "payload_frames fs @ bs @ wl_queue s = queued"
      "if wl_buffering s then fs = [] \<and> list_all (\<lambda>f. fst f \<noteq> Psh) bs else bs = []"
      "list_all (\<lambda>f. fst f \<noteq> Waste) queued"
    unfolding write_inv_def can_queue_def by (auto simp only: if_False)
  with assms show ?thesis
    by (intro write_inv_runI [of _ _ fs bs]) (auto simp: can_queue_def write_inv_scheme simp del: concat_map_singleton)
qed

lemma write_inv_step:
  assumes "write_inv queued s" and "event_ok ev"
  shows "write_inv (queued @ (case ev of Queue f \<Rightarrow> if can_queue s then [f] else [] | _ \<Rightarrow> [])) (write_event_step ev s)"
proof (cases ev)
  case CloserFired
  with write_inv_end [OF assms(1), of "wl_buffering s"] show ?thesis by simp
qed (use assms in \<open>simp_all add: write_inv_turn write_inv_pad write_inv_queue write_inv_scheme\<close>)

lemma write_loop_inv:
  assumes "list_all event_ok evs" and "write_inv queued s"
  shows "write_inv (queued @ accepted evs s) (write_loop evs s)"
  using assms
proof (induction evs arbitrary: queued s)
  case (Cons ev evs)
  from Cons.prems have "write_inv (queued @ (case ev of Queue f \<Rightarrow> if can_queue s then [f] else [] | _ \<Rightarrow> []))
      (write_event_step ev s)"
    by (intro write_inv_step) simp_all
  with Cons.IH Cons.prems show ?case by (fastforce simp: write_loop_def)
qed (simp add: write_loop_def)

text \<open>Nothing is on the wire, and the loop buffers, until a \<open>Psh\<close> has been queued.\<close>

definition psh_inv :: "frame list \<Rightarrow> write_loop_state \<Rightarrow> bool" where
  "psh_inv queued s \<longleftrightarrow> set (wl_queue s) \<subseteq> set queued \<and>
     (wl_wire s = [] \<and> wl_buffering s \<or> list_ex (\<lambda>f. fst f = Psh) queued)"

lemma psh_inv_turn:
  assumes inv: "psh_inv queued s"
  shows "psh_inv queued (write_loop_turn rng w s)"
proof (cases "wl_queue s")
  case (Cons f q)
  obtain cmd sid data where f: "f = (cmd, sid, data)" by (cases f)
  have q: "set q \<subseteq> set queued" and here: "cmd = Psh \<Longrightarrow> list_ex (\<lambda>f. fst f = Psh) queued"
    using inv Cons f by (force simp: psh_inv_def list_ex_iff)+
  have batch: "set q' \<subseteq> set queued" if "append_batch b q = Inr (b', q')" for b b' q'
    using append_batch_Inr [OF that] q by auto
  show ?thesis
  proof (cases "wl_buffering s \<and> cmd \<noteq> Psh")
    case True
    with inv Cons f q show ?thesis by (auto simp: psh_inv_def write_loop_turn_def split: sum.split)
  next
    case False
    with inv here have "list_ex (\<lambda>f. fst f = Psh) queued" by (auto simp: psh_inv_def)
    with False Cons f batch show ?thesis
      by (auto simp: psh_inv_def write_loop_turn_def Let_def split: sum.split prod.split option.split)
  qed
qed (use inv in \<open>simp add: write_loop_turn_def\<close>)

lemma psh_inv_step:
  assumes "psh_inv queued s"
  shows "psh_inv (queued @ (case ev of Queue f \<Rightarrow> if can_queue s then [f] else [] | _ \<Rightarrow> [])) (write_event_step ev s)"
  using assms psh_inv_turn [OF assms] by (cases ev) (auto simp: psh_inv_def)

lemma write_loop_psh:
  assumes "psh_inv queued s"
  shows "psh_inv (queued @ accepted evs s) (write_loop evs s)"
  using assms
proof (induction evs arbitrary: queued s)
  case (Cons ev evs)
  from Cons.IH [OF psh_inv_step [OF Cons.prems, of ev]] show ?case by (simp add: write_loop_def)
qed (simp add: write_loop_def)

lemma psh_inv_new: "psh_inv [] (write_loop_new scheme)"
  by (simp add: psh_inv_def write_loop_new_def)

lemma write_inv_new: "scheme_all entry_small scheme \<Longrightarrow> write_inv [] (write_loop_new scheme)"
  by (simp add: write_inv_def write_loop_new_def)

subsection \<open>Oversized padding\<close>

lemma drain_zeros:
  "drain frame_dec (replicate (7 * k) 0 @ rest) =
     (replicate k (Waste, 0, []) @ fst (drain frame_dec rest), snd (drain frame_dec rest))"
proof -
  have "replicate 7 (0 :: u8) = [0, 0, 0, 0, 0, 0, 0]" by (simp add: eval_nat_numeral)
  then have "frame_enc (Waste, 0, []) = replicate 7 0"
    by (simp add: frame_enc_ok to_be_4 to_be_2 del: frame_enc.simps)
  then have "concat (map frame_enc (replicate k (Waste, 0, []))) = replicate (7 * k) 0"
    by (induction k) (simp_all add: replicate_add [symmetric])
  then show ?thesis using anytls_frames.drain_concat [of "replicate k (Waste, 0, [])" rest]
    by (simp add: list_all_iff)
qed

lemma waste_frame_large:
  assumes "65536 \<le> k" and "k < 131072"
  shows "\<exists>w. waste_frame k = Some w \<and>
    w = frame_enc (Waste, 0, replicate (k - 65536) 0) @ replicate (7 * 9362) 0 @ [0, 0]"
proof -
  let ?r = "k - 65536"
  have "(of_nat (?r + 65536) :: u16) = of_nat ?r" by (simp only: of_nat_add) simp
  then have c: "(of_nat k :: u16) = of_nat ?r" using assms(1) by simp
  have "replicate k (0 :: u8) = replicate ?r 0 @ replicate (7 * 9362 + 2) 0"
    using assms(1) by (simp add: replicate_add [symmetric])
  moreover have "replicate (7 * 9362 + 2) (0 :: u8) = replicate (7 * 9362) 0 @ [0, 0]"
    by (simp only: replicate_add) (simp add: numeral_2_eq_2)
  ultimately have z: "replicate k (0 :: u8) = replicate ?r 0 @ replicate (7 * 9362) 0 @ [0, 0]" by simp
  have "frame_enc (Waste, 0, replicate ?r 0) = [0] @ to_be 4 (0 :: u32) @ to_be 2 (of_nat k :: u16) @ replicate ?r 0"
    using assms(2) by (subst frame_enc_ok) (simp_all add: c)
  moreover have "waste_frame k = Some ([0] @ to_be 4 (0 :: u32) @ to_be 2 (of_nat k :: u16) @ replicate k 0)"
    using assms(2) by (simp add: waste_frame_def)
  ultimately show ?thesis by (simp add: z del: frame_enc.simps)
qed

lemma lost_frame: "drain frame_dec ([0, 0] @ frame_enc (Psh, 1, [x])) = ([(Waste, 0x20000, [0])], [1, x])"
proof -
  have "[0, 0] @ frame_enc (Psh, 1, [x]) = frame_enc (Waste, 0x20000, [0]) @ [1, x]"
    by (simp add: frame_enc_ok to_be_4 to_be_2 del: frame_enc.simps)
  moreover have "frame_dec [1, x] = None"
    by (simp add: frame_dec_def read_frame_def command_try_from_def read_be_alt)
  ultimately show ?thesis
    using anytls_frames.drain_concat [of "[(Waste, 0x20000, [0])]" "[1, x]"]
    by (simp add: anytls_frames.drain_None del: frame_enc.simps)
qed

lemmas scheme_eval = str_lines_def strip_cr_def Let_def trim_id graph_ascii_def split_once_def parse_entries_def
  parse_u32_def parse_usize_def parse_uint_def digit_val_def ok_or_def

lemma parsed_sample:
  "parse_lines (str_lines (str ''stop=2'' @ [10] @ str ''1=9-4,c,7-7'')) (0, fmempty) =
     Inr (2, fmupd 1 [Range 4 9, CheckMark, Fixed 7] fmempty)"
  by (simp add: scheme_eval)

lemma default_lines:
  "case parse_lines (str_lines DEFAULT_PADDING_SCHEME) (0, fmempty) of
     Inr (n, m) \<Rightarrow> n = 8 \<and> fmpred (\<lambda>_ es. list_all entry_small es) m | Inl _ \<Rightarrow> False"
  by (simp add: scheme_eval DEFAULT_PADDING_SCHEME_def fmpred_upd)

text \<open>\<open>get_default\<close>: the default scheme parses, so its \<open>expect\<close> does not panic.\<close>

definition get_default :: "(bytes \<Rightarrow> bytes) \<Rightarrow> padding_scheme option" where
  "get_default md5_hex = ok_of (parse_scheme md5_hex DEFAULT_PADDING_SCHEME)"

lemma default_valid: "utf8_valid DEFAULT_PADDING_SCHEME"
  by (rule utf8_valid_ascii) (simp add: DEFAULT_PADDING_SCHEME_def)

lemma get_default_Some: "\<exists>s. get_default md5_hex = Some s \<and> scheme_all entry_small s \<and> ps_stop_at s = 8"
  using default_lines
  by (auto simp: get_default_def parse_scheme_def from_utf8_def default_valid ok_or_def scheme_all_def
      split: sum.splits prod.splits)

definition least_draw :: rng where
  "least_draw = (\<lambda>i mn mx. mn)"

lemma least_draw_ok [simp]: "rng_ok least_draw"
  by (simp add: rng_ok_def least_draw_def)

definition sample_scheme :: padding_scheme where
  "sample_scheme = \<lparr>ps_stop_at = 8, ps_policies = fmupd 1 [Fixed 60, CheckMark] fmempty, ps_hash = [], ps_raw = []\<rparr>"

definition sample_events :: "write_event list" where
  "sample_events = [Queue (Settings, 0, [9]), Turn least_draw, Queue (Syn, 1, []), Turn least_draw, Queue (Psh, 1, [7]),
     Turn least_draw, CountPacket, Turn least_draw, Queue (Psh, 1, [8])]"

lemmas sample_eval = sample_events_def write_loop_new_def write_loop_turn_def can_queue_def SESSION_QUEUE_CAPACITY_def
  append_frame_def build_frame_def u16_try_from_def write_with_padding_def sample_scheme_def generate_record_payload_sizes_def
  least_draw_def as_i64_def as_usize_def CHECK_MARK_def waste_frame_def SESSION_WRITE_BATCH_BYTES_def Let_def

subsection \<open>Properties\<close>

text \<open>C3. Padding is transparent to the peer. Over any sequence of queued frames, turns of the write
  loop with any random draws and batching, received frames and new padding schemes with
  sizes below 64 KiB, the frames the peer decodes from the wire, without the padding frames
  it discards, are a prefix of the frames the channel accepted, in order. While the loop
  runs nothing is torn or lost: the decoded frames, the buffered ones and the queued ones
  are all frames accepted; and whether it runs or has ended, nothing is sent before the first \<open>Psh\<close> arrives.\<close>

theorem padding_transparent:
  assumes "scheme_all entry_small scheme" and "list_all event_ok evs"
    and "s = write_loop evs (write_loop_new scheme)" and "queued = accepted evs (write_loop_new scheme)"
  shows "prefix (payload_frames (fst (drain frame_dec (wl_wire s)))) queued \<and>
    (\<not> wl_ended s \<longrightarrow> snd (drain frame_dec (wl_wire s)) = [] \<and>
      (\<exists>bs. wl_buffer s = concat (map frame_enc bs) \<and>
        payload_frames (fst (drain frame_dec (wl_wire s))) @ bs @ wl_queue s = queued \<and>
        (if wl_buffering s then wl_wire s = [] \<and> list_all (\<lambda>f. fst f \<noteq> Psh) bs else bs = []))) \<and>
    (list_all (\<lambda>f. fst f \<noteq> Psh) queued \<longrightarrow> wl_wire s = [])"
proof -
  have inv: "write_inv queued s"
    using write_loop_inv [OF assms(2) write_inv_new [OF assms(1)]] assms(3,4) by simp
  have psh: "list_all (\<lambda>f. fst f \<noteq> Psh) queued \<longrightarrow> wl_wire s = []"
    using write_loop_psh [OF psh_inv_new, of evs scheme] assms(3,4) by (auto simp: psh_inv_def list_ex_iff list_all_iff)
  show ?thesis
  proof (cases "wl_ended s")
    case True
    with inv psh show ?thesis by (simp add: write_inv_def)
  next
    case False
    with inv obtain fs bs where "list_all frame_ok fs" "wl_wire s = concat (map frame_enc fs)"
      "wl_buffer s = concat (map frame_enc bs)" "payload_frames fs @ bs @ wl_queue s = queued"
      "if wl_buffering s then fs = [] \<and> list_all (\<lambda>f. fst f \<noteq> Psh) bs else bs = []"
      unfolding write_inv_def by (auto simp only: if_False)
    with psh show ?thesis by (auto simp: drain_frames split: if_splits)
  qed
qed

theorem padding_transparent_witness:
  "accepted sample_events (write_loop_new sample_scheme) = [(Settings, 0, [9]), (Syn, 1, []), (Psh, 1, [7]), (Psh, 1, [8])] \<and>
   prefix (payload_frames (fst (drain frame_dec (wl_wire (write_loop sample_events (write_loop_new sample_scheme))))))
     (accepted sample_events (write_loop_new sample_scheme)) \<and>
   accepted (take 4 sample_events) (write_loop_new sample_scheme) = [(Settings, 0, [9]), (Syn, 1, [])] \<and>
   wl_wire (write_loop (take 4 sample_events) (write_loop_new sample_scheme)) = []"
proof -
  have sc: "scheme_all entry_small sample_scheme" by (simp add: scheme_all_def sample_scheme_def fmpred_upd)
  have ev: "list_all event_ok sample_events" "list_all event_ok (take 4 sample_events)" by (simp_all add: sample_events_def)
  have a: "accepted sample_events (write_loop_new sample_scheme) = [(Settings, 0, [9]), (Syn, 1, []), (Psh, 1, [7]), (Psh, 1, [8])]"
    "accepted (take 4 sample_events) (write_loop_new sample_scheme) = [(Settings, 0, [9]), (Syn, 1, [])]"
    by (simp_all add: sample_eval)
  from padding_transparent [OF sc ev(1) refl refl] padding_transparent [OF sc ev(2) refl refl] a show ?thesis by simp
qed

text \<open>Padding beyond 65535 bytes destroys the stream. The length field of a padding frame has 16
  bits and the code truncates, so with a record size that asks for 65536 to 131071 bytes of
  padding the peer decodes the frame before it but not the frame after it.\<close>

theorem oversized_padding_desync:
  assumes "frame_ok f" and "fst f \<noteq> Waste" and "65536 \<le> k" and "k < 131072"
  shows "\<exists>ps. pad_records [int (length (frame_enc f) + 7 + k)] (frame_enc f) = (ps, True) \<and>
    payload_frames (fst (drain frame_dec (concat ps @ frame_enc (Psh, 1, [x])))) = [f]"
proof -
  let ?w = "(Waste, 0, replicate (k - 65536) 0) :: frame"
  obtain w where w: "waste_frame k = Some w" "w = frame_enc ?w @ replicate (7 * 9362) 0 @ [0, 0]"
    using waste_frame_large [OF assms(3,4)] by blast
  obtain cmd sid data where f: "f = (cmd, sid, data)" by (cases f)
  have len: "length (frame_enc f) = 7 + length data" "length data < 65536"
    using assms(1) by (simp_all add: f frame_enc_ok del: frame_enc.simps)
  then have "as_usize (int (length (frame_enc f) + 7 + k)) = length (frame_enc f) + 7 + k"
    using assms(4) by (simp add: as_usize_def)
  then have "pad_records [int (length (frame_enc f) + 7 + k)] (frame_enc f) = ([frame_enc f, w], True)"
    using assms(3) w(1) len by (simp add: CHECK_MARK_def Let_def del: frame_enc.simps)
  moreover have "drain frame_dec (concat [frame_enc f, w] @ frame_enc (Psh, 1, [x])) =
      ([f, ?w] @ replicate 9362 (Waste, 0, []) @ [(Waste, 0x20000, [0])], [1, x])"
  proof -
    have "concat [frame_enc f, w] @ frame_enc (Psh, 1, [x]) =
        concat (map frame_enc [f, ?w]) @ replicate (7 * 9362) 0 @ [0, 0] @ frame_enc (Psh, 1, [x])"
      by (simp add: w(2) del: frame_enc.simps)
    moreover have "list_all frame_ok [f, ?w]" using assms by simp
    ultimately show ?thesis by (simp only: anytls_frames.drain_concat drain_zeros lost_frame fst_conv snd_conv)
  qed
  ultimately show ?thesis using assms(2) by (intro exI [of _ "[frame_enc f, w]"]) (simp del: frame_enc.simps)
qed

theorem oversized_padding_desync_witness:
  "\<exists>ps. pad_records [int (length (frame_enc (Settings, 0, [9])) + 7 + 70000)] (frame_enc (Settings, 0, [9])) = (ps, True) \<and>
    payload_frames (fst (drain frame_dec (concat ps @ frame_enc (Psh, 1, [5])))) = [(Settings, 0, [9])]"
  by (rule oversized_padding_desync) simp_all

text \<open>A padding scheme that parses has no empty records and no empty or inverted ranges, and every
  size fits a machine word.\<close>

theorem parsed_scheme_wf:
  assumes "parse_scheme md5_hex raw = Inr s"
  shows "scheme_all entry_wf s"
  using assms parse_lines_wf [of "str_lines raw" 0 fmempty]
  by (auto simp: parse_scheme_def scheme_all_def bindr_Inr_iff from_utf8_Some_iff)

theorem parsed_scheme_wf_witness:
  "\<exists>s. parse_scheme (\<lambda>_. []) (str ''stop=2'' @ [10] @ str ''1=9-4,c,7-7'') = Inr s \<and> scheme_all entry_wf s"
proof -
  let ?raw = "str ''stop=2'' @ [10] @ str ''1=9-4,c,7-7''"
  have "utf8_valid ?raw" by (rule utf8_valid_ascii) simp
  then have "\<exists>s. parse_scheme (\<lambda>_. []) ?raw = Inr s"
    using parsed_sample by (simp add: parse_scheme_def from_utf8_def ok_or_def)
  then show ?thesis using parsed_scheme_wf by blast
qed

end
