(* ===== verification/Anytls_Client.thy ===== *)
theory Anytls_Client
  imports Anytls_Padding Tokio_Std
begin

text \<open>
  An AnyTLS client session (\<open>Session\<close> of \<open>src/src/proxy/outbound/anytls.rs\<close>): the table of
  streams, the read loop that routes incoming frames, opening streams, the proxied stream
  (\<open>AnytlsProxyStream\<close>) and the UDP socket over a stream (\<open>AnytlsUdpSocket\<close>).
  A channel between the session and a stream is an entry of \<open>as_chans\<close>; the session's map
  holds the sending end, the stream the receiving end. \<open>send(..).await\<close> on a full channel
  blocks the read loop.
  The locale \<open>demultiplexer\<close> states what a session promises its streams: an event of one
  stream neither reads nor changes another. The client's and the server's session
  interpret it.
\<close>

subsection \<open>Runs and the demultiplexer contract\<close>

fun run_all :: "('e \<Rightarrow> 's \<Rightarrow> 's option) \<Rightarrow> 'e list \<Rightarrow> 's \<Rightarrow> 's option" where
  "run_all step [] s = Some s"
| "run_all step (e # es) s = (case step e s of None \<Rightarrow> None | Some s1 \<Rightarrow> run_all step es s1)"

lemma run_all_append: "run_all step (es @ fs) s = Option.bind (run_all step es s) (run_all step fs)"
  by (induction es arbitrary: s) (auto split: option.split)

locale demultiplexer =
  fixes step :: "'e \<Rightarrow> 's \<Rightarrow> 's option"
    and inv :: "'s \<Rightarrow> bool"
    and owner :: "'e \<Rightarrow> 'k option"
    and view :: "'k \<Rightarrow> 's \<Rightarrow> 'v"
    and own :: "'e \<Rightarrow> 'v \<Rightarrow> 'v option"
  assumes step_inv: "inv s \<Longrightarrow> step e s = Some s' \<Longrightarrow> inv s'"
    and step_own: "inv s \<Longrightarrow> step e s = Some s' \<Longrightarrow> owner e = Some k \<Longrightarrow> own e (view k s) = Some (view k s')"
    and step_other: "inv s \<Longrightarrow> step e s = Some s' \<Longrightarrow> owner e \<noteq> Some k \<Longrightarrow> view k s' = view k s"
begin

lemma run_inv: "inv s \<Longrightarrow> run_all step es s = Some s' \<Longrightarrow> inv s'"
  by (induction es arbitrary: s) (auto split: option.splits dest: step_inv)

text \<open>What a stream sees is what it would see alone.\<close>

lemma projection:
  assumes "inv s" and "run_all step es s = Some s'"
  shows "run_all own (filter (\<lambda>e. owner e = Some k) es) (view k s) = Some (view k s')"
  using assms
proof (induction es arbitrary: s)
  case (Cons e es)
  from Cons.prems obtain s1 where s1: "step e s = Some s1" "run_all step es s1 = Some s'"
    by (auto split: option.splits)
  have rest: "run_all own (filter (\<lambda>e. owner e = Some k) es) (view k s1) = Some (view k s')"
    using Cons.IH step_inv [OF Cons.prems(1) s1(1)] s1(2) by blast
  show ?case
  proof (cases "owner e = Some k")
    case True
    with step_own [OF Cons.prems(1) s1(1) True] rest show ?thesis by simp
  next
    case False
    with step_other [OF Cons.prems(1) s1(1) False] rest show ?thesis by simp
  qed
qed simp

end

subsection \<open>The session\<close>

datatype stream_event = SData bytes | SFin | SSynAckError bytes

record anytls_session =
  as_streams :: "(u32, nat) fmap"
  as_chans :: "stream_event chan list"
  as_write :: write_loop_state
  as_next_stream_id :: u32
  as_server_version :: u8
  as_is_dead :: bool
  as_closed :: bool
  as_close_when_idle :: bool

definition STREAM_QUEUE_CAPACITY :: nat where
  "STREAM_QUEUE_CAPACITY = 16"

definition PROTOCOL_VERSION :: nat where
  "PROTOCOL_VERSION = 2"

definition CLIENT_NAME :: bytes where
  "CLIENT_NAME = str ''quicproxy/0.1.0''"

definition settings_data :: "padding_scheme \<Rightarrow> bytes" where
  "settings_data scheme =
     str ''v='' @ show_nat PROTOCOL_VERSION @ [0x0A] @ str ''client='' @ CLIENT_NAME @ [0x0A] @
     str ''padding-md5='' @ ps_hash scheme @ [0x0A]"

text \<open>\<open>Session::new\<close> after the TLS handshake: the authentication packet goes straight to the
  connection, the settings through the write loop.\<close>

definition session_new :: "rng \<Rightarrow> bytes \<Rightarrow> padding_scheme \<Rightarrow> bool \<Rightarrow> (bytes \<times> anytls_session) option" where
  "session_new rng password_hash scheme close_when_idle =
     (case anytls_authenticate rng password_hash scheme of
        None \<Rightarrow> None
      | Some auth \<Rightarrow>
          Some (auth, \<lparr>as_streams = fmempty, as_chans = [],
            as_write = write_event_step (Queue (Settings, 0, settings_data scheme)) (write_loop_new scheme),
            as_next_stream_id = 1, as_server_version = 1, as_is_dead = False, as_closed = False,
            as_close_when_idle = close_when_idle\<rparr>))"

definition parse_server_version :: "bytes \<Rightarrow> u8 option" where
  "parse_server_version settings =
     (case find (\<lambda>l. case split_once 0x3D l of Some (k, v) \<Rightarrow> trim k = str ''v'' | None \<Rightarrow> False) (str_lines settings) of
        None \<Rightarrow> None
      | Some l \<Rightarrow> map_option of_nat (parse_uint 255 (trim (snd (the (split_once 0x3D l))))))"

definition finish :: "anytls_session \<Rightarrow> anytls_session" where
  "finish s = s\<lparr>as_is_dead := True, as_closed := True, as_streams := fmempty\<rparr>"

definition next_stream_id :: "anytls_session \<Rightarrow> u32 \<times> anytls_session" where
  "next_stream_id s = (as_next_stream_id s, s\<lparr>as_next_stream_id := as_next_stream_id s + 1\<rparr>)"

definition register_stream :: "u32 \<Rightarrow> anytls_session \<Rightarrow> nat \<times> anytls_session" where
  "register_stream sid s =
     (length (as_chans s),
      s\<lparr>as_chans := as_chans s @ [channel STREAM_QUEUE_CAPACITY],
        as_streams := fmupd sid (length (as_chans s)) (as_streams s)\<rparr>)"

definition unregister_stream :: "u32 \<Rightarrow> anytls_session \<Rightarrow> anytls_session" where
  "unregister_stream sid s =
     (let s1 = s\<lparr>as_streams := fmdrop sid (as_streams s)\<rparr>
      in if as_close_when_idle s1 \<and> as_streams s1 = fmempty then finish s1 else s1)"

definition upd_chan :: "nat \<Rightarrow> stream_event chan \<Rightarrow> anytls_session \<Rightarrow> anytls_session" where
  "upd_chan c ch s = s\<lparr>as_chans := (as_chans s)[c := ch]\<rparr>"

definition as_queue :: "frame \<Rightarrow> anytls_session \<Rightarrow> anytls_session" where
  "as_queue f s = s\<lparr>as_write := write_event_step (Queue f) (as_write s)\<rparr>"

text \<open>\<open>streams.remove(&id)\<close> and a last event, sent only if there is room.\<close>

definition remove_with :: "u32 \<Rightarrow> stream_event \<Rightarrow> anytls_session \<Rightarrow> anytls_session" where
  "remove_with sid ev s =
     (case fmlookup (as_streams s) sid of
        None \<Rightarrow> s
      | Some c \<Rightarrow>
          upd_chan c (snd (try_send ev (as_chans s ! c))) (s\<lparr>as_streams := fmdrop sid (as_streams s)\<rparr>))"

definition count_packet :: "anytls_session \<Rightarrow> anytls_session" where
  "count_packet s = s\<lparr>as_write := write_event_step CountPacket (as_write s)\<rparr>"

definition alert_all :: "bytes \<Rightarrow> anytls_session \<Rightarrow> anytls_session" where
  "alert_all msg s =
     fold (\<lambda>sid. remove_with sid (SSynAckError (str ''server alert: '' @ msg)))
       (sorted_list_of_fset (fmdom (as_streams s))) s"

datatype read_outcome = Continue | Blocked | ReadEnded

definition read_frame_step :: "(bytes \<Rightarrow> bytes) \<Rightarrow> frame \<Rightarrow> anytls_session \<Rightarrow> read_outcome \<times> anytls_session" where
  "read_frame_step md5_hex = (\<lambda>(cmd, sid, data) s.
     (case cmd of
        Psh \<Rightarrow>
          (case fmlookup (as_streams s) sid of
             None \<Rightarrow> (Continue, count_packet s)
           | Some c \<Rightarrow>
               (case try_send (SData data) (as_chans s ! c) of
                  (SendOk, ch) \<Rightarrow> (Continue, count_packet (upd_chan c ch s))
                | (SendFull, ch) \<Rightarrow> (Blocked, s)
                | (SendClosed, ch) \<Rightarrow> (Continue, count_packet (s\<lparr>as_streams := fmdrop sid (as_streams s)\<rparr>))))
      | Fin \<Rightarrow> (Continue, count_packet (remove_with sid SFin s))
      | SynAck \<Rightarrow> (Continue, count_packet (if data = [] then s else remove_with sid (SSynAckError data) s))
      | Alert \<Rightarrow> (ReadEnded, alert_all (from_utf8_lossy data) s)
      | UpdatePaddingScheme \<Rightarrow>
          (case parse_scheme md5_hex data of
             Inr x \<Rightarrow> (Continue, count_packet (s\<lparr>as_write := write_event_step (NewScheme x) (as_write s)\<rparr>))
           | Inl e \<Rightarrow> (Continue, count_packet s))
      | HeartRequest \<Rightarrow> (Continue, count_packet (as_queue (HeartResponse, 0, []) s))
      | ServerSettings \<Rightarrow>
          (case parse_server_version (from_utf8_lossy data) of
             Some ver \<Rightarrow> (Continue, count_packet (s\<lparr>as_server_version := ver\<rparr>))
           | None \<Rightarrow> (Continue, count_packet s))
      | _ \<Rightarrow> (Continue, count_packet s)))"

subsection \<open>The proxied stream\<close>

record proxy_stream =
  px_stream_id :: u32
  px_chan :: nat
  px_read_buffer :: bytes
  px_fin_received :: bool
  px_fin_sent :: bool

definition proxy_new :: "u32 \<Rightarrow> nat \<Rightarrow> proxy_stream" where
  "proxy_new sid c = \<lparr>px_stream_id = sid, px_chan = c, px_read_buffer = [], px_fin_received = False, px_fin_sent = False\<rparr>"

text \<open>\<open>poll_recv\<close> on the receiving end: an empty channel is disconnected once its sender is gone
  from the session's map.\<close>

datatype 'a recv_poll = RecvItem 'a | RecvNone | RecvPending

definition poll_recv :: "nat \<Rightarrow> anytls_session \<Rightarrow> stream_event recv_poll \<times> anytls_session" where
  "poll_recv c s =
     (case try_recv (as_chans s ! c) of
        (Some ev, ch) \<Rightarrow> (RecvItem ev, upd_chan c ch s)
      | (None, ch) \<Rightarrow> (if c |\<in>| fmran (as_streams s) then RecvPending else RecvNone, s))"

datatype read_poll = ReadOk | ReadErr bytes | ReadPending

definition px_poll_read ::
    "read_buf \<Rightarrow> proxy_stream \<times> anytls_session \<Rightarrow> read_poll \<times> read_buf \<times> proxy_stream \<times> anytls_session" where
  "px_poll_read buf = (\<lambda>(p, s).
     (case copy_to (px_read_buffer p) buf of
        (True, pending, buf') \<Rightarrow> (ReadOk, buf', p\<lparr>px_read_buffer := pending\<rparr>, s)
      | (False, _, _) \<Rightarrow>
          if px_fin_received p then (ReadOk, buf, p, s)
          else
            (case poll_recv (px_chan p) s of
               (RecvItem (SData data), s') \<Rightarrow>
                 (case copy_from data buf of (pending, buf') \<Rightarrow> (ReadOk, buf', p\<lparr>px_read_buffer := pending\<rparr>, s'))
             | (RecvItem SFin, s') \<Rightarrow> (ReadOk, buf, p\<lparr>px_fin_received := True\<rparr>, s')
             | (RecvItem (SSynAckError e), s') \<Rightarrow> (ReadErr (from_utf8_lossy e), buf, p, s')
             | (RecvNone, s') \<Rightarrow> (ReadOk, buf, p\<lparr>px_fin_received := True\<rparr>, s')
             | (RecvPending, s') \<Rightarrow> (ReadPending, buf, p, s'))))"

datatype write_poll = WriteOk nat | WriteBrokenPipe | WritePending

definition px_poll_write :: "bytes \<Rightarrow> proxy_stream \<times> anytls_session \<Rightarrow> write_poll \<times> anytls_session" where
  "px_poll_write buf = (\<lambda>(p, s).
     if buf = [] then (WriteOk 0, s)
     else if px_fin_sent p then (WriteBrokenPipe, s)
     else if wl_ended (as_write s) then (WriteBrokenPipe, s)
     else if \<not> can_queue (as_write s) then (WritePending, s)
     else let len = min (length buf) 65535 in (WriteOk len, as_queue (Psh, px_stream_id p, take len buf) s))"

definition px_poll_shutdown :: "proxy_stream \<times> anytls_session \<Rightarrow> bool \<times> proxy_stream \<times> anytls_session" where
  "px_poll_shutdown = (\<lambda>(p, s).
     if px_fin_sent p then (True, p, s)
     else if wl_ended (as_write s) then (True, p, s)
     else if \<not> can_queue (as_write s) then (False, p, s)
     else (True, p\<lparr>px_fin_sent := True\<rparr>, as_queue (Fin, px_stream_id p, []) s))"

text \<open>\<open>Drop\<close> sends \<open>Fin\<close> if there is room, closes the receiving end and unregisters.\<close>

definition px_drop :: "proxy_stream \<Rightarrow> anytls_session \<Rightarrow> anytls_session" where
  "px_drop p s =
     (let s1 = (if px_fin_sent p then s else as_queue (Fin, px_stream_id p, []) s);
          s2 = unregister_stream (px_stream_id p) s1
      in upd_chan (px_chan p) ((as_chans s2 ! px_chan p)\<lparr>ch_closed := True\<rparr>) s2)"

subsection \<open>Opening streams\<close>

text \<open>\<open>write_tx.send(..).await\<close> with room in the channel; an ended write loop is an error.\<close>

fun send_frames :: "frame list \<Rightarrow> anytls_session \<Rightarrow> anytls_session option" where
  "send_frames [] s = Some s"
| "send_frames (f # fs) s = (if can_queue (as_write s) then send_frames fs (as_queue f s) else None)"

definition open_frames :: "u32 \<Rightarrow> target_addr \<Rightarrow> frame list" where
  "open_frames sid target = [(Syn, sid, []), (Psh, sid, to_bytes target)]"

definition connect_stream :: "target_addr \<Rightarrow> anytls_session \<Rightarrow> (proxy_stream \<times> anytls_session) option" where
  "connect_stream target s =
     (case next_stream_id s of (sid, s1) \<Rightarrow>
      case register_stream sid s1 of (c, s2) \<Rightarrow>
      case send_frames (open_frames sid target) s2 of
        None \<Rightarrow> None
      | Some s3 \<Rightarrow> Some (proxy_new sid c, s3))"

definition UDP_OVER_TCP_TARGET :: bytes where
  "UDP_OVER_TCP_TARGET = str ''sp.v2.udp-over-tcp.arpa''"

definition packet_frames :: "u32 \<Rightarrow> target_addr \<Rightarrow> frame list" where
  "packet_frames sid target =
     [(Syn, sid, []), (Psh, sid, to_bytes (Domain UDP_OVER_TCP_TARGET (port target))),
      (Psh, sid, [0x00] @ to_bytes target)]"

record udp_socket =
  us_stream_id :: u32
  us_chan :: nat
  us_read_buffer :: bytes
  us_is_connect :: bool

definition connect_packet :: "target_addr \<Rightarrow> anytls_session \<Rightarrow> (udp_socket \<times> anytls_session) option" where
  "connect_packet target s =
     (case next_stream_id s of (sid, s1) \<Rightarrow>
      case register_stream sid s1 of (c, s2) \<Rightarrow>
      case send_frames (packet_frames sid target) s2 of
        None \<Rightarrow> None
      | Some s3 \<Rightarrow> Some (\<lparr>us_stream_id = sid, us_chan = c, us_read_buffer = [], us_is_connect = False\<rparr>, s3))"

datatype udp_recv = UdpMsg bytes | UdpErr uot_error | UdpClosedByRemote | UdpStreamError bytes | UdpChannelClosed | UdpWait

text \<open>\<open>read_next_msg\<close>, driven by what the channel holds.\<close>

function us_read_next_msg :: "udp_socket \<times> stream_event list \<Rightarrow> bool \<Rightarrow> udp_recv \<times> udp_socket \<times> stream_event list" where
  "us_read_next_msg (u, evs) connected =
     (case next_packet (us_read_buffer u) (us_is_connect u) of
        Inl e \<Rightarrow> (UdpErr e, u, evs)
      | Inr (Some p, buf) \<Rightarrow> (UdpMsg p, u\<lparr>us_read_buffer := buf\<rparr>, evs)
      | Inr (None, buf) \<Rightarrow>
          (case evs of
             SData data # evs' \<Rightarrow> us_read_next_msg (u\<lparr>us_read_buffer := uot_push buf data\<rparr>, evs') connected
           | SFin # evs' \<Rightarrow> (UdpClosedByRemote, u\<lparr>us_read_buffer := buf\<rparr>, evs')
           | SSynAckError e # evs' \<Rightarrow> (UdpStreamError (from_utf8_lossy e), u\<lparr>us_read_buffer := buf\<rparr>, evs')
           | [] \<Rightarrow> (if connected then UdpWait else UdpChannelClosed, u\<lparr>us_read_buffer := buf\<rparr>, [])))"
  by pat_completeness auto
termination
  by (relation "measure (\<lambda>((u, evs), _). length evs)") auto

definition us_send_to :: "bytes \<Rightarrow> target_addr \<Rightarrow> udp_socket \<Rightarrow> uot_error + frame" where
  "us_send_to buf target u =
     bindr (encode_uot_packet buf (if us_is_connect u then None else Some target))
       (\<lambda>packet. Inr (Psh, us_stream_id u, packet))"

definition us_recv_from :: "udp_socket \<times> stream_event list \<Rightarrow> bool \<Rightarrow>
    (udp_recv + target_addr \<times> bytes) \<times> udp_socket \<times> stream_event list" where
  "us_recv_from st connected =
     (case us_read_next_msg st connected of
        (UdpMsg p, u, evs) \<Rightarrow>
          ((case decode_uot_packet p (us_is_connect u) of
              Inl e \<Rightarrow> Inl (UdpErr e)
            | Inr (t, payload) \<Rightarrow> Inr (case t of None \<Rightarrow> dummy | Some t \<Rightarrow> t, payload)), u, evs)
      | (r, u, evs) \<Rightarrow> (Inl r, u, evs))"

text \<open>\<open>Drop\<close> of the socket, like that of a stream that has not been shut down.\<close>

definition us_drop :: "udp_socket \<Rightarrow> anytls_session \<Rightarrow> anytls_session" where
  "us_drop u s =
     (let s1 = unregister_stream (us_stream_id u) (as_queue (Fin, us_stream_id u, []) s)
      in upd_chan (us_chan u) ((as_chans s1 ! us_chan u)\<lparr>ch_closed := True\<rparr>) s1)"

lemma us_drop_eq: "us_drop u s = px_drop (proxy_new (us_stream_id u) (us_chan u)) s"
  by (simp add: us_drop_def px_drop_def proxy_new_def)

subsection \<open>Streams do not interfere\<close>

datatype client_event = Incoming frame | Opened u32 | Polled u32 | Dropped u32 nat bool

fun client_step :: "(bytes \<Rightarrow> bytes) \<Rightarrow> client_event \<Rightarrow> anytls_session \<Rightarrow> anytls_session option" where
  "client_step md5_hex (Incoming f) s =
     (case read_frame_step md5_hex f s of (Continue, s') \<Rightarrow> Some s' | _ \<Rightarrow> None)"
| "client_step md5_hex (Opened sid) s =
     (if as_next_stream_id s = sid then Some (snd (register_stream sid (snd (next_stream_id s)))) else None)"
| "client_step md5_hex (Polled sid) s =
     (case fmlookup (as_streams s) sid of None \<Rightarrow> Some s | Some c \<Rightarrow> Some (snd (poll_recv c s)))"
| "client_step md5_hex (Dropped sid c fin_sent) s =
     (if fmlookup (as_streams s) sid = Some c \<or> c |\<notin>| fmran (as_streams s)
      then Some (px_drop (proxy_new sid c\<lparr>px_fin_sent := fin_sent\<rparr>) s) else None)"

fun client_owner :: "client_event \<Rightarrow> u32 option" where
  "client_owner (Incoming (cmd, sid, data)) = Some sid"
| "client_owner (Opened sid) = Some sid"
| "client_owner (Polled sid) = Some sid"
| "client_owner (Dropped sid _ _) = Some sid"

definition client_view :: "u32 \<Rightarrow> anytls_session \<Rightarrow> stream_event chan option" where
  "client_view sid s = map_option ((!) (as_chans s)) (fmlookup (as_streams s) sid)"

fun client_own :: "client_event \<Rightarrow> stream_event chan option \<Rightarrow> stream_event chan option option" where
  "client_own (Incoming (cmd, sid, data)) v =
     (case cmd of
        Psh \<Rightarrow>
          (case v of None \<Rightarrow> Some None
           | Some ch \<Rightarrow>
               (case try_send (SData data) ch of
                  (SendOk, ch') \<Rightarrow> Some (Some ch') | (SendFull, _) \<Rightarrow> None | (SendClosed, _) \<Rightarrow> Some None))
      | Fin \<Rightarrow> Some None
      | SynAck \<Rightarrow> Some (if data = [] then v else None)
      | Alert \<Rightarrow> None
      | _ \<Rightarrow> Some v)"
| "client_own (Opened _) v = Some (Some (channel STREAM_QUEUE_CAPACITY))"
| "client_own (Polled _) v = Some (map_option (\<lambda>ch. snd (try_recv ch)) v)"
| "client_own (Dropped _ _ _) v = Some None"

text \<open>Every registered stream has a channel of its own.\<close>

definition client_inv :: "anytls_session \<Rightarrow> bool" where
  "client_inv s \<longleftrightarrow>
     (\<forall>sid c. fmlookup (as_streams s) sid = Some c \<longrightarrow> c < length (as_chans s)) \<and>
     (\<forall>sid sid' c. fmlookup (as_streams s) sid = Some c \<and> fmlookup (as_streams s) sid' = Some c \<longrightarrow> sid = sid')"

lemma client_view_other [simp]:
  "client_view sid (count_packet s) = client_view sid s"
  "client_view sid (as_queue f s) = client_view sid s"
  "client_view sid (s\<lparr>as_write := w\<rparr>) = client_view sid s"
  "client_view sid (s\<lparr>as_server_version := v\<rparr>) = client_view sid s"
  "client_view sid (s\<lparr>as_next_stream_id := n\<rparr>) = client_view sid s"
  by (simp_all add: client_view_def count_packet_def as_queue_def)

lemma client_inv_other [simp]:
  "client_inv (count_packet s) = client_inv s"
  "client_inv (as_queue f s) = client_inv s"
  "client_inv (s\<lparr>as_write := w\<rparr>) = client_inv s"
  "client_inv (s\<lparr>as_server_version := v\<rparr>) = client_inv s"
  "client_inv (s\<lparr>as_next_stream_id := n\<rparr>) = client_inv s"
  "client_inv (upd_chan c ch s) = client_inv s"
  by (simp_all add: client_inv_def count_packet_def as_queue_def upd_chan_def)

lemma inv_drop [simp]: "client_inv s \<Longrightarrow> client_inv (s\<lparr>as_streams := fmdrop sid (as_streams s)\<rparr>)"
  by (auto simp: client_inv_def split: if_splits)

lemma view_drop [simp]:
  "client_view k (s\<lparr>as_streams := fmdrop sid (as_streams s)\<rparr>) = (if k = sid then None else client_view k s)"
  by (simp add: client_view_def)

lemma view_upd_chan:
  assumes "client_inv s" and "fmlookup (as_streams s) sid = Some c"
  shows "client_view k (upd_chan c ch s) = (if k = sid then Some ch else client_view k s)"
  using assms
  by (cases "fmlookup (as_streams s) k") (auto simp: client_view_def upd_chan_def client_inv_def nth_list_update)

lemma view_upd_free:
  assumes "c |\<notin>| fmran (as_streams s)"
  shows "client_view k (upd_chan c ch s) = client_view k s"
  using assms
  by (cases "fmlookup (as_streams s) k") (auto simp: client_view_def upd_chan_def fmlookup_ran_iff,
      metis nth_list_update_neq)

lemma view_remove_with [simp]:
  assumes "client_inv s"
  shows "client_view k (remove_with sid ev s) = (if k = sid then None else client_view k s)"
proof (cases "fmlookup (as_streams s) sid")
  case None
  then show ?thesis by (auto simp: remove_with_def client_view_def)
next
  case (Some c)
  with assms have "c |\<notin>| fmran (as_streams (s\<lparr>as_streams := fmdrop sid (as_streams s)\<rparr>))"
    by (auto simp: client_inv_def fmlookup_ran_iff split: if_splits)
  with Some show ?thesis by (simp add: remove_with_def view_upd_free)
qed

lemma inv_remove_with [simp]: "client_inv s \<Longrightarrow> client_inv (remove_with sid ev s)"
  by (simp add: remove_with_def split: option.split)

lemma inv_unregister [simp]: "client_inv s \<Longrightarrow> client_inv (unregister_stream sid s)"
  by (simp add: unregister_stream_def finish_def Let_def) (simp add: client_inv_def)

lemma streams_unregister [simp]: "as_streams (unregister_stream sid s) = fmdrop sid (as_streams s)"
  by (simp add: unregister_stream_def finish_def Let_def)

lemma view_unregister [simp]:
  "client_view k (unregister_stream sid s) = (if k = sid then None else client_view k s)"
  by (simp add: client_view_def) (simp add: unregister_stream_def finish_def Let_def)

lemma view_register:
  assumes "client_inv s"
  shows "client_view k (snd (register_stream sid s)) =
    (if k = sid then Some (channel STREAM_QUEUE_CAPACITY) else client_view k s)"
  using assms
  by (cases "fmlookup (as_streams s) k") (auto simp: client_view_def register_stream_def client_inv_def nth_append)

lemma inv_register: "client_inv s \<Longrightarrow> client_inv (snd (register_stream sid s))"
  by (auto simp: client_inv_def register_stream_def less_Suc_eq split: if_splits)

lemma view_px_drop:
  assumes "client_inv s" and "fmlookup (as_streams s) (px_stream_id p) = Some (px_chan p) \<or> px_chan p |\<notin>| fmran (as_streams s)"
  shows "client_view k (px_drop p s) = (if k = px_stream_id p then None else client_view k s)"
proof -
  let ?s = "if px_fin_sent p then s else as_queue (Fin, px_stream_id p, []) s"
  have "as_streams ?s = as_streams s" by (simp add: as_queue_def)
  with assms have "px_chan p |\<notin>| fmran (as_streams (unregister_stream (px_stream_id p) ?s))"
    by (auto simp: fmlookup_ran_iff client_inv_def split: if_splits)
  then show ?thesis by (simp add: px_drop_def Let_def view_upd_free)
qed

lemma inv_px_drop: "client_inv s \<Longrightarrow> client_inv (px_drop p s)"
  by (simp add: px_drop_def Let_def)

lemma client_frame_step:
  assumes "client_inv s" and "read_frame_step md5_hex (cmd, sid, data) s = (Continue, s')"
  shows "client_inv s' \<and> client_own (Incoming (cmd, sid, data)) (client_view sid s) = Some (client_view sid s') \<and>
    (k \<noteq> sid \<longrightarrow> client_view k s' = client_view k s)"
proof (cases cmd)
  case Psh
  show ?thesis
  proof (cases "fmlookup (as_streams s) sid")
    case None
    then have "client_view sid s = None" by (simp add: client_view_def)
    with None Psh assms show ?thesis by (auto simp: read_frame_step_def)
  next
    case (Some c)
    then have "client_view sid s = Some (as_chans s ! c)" by (simp add: client_view_def)
    with Some Psh assms show ?thesis
      by (auto simp: read_frame_step_def view_upd_chan split: try_send_result.splits prod.splits)
  qed
qed (use assms in \<open>auto simp: read_frame_step_def split: sum.splits option.splits if_splits\<close>)

interpretation client_streams: demultiplexer "client_step md5_hex" client_inv client_owner client_view client_own
  for md5_hex
proof unfold_locales
  fix s e s' k
  assume inv: "client_inv s" and st: "client_step md5_hex e s = Some s'"
  have "client_inv s' \<and> (\<forall>k. client_owner e = Some k \<longrightarrow> client_own e (client_view k s) = Some (client_view k s')) \<and>
      (\<forall>k. client_owner e \<noteq> Some k \<longrightarrow> client_view k s' = client_view k s)"
  proof (cases e)
    case (Incoming f)
    obtain cmd sid data where f: "f = (cmd, sid, data)" by (cases f)
    with Incoming st have "read_frame_step md5_hex (cmd, sid, data) s = (Continue, s')"
      by (auto split: prod.splits read_outcome.splits)
    from client_frame_step [OF inv this] show ?thesis by (auto simp: Incoming f)
  next
    case (Opened sid)
    with st inv show ?thesis
      by (auto simp: next_stream_id_def view_register inv_register split: if_splits)
  next
    case (Polled sid)
    show ?thesis
    proof (cases "fmlookup (as_streams s) sid")
      case None
      then have "client_view sid s = None" by (simp add: client_view_def)
      with None Polled st inv show ?thesis by auto
    next
      case (Some c)
      then have v: "client_view sid s = Some (as_chans s ! c)" by (simp add: client_view_def)
      show ?thesis
      proof (cases "ch_items (as_chans s ! c)")
        case Nil
        with Some Polled st inv v show ?thesis by (auto simp: poll_recv_def try_recv_def)
      next
        case (Cons ev evs)
        with Some Polled st inv v show ?thesis by (auto simp: poll_recv_def try_recv_def view_upd_chan)
      qed
    qed
  next
    case (Dropped sid c fin_sent)
    with st inv show ?thesis
      by (auto simp: view_px_drop inv_px_drop proxy_new_def split: if_splits)
  qed
  then show "client_inv s'" and "client_owner e = Some k \<Longrightarrow> client_own e (client_view k s) = Some (client_view k s')"
    and "client_owner e \<noteq> Some k \<Longrightarrow> client_view k s' = client_view k s"
    by blast+
qed

subsection \<open>Reading a stream to its end\<close>

text \<open>Polls with destination buffers of the given sizes: what each of them returned.\<close>

fun px_reads :: "nat list \<Rightarrow> proxy_stream \<times> anytls_session \<Rightarrow> (read_poll \<times> bytes) list \<times> proxy_stream \<times> anytls_session" where
  "px_reads [] ps = ([], ps)"
| "px_reads (n # ns) ps =
     (case px_poll_read \<lparr>rb_filled = [], rb_capacity = n\<rparr> ps of (r, buf, ps1) \<Rightarrow>
      case px_reads ns ps1 of (rs, ps2) \<Rightarrow> ((r, rb_filled buf) # rs, ps2))"

text \<open>The data still to be read, of a stream whose sender is gone.\<close>

definition px_holds :: "bytes list \<Rightarrow> proxy_stream \<times> anytls_session \<Rightarrow> bool" where
  "px_holds ds = (\<lambda>(p, s). px_chan p |\<notin>| fmran (as_streams s) \<and> px_chan p < length (as_chans s) \<and>
     list_all (\<lambda>d. d \<noteq> []) ds \<and>
     (if px_fin_received p then ds = []
      else ch_items (as_chans s ! px_chan p) \<in> {map SData ds, map SData ds @ [SFin]}))"

lemma px_holds_buffer [simp]: "px_holds ds (p\<lparr>px_read_buffer := b\<rparr>, s) = px_holds ds (p, s)"
  by (simp add: px_holds_def cong: if_cong)

lemma copy_to_fresh:
  "0 < n \<Longrightarrow> pending \<noteq> [] \<Longrightarrow>
     copy_to pending \<lparr>rb_filled = [], rb_capacity = n\<rparr> =
       (True, drop n pending, \<lparr>rb_filled = take n pending, rb_capacity = n\<rparr>)"
  by (auto simp: copy_to_def rb_remaining_def put_slice_def Let_def min_def)

lemma copy_to_empty [simp]: "copy_to [] dst = (False, [], dst)"
  by (simp add: copy_to_def)

lemma px_read_step:
  assumes "px_holds ds (p, s)" and "0 < n"
  obtains out p' s' ds' where
    "px_poll_read \<lparr>rb_filled = [], rb_capacity = n\<rparr> (p, s) = (ReadOk, \<lparr>rb_filled = out, rb_capacity = n\<rparr>, p', s')"
    and "px_holds ds' (p', s')" and "out @ px_read_buffer p' @ concat ds' = px_read_buffer p @ concat ds"
    and "out = [] \<longleftrightarrow> px_read_buffer p @ concat ds = []"
proof (cases "px_read_buffer p = []")
  case False
  with assms that [of "take n (px_read_buffer p)" "p\<lparr>px_read_buffer := drop n (px_read_buffer p)\<rparr>" s ds]
  show ?thesis by (simp add: px_poll_read_def copy_to_fresh)
next
  case empty: True
  show ?thesis
  proof (cases "px_fin_received p")
    case True
    with empty assms that [of "[]" p s ds] show ?thesis
      by (auto simp: px_poll_read_def px_holds_def)
  next
    case open_end: False
    let ?c = "px_chan p"
    let ?items = "ch_items (as_chans s ! ?c)"
    from assms open_end have c: "?c |\<notin>| fmran (as_streams s)" "?c < length (as_chans s)" "list_all (\<lambda>d. d \<noteq> []) ds"
      and it: "?items = map SData ds \<or> ?items = map SData ds @ [SFin]"
      by (auto simp: px_holds_def)
    note defs = px_poll_read_def px_holds_def poll_recv_def try_recv_def empty open_end upd_chan_def
    show ?thesis
    proof (cases ds)
      case Nil
      show ?thesis
      proof (cases "?items = []")
        case True
        with c Nil that [of "[]" "p\<lparr>px_fin_received := True\<rparr>" s "[]"] show ?thesis by (simp add: defs)
      next
        case False
        with it Nil have "?items = [SFin]" by simp
        with c Nil that [of "[]" "p\<lparr>px_fin_received := True\<rparr>" "upd_chan ?c ((as_chans s ! ?c)\<lparr>ch_items := []\<rparr>) s" "[]"]
        show ?thesis by (simp add: defs)
      qed
    next
      case (Cons d ds')
      let ?s = "upd_chan ?c ((as_chans s ! ?c)\<lparr>ch_items := tl ?items\<rparr>) s"
      from Cons c have d: "d \<noteq> []" by simp
      from it Cons obtain rest where items: "?items = SData d # rest" "rest \<in> {map SData ds', map SData ds' @ [SFin]}"
        by auto
      with c Cons d assms(2) that [of "take n d" "p\<lparr>px_read_buffer := drop n d\<rparr>" ?s ds'] show ?thesis
        by (auto simp: defs copy_from_def copy_to_fresh)
    qed
  qed
qed

lemma px_reads_all:
  assumes "px_holds ds (p, s)" and "list_all (\<lambda>n. 0 < n) ns"
  shows "\<exists>outs st'. px_reads ns (p, s) = (map (Pair ReadOk) outs, st') \<and>
    (\<exists>rest. concat outs @ rest = px_read_buffer p @ concat ds \<and>
      (length (px_read_buffer p @ concat ds) < length ns \<longrightarrow> rest = [] \<and> last outs = []))"
  using assms
proof (induction ns arbitrary: ds p s)
  case Nil
  then show ?case by simp
next
  case (Cons n ns)
  from Cons.prems obtain out p' s' ds' where st:
    "px_poll_read \<lparr>rb_filled = [], rb_capacity = n\<rparr> (p, s) = (ReadOk, \<lparr>rb_filled = out, rb_capacity = n\<rparr>, p', s')"
    "px_holds ds' (p', s')" "out @ px_read_buffer p' @ concat ds' = px_read_buffer p @ concat ds"
    "out = [] \<longleftrightarrow> px_read_buffer p @ concat ds = []"
  proof -
    from Cons.prems(2) have "0 < n" by simp
    with Cons.prems(1) show thesis by (rule px_read_step) (rule that)
  qed
  let ?b = "px_read_buffer p @ concat ds" and ?b' = "px_read_buffer p' @ concat ds'"
  from Cons.IH [OF st(2)] Cons.prems(2) obtain outs st' rest where ih:
    "px_reads ns (p', s') = (map (Pair ReadOk) outs, st')" "concat outs @ rest = ?b'"
    "length ?b' < length ns \<longrightarrow> rest = [] \<and> last outs = []"
    by auto
  have len: "length outs = length ns" using ih(1)
    by (induction ns "(p', s')" arbitrary: outs p' s' rule: px_reads.induct) (auto split: prod.splits)
  have "rest = [] \<and> last (out # outs) = []" if l: "length ?b < length (n # ns)"
  proof (cases "out = []")
    case True
    with st(3,4) have "?b' = []" by simp
    with ih(2) have "concat outs = []" "rest = []" by auto
    then show ?thesis using True by (cases outs) (auto dest: last_in_set)
  next
    case False
    then have "length ?b' < length ?b" using arg_cong [OF st(3), of length] by (cases out) simp_all
    with l have "length ?b' < length ns" by simp
    with ih(3) len show ?thesis by (cases outs) auto
  qed
  moreover have "concat (out # outs) @ rest = ?b" using ih(2) st(3) by simp
  moreover have "px_reads (n # ns) (p, s) = (map (Pair ReadOk) (out # outs), st')" using st(1) ih(1) by simp
  ultimately show ?case by blast
qed

lemma own_pushes:
  assumes "length (ch_items ch) + length ds \<le> STREAM_QUEUE_CAPACITY" and "ch_cap ch = STREAM_QUEUE_CAPACITY" and "\<not> ch_closed ch"
  shows "run_all client_own (map (\<lambda>d. Incoming (Psh, sid, d)) ds) (Some ch) =
    Some (Some (ch\<lparr>ch_items := ch_items ch @ map SData ds\<rparr>))"
  using assms by (induction ds arbitrary: ch) (simp_all add: try_send_def)

lemma fin_holds:
  assumes "client_inv s" and "fmlookup (as_streams s) sid = Some c" and "ch_items (as_chans s ! c) = map SData ds"
    and "list_all (\<lambda>d. d \<noteq> []) ds"
  shows "px_holds ds (proxy_new sid c, remove_with sid SFin s)"
proof -
  have "c < length (as_chans s)" using assms(1,2) by (simp add: client_inv_def)
  moreover have "c |\<notin>| fmran (fmdrop sid (as_streams s))"
    using assms(1,2) by (auto simp: client_inv_def fmlookup_ran_iff split: if_splits)
  ultimately show ?thesis using assms(2-4)
    by (auto simp: px_holds_def remove_with_def proxy_new_def upd_chan_def try_send_def)
qed

lemma px_holds_count [simp]: "px_holds ds (p, count_packet s) = px_holds ds (p, s)"
  by (simp add: px_holds_def count_packet_def)

subsection \<open>Properties\<close>

text \<open>C9. Streams of a client session do not interfere. Over any interleaving of incoming frames,
  streams being opened, read and dropped, what the channel of one stream holds is
  determined by the events of that stream alone: it is what the stream would hold if it
  were the only one.\<close>

theorem client_stream_isolation:
  assumes "client_inv s" and "run_all (client_step md5_hex) es s = Some s'"
  shows "run_all client_own (filter (\<lambda>e. client_owner e = Some sid) es) (client_view sid s) =
    Some (client_view sid s')"
  using assms by (rule client_streams.projection)

definition sample_session :: anytls_session where
  "sample_session = \<lparr>as_streams = fmempty, as_chans = [], as_write = write_loop_new sample_scheme,
     as_next_stream_id = 1, as_server_version = 1, as_is_dead = False, as_closed = False, as_close_when_idle = False\<rparr>"

definition sample_incoming :: "client_event list" where
  "sample_incoming = [Opened 1, Opened 2, Incoming (Psh, 2, [7]), Incoming (Psh, 1, [8]), Incoming (Waste, 1, []),
     Incoming (Fin, 2, []), Incoming (Psh, 1, [9])]"

lemma sample_inv: "client_inv sample_session"
  by (simp add: client_inv_def sample_session_def)

lemma sample_client_run: "\<exists>s'. run_all (client_step md5_hex) sample_incoming sample_session = Some s'"
  by (simp add: sample_incoming_def sample_session_def next_stream_id_def register_stream_def read_frame_step_def
      count_packet_def upd_chan_def remove_with_def try_send_def channel_def STREAM_QUEUE_CAPACITY_def)

theorem client_stream_isolation_witness:
  "\<exists>s'. run_all client_own (filter (\<lambda>e. client_owner e = Some 1) sample_incoming) (client_view 1 sample_session) =
     Some (client_view 1 s')"
  using sample_client_run client_stream_isolation [OF sample_inv] by blast

text \<open>C12. A stream reads exactly what was sent to it, then the end. If the server pushes at most 16
  non-empty chunks on a stream and then finishes it, interleaved in any way with the events
  of other streams, reading the stream with buffers of any positive sizes returns the
  chunks' bytes in order, and after enough reads the end of the stream, even when the
  queue had no room for the final event.\<close>

theorem stream_read_to_end:
  assumes "client_inv s0" and "run_all (client_step md5_hex) es s0 = Some s1"
    and "filter (\<lambda>e. client_owner e = Some sid) es = Opened sid # map (\<lambda>d. Incoming (Psh, sid, d)) ds"
    and "length ds \<le> STREAM_QUEUE_CAPACITY" and "list_all (\<lambda>d. d \<noteq> []) ds"
    and "read_frame_step md5_hex (Fin, sid, data) s1 = (Continue, s2)"
    and "list_all (\<lambda>n. 0 < n) ns" and "length (concat ds) < length ns"
  shows "\<exists>c outs st'. fmlookup (as_streams s1) sid = Some c \<and>
    px_reads ns (proxy_new sid c, s2) = (map (Pair ReadOk) outs, st') \<and> concat outs = concat ds \<and> last outs = []"
proof -
  have "run_all client_own (filter (\<lambda>e. client_owner e = Some sid) es) (client_view sid s0) = Some (client_view sid s1)"
    using assms(1,2) by (rule client_streams.projection)
  then have v: "client_view sid s1 = Some ((channel STREAM_QUEUE_CAPACITY)\<lparr>ch_items := map SData ds\<rparr>)"
    unfolding assms(3) using own_pushes [of "channel STREAM_QUEUE_CAPACITY" ds sid] assms(4)
    by (simp add: channel_def)
  then obtain c where c: "fmlookup (as_streams s1) sid = Some c" "ch_items (as_chans s1 ! c) = map SData ds"
    by (auto simp: client_view_def)
  have "client_inv s1" using assms(1,2) by (rule client_streams.run_inv)
  then have "px_holds ds (proxy_new sid c, s2)"
    using fin_holds [OF _ c assms(5)] assms(6) by (auto simp: read_frame_step_def)
  from px_reads_all [OF this assms(7)] assms(8) c(1) show ?thesis by (auto simp: proxy_new_def)
qed

definition sample_pushes :: "client_event list" where
  "sample_pushes = [Opened 1, Opened 2, Incoming (Psh, 2, [7]), Incoming (Psh, 1, [8, 9]), Incoming (Fin, 2, []),
     Incoming (Psh, 1, [3])]"

theorem stream_read_to_end_witness:
  "\<exists>s1 s2 c outs st'. run_all (client_step (\<lambda>_. [])) sample_pushes sample_session = Some s1 \<and>
     read_frame_step (\<lambda>_. []) (Fin, 1, []) s1 = (Continue, s2) \<and>
     px_reads [1, 5, 1, 1] (proxy_new 1 c, s2) = (map (Pair ReadOk) outs, st') \<and>
     concat outs = [8, 9, 3] \<and> last outs = []"
proof -
  obtain s1 where s1: "run_all (client_step (\<lambda>_. [])) sample_pushes sample_session = Some s1"
    by (simp add: sample_pushes_def sample_session_def next_stream_id_def register_stream_def read_frame_step_def
      count_packet_def upd_chan_def remove_with_def try_send_def channel_def STREAM_QUEUE_CAPACITY_def)
  obtain s2 where s2: "read_frame_step (\<lambda>_. []) (Fin, 1, []) s1 = (Continue, s2)"
    by (simp add: read_frame_step_def)
  have "filter (\<lambda>e. client_owner e = Some 1) sample_pushes = Opened 1 # map (\<lambda>d. Incoming (Psh, 1, d)) [[8, 9], [3]]"
    by (simp add: sample_pushes_def)
  from stream_read_to_end [OF sample_inv s1 this _ _ s2, of "[1, 5, 1, 1]"] s1 s2 show ?thesis
    by (auto simp: STREAM_QUEUE_CAPACITY_def)
qed

end
