(* ===== verification/Anytls_Server.thy ===== *)
theory Anytls_Server
  imports Anytls_Client Bound_Config
begin

text \<open>
  An AnyTLS server session (\<open>src/src/proxy/inbound/anytls.rs\<close>): the authentication header, the
  settings exchange, the life of a stream from its \<open>Syn\<close> over the target address to relayed
  data, UDP-over-TCP requests, the relayed streams and the user list.
  The hash of a password is the parameter \<open>sha256\<close>; the observer's user table is the
  parameter \<open>observer\<close>; what the router does with a request is outside, so a session records
  the tasks it spawns for its streams, and the task of a UDP stream yields the request it dispatches.
  The lemmas interpret the demultiplexer contract for the server and connect both ends:
  what a client sends on a stream, through padding and batching, is what the server's
  stream reads.
\<close>

subsection \<open>Target addresses of streams\<close>

datatype syn_error =
    EmptySyn | SynV4TooShort | SynDomainTooShort | SynInvalidDomain | SynV6TooShort | SynUnsupportedAtyp u8 | SynPanic

definition parse_target_from_syn :: "bytes \<Rightarrow> syn_error + target_addr" where
  "parse_target_from_syn data =
     (case data of [] \<Rightarrow> Inl EmptySyn | atyp # _ \<Rightarrow>
      if atyp = 1 then
        (if length data < 7 then Inl SynV4TooShort
         else Inr (Ip (SockV4 (from_be (slice data 1 5)) (port_at data 5))))
      else if atyp = 3 then
        (if length data < 2 then Inl SynPanic
         else
           let domain_len = unat (data ! 1) in
           if length data < 2 + domain_len + 2 then Inl SynDomainTooShort
           else case from_utf8 (slice data 2 (2 + domain_len)) of
             None \<Rightarrow> Inl SynInvalidDomain
           | Some domain \<Rightarrow> Inr (Domain domain (port_at data (2 + domain_len))))
      else if atyp = 4 then
        (if length data < 19 then Inl SynV6TooShort
         else Inr (Ip (SockV6 (from_be (slice data 1 17)) (port_at data 17) 0 0)))
      else Inl (SynUnsupportedAtyp atyp))"

definition parse_version :: "bytes \<Rightarrow> u8" where
  "parse_version data =
     (case find (\<lambda>l. case split_once 0x3D l of Some (k, v) \<Rightarrow> trim k = str ''v'' | None \<Rightarrow> False)
        (str_lines (from_utf8_lossy data)) of
        None \<Rightarrow> 1
      | Some l \<Rightarrow> (case parse_uint 255 (trim (snd (the (split_once 0x3D l)))) of None \<Rightarrow> 1 | Some v \<Rightarrow> of_nat v))"

subsection \<open>Opening a session\<close>

datatype session_error = SessionEof | AuthFailed | NotSettings bytes | SessionFrame frame_error

definition anytls_auth :: "(bytes \<Rightarrow> bytes) \<Rightarrow> (bytes \<Rightarrow> bytes option) \<Rightarrow> auth_user list \<Rightarrow> bytes \<Rightarrow> bytes option option" where
  "anytls_auth sha256 observer users auth_buf =
     (let user = observer auth_buf;
          local_ok = list_ex (\<lambda>u. sha256 (au_password u) = auth_buf) users
      in if user = None \<and> \<not> local_ok then None else Some user)"

fun command_debug :: "command \<Rightarrow> bytes" where
  "command_debug Waste = str ''Waste''"
| "command_debug Syn = str ''Syn''"
| "command_debug Psh = str ''Psh''"
| "command_debug Fin = str ''Fin''"
| "command_debug Settings = str ''Settings''"
| "command_debug Alert = str ''Alert''"
| "command_debug UpdatePaddingScheme = str ''UpdatePaddingScheme''"
| "command_debug SynAck = str ''SynAck''"
| "command_debug HeartRequest = str ''HeartRequest''"
| "command_debug HeartResponse = str ''HeartResponse''"
| "command_debug ServerSettings = str ''ServerSettings''"

definition settings_alert :: "command \<Rightarrow> bytes" where
  "settings_alert cmd = str ''expected cmdSettings, got cmd='' @ command_debug cmd"

text \<open>\<open>InboundSession::new\<close> up to the read loop, on the bytes the client sends: the authenticated
  user, the bytes sent back, and the bytes left for the read loop. A first frame that is not
  \<open>Settings\<close> is answered with an alert.\<close>

definition inbound_session_new ::
    "(bytes \<Rightarrow> bytes) \<Rightarrow> (bytes \<Rightarrow> bytes option) \<Rightarrow> auth_user list \<Rightarrow> bytes \<Rightarrow>
     session_error + bytes option \<times> bytes \<times> bytes" where
  "inbound_session_new sha256 observer users s0 =
     (case read_exact 32 s0 of None \<Rightarrow> Inl SessionEof | Some (auth_buf, s1) \<Rightarrow>
      case anytls_auth sha256 observer users auth_buf of None \<Rightarrow> Inl AuthFailed | Some user \<Rightarrow>
      case read_be 2 s1 of None \<Rightarrow> Inl SessionEof | Some (padding0_len :: u16, s2) \<Rightarrow>
      case (if padding0_len > 0 then read_exact (unat padding0_len) s2 else Some ([], s2)) of
        None \<Rightarrow> Inl SessionEof
      | Some (_, s3) \<Rightarrow>
          (case read_frame s3 of
             Inl e \<Rightarrow> Inl (SessionFrame e)
           | Inr ((cmd, _, sd), s4) \<Rightarrow>
               if cmd \<noteq> Settings then Inl (NotSettings (frame_enc (Alert, 0, settings_alert cmd)))
               else Inr (user,
                 (if parse_version sd \<ge> 2
                  then frame_enc (ServerSettings, 0, str ''v='' @ show_nat PROTOCOL_VERSION @ [0x0A]) else []),
                 s4)))"

subsection \<open>The session's streams\<close>

datatype stream_state = StPending | StWaitingUotRequest target_addr | StActive nat

text \<open>The tasks spawned for streams: one that dispatches a TCP request at once, and one that serves
  UDP packets over the stream, \<open>uot_task\<close> below, which decides on the request it makes.\<close>

datatype stream_task = TcpRequest target_addr | UotTask bool target_addr

record inbound_session =
  ib_streams :: "(u32, stream_state) fmap"
  ib_chans :: "bytes chan list"
  ib_write :: "frame chan"
  ib_tasks :: "(u32 \<times> stream_task) list"

definition inbound_new :: inbound_session where
  "inbound_new = \<lparr>ib_streams = fmempty, ib_chans = [], ib_write = channel SESSION_QUEUE_CAPACITY, ib_tasks = []\<rparr>"

definition ib_try_send :: "frame \<Rightarrow> inbound_session \<Rightarrow> inbound_session" where
  "ib_try_send f s = s\<lparr>ib_write := snd (try_send f (ib_write s))\<rparr>"

definition ib_put :: "u32 \<Rightarrow> stream_state \<Rightarrow> inbound_session \<Rightarrow> inbound_session" where
  "ib_put sid st s = s\<lparr>ib_streams := fmupd sid st (ib_streams s)\<rparr>"

definition ib_remove :: "u32 \<Rightarrow> inbound_session \<Rightarrow> inbound_session" where
  "ib_remove sid s = s\<lparr>ib_streams := fmdrop sid (ib_streams s)\<rparr>"

definition ib_upd_chan :: "nat \<Rightarrow> bytes chan \<Rightarrow> inbound_session \<Rightarrow> inbound_session" where
  "ib_upd_chan c ch s = s\<lparr>ib_chans := (ib_chans s)[c := ch]\<rparr>"

text \<open>A new channel for the stream, and the task spawned for it.\<close>

definition ib_activate :: "u32 \<Rightarrow> bytes chan \<Rightarrow> stream_task \<Rightarrow> inbound_session \<Rightarrow> inbound_session" where
  "ib_activate sid ch r s =
     s\<lparr>ib_chans := ib_chans s @ [ch], ib_streams := fmupd sid (StActive (length (ib_chans s))) (ib_streams s),
       ib_tasks := ib_tasks s @ [(sid, r)]\<rparr>"

definition handle_target :: "u32 \<Rightarrow> target_addr \<Rightarrow> inbound_session \<Rightarrow> inbound_session" where
  "handle_target sid target s = ib_activate sid (channel STREAM_QUEUE_CAPACITY) (TcpRequest target) s"

definition reject :: "u32 \<Rightarrow> inbound_session \<Rightarrow> inbound_session" where
  "reject sid s = ib_remove sid (ib_try_send (Fin, sid, []) s)"

definition uot_channel :: "bytes \<Rightarrow> bytes chan" where
  "uot_channel remaining =
     (if remaining = [] then channel STREAM_QUEUE_CAPACITY
      else snd (try_send remaining (channel STREAM_QUEUE_CAPACITY)))"

definition handle_uot_request :: "u32 \<Rightarrow> bytes \<Rightarrow> inbound_session \<Rightarrow> inbound_session" where
  "handle_uot_request sid data s =
     (case data of [] \<Rightarrow> reject sid s | b # rest \<Rightarrow>
      case read_from rest of
        Inl e \<Rightarrow> reject sid s
      | Inr (real_target, remaining) \<Rightarrow>
          ib_activate sid (uot_channel remaining) (UotTask (b \<noteq> 0) real_target) s)"

definition is_uot_target :: "target_addr \<Rightarrow> bool" where
  "is_uot_target t = (case t of Domain d _ \<Rightarrow> d = UDP_OVER_TCP_TARGET | Ip _ \<Rightarrow> False)"

datatype serve_outcome = ServeContinue | ServeBlocked | ServeEnded | ServePanic

definition server_frame :: "frame \<Rightarrow> inbound_session \<Rightarrow> serve_outcome \<times> inbound_session" where
  "server_frame = (\<lambda>(cmd, sid, data) s.
     (case cmd of
        Syn \<Rightarrow> (ServeContinue, ib_try_send (SynAck, sid, []) (ib_put sid StPending s))
      | Psh \<Rightarrow>
          (case fmlookup (ib_streams s) sid of
             Some StPending \<Rightarrow>
               (case parse_target_from_syn data of
                  Inl SynPanic \<Rightarrow> (ServePanic, s)
                | Inl e \<Rightarrow> (ServeContinue, reject sid s)
                | Inr target \<Rightarrow>
                    (ServeContinue,
                     if is_uot_target target then ib_put sid (StWaitingUotRequest target) s
                     else handle_target sid target s))
           | Some (StWaitingUotRequest _) \<Rightarrow> (ServeContinue, handle_uot_request sid data s)
           | Some (StActive c) \<Rightarrow>
               (case try_send data (ib_chans s ! c) of
                  (SendOk, ch) \<Rightarrow> (ServeContinue, ib_upd_chan c ch s)
                | (SendFull, _) \<Rightarrow> (ServeBlocked, s)
                | (SendClosed, _) \<Rightarrow> (ServeContinue, ib_remove sid s))
           | None \<Rightarrow> (ServeContinue, s))
      | Fin \<Rightarrow> (ServeContinue, ib_remove sid s)
      | HeartRequest \<Rightarrow> (ServeContinue, ib_try_send (HeartResponse, 0, []) s)
      | Alert \<Rightarrow> (ServeEnded, s)
      | _ \<Rightarrow> (ServeContinue, s)))"

text \<open>The server's write loop sends every frame as it comes; a frame that cannot be encoded ends it.\<close>

fun ib_write_loop :: "frame list \<Rightarrow> bytes \<Rightarrow> bytes \<times> bool" where
  "ib_write_loop [] sent = (sent, True)"
| "ib_write_loop ((cmd, sid, data) # fs) sent =
     (case write_frame sent sid cmd data of Inl e \<Rightarrow> (sent, False) | Inr sent' \<Rightarrow> ib_write_loop fs sent')"

subsection \<open>Relayed streams\<close>

record inbound_stream =
  is_stream_id :: u32
  is_chan :: nat
  is_read_buffer :: bytes
  is_fin_sent :: bool

definition ib_poll_recv :: "nat \<Rightarrow> inbound_session \<Rightarrow> bytes recv_poll \<times> inbound_session" where
  "ib_poll_recv c s =
     (case try_recv (ib_chans s ! c) of
        (Some d, ch) \<Rightarrow> (RecvItem d, ib_upd_chan c ch s)
      | (None, ch) \<Rightarrow> (if StActive c |\<in>| fmran (ib_streams s) then RecvPending else RecvNone, s))"

definition is_poll_read ::
    "read_buf \<Rightarrow> inbound_stream \<times> inbound_session \<Rightarrow> read_poll \<times> read_buf \<times> inbound_stream \<times> inbound_session" where
  "is_poll_read buf = (\<lambda>(p, s).
     (case copy_to (is_read_buffer p) buf of
        (True, pending, buf') \<Rightarrow> (ReadOk, buf', p\<lparr>is_read_buffer := pending\<rparr>, s)
      | (False, _, _) \<Rightarrow>
          (case ib_poll_recv (is_chan p) s of
             (RecvItem data, s') \<Rightarrow>
               (case copy_from data buf of (pending, buf') \<Rightarrow> (ReadOk, buf', p\<lparr>is_read_buffer := pending\<rparr>, s'))
           | (RecvNone, s') \<Rightarrow> (ReadOk, buf, p, s')
           | (RecvPending, s') \<Rightarrow> (ReadPending, buf, p, s'))))"

definition is_poll_write :: "bytes \<Rightarrow> inbound_stream \<times> inbound_session \<Rightarrow> write_poll \<times> inbound_session" where
  "is_poll_write buf = (\<lambda>(p, s).
     if buf = [] then (WriteOk 0, s)
     else
       let len = min (length buf) 65535 in
       case try_send (Psh, is_stream_id p, take len buf) (ib_write s) of
         (SendOk, ch) \<Rightarrow> (WriteOk len, s\<lparr>ib_write := ch\<rparr>)
       | (SendFull, _) \<Rightarrow> (WritePending, s)
       | (SendClosed, _) \<Rightarrow> (WriteBrokenPipe, s))"

definition is_poll_shutdown :: "inbound_stream \<times> inbound_session \<Rightarrow> bool \<times> inbound_stream \<times> inbound_session" where
  "is_poll_shutdown = (\<lambda>(p, s).
     if is_fin_sent p then (True, p, s)
     else case try_send (Fin, is_stream_id p, []) (ib_write s) of
       (SendOk, ch) \<Rightarrow> (True, p\<lparr>is_fin_sent := True\<rparr>, s\<lparr>ib_write := ch\<rparr>)
     | (SendFull, _) \<Rightarrow> (False, p, s)
     | (SendClosed, _) \<Rightarrow> (True, p, s))"

definition is_drop :: "inbound_stream \<Rightarrow> inbound_session \<Rightarrow> inbound_session" where
  "is_drop p s =
     (let s1 = (if is_fin_sent p then s else ib_try_send (Fin, is_stream_id p, []) s);
          s2 = ib_remove (is_stream_id p) s1
      in ib_upd_chan (is_chan p) ((ib_chans s2 ! is_chan p)\<lparr>ch_closed := True\<rparr>) s2)"

text \<open>\<open>AnytlsInboundUdp\<close> on the data of its channel.\<close>

record inbound_udp =
  iu_stream_id :: u32
  iu_read_buf :: bytes
  iu_client_addr :: target_addr
  iu_is_connect :: bool
  iu_real_target :: target_addr

function iu_read_next_msg :: "inbound_udp \<times> bytes list \<Rightarrow> (uot_error + bytes option) \<times> inbound_udp \<times> bytes list" where
  "iu_read_next_msg (u, datas) =
     (case next_packet (iu_read_buf u) (iu_is_connect u) of
        Inl e \<Rightarrow> (Inl e, u, datas)
      | Inr (Some p, buf) \<Rightarrow> (Inr (Some p), u\<lparr>iu_read_buf := buf\<rparr>, datas)
      | Inr (None, buf) \<Rightarrow>
          (case datas of
             data # datas' \<Rightarrow> iu_read_next_msg (u\<lparr>iu_read_buf := uot_push buf data\<rparr>, datas')
           | [] \<Rightarrow> (Inr None, u\<lparr>iu_read_buf := buf\<rparr>, [])))"
  by pat_completeness auto
termination
  by (relation "measure (\<lambda>(u, datas). length datas)") auto

definition iu_recv_from :: "inbound_udp \<times> bytes list \<Rightarrow>
    (uot_error + (target_addr \<times> target_addr \<times> bytes) option) \<times> inbound_udp \<times> bytes list" where
  "iu_recv_from st =
     (case iu_read_next_msg st of
        (Inl e, u, datas) \<Rightarrow> (Inl e, u, datas)
      | (Inr None, u, datas) \<Rightarrow> (Inr None, u, datas)
      | (Inr (Some p), u, datas) \<Rightarrow>
          (bindr (decode_uot_packet p (iu_is_connect u)) (\<lambda>(t, payload).
             Inr (Some (iu_client_addr u, case t of None \<Rightarrow> iu_real_target u | Some t \<Rightarrow> t, payload))), u, datas))"

text \<open>The task \<open>handle_uot_request\<close> spawns, on the socket it made and the data its channel holds. In
  connect mode it dispatches the target of the header; otherwise it first receives a packet and
  dispatches that packet's target together with its payload. Without a packet there is no request:
  the task waits for more data, and returns when the channel is closed or the packet is malformed.\<close>

datatype uot_outcome = UotDispatch target_addr "bytes option" | UotNoPacket | UotError uot_error

definition iu_new :: "u32 \<Rightarrow> target_addr \<Rightarrow> bool \<Rightarrow> target_addr \<Rightarrow> inbound_udp" where
  "iu_new sid client_addr is_connect real_target =
     \<lparr>iu_stream_id = sid, iu_read_buf = [], iu_client_addr = client_addr, iu_is_connect = is_connect,
      iu_real_target = real_target\<rparr>"

definition uot_task :: "inbound_udp \<times> bytes list \<Rightarrow> uot_outcome \<times> inbound_udp \<times> bytes list" where
  "uot_task = (\<lambda>(u, datas).
     if iu_is_connect u then (UotDispatch (iu_real_target u) None, u, datas)
     else
       (case iu_recv_from (u, datas) of
          (Inr (Some (_, target, payload)), st) \<Rightarrow> (UotDispatch target (Some payload), st)
        | (Inr None, st) \<Rightarrow> (UotNoPacket, st)
        | (Inl e, st) \<Rightarrow> (UotError e, st)))"

definition iu_send_to :: "bytes \<Rightarrow> target_addr \<Rightarrow> inbound_udp \<Rightarrow> uot_error + frame \<times> nat" where
  "iu_send_to buf target u =
     bindr (encode_uot_packet buf (if iu_is_connect u then None else Some target))
       (\<lambda>packet. Inr ((Psh, iu_stream_id u, packet), length packet))"

definition iu_drop :: "inbound_udp \<Rightarrow> nat \<Rightarrow> inbound_session \<Rightarrow> inbound_session" where
  "iu_drop u c s =
     (let s1 = ib_remove (iu_stream_id u) (ib_try_send (Fin, iu_stream_id u, []) s)
      in ib_upd_chan c ((ib_chans s1 ! c)\<lparr>ch_closed := True\<rparr>) s1)"

lemma iu_drop_eq:
  "iu_drop u c s = is_drop \<lparr>is_stream_id = iu_stream_id u, is_chan = c, is_read_buffer = [], is_fin_sent = False\<rparr> s"
  by (simp add: iu_drop_def is_drop_def)

subsection \<open>Users\<close>

definition ai_add_user :: "auth_user \<Rightarrow> auth_user list \<Rightarrow> auth_user list" where
  "ai_add_user user users =
     (if list_ex (\<lambda>u. au_username u = au_username user) users
      then takeWhile (\<lambda>u. au_username u \<noteq> au_username user) users @
        (case dropWhile (\<lambda>u. au_username u \<noteq> au_username user) users of
           [] \<Rightarrow> [] | x # rest \<Rightarrow> x\<lparr>au_password := au_password user\<rparr> # rest)
      else users @ [user])"

definition ai_remove_user :: "bytes \<Rightarrow> auth_user list \<Rightarrow> auth_user list" where
  "ai_remove_user username users = filter (\<lambda>u. au_username u \<noteq> username) users"

subsection \<open>Streams do not interfere\<close>

datatype server_event = Received frame | ServerPolled u32 | ServerDropped u32 nat bool

fun server_step :: "server_event \<Rightarrow> inbound_session \<Rightarrow> inbound_session option" where
  "server_step (Received f) s = (case server_frame f s of (ServeContinue, s') \<Rightarrow> Some s' | _ \<Rightarrow> None)"
| "server_step (ServerPolled sid) s =
     (case fmlookup (ib_streams s) sid of Some (StActive c) \<Rightarrow> Some (snd (ib_poll_recv c s)) | _ \<Rightarrow> Some s)"
| "server_step (ServerDropped sid c fin_sent) s =
     (if fmlookup (ib_streams s) sid = Some (StActive c) \<or> StActive c |\<notin>| fmran (ib_streams s)
      then Some (is_drop \<lparr>is_stream_id = sid, is_chan = c, is_read_buffer = [], is_fin_sent = fin_sent\<rparr> s) else None)"

fun server_owner :: "server_event \<Rightarrow> u32 option" where
  "server_owner (Received (cmd, sid, data)) = Some sid"
| "server_owner (ServerPolled sid) = Some sid"
| "server_owner (ServerDropped sid _ _) = Some sid"

text \<open>One stream: its state with its channel, and the requests made on it.\<close>

datatype stream_view = VGone | VPending | VWaiting target_addr | VActive "bytes chan"

fun state_view :: "bytes chan list \<Rightarrow> stream_state option \<Rightarrow> stream_view" where
  "state_view chans None = VGone"
| "state_view chans (Some StPending) = VPending"
| "state_view chans (Some (StWaitingUotRequest t)) = VWaiting t"
| "state_view chans (Some (StActive c)) = VActive (chans ! c)"

definition tasks_of :: "u32 \<Rightarrow> inbound_session \<Rightarrow> stream_task list" where
  "tasks_of sid s = map snd (filter (\<lambda>r. fst r = sid) (ib_tasks s))"

definition server_view :: "u32 \<Rightarrow> inbound_session \<Rightarrow> stream_view \<times> stream_task list" where
  "server_view sid s = (state_view (ib_chans s) (fmlookup (ib_streams s) sid), tasks_of sid s)"

definition psh_view :: "bytes \<Rightarrow> stream_view \<times> stream_task list \<Rightarrow> (stream_view \<times> stream_task list) option" where
  "psh_view data = (\<lambda>(v, rs).
     (case v of
        VGone \<Rightarrow> Some (VGone, rs)
      | VPending \<Rightarrow>
          (case parse_target_from_syn data of
             Inl e \<Rightarrow> if e = SynPanic then None else Some (VGone, rs)
           | Inr t \<Rightarrow>
               Some (if is_uot_target t then (VWaiting t, rs)
                     else (VActive (channel STREAM_QUEUE_CAPACITY), rs @ [TcpRequest t])))
      | VWaiting t \<Rightarrow>
          Some (case data of [] \<Rightarrow> (VGone, rs) | b # rest \<Rightarrow>
            case read_from rest of
              Inl e \<Rightarrow> (VGone, rs)
            | Inr (real_target, remaining) \<Rightarrow>
                (VActive (uot_channel remaining), rs @ [UotTask (b \<noteq> 0) real_target]))
      | VActive ch \<Rightarrow>
          (case try_send data ch of
             (SendOk, ch') \<Rightarrow> Some (VActive ch', rs)
           | (SendFull, _) \<Rightarrow> None
           | (SendClosed, _) \<Rightarrow> Some (VGone, rs))))"

fun server_own :: "server_event \<Rightarrow> stream_view \<times> stream_task list \<Rightarrow> (stream_view \<times> stream_task list) option" where
  "server_own (Received (cmd, sid, data)) v =
     (case cmd of
        Syn \<Rightarrow> Some (VPending, snd v)
      | Psh \<Rightarrow> psh_view data v
      | Fin \<Rightarrow> Some (VGone, snd v)
      | Alert \<Rightarrow> None
      | _ \<Rightarrow> Some v)"
| "server_own (ServerPolled _) v =
     Some (case fst v of VActive ch \<Rightarrow> (VActive (snd (try_recv ch)), snd v) | _ \<Rightarrow> v)"
| "server_own (ServerDropped _ _ _) v = Some (VGone, snd v)"

definition server_inv :: "inbound_session \<Rightarrow> bool" where
  "server_inv s \<longleftrightarrow>
     (\<forall>sid c. fmlookup (ib_streams s) sid = Some (StActive c) \<longrightarrow> c < length (ib_chans s)) \<and>
     (\<forall>sid sid' c. fmlookup (ib_streams s) sid = Some (StActive c) \<and> fmlookup (ib_streams s) sid' = Some (StActive c) \<longrightarrow> sid = sid')"

lemma server_try_send [simp]:
  "server_view k (ib_try_send f s) = server_view k s" "server_inv (ib_try_send f s) = server_inv s"
  by (simp_all add: server_view_def tasks_of_def server_inv_def ib_try_send_def)

lemma server_remove [simp]:
  "server_view k (ib_remove sid s) = (if k = sid then (VGone, tasks_of k s) else server_view k s)"
  "server_inv s \<Longrightarrow> server_inv (ib_remove sid s)"
  by (auto simp: server_view_def tasks_of_def server_inv_def ib_remove_def split: if_splits)

lemma tasks_of_simps [simp]:
  "tasks_of k (ib_try_send f s) = tasks_of k s" "tasks_of k (ib_remove sid s) = tasks_of k s"
  "tasks_of k (ib_put sid st s) = tasks_of k s" "tasks_of k (ib_upd_chan c ch s) = tasks_of k s"
  "tasks_of k (ib_activate sid ch r s) = tasks_of k s @ (if k = sid then [r] else [])"
  by (simp_all add: tasks_of_def ib_try_send_def ib_remove_def ib_put_def ib_upd_chan_def ib_activate_def)

lemma server_put [simp]:
  assumes "\<And>c. st \<noteq> StActive c"
  shows "server_view k (ib_put sid st s) = (if k = sid then (state_view [] (Some st), tasks_of k s) else server_view k s)"
    and "server_inv s \<Longrightarrow> server_inv (ib_put sid st s)"
proof -
  have "state_view x (Some st) = state_view y (Some st)" for x y using assms by (cases st) auto
  then show "server_view k (ib_put sid st s) = (if k = sid then (state_view [] (Some st), tasks_of k s) else server_view k s)"
    by (auto simp: server_view_def) (auto simp: ib_put_def)
  show "server_inv (ib_put sid st s)" if "server_inv s"
    using that assms by (auto simp: server_inv_def ib_put_def split: if_splits)
qed

lemma state_view_mono:
  assumes "server_inv s"
  shows "state_view (ib_chans s @ [ch]) (fmlookup (ib_streams s) k) = state_view (ib_chans s) (fmlookup (ib_streams s) k)"
proof (cases "fmlookup (ib_streams s) k")
  case (Some st)
  with assms show ?thesis by (cases st) (auto simp: server_inv_def nth_append)
qed simp

lemma server_activate [simp]:
  assumes "server_inv s"
  shows "server_view k (ib_activate sid ch r s) =
      (if k = sid then (VActive ch, tasks_of k s @ [r]) else server_view k s)"
    and "server_inv (ib_activate sid ch r s)"
  using assms state_view_mono [OF assms, of ch k]
  by (auto simp: server_view_def server_inv_def less_Suc_eq nth_append) (auto simp: ib_activate_def intro: less_SucI split: if_splits)

lemma server_upd_free:
  assumes "StActive c |\<notin>| fmran (ib_streams s)"
  shows "server_view k (ib_upd_chan c ch s) = server_view k s"
proof (cases "fmlookup (ib_streams s) k")
  case (Some st)
  with assms have "st \<noteq> StActive c" by (auto simp: fmlookup_ran_iff)
  with Some show ?thesis
    by (cases st) (auto simp: server_view_def, auto simp: ib_upd_chan_def)
qed (auto simp: server_view_def, auto simp: ib_upd_chan_def)

lemma server_upd_chan:
  assumes "server_inv s" and "fmlookup (ib_streams s) sid = Some (StActive c)"
  shows "server_view k (ib_upd_chan c ch s) = (if k = sid then (VActive ch, tasks_of k s) else server_view k s)"
proof (cases "k = sid")
  case True
  with assms show ?thesis by (auto simp: server_view_def server_inv_def) (auto simp: ib_upd_chan_def)
next
  case False
  show ?thesis
  proof (cases "fmlookup (ib_streams s) k")
    case (Some st)
    with assms False have "st \<noteq> StActive c" by (auto simp: server_inv_def)
    with Some False show ?thesis by (cases st) (auto simp: server_view_def, auto simp: ib_upd_chan_def)
  qed (use False in \<open>auto simp: server_view_def, auto simp: ib_upd_chan_def\<close>)
qed

lemma server_inv_upd_chan [simp]: "server_inv (ib_upd_chan c ch s) = server_inv s"
  by (simp add: server_inv_def ib_upd_chan_def)

lemma server_view_tasks [simp]: "snd (server_view k s) = tasks_of k s"
  by (simp add: server_view_def)

lemma server_reject [simp]:
  "server_view k (reject sid s) = (if k = sid then (VGone, tasks_of k s) else server_view k s)"
  "server_inv s \<Longrightarrow> server_inv (reject sid s)"
  by (simp_all add: reject_def)

lemma server_frame_step:
  assumes inv: "server_inv s" and st: "server_frame (cmd, sid, data) s = (ServeContinue, s')"
  shows "server_inv s' \<and> server_own (Received (cmd, sid, data)) (server_view sid s) = Some (server_view sid s') \<and>
    (k \<noteq> sid \<longrightarrow> server_view k s' = server_view k s)"
proof (cases cmd)
  case Psh
  have own: "server_own (Received (cmd, sid, data)) (server_view sid s) =
      psh_view data (state_view (ib_chans s) (fmlookup (ib_streams s) sid), tasks_of sid s)"
    by (simp add: Psh server_view_def)
  show ?thesis
  proof (cases "fmlookup (ib_streams s) sid")
    case None
    with Psh st inv show ?thesis unfolding own by (auto simp: server_frame_def psh_view_def server_view_def)
  next
    case (Some state)
    show ?thesis
    proof (cases state)
      case StPending
      with Some Psh st inv show ?thesis unfolding own
        by (auto simp: server_frame_def psh_view_def handle_target_def split: sum.splits syn_error.splits if_splits)
    next
      case (StWaitingUotRequest t)
      with Some Psh st inv show ?thesis unfolding own
        by (auto simp: server_frame_def psh_view_def handle_uot_request_def split: sum.splits list.splits)
    next
      case (StActive c)
      with Some Psh st inv show ?thesis unfolding own
        by (auto simp: server_frame_def psh_view_def server_upd_chan split: prod.splits try_send_result.splits)
    qed
  qed
qed (use inv st in \<open>auto simp: server_frame_def split: prod.splits\<close>)

interpretation server_streams: demultiplexer server_step server_inv server_owner server_view server_own
proof unfold_locales
  fix s e s' k
  assume inv: "server_inv s" and st: "server_step e s = Some s'"
  have "server_inv s' \<and> (\<forall>k. server_owner e = Some k \<longrightarrow> server_own e (server_view k s) = Some (server_view k s')) \<and>
      (\<forall>k. server_owner e \<noteq> Some k \<longrightarrow> server_view k s' = server_view k s)"
  proof (cases e)
    case (Received f)
    obtain cmd sid data where f: "f = (cmd, sid, data)" by (cases f)
    with Received st have "server_frame (cmd, sid, data) s = (ServeContinue, s')"
      by (auto split: prod.splits serve_outcome.splits)
    from server_frame_step [OF inv this] show ?thesis by (auto simp: Received f)
  next
    case (ServerPolled sid)
    show ?thesis
    proof (cases "\<exists>c. fmlookup (ib_streams s) sid = Some (StActive c)")
      case True
      then obtain c where c: "fmlookup (ib_streams s) sid = Some (StActive c)" ..
      then have v: "server_view sid s = (VActive (ib_chans s ! c), tasks_of sid s)" by (simp add: server_view_def)
      show ?thesis
      proof (cases "ch_items (ib_chans s ! c)")
        case Nil
        with c ServerPolled st inv v show ?thesis by (auto simp: ib_poll_recv_def try_recv_def)
      next
        case (Cons d ds)
        with c ServerPolled st inv v show ?thesis
          by (auto simp: ib_poll_recv_def try_recv_def server_upd_chan)
      qed
    next
      case False
      then have "s' = s" using ServerPolled st by (auto split: option.splits stream_state.splits)
      moreover have "\<And>ch. fst (server_view sid s) \<noteq> VActive ch"
        using False by (auto simp: server_view_def elim!: state_view.elims)
      ultimately show ?thesis using inv ServerPolled by (auto split: stream_view.splits)
    qed
  next
    case (ServerDropped sid c fin_sent)
    let ?s = "ib_remove sid (if fin_sent then s else ib_try_send (Fin, sid, []) s)"
    from ServerDropped st have free: "StActive c |\<notin>| fmran (ib_streams ?s)"
      and s': "s' = ib_upd_chan c ((ib_chans ?s ! c)\<lparr>ch_closed := True\<rparr>) ?s"
      using inv by (auto simp: is_drop_def Let_def ib_remove_def ib_try_send_def fmlookup_ran_iff server_inv_def split: if_splits)
    from inv show ?thesis unfolding s' ServerDropped by (simp add: server_upd_free [OF free])
  qed
  then show "server_inv s'" and "server_owner e = Some k \<Longrightarrow> server_own e (server_view k s) = Some (server_view k s')"
    and "server_owner e \<noteq> Some k \<Longrightarrow> server_view k s' = server_view k s"
    by blast+
qed

subsection \<open>Opening a stream from the other end\<close>

fun syn_target :: "target_addr \<Rightarrow> target_addr" where
  "syn_target (Ip (SockV6 a p _ _)) = Ip (SockV6 a p 0 0)"
| "syn_target t = t"

lemma parse_target_to_bytes:
  assumes "encodable t"
  shows "parse_target_from_syn (to_bytes t @ rest) = Inr (syn_target t)"
proof (cases t rule: encoded_len.cases)
  case (1 a p)
  have "port_at ((1 # to_be 4 a) @ to_be 2 p @ rest) 5 = p" by (rule port_at_to_be) simp
  moreover have "slice ([1] @ to_be 4 a @ to_be 2 p @ rest) 1 5 = to_be 4 a" by (rule slice_append_mid) simp_all
  ultimately show ?thesis by (simp add: 1 parse_target_from_syn_def to_bytes_def wire_simps)
next
  case (2 a p f s)
  have "port_at ((4 # to_be 16 a) @ to_be 2 p @ rest) 17 = p" by (rule port_at_to_be) simp
  moreover have "slice ([4] @ to_be 16 a @ to_be 2 p @ rest) 1 17 = to_be 16 a" by (rule slice_append_mid) simp_all
  ultimately show ?thesis by (simp add: 2 parse_target_from_syn_def to_bytes_def wire_simps)
next
  case (3 d p)
  let ?n = "length d"
  from assms 3 have l: "unat (of_nat ?n :: u8) = ?n" and u: "from_utf8 d = Some d"
    by (simp_all add: unat_of_nat_u8 from_utf8_def)
  have "port_at ((3 # of_nat ?n # d) @ to_be 2 p @ rest) (2 + ?n) = p" by (rule port_at_to_be) simp
  moreover have "slice ([3, of_nat ?n] @ d @ to_be 2 p @ rest) 2 (2 + ?n) = d" by (rule slice_append_mid) simp_all
  ultimately show ?thesis using l u
    by (simp add: 3 parse_target_from_syn_def to_bytes_def wire_simps Let_def del: of_nat_unat)
qed

lemma server_pushes:
  assumes "length (ch_items ch) + length ds \<le> STREAM_QUEUE_CAPACITY" and "ch_cap ch = STREAM_QUEUE_CAPACITY" and "\<not> ch_closed ch"
  shows "run_all server_own (map (\<lambda>d. Received (Psh, sid, d)) ds) (VActive ch, rs) =
    Some (VActive (ch\<lparr>ch_items := ch_items ch @ ds\<rparr>), rs)"
  using assms by (induction ds arbitrary: ch) (simp_all add: psh_view_def try_send_def)

lemma own_skips_waste:
  "run_all server_own (map Received fs) v = run_all server_own (map Received (payload_frames fs)) v"
proof (induction fs arbitrary: v)
  case (Cons f fs)
  obtain cmd sid data where f: "f = (cmd, sid, data)" by (cases f)
  show ?case using Cons.IH by (cases "cmd = Waste") (auto simp: f split: option.split)
qed simp

text \<open>The stream is neither read nor dropped by the server yet.\<close>

definition only_received :: "u32 \<Rightarrow> server_event list \<Rightarrow> bool" where
  "only_received sid es \<longleftrightarrow>
     list_all (\<lambda>e. server_owner e = Some sid \<longrightarrow> (case e of Received _ \<Rightarrow> True | _ \<Rightarrow> False)) es"

definition received :: "server_event list \<Rightarrow> frame list" where
  "received es = List.map_filter (\<lambda>e. case e of Received f \<Rightarrow> Some f | _ \<Rightarrow> None) es"

abbreviation frames_of :: "u32 \<Rightarrow> frame list \<Rightarrow> frame list" where
  "frames_of sid fs \<equiv> filter (\<lambda>f. fst (snd f) = sid) fs"

lemma own_received:
  assumes "only_received sid es"
  shows "filter (\<lambda>e. server_owner e = Some sid) es = map Received (frames_of sid (received es))"
  using assms
proof (induction es)
  case (Cons e es)
  then have ih: "filter (\<lambda>e. server_owner e = Some sid) es = map Received (frames_of sid (received es))"
    by (simp add: only_received_def)
  show ?case
  proof (cases e)
    case (Received f)
    with ih show ?thesis by (cases f) (simp add: received_def)
  qed (use ih Cons.prems in \<open>auto simp: received_def only_received_def\<close>)
qed (simp add: received_def)

text \<open>What the client has handed to its write loop and flushed is what the server receives.\<close>

lemma flushed_frames:
  assumes "scheme_all entry_small scheme" and "list_all event_ok evs"
    and "w = write_loop evs (write_loop_new scheme)" and "\<not> wl_ended w" and "wl_queue w = []"
    and "(Psh, sid, d) \<in> set (accepted evs (write_loop_new scheme))"
  shows "payload_frames (fst (drain frame_dec (wl_wire w))) = accepted evs (write_loop_new scheme)"
proof -
  have "write_inv (accepted evs (write_loop_new scheme)) w"
    using write_loop_inv [OF assms(2) write_inv_new [OF assms(1)]] assms(3) by simp
  with assms(4) obtain fs bs where st: "list_all frame_ok fs" "wl_wire w = concat (map frame_enc fs)"
      "payload_frames fs @ bs @ wl_queue w = accepted evs (write_loop_new scheme)"
      "if wl_buffering w then fs = [] \<and> list_all (\<lambda>f. fst f \<noteq> Psh) bs else bs = []"
    unfolding write_inv_def by (auto simp only: if_False)
  have "bs = []"
  proof (rule ccontr)
    assume "bs \<noteq> []"
    with st(4) have "fs = []" "list_all (\<lambda>f. fst f \<noteq> Psh) bs" by (auto split: if_splits)
    moreover from st(3) assms(5) \<open>fs = []\<close> have "bs = accepted evs (write_loop_new scheme)" by simp
    ultimately show False using assms(6) by (auto simp: list_all_iff)
  qed
  with st assms(5) show ?thesis by (simp add: drain_frames)
qed

lemma server_side:
  assumes "server_inv s0" and "run_all server_step es s0 = Some s" and "server_view sid s0 = v"
    and "only_received sid es"
    and "payload_frames (received es) = fs"
  shows "run_all server_own (map Received (frames_of sid fs)) v = Some (server_view sid s)"
proof -
  have "payload_frames (frames_of sid (received es)) = frames_of sid fs"
    unfolding assms(5) [symmetric] by (simp add: conj_commute)
  moreover have "run_all server_own (map Received (frames_of sid (received es))) v = Some (server_view sid s)"
    using server_streams.projection [OF assms(1,2), of sid] assms(3) own_received [OF assms(4)] by simp
  ultimately show ?thesis by (metis own_skips_waste)
qed

lemma inv_inbound_new [simp]: "server_inv inbound_new" "server_view sid inbound_new = (VGone, [])"
  by (simp_all add: server_inv_def inbound_new_def server_view_def tasks_of_def)

subsection \<open>UDP packets over a stream\<close>

fun iu_recv_n :: "nat \<Rightarrow> inbound_udp \<times> bytes list \<Rightarrow> (target_addr \<times> target_addr \<times> bytes) list option" where
  "iu_recv_n 0 st = Some []"
| "iu_recv_n (Suc n) st =
     (case iu_recv_from st of
        (Inr (Some x), st') \<Rightarrow> map_option (Cons x) (iu_recv_n n st')
      | _ \<Rightarrow> None)"

lemma uot_target_len_prefix:
  assumes "uot_encodable t" and "buf @ m = uot_write_target t [] @ rest"
  shows "\<exists>x. uot_target_len buf = Inr x"
proof (cases buf)
  case Nil
  then show ?thesis by (simp add: uot_target_len_def)
next
  case (Cons b bs)
  with assms(2) have "b = hd (uot_write_target t [] @ rest)" by (metis append_Cons list.sel(1))
  then have "b \<in> {0, 1, 2}" by (cases t rule: uot_encodable.cases) auto
  then show ?thesis by (auto simp: Cons uot_target_len_def split: list.splits)
qed

lemma next_packet_prefix:
  assumes "uot_ok c (t, payload)" and "buf @ m = uot_enc (t, payload) @ rest"
  shows "next_packet buf c = Inr (None, buf) \<or>
    (\<exists>tail. next_packet buf c = Inr (Some (uot_enc (t, payload)), tail) \<and> tail @ m = rest)"
proof -
  have len: "length payload < 65536" using assms(1) by simp
  have "\<exists>x. packet_header_len buf c = Inr x"
  proof (cases t)
    case None
    with assms(1) show ?thesis by (simp add: packet_header_len_def)
  next
    case (Some a)
    with assms(1) have "\<not> c" "uot_encodable a" by simp_all
    moreover have "buf @ m = uot_write_target a [] @ (to_be 2 (of_nat (length payload) :: u16) @ payload @ rest)"
      using assms(2) uot_enc_ok [OF len, of t] Some by (simp add: uot_header_def)
    ultimately show ?thesis using uot_target_len_prefix by (simp add: packet_header_len_def)
  qed
  then obtain x where "packet_header_len buf c = Inr x" ..
  then have "\<exists>p tail. next_packet buf c = Inr (p, tail)"
    by (auto simp: next_packet_def Let_def split: option.split)
  then obtain p tail where np: "next_packet buf c = Inr (p, tail)" by blast
  show ?thesis
  proof (cases p)
    case None
    with np have "tail = buf"
      by (auto simp: next_packet_def bindr_Inr_iff Let_def split: option.splits if_splits)
    with np None show ?thesis by simp
  next
    case (Some q)
    with np have "next_packet (buf @ m) c = Inr (Some q, tail @ m)" using next_packet_Some(2) by blast
    with next_packet_enc [OF assms(1), of rest] assms(2) np Some show ?thesis by simp
  qed
qed

lemma iu_read_next:
  assumes "uot_ok (iu_is_connect u) (t, payload)"
    and "iu_read_buf u @ concat datas = uot_enc (t, payload) @ rest"
  shows "\<exists>buf datas'. iu_read_next_msg (u, datas) = (Inr (Some (uot_enc (t, payload))), u\<lparr>iu_read_buf := buf\<rparr>, datas') \<and>
    buf @ concat datas' = rest"
  using assms
proof (induction datas arbitrary: u)
  case Nil
  have "next_packet (iu_read_buf u) (iu_is_connect u) = Inr (Some (uot_enc (t, payload)), rest)"
    using Nil.prems next_packet_enc [OF Nil.prems(1), of rest] by simp
  then show ?case by (auto simp del: uot_enc.simps)
next
  case (Cons data datas)
  from next_packet_prefix [OF Cons.prems] show ?case
  proof (elim disjE exE conjE)
    assume "next_packet (iu_read_buf u) (iu_is_connect u) = Inr (None, iu_read_buf u)"
    then have "iu_read_next_msg (u, data # datas) =
        iu_read_next_msg (u\<lparr>iu_read_buf := iu_read_buf u @ data\<rparr>, datas)" by (simp add: uot_push_def)
    with Cons.IH [of "u\<lparr>iu_read_buf := iu_read_buf u @ data\<rparr>"] Cons.prems show ?thesis
      by (simp del: uot_enc.simps uot_ok.simps)
  next
    fix tail
    assume "next_packet (iu_read_buf u) (iu_is_connect u) = Inr (Some (uot_enc (t, payload)), tail)"
      and "tail @ concat (data # datas) = rest"
    then show ?thesis by (auto simp del: uot_enc.simps)
  qed
qed

lemma iu_recv_all:
  assumes "list_all (\<lambda>(t, payload). uot_ok False (Some t, payload)) ps" and "\<not> iu_is_connect u"
    and "iu_read_buf u @ concat datas = concat (map (\<lambda>(t, payload). uot_enc (Some t, payload)) ps)"
  shows "iu_recv_n (length ps) (u, datas) = Some (map (\<lambda>(t, payload). (iu_client_addr u, t, payload)) ps)"
  using assms
proof (induction ps arbitrary: u datas)
  case (Cons p ps)
  obtain t payload where p: "p = (t, payload)" by (cases p)
  with Cons.prems have ok: "uot_ok (iu_is_connect u) (Some t, payload)" by simp
  let ?rest = "concat (map (\<lambda>(t, payload). uot_enc (Some t, payload)) ps)"
  obtain buf datas' where rd: "iu_read_next_msg (u, datas) =
      (Inr (Some (uot_enc (Some t, payload))), u\<lparr>iu_read_buf := buf\<rparr>, datas')" "buf @ concat datas' = ?rest"
    using iu_read_next [OF ok, of datas ?rest] Cons.prems(3) p by (auto simp del: uot_enc.simps)
  have "decode_uot_packet (uot_enc (Some t, payload)) (iu_is_connect u) = Inr (Some t, payload)"
    by (rule decode_uot_packet_enc [OF ok])
  then have "iu_recv_from (u, datas) = (Inr (Some (iu_client_addr u, t, payload)), u\<lparr>iu_read_buf := buf\<rparr>, datas')"
    using rd(1) by (simp add: iu_recv_from_def del: uot_enc.simps)
  moreover have "iu_recv_n (length ps) (u\<lparr>iu_read_buf := buf\<rparr>, datas') =
      Some (map (\<lambda>(t, payload). (iu_client_addr u, t, payload)) ps)"
    using Cons.IH [of "u\<lparr>iu_read_buf := buf\<rparr>" datas'] Cons.prems rd(2) by simp
  ultimately show ?case by (simp add: p)
qed simp

lemma uot_task_received:
  assumes "iu_recv_n (length ps) (u, datas) = Some (map (\<lambda>(t, payload). (addr, t, payload)) ps)"
    and "\<not> iu_is_connect u" and "ps = (t, payload) # qs"
  shows "\<exists>st. uot_task (u, datas) = (UotDispatch t (Some payload), st) \<and>
    iu_recv_n (length qs) st = Some (map (\<lambda>(t, payload). (addr, t, payload)) qs)"
  using assms by (auto simp: uot_task_def split: prod.splits sum.splits option.splits)

lemma uot_task_waits: "fst (uot_task (iu_new sid addr False target, [])) = UotNoPacket"
  by (simp add: uot_task_def iu_new_def iu_recv_from_def next_packet_def packet_header_len_def uot_target_len_def)

subsection \<open>Opening a session\<close>

lemma first_size_small:
  assumes "rng_ok rng" and "scheme_all entry_small scheme"
    and "case fmlookup (ps_policies scheme) 0 of Some (CheckMark # _) \<Rightarrow> False | _ \<Rightarrow> True"
  shows "(case generate_record_payload_sizes rng scheme 0 of [] \<Rightarrow> 30 | t # _ \<Rightarrow> as_usize t) < 65536"
proof (cases "\<exists>e es. fmlookup (ps_policies scheme) 0 = Some (e # es)")
  case True
  then obtain e es where e: "fmlookup (ps_policies scheme) 0 = Some (e # es)" by blast
  then have small: "entry_small e" using assms(2) by (auto simp: scheme_all_def dest!: fmpredD)
  have d: "rng 0 mn mx < 65536" if "mn \<le> mx" "mx < 65536" for mn mx
    using assms(1) that by (auto simp: rng_ok_def dest: le_less_trans)
  have w: "as_usize (as_i64 n) = n" if "n < 65536" for n using that by (intro as_usize_i64) simp
  have "e \<noteq> CheckMark" using assms(3) e by auto
  then have "as_usize (entry_size (rng 0) e) < 65536"
    using small by (cases e) (simp_all add: w d)
  with e show ?thesis by (simp add: generate_record_payload_sizes_def)
next
  case False
  have "generate_record_payload_sizes rng scheme 0 = []"
  proof (cases "fmlookup (ps_policies scheme) 0")
    case (Some es)
    with False show ?thesis by (cases es) (auto simp: generate_record_payload_sizes_def)
  qed (simp add: generate_record_payload_sizes_def)
  then show ?thesis by simp
qed

lemma parse_version_settings:
  assumes "list_all (\<lambda>b. b < 0x80) (ps_hash scheme)"
  shows "parse_version (settings_data scheme) = 2"
proof -
  let ?rest = "str ''client='' @ CLIENT_NAME @ [0x0A] @ str ''padding-md5='' @ ps_hash scheme @ [0x0A]"
  have sd: "settings_data scheme = str ''v=2'' @ 0x0A # ?rest"
    by (simp add: settings_data_def PROTOCOL_VERSION_def show_nat.simps)
  have "utf8_valid (settings_data scheme)"
    by (rule utf8_valid_ascii) (use assms in \<open>auto simp: sd CLIENT_NAME_def list_all_iff\<close>)
  then have "from_utf8_lossy (settings_data scheme) = settings_data scheme" by (rule from_utf8_lossy_valid)
  moreover have "str_lines (settings_data scheme) = str ''v=2'' # str_lines ?rest"
    unfolding sd by (subst str_lines_prefix) (simp_all add: strip_cr_def)
  ultimately show ?thesis
    by (simp add: parse_version_def split_once_def Let_def trim_id graph_ascii_def parse_uint_def digit_val_def)
qed

subsection \<open>Properties\<close>

text \<open>C2. A stream arrives as it was sent. A client session queues the frames of any number of streams
  and flushes them with any padding and batching; the server reads the wire and serves
  other streams in any interleaving. For a stream opened to an address and then carrying at
  most 16 chunks, the server hands exactly one request for that address to the router, and
  the stream's channel holds exactly the chunks, in order.\<close>

theorem anytls_end_to_end:
  assumes "scheme_all entry_small scheme" and "list_all event_ok evs"
    and "w = write_loop evs (write_loop_new scheme)" and "\<not> wl_ended w" and "wl_queue w = []"
    and "frames_of sid (accepted evs (write_loop_new scheme)) = open_frames sid t @ map (\<lambda>d. (Psh, sid, d)) ds"
    and "encodable t" and "\<not> is_uot_target t" and "length ds \<le> STREAM_QUEUE_CAPACITY"
    and "received es = fst (drain frame_dec (wl_wire w))"
    and "only_received sid es"
    and "run_all server_step es inbound_new = Some s"
  shows "server_view sid s =
    (VActive ((channel STREAM_QUEUE_CAPACITY)\<lparr>ch_items := ds\<rparr>), [TcpRequest (syn_target t)])"
proof -
  have "(Psh, sid, to_bytes t) \<in> set (frames_of sid (accepted evs (write_loop_new scheme)))"
    unfolding assms(6) by (simp add: open_frames_def)
  then have "payload_frames (received es) = accepted evs (write_loop_new scheme)"
    using flushed_frames [OF assms(1-5)] assms(10) by simp
  from server_side [OF inv_inbound_new(1) assms(12) inv_inbound_new(2) assms(11) this]
  have "run_all server_own (map Received (open_frames sid t @ map (\<lambda>d. (Psh, sid, d)) ds)) (VGone, []) =
      Some (server_view sid s)"
    unfolding assms(6) .
  moreover have "\<not> is_uot_target (syn_target t)" using assms(8) by (cases t rule: syn_target.cases) (auto simp: is_uot_target_def)
  ultimately show ?thesis
    using server_pushes [of "channel STREAM_QUEUE_CAPACITY" ds sid "[TcpRequest (syn_target t)]"] assms(9)
      parse_target_to_bytes [OF assms(7), of "[]"]
    by (simp add: run_all_append open_frames_def psh_view_def comp_def) (simp add: channel_def)
qed

definition tcp_events :: "write_event list" where
  "tcp_events = [Queue (Settings, 0, [9]), Turn least_draw, Queue (Syn, 1, []), Queue (Psh, 1, [1, 8, 8, 8, 8, 0, 53]),
     Queue (Syn, 3, []), Turn least_draw, Turn least_draw, CountPacket, Queue (Psh, 1, [7]), Turn least_draw]"

lemmas write_eval = write_loop_def write_loop_new_def write_loop_turn_def write_with_padding_def
  generate_record_payload_sizes_def as_i64_def as_usize_def CHECK_MARK_def waste_frame_def append_frame_def
  u16_try_from_def can_queue_def SESSION_QUEUE_CAPACITY_def SESSION_WRITE_BATCH_BYTES_def Let_def

lemma tcp_run:
  "wl_queue (write_loop tcp_events (write_loop_new sample_scheme)) = []"
  "\<not> wl_ended (write_loop tcp_events (write_loop_new sample_scheme))"
  "accepted tcp_events (write_loop_new sample_scheme) =
     [(Settings, 0, [9]), (Syn, 1, []), (Psh, 1, [1, 8, 8, 8, 8, 0, 53]), (Syn, 3, []), (Psh, 1, [7])]"
  by (simp_all add: tcp_events_def sample_scheme_def write_eval)

lemma server_skips_waste:
  "run_all server_step (map Received fs) s = run_all server_step (map Received (payload_frames fs)) s"
proof (induction fs arbitrary: s)
  case (Cons f fs)
  obtain cmd sid data where f: "f = (cmd, sid, data)" by (cases f)
  show ?case using Cons.IH by (cases "cmd = Waste") (auto simp: f server_frame_def split: option.split)
qed simp

lemma received_map [simp]: "received (map Received fs) = fs" "only_received sid (map Received fs)"
  by (induction fs) (simp_all add: received_def only_received_def)

lemma sample_scheme_small: "scheme_all entry_small sample_scheme"
  by (simp add: scheme_all_def sample_scheme_def fmpred_upd)

lemmas server_eval = server_frame_def ib_try_send_def ib_put_def ib_activate_def handle_target_def inbound_new_def
  handle_uot_request_def uot_channel_def ib_upd_chan_def try_send_def channel_def parse_target_from_syn_def
  is_uot_target_def STREAM_QUEUE_CAPACITY_def SESSION_QUEUE_CAPACITY_def

theorem anytls_end_to_end_witness:
  "\<exists>fs s. fs = fst (drain frame_dec (wl_wire (write_loop tcp_events (write_loop_new sample_scheme)))) \<and>
     run_all server_step (map Received fs) inbound_new = Some s \<and>
     server_view 1 s = (VActive ((channel STREAM_QUEUE_CAPACITY)\<lparr>ch_items := [[7]]\<rparr>),
       [TcpRequest (Ip (SockV4 0x08080808 53))])"
proof -
  let ?t = "Ip (SockV4 0x08080808 53)" and ?w = "write_loop tcp_events (write_loop_new sample_scheme)"
  let ?fs = "fst (drain frame_dec (wl_wire ?w))"
  have ok: "list_all event_ok tcp_events" by (simp add: tcp_events_def)
  have frames: "frames_of 1 (accepted tcp_events (write_loop_new sample_scheme)) = open_frames 1 ?t @ map (\<lambda>d. (Psh, 1, d)) [[7]]"
    by (simp add: tcp_run open_frames_def to_bytes_def to_be_4 to_be_2)
  have "payload_frames ?fs = accepted tcp_events (write_loop_new sample_scheme)"
    by (rule flushed_frames [OF sample_scheme_small ok refl tcp_run(2,1)]) (auto simp: tcp_run)
  then have "\<exists>s. run_all server_step (map Received ?fs) inbound_new = Some s"
    unfolding server_skips_waste [of ?fs] by (simp add: tcp_run server_eval)
  then obtain s where s: "run_all server_step (map Received ?fs) inbound_new = Some s" ..
  with anytls_end_to_end [OF sample_scheme_small ok refl tcp_run(2,1) frames _ _ _ received_map s] show ?thesis
    by (auto simp: is_uot_target_def STREAM_QUEUE_CAPACITY_def)
qed

text \<open>C11. UDP packets sent through a client session arrive at the server: for a fresh UDP stream on
  which the client opens its packet socket and sends up to 16 packets, whatever padding, batching
  and interleaving with other streams, the server spawns one task for the stream. That task
  dispatches to the router with the address and the payload of the first packet (not with the
  placeholder address of the stream's header), and what the router then receives from the socket
  is the other packets, each with the address it was sent to, in order. When no packet was sent
  the task makes no request.\<close>

theorem anytls_udp_end_to_end:
  assumes "scheme_all entry_small scheme" and "list_all event_ok evs"
    and "w = write_loop evs (write_loop_new scheme)" and "\<not> wl_ended w" and "wl_queue w = []"
    and "map Inr (frames_of sid (accepted evs (write_loop_new scheme))) =
      map Inr (packet_frames sid t) @ map (\<lambda>(a, payload). us_send_to payload a u) ps"
    and "us_stream_id u = sid" and "\<not> us_is_connect u"
    and "encodable t" and "list_all (\<lambda>(a, payload). uot_ok False (Some a, payload)) ps"
    and "length ps \<le> STREAM_QUEUE_CAPACITY"
    and "received es = fst (drain frame_dec (wl_wire w))" and "only_received sid es"
    and "run_all server_step es inbound_new = Some s"
  shows "\<exists>ch. server_view sid s = (VActive ch, [UotTask False (canonical t)]) \<and>
    (case ps of
       [] \<Rightarrow> fst (uot_task (iu_new sid addr False (canonical t), ch_items ch)) = UotNoPacket
     | (a, payload) # qs \<Rightarrow>
         \<exists>st. uot_task (iu_new sid addr False (canonical t), ch_items ch) = (UotDispatch a (Some payload), st) \<and>
           iu_recv_n (length qs) st = Some (map (\<lambda>(a, payload). (addr, a, payload)) qs))"
proof -
  let ?ds = "map (\<lambda>(a, payload). uot_enc (Some a, payload)) ps"
  have "us_send_to payload a u = Inr (Psh, sid, uot_enc (Some a, payload))" if "(a, payload) \<in> set ps" for a payload
  proof -
    from assms(10) that have "length payload < 65536" by (auto simp: list_all_iff)
    then show ?thesis using assms(7,8) by (simp add: us_send_to_def encode_uot_packet_def u16_try_from_def)
  qed
  then have "map (\<lambda>(a, payload). us_send_to payload a u) ps = map Inr (map (\<lambda>d. (Psh, sid, d)) ?ds)"
    by (auto simp del: uot_enc.simps)
  then have "map Inr (frames_of sid (accepted evs (write_loop_new scheme))) =
      (map Inr (packet_frames sid t @ map (\<lambda>d. (Psh, sid, d)) ?ds) :: (uot_error + frame) list)"
    unfolding assms(6) by simp
  then have own: "frames_of sid (accepted evs (write_loop_new scheme)) = packet_frames sid t @ map (\<lambda>d. (Psh, sid, d)) ?ds"
    by (rule map_injective) (simp add: inj_def)
  have "(Psh, sid, [0] @ to_bytes t) \<in> set (frames_of sid (accepted evs (write_loop_new scheme)))"
    unfolding own by (simp add: packet_frames_def)
  then have "payload_frames (received es) = accepted evs (write_loop_new scheme)"
    using flushed_frames [OF assms(1-5)] assms(12) by simp
  from server_side [OF inv_inbound_new(1) assms(14) inv_inbound_new(2) assms(13) this]
  have run: "run_all server_own (map Received (packet_frames sid t @ map (\<lambda>d. (Psh, sid, d)) ?ds)) (VGone, []) =
      Some (server_view sid s)"
    unfolding own .
  have "utf8_valid UDP_OVER_TCP_TARGET" by (rule utf8_valid_ascii) (simp add: UDP_OVER_TCP_TARGET_def)
  then have "encodable (Domain UDP_OVER_TCP_TARGET (port t))" by (simp add: UDP_OVER_TCP_TARGET_def)
  then have "parse_target_from_syn (to_bytes (Domain UDP_OVER_TCP_TARGET (port t))) = Inr (Domain UDP_OVER_TCP_TARGET (port t))"
    using parse_target_to_bytes [of "Domain UDP_OVER_TCP_TARGET (port t)" "[]"] by simp
  moreover have "read_from (to_bytes t) = Inr (canonical t, [])" using read_from_to_bytes [OF assms(9), of "[]"] by simp
  ultimately have "server_view sid s =
      (VActive ((channel STREAM_QUEUE_CAPACITY)\<lparr>ch_items := ?ds\<rparr>), [UotTask False (canonical t)])"
    using run server_pushes [of "channel STREAM_QUEUE_CAPACITY" ?ds sid "[UotTask False (canonical t)]"] assms(11)
    by (simp add: run_all_append packet_frames_def psh_view_def comp_def is_uot_target_def uot_channel_def del: uot_enc.simps)
      (simp add: channel_def del: uot_enc.simps)
  moreover let ?ch = "(channel STREAM_QUEUE_CAPACITY)\<lparr>ch_items := ?ds\<rparr>"
  have "iu_recv_n (length ps) (iu_new sid addr False (canonical t), ch_items ?ch) =
      Some (map (\<lambda>(a, payload). (addr, a, payload)) ps)"
    using assms(10) by (subst iu_recv_all) (auto simp: iu_new_def simp del: uot_enc.simps)
  from uot_task_received [OF this] uot_task_waits
  have "case ps of
       [] \<Rightarrow> fst (uot_task (iu_new sid addr False (canonical t), ch_items ?ch)) = UotNoPacket
     | (a, payload) # qs \<Rightarrow>
         \<exists>st. uot_task (iu_new sid addr False (canonical t), ch_items ?ch) = (UotDispatch a (Some payload), st) \<and>
           iu_recv_n (length qs) st = Some (map (\<lambda>(a, payload). (addr, a, payload)) qs)"
    by (auto simp: iu_new_def simp del: uot_enc.simps split: list.split)
  ultimately show ?thesis by blast
qed

definition udp_events :: "write_event list" where
  "udp_events = [Queue (Syn, 1, []), Queue (Psh, 1, to_bytes (Domain UDP_OVER_TCP_TARGET 53)),
     Queue (Psh, 1, [0x00] @ to_bytes (Ip (SockV4 0 53))),
     Queue (Psh, 1, [0, 8, 8, 8, 8, 0, 53, 0, 2, 6, 7]), Turn least_draw,
     Queue (Psh, 1, [0, 9, 9, 9, 9, 0, 80, 0, 1, 5]), Turn least_draw]"

lemma udp_run:
  "wl_queue (write_loop udp_events (write_loop_new sample_scheme)) = []"
  "\<not> wl_ended (write_loop udp_events (write_loop_new sample_scheme))"
  "accepted udp_events (write_loop_new sample_scheme) =
     [(Syn, 1, []), (Psh, 1, to_bytes (Domain UDP_OVER_TCP_TARGET 53)),
      (Psh, 1, [0x00] @ to_bytes (Ip (SockV4 0 53))), (Psh, 1, [0, 8, 8, 8, 8, 0, 53, 0, 2, 6, 7]),
      (Psh, 1, [0, 9, 9, 9, 9, 0, 80, 0, 1, 5])]"
  by (simp_all add: udp_events_def sample_scheme_def write_eval to_bytes_def UDP_OVER_TCP_TARGET_def)

theorem anytls_udp_end_to_end_witness:
  "\<exists>fs s ch st. fs = fst (drain frame_dec (wl_wire (write_loop udp_events (write_loop_new sample_scheme)))) \<and>
     run_all server_step (map Received fs) inbound_new = Some s \<and>
     server_view 1 s = (VActive ch, [UotTask False (Ip (SockV4 0 53))]) \<and>
     uot_task (iu_new 1 dummy False (Ip (SockV4 0 53)), ch_items ch) =
       (UotDispatch (Ip (SockV4 0x08080808 53)) (Some [6, 7]), st) \<and>
     iu_recv_n 1 st = Some [(dummy, Ip (SockV4 0x09090909 80), [5])]"
proof -
  let ?t = "Ip (SockV4 0 53)" and ?w = "write_loop udp_events (write_loop_new sample_scheme)"
  let ?ps = "[(Ip (SockV4 0x08080808 53), [6, 7]), (Ip (SockV4 0x09090909 80), [5])]"
  let ?fs = "fst (drain frame_dec (wl_wire ?w))"
  let ?u = "\<lparr>us_stream_id = 1, us_chan = 0, us_read_buffer = [], us_is_connect = False\<rparr>"
  have ok: "list_all event_ok udp_events" by (simp add: udp_events_def)
  have frames: "map Inr (frames_of 1 (accepted udp_events (write_loop_new sample_scheme))) =
      map Inr (packet_frames 1 ?t) @ map (\<lambda>(a, payload). us_send_to payload a ?u) ?ps"
    by (simp add: udp_run packet_frames_def us_send_to_def encode_uot_packet_def u16_try_from_def to_be_4 to_be_2)
  have "payload_frames ?fs = accepted udp_events (write_loop_new sample_scheme)"
    by (rule flushed_frames [OF sample_scheme_small ok refl udp_run(2,1)]) (auto simp: udp_run)
  moreover have "utf8_valid UDP_OVER_TCP_TARGET" by (rule utf8_valid_ascii) (simp add: UDP_OVER_TCP_TARGET_def)
  then have "encodable (Domain UDP_OVER_TCP_TARGET 53)" by (simp add: UDP_OVER_TCP_TARGET_def)
  then have "parse_target_from_syn (to_bytes (Domain UDP_OVER_TCP_TARGET 53)) = Inr (Domain UDP_OVER_TCP_TARGET 53)"
    using parse_target_to_bytes [of "Domain UDP_OVER_TCP_TARGET 53" "[]"] by simp
  moreover have "read_from (to_bytes ?t) = Inr (?t, [])" using read_from_to_bytes [of ?t "[]"] by simp
  ultimately have "\<exists>s. run_all server_step (map Received ?fs) inbound_new = Some s"
    unfolding server_skips_waste [of ?fs]
    by (simp add: udp_run server_frame_def ib_try_send_def ib_put_def ib_activate_def handle_uot_request_def uot_channel_def
        ib_upd_chan_def try_send_def channel_def inbound_new_def is_uot_target_def STREAM_QUEUE_CAPACITY_def)
  then obtain s where s: "run_all server_step (map Received ?fs) inbound_new = Some s" ..
  from anytls_udp_end_to_end [OF sample_scheme_small ok refl udp_run(2,1) frames _ _ _ _ _ received_map s, of dummy] s
  show ?thesis by (auto simp: STREAM_QUEUE_CAPACITY_def)
qed

text \<open>A client's opening bytes open a session: if some configured user has the client's password,
  the server accepts the authentication packet with its padding, reads the settings frame,
  answers with its own settings, and leaves exactly the bytes that follow for the read
  loop. The scheme must have sizes below 64 KiB and no check mark in front of packet 0.\<close>

theorem anytls_session_opens:
  assumes "session_new rng (sha256 pw) scheme idle = Some (auth, cs)"
    and "length (sha256 pw) = 32" and "rng_ok rng" and "scheme_all entry_small scheme"
    and "case fmlookup (ps_policies scheme) 0 of Some (CheckMark # _) \<Rightarrow> False | _ \<Rightarrow> True"
    and "list_all (\<lambda>b. b < 0x80) (ps_hash scheme)" and "length (ps_hash scheme) = 32"
    and "u \<in> set users" and "au_password u = pw"
  shows "inbound_session_new sha256 observer users (auth @ frame_enc (hd (wl_queue (as_write cs))) @ rest) =
    Inr (observer (sha256 pw), frame_enc (ServerSettings, 0, str ''v=2'' @ [0x0A]), rest)"
proof -
  obtain n where n: "n < 65536" "auth = sha256 pw @ to_be 2 (of_nat n :: u16) @ replicate n 0"
    using first_size_small [OF assms(3-5)] assms(1,2)
    by (auto simp: session_new_def anytls_authenticate_def Let_def vec_resize_def split: if_splits)
  have q: "hd (wl_queue (as_write cs)) = (Settings, 0, settings_data scheme)"
    using assms(1)
    by (auto simp: session_new_def write_loop_new_def can_queue_def SESSION_QUEUE_CAPACITY_def split: option.splits)
  have "length (settings_data scheme) < 65536"
    using assms(7) by (simp add: settings_data_def CLIENT_NAME_def PROTOCOL_VERSION_def show_nat.simps)
  then have f: "read_frame (frame_enc (Settings, 0, settings_data scheme) @ rest) = Inr ((Settings, 0, settings_data scheme), rest)"
    by (intro read_frame_enc) simp
  have "\<exists>u. anytls_auth sha256 observer users (sha256 pw) = Some u \<and> u = observer (sha256 pw)"
    using assms(8,9) by (auto simp: anytls_auth_def Let_def list_ex_iff)
  moreover have "unat (of_nat n :: u16) = n" using n(1) by (rule unat_of_nat_u16)
  moreover have "read_exact 32 (sha256 pw @ y) = Some (sha256 pw, y)" for y
    using assms(2) by (rule read_exact_append)
  moreover have "show_nat PROTOCOL_VERSION = [0x32]" by (simp add: PROTOCOL_VERSION_def show_nat.simps)
  moreover have "read_exact n (replicate n 0 @ y) = Some (replicate n 0, y)" for y
    by (rule read_exact_append) simp
  moreover have "0 < (of_nat n :: u16) \<longleftrightarrow> n \<noteq> 0"
    using \<open>unat (of_nat n :: u16) = n\<close> by (simp add: word_less_nat_alt)
  ultimately show ?thesis
    unfolding inbound_session_new_def q n(2)
    by (cases "n = 0") (simp_all add: wire_simps f parse_version_settings [OF assms(6)] del: frame_enc.simps)
qed

definition sample_hash :: bytes where
  "sample_hash = replicate 32 0x61"

theorem anytls_session_opens_witness:
  "\<exists>auth cs. session_new least_draw (replicate 32 5) (sample_scheme\<lparr>ps_hash := sample_hash\<rparr>) False = Some (auth, cs) \<and>
     inbound_session_new (\<lambda>_. replicate 32 5) (\<lambda>_. None) [\<lparr>au_username = [1], au_password = [2]\<rparr>]
       (auth @ frame_enc (hd (wl_queue (as_write cs))) @ [7]) =
     Inr (None, frame_enc (ServerSettings, 0, str ''v=2'' @ [0x0A]), [7])"
proof -
  let ?sc = "sample_scheme\<lparr>ps_hash := sample_hash\<rparr>"
  obtain auth cs where new: "session_new least_draw (replicate 32 5) ?sc False = Some (auth, cs)"
    by (auto simp: session_new_def anytls_authenticate_def Let_def generate_record_payload_sizes_def sample_scheme_def)
  have "scheme_all entry_small ?sc" by (simp add: scheme_all_def sample_scheme_def fmpred_upd)
  moreover have "case fmlookup (ps_policies ?sc) 0 of Some (CheckMark # _) \<Rightarrow> False | _ \<Rightarrow> True"
    by (simp add: sample_scheme_def)
  moreover have "list_all (\<lambda>b. b < 0x80) (ps_hash ?sc)" "length (ps_hash ?sc) = 32"
    by (simp_all add: sample_hash_def list_all_iff)
  ultimately show ?thesis
    using new anytls_session_opens [of least_draw "\<lambda>_. replicate 32 5" "[2]" ?sc False auth cs
        "\<lparr>au_username = [1], au_password = [2]\<rparr>" "[\<lparr>au_username = [1], au_password = [2]\<rparr>]" "\<lambda>_. None" "[7]"]
    by auto
qed

text \<open>One large datagram ends the session of every stream: a UDP payload that the socket accepts
  but whose packet with its address exceeds 65535 bytes is queued, and the turn of the write
  loop that takes it from the channel ends the loop.\<close>

theorem large_datagram_ends_session:
  assumes "\<not> us_is_connect u" and "length payload < 65536" and "65534 < encoded_len a + length payload"
    and "wl_queue w = []" and "\<not> wl_ended w" and "can_queue w"
  shows "\<exists>f. us_send_to payload a u = Inr f \<and>
    wl_ended (write_loop_turn rng None (write_event_step (Queue f) w))"
proof -
  let ?p = "uot_enc (Some a, payload)"
  have send: "us_send_to payload a u = Inr (Psh, us_stream_id u, ?p)"
    using assms(1,2) by (simp add: us_send_to_def encode_uot_packet_def u16_try_from_def)
  have "length ?p = encoded_len a + 2 + length payload"
    using uot_enc_ok [OF assms(2)] by (simp add: uot_header_def length_uot_write del: uot_enc.simps)
  with assms(3) have "append_frame (wl_buffer w) Psh (us_stream_id u) ?p = Inl PayloadTooLong"
    by (simp add: append_frame_def u16_try_from_def del: uot_enc.simps)
  with assms(4,6) send show ?thesis by (simp add: write_loop_turn_def del: uot_enc.simps)
qed

theorem large_datagram_ends_session_witness:
  "\<exists>f. us_send_to (replicate 65530 7) (Ip (SockV4 0 53)) \<lparr>us_stream_id = 1, us_chan = 0, us_read_buffer = [], us_is_connect = False\<rparr> = Inr f \<and>
    wl_ended (write_loop_turn least_draw None (write_event_step (Queue f) (write_loop_new sample_scheme)))"
  by (rule large_datagram_ends_session) (simp_all add: write_loop_new_def can_queue_def SESSION_QUEUE_CAPACITY_def)

text \<open>A peer can crash the server's session task with one byte: parsing the target address panics on
  exactly the payload \<open>[3]\<close>, a domain address without its length.\<close>

theorem syn_panic_iff:
  "parse_target_from_syn data = Inl SynPanic \<longleftrightarrow> data = [3]"
  by (auto simp: parse_target_from_syn_def Let_def split: list.splits if_splits option.splits)

end
