(* ===== verification/Anytls_Pool.thy ===== *)
theory Anytls_Pool
  imports Main
begin

text \<open>
  How an AnyTLS client shares its session between concurrent callers (\<open>AnytlsClient::get_session\<close>,
  \<open>live_session\<close>, \<open>create_session\<close> of \<open>src/src/proxy/outbound/anytls.rs\<close>, and the task that resets
  the session when the network interface changes). Every caller is a task; a step of the
  relation is what a task does between two awaits. A session is its sequence number; what
  matters here is whether it is dead.
  The result: a burst of callers creates one session, not one each.
\<close>

text \<open>Where a task is in \<open>get_session\<close>: before the first look, waiting for \<open>create_session_lock\<close>,
  holding it, connecting, about to store the session, returned.\<close>

datatype pool_pc = Asking | WantLock | HoldLock | Connecting | Storing nat | Got nat | Failed

record pool =
  pl_dead :: "bool list"
  pl_current :: "nat option"
  pl_lock :: "nat option"
  pl_pc :: "nat \<Rightarrow> pool_pc"

definition pool_new :: pool where
  "pool_new = \<lparr>pl_dead = [], pl_current = None, pl_lock = None, pl_pc = (\<lambda>_. Asking)\<rparr>"

definition is_live :: "pool \<Rightarrow> nat \<Rightarrow> bool" where
  "is_live s i \<longleftrightarrow> i < length (pl_dead s) \<and> \<not> pl_dead s ! i"

definition live_session :: "pool \<Rightarrow> nat option \<times> pool" where
  "live_session s =
     (case pl_current s of
        Some i \<Rightarrow> if is_live s i then (Some i, s) else (None, s\<lparr>pl_current := None\<rparr>)
      | None \<Rightarrow> (None, s))"

definition create_session :: "pool \<Rightarrow> nat \<times> pool" where
  "create_session s = (length (pl_dead s), s\<lparr>pl_dead := pl_dead s @ [False]\<rparr>)"

definition at :: "nat \<Rightarrow> pool_pc \<Rightarrow> pool \<Rightarrow> pool" where
  "at t pc s = s\<lparr>pl_pc := (pl_pc s)(t := pc)\<rparr>"

text \<open>One step of \<open>get_session\<close>; \<open>connected\<close> says whether a connection attempt succeeds. \<open>None\<close>: the
  task waits or has returned.\<close>

definition get_session_step :: "bool \<Rightarrow> bool \<Rightarrow> nat \<Rightarrow> pool \<Rightarrow> pool option" where
  "get_session_step disable_mux connected t s =
     (case pl_pc s t of
        Asking \<Rightarrow>
          if disable_mux then
            Some (if connected then (case create_session s of (i, s1) \<Rightarrow> at t (Got i) s1) else at t Failed s)
          else
            Some (case live_session s of
              (Some i, s1) \<Rightarrow> at t (Got i) s1
            | (None, s1) \<Rightarrow> at t WantLock s1)
      | WantLock \<Rightarrow> if pl_lock s = None then Some (at t HoldLock (s\<lparr>pl_lock := Some t\<rparr>)) else None
      | HoldLock \<Rightarrow>
          Some (case live_session s of
            (Some i, s1) \<Rightarrow> at t (Got i) (s1\<lparr>pl_lock := None\<rparr>)
          | (None, s1) \<Rightarrow> at t Connecting s1)
      | Connecting \<Rightarrow>
          Some (if connected then (case create_session s of (i, s1) \<Rightarrow> at t (Storing i) s1)
                else at t Failed (s\<lparr>pl_lock := None\<rparr>))
      | Storing i \<Rightarrow> Some (at t (Got i) (s\<lparr>pl_current := Some i, pl_lock := None\<rparr>))
      | Got i \<Rightarrow> None
      | Failed \<Rightarrow> None)"

text \<open>\<open>finish\<close> of a session, and the reset task's \<open>take\<close> and \<open>finish\<close>.\<close>

definition finish_session :: "nat \<Rightarrow> pool \<Rightarrow> pool" where
  "finish_session i s = s\<lparr>pl_dead := (pl_dead s)[i := True]\<rparr>"

definition reset_session :: "pool \<Rightarrow> pool" where
  "reset_session s =
     (case pl_current s of None \<Rightarrow> s | Some i \<Rightarrow> finish_session i (s\<lparr>pl_current := None\<rparr>))"

text \<open>Runs with multiplexing, with the number of sessions lost on the way.\<close>

inductive pool_run :: "nat \<Rightarrow> pool \<Rightarrow> bool" where
  new: "pool_run 0 pool_new"
| task: "pool_run n s \<Longrightarrow> get_session_step False connected t s = Some s' \<Longrightarrow> pool_run n s'"
| died: "pool_run n s \<Longrightarrow> pool_run (Suc n) (finish_session i s)"
| reset: "pool_run n s \<Longrightarrow> pool_run (Suc n) (reset_session s)"

subsection \<open>The lock protects creation\<close>

fun holds_lock :: "pool_pc \<Rightarrow> bool" where
  "holds_lock HoldLock = True"
| "holds_lock Connecting = True"
| "holds_lock (Storing _) = True"
| "holds_lock _ = False"

definition current_live :: "pool \<Rightarrow> bool" where
  "current_live s \<longleftrightarrow> (\<exists>i. pl_current s = Some i \<and> is_live s i)"

text \<open>What the holder of the lock is doing.\<close>

definition phase :: "pool \<Rightarrow> pool_pc" where
  "phase s = (case pl_lock s of None \<Rightarrow> Asking | Some t \<Rightarrow> pl_pc s t)"

fun creating :: "pool_pc \<Rightarrow> bool" where
  "creating Connecting = True"
| "creating (Storing _) = True"
| "creating _ = False"

definition storing_live :: "pool \<Rightarrow> bool" where
  "storing_live s \<longleftrightarrow> (\<exists>i. phase s = Storing i \<and> is_live s i)"

definition lock_ok :: "pool \<Rightarrow> bool" where
  "lock_ok s \<longleftrightarrow> (\<forall>t. holds_lock (pl_pc s t) \<longleftrightarrow> pl_lock s = Some t)"

definition ids_ok :: "pool \<Rightarrow> bool" where
  "ids_ok s \<longleftrightarrow>
     (\<forall>i. pl_current s = Some i \<longrightarrow> i < length (pl_dead s)) \<and> (\<forall>i. phase s = Storing i \<longrightarrow> i < length (pl_dead s))"

definition pool_inv :: "nat \<Rightarrow> pool \<Rightarrow> bool" where
  "pool_inv n s \<longleftrightarrow>
     lock_ok s \<and> ids_ok s \<and> (creating (phase s) \<longrightarrow> \<not> current_live s) \<and>
     length (pl_dead s) \<le> n + of_bool (current_live s \<or> storing_live s)"

lemma live_session_current:
  "fst (live_session s) = None \<longleftrightarrow> \<not> current_live s"
  "current_live (snd (live_session s)) = current_live s"
  by (auto simp: live_session_def current_live_def split: option.splits)

lemma live_session_same [simp]:
  "pl_dead (snd (live_session s)) = pl_dead s" "pl_lock (snd (live_session s)) = pl_lock s"
  "pl_pc (snd (live_session s)) = pl_pc s"
  by (simp_all add: live_session_def split: option.splits)

lemma at_simps [simp]:
  "pl_dead (at t pc s) = pl_dead s" "pl_lock (at t pc s) = pl_lock s" "pl_current (at t pc s) = pl_current s"
  by (simp_all add: at_def)

lemma current_live_cong:
  "pl_current s' = pl_current s \<Longrightarrow> pl_dead s' = pl_dead s \<Longrightarrow> current_live s' = current_live s"
  by (simp add: current_live_def is_live_def)

lemma storing_live_cong: "phase s' = phase s \<Longrightarrow> pl_dead s' = pl_dead s \<Longrightarrow> storing_live s' = storing_live s"
  by (simp add: storing_live_def is_live_def)

lemma not_storing: "\<not> creating (phase s) \<Longrightarrow> \<not> storing_live s"
  by (auto simp: storing_live_def)

text \<open>A step that creates nothing keeps the bound if it loses no live session.\<close>

lemma pool_inv_step:
  assumes "pool_inv n s" and "lock_ok s'" and "ids_ok s'" and "pl_dead s' = pl_dead s"
    and "current_live s \<or> storing_live s \<Longrightarrow> current_live s' \<or> storing_live s'"
    and "creating (phase s') \<Longrightarrow> \<not> current_live s'"
  shows "pool_inv n s'"
  using assms by (auto simp: pool_inv_def of_bool_def split: if_splits)

lemma phase_live [simp]: "phase (snd (live_session s)) = phase s"
  by (simp add: phase_def cong: option.case_cong)

lemma pool_inv_live: "pool_inv n s \<Longrightarrow> pool_inv n (snd (live_session s))"
  by (rule pool_inv_step)
    (auto simp: pool_inv_def lock_ok_def live_session_current storing_live_def is_live_def ids_ok_def,
      auto simp: live_session_def split: option.splits if_splits)

text \<open>A task that does not hold the lock moves without touching the rest.\<close>

lemma pool_inv_at:
  assumes "pool_inv n s" and "\<not> holds_lock (pl_pc s t)" and "\<not> holds_lock pc"
  shows "pool_inv n (at t pc s)"
proof -
  have "pl_lock s \<noteq> Some t" using assms(1,2) by (auto simp: pool_inv_def lock_ok_def)
  then have ph: "phase (at t pc s) = phase s" by (auto simp: phase_def at_def split: option.split)
  have "lock_ok (at t pc s)" using assms by (auto simp: pool_inv_def lock_ok_def at_def)
  with assms(1) show ?thesis
    by (intro pool_inv_step [OF assms(1)])
      (auto simp: ph pool_inv_def ids_ok_def current_live_cong [of "at t pc s" s] storing_live_cong [OF ph])
qed

text \<open>The holder moves on, with or without the lock.\<close>

lemma lock_ok_move:
  assumes "lock_ok s" and "pl_lock s = Some t \<or> pl_lock s = None"
  shows "holds_lock pc \<Longrightarrow> lock_ok (at t pc (s\<lparr>pl_lock := Some t\<rparr>))"
    and "\<not> holds_lock pc \<Longrightarrow> lock_ok (at t pc (s\<lparr>pl_lock := None\<rparr>))"
  using assms by (auto simp: lock_ok_def at_def)

lemma lock_holder: "pool_inv n s \<Longrightarrow> holds_lock (pl_pc s t) \<Longrightarrow> pl_lock s = Some t"
  by (simp add: pool_inv_def lock_ok_def)

lemma phase_at [simp]:
  "phase (at t pc (s\<lparr>pl_lock := Some t\<rparr>)) = pc" "phase (at t pc (s\<lparr>pl_lock := None\<rparr>)) = Asking"
  by (simp_all add: phase_def at_def)

lemma pool_inv_unlock:
  assumes "pool_inv n s" and "pl_lock s = Some t \<or> pl_lock s = None" and "\<not> holds_lock pc" and "\<not> creating (phase s) \<or> \<not> storing_live s"
  shows "pool_inv n (at t pc (s\<lparr>pl_lock := None\<rparr>))"
proof (rule pool_inv_step [OF assms(1)])
  show "lock_ok (at t pc (s\<lparr>pl_lock := None\<rparr>))"
    using assms(1-3) by (intro lock_ok_move(2)) (auto simp: pool_inv_def)
  show "current_live (at t pc (s\<lparr>pl_lock := None\<rparr>)) \<or> storing_live (at t pc (s\<lparr>pl_lock := None\<rparr>))"
    if "current_live s \<or> storing_live s"
    using that assms(4) not_storing [of s] current_live_cong [of "at t pc (s\<lparr>pl_lock := None\<rparr>)" s] by auto
qed (use assms(1) in \<open>auto simp: pool_inv_def ids_ok_def\<close>)

lemma pool_inv_task:
  assumes inv: "pool_inv n s" and st: "get_session_step False connected t s = Some s'"
  shows "pool_inv n s'"
proof (cases "pl_pc s t")
  case Asking
  let ?s = "snd (live_session s)"
  from Asking have "\<not> holds_lock (pl_pc ?s t)" by simp
  then have "pool_inv n (at t pc ?s)" if "\<not> holds_lock pc" for pc
    using pool_inv_at [OF pool_inv_live [OF inv]] that by blast
  then have "pool_inv n (at t (Got i) ?s)" "pool_inv n (at t WantLock ?s)" for i by simp_all
  with Asking st show ?thesis by (auto simp: get_session_step_def split: prod.splits option.splits)
next
  case WantLock
  with st have lock: "pl_lock s = None" and s': "s' = at t HoldLock (s\<lparr>pl_lock := Some t\<rparr>)"
    by (auto simp: get_session_step_def split: if_splits)
  have "lock_ok s'" unfolding s' using inv lock by (intro lock_ok_move(1)) (auto simp: pool_inv_def)
  moreover have "\<not> storing_live s" by (rule not_storing) (simp add: phase_def lock)
  moreover have "current_live s' = current_live s" by (rule current_live_cong) (simp_all add: s')
  ultimately show ?thesis using inv unfolding s'
    by (intro pool_inv_step [OF inv]) (auto simp: pool_inv_def ids_ok_def)
next
  case HoldLock
  let ?s = "snd (live_session s)"
  have inv1: "pool_inv n ?s" by (rule pool_inv_live [OF inv])
  from HoldLock lock_holder [OF inv, of t] have lock: "pl_lock ?s = Some t" by simp
  then have ph: "phase ?s = HoldLock" using HoldLock by (simp add: phase_def)
  show ?thesis
  proof (cases "fst (live_session s)")
    case None
    have "?s\<lparr>pl_lock := Some t\<rparr> = ?s" unfolding lock [symmetric] by simp
    moreover have "s' = at t Connecting ?s"
      using None HoldLock st by (auto simp: get_session_step_def split: prod.splits)
    ultimately have s': "s' = at t Connecting (?s\<lparr>pl_lock := Some t\<rparr>)" by simp
    have "lock_ok s'" unfolding s' using inv1 lock by (intro lock_ok_move(1)) (auto simp: pool_inv_def)
    moreover have "\<not> current_live ?s" using None live_session_current by simp
    moreover have "current_live s' = current_live ?s" by (rule current_live_cong) (simp_all add: s')
    ultimately show ?thesis using inv1 not_storing [of ?s] ph unfolding s'
      by (intro pool_inv_step [OF inv1]) (auto simp: pool_inv_def ids_ok_def)
  next
    case (Some i)
    with HoldLock st have "s' = at t (Got i) (?s\<lparr>pl_lock := None\<rparr>)"
      by (auto simp: get_session_step_def split: prod.splits)
    with pool_inv_unlock [OF inv1] lock ph show ?thesis by simp
  qed
next
  case Connecting
  from Connecting lock_holder [OF inv, of t] have lock: "pl_lock s = Some t" by simp
  then have ph: "phase s = Connecting" using Connecting by (simp add: phase_def)
  with inv have nl: "\<not> current_live s" "\<not> storing_live s" "length (pl_dead s) \<le> n"
    by (auto simp: pool_inv_def storing_live_def)
  show ?thesis
  proof (cases connected)
    case True
    let ?i = "length (pl_dead s)" and ?s = "s\<lparr>pl_dead := pl_dead s @ [False]\<rparr>"
    have "?s\<lparr>pl_lock := Some t\<rparr> = ?s" unfolding lock [symmetric] by simp
    moreover have "s' = at t (Storing ?i) ?s"
      using True Connecting st by (simp add: get_session_step_def create_session_def)
    ultimately have s': "s' = at t (Storing ?i) (?s\<lparr>pl_lock := Some t\<rparr>)" by simp
    have "lock_ok s'" unfolding s' using inv lock by (intro lock_ok_move(1)) (auto simp: pool_inv_def lock_ok_def)
    moreover have "storing_live s'" by (simp add: storing_live_def s' is_live_def)
    moreover have "\<not> current_live s'"
      using nl(1) inv by (auto simp: current_live_def s' is_live_def nth_append pool_inv_def ids_ok_def)
    ultimately show ?thesis using nl inv by (auto simp: pool_inv_def ids_ok_def s')
  next
    case False
    with Connecting st have "s' = at t Failed (s\<lparr>pl_lock := None\<rparr>)" by (simp add: get_session_step_def)
    with pool_inv_unlock [OF inv] lock nl show ?thesis by simp
  qed
next
  case (Storing i)
  from Storing lock_holder [OF inv, of t] have lock: "pl_lock s = Some t" by simp
  then have ph: "phase s = Storing i" using Storing by (simp add: phase_def)
  from Storing st have s': "s' = at t (Got i) (s\<lparr>pl_current := Some i, pl_lock := None\<rparr>)"
    by (simp add: get_session_step_def)
  let ?s = "s\<lparr>pl_current := Some i\<rparr>"
  have "lock_ok (at t (Got i) (?s\<lparr>pl_lock := None\<rparr>))"
    using inv lock by (intro lock_ok_move(2)) (auto simp: pool_inv_def lock_ok_def)
  then have "lock_ok s'" by (simp add: s')
  moreover have "current_live s' \<longleftrightarrow> storing_live s"
    by (simp add: storing_live_def ph current_live_def s' is_live_def)
  moreover have "\<not> current_live s" using inv ph by (simp add: pool_inv_def)
  moreover have "phase s' = Asking" unfolding s' using phase_at(2) [of t "Got i" ?s] by simp
  moreover have "ids_ok s'" using inv ph \<open>phase s' = Asking\<close> by (auto simp: pool_inv_def ids_ok_def s')
  ultimately show ?thesis by (intro pool_inv_step [OF inv]) (auto simp: s')
qed (use st in \<open>simp_all add: get_session_step_def\<close>)

lemma pool_inv_finish:
  assumes "pool_inv n s"
  shows "pool_inv (Suc n) (finish_session i s)"
proof -
  let ?s = "finish_session i s"
  have "phase ?s = phase s" by (simp add: phase_def finish_session_def cong: option.case_cong)
  moreover have "is_live s j" if "is_live ?s j" for j
    using that by (cases "i = j") (auto simp: is_live_def finish_session_def)
  then have "current_live ?s \<Longrightarrow> current_live s" by (auto simp: current_live_def finish_session_def)
  moreover have "lock_ok ?s" "ids_ok ?s"
    using assms \<open>phase ?s = phase s\<close> by (auto simp: pool_inv_def lock_ok_def ids_ok_def finish_session_def)
  ultimately show ?thesis using assms
    by (auto simp: pool_inv_def) (auto simp: finish_session_def of_bool_def split: if_splits)
qed

lemma pool_inv_reset:
  assumes "pool_inv n s"
  shows "pool_inv (Suc n) (reset_session s)"
proof (cases "pl_current s")
  case None
  with assms show ?thesis by (auto simp: reset_session_def pool_inv_def)
next
  case (Some i)
  let ?s = "reset_session s"
  have eq: "?s = (finish_session i s)\<lparr>pl_current := None\<rparr>" using Some by (simp add: reset_session_def finish_session_def)
  have "phase ?s = phase s" by (simp add: phase_def eq finish_session_def cong: option.case_cong)
  moreover have "lock_ok ?s" "ids_ok ?s"
    using assms \<open>phase ?s = phase s\<close> by (auto simp: pool_inv_def lock_ok_def ids_ok_def eq finish_session_def)
  moreover have "\<not> current_live ?s" by (simp add: current_live_def eq)
  ultimately show ?thesis using assms
    by (auto simp: pool_inv_def of_bool_def split: if_splits) (auto simp: eq finish_session_def)
qed

lemma pool_inv_new: "pool_inv 0 pool_new"
  by (simp add: pool_inv_def pool_new_def lock_ok_def ids_ok_def phase_def current_live_def)

lemma pool_run_inv: "pool_run n s \<Longrightarrow> pool_inv n s"
  by (induction rule: pool_run.induct) (auto intro: pool_inv_new pool_inv_task pool_inv_finish pool_inv_reset)

subsection \<open>Properties\<close>

text \<open>C10. A burst of callers shares one session. However many callers ask for a session and however
  their steps interleave, with multiplexing the number of sessions ever created is at most
  one more than the number of sessions lost (finished or reset); and only one caller at a
  time is connecting.\<close>

theorem one_session_per_loss:
  assumes "pool_run lost s"
  shows "length (pl_dead s) \<le> Suc lost \<and> (holds_lock (pl_pc s t) \<and> holds_lock (pl_pc s u) \<longrightarrow> t = u)"
  using pool_run_inv [OF assms] by (auto simp: pool_inv_def lock_ok_def of_bool_def split: if_splits)

text \<open>Two callers arrive before there is a session; the first connects, the second gets the same.\<close>

definition burst :: "nat list" where
  "burst = [0, 1, 0, 0, 0, 0, 1, 1]"

fun run_tasks :: "nat list \<Rightarrow> pool \<Rightarrow> pool option" where
  "run_tasks [] s = Some s"
| "run_tasks (t # ts) s = (case get_session_step False True t s of None \<Rightarrow> None | Some s1 \<Rightarrow> run_tasks ts s1)"

lemma run_tasks_run: "pool_run n s \<Longrightarrow> run_tasks ts s = Some s' \<Longrightarrow> pool_run n s'"
  by (induction ts arbitrary: s) (auto split: option.splits intro: pool_run.task)

theorem one_session_per_loss_witness:
  "\<exists>s. run_tasks burst pool_new = Some s \<and> pl_pc s 0 = Got 0 \<and> pl_pc s 1 = Got 0 \<and> length (pl_dead s) \<le> Suc 0"
proof -
  obtain s where s: "run_tasks burst pool_new = Some s" "pl_pc s 0 = Got 0" "pl_pc s 1 = Got 0"
    by (simp add: burst_def pool_new_def get_session_step_def live_session_def create_session_def at_def is_live_def)
  with one_session_per_loss [OF run_tasks_run [OF pool_run.new s(1)]] show ?thesis by blast
qed

end
