(* ===== verification/Dialogue.thy ===== *)
theory Dialogue
  imports Target_Addr
begin

text \<open>
  Handshakes in which both sides send and receive in turn. A side is a process that reads an
  exact number of bytes, writes bytes, or has returned; \<open>run_on\<close> runs it on a given input, and
  \<open>dstep\<close> lets two processes take steps in any order over a connection with unbounded buffers.
  The order does not matter: steps of the two sides commute, so if some schedule reaches a
  state in which neither side can move, every schedule does, in the same number of steps.
\<close>

subsection \<open>Processes\<close>

datatype 'r proc = Recv nat "bytes \<Rightarrow> 'r proc" | Send bytes "'r proc" | Ret 'r

text \<open>On a given input: the bytes written, and the result with the rest of the input, or \<open>None\<close>
  when the input ends early.\<close>

primrec run_on :: "'r proc \<Rightarrow> bytes \<Rightarrow> bytes \<times> ('r \<times> bytes) option" where
  "run_on (Recv n f) s = (if n \<le> length s then run_on (f (take n s)) (drop n s) else ([], None))"
| "run_on (Send x p) s = apfst (\<lambda>out. x @ out) (run_on p s)"
| "run_on (Ret r) s = ([], Some (r, s))"

text \<open>\<open>TargetAddr::read_from\<close> as a process.\<close>

definition recv_target :: "(addr_error + target_addr \<Rightarrow> 'r proc) \<Rightarrow> 'r proc" where
  "recv_target k =
     Recv 1 (\<lambda>t. let atyp = t ! 0 in
       if atyp = 1 then
         Recv 4 (\<lambda>ip. Recv 2 (\<lambda>p. k (Inr (Ip (sock_new (V4 (from_be ip)) (from_be p))))))
       else if atyp = 3 then
         Recv 1 (\<lambda>l. Recv (unat (l ! 0)) (\<lambda>d. Recv 2 (\<lambda>p. k (read_domain_target d (from_be p)))))
       else if atyp = 4 then
         Recv 16 (\<lambda>ip. Recv 2 (\<lambda>p. k (Inr (Ip (sock_new (V6 (from_be ip)) (from_be p))))))
       else k (Inl (InvalidAtyp atyp)))"

lemma run_on_recv_target:
  assumes "read_from s = Inr (t, rest)"
  shows "run_on (recv_target k) s = run_on (k (Inr t)) rest"
proof -
  from assms obtain b s1 where s: "s = b # s1" by (cases s) (auto simp: read_from_def)
  then show ?thesis using assms
    by (auto simp: recv_target_def read_from_def read_exact_def read_be_alt read_u8_def bindr_Inr_iff Let_def
        split: if_splits list.splits)
qed

subsection \<open>Two processes over a connection\<close>

type_synonym ('a, 'b) dialogue = "'a proc \<times> 'b proc \<times> bytes \<times> bytes"

text \<open>The components of a state: the left and the right process, the bytes under way to the
  right, the bytes under way to the left.\<close>

fun pstep :: "'r proc \<Rightarrow> bytes \<Rightarrow> ('r proc \<times> bytes \<times> bytes) option" where
  "pstep (Send x p) s = Some (p, s, x)"
| "pstep (Recv n f) s = (if n \<le> length s then Some (f (take n s), drop n s, []) else None)"
| "pstep (Ret r) s = None"

definition left_step :: "('a, 'b) dialogue \<Rightarrow> ('a, 'b) dialogue option" where
  "left_step = (\<lambda>(p, q, ab, ba). map_option (\<lambda>(p', ba', out). (p', q, ab @ out, ba')) (pstep p ba))"

definition right_step :: "('a, 'b) dialogue \<Rightarrow> ('a, 'b) dialogue option" where
  "right_step = (\<lambda>(p, q, ab, ba). map_option (\<lambda>(q', ab', out). (p, q', ab', ba @ out)) (pstep q ab))"

inductive dstep :: "('a, 'b) dialogue \<Rightarrow> ('a, 'b) dialogue \<Rightarrow> bool" where
  left: "left_step c = Some d \<Longrightarrow> dstep c d"
| right: "right_step c = Some d \<Longrightarrow> dstep c d"

inductive_simps dstep_iff: "dstep c d"

definition stuck :: "('a, 'b) dialogue \<Rightarrow> bool" where
  "stuck c \<longleftrightarrow> left_step c = None \<and> right_step c = None"

text \<open>An executable schedule: the left side moves when it can. The number of turns is the fuel.\<close>

fun dialogue :: "nat \<Rightarrow> ('a, 'b) dialogue \<Rightarrow> ('a, 'b) dialogue" where
  "dialogue 0 c = c"
| "dialogue (Suc n) c =
     (case left_step c of
        Some d \<Rightarrow> dialogue n d
      | None \<Rightarrow> (case right_step c of Some d \<Rightarrow> dialogue n d | None \<Rightarrow> c))"

lemma pstep_more: "pstep p s = Some (p', s', out) \<Longrightarrow> pstep p (s @ m) = Some (p', s' @ m, out)"
  by (cases p) (auto split: if_splits)

text \<open>Steps of the two sides commute.\<close>

lemma steps_commute:
  assumes "left_step c = Some d" and "right_step c = Some e"
  shows "\<exists>f. right_step d = Some f \<and> left_step e = Some f"
  using assms by (auto simp: left_step_def right_step_def pstep_more split: prod.splits)

lemma dstep_diamond: "dstep c d \<Longrightarrow> dstep c e \<Longrightarrow> d = e \<or> (\<exists>f. dstep d f \<and> dstep e f)"
  unfolding dstep_iff using steps_commute [of c] by fastforce

lemma stuck_iff: "stuck c \<longleftrightarrow> (\<forall>d. \<not> dstep c d)"
  by (cases "left_step c"; cases "right_step c") (auto simp: stuck_def dstep_iff simp del: split_paired_All split_paired_Ex)

lemma stuck_relpowp:
  assumes "stuck c" and "(dstep ^^ n) c d"
  shows "n = 0 \<and> d = c"
proof (cases n)
  case (Suc m)
  with assms(2) obtain e where "dstep c e" by (blast dest: relpowp_Suc_D2)
  with assms(1) show ?thesis unfolding stuck_iff by blast
qed (use assms(2) in simp)

text \<open>If some run of \<open>n\<close> steps ends stuck, every run is a prefix of a run of \<open>n\<close> steps to the same end.\<close>

lemma uniform_end:
  assumes "(dstep ^^ n) c t" and "stuck t" and "(dstep ^^ m) c d"
  shows "m \<le> n \<and> (dstep ^^ (n - m)) d t"
  using assms
proof (induction n arbitrary: c m d)
  case 0
  then show ?case using stuck_relpowp [of t m d] by simp
next
  case (Suc n)
  from Suc.prems(1) obtain c1 where c1: "dstep c c1" "(dstep ^^ n) c1 t" by (blast dest: relpowp_Suc_D2)
  have step: "(dstep ^^ n) e t" if "dstep c e" for e
  proof -
    from dstep_diamond [OF c1(1) that] show ?thesis
    proof
      assume "\<exists>f. dstep c1 f \<and> dstep e f"
      then obtain f where f: "dstep c1 f" "dstep e f" by blast
      from Suc.IH [OF c1(2) Suc.prems(2), of 1 f] f(1) have "1 \<le> n" "(dstep ^^ (n - 1)) f t" by auto
      with f(2) show ?thesis using relpowp_Suc_I2 [of dstep e f "n - 1" t] by simp
    qed (use c1 in simp)
  qed
  show ?case
  proof (cases m)
    case 0
    with Suc.prems show ?thesis by simp
  next
    case (Suc m')
    with Suc.prems(3) obtain e where e: "dstep c e" "(dstep ^^ m') e d" by (blast dest: relpowp_Suc_D2)
    from Suc.IH [OF step [OF e(1)] Suc.prems(2) e(2)] Suc show ?thesis by simp
  qed
qed

lemma dialogue_run: "\<exists>m \<le> n. (dstep ^^ m) c (dialogue n c)"
proof (induction n arbitrary: c)
  case (Suc n)
  show ?case
  proof (cases "stuck c")
    case True
    then show ?thesis by (auto simp: stuck_def intro: exI [of _ 0])
  next
    case False
    then obtain d where d: "dstep c d" "dialogue (Suc n) c = dialogue n d"
      by (cases "left_step c") (auto simp: stuck_def dstep_iff split: option.splits)
    from Suc.IH [of d] obtain m where "m \<le> n" "(dstep ^^ m) d (dialogue n d)" by blast
    then have "(dstep ^^ Suc m) c (dialogue (Suc n) c)" using d relpowp_Suc_I2 [of dstep c d m] by simp
    with \<open>m \<le> n\<close> show ?thesis by (intro exI [of _ "Suc m"]) simp
  qed
qed simp

text \<open>What one schedule reaches, every schedule reaches.\<close>

lemma dialogue_unique:
  assumes "stuck (dialogue n c)" and "dstep\<^sup>*\<^sup>* c d"
  shows "dstep\<^sup>*\<^sup>* d (dialogue n c) \<and> (stuck d \<longrightarrow> d = dialogue n c)"
proof -
  obtain k where k: "(dstep ^^ k) c (dialogue n c)" using dialogue_run [of n c] by blast
  from assms(2) obtain m where "(dstep ^^ m) c d" by (auto simp: rtranclp_power)
  from uniform_end [OF k assms(1) this] have run: "(dstep ^^ (k - m)) d (dialogue n c)" by blast
  then have "dstep\<^sup>*\<^sup>* d (dialogue n c)" by (rule relpowp_imp_rtranclp)
  moreover have "d = dialogue n c" if "stuck d"
    using stuck_relpowp [OF that run] by simp
  ultimately show ?thesis by blast
qed

lemma end_unique:
  assumes "dstep\<^sup>*\<^sup>* c t" and "stuck t" and "dstep\<^sup>*\<^sup>* c d"
  shows "dstep\<^sup>*\<^sup>* d t"
proof -
  from assms(1,3) obtain n m where "(dstep ^^ n) c t" "(dstep ^^ m) c d" by (auto simp: rtranclp_power)
  with uniform_end [of n c t m d] assms(2) show ?thesis by (auto intro: relpowp_imp_rtranclp)
qed

text \<open>Such a dialogue always ends: no schedule runs forever.\<close>

lemma no_infinite_run:
  assumes "dstep\<^sup>*\<^sup>* c t" and "stuck t"
  shows "\<not> (\<exists>run. run 0 = c \<and> (\<forall>i. dstep (run i) (run (Suc i))))"
proof
  assume "\<exists>run. run 0 = c \<and> (\<forall>i. dstep (run i) (run (Suc i)))"
  then obtain run where start: "run 0 = c" and steps: "\<And>i. dstep (run i) (run (Suc i))" by blast
  have path: "(dstep ^^ i) c (run i)" for i
    by (induction i) (auto simp: start intro: steps relpowp_Suc_I)
  from assms(1) obtain n where "(dstep ^^ n) c t" by (auto simp: rtranclp_power)
  from uniform_end [OF this assms(2) path [of "Suc n"]] show False by simp
qed

text \<open>Every schedule from \<open>c\<close> comes to an end, and the end is \<open>t\<close>.\<close>

definition always_ends :: "('a, 'b) dialogue \<Rightarrow> ('a, 'b) dialogue \<Rightarrow> bool" where
  "always_ends c t \<longleftrightarrow>
     \<not> (\<exists>run. run 0 = c \<and> (\<forall>i. dstep (run i) (run (Suc i)))) \<and>
     (\<forall>d. dstep\<^sup>*\<^sup>* c d \<longrightarrow> stuck d \<longrightarrow> d = t)"

lemma always_endsI:
  assumes "dstep\<^sup>*\<^sup>* c t" and "stuck t"
  shows "always_ends c t"
  unfolding always_ends_def
proof (intro conjI allI impI)
  show "\<not> (\<exists>run. run 0 = c \<and> (\<forall>i. dstep (run i) (run (Suc i))))" by (rule no_infinite_run [OF assms])
  fix d assume "dstep\<^sup>*\<^sup>* c d" "stuck d"
  with end_unique [OF assms] show "d = t" by (meson converse_rtranclpE stuck_iff)
qed

lemma stuck_returned: "stuck (Ret a, Ret b, ab, ba)"
  by (simp add: stuck_def left_step_def right_step_def)

subsection \<open>Messages\<close>

text \<open>A process reads a whole message, in as many pieces as it likes.\<close>

inductive reads :: "bytes \<Rightarrow> 'r proc \<Rightarrow> 'r proc \<Rightarrow> bool" where
  nothing: "reads [] q q"
| piece: "length y = n \<Longrightarrow> reads x (f y) q \<Longrightarrow> reads (y @ x) (Recv n f) q"

lemma reads_one: "length x = n \<Longrightarrow> reads x (Recv n f) (f x)"
  using reads.piece [OF _ reads.nothing] by fastforce

lemma reads_trans: "reads x p q \<Longrightarrow> reads y q r \<Longrightarrow> reads (x @ y) p r"
  by (induction rule: reads.induct) (auto intro: reads.piece)

lemma reads_right: "reads x q q' \<Longrightarrow> dstep\<^sup>*\<^sup>* (p, q, x @ z, ba) (p, q', z, ba)"
proof (induction rule: reads.induct)
  case (piece y n x f q)
  have "dstep (p, Recv n f, (y @ x) @ z, ba) (p, f y, x @ z, ba)"
    by (rule dstep.right) (use piece.hyps in \<open>simp add: right_step_def\<close>)
  from this piece.IH show ?case by (rule converse_rtranclp_into_rtranclp)
qed simp

lemma reads_left: "reads x p p' \<Longrightarrow> dstep\<^sup>*\<^sup>* (p, q, ab, x @ z) (p', q, ab, z)"
proof (induction rule: reads.induct)
  case (piece y n x f p)
  have "dstep (Recv n f, q, ab, (y @ x) @ z) (f y, q, ab, x @ z)"
    by (rule dstep.left) (use piece.hyps in \<open>simp add: left_step_def\<close>)
  from this piece.IH show ?case by (rule converse_rtranclp_into_rtranclp)
qed simp

text \<open>One side sends a message and the other reads it.\<close>

lemma left_says: "reads x q q' \<Longrightarrow> dstep\<^sup>*\<^sup>* (p, q', [], []) d \<Longrightarrow> dstep\<^sup>*\<^sup>* (Send x p, q, [], []) d"
proof -
  assume r: "reads x q q'" and rest: "dstep\<^sup>*\<^sup>* (p, q', [], []) d"
  have "dstep (Send x p, q, [], []) (p, q, x, [])" by (rule dstep.left) (simp add: left_step_def)
  moreover have "dstep\<^sup>*\<^sup>* (p, q, x, []) (p, q', [], [])" using reads_right [OF r, of p "[]" "[]"] by simp
  ultimately show ?thesis using rest by (meson converse_rtranclp_into_rtranclp rtranclp_trans)
qed

lemma right_says: "reads x p p' \<Longrightarrow> dstep\<^sup>*\<^sup>* (p', q, [], []) d \<Longrightarrow> dstep\<^sup>*\<^sup>* (p, Send x q, [], []) d"
proof -
  assume r: "reads x p p'" and rest: "dstep\<^sup>*\<^sup>* (p', q, [], []) d"
  have "dstep (p, Send x q, [], []) (p, q, [], x)" by (rule dstep.right) (simp add: right_step_def)
  moreover have "dstep\<^sup>*\<^sup>* (p, q, [], x) (p', q, [], [])" using reads_left [OF r, of q "[]" "[]"] by simp
  ultimately show ?thesis using rest by (meson converse_rtranclp_into_rtranclp rtranclp_trans)
qed

lemma reads_take: "n \<le> length x \<Longrightarrow> reads (drop n x) (f (take n x)) q \<Longrightarrow> reads x (Recv n f) q"
  using reads.piece [of "take n x" n "drop n x" f q] by simp

lemma reads_read_from:
  assumes "read_from x = Inr (t, [])"
  shows "reads x (recv_target k) (k (Inr t))"
  using assms unfolding recv_target_def
  by (auto simp: read_from_def read_exact_def read_be_alt read_u8_def bindr_Inr_iff Let_def
      reads.nothing intro!: reads_take split: if_splits list.splits)

end
