(* ===== verification/Socks5.thy ===== *)
theory Socks5
  imports Dialogue Bound_Config
begin

text \<open>
  The SOCKS5 inbound (\<open>src/src/proxy/inbound/socks5.rs\<close>) and outbound
  (\<open>src/src/proxy/outbound/socks5.rs\<close>): the method negotiation, the user name and password
  exchange, the request and its reply on the control connection, and the datagram headers of a
  UDP association. The operating system's \<open>UdpSocket::bind\<close> is a parameter: it gives the
  address it bound, or fails. Client and server run against each other under every schedule.
\<close>

subsection \<open>The inbound\<close>

record socks_user =
  su_username :: bytes
  su_password :: bytes

datatype socks_error =
    NotSocks5
  | NoAcceptableMethods
  | UnsupportedAuthVersion
  | AuthenticationFailed
  | MalformedRequest
  | SocksTarget addr_error
  | BindFailed
  | UnsupportedCommand u8
  | InvalidVersion u8
  | NoCredentials
  | UnsupportedMethod u8
  | DomainNameTooLong
  | InvalidReplyVersion
  | ConnectFailed u8
  | RelayIsDomain

datatype socks5_handler = SocksStream target_addr | SocksPacket socket_addr socket_addr

definition socks_users :: "inbound_config \<Rightarrow> socks_user list option" where
  "socks_users cfg =
     (case (ib_username cfg, ib_password cfg) of
        (Some u, Some p) \<Rightarrow> Some [\<lparr>su_username = u, su_password = p\<rparr>]
      | _ \<Rightarrow> None)"

definition credentials_valid :: "socks_user list option \<Rightarrow> bytes \<Rightarrow> bytes \<Rightarrow> bool" where
  "credentials_valid users uname passwd =
     (case users of
        None \<Rightarrow> False
      | Some us \<Rightarrow> list_ex (\<lambda>u. su_username u = from_utf8_lossy uname \<and> su_password u = from_utf8_lossy passwd) us)"

definition choose_method :: "socks_user list option \<Rightarrow> bytes \<Rightarrow> u8 option" where
  "choose_method users methods =
     (if users \<noteq> None then (if 2 \<in> set methods then Some 2 else None)
      else (if 0 \<in> set methods then Some 0 else None))"

definition server_auth :: "socks_user list option \<Rightarrow> (socks_error + 'a) proc \<Rightarrow> (socks_error + 'a) proc" where
  "server_auth users k =
     Recv 1 (\<lambda>ver. if ver ! 0 \<noteq> 1 then Ret (Inl UnsupportedAuthVersion) else
     Recv 1 (\<lambda>ulen. Recv (unat (ulen ! 0)) (\<lambda>uname.
     Recv 1 (\<lambda>plen. Recv (unat (plen ! 0)) (\<lambda>passwd.
       if credentials_valid users uname passwd then Send [1, 0] k
       else Send [1, 1] (Ret (Inl AuthenticationFailed)))))))"

text \<open>The address a UDP association is bound to: the address the control connection came in on,
  with \<open>0.0.0.0\<close> to fall back on.\<close>

definition bind_relay :: "(socket_addr \<Rightarrow> socket_addr option) \<Rightarrow> socket_addr option \<Rightarrow> socket_addr option" where
  "bind_relay bind loc =
     (let any = SockV4 0 0;
          wanted = (case loc of Some addr \<Rightarrow> sock_new (sock_ip addr) 0 | None \<Rightarrow> any)
      in case bind wanted of Some s \<Rightarrow> Some s | None \<Rightarrow> bind any)"

definition relay_reply :: "socket_addr \<Rightarrow> bytes" where
  "relay_reply addr = [5, 0, 0] @
     (case addr of SockV4 ip _ \<Rightarrow> 1 # to_be 4 ip | SockV6 ip _ _ _ \<Rightarrow> 4 # to_be 16 ip) @ to_be 2 (sock_port addr)"

definition server_request :: "(socket_addr \<Rightarrow> socket_addr option) \<Rightarrow> socket_addr \<Rightarrow> socket_addr option \<Rightarrow>
    (socks_error + socks5_handler option) proc" where
  "server_request bind peer loc =
     Recv 3 (\<lambda>head.
       if head ! 0 \<noteq> 5 then Ret (Inl MalformedRequest)
       else if head ! 1 = 1 then
         recv_target (\<lambda>target. case target of
             Inl e \<Rightarrow> Ret (Inl (SocksTarget e))
           | Inr t \<Rightarrow> Send [5, 0, 0, 1, 0, 0, 0, 0, 0, 0] (Ret (Inr (Some (SocksStream t)))))
       else if head ! 1 = 3 then
         recv_target (\<lambda>target. case target of
             Inl e \<Rightarrow> Ret (Inl (SocksTarget e))
           | Inr _ \<Rightarrow>
               (case bind_relay bind loc of
                  None \<Rightarrow> Ret (Inl BindFailed)
                | Some addr \<Rightarrow> Send (relay_reply addr) (Ret (Inr (Some (SocksPacket addr peer))))))
       else Send [5, 7, 0, 1, 0, 0, 0, 0, 0, 0] (Ret (Inl (UnsupportedCommand (head ! 1)))))"

definition socks5_handle_client :: "(socket_addr \<Rightarrow> socket_addr option) \<Rightarrow> socket_addr \<Rightarrow> socket_addr option \<Rightarrow>
    socks_user list option \<Rightarrow> (socks_error + socks5_handler option) proc" where
  "socks5_handle_client bind peer loc users =
     Recv 2 (\<lambda>buf.
       if buf ! 0 \<noteq> 5 then Ret (Inl NotSocks5) else
       Recv (unat (buf ! 1)) (\<lambda>methods.
         case choose_method users methods of
           None \<Rightarrow> Send [5, 0xFF] (Ret (Inl NoAcceptableMethods))
         | Some m \<Rightarrow>
             Send [5, m]
               (if m = 2 then server_auth users (server_request bind peer loc)
                else server_request bind peer loc)))"

subsection \<open>The outbound\<close>

record socks5_outbound =
  so_tag :: bytes
  so_address :: target_addr
  so_username :: "bytes option"
  so_password :: "bytes option"
  so_connect_timeout :: nat

definition socks5_outbound_new :: "bytes \<Rightarrow> outbound_config \<Rightarrow> config_error + socks5_outbound" where
  "socks5_outbound_new tag cfg =
     bindr (out_endpoint cfg) (\<lambda>address.
       Inr \<lparr>so_tag = tag, so_address = address, so_username = ob_username cfg,
            so_password = ob_password cfg, so_connect_timeout = out_connect_timeout cfg\<rparr>)"

definition client_methods :: "socks5_outbound \<Rightarrow> bytes" where
  "client_methods ob = (if so_username ob \<noteq> None \<and> so_password ob \<noteq> None then [0, 2] else [0])"

definition auth_req :: "bytes \<Rightarrow> bytes \<Rightarrow> bytes" where
  "auth_req u p = [1, of_nat (length u)] @ u @ [of_nat (length p)] @ p"

definition client_auth :: "socks5_outbound \<Rightarrow> (socks_error + 'a) proc \<Rightarrow> (socks_error + 'a) proc" where
  "client_auth ob k =
     Send ([5, of_nat (length (client_methods ob))] @ client_methods ob) (
     Recv 2 (\<lambda>buf.
       if buf ! 0 \<noteq> 5 then Ret (Inl (InvalidVersion (buf ! 0)))
       else if buf ! 1 = 2 then
         (case (so_username ob, so_password ob) of
            (Some u, Some p) \<Rightarrow>
              Send (auth_req u p) (
              Recv 2 (\<lambda>auth_resp. if auth_resp ! 1 \<noteq> 0 then Ret (Inl AuthenticationFailed) else k))
          | _ \<Rightarrow> Ret (Inl NoCredentials))
       else if buf ! 1 \<noteq> 0 then Ret (Inl (UnsupportedMethod (buf ! 1)))
       else k))"

fun too_long :: "target_addr \<Rightarrow> bool" where
  "too_long (Domain d _) \<longleftrightarrow> length d > 255"
| "too_long (Ip _) = False"

definition socks5_connect_stream :: "socks5_outbound \<Rightarrow> target_addr \<Rightarrow> (socks_error + unit) proc" where
  "socks5_connect_stream ob target =
     client_auth ob
       (if too_long target then Ret (Inl DomainNameTooLong) else
        Send ([5, 1, 0] @ to_bytes target) (
        Recv 3 (\<lambda>head.
          if head ! 0 \<noteq> 5 then Ret (Inl InvalidReplyVersion)
          else if head ! 1 \<noteq> 0 then Ret (Inl (ConnectFailed (head ! 1)))
          else recv_target (\<lambda>_. Ret (Inr ())))))"

text \<open>The control part of \<open>connect_packet\<close>; the result is the relay's address.\<close>

definition socks5_connect_packet :: "socks5_outbound \<Rightarrow> (socks_error + socket_addr) proc" where
  "socks5_connect_packet ob =
     client_auth ob (
       Send [5, 3, 0, 1, 0, 0, 0, 0, 0, 0] (
       Recv 3 (\<lambda>head.
         if head ! 0 \<noteq> 5 then Ret (Inl InvalidReplyVersion)
         else if head ! 1 \<noteq> 0 then Ret (Inl (ConnectFailed (head ! 1)))
         else recv_target (\<lambda>relay. case relay of
             Inl e \<Rightarrow> Ret (Inl (SocksTarget e))
           | Inr (Ip sa) \<Rightarrow> Ret (Inr sa)
           | Inr (Domain _ _) \<Rightarrow> Ret (Inl RelayIsDomain)))))"

subsection \<open>Datagrams\<close>

record socks_in_packet =
  sp_client_tcp :: socket_addr
  sp_client_udp :: "socket_addr option"

type_synonym datagram = "bytes \<times> socket_addr"
type_synonym socks_packet = "target_addr \<times> target_addr \<times> bytes"

text \<open>\<open>Socks5InboundPacket::send_to\<close>: the datagram sent and its destination.\<close>

definition in_send_to :: "socks_in_packet \<Rightarrow> bytes \<Rightarrow> target_addr \<Rightarrow> datagram option" where
  "in_send_to st buf src =
     map_option (\<lambda>client. (write_to src [0, 0, 0] @ buf, client)) (sp_client_udp st)"

text \<open>One turn of the loop in \<open>Socks5InboundPacket::recv_from\<close>, and the loop over the datagrams
  that arrive; it waits when there are no more.\<close>

definition in_recv_turn :: "socks_in_packet \<Rightarrow> datagram \<Rightarrow> socks_packet option \<times> socks_in_packet" where
  "in_recv_turn st d =
     (let (buf, src) = d; n = length buf in
      if sock_ip src \<noteq> sock_ip (sp_client_tcp st) then (None, st)
      else if n < 4 then (None, st)
      else (case read_from (drop 3 buf) of
              Inr (target, rest) \<Rightarrow>
                (let payload_start = 3 + (length (drop 3 buf) - length rest)
                 in if payload_start > n then None else Some (Ip src, target, drop payload_start buf))
            | Inl _ \<Rightarrow> None,
            st\<lparr>sp_client_udp := Some src\<rparr>))"

fun in_recv_from :: "socks_in_packet \<Rightarrow> datagram list \<Rightarrow> socks_packet option \<times> socks_in_packet \<times> datagram list" where
  "in_recv_from st [] = (None, st, [])"
| "in_recv_from st (d # ds) =
     (case in_recv_turn st d of
        (Some pkt, st') \<Rightarrow> (Some pkt, st', ds)
      | (None, st') \<Rightarrow> in_recv_from st' ds)"

datatype socks_udp_error = ControlStreamClosed | SessionClosed | UdpDomainTooLong

definition out_send_to :: "bool \<Rightarrow> bytes \<Rightarrow> target_addr \<Rightarrow> socks_udp_error + bytes" where
  "out_send_to aborted buf target =
     (if aborted then Inl ControlStreamClosed
      else if too_long target then Inl UdpDomainTooLong
      else Inr (write_to target [0, 0, 0] @ buf))"

text \<open>What the \<open>select!\<close> of \<open>Socks5UdpSocket::recv_from\<close> sees, in the order it sees it.\<close>

datatype socks_udp_event = UdpRecv bytes | AbortChanged | CloserFired

definition out_parse :: "bytes \<Rightarrow> socks_packet option" where
  "out_parse buf =
     (if length buf < 4 then None
      else case read_from (drop 3 buf) of
          Inr (target, rest) \<Rightarrow>
            (let header_len = 3 + (length (drop 3 buf) - length rest)
             in if header_len > length buf then None else Some (target, dummy, drop header_len buf))
        | Inl _ \<Rightarrow> None)"

fun out_recv_from :: "socks_udp_event list \<Rightarrow> (socks_udp_error + socks_packet) option \<times> socks_udp_event list" where
  "out_recv_from [] = (None, [])"
| "out_recv_from (UdpRecv buf # es) =
     (case out_parse buf of Some pkt \<Rightarrow> (Some (Inr pkt), es) | None \<Rightarrow> out_recv_from es)"
| "out_recv_from (AbortChanged # es) = (Some (Inl ControlStreamClosed), es)"
| "out_recv_from (CloserFired # es) = (Some (Inl SessionClosed), es)"

subsection \<open>The control connection\<close>

text \<open>Credentials the server accepts and the client can send.\<close>

definition compatible :: "socks5_outbound \<Rightarrow> socks_user list option \<Rightarrow> bool" where
  "compatible ob users =
     (case users of
        None \<Rightarrow> True
      | Some us \<Rightarrow>
          (case (so_username ob, so_password ob) of
             (Some u, Some p) \<Rightarrow>
               \<lparr>su_username = u, su_password = p\<rparr> \<in> set us \<and>
               utf8_valid u \<and> utf8_valid p \<and> length u < 256 \<and> length p < 256
           | _ \<Rightarrow> False))"

lemma server_auth_reads:
  assumes "length u < 256" and "length p < 256"
  shows "reads (auth_req u p) (server_auth users k)
    (if credentials_valid users u p then Send [1, 0] k else Send [1, 1] (Ret (Inl AuthenticationFailed)))"
proof -
  have "reads ([1] @ [of_nat (length u)] @ u @ [of_nat (length p)] @ p) (server_auth users k)
     (if credentials_valid users u p then Send [1, 0] k else Send [1, 1] (Ret (Inl AuthenticationFailed)))"
    unfolding server_auth_def using assms
    by (auto simp: unat_of_nat_u8 reads.nothing intro!: reads_take simp del: of_nat_unat)
  then show ?thesis by (simp add: auth_req_def)
qed

lemma greeting_reads:
  "reads ([5, of_nat (length ms)] @ ms) (socks5_handle_client bind peer loc users)
     (case choose_method users ms of
        None \<Rightarrow> Send [5, 0xFF] (Ret (Inl NoAcceptableMethods))
      | Some m \<Rightarrow> Send [5, m] (if m = 2 then server_auth users (server_request bind peer loc)
                              else server_request bind peer loc))"
  if "length ms < 256"
  unfolding socks5_handle_client_def using that
  by (auto simp: unat_of_nat_u8 reads.nothing intro!: reads_take simp del: of_nat_unat)

text \<open>With compatible credentials the negotiation leads to the request, whatever follows.\<close>

lemma negotiation:
  assumes "compatible ob users" and rest: "dstep\<^sup>*\<^sup>* (k, server_request bind peer loc, [], []) d"
  shows "dstep\<^sup>*\<^sup>* (client_auth ob k, socks5_handle_client bind peer loc users, [], []) d"
proof (cases users)
  case None
  show ?thesis unfolding client_auth_def
    by (rule left_says [OF greeting_reads])
      (auto simp: client_methods_def choose_method_def None intro!: right_says [OF reads_one] rest)
next
  case (Some us)
  with assms(1) obtain u p where up: "so_username ob = Some u" "so_password ob = Some p"
    "\<lparr>su_username = u, su_password = p\<rparr> \<in> set us" "utf8_valid u" "utf8_valid p" "length u < 256" "length p < 256"
    by (auto simp: compatible_def split: option.splits)
  then have valid: "credentials_valid users u p"
    by (auto simp: credentials_valid_def Some from_utf8_lossy_valid list_ex_iff intro!: bexI [OF _ up(3)])
  show ?thesis unfolding client_auth_def
    by (rule left_says [OF greeting_reads])
      (auto simp: client_methods_def choose_method_def up Some valid [unfolded Some]
        intro!: right_says [OF reads_one] left_says [OF server_auth_reads] rest)
qed

definition connect_start :: "socks5_outbound \<Rightarrow> target_addr \<Rightarrow> (socket_addr \<Rightarrow> socket_addr option) \<Rightarrow> socket_addr \<Rightarrow>
    socket_addr option \<Rightarrow> socks_user list option \<Rightarrow> (socks_error + unit, socks_error + socks5_handler option) dialogue" where
  "connect_start ob t bind peer loc users =
     (socks5_connect_stream ob t, socks5_handle_client bind peer loc users, [], [])"

definition associate_start :: "socks5_outbound \<Rightarrow> (socket_addr \<Rightarrow> socket_addr option) \<Rightarrow> socket_addr \<Rightarrow>
    socket_addr option \<Rightarrow> socks_user list option \<Rightarrow> (socks_error + socket_addr, socks_error + socks5_handler option) dialogue" where
  "associate_start ob bind peer loc users = (socks5_connect_packet ob, socks5_handle_client bind peer loc users, [], [])"

lemma reads_target:
  assumes "encodable t" shows "reads (to_bytes t) (recv_target k) (k (Inr (canonical t)))"
  using reads_read_from [of "to_bytes t" "canonical t"] read_from_to_bytes [OF assms, of "[]"] by simp

lemma not_too_long: "encodable t \<Longrightarrow> \<not> too_long t"
  by (cases t) auto

text \<open>A head of three bytes, then an address.\<close>

lemma reads_head_target:
  assumes "encodable t" and "f [a, b, c] = recv_target k"
  shows "reads (a # b # c # to_bytes t) (Recv 3 f) (k (Inr (canonical t)))"
  using reads_trans [OF reads_one [of "[a, b, c]" 3 f], of "to_bytes t"] reads_target [OF assms(1), of k] assms(2) by simp

lemma zero_reply: "[5, 0, 0, 1, 0, 0, 0, 0, 0, 0] = 5 # 0 # 0 # to_bytes (Ip (SockV4 0 0))"
  by (simp add: to_bytes_def to_be_def upt_conv_Cons)

lemma zero_request: "[5, 3, 0, 1, 0, 0, 0, 0, 0, 0] = 5 # 3 # 0 # to_bytes (Ip (SockV4 0 0))"
  by (simp add: to_bytes_def to_be_def upt_conv_Cons)

lemma relay_reply_target: "relay_reply addr = 5 # 0 # 0 # to_bytes (Ip addr)"
  by (cases addr) (simp_all add: relay_reply_def to_bytes_def)

lemma connect_reaches:
  assumes "compatible ob users" and "encodable t"
  shows "dstep\<^sup>*\<^sup>* (connect_start ob t bind peer loc users)
    (Ret (Inr ()), Ret (Inr (Some (SocksStream (canonical t)))), [], [])"
  unfolding connect_start_def socks5_connect_stream_def
  by (rule negotiation [OF assms(1)])
    (auto simp: not_too_long assms(2) server_request_def zero_reply
      intro!: left_says [OF reads_head_target [OF assms(2)]] right_says [OF reads_head_target])

lemma associate_reaches:
  assumes "compatible ob users" and "bind_relay bind loc = Some addr"
  shows "dstep\<^sup>*\<^sup>* (associate_start ob bind peer loc users)
    (Ret (Inr (sock_new (sock_ip addr) (sock_port addr))), Ret (Inr (Some (SocksPacket addr peer))), [], [])"
  unfolding associate_start_def socks5_connect_packet_def zero_request
  by (rule negotiation [OF assms(1)])
    (auto simp: server_request_def relay_reply_target assms(2)
      intro!: left_says [OF reads_head_target] right_says [OF reads_head_target])

text \<open>What a server that has users accepts: the input starts with a greeting that offers password
  authentication, then valid credentials.\<close>

lemma run_on_Recv_Some:
  "snd (run_on (Recv n f) s) = Some x \<longleftrightarrow>
     (\<exists>y s'. s = y @ s' \<and> length y = n \<and> snd (run_on (f y) s') = Some x)"
proof
  assume "snd (run_on (Recv n f) s) = Some x"
  then have "s = take n s @ drop n s \<and> length (take n s) = n \<and> snd (run_on (f (take n s)) (drop n s)) = Some x"
    by (simp split: if_splits)
  then show "\<exists>y s'. s = y @ s' \<and> length y = n \<and> snd (run_on (f y) s') = Some x" by blast
qed auto

lemma run_on_Send_snd [simp]: "snd (run_on (Send x p) s) = snd (run_on p s)"
  by (simp add: apfst_def map_prod_def split: prod.split)

lemma server_auth_accepts:
  assumes "snd (run_on (server_auth users k) s) = Some (Inr r, rest)"
  shows "\<exists>ulen u plen p s'. s = [1, ulen] @ u @ [plen] @ p @ s' \<and> length u = unat ulen \<and>
    length p = unat plen \<and> credentials_valid users u p \<and> snd (run_on k s') = Some (Inr r, rest)"
proof -
  from assms obtain ver ulen u plen p s' where *: "s = ver @ ulen @ u @ plen @ p @ s'" "length ver = 1" "ver ! 0 = 1"
    "length ulen = 1" "length u = unat (ulen ! 0)" "length plen = 1" "length p = unat (plen ! 0)"
    "credentials_valid users u p" "snd (run_on k s') = Some (Inr r, rest)"
    unfolding server_auth_def by (auto simp: run_on_Recv_Some simp del: run_on.simps(1) split: if_splits)
  then have "ver = [1]" "ulen = [ulen ! 0]" "plen = [plen ! 0]"
    by (auto simp: length_Suc_conv)
  with * show ?thesis by (metis append_Cons append_Nil)
qed

subsection \<open>Lemmas: datagrams\<close>

text \<open>The packets successive calls of \<open>recv_from\<close> return.\<close>

fun in_recv_all :: "nat \<Rightarrow> socks_in_packet \<Rightarrow> datagram list \<Rightarrow> socks_packet list" where
  "in_recv_all 0 st ds = []"
| "in_recv_all (Suc n) st ds =
     (case in_recv_from st ds of
        (None, _) \<Rightarrow> []
      | (Some pkt, st', ds') \<Rightarrow> pkt # in_recv_all n st' ds')"

lemma to_bytes_nonempty: "0 < length (to_bytes t)"
  by (simp add: length_to_bytes) (cases t rule: encoded_len.cases; simp)

lemma drop_header: "drop (3 + length xs) (a # b # c # xs @ ys) = ys"
  by (simp add: eval_nat_numeral)

lemma in_recv_turn_header:
  assumes "encodable t" and "sock_ip src = sock_ip (sp_client_tcp st)"
  shows "in_recv_turn st (write_to t [0, 0, 0] @ buf, src) = (Some (Ip src, canonical t, buf), st\<lparr>sp_client_udp := Some src\<rparr>)"
  using assms to_bytes_nonempty [of t] by (simp add: in_recv_turn_def write_to_append read_from_to_bytes drop_header)

lemma in_recv_turn_foreign:
  "sock_ip (snd d) \<noteq> sock_ip (sp_client_tcp st) \<Longrightarrow> in_recv_turn st d = (None, st)"
  by (cases d) (simp add: in_recv_turn_def)

lemma out_parse_header: "encodable t \<Longrightarrow> out_parse (write_to t [0, 0, 0] @ buf) = Some (canonical t, dummy, buf)"
  using to_bytes_nonempty [of t] by (simp add: out_parse_def write_to_append read_from_to_bytes drop_header)

lemma in_recv_from_skip:
  assumes "\<forall>d \<in> set junk. sock_ip (snd d) \<noteq> sock_ip (sp_client_tcp st)"
  shows "in_recv_from st (junk @ ds) = in_recv_from st ds"
  using assms by (induction junk) (auto simp: in_recv_turn_foreign)

lemma in_recv_all_client:
  assumes "filter (\<lambda>d. sock_ip (snd d) = sock_ip (sp_client_tcp st)) ds = map (\<lambda>(t, buf). (write_to t [0, 0, 0] @ buf, src)) msgs"
    and "\<forall>(t, buf) \<in> set msgs. encodable t" and "length msgs \<le> n"
  shows "in_recv_all n st ds = map (\<lambda>(t, buf). (Ip src, canonical t, buf)) msgs"
  using assms
proof (induction msgs arbitrary: n st ds)
  case Nil
  then have "in_recv_from st ds = (None, st, [])"
    using in_recv_from_skip [of ds st "[]"] by (auto simp: filter_empty_conv)
  then show ?case by (cases n) auto
next
  case (Cons m msgs)
  obtain t buf where m: "m = (t, buf)" by (cases m)
  from Cons.prems(1) m obtain junk ds' where ds: "ds = junk @ (write_to t [0, 0, 0] @ buf, src) # ds'"
    "\<forall>d \<in> set junk. sock_ip (snd d) \<noteq> sock_ip (sp_client_tcp st)" "sock_ip src = sock_ip (sp_client_tcp st)"
    "filter (\<lambda>d. sock_ip (snd d) = sock_ip (sp_client_tcp st)) ds' = map (\<lambda>(t, buf). (write_to t [0, 0, 0] @ buf, src)) msgs"
    by (auto simp: filter_eq_Cons_iff)
  let ?st = "st\<lparr>sp_client_udp := Some src\<rparr>"
  from Cons.prems(2) m ds have "in_recv_from st ds = (Some (Ip src, canonical t, buf), ?st, ds')"
    by (simp add: in_recv_from_skip in_recv_turn_header)
  moreover have "in_recv_all (n - 1) ?st ds' = map (\<lambda>(t, buf). (Ip src, canonical t, buf)) msgs"
    using Cons.prems ds(4) by (intro Cons.IH) auto
  ultimately show ?case using Cons.prems(3) m by (cases n) auto
qed

subsection \<open>Properties\<close>

text \<open>C14. The SOCKS5 connect handshake. When the inbound asks for no authentication or has the
  outbound's user, whose name and password are valid text of at most 255 bytes each (the length
  field of the protocol is one byte), and the target's encoding fits, no schedule of the two sides runs forever
  and every schedule ends with the outbound holding the stream, the inbound holding it together
  with the target's canonical form, and no byte left over in either direction.\<close>

theorem socks5_connect:
  assumes "compatible ob users" and "encodable t"
  shows "always_ends (connect_start ob t bind peer loc users)
    (Ret (Inr ()), Ret (Inr (Some (SocksStream (canonical t)))), [], [])"
  using connect_reaches [OF assms] stuck_returned by (rule always_endsI)

definition sample_client :: socks5_outbound where
  "sample_client = \<lparr>so_tag = str ''s'', so_address = Domain (str ''h'') 1080, so_username = Some (str ''me''),
     so_password = Some (str ''pw''), so_connect_timeout = 30000\<rparr>"

definition sample_users :: "socks_user list option" where
  "sample_users = Some [\<lparr>su_username = str ''me'', su_password = str ''pw''\<rparr>]"

lemma sample_compatible: "compatible sample_client sample_users"
  using utf8_valid_ascii [of "str ''me''"] utf8_valid_ascii [of "str ''pw''"]
  by (simp add: compatible_def sample_client_def sample_users_def word_less_nat_alt del: utf8_valid.simps)

theorem socks5_connect_witness:
  "always_ends (connect_start sample_client (Ip (SockV4 0x01020304 443)) (\<lambda>_. None) (SockV4 1 2) None sample_users)
    (Ret (Inr ()), Ret (Inr (Some (SocksStream (Ip (SockV4 0x01020304 443))))), [], [])"
  using socks5_connect [OF sample_compatible, of "Ip (SockV4 0x01020304 443)" "\<lambda>_. None" "SockV4 1 2" None] by simp

text \<open>The UDP association. With compatible credentials and a socket that binds, every schedule of
  \<open>connect_packet\<close> against the inbound ends with the outbound knowing the relay's address,
  less an IPv6 scope and flow label, and the inbound relaying on the socket bound there.\<close>

theorem socks5_associate:
  assumes "compatible ob users" and "bind_relay bind loc = Some addr"
  shows "always_ends (associate_start ob bind peer loc users)
    (Ret (Inr (sock_new (sock_ip addr) (sock_port addr))), Ret (Inr (Some (SocksPacket addr peer))), [], [])"
  using associate_reaches [OF assms] stuck_returned by (rule always_endsI)

theorem socks5_associate_witness:
  "always_ends (associate_start sample_client (\<lambda>a. if sock_ip a = V4 0 then Some (SockV4 0 4000) else None)
      (SockV4 1 2) (Some (SockV4 0x7F000001 1080)) sample_users)
    (Ret (Inr (SockV4 0 4000)), Ret (Inr (Some (SocksPacket (SockV4 0 4000) (SockV4 1 2)))), [], [])"
  using socks5_associate [OF sample_compatible, of "\<lambda>a. if sock_ip a = V4 0 then Some (SockV4 0 4000) else None"
      "Some (SockV4 0x7F000001 1080)" "SockV4 0 4000" "SockV4 1 2"]
  by (simp add: bind_relay_def)

text \<open>C15. No access without credentials. When the inbound has users and hands out a connection, on any
  input whatever, that input began with a greeting that offers password authentication and
  then the name and password of one of the users.\<close>

theorem socks5_requires_credentials:
  assumes "snd (run_on (socks5_handle_client bind peer loc (Some us)) s) = Some (Inr h, rest)"
  shows "\<exists>n ms ulen u plen p s'. s = [5, n] @ ms @ [1, ulen] @ u @ [plen] @ p @ s' \<and>
    length ms = unat n \<and> 2 \<in> set ms \<and> length u = unat ulen \<and> length p = unat plen \<and>
    (\<exists>user \<in> set us. su_username user = from_utf8_lossy u \<and> su_password user = from_utf8_lossy p)"
proof -
  from assms obtain b ms s1 where s: "s = b @ ms @ s1" "length b = 2" "b ! 0 = 5" "length ms = unat (b ! 1)" "2 \<in> set ms"
    and auth: "snd (run_on (server_auth (Some us) (server_request bind peer loc)) s1) = Some (Inr h, rest)"
    unfolding socks5_handle_client_def
    by (auto simp: run_on_Recv_Some choose_method_def simp del: run_on.simps(1) split: if_splits)
  from s(2,3) have "b = [5, b ! 1]" by (auto simp: length_Suc_conv eval_nat_numeral)
  with s server_auth_accepts [OF auth] show ?thesis
    by (fastforce simp: credentials_valid_def list_ex_iff)
qed

definition login_input :: bytes where
  "login_input = [5, 2, 0, 2] @ [1, 2, 0x61, 0x62, 1, 0x63] @ [5, 1, 0, 1, 1, 2, 3, 4, 0, 80]"

definition login_users :: "socks_user list" where
  "login_users = [\<lparr>su_username = [0x78], su_password = []\<rparr>, \<lparr>su_username = [0x61, 0x62], su_password = [0x63]\<rparr>]"

theorem socks5_requires_credentials_witness:
  "snd (run_on (socks5_handle_client (\<lambda>_. None) (SockV4 1 2) None (Some login_users)) login_input) =
     Some (Inr (Some (SocksStream (Ip (SockV4 0x01020304 80)))), []) \<and>
   (\<exists>n ms ulen u plen p s'. login_input = [5, n] @ ms @ [1, ulen] @ u @ [plen] @ p @ s' \<and>
     length ms = unat n \<and> 2 \<in> set ms \<and> length u = unat ulen \<and> length p = unat plen \<and>
     (\<exists>user \<in> set login_users. su_username user = from_utf8_lossy u \<and> su_password user = from_utf8_lossy p))"
proof -
  have "from_utf8_lossy [0x61, 0x62] = [0x61, 0x62]" "from_utf8_lossy [0x63] = [0x63]"
    by (rule from_utf8_lossy_valid, rule utf8_valid_ascii, simp)+
  then have "snd (run_on (socks5_handle_client (\<lambda>_. None) (SockV4 1 2) None (Some login_users)) login_input) =
     Some (Inr (Some (SocksStream (Ip (SockV4 0x01020304 80)))), [])"
    by (simp add: login_input_def login_users_def socks5_handle_client_def choose_method_def server_auth_def
        credentials_valid_def server_request_def recv_target_def from_be_def)
  with socks5_requires_credentials [OF this] show ?thesis by simp
qed

text \<open>The UDP relay. Whatever foreign datagrams arrive in between, the inbound returns exactly the
  packets the client's \<open>send_to\<close> accepted, in order, with the targets they were sent to.\<close>

theorem socks5_udp_relay:
  assumes "\<forall>(t, buf) \<in> set msgs. encodable t \<and> out_send_to False buf t = Inr (datagram (t, buf))"
    and "filter (\<lambda>d. sock_ip (snd d) = sock_ip (sp_client_tcp st)) ds = map (\<lambda>m. (datagram m, src)) msgs"
  shows "in_recv_all (length ds) st ds = map (\<lambda>(t, buf). (Ip src, canonical t, buf)) msgs"
proof (rule in_recv_all_client)
  have "map (\<lambda>m. (datagram m, src)) msgs = map (\<lambda>(t, buf). (write_to t [0, 0, 0] @ buf, src)) msgs"
    using assms(1) by (auto simp: out_send_to_def split: if_splits)
  with assms(2) show "filter (\<lambda>d. sock_ip (snd d) = sock_ip (sp_client_tcp st)) ds =
      map (\<lambda>(t, buf). (write_to t [0, 0, 0] @ buf, src)) msgs" by simp
  show "length msgs \<le> length ds" using arg_cong [OF assms(2), of length] length_filter_le by (metis length_map)
qed (use assms(1) in auto)

theorem socks5_udp_relay_witness:
  "in_recv_all 3 \<lparr>sp_client_tcp = SockV4 7 1, sp_client_udp = None\<rparr>
     [([0, 0], SockV4 9 9), (write_to (Ip (SockV4 1 53)) [0, 0, 0] @ [42], SockV4 7 2), ([], SockV4 8 1)] =
   [(Ip (SockV4 7 2), Ip (SockV4 1 53), [42])]"
  using socks5_udp_relay [of "[(Ip (SockV4 1 53), [42])]" "\<lambda>(t, buf). write_to t [0, 0, 0] @ buf"
      "\<lparr>sp_client_tcp = SockV4 7 1, sp_client_udp = None\<rparr>"
      "[([0, 0], SockV4 9 9), (write_to (Ip (SockV4 1 53)) [0, 0, 0] @ [42], SockV4 7 2), ([], SockV4 8 1)]" "SockV4 7 2"]
  by (simp add: out_send_to_def eval_nat_numeral del: in_recv_all.simps)

text \<open>Answers of the UDP relay. After a packet from the client's socket, an answer goes to that
  socket, and the outbound there decodes it to the address it came from and its payload.\<close>

theorem socks5_udp_answer:
  assumes "fst (in_recv_from st ds) = Some (Ip src, t, buf)" and "encodable a"
  shows "\<exists>dg. in_send_to (fst (snd (in_recv_from st ds))) answer a = Some (dg, src) \<and>
    out_recv_from (UdpRecv dg # es) = (Some (Inr (canonical a, dummy, answer)), es)"
proof -
  have "sp_client_udp (fst (snd (in_recv_from st ds))) = Some src"
    using assms(1)
  proof (induction ds arbitrary: st)
    case (Cons d ds)
    then show ?case
      by (auto simp: in_recv_turn_def Let_def split: prod.splits option.splits if_splits sum.splits)
  qed simp
  with out_parse_header [OF assms(2), of answer] show ?thesis by (simp add: in_send_to_def)
qed

theorem socks5_udp_answer_witness:
  "\<exists>dg. out_recv_from [UdpRecv dg] = (Some (Inr (Ip (SockV4 1 53), dummy, [9])), [])"
  using socks5_udp_answer [of "\<lparr>sp_client_tcp = SockV4 7 1, sp_client_udp = None\<rparr>" "[([0, 0, 0, 1, 0, 0, 0, 1, 0, 53, 42], SockV4 7 2)]"
      "SockV4 7 2" "Ip (SockV4 1 53)" "[42]" "Ip (SockV4 1 53)" "[9]" "[]"]
  by (auto simp: in_recv_turn_def read_from_def read_exact_def read_be_alt from_be_def)

end
