(* ===== verification/Dst_Traffic.thy ===== *)
theory Dst_Traffic
  imports Target_Addr Redb_Store "HOL-Library.List_Lexorder" "HOL-Library.Multiset"
begin

text \<open>
  Traffic per destination, kept by the observer (\<open>src/src/proxy/observe.rs\<close>): a closed
  connection adds its bytes to an in-memory map, the map is merged into a cache table when it
  grows, and the management API drains both. Closing connections, flushes and drains run
  concurrently; a mutex lets one flush or drain at a time take entries out of the map, key by
  key, while connections keep adding to it. Every byte is in exactly one place.
\<close>

subsection \<open>Entries\<close>

definition saturating_add :: "u64 \<Rightarrow> u64 \<Rightarrow> u64" where
  "saturating_add a b = (if unat a + unat b < 2 ^ 64 then a + b else - 1)"

record dst_entry =
  de_domain :: bytes
  de_ip :: bytes
  de_outbound_tag :: bytes
  de_upload :: u64
  de_download :: u64
  de_last_active :: u64

definition absorb :: "dst_entry \<Rightarrow> dst_entry \<Rightarrow> dst_entry" where
  "absorb e newer =
     e\<lparr>de_upload := saturating_add (de_upload e) (de_upload newer),
       de_download := saturating_add (de_download e) (de_download newer),
       de_last_active := max (de_last_active e) (de_last_active newer),
       de_ip := (if de_ip newer \<noteq> [] then de_ip newer else de_ip e),
       de_outbound_tag := (if de_outbound_tag newer \<noteq> [] then de_outbound_tag newer else de_outbound_tag e)\<rparr>"

type_synonym dst_map = "(bytes, dst_entry) fmap"

subsection \<open>Connections\<close>

record conn_tracker =
  tk_id :: nat
  tk_inbound_tag :: bytes
  tk_user :: "bytes option"
  tk_outbound_tag :: "bytes list"
  tk_matched_rule_index :: "nat option"
  tk_final_target :: target_addr
  tk_origin_target :: target_addr
  tk_domain :: "bytes option"
  tk_is_fakeip :: bool
  tk_is_udp :: bool
  tk_upload :: u64
  tk_download :: u64
  tk_start_time :: u64

definition tracker_new :: "nat \<Rightarrow> bytes \<Rightarrow> bytes list \<Rightarrow> nat option \<Rightarrow> target_addr \<Rightarrow> target_addr \<Rightarrow> bool \<Rightarrow> bool \<Rightarrow> u64 \<Rightarrow>
    conn_tracker" where
  "tracker_new uuid inbound_tag outbound_tag rule final origin fakeip udp now =
     \<lparr>tk_id = uuid, tk_inbound_tag = inbound_tag, tk_user = None, tk_outbound_tag = outbound_tag,
      tk_matched_rule_index = rule, tk_final_target = final, tk_origin_target = origin, tk_domain = None,
      tk_is_fakeip = fakeip, tk_is_udp = udp, tk_upload = 0, tk_download = 0, tk_start_time = now\<rparr>"

definition tk_inc_upload :: "u64 \<Rightarrow> conn_tracker \<Rightarrow> conn_tracker" where
  "tk_inc_upload n t = t\<lparr>tk_upload := tk_upload t + n\<rparr>"

definition tk_inc_download :: "u64 \<Rightarrow> conn_tracker \<Rightarrow> conn_tracker" where
  "tk_inc_download n t = t\<lparr>tk_download := tk_download t + n\<rparr>"

definition uses_outbound :: "bytes \<Rightarrow> conn_tracker \<Rightarrow> bool" where
  "uses_outbound tag t = list_ex (\<lambda>out. out = tag) (tk_outbound_tag t)"

text \<open>\<open>realip\<close> is what the cache of addresses seen in DNS answers returns.\<close>

fun resolve_domain_for_target :: "(bytes \<Rightarrow> bytes option) \<Rightarrow> target_addr \<Rightarrow> bytes option" where
  "resolve_domain_for_target realip (Domain _ _) = None"
| "resolve_domain_for_target realip (Ip addr) =
     (case realip (show_ip (sock_ip addr)) of
        None \<Rightarrow> None
      | Some domain \<Rightarrow>
          (let d = trim domain
           in if d = [] then None else Some (d @ [0x3A] @ show_nat (unat (sock_port addr)))))"

text \<open>The domain a closed connection is accounted to.\<close>

definition traffic_domain :: "(bytes \<Rightarrow> bytes option) \<Rightarrow> conn_tracker \<Rightarrow> bytes" where
  "traffic_domain realip t =
     (case tk_domain t of
        Some d \<Rightarrow> d
      | None \<Rightarrow>
          (case resolve_domain_for_target realip (tk_final_target t) of
             Some d \<Rightarrow> d
           | None \<Rightarrow> target_to_string (tk_final_target t)))"

fun traffic_ip :: "target_addr \<Rightarrow> bytes" where
  "traffic_ip (Ip addr) = show_socket_addr addr"
| "traffic_ip (Domain _ _) = []"

definition record_traffic :: "(bytes \<Rightarrow> bytes option) \<Rightarrow> u64 \<Rightarrow> conn_tracker \<Rightarrow> dst_map \<Rightarrow> dst_map" where
  "record_traffic realip now t m =
     (let domain = traffic_domain realip t;
          ip = traffic_ip (tk_final_target t);
          outbound_tag = (case tk_outbound_tag t of [] \<Rightarrow> [] | x # _ \<Rightarrow> x)
      in case fmlookup m domain of
           Some e \<Rightarrow>
             fmupd domain
               (e\<lparr>de_upload := saturating_add (de_upload e) (tk_upload t),
                  de_download := saturating_add (de_download e) (tk_download t),
                  de_last_active := now,
                  de_ip := (if ip \<noteq> [] then ip else de_ip e),
                  de_outbound_tag := (if outbound_tag \<noteq> [] then outbound_tag else de_outbound_tag e)\<rparr>) m
         | None \<Rightarrow>
             fmupd domain
               \<lparr>de_domain = domain, de_ip = ip, de_outbound_tag = outbound_tag, de_upload = tk_upload t,
                de_download = tk_download t, de_last_active = now\<rparr> m)"

definition DST_TRAFFIC_FLUSH_THRESHOLD :: nat where "DST_TRAFFIC_FLUSH_THRESHOLD = 256"

subsection \<open>Flush and drain\<close>

text \<open>\<open>enc\<close> and \<open>decd\<close> are the JSON encoding of an entry. A flush or a drain holds the mutex while it
  takes the keys it saw, one by one; a drain has emptied the cache table before.\<close>

datatype taker =
    Flushing "bytes list" "dst_entry list"
  | Draining "bytes list" "dst_entry list" "(bytes \<times> dst_entry) list"

text \<open>\<open>ds_pending\<close> counts the tasks that found the map full and are about to flush; \<open>ds_drained\<close> is
  what the API was given, \<open>ds_lost\<close> the batches whose merge into the cache failed.\<close>

record dst_state =
  ds_map :: dst_map
  ds_cache :: "shared_db option"
  ds_pending :: nat
  ds_taker :: "taker option"
  ds_drained :: "dst_entry list"
  ds_lost :: "dst_entry list"

definition DST_TABLE :: bytes where "DST_TABLE = str ''observe:dst_traffic''"

fun take_key :: "bytes \<Rightarrow> dst_map \<Rightarrow> dst_entry list \<Rightarrow> dst_map \<times> dst_entry list" where
  "take_key k m taken = (fmdrop k m, case fmlookup m k of None \<Rightarrow> taken | Some e \<Rightarrow> taken @ [e])"

definition flush_merge :: "(dst_entry \<Rightarrow> bytes) \<Rightarrow> (bytes \<Rightarrow> dst_entry option) \<Rightarrow> dst_entry list \<Rightarrow> shared_db \<Rightarrow> bool \<times> shared_db" where
  "flush_merge enc decd taken d = merge_entries enc decd DST_TABLE absorb (map (\<lambda>e. (de_domain e, e)) taken) d"

text \<open>\<open>merged.extend(items)\<close> and the loop over the entries taken from the map.\<close>

definition drain_one :: "dst_map \<Rightarrow> dst_entry \<Rightarrow> dst_map" where
  "drain_one merged e =
     (case fmlookup merged (de_domain e) of
        Some old \<Rightarrow> fmupd (de_domain e) (absorb old e) merged
      | None \<Rightarrow> fmupd (de_domain e) e merged)"

definition drain_merge :: "(bytes \<times> dst_entry) list \<Rightarrow> dst_entry list \<Rightarrow> dst_map" where
  "drain_merge items taken = foldl drain_one (foldl (\<lambda>m (k, e). fmupd k e m) fmempty items) taken"

text \<open>\<open>order\<close> is the iteration order of hash maps and tables.\<close>

definition drain_output :: "(bytes fset \<Rightarrow> bytes list) \<Rightarrow> dst_map \<Rightarrow> dst_entry list" where
  "drain_output order merged = sort_key de_domain (List.map_filter (fmlookup merged) (order (fmdom merged)))"

datatype dst_event =
    CloseConn conn_tracker u64
  | FlushStart "bytes list"
  | DrainStart "bytes list"
  | TakeKey
  | TakerEnd

definition close_connection :: "(bytes \<Rightarrow> bytes option) \<Rightarrow> conn_tracker \<Rightarrow> u64 \<Rightarrow> dst_state \<Rightarrow> dst_state" where
  "close_connection realip t now s =
     (if tk_upload t = 0 \<and> tk_download t = 0 then s
      else
        let m = record_traffic realip now t (ds_map s)
        in s\<lparr>ds_map := m,
             ds_pending := (if hm_len m \<ge> DST_TRAFFIC_FLUSH_THRESHOLD then Suc (ds_pending s) else ds_pending s)\<rparr>)"

definition flush_start :: "bytes list \<Rightarrow> dst_state \<Rightarrow> dst_state" where
  "flush_start keys s =
     (if ds_pending s = 0 then s
      else
        let s1 = s\<lparr>ds_pending := ds_pending s - 1\<rparr>
        in if ds_cache s = None \<or> ds_taker s \<noteq> None then s1
           else s1\<lparr>ds_taker := Some (Flushing keys [])\<rparr>)"

definition drain_start :: "(bytes fset \<Rightarrow> bytes list) \<Rightarrow> (bytes \<Rightarrow> dst_entry option) \<Rightarrow> bytes list \<Rightarrow> dst_state \<Rightarrow> dst_state" where
  "drain_start order decd keys s =
     (if ds_taker s \<noteq> None then s
      else (case ds_cache s of
              None \<Rightarrow> s\<lparr>ds_taker := Some (Draining keys [] [])\<rparr>
            | Some d \<Rightarrow>
                (case drain_entries order decd DST_TABLE d of
                   (r, d') \<Rightarrow>
                     s\<lparr>ds_cache := Some d',
                       ds_taker := Some (Draining keys [] (case r of Some items \<Rightarrow> items | None \<Rightarrow> []))\<rparr>)))"

definition take_step :: "dst_state \<Rightarrow> dst_state" where
  "take_step s =
     (case ds_taker s of
        Some (Flushing (k # ks) taken) \<Rightarrow>
          (case take_key k (ds_map s) taken of (m, taken') \<Rightarrow> s\<lparr>ds_map := m, ds_taker := Some (Flushing ks taken')\<rparr>)
      | Some (Draining (k # ks) taken items) \<Rightarrow>
          (case take_key k (ds_map s) taken of (m, taken') \<Rightarrow> s\<lparr>ds_map := m, ds_taker := Some (Draining ks taken' items)\<rparr>)
      | _ \<Rightarrow> s)"

definition taker_end :: "(bytes fset \<Rightarrow> bytes list) \<Rightarrow> (dst_entry \<Rightarrow> bytes) \<Rightarrow> (bytes \<Rightarrow> dst_entry option) \<Rightarrow> dst_state \<Rightarrow> dst_state" where
  "taker_end order enc decd s =
     (case ds_taker s of
        Some (Flushing [] taken) \<Rightarrow>
          (case ds_cache s of
             None \<Rightarrow> s\<lparr>ds_taker := None\<rparr>
           | Some d \<Rightarrow>
               (case flush_merge enc decd taken d of
                  (ok, d') \<Rightarrow> s\<lparr>ds_taker := None, ds_cache := Some d',
                              ds_lost := (if ok then ds_lost s else ds_lost s @ taken)\<rparr>))
      | Some (Draining [] taken items) \<Rightarrow>
          s\<lparr>ds_taker := None, ds_drained := ds_drained s @ drain_output order (drain_merge items taken)\<rparr>
      | _ \<Rightarrow> s)"

text \<open>Any interleaving is a list of events; an event that is not enabled changes nothing.\<close>

fun dst_apply :: "(bytes \<Rightarrow> bytes option) \<Rightarrow> (bytes fset \<Rightarrow> bytes list) \<Rightarrow> (dst_entry \<Rightarrow> bytes) \<Rightarrow> (bytes \<Rightarrow> dst_entry option) \<Rightarrow>
    dst_event \<Rightarrow> dst_state \<Rightarrow> dst_state" where
  "dst_apply realip order enc decd (CloseConn t now) s = close_connection realip t now s"
| "dst_apply realip order enc decd (FlushStart keys) s = flush_start keys s"
| "dst_apply realip order enc decd (DrainStart keys) s = drain_start order decd keys s"
| "dst_apply realip order enc decd TakeKey s = take_step s"
| "dst_apply realip order enc decd TakerEnd s = taker_end order enc decd s"

subsection \<open>Accounting\<close>

datatype direction = Up | Down

fun de_bytes :: "direction \<Rightarrow> dst_entry \<Rightarrow> nat" where
  "de_bytes Up e = unat (de_upload e)"
| "de_bytes Down e = unat (de_download e)"

fun tk_bytes :: "direction \<Rightarrow> conn_tracker \<Rightarrow> nat" where
  "tk_bytes Up t = unat (tk_upload t)"
| "tk_bytes Down t = unat (tk_download t)"

definition map_bytes :: "direction \<Rightarrow> bytes \<Rightarrow> dst_map \<Rightarrow> nat" where
  "map_bytes f dest m = (case fmlookup m dest of None \<Rightarrow> 0 | Some e \<Rightarrow> de_bytes f e)"

definition list_bytes :: "direction \<Rightarrow> bytes \<Rightarrow> dst_entry list \<Rightarrow> nat" where
  "list_bytes f dest es = sum_list (map (\<lambda>e. if de_domain e = dest then de_bytes f e else 0) es)"

definition cache_bytes :: "(bytes \<Rightarrow> dst_entry option) \<Rightarrow> direction \<Rightarrow> bytes \<Rightarrow> tables \<Rightarrow> nat" where
  "cache_bytes decd f dest t =
     (case Option.bind (fmlookup t (DST_TABLE, dest)) decd of None \<Rightarrow> 0 | Some e \<Rightarrow> de_bytes f e)"

fun taker_bytes :: "direction \<Rightarrow> bytes \<Rightarrow> taker option \<Rightarrow> nat" where
  "taker_bytes f dest None = 0"
| "taker_bytes f dest (Some (Flushing ks taken)) = list_bytes f dest taken"
| "taker_bytes f dest (Some (Draining ks taken items)) = list_bytes f dest taken + list_bytes f dest (map snd items)"

definition total_bytes :: "(bytes \<Rightarrow> dst_entry option) \<Rightarrow> direction \<Rightarrow> bytes \<Rightarrow> dst_state \<Rightarrow> nat" where
  "total_bytes decd f dest s =
     map_bytes f dest (ds_map s) + taker_bytes f dest (ds_taker s) +
     (case ds_cache s of None \<Rightarrow> 0 | Some d \<Rightarrow> cache_bytes decd f dest (db_tables d)) +
     list_bytes f dest (ds_drained s) + list_bytes f dest (ds_lost s)"

fun closed_bytes :: "(bytes \<Rightarrow> bytes option) \<Rightarrow> direction \<Rightarrow> bytes \<Rightarrow> dst_event list \<Rightarrow> nat" where
  "closed_bytes realip f dest [] = 0"
| "closed_bytes realip f dest (CloseConn t now # es) =
     (if traffic_domain realip t = dest then tk_bytes f t else 0) + closed_bytes realip f dest es"
| "closed_bytes realip f dest (_ # es) = closed_bytes realip f dest es"

subsection \<open>Lemmas: no byte is lost or counted twice\<close>

lemma unat_saturating_add: "unat a + unat b < 2 ^ 64 \<Longrightarrow> unat (saturating_add a b) = unat a + unat b"
  by (simp add: saturating_add_def unat_word_ariths)

lemma de_bytes_absorb: "de_bytes f a + de_bytes f b < 2 ^ 64 \<Longrightarrow> de_bytes f (absorb a b) = de_bytes f a + de_bytes f b"
  by (cases f) (simp_all add: absorb_def unat_saturating_add)

lemma de_domain_absorb [simp]: "de_domain (absorb a b) = de_domain a"
  by (simp add: absorb_def)

lemma list_bytes_simps [simp]:
  "list_bytes f dest [] = 0"
  "list_bytes f dest (e # es) = (if de_domain e = dest then de_bytes f e else 0) + list_bytes f dest es"
  "list_bytes f dest (xs @ ys) = list_bytes f dest xs + list_bytes f dest ys"
  by (simp_all add: list_bytes_def)

lemma map_bytes_upd [simp]: "map_bytes f dest (fmupd k e m) = (if k = dest then de_bytes f e else map_bytes f dest m)"
  by (simp add: map_bytes_def)

lemma map_bytes_drop [simp]: "map_bytes f dest (fmdrop k m) = (if k = dest then 0 else map_bytes f dest m)"
  by (simp add: map_bytes_def)

lemma map_bytes_empty [simp]: "map_bytes f dest fmempty = 0"
  by (simp add: map_bytes_def)

text \<open>Entries are filed under their own domain.\<close>

definition keyed :: "dst_map \<Rightarrow> bool" where
  "keyed m \<longleftrightarrow> (\<forall>k e. fmlookup m k = Some e \<longrightarrow> de_domain e = k)"

lemma keyedD: "keyed m \<Longrightarrow> fmlookup m k = Some e \<Longrightarrow> de_domain e = k"
  by (simp add: keyed_def)

lemma keyed_upd: "keyed m \<Longrightarrow> de_domain e = k \<Longrightarrow> keyed (fmupd k e m)"
  by (simp add: keyed_def)

lemma keyed_drop: "keyed m \<Longrightarrow> keyed (fmdrop k m)"
  by (simp add: keyed_def)

lemma record_traffic_keyed: "keyed m \<Longrightarrow> keyed (record_traffic realip now t m)"
  by (auto simp: record_traffic_def Let_def intro!: keyed_upd dest: keyedD split: option.split)

lemma record_traffic_bytes:
  assumes "map_bytes f (traffic_domain realip t) m + tk_bytes f t < 2 ^ 64"
  shows "map_bytes f dest (record_traffic realip now t m) =
    map_bytes f dest m + (if traffic_domain realip t = dest then tk_bytes f t else 0)"
  using assms
  by (cases f) (auto simp: record_traffic_def Let_def map_bytes_def unat_saturating_add split: option.splits)

lemma take_key_bytes:
  assumes "keyed m" and "take_key k m taken = (m', taken')"
  shows "map_bytes f dest m' + list_bytes f dest taken' = map_bytes f dest m + list_bytes f dest taken"
  using assms by (cases "fmlookup m k"; cases "k = dest") (auto simp: map_bytes_def dest: keyedD)

lemma take_key_keyed: "keyed m \<Longrightarrow> take_key k m taken = (m', taken') \<Longrightarrow> keyed m'"
  by (auto simp: keyed_drop)

lemma drain_one_bytes:
  assumes "map_bytes f dest m + list_bytes f dest [e] < 2 ^ 64"
  shows "map_bytes f dest (drain_one m e) = map_bytes f dest m + list_bytes f dest [e]"
  using assms by (auto simp: drain_one_def map_bytes_def de_bytes_absorb split: option.splits)

lemma drain_one_keyed: "keyed m \<Longrightarrow> keyed (drain_one m e)"
  by (auto simp: drain_one_def intro!: keyed_upd dest: keyedD split: option.split)

lemma drain_taken_bytes:
  assumes "map_bytes f dest m + list_bytes f dest taken < 2 ^ 64"
  shows "map_bytes f dest (foldl drain_one m taken) = map_bytes f dest m + list_bytes f dest taken"
  using assms by (induction taken arbitrary: m) (auto simp: drain_one_bytes)

lemma drain_taken_keyed: "keyed m \<Longrightarrow> keyed (foldl drain_one m taken)"
  by (induction taken arbitrary: m) (auto simp: drain_one_keyed)

lemma extend_bytes:
  assumes "distinct (map fst items)" and "\<forall>(k, e) \<in> set items. de_domain e = k \<and> fmlookup m k = None"
  shows "map_bytes f dest (foldl (\<lambda>m (k, e). fmupd k e m) m items) = map_bytes f dest m + list_bytes f dest (map snd items)"
  using assms
proof (induction items arbitrary: m)
  case (Cons x items)
  obtain k e where x: "x = (k, e)" by (cases x)
  from Cons.prems x have "map_bytes f dest (foldl (\<lambda>m (k, e). fmupd k e m) (fmupd k e m) items) =
      map_bytes f dest (fmupd k e m) + list_bytes f dest (map snd items)"
    by (intro Cons.IH) force+
  with Cons.prems x show ?case by (auto simp: map_bytes_def)
qed simp

lemma extend_keyed:
  "\<forall>(k, e) \<in> set items. de_domain e = k \<Longrightarrow> keyed m \<Longrightarrow> keyed (foldl (\<lambda>m (k, e). fmupd k e m) m items)"
  by (induction items arbitrary: m) (auto simp: keyed_upd)

text \<open>The output of a drain.\<close>

lemma list_bytes_mset: "mset xs = mset ys \<Longrightarrow> list_bytes f dest xs = list_bytes f dest ys"
  unfolding list_bytes_def by (simp flip: sum_mset_sum_list)

lemma map_filter_lookup_bytes:
  assumes "keyed m" and "distinct ks"
  shows "list_bytes f dest (List.map_filter (fmlookup m) ks) = (if dest \<in> set ks then map_bytes f dest m else 0)"
  using assms(2)
  by (induction ks) (auto simp: List.map_filter_simps map_bytes_def dest: keyedD [OF assms(1)] split: option.splits)

lemma drain_output_bytes:
  assumes "keyed m" and "distinct (order (fmdom m))" and "set (order (fmdom m)) = fset (fmdom m)"
  shows "list_bytes f dest (drain_output order m) = map_bytes f dest m"
proof -
  have "list_bytes f dest (drain_output order m) = list_bytes f dest (List.map_filter (fmlookup m) (order (fmdom m)))"
    unfolding drain_output_def by (rule list_bytes_mset) simp
  also have "\<dots> = map_bytes f dest m"
    using assms by (simp add: map_filter_lookup_bytes) (simp add: map_bytes_def fmdom_notD)
  finally show ?thesis .
qed

text \<open>The cache table.\<close>

definition cache_keyed :: "(bytes \<Rightarrow> dst_entry option) \<Rightarrow> tables \<Rightarrow> bool" where
  "cache_keyed decd t \<longleftrightarrow> (\<forall>k raw e. fmlookup t (DST_TABLE, k) = Some raw \<longrightarrow> decd raw = Some e \<longrightarrow> de_domain e = k)"

lemma cache_keyedD: "cache_keyed decd t \<Longrightarrow> fmlookup t (DST_TABLE, k) = Some raw \<Longrightarrow> decd raw = Some e \<Longrightarrow> de_domain e = k"
  by (simp add: cache_keyed_def)

lemma merge_one_bytes:
  assumes "\<And>e. decd (enc e) = Some e" and "cache_bytes decd f dest t + list_bytes f dest [e] < 2 ^ 64"
  shows "cache_bytes decd f dest (merge_one enc decd DST_TABLE absorb t (de_domain e, e)) =
    cache_bytes decd f dest t + list_bytes f dest [e]"
  using assms by (auto simp: merge_one_def cache_bytes_def Let_def de_bytes_absorb split: option.splits)

lemma merge_one_keyed:
  assumes "\<And>e. decd (enc e) = Some e" and "cache_keyed decd t"
  shows "cache_keyed decd (merge_one enc decd DST_TABLE absorb t (de_domain e, e))"
  using assms by (auto simp: merge_one_def cache_keyed_def Let_def bind_eq_Some_conv split: option.splits)

lemma merge_all:
  assumes enc: "\<And>e. decd (enc e) = Some e"
    and "cache_bytes decd f dest t + list_bytes f dest taken < 2 ^ 64" and "cache_keyed decd t"
  defines "t' \<equiv> foldl (merge_one enc decd DST_TABLE absorb) t (map (\<lambda>e. (de_domain e, e)) taken)"
  shows "cache_bytes decd f dest t' = cache_bytes decd f dest t + list_bytes f dest taken \<and> cache_keyed decd t'"
  unfolding t'_def using assms(2,3)
proof (induction taken arbitrary: t)
  case (Cons e taken)
  let ?t = "merge_one enc decd DST_TABLE absorb t (de_domain e, e)"
  from Cons.prems have b: "cache_bytes decd f dest ?t = cache_bytes decd f dest t + list_bytes f dest [e]"
    by (intro merge_one_bytes [OF enc]) auto
  moreover have "cache_keyed decd ?t" by (rule merge_one_keyed [OF enc Cons.prems(2)])
  ultimately show ?case using Cons.IH [of ?t] Cons.prems(1) by (auto split: if_splits)
qed simp

lemma drained_entries_in:
  assumes "(k, e) \<in> set (drained_entries decd DST_TABLE t ks)"
  shows "k \<in> set ks \<and> (\<exists>raw. fmlookup t (DST_TABLE, k) = Some raw \<and> decd raw = Some e)"
  using assms by (auto simp: drained_entries_def List.map_filter_def bind_eq_Some_conv)

lemma drained_entries_keys: "distinct ks \<Longrightarrow> distinct (map fst (drained_entries decd DST_TABLE t ks))"
proof (induction ks)
  case (Cons k ks)
  moreover have "k \<notin> fst ` set (drained_entries decd DST_TABLE t ks)" if "k \<notin> set ks"
    using that by (auto dest!: drained_entries_in)
  ultimately show ?case by (auto simp: drained_entries_def List.map_filter_simps split: option.splits)
qed (simp add: drained_entries_def List.map_filter_simps)

lemma drained_entries_bytes:
  assumes "cache_keyed decd t" and "distinct ks"
  shows "list_bytes f dest (map snd (drained_entries decd DST_TABLE t ks)) =
    (if dest \<in> set ks then cache_bytes decd f dest t else 0)"
  using assms(2)
  by (induction ks) (auto simp: drained_entries_def List.map_filter_simps cache_bytes_def bind_eq_Some_conv
      dest: cache_keyedD [OF assms(1)] split: option.splits)

lemma fold_fmdrop_lookup: "fmlookup (fold (\<lambda>k. fmdrop (table, k)) ks t) (u, k) = (if u = table \<and> k \<in> set ks then None else fmlookup t (u, k))"
  by (induction ks arbitrary: t) auto

lemma in_table_keys: "fmlookup t (table, k) = Some raw \<Longrightarrow> k \<in> fset (table_keys table t)"
  by (force simp: table_keys_def fmdomI)

definition order_ok :: "(bytes fset \<Rightarrow> bytes list) \<Rightarrow> bool" where
  "order_ok order \<longleftrightarrow> (\<forall>s. distinct (order s) \<and> set (order s) = fset s)"

text \<open>Draining the table moves all of it into the result, or fails and moves nothing.\<close>

lemma drain_entries_bytes:
  assumes "order_ok order" and "cache_keyed decd (db_tables d)" and "drain_entries order decd DST_TABLE d = (r, d')"
  shows "cache_bytes decd f dest (db_tables d') + list_bytes f dest (map snd (case r of Some items \<Rightarrow> items | None \<Rightarrow> [])) =
      cache_bytes decd f dest (db_tables d) \<and> cache_keyed decd (db_tables d')"
proof -
  let ?t = "db_tables d" let ?ks = "order (table_keys DST_TABLE ?t)"
  have ks: "distinct ?ks" "set ?ks = fset (table_keys DST_TABLE ?t)" using assms(1) by (auto simp: order_ok_def)
  have all: "cache_bytes decd f dest ?t = 0" if "dest \<notin> set ?ks"
    using that ks(2) in_table_keys [of ?t DST_TABLE dest] by (cases "fmlookup ?t (DST_TABLE, dest)") (auto simp: cache_bytes_def)
  obtain ok where w: "cache_write (\<lambda>t. fold (\<lambda>k. fmdrop (DST_TABLE, k)) ?ks t) d = (ok, d')"
    and r: "r = (if ok then Some (drained_entries decd DST_TABLE ?t ?ks) else None)"
    using assms(3) by (auto simp: drain_entries_def Let_def split: prod.splits)
  show ?thesis
  proof (cases ok)
    case True
    with cache_write_tables [OF w] have t': "db_tables d' = fold (\<lambda>k. fmdrop (DST_TABLE, k)) ?ks ?t" by simp
    with drained_entries_bytes [OF assms(2) ks(1), of f dest] all r True assms(2) show ?thesis
      by (auto simp: cache_bytes_def cache_keyed_def fold_fmdrop_lookup)
  qed (use cache_write_tables [OF w] r assms(2) in auto)
qed

fun taker_ok :: "bool \<Rightarrow> taker option \<Rightarrow> bool" where
  "taker_ok cached (Some (Flushing ks taken)) = cached"
| "taker_ok cached (Some (Draining ks taken items)) \<longleftrightarrow>
     distinct (map fst items) \<and> (\<forall>(k, e) \<in> set items. de_domain e = k)"
| "taker_ok cached None = True"

definition dst_ok :: "(bytes \<Rightarrow> dst_entry option) \<Rightarrow> dst_state \<Rightarrow> bool" where
  "dst_ok decd s \<longleftrightarrow> keyed (ds_map s) \<and> taker_ok (ds_cache s \<noteq> None) (ds_taker s) \<and>
     (\<forall>d. ds_cache s = Some d \<longrightarrow> cache_keyed decd (db_tables d))"

lemma close_connection_step:
  assumes "dst_ok decd s" and "total_bytes decd f (traffic_domain realip t) s + tk_bytes f t < 2 ^ 64"
  shows "dst_ok decd (close_connection realip t now s) \<and>
    total_bytes decd f dest (close_connection realip t now s) =
      total_bytes decd f dest s + (if traffic_domain realip t = dest then tk_bytes f t else 0)"
proof (cases "tk_upload t = 0 \<and> tk_download t = 0")
  case True
  then have "tk_bytes f t = 0" by (cases f) auto
  with True assms(1) show ?thesis by (simp add: close_connection_def)
next
  case False
  from assms(2) have "map_bytes f (traffic_domain realip t) (ds_map s) + tk_bytes f t < 2 ^ 64"
    by (simp add: total_bytes_def)
  from record_traffic_bytes [OF this, of dest now] False assms(1) show ?thesis
    unfolding close_connection_def if_not_P [OF False] Let_def
    by (simp add: total_bytes_def dst_ok_def record_traffic_keyed)
qed

lemma take_step_step:
  assumes "dst_ok decd s"
  shows "dst_ok decd (take_step s) \<and> total_bytes decd f dest (take_step s) = total_bytes decd f dest s"
proof -
  have k: "keyed (ds_map s)" using assms by (simp add: dst_ok_def)
  show ?thesis using assms take_key_bytes [OF k]
    by (auto simp: take_step_def total_bytes_def dst_ok_def take_key_keyed simp del: take_key.simps
        split: option.splits taker.splits list.splits prod.splits)
qed

lemma drain_start_step:
  assumes "dst_ok decd s" and "order_ok order"
  shows "dst_ok decd (drain_start order decd keys s) \<and>
    total_bytes decd f dest (drain_start order decd keys s) = total_bytes decd f dest s"
proof (cases "ds_taker s = None \<and> ds_cache s \<noteq> None")
  case True
  then obtain d where d: "ds_taker s = None" "ds_cache s = Some d" by auto
  obtain r d' where dr: "drain_entries order decd DST_TABLE d = (r, d')" by fastforce
  from assms(1) d have ck: "cache_keyed decd (db_tables d)" by (simp add: dst_ok_def)
  note b = drain_entries_bytes [OF assms(2) ck dr]
  let ?items = "case r of Some items \<Rightarrow> items | None \<Rightarrow> []"
  from dr have items: "?items = [] \<or> ?items = drained_entries decd DST_TABLE (db_tables d) (order (table_keys DST_TABLE (db_tables d)))"
    by (auto simp: drain_entries_def Let_def split: prod.splits if_splits)
  have "taker_ok True (Some (Draining keys [] ?items))"
    using items assms(2) cache_keyedD [OF ck] by (auto simp: order_ok_def drained_entries_keys dest!: drained_entries_in)
  with b [of f dest] d dr assms(1) show ?thesis
    by (simp add: drain_start_def total_bytes_def dst_ok_def)
qed (use assms(1) in \<open>auto simp: drain_start_def dst_ok_def total_bytes_def\<close>)

lemma flush_merge_step:
  assumes "\<And>e. decd (enc e) = Some e" and "cache_keyed decd (db_tables d)"
    and "cache_bytes decd f dest (db_tables d) + list_bytes f dest taken < 2 ^ 64"
    and "flush_merge enc decd taken d = (ok, d')"
  shows "cache_keyed decd (db_tables d') \<and>
    cache_bytes decd f dest (db_tables d') = cache_bytes decd f dest (db_tables d) + (if ok then list_bytes f dest taken else 0)"
proof (cases "taken = []")
  case True
  with assms show ?thesis by (auto simp: flush_merge_def merge_entries_def)
next
  case False
  with assms(4) have "cache_write (\<lambda>t. foldl (merge_one enc decd DST_TABLE absorb) t (map (\<lambda>e. (de_domain e, e)) taken)) d = (ok, d')"
    by (simp add: flush_merge_def merge_entries_def)
  with cache_write_tables [OF this] merge_all [OF assms(1,3,2)] assms(2) show ?thesis by simp
qed

lemma drain_merge_bytes:
  assumes "distinct (map fst items)" and "\<forall>(k, e) \<in> set items. de_domain e = k"
    and "list_bytes f dest taken + list_bytes f dest (map snd items) < 2 ^ 64"
  shows "map_bytes f dest (drain_merge items taken) = list_bytes f dest taken + list_bytes f dest (map snd items) \<and>
    keyed (drain_merge items taken)"
proof -
  have "keyed fmempty" by (simp add: keyed_def)
  with extend_bytes [OF assms(1), of fmempty f dest] assms(2) extend_keyed [OF assms(2)] assms(3)
  show ?thesis unfolding drain_merge_def by (auto simp: drain_taken_bytes drain_taken_keyed)
qed

lemma taker_end_idle:
  "(\<And>taken. ds_taker s \<noteq> Some (Flushing [] taken)) \<Longrightarrow> (\<And>taken items. ds_taker s \<noteq> Some (Draining [] taken items)) \<Longrightarrow>
     taker_end order enc decd s = s"
  by (simp add: taker_end_def split: option.split taker.split list.split)

lemma taker_end_step:
  assumes "dst_ok decd s" and "order_ok order" and enc: "\<And>e. decd (enc e) = Some e"
    and bound: "total_bytes decd f dest s < 2 ^ 64"
  shows "dst_ok decd (taker_end order enc decd s) \<and> total_bytes decd f dest (taker_end order enc decd s) = total_bytes decd f dest s"
proof -
  consider (flush) taken where "ds_taker s = Some (Flushing [] taken)"
    | (drain) taken items where "ds_taker s = Some (Draining [] taken items)"
    | (other) "taker_end order enc decd s = s"
    using taker_end_idle by blast
  then show ?thesis
  proof cases
    case flush
    with assms(1) obtain d where d: "ds_cache s = Some d" by (auto simp: dst_ok_def)
    obtain ok d' where m: "flush_merge enc decd taken d = (ok, d')" by fastforce
    from assms(1) d have ck: "cache_keyed decd (db_tables d)" by (simp add: dst_ok_def)
    from bound flush d have "cache_bytes decd f dest (db_tables d) + list_bytes f dest taken < 2 ^ 64"
      by (simp add: total_bytes_def)
    from flush_merge_step [OF enc ck this m] assms(1) d m flush show ?thesis
      by (simp add: taker_end_def dst_ok_def total_bytes_def)
  next
    case drain
    from assms(1) drain have i: "distinct (map fst items)" "\<forall>(k, e) \<in> set items. de_domain e = k" by (auto simp: dst_ok_def)
    from bound drain have "list_bytes f dest taken + list_bytes f dest (map snd items) < 2 ^ 64" by (simp add: total_bytes_def)
    from drain_merge_bytes [OF i this] assms(1,2) drain show ?thesis
      by (simp add: taker_end_def dst_ok_def total_bytes_def drain_output_bytes order_ok_def)
  qed (use assms(1) in simp)
qed

lemma dst_apply_step:
  assumes "dst_ok decd s" and "order_ok order" and enc: "\<And>e. decd (enc e) = Some e"
    and bound: "\<And>dest. total_bytes decd f dest s + closed_bytes realip f dest [ev] < 2 ^ 64"
  shows "dst_ok decd (dst_apply realip order enc decd ev s) \<and>
    total_bytes decd f dest (dst_apply realip order enc decd ev s) = total_bytes decd f dest s + closed_bytes realip f dest [ev]"
proof (cases ev)
  case (CloseConn t now)
  with close_connection_step [OF assms(1), where f = f and realip = realip and t = t] bound [of "traffic_domain realip t"] show ?thesis by simp
next
  case (FlushStart keys)
  with assms(1) show ?thesis by (auto simp: flush_start_def Let_def dst_ok_def total_bytes_def)
next
  case (DrainStart keys)
  with drain_start_step [OF assms(1,2)] show ?thesis by simp
next
  case TakeKey
  with take_step_step [OF assms(1)] show ?thesis by simp
next
  case TakerEnd
  with taker_end_step [OF assms(1,2) enc, of f dest] bound [of dest] show ?thesis by simp
qed

lemma closed_bytes_Cons: "closed_bytes realip f dest (ev # evs) = closed_bytes realip f dest [ev] + closed_bytes realip f dest evs"
  by (cases ev) simp_all

lemma dst_run:
  assumes "dst_ok decd s" and "order_ok order" and enc: "\<And>e. decd (enc e) = Some e"
    and "\<And>dest. total_bytes decd f dest s + closed_bytes realip f dest evs < 2 ^ 64"
  shows "total_bytes decd f dest (fold (dst_apply realip order enc decd) evs s) =
    total_bytes decd f dest s + closed_bytes realip f dest evs"
  using assms(1,4)
proof (induction evs arbitrary: s)
  case (Cons ev evs)
  have b: "total_bytes decd f dest s + closed_bytes realip f dest [ev] < 2 ^ 64" for dest
    using Cons.prems(2) [of dest] by (subst (asm) closed_bytes_Cons) simp
  note step = dst_apply_step [OF Cons.prems(1) assms(2) enc b]
  have "total_bytes decd f dest (dst_apply realip order enc decd ev s) + closed_bytes realip f dest evs < 2 ^ 64" for dest
    using Cons.prems(2) [of dest] step [of dest] by (subst (asm) closed_bytes_Cons) simp
  from Cons.IH [OF _ this] step show ?case by (subst closed_bytes_Cons) simp
qed simp

subsection \<open>Properties\<close>

definition dst_start :: "shared_db option \<Rightarrow> dst_state" where
  "dst_start cache = \<lparr>ds_map = fmempty, ds_cache = cache, ds_pending = 0, ds_taker = None, ds_drained = [], ds_lost = []\<rparr>"

text \<open>C28. Traffic accounting is exact. However closing connections, flushes into the cache and drains by
  the API interleave, the bytes of the closed connections of a destination are, in either
  direction, exactly those in the map, held by the running flush or drain, in the cache, handed
  to the API, or in a batch whose merge into the cache failed, together with what the cache held
  at the start; as long as no total reaches \<open>2 ^ 64\<close>.\<close>

theorem dst_traffic_exact:
  assumes "order_ok order" and "\<And>e. decd (enc e) = Some e"
    and "\<And>d. cache = Some d \<Longrightarrow> cache_keyed decd (db_tables d)"
    and "\<And>dest. total_bytes decd f dest (dst_start cache) + closed_bytes realip f dest evs < 2 ^ 64"
  shows "total_bytes decd f dest (fold (dst_apply realip order enc decd) evs (dst_start cache)) =
    total_bytes decd f dest (dst_start cache) + closed_bytes realip f dest evs"
proof (rule dst_run)
  show "dst_ok decd (dst_start cache)" using assms(3) by (simp add: dst_ok_def dst_start_def keyed_def)
qed (use assms in auto)

text \<open>A concrete encoding of entries.\<close>

definition sample_str :: "bytes \<Rightarrow> bytes" where
  "sample_str xs = concat (map (\<lambda>b. [1, b]) xs) @ [0]"

fun sample_unstr :: "bytes \<Rightarrow> (bytes \<times> bytes) option" where
  "sample_unstr (b # rest) =
     (if b = 0 then Some ([], rest)
      else case rest of [] \<Rightarrow> None | c # rest' \<Rightarrow> map_option (apfst (Cons c)) (sample_unstr rest'))"
| "sample_unstr [] = None"

definition sample_enc :: "dst_entry \<Rightarrow> bytes" where
  "sample_enc e = sample_str (de_domain e) @ sample_str (de_ip e) @ sample_str (de_outbound_tag e) @
     to_be 8 (de_upload e) @ to_be 8 (de_download e) @ to_be 8 (de_last_active e)"

definition sample_dec :: "bytes \<Rightarrow> dst_entry option" where
  "sample_dec s =
     Option.bind (sample_unstr s) (\<lambda>(d, s1). Option.bind (sample_unstr s1) (\<lambda>(i, s2).
     Option.bind (sample_unstr s2) (\<lambda>(g, s3). Option.bind (read_be 8 s3) (\<lambda>(u, s4).
     Option.bind (read_be 8 s4) (\<lambda>(v, s5). Option.bind (read_be 8 s5) (\<lambda>(w, s6).
       Some \<lparr>de_domain = d, de_ip = i, de_outbound_tag = g, de_upload = u, de_download = v, de_last_active = w\<rparr>))))))"

lemma sample_unstr_str: "sample_unstr (sample_str xs @ rest) = Some (xs, rest)"
  by (induction xs) (simp_all add: sample_str_def)

lemma sample_roundtrip: "sample_dec (sample_enc e) = Some e"
  using read_be_to_be [where n = 8 and w = "de_last_active e" and rest = "[]"]
  by (simp add: sample_dec_def sample_enc_def sample_unstr_str read_be_to_be)

lemma sorted_order_ok: "order_ok sorted_list_of_fset"
  by (simp add: order_ok_def sorted_list_of_fset.rep_eq)

definition sample_conn :: conn_tracker where
  "sample_conn = (tracker_new 7 (str ''in'') [str ''out''] None (Domain (str ''a'') 1) (Domain (str ''a'') 1) False False 0)
     \<lparr>tk_upload := 5, tk_download := 9\<rparr>"

theorem dst_traffic_exact_witness:
  "total_bytes sample_dec Down (str ''a:1'')
     (fold (dst_apply (\<lambda>_. None) sorted_list_of_fset sample_enc sample_dec)
       [CloseConn sample_conn 3, DrainStart [str ''a:1''], TakeKey, CloseConn sample_conn 4, TakerEnd] (dst_start None)) = 18"
proof -
  have d: "traffic_domain (\<lambda>_. None) sample_conn = str ''a:1''"
    by (simp add: traffic_domain_def sample_conn_def tracker_new_def show_nat.simps)
  have b: "unat (tk_download sample_conn) = 9" by (simp add: sample_conn_def tracker_new_def)
  have z: "total_bytes sample_dec Down dest (dst_start None) = 0" for dest
    by (simp add: total_bytes_def dst_start_def)
  show ?thesis
    using dst_traffic_exact [OF sorted_order_ok, of sample_dec sample_enc None Down "\<lambda>_. None"
        "[CloseConn sample_conn 3, DrainStart [str ''a:1''], TakeKey, CloseConn sample_conn 4, TakerEnd]" "str ''a:1''"]
    by (simp add: sample_roundtrip z b d del: dst_apply.simps fold_simps split: if_splits)
qed

end
