(* ===== verification/Observe.thy ===== *)
theory Observe
  imports Dst_Traffic Bound_Config Shadow_Udp "HOL-Library.Product_Lexorder"
begin

text \<open>
  The observer (\<open>src/src/proxy/observe.rs\<close>): traffic counters, the users known to the running
  program with their credentials per inbound, their passwords and persisted counters, and the
  table of live connections. The inbounds keep user lists of their own; \<open>apply_user_change\<close>
  (\<open>src/src/proxy/inbound/mod.rs\<close>) updates them all. A \<open>Stats\<close> behind an \<open>Arc\<close> is an index into
  the list \<open>ob_heap\<close>, so sessions that hold a user's counters share them. Hash functions, the UUID
  parser and the iteration order of hash maps are parameters.
\<close>

subsection \<open>Counters\<close>

record stats =
  st_active_tcp :: u64
  st_active_udp :: u64
  st_total_tcp :: u64
  st_total_udp :: u64
  st_upload :: u64
  st_download :: u64
  st_dns_total_time_us :: u64
  st_dns_query_count :: u64
  st_route_total_time_us :: u64
  st_route_match_count :: u64
  st_latency_ms :: "64 word"

definition stats_default :: stats where
  "stats_default = \<lparr>st_active_tcp = 0, st_active_udp = 0, st_total_tcp = 0, st_total_udp = 0, st_upload = 0,
     st_download = 0, st_dns_total_time_us = 0, st_dns_query_count = 0, st_route_total_time_us = 0,
     st_route_match_count = 0, st_latency_ms = 0\<rparr>"

definition saturating_sub :: "u64 \<Rightarrow> u64 \<Rightarrow> u64" where
  "saturating_sub a b = (if b \<le> a then a - b else 0)"

definition add_traffic :: "u64 \<Rightarrow> u64 \<Rightarrow> stats \<Rightarrow> stats" where
  "add_traffic up down s = s\<lparr>st_upload := st_upload s + up, st_download := st_download s + down\<rparr>"

definition record_dns_time :: "u64 \<Rightarrow> stats \<Rightarrow> stats" where
  "record_dns_time us s = s\<lparr>st_dns_total_time_us := st_dns_total_time_us s + us, st_dns_query_count := st_dns_query_count s + 1\<rparr>"

definition record_route_time :: "u64 \<Rightarrow> stats \<Rightarrow> stats" where
  "record_route_time us s =
     s\<lparr>st_route_total_time_us := st_route_total_time_us s + us, st_route_match_count := st_route_match_count s + 1\<rparr>"

definition checked_avg :: "u64 \<Rightarrow> u64 \<Rightarrow> u64" where
  "checked_avg sum_us n = (if n = 0 then 0 else sum_us div n)"

definition get_dns_avg_time_us :: "stats \<Rightarrow> u64" where
  "get_dns_avg_time_us s = checked_avg (st_dns_total_time_us s) (st_dns_query_count s)"

definition get_route_avg_time_us :: "stats \<Rightarrow> u64" where
  "get_route_avg_time_us s = checked_avg (st_route_total_time_us s) (st_route_match_count s)"

definition inc_active_tcp :: "stats \<Rightarrow> stats" where
  "inc_active_tcp s = s\<lparr>st_active_tcp := st_active_tcp s + 1, st_total_tcp := st_total_tcp s + 1\<rparr>"

definition dec_active_tcp :: "stats \<Rightarrow> stats" where
  "dec_active_tcp s = s\<lparr>st_active_tcp := saturating_sub (st_active_tcp s) 1\<rparr>"

definition inc_active_udp :: "stats \<Rightarrow> stats" where
  "inc_active_udp s = s\<lparr>st_active_udp := st_active_udp s + 1, st_total_udp := st_total_udp s + 1\<rparr>"

definition dec_active_udp :: "stats \<Rightarrow> stats" where
  "dec_active_udp s = s\<lparr>st_active_udp := saturating_sub (st_active_udp s) 1\<rparr>"

definition inc_upload :: "u64 \<Rightarrow> stats \<Rightarrow> stats" where
  "inc_upload n s = s\<lparr>st_upload := st_upload s + n\<rparr>"

definition inc_download :: "u64 \<Rightarrow> stats \<Rightarrow> stats" where
  "inc_download n s = s\<lparr>st_download := st_download s + n\<rparr>"

record traffic_snapshot =
  sn_upload :: u64
  sn_download :: u64
  sn_total_tcp :: u64
  sn_total_udp :: u64

definition snapshot_of :: "stats \<Rightarrow> traffic_snapshot" where
  "snapshot_of s = \<lparr>sn_upload = st_upload s, sn_download = st_download s, sn_total_tcp = st_total_tcp s,
     sn_total_udp = st_total_udp s\<rparr>"

definition take_traffic :: "stats \<Rightarrow> traffic_snapshot \<times> stats" where
  "take_traffic s = (snapshot_of s, s\<lparr>st_upload := 0, st_download := 0, st_total_tcp := 0, st_total_udp := 0\<rparr>)"

definition restore :: "traffic_snapshot \<Rightarrow> stats \<Rightarrow> stats" where
  "restore sn s = s\<lparr>st_upload := sn_upload sn, st_download := sn_download sn, st_total_tcp := sn_total_tcp sn,
     st_total_udp := sn_total_udp sn\<rparr>"

subsection \<open>Credentials\<close>

record crypto =
  cr_sha224 :: "bytes \<Rightarrow> bytes"
  cr_sha256 :: "bytes \<Rightarrow> bytes"
  cr_md5 :: "bytes \<Rightarrow> bytes"
  cr_parse_uuid :: "bytes \<Rightarrow> bytes option"

definition hex_encode :: "bytes \<Rightarrow> bytes" where
  "hex_encode bs = concat (map (\<lambda>b. [show_hex_digit (unat b div 16), show_hex_digit (unat b mod 16)]) bs)"

definition cmd_key :: "crypto \<Rightarrow> bytes \<Rightarrow> bytes" where
  "cmd_key cr uuid = cr_md5 cr (uuid @ str ''c48619fe-8f02-49e0-b9e9-edf763e17e21'')"

definition credential_hash :: "crypto \<Rightarrow> bytes \<Rightarrow> bytes \<Rightarrow> bytes \<Rightarrow> bytes option" where
  "credential_hash cr protocol username password =
     (if protocol = str ''trojan'' then Some (hex_encode (cr_sha224 cr password))
      else if protocol = str ''anytls'' then Some (cr_sha256 cr password)
      else if protocol = str ''shadowquic'' then Some (gen_sunny_auth_hash (cr_sha256 cr) username password)
      else if protocol = str ''vmess'' then map_option (cmd_key cr) (cr_parse_uuid cr username)
      else None)"

subsection \<open>The inbounds' user lists\<close>

record inbound_users =
  iu_protocol :: bytes
  iu_supports :: bool
  iu_users :: "auth_user list"

type_synonym inbounds = "(bytes, inbound_users) fmap"

fun users_upsert :: "auth_user \<Rightarrow> auth_user list \<Rightarrow> auth_user list" where
  "users_upsert user [] = [user]"
| "users_upsert user (u # us) =
     (if au_username u = au_username user then u\<lparr>au_password := au_password user\<rparr> # us
      else u # users_upsert user us)"

definition users_remove :: "bytes \<Rightarrow> auth_user list \<Rightarrow> auth_user list" where
  "users_remove username us = filter (\<lambda>u. au_username u \<noteq> username) us"

text \<open>\<open>AnyInbound::add_user\<close> and \<open>remove_user\<close>; a VMess inbound refuses names that are not UUIDs.\<close>

definition inbound_add_user :: "crypto \<Rightarrow> auth_user \<Rightarrow> inbound_users \<Rightarrow> inbound_users option" where
  "inbound_add_user cr user ib =
     (if iu_protocol ib = str ''vmess'' \<and> cr_parse_uuid cr (au_username user) = None then None
      else Some (ib\<lparr>iu_users := users_upsert user (iu_users ib)\<rparr>))"

definition inbound_remove_user :: "bytes \<Rightarrow> inbound_users \<Rightarrow> inbound_users" where
  "inbound_remove_user username ib = ib\<lparr>iu_users := users_remove username (iu_users ib)\<rparr>"

text \<open>The inbounds are visited in turn; the first failure ends the loop (\<open>False\<close>), with the changes
  made so far in place.\<close>

fun apply_to_targets :: "crypto \<Rightarrow> auth_user \<Rightarrow> bool \<Rightarrow> bytes list \<Rightarrow> inbounds \<Rightarrow> bool \<times> inbounds" where
  "apply_to_targets cr user remove [] ibs = (True, ibs)"
| "apply_to_targets cr user remove (tag # tags) ibs =
     (case fmlookup ibs tag of
        None \<Rightarrow> apply_to_targets cr user remove tags ibs
      | Some ib \<Rightarrow>
          if \<not> iu_supports ib then apply_to_targets cr user remove tags ibs
          else if remove then
            apply_to_targets cr user remove tags (fmupd tag (inbound_remove_user (au_username user) ib) ibs)
          else (case inbound_add_user cr user ib of
                  None \<Rightarrow> (False, ibs)
                | Some ib' \<Rightarrow> apply_to_targets cr user remove tags (fmupd tag ib' ibs)))"

definition apply_user_change :: "crypto \<Rightarrow> (bytes fset \<Rightarrow> bytes list) \<Rightarrow> auth_user \<Rightarrow> bool \<Rightarrow> inbounds \<Rightarrow> bool \<times> inbounds" where
  "apply_user_change cr order user remove ibs = apply_to_targets cr user remove (order (fmdom ibs)) ibs"

subsection \<open>The observer\<close>

record node_stats =
  ns_protocol :: bytes
  ns_stats :: nat
  ns_testing :: bool

record conn_record =
  cn_tracker :: conn_tracker
  cn_closer :: "nat option"

record persisted_user =
  pu_username :: bytes
  pu_password :: bytes
  pu_snapshot :: traffic_snapshot

text \<open>\<open>ob_closed\<close> lists the session closers that were fired.\<close>

record observer =
  ob_inbounds :: "(bytes, node_stats) fmap"
  ob_outbounds :: "(bytes, node_stats) fmap"
  ob_heap :: "stats list"
  ob_user_stats :: "(bytes, nat) fmap"
  ob_user_creds :: "(bytes \<times> bytes, bytes) fmap"
  ob_user_passwords :: "(bytes, bytes) fmap"
  ob_user_cache :: "shared_db option"
  ob_global_stats :: stats
  ob_connections :: "(nat, conn_record) fmap"
  ob_closed :: "nat list"

definition observer_new :: "shared_db option \<Rightarrow> observer" where
  "observer_new cache = \<lparr>ob_inbounds = fmempty, ob_outbounds = fmempty, ob_heap = [], ob_user_stats = fmempty,
     ob_user_creds = fmempty, ob_user_passwords = fmempty, ob_user_cache = cache, ob_global_stats = stats_default,
     ob_connections = fmempty, ob_closed = []\<rparr>"

definition upd_stats :: "nat \<Rightarrow> (stats \<Rightarrow> stats) \<Rightarrow> observer \<Rightarrow> observer" where
  "upd_stats i g s = s\<lparr>ob_heap := (ob_heap s)[i := g (ob_heap s ! i)]\<rparr>"

definition alloc_stats :: "observer \<Rightarrow> nat \<times> observer" where
  "alloc_stats s = (length (ob_heap s), s\<lparr>ob_heap := ob_heap s @ [stats_default]\<rparr>)"

definition register_inbound :: "bytes \<Rightarrow> bytes \<Rightarrow> observer \<Rightarrow> observer" where
  "register_inbound tag protocol s =
     (case fmlookup (ob_inbounds s) tag of
        Some _ \<Rightarrow> s
      | None \<Rightarrow> (case alloc_stats s of (i, s1) \<Rightarrow>
          s1\<lparr>ob_inbounds := fmupd tag \<lparr>ns_protocol = protocol, ns_stats = i, ns_testing = False\<rparr> (ob_inbounds s1)\<rparr>))"

definition register_outbound :: "bytes \<Rightarrow> bytes \<Rightarrow> observer \<Rightarrow> observer" where
  "register_outbound tag protocol s =
     (case fmlookup (ob_outbounds s) tag of
        Some _ \<Rightarrow> s
      | None \<Rightarrow> (case alloc_stats s of (i, s1) \<Rightarrow>
          s1\<lparr>ob_outbounds := fmupd tag \<lparr>ns_protocol = protocol, ns_stats = i, ns_testing = False\<rparr> (ob_outbounds s1)\<rparr>))"

definition on_inbound :: "(stats \<Rightarrow> stats) \<Rightarrow> bytes \<Rightarrow> observer \<Rightarrow> observer" where
  "on_inbound g tag s = (case fmlookup (ob_inbounds s) tag of None \<Rightarrow> s | Some n \<Rightarrow> upd_stats (ns_stats n) g s)"

definition on_outbound :: "(stats \<Rightarrow> stats) \<Rightarrow> bytes \<Rightarrow> observer \<Rightarrow> observer" where
  "on_outbound g tag s = (case fmlookup (ob_outbounds s) tag of None \<Rightarrow> s | Some n \<Rightarrow> upd_stats (ns_stats n) g s)"

definition update_global_traffic :: "u64 \<Rightarrow> u64 \<Rightarrow> observer \<Rightarrow> observer" where
  "update_global_traffic up down s = s\<lparr>ob_global_stats := add_traffic up down (ob_global_stats s)\<rparr>"

definition update_outbound_traffic :: "bytes \<Rightarrow> u64 \<Rightarrow> u64 \<Rightarrow> observer \<Rightarrow> observer" where
  "update_outbound_traffic tag up down s = update_global_traffic up down (on_outbound (add_traffic up down) tag s)"

subsection \<open>Connections\<close>

definition add_connection :: "(bytes \<Rightarrow> bytes option) \<Rightarrow> conn_tracker \<Rightarrow> nat option \<Rightarrow> observer \<Rightarrow> observer" where
  "add_connection realip t closer s =
     (let t' = t\<lparr>tk_domain := resolve_domain_for_target realip (tk_final_target t)\<rparr>
      in s\<lparr>ob_connections := fmupd (tk_id t') \<lparr>cn_tracker = t', cn_closer = closer\<rparr> (ob_connections s)\<rparr>)"

definition close_record :: "nat \<Rightarrow> observer \<Rightarrow> observer" where
  "close_record uuid s =
     (case fmlookup (ob_connections s) uuid of
        Some r \<Rightarrow> (case cn_closer r of Some c \<Rightarrow> s\<lparr>ob_closed := ob_closed s @ [c]\<rparr> | None \<Rightarrow> s)
      | None \<Rightarrow> s)"

definition kill_connection :: "nat option \<Rightarrow> observer \<Rightarrow> bool \<times> observer" where
  "kill_connection uuid s =
     (case uuid of
        None \<Rightarrow> (False, s)
      | Some i \<Rightarrow>
          (case fmlookup (ob_connections s) i of
             Some r \<Rightarrow> (case cn_closer r of Some c \<Rightarrow> (True, s\<lparr>ob_closed := ob_closed s @ [c]\<rparr>) | None \<Rightarrow> (False, s))
           | None \<Rightarrow> (False, s)))"

definition kill_connections_where :: "(nat fset \<Rightarrow> nat list) \<Rightarrow> (conn_tracker \<Rightarrow> bool) \<Rightarrow> observer \<Rightarrow> observer" where
  "kill_connections_where uorder P s =
     fold close_record
       (filter (\<lambda>i. case fmlookup (ob_connections s) i of Some r \<Rightarrow> P (cn_tracker r) | None \<Rightarrow> False) (uorder (fmdom (ob_connections s)))) s"

definition kill_all_connections :: "(nat fset \<Rightarrow> nat list) \<Rightarrow> observer \<Rightarrow> observer" where
  "kill_all_connections uorder s = fold close_record (uorder (fmdom (ob_connections s))) s"

definition kill_connections_by_outbound :: "(nat fset \<Rightarrow> nat list) \<Rightarrow> bytes \<Rightarrow> observer \<Rightarrow> observer" where
  "kill_connections_by_outbound uorder tag s = kill_connections_where uorder (uses_outbound tag) s"

definition kill_connections_by_user :: "(nat fset \<Rightarrow> nat list) \<Rightarrow> bytes \<Rightarrow> observer \<Rightarrow> observer" where
  "kill_connections_by_user uorder username s = kill_connections_where uorder (\<lambda>t. tk_user t = Some username) s"

subsection \<open>Users\<close>

definition upsert_user :: "bytes \<Rightarrow> observer \<Rightarrow> nat \<times> observer" where
  "upsert_user username s =
     (case fmlookup (ob_user_stats s) username of
        Some i \<Rightarrow> (i, s)
      | None \<Rightarrow> (case alloc_stats s of (i, s1) \<Rightarrow> (i, s1\<lparr>ob_user_stats := fmupd username i (ob_user_stats s1)\<rparr>)))"

definition set_user_credential :: "bytes \<Rightarrow> bytes \<Rightarrow> bytes \<Rightarrow> observer \<Rightarrow> observer" where
  "set_user_credential tag username credential s =
     s\<lparr>ob_user_creds := fmupd (tag, username) credential (ob_user_creds s)\<rparr>"

definition set_user_password :: "bytes \<Rightarrow> bytes \<Rightarrow> observer \<Rightarrow> observer" where
  "set_user_password username password s = s\<lparr>ob_user_passwords := fmupd username password (ob_user_passwords s)\<rparr>"

definition persisted_users :: "(bytes fset \<Rightarrow> bytes list) \<Rightarrow> observer \<Rightarrow> auth_user list" where
  "persisted_users order s =
     List.map_filter (\<lambda>u. map_option (\<lambda>p. \<lparr>au_username = u, au_password = p\<rparr>) (fmlookup (ob_user_passwords s) u))
       (order (fmdom (ob_user_passwords s)))"

text \<open>\<open>authenticate\<close>: the first credential of the inbound that matches, in iteration order.\<close>

definition authenticate_user :: "((bytes \<times> bytes) fset \<Rightarrow> (bytes \<times> bytes) list) \<Rightarrow> bytes \<Rightarrow> bytes \<Rightarrow> observer \<Rightarrow> (bytes \<times> nat) option" where
  "authenticate_user corder tag credential s =
     (case find (\<lambda>k. fst k = tag \<and> fmlookup (ob_user_creds s) k = Some credential) (corder (fmdom (ob_user_creds s))) of
        None \<Rightarrow> None
      | Some (_, username) \<Rightarrow> map_option (Pair username) (fmlookup (ob_user_stats s) username))"

definition USERS_TABLE :: bytes where "USERS_TABLE = str ''observe:users''"

definition save_persisted :: "(persisted_user \<Rightarrow> bytes) \<Rightarrow> bytes \<Rightarrow> observer \<Rightarrow> observer" where
  "save_persisted enc username s =
     (case ob_user_cache s of
        None \<Rightarrow> s
      | Some d \<Rightarrow>
          (case fmlookup (ob_user_stats s) username of
             None \<Rightarrow> s
           | Some i \<Rightarrow>
               (let password = (case fmlookup (ob_user_passwords s) username of Some p \<Rightarrow> p | None \<Rightarrow> []);
                    p = \<lparr>pu_username = username, pu_password = password, pu_snapshot = snapshot_of (ob_heap s ! i)\<rparr>
                in s\<lparr>ob_user_cache := Some (snd (set_entry enc USERS_TABLE d username p))\<rparr>)))"

definition persist_users :: "(bytes fset \<Rightarrow> bytes list) \<Rightarrow> (persisted_user \<Rightarrow> bytes) \<Rightarrow> observer \<Rightarrow> observer" where
  "persist_users order enc s = fold (save_persisted enc) (order (fmdom (ob_user_stats s))) s"

definition load_one :: "persisted_user \<Rightarrow> observer \<Rightarrow> observer" where
  "load_one p s =
     (case upsert_user (pu_username p) s of (i, s1) \<Rightarrow>
        (let s2 = upd_stats i (restore (pu_snapshot p)) s1
         in if pu_password p \<noteq> [] then set_user_password (pu_username p) (pu_password p) s2 else s2))"

definition load_persisted_users :: "(bytes fset \<Rightarrow> bytes list) \<Rightarrow> (bytes \<Rightarrow> persisted_user option) \<Rightarrow> observer \<Rightarrow> observer" where
  "load_persisted_users order decd s =
     (case ob_user_cache s of
        None \<Rightarrow> s
      | Some d \<Rightarrow>
          (case get_all_entries order decd USERS_TABLE d of
             (None, d1) \<Rightarrow> s\<lparr>ob_user_cache := Some d1\<rparr>
           | (Some entries, d1) \<Rightarrow> fold load_one (map snd entries) (s\<lparr>ob_user_cache := Some d1\<rparr>)))"

text \<open>\<open>add_user\<close> and \<open>remove_user\<close>, over the observer and the inbounds' own lists.\<close>

fun set_credentials :: "crypto \<Rightarrow> bytes \<Rightarrow> bytes \<Rightarrow> bytes list \<Rightarrow> observer \<Rightarrow> observer" where
  "set_credentials cr username password [] s = s"
| "set_credentials cr username password (tag # tags) s =
     (case fmlookup (ob_inbounds s) tag of
        None \<Rightarrow> set_credentials cr username password tags s
      | Some n \<Rightarrow>
          (case credential_hash cr (ns_protocol n) username password of
             None \<Rightarrow> set_credentials cr username password tags s
           | Some c \<Rightarrow> set_credentials cr username password tags (set_user_credential tag username c s)))"

definition add_user :: "crypto \<Rightarrow> (bytes fset \<Rightarrow> bytes list) \<Rightarrow> (persisted_user \<Rightarrow> bytes) \<Rightarrow> bytes \<Rightarrow> bytes \<Rightarrow>
    observer \<times> inbounds \<Rightarrow> bool \<times> observer \<times> inbounds" where
  "add_user cr order enc username password w =
     (let (s, ibs) = w in
      case apply_user_change cr order \<lparr>au_username = username, au_password = password\<rparr> False ibs of
        (False, ibs1) \<Rightarrow> (False, s, ibs1)
      | (True, ibs1) \<Rightarrow>
          (let s1 = set_credentials cr username password (order (fmdom (ob_inbounds s))) s;
               s2 = snd (upsert_user username s1);
               s3 = set_user_password username password s2
           in (True, save_persisted enc username s3, ibs1)))"

definition drop_credentials :: "((bytes \<times> bytes) fset \<Rightarrow> (bytes \<times> bytes) list) \<Rightarrow> bytes \<Rightarrow> observer \<Rightarrow> observer" where
  "drop_credentials corder username s =
     (let tags = map fst (filter (\<lambda>k. snd k = username) (corder (fmdom (ob_user_creds s))))
      in s\<lparr>ob_user_creds := fold (\<lambda>tag. fmdrop (tag, username)) tags (ob_user_creds s)\<rparr>)"

text \<open>The result: \<open>None\<close> for an error, else whether the user existed.\<close>

definition remove_user :: "crypto \<Rightarrow> (bytes fset \<Rightarrow> bytes list) \<Rightarrow> ((bytes \<times> bytes) fset \<Rightarrow> (bytes \<times> bytes) list) \<Rightarrow>
    (nat fset \<Rightarrow> nat list) \<Rightarrow> (bytes \<Rightarrow> persisted_user option) \<Rightarrow> bytes \<Rightarrow> observer \<times> inbounds \<Rightarrow> bool option \<times> observer \<times> inbounds" where
  "remove_user cr order corder uorder decd username w =
     (let (s, ibs) = w in
      if username |\<notin>| fmdom (ob_user_stats s) then (Some False, s, ibs)
      else
        case apply_user_change cr order \<lparr>au_username = username, au_password = []\<rparr> True ibs of
          (False, ibs1) \<Rightarrow> (None, s, ibs1)
        | (True, ibs1) \<Rightarrow>
            (let s1 = s\<lparr>ob_user_stats := fmdrop username (ob_user_stats s),
                        ob_user_passwords := fmdrop username (ob_user_passwords s)\<rparr>;
                 s2 = drop_credentials corder username s1;
                 s3 = (case ob_user_cache s2 of
                         None \<Rightarrow> s2
                       | Some d \<Rightarrow> s2\<lparr>ob_user_cache := Some (snd (delete_entry decd USERS_TABLE d username))\<rparr>)
             in (Some True, kill_connections_by_user uorder username s3, ibs1)))"

record user_stats =
  us_username :: bytes
  us_snapshot :: traffic_snapshot
  us_tcp_conns :: u64
  us_udp_conns :: u64

fun collect_from :: "bytes option \<Rightarrow> bool \<Rightarrow> bytes list \<Rightarrow> observer \<Rightarrow> user_stats list \<times> observer" where
  "collect_from which clear [] s = ([], s)"
| "collect_from which clear (name # names) s =
     (case fmlookup (ob_user_stats s) name of
        None \<Rightarrow> collect_from which clear names s
      | Some i \<Rightarrow>
          if (case which of Some w \<Rightarrow> name \<noteq> w | None \<Rightarrow> False) then collect_from which clear names s
          else
            let st = ob_heap s ! i;
                (sn, s1) = (if clear then (fst (take_traffic st), upd_stats i (\<lambda>x. snd (take_traffic x)) s) else (snapshot_of st, s));
                (rest, s2) = collect_from which clear names s1
            in (\<lparr>us_username = name, us_snapshot = sn, us_tcp_conns = st_active_tcp st, us_udp_conns = st_active_udp st\<rparr> # rest, s2))"

definition collect_user_stats :: "(bytes fset \<Rightarrow> bytes list) \<Rightarrow> bytes option \<Rightarrow> bool \<Rightarrow> observer \<Rightarrow> user_stats list \<times> observer" where
  "collect_user_stats order which clear s = collect_from which clear (order (fmdom (ob_user_stats s))) s"

subsection \<open>Lemmas: the inbounds' lists\<close>

lemma users_remove_gone: "u \<in> set (users_remove username us) \<Longrightarrow> au_username u \<noteq> username"
  by (simp add: users_remove_def)

lemma users_upsert_has: "(user :: auth_user) \<in> set (users_upsert user us)"
proof (induction us)
  case (Cons u us)
  have "u\<lparr>au_password := au_password user\<rparr> = user" if "au_username u = au_username user"
    using that by (intro auth_user.equality) simp_all
  with Cons show ?case by auto
qed simp

lemma users_upsert_others: "au_username u \<noteq> au_username user \<Longrightarrow> u \<in> set (users_upsert user us) \<longleftrightarrow> u \<in> set us"
  by (induction us) auto

lemma apply_remove_lookup:
  assumes "apply_to_targets cr user True tags ibs = (ok, ibs')"
  shows "ok \<and> fmlookup ibs' tag = (if tag \<in> set tags then map_option (\<lambda>ib. if iu_supports ib then inbound_remove_user (au_username user) ib else ib) (fmlookup ibs tag)
    else fmlookup ibs tag)"
  using assms
proof (induction tags arbitrary: ibs)
  case (Cons t tags)
  show ?case
  proof (cases "fmlookup ibs t")
    case None
    with Cons show ?thesis by auto
  next
    case (Some ib)
    show ?thesis
    proof (cases "iu_supports ib")
      case True
      with Some Cons.prems have "apply_to_targets cr user True tags (fmupd t (inbound_remove_user (au_username user) ib) ibs) = (ok, ibs')" by simp
      from Cons.IH [OF this] Some True show ?thesis
        by (auto simp: inbound_remove_user_def users_remove_def)
    next
      case False
      with Some Cons show ?thesis by auto
    qed
  qed
qed simp

lemma apply_add_lookup:
  assumes "apply_to_targets cr user False tags ibs = (True, ibs')" and "distinct tags"
  shows "fmlookup ibs' tag =
    (if tag \<in> set tags then map_option (\<lambda>ib. if iu_supports ib then ib\<lparr>iu_users := users_upsert user (iu_users ib)\<rparr> else ib) (fmlookup ibs tag)
     else fmlookup ibs tag)"
  using assms
proof (induction tags arbitrary: ibs)
  case (Cons t tags)
  show ?case
  proof (cases "\<exists>ib. fmlookup ibs t = Some ib \<and> iu_supports ib")
    case True
    then obtain ib where ib: "fmlookup ibs t = Some ib" "iu_supports ib" by blast
    with Cons.prems have "apply_to_targets cr user False tags (fmupd t (ib\<lparr>iu_users := users_upsert user (iu_users ib)\<rparr>) ibs) = (True, ibs')"
      by (auto simp: inbound_add_user_def split: if_splits)
    from Cons.IH [OF this] ib Cons.prems(2) show ?thesis by auto
  next
    case False
    with Cons.prems have "apply_to_targets cr user False tags ibs = (True, ibs')" by (auto split: option.splits)
    from Cons.IH [OF this] False Cons.prems(2) show ?thesis by (cases "fmlookup ibs t") auto
  qed
qed simp

subsection \<open>Lemmas: credentials\<close>

text \<open>Every credential belongs to a user with counters.\<close>

definition creds_ok :: "observer \<Rightarrow> bool" where
  "creds_ok s \<longleftrightarrow> (\<forall>tag u. (tag, u) |\<in>| fmdom (ob_user_creds s) \<longrightarrow> u |\<in>| fmdom (ob_user_stats s))"

lemma set_credentials_other:
  "ob_user_stats (set_credentials cr u p tags s) = ob_user_stats s"
  "ob_heap (set_credentials cr u p tags s) = ob_heap s"
  "ob_inbounds (set_credentials cr u p tags s) = ob_inbounds s"
  "ob_user_cache (set_credentials cr u p tags s) = ob_user_cache s"
  "ob_user_passwords (set_credentials cr u p tags s) = ob_user_passwords s"
  "ob_connections (set_credentials cr u p tags s) = ob_connections s"
  "ob_closed (set_credentials cr u p tags s) = ob_closed s"
  by (induction tags arbitrary: s; simp add: set_user_credential_def split: option.split)+

definition new_credential :: "crypto \<Rightarrow> bytes \<Rightarrow> bytes \<Rightarrow> bytes \<Rightarrow> observer \<Rightarrow> bytes option" where
  "new_credential cr u p tag s =
     (case fmlookup (ob_inbounds s) tag of None \<Rightarrow> None | Some n \<Rightarrow> credential_hash cr (ns_protocol n) u p)"

lemma set_credentials_creds:
  "fmlookup (ob_user_creds (set_credentials cr u p tags s)) (tag, v) =
     (if v = u \<and> tag \<in> set tags \<and> new_credential cr u p tag s \<noteq> None then new_credential cr u p tag s
      else fmlookup (ob_user_creds s) (tag, v))"
proof (induction tags arbitrary: s)
  case (Cons t tags)
  have nc: "new_credential cr u p tag (set_user_credential t u c s) = new_credential cr u p tag s" for c
    by (simp add: new_credential_def set_user_credential_def)
  have step: "set_credentials cr u p (t # tags) s =
      (case new_credential cr u p t s of None \<Rightarrow> set_credentials cr u p tags s
       | Some c \<Rightarrow> set_credentials cr u p tags (set_user_credential t u c s))"
    by (simp add: new_credential_def split: option.split)
  show ?case
  proof (cases "new_credential cr u p t s")
    case None
    then show ?thesis unfolding step using Cons.IH [of s] by auto
  next
    case (Some c)
    then show ?thesis unfolding step using Cons.IH [of "set_user_credential t u c s"]
      by (auto simp: nc) (auto simp: set_user_credential_def)
  qed
qed simp

lemma find_Some_P: "find P xs = Some x \<Longrightarrow> P x \<and> x \<in> set xs"
  by (auto simp: find_Some_iff)

lemma upsert_user_other:
  assumes "upsert_user u s = (i, s')"
  shows "ob_user_creds s' = ob_user_creds s" "ob_inbounds s' = ob_inbounds s" "ob_user_cache s' = ob_user_cache s"
    "ob_user_passwords s' = ob_user_passwords s" "ob_connections s' = ob_connections s"
    "fmlookup (ob_user_stats s') v = (if v = u then Some i else fmlookup (ob_user_stats s) v)"
  using assms by (auto simp: upsert_user_def alloc_stats_def split: option.splits)

lemma save_persisted_other:
  "ob_user_creds (save_persisted enc u s) = ob_user_creds s"
  "ob_user_stats (save_persisted enc u s) = ob_user_stats s"
  "ob_user_passwords (save_persisted enc u s) = ob_user_passwords s"
  "ob_inbounds (save_persisted enc u s) = ob_inbounds s"
  "ob_heap (save_persisted enc u s) = ob_heap s"
  by (simp_all add: save_persisted_def Let_def split: option.split)

lemma authenticate_user_Some:
  assumes "authenticate_user corder tag c s = Some (u, i)"
  shows "fmlookup (ob_user_creds s) (tag, u) = Some c \<and> fmlookup (ob_user_stats s) u = Some i"
  using assms by (auto simp: authenticate_user_def dest!: find_Some_P split: option.splits)

lemma authenticate_user_found:
  assumes "creds_ok s" and "fmlookup (ob_user_creds s) (tag, u) = Some c" and "set (corder (fmdom (ob_user_creds s))) = fset (fmdom (ob_user_creds s))"
  shows "\<exists>v i. authenticate_user corder tag c s = Some (v, i)"
proof -
  have "(tag, u) \<in> set (corder (fmdom (ob_user_creds s)))" using assms(2,3) by (auto intro: fmdomI)
  with assms(2) have "find (\<lambda>k. fst k = tag \<and> fmlookup (ob_user_creds s) k = Some c) (corder (fmdom (ob_user_creds s))) \<noteq> None"
    by (auto simp: find_None_iff)
  then obtain t v where f: "find (\<lambda>k. fst k = tag \<and> fmlookup (ob_user_creds s) k = Some c) (corder (fmdom (ob_user_creds s))) = Some (t, v)"
    by auto
  then have "fmlookup (ob_user_creds s) (t, v) = Some c" by (auto simp: find_Some_iff)
  with assms(1) have "v |\<in>| fmdom (ob_user_stats s)" by (auto simp: creds_ok_def intro: fmdomI)
  then obtain i where "fmlookup (ob_user_stats s) v = Some i" by (auto elim: fmdomE)
  with f show ?thesis by (simp add: authenticate_user_def)
qed

lemma drop_credentials_lookup:
  assumes "set (corder (fmdom (ob_user_creds s))) = fset (fmdom (ob_user_creds s))"
  shows "fmlookup (ob_user_creds (drop_credentials corder u s)) (tag, v) = (if v = u then None else fmlookup (ob_user_creds s) (tag, v))"
proof -
  have fold: "fmlookup (fold (\<lambda>tag. fmdrop (tag, u)) tags m) (tag, v) = (if v = u \<and> tag \<in> set tags then None else fmlookup m (tag, v))"
    for tags :: "bytes list" and m :: "(bytes \<times> bytes, bytes) fmap"
    by (induction tags arbitrary: m) auto
  have "fmlookup (ob_user_creds s) (tag, u) = None" if "tag \<notin> fst ` {k. k |\<in>| fmdom (ob_user_creds s) \<and> snd k = u}"
  proof (rule fmdom_notD)
    show "(tag, u) |\<notin>| fmdom (ob_user_creds s)" using that by force
  qed
  then show ?thesis unfolding drop_credentials_def Let_def by (auto simp: fold assms image_iff)
qed

lemma close_record_other:
  "ob_user_creds (close_record i s) = ob_user_creds s" "ob_user_stats (close_record i s) = ob_user_stats s"
  "ob_user_passwords (close_record i s) = ob_user_passwords s" "ob_connections (close_record i s) = ob_connections s"
  "ob_user_cache (close_record i s) = ob_user_cache s"
  by (simp_all add: close_record_def split: option.split)

lemma fold_close_other:
  "ob_user_creds (fold close_record is s) = ob_user_creds s" "ob_user_stats (fold close_record is s) = ob_user_stats s"
  "ob_user_passwords (fold close_record is s) = ob_user_passwords s" "ob_connections (fold close_record is s) = ob_connections s"
  "ob_user_cache (fold close_record is s) = ob_user_cache s"
  by (induction "is" arbitrary: s; simp add: close_record_other)+

lemma fold_close_mono: "c \<in> set (ob_closed s) \<Longrightarrow> c \<in> set (ob_closed (fold close_record is s))"
  by (induction "is" arbitrary: s) (auto simp: close_record_def split: option.split)

lemma fold_user_close_closed:
  assumes "i \<in> set is" and "fmlookup (ob_connections s) i = Some r" and "cn_closer r = Some c"
  shows "c \<in> set (ob_closed (fold close_record is s))"
  using assms
proof (induction "is" arbitrary: s)
  case (Cons j js)
  have "c \<in> set (ob_closed (close_record i s))" using Cons.prems by (simp add: close_record_def)
  then show ?case using Cons by (cases "j = i") (auto simp: fold_close_mono close_record_other)
qed simp

lemma kill_where_closed:
  assumes "set (uorder (fmdom (ob_connections s))) = fset (fmdom (ob_connections s))"
    and "fmlookup (ob_connections s) i = Some r" and "P (cn_tracker r)" and "cn_closer r = Some c"
  shows "c \<in> set (ob_closed (kill_connections_where uorder P s))"
  unfolding kill_connections_where_def
  by (rule fold_user_close_closed [OF _ assms(2,4)]) (use assms in \<open>auto intro: fmdomI\<close>)

subsection \<open>Lemmas: persisted users\<close>

definition persisted_of :: "observer \<Rightarrow> bytes \<Rightarrow> persisted_user" where
  "persisted_of s u =
     \<lparr>pu_username = u, pu_password = (case fmlookup (ob_user_passwords s) u of Some p \<Rightarrow> p | None \<Rightarrow> []),
      pu_snapshot = snapshot_of (ob_heap s ! the (fmlookup (ob_user_stats s) u))\<rparr>"

definition healthy_cache :: "observer \<Rightarrow> tables \<Rightarrow> bool" where
  "healthy_cache s t \<longleftrightarrow> (\<exists>d. ob_user_cache s = Some d \<and> db_faults d = [] \<and> db_tables d = t)"

lemma save_persisted_cache:
  assumes "healthy_cache s t" and "u |\<in>| fmdom (ob_user_stats s)"
  shows "healthy_cache (save_persisted enc u s) (fmupd (USERS_TABLE, u) (enc (persisted_of s u)) t)"
proof -
  from assms(2) obtain i where "fmlookup (ob_user_stats s) u = Some i" by (auto elim: fmdomE)
  with assms(1) show ?thesis
    by (auto simp: healthy_cache_def save_persisted_def persisted_of_def set_entry_def cache_write_def next_txn_def)
qed

lemma persisted_of_cong:
  "ob_user_passwords s' = ob_user_passwords s \<Longrightarrow> ob_user_stats s' = ob_user_stats s \<Longrightarrow> ob_heap s' = ob_heap s \<Longrightarrow>
     persisted_of s' u = persisted_of s u"
  by (simp add: persisted_of_def)

lemma persist_fold:
  assumes "healthy_cache s t" and "\<forall>u \<in> set us. u |\<in>| fmdom (ob_user_stats s)"
  shows "healthy_cache (fold (save_persisted enc) us s) (fold (\<lambda>u. fmupd (USERS_TABLE, u) (enc (persisted_of s u))) us t)"
  using assms
proof (induction us arbitrary: s t)
  case (Cons u us)
  let ?s = "save_persisted enc u s"
  have pers: "persisted_of ?s = persisted_of s" by (rule ext, rule persisted_of_cong) (simp_all add: save_persisted_other)
  have "healthy_cache ?s (fmupd (USERS_TABLE, u) (enc (persisted_of s u)) t)"
    by (rule save_persisted_cache [OF Cons.prems(1)]) (use Cons.prems(2) in simp)
  from Cons.IH [OF this] Cons.prems(2)
  have "healthy_cache (fold (save_persisted enc) us ?s)
      (fold (\<lambda>v. fmupd (USERS_TABLE, v) (enc (persisted_of ?s v))) us (fmupd (USERS_TABLE, u) (enc (persisted_of s u)) t))"
    by (simp only: save_persisted_other) simp
  then show ?case unfolding pers by simp
qed simp

lemma fold_fmupd_lookup:
  "fmlookup (fold (\<lambda>u. fmupd (table, u) (g u)) us t) (tb, k) = (if tb = table \<and> k \<in> set us then Some (g k) else fmlookup t (tb, k))"
  by (induction us arbitrary: t) auto

lemma decode_entries_all:
  "(\<And>k. k \<in> set ks \<Longrightarrow> Option.bind (fmlookup t (table, k)) decd = Some (g k)) \<Longrightarrow>
     decode_entries decd table t ks = Some (map (\<lambda>k. (k, g k)) ks)"
  by (induction ks) auto

definition heap_ok :: "observer \<Rightarrow> bool" where
  "heap_ok s \<longleftrightarrow> (\<forall>u i. fmlookup (ob_user_stats s) u = Some i \<longrightarrow> i < length (ob_heap s))"

definition loaded :: "observer \<Rightarrow> persisted_user \<Rightarrow> bool" where
  "loaded s p \<longleftrightarrow> (\<exists>i. fmlookup (ob_user_stats s) (pu_username p) = Some i \<and> snapshot_of (ob_heap s ! i) = pu_snapshot p) \<and>
     (pu_password p \<noteq> [] \<longrightarrow> fmlookup (ob_user_passwords s) (pu_username p) = Some (pu_password p))"

lemma load_one_fresh:
  assumes "heap_ok s" and "fmlookup (ob_user_stats s) (pu_username p) = None"
  shows "ob_heap (load_one p s) = ob_heap s @ [restore (pu_snapshot p) stats_default]"
    "ob_user_stats (load_one p s) = fmupd (pu_username p) (length (ob_heap s)) (ob_user_stats s)"
    "ob_user_passwords (load_one p s) =
       (if pu_password p \<noteq> [] then fmupd (pu_username p) (pu_password p) (ob_user_passwords s) else ob_user_passwords s)"
  using assms by (auto simp: load_one_def upsert_user_def alloc_stats_def upd_stats_def set_user_password_def Let_def)

lemma load_fold:
  assumes "distinct (map pu_username ps)" and "heap_ok s" and "\<forall>p \<in> set ps. fmlookup (ob_user_stats s) (pu_username p) = None"
  shows "(\<forall>p \<in> set ps. loaded (fold load_one ps s) p) \<and> heap_ok (fold load_one ps s) \<and>
    fmdom (ob_user_stats (fold load_one ps s)) = fmdom (ob_user_stats s) |\<union>| fset_of_list (map pu_username ps)"
  using assms
proof (induction ps rule: rev_induct)
  case (snoc p ps)
  let ?s = "fold load_one ps s"
  from snoc have IH: "\<forall>q \<in> set ps. loaded ?s q" "heap_ok ?s"
    "fmdom (ob_user_stats ?s) = fmdom (ob_user_stats s) |\<union>| fset_of_list (map pu_username ps)" by auto
  with snoc.prems have "fmlookup (ob_user_stats ?s) (pu_username p) = None"
    by (intro fmdom_notD) (auto simp: fset_of_list_elem fmdom_notI)
  note new = load_one_fresh [OF IH(2) this]
  have "loaded (load_one p ?s) p" by (simp add: loaded_def new snapshot_of_def restore_def)
  moreover have "loaded (load_one p ?s) q" if "q \<in> set ps" for q
  proof -
    from snoc.prems(1) that have "pu_username q \<noteq> pu_username p" by (auto simp: image_iff)
    moreover from IH(1) that obtain i where i: "fmlookup (ob_user_stats ?s) (pu_username q) = Some i"
      "snapshot_of (ob_heap ?s ! i) = pu_snapshot q" by (auto simp: loaded_def)
    moreover from IH(2) i(1) have "i < length (ob_heap ?s)" by (simp add: heap_ok_def)
    ultimately show ?thesis using IH(1) that by (auto simp: loaded_def new nth_append)
  qed
  moreover have "heap_ok (load_one p ?s)" using IH(2) by (auto simp: heap_ok_def new less_Suc_eq split: if_splits)
  ultimately show ?case using IH(3) by (auto simp: new)
qed simp

definition covers :: "('k fset \<Rightarrow> 'k list) \<Rightarrow> bool" where
  "covers order \<longleftrightarrow> (\<forall>s. set (order s) = fset s)"

text \<open>What \<open>remove_user\<close> leaves behind.\<close>

lemma removed_user_unknown:
  assumes "covers order" and "covers corder" and "covers uorder"
    and removed: "remove_user cr order corder uorder decd username (s, ibs) = (Some True, s', ibs')"
  shows "\<And>tag ib u. fmlookup ibs' tag = Some ib \<Longrightarrow> iu_supports ib \<Longrightarrow> u \<in> set (iu_users ib) \<Longrightarrow> au_username u \<noteq> username"
    and "\<And>tag c v i. authenticate_user corder tag c s' = Some (v, i) \<Longrightarrow> v \<noteq> username"
    and "\<And>i r c. fmlookup (ob_connections s) i = Some r \<Longrightarrow> tk_user (cn_tracker r) = Some username \<Longrightarrow> cn_closer r = Some c \<Longrightarrow>
      c \<in> set (ob_closed s')"
    and "fmlookup (ob_user_passwords s') username = None"
    and "\<And>tag v. v \<noteq> username \<Longrightarrow> fmlookup (ob_user_creds s') (tag, v) = fmlookup (ob_user_creds s) (tag, v)"
proof -
  let ?user = "\<lparr>au_username = username, au_password = []\<rparr>"
  let ?s1 = "s\<lparr>ob_user_stats := fmdrop username (ob_user_stats s), ob_user_passwords := fmdrop username (ob_user_passwords s)\<rparr>"
  let ?s2 = "drop_credentials corder username ?s1"
  from removed obtain s3 where ap: "apply_to_targets cr ?user True (order (fmdom ibs)) ibs = (True, ibs')"
    and s3: "s3 = ?s2 \<or> (\<exists>d. s3 = ?s2\<lparr>ob_user_cache := Some d\<rparr>)" and s': "s' = kill_connections_by_user uorder username s3"
    by (auto simp: remove_user_def apply_user_change_def Let_def split: if_splits prod.splits bool.splits option.splits)
  have "\<And>tag. fmlookup ibs' tag = map_option (\<lambda>ib. if iu_supports ib then inbound_remove_user username ib else ib) (fmlookup ibs tag)"
    using apply_remove_lookup [OF ap] assms(1) by (auto simp: covers_def fmdom_notD)
  then have "\<exists>ib0. ib = inbound_remove_user username ib0" if "fmlookup ibs' tag = Some ib" "iu_supports ib" for tag ib
    using that by (auto split: if_splits) metis
  then show "au_username u \<noteq> username" if "fmlookup ibs' tag = Some ib" "iu_supports ib" "u \<in> set (iu_users ib)" for tag ib u
    using that by (fastforce simp: inbound_remove_user_def dest: users_remove_gone)
  have same: "ob_user_creds s' = ob_user_creds ?s2" "ob_user_passwords s' = fmdrop username (ob_user_passwords s)"
    "ob_connections s3 = ob_connections s"
    using s3 unfolding s' kill_connections_by_user_def kill_connections_where_def
    by (auto simp: fold_close_other drop_credentials_def Let_def)
  have creds: "fmlookup (ob_user_creds s') (tag, v) = (if v = username then None else fmlookup (ob_user_creds s) (tag, v))" for tag v
    using assms(2) unfolding same by (simp add: drop_credentials_lookup covers_def)
  show "v \<noteq> username" if "authenticate_user corder tag c s' = Some (v, i)" for tag c v i
    using authenticate_user_Some [OF that] creds by (auto split: if_splits)
  show "c \<in> set (ob_closed s')"
    if "fmlookup (ob_connections s) i = Some r" "tk_user (cn_tracker r) = Some username" "cn_closer r = Some c" for i r c
    unfolding s' kill_connections_by_user_def
    by (rule kill_where_closed [of _ _ i r]) (use that assms(3) same in \<open>auto simp: covers_def\<close>)
  show "fmlookup (ob_user_passwords s') username = None" using same(2) by simp
  show "fmlookup (ob_user_creds s') (tag, v) = fmlookup (ob_user_creds s) (tag, v)" if "v \<noteq> username" for tag v
    using that creds by simp
qed

subsection \<open>Properties\<close>

text \<open>C31. Users survive a restart. If the user table holds no other users and the database works, then
  after \<open>persist_users\<close> a new observer on the same database knows every user, with the same
  cumulative counters and the same non-empty password.\<close>

theorem users_survive_restart:
  assumes "order_ok order" and "\<And>p. decd (enc p) = Some p"
    and cache: "healthy_cache s t" and "table_keys USERS_TABLE t |\<subseteq>| fmdom (ob_user_stats s)"
    and user: "fmlookup (ob_user_stats s) u = Some i"
  defines "s' \<equiv> load_persisted_users order decd (observer_new (ob_user_cache (persist_users order enc s)))"
  shows "\<exists>j. fmlookup (ob_user_stats s') u = Some j \<and> snapshot_of (ob_heap s' ! j) = snapshot_of (ob_heap s ! i) \<and>
    (\<forall>p. fmlookup (ob_user_passwords s) u = Some p \<longrightarrow> p \<noteq> [] \<longrightarrow> fmlookup (ob_user_passwords s') u = Some p)"
proof -
  have ord: "distinct (order X)" "set (order X) = fset X" for X using assms(1) by (auto simp: order_ok_def)
  let ?us = "order (fmdom (ob_user_stats s))"
  let ?t = "fold (\<lambda>u. fmupd (USERS_TABLE, u) (enc (persisted_of s u))) ?us t"
  from persist_fold [OF cache, of ?us enc] obtain d where d: "ob_user_cache (persist_users order enc s) = Some d"
    "db_faults d = []" "db_tables d = ?t" by (auto simp: persist_users_def healthy_cache_def ord)
  have keys: "table_keys USERS_TABLE ?t = fmdom (ob_user_stats s)"
  proof (rule fset_eqI)
    fix k
    have "k |\<in>| table_keys USERS_TABLE ?t \<longleftrightarrow> fmlookup ?t (USERS_TABLE, k) \<noteq> None"
      by (force simp: table_keys_def fmlookup_dom_iff)
    also have "\<dots> \<longleftrightarrow> k |\<in>| fmdom (ob_user_stats s)"
      using fsubsetD [OF assms(4)] in_table_keys [of t USERS_TABLE k]
      by (cases "fmlookup t (USERS_TABLE, k)") (auto simp: fold_fmupd_lookup ord)
    finally show "k |\<in>| table_keys USERS_TABLE ?t \<longleftrightarrow> k |\<in>| fmdom (ob_user_stats s)" .
  qed
  have "decode_entries decd USERS_TABLE ?t ?us = Some (map (\<lambda>k. (k, persisted_of s k)) ?us)"
    by (rule decode_entries_all) (simp add: fold_fmupd_lookup assms(2) ord)
  with d have s': "s' = fold load_one (map (persisted_of s) ?us) (observer_new (Some d))"
    by (simp add: s'_def load_persisted_users_def observer_new_def get_all_entries_def next_txn_def keys comp_def)
  have names: "map pu_username (map (persisted_of s) ?us) = ?us" by (simp add: persisted_of_def comp_def)
  from user have "u \<in> set ?us" by (simp add: ord fmdomI)
  with load_fold [of "map (persisted_of s) ?us" "observer_new (Some d)"] names have "loaded s' (persisted_of s u)"
    unfolding s' by (auto simp: ord heap_ok_def observer_new_def simp del: map_map)
  with user show ?thesis by (auto simp: loaded_def persisted_of_def)
qed

text \<open>C29. Adding a user. When \<open>add_user\<close> succeeds, every inbound that manages users has the user with
  the new password, every registered inbound accepts the new credential, and the user's old
  credentials there are no longer accepted as this user; each credential still belongs to a
  user with counters.\<close>

theorem add_user_effective:
  assumes "creds_ok s" and "order_ok order" and "covers corder"
    and added: "add_user cr order enc username password (s, ibs) = (True, s', ibs')"
  shows "creds_ok s' \<and>
    (\<forall>tag ib. fmlookup ibs tag = Some ib \<longrightarrow> iu_supports ib \<longrightarrow>
      (\<exists>ib'. fmlookup ibs' tag = Some ib' \<and> \<lparr>au_username = username, au_password = password\<rparr> \<in> set (iu_users ib'))) \<and>
    (\<forall>tag n c. fmlookup (ob_inbounds s) tag = Some n \<longrightarrow> credential_hash cr (ns_protocol n) username password = Some c \<longrightarrow>
      (\<exists>v i. authenticate_user corder tag c s' = Some (v, i)) \<and>
      (\<forall>old i. authenticate_user corder tag old s' = Some (username, i) \<longrightarrow> old = c))"
proof -
  let ?user = "\<lparr>au_username = username, au_password = password\<rparr>"
  let ?s1 = "set_credentials cr username password (order (fmdom (ob_inbounds s))) s"
  obtain i s2 where u: "upsert_user username ?s1 = (i, s2)" by fastforce
  from added have ap: "apply_to_targets cr ?user False (order (fmdom ibs)) ibs = (True, ibs')"
    and s': "s' = save_persisted enc username (set_user_password username password s2)"
    by (auto simp: add_user_def apply_user_change_def Let_def u split: prod.splits bool.splits)
  have ord: "distinct (order X)" "set (order X) = fset X" for X using assms(2) by (auto simp: order_ok_def)
  have creds: "fmlookup (ob_user_creds s') (tag, v) =
      (if v = username \<and> new_credential cr username password tag s \<noteq> None then new_credential cr username password tag s
       else fmlookup (ob_user_creds s) (tag, v))" for tag v
    unfolding s' by (auto simp: save_persisted_other set_user_password_def upsert_user_other [OF u] set_credentials_creds ord
        new_credential_def fmdom_notI split: option.splits)
  have stats: "ob_user_stats s' = ob_user_stats s2" unfolding s' by (simp add: save_persisted_other set_user_password_def)
  have ok: "creds_ok s'"
    using assms(1) creds unfolding creds_ok_def stats
    by (fastforce simp: fmlookup_dom_iff upsert_user_other(6) [OF u] set_credentials_other split: if_splits)
  have "\<exists>ib'. fmlookup ibs' tag = Some ib' \<and> ?user \<in> set (iu_users ib')" if "fmlookup ibs tag = Some ib" "iu_supports ib" for tag ib
    using apply_add_lookup [OF ap ord(1), of tag] that users_upsert_has [of ?user] by (auto simp: ord fmdomI)
  moreover have "(\<exists>v i. authenticate_user corder tag c s' = Some (v, i)) \<and>
      (\<forall>old i. authenticate_user corder tag old s' = Some (username, i) \<longrightarrow> old = c)"
    if "fmlookup (ob_inbounds s) tag = Some n" "credential_hash cr (ns_protocol n) username password = Some c" for tag n c
  proof -
    from that have "fmlookup (ob_user_creds s') (tag, username) = Some c" by (simp add: creds new_credential_def)
    with authenticate_user_found [OF ok this] assms(3) show ?thesis
      by (auto simp: covers_def dest: authenticate_user_Some)
  qed
  ultimately show ?thesis using ok by blast
qed

text \<open>C30. Removing a user. When \<open>remove_user\<close> reports success, no inbound that manages users lists the
  user, no credential authenticates as the user on any inbound, every live connection of the
  user that can be closed has been closed, the password is forgotten, and other users keep their
  credentials.\<close>

theorem remove_user_effective:
  assumes "covers order" and "covers corder" and "covers uorder"
    and removed: "remove_user cr order corder uorder decd username (s, ibs) = (Some True, s', ibs')"
  shows "(\<forall>tag ib u. fmlookup ibs' tag = Some ib \<longrightarrow> iu_supports ib \<longrightarrow> u \<in> set (iu_users ib) \<longrightarrow> au_username u \<noteq> username) \<and>
    (\<forall>tag c v i. authenticate_user corder tag c s' = Some (v, i) \<longrightarrow> v \<noteq> username) \<and>
    (\<forall>i r c. fmlookup (ob_connections s) i = Some r \<longrightarrow> tk_user (cn_tracker r) = Some username \<longrightarrow> cn_closer r = Some c \<longrightarrow>
      c \<in> set (ob_closed s')) \<and>
    fmlookup (ob_user_passwords s') username = None \<and>
    (\<forall>tag v. v \<noteq> username \<longrightarrow> fmlookup (ob_user_creds s') (tag, v) = fmlookup (ob_user_creds s) (tag, v))"
  using removed_user_unknown [OF assms] by blast

definition sample_crypto :: crypto where
  "sample_crypto = \<lparr>cr_sha224 = id, cr_sha256 = rev, cr_md5 = id, cr_parse_uuid = (\<lambda>s. if s = [1] then Some s else None)\<rparr>"

definition sample_observer :: observer where
  "sample_observer = (observer_new None)\<lparr>ob_heap := [stats_default], ob_inbounds :=
     fmupd [9] \<lparr>ns_protocol = str ''anytls'', ns_stats = 0, ns_testing = False\<rparr> fmempty\<rparr>"

definition sample_inbounds :: inbounds where
  "sample_inbounds = fmupd [9] \<lparr>iu_protocol = str ''anytls'', iu_supports = True, iu_users = []\<rparr> fmempty"

text \<open>Iteration orders for maps with at most one key.\<close>

lemma sample_creds_ok: "creds_ok sample_observer"
  by (simp add: creds_ok_def sample_observer_def observer_new_def)

definition some_order :: "'k::linorder fset \<Rightarrow> 'k list" where
  "some_order = sorted_list_of_fset"

lemma some_order_ok: "order_ok some_order" "covers some_order"
  by (simp_all add: order_ok_def covers_def some_order_def sorted_list_of_fset.rep_eq)

lemma some_order_singleton: "some_order {|x|} = [x]"
  by (simp add: some_order_def sorted_list_of_fset.rep_eq)

lemma sample_added:
  "add_user sample_crypto some_order (\<lambda>_. []) [7] [5, 6] (sample_observer, sample_inbounds) =
    (True, sample_observer\<lparr>ob_heap := [stats_default, stats_default], ob_user_stats := fmupd [7] 1 fmempty,
       ob_user_creds := fmupd ([9], [7]) [6, 5] fmempty, ob_user_passwords := fmupd [7] [5, 6] fmempty\<rparr>,
     fmupd [9] \<lparr>iu_protocol = str ''anytls'', iu_supports = True, iu_users = [\<lparr>au_username = [7], au_password = [5, 6]\<rparr>]\<rparr> sample_inbounds)"
  by (simp add: add_user_def apply_user_change_def sample_inbounds_def sample_observer_def observer_new_def some_order_singleton
      inbound_add_user_def sample_crypto_def credential_hash_def set_user_credential_def upsert_user_def alloc_stats_def
      set_user_password_def save_persisted_def)

theorem add_user_effective_witness:
  "\<exists>v i. authenticate_user some_order [9] [6, 5] (fst (snd (add_user sample_crypto some_order (\<lambda>_. []) [7] [5, 6] (sample_observer, sample_inbounds)))) = Some (v, i)"
proof -
  have n: "fmlookup (ob_inbounds sample_observer) [9] = Some \<lparr>ns_protocol = str ''anytls'', ns_stats = 0, ns_testing = False\<rparr>"
    by (simp add: sample_observer_def)
  have c: "credential_hash sample_crypto (str ''anytls'') [7] [5, 6] = Some [6, 5]" by (simp add: credential_hash_def sample_crypto_def)
  from add_user_effective [OF sample_creds_ok some_order_ok(1) some_order_ok(2) sample_added] n c
  show ?thesis unfolding sample_added by force
qed

theorem remove_user_effective_witness:
  "\<nexists>c i. authenticate_user some_order [9] c (fst (snd (remove_user sample_crypto some_order some_order some_order (\<lambda>_. None) [7]
     (snd (add_user sample_crypto some_order (\<lambda>_. []) [7] [5, 6] (sample_observer, sample_inbounds)))))) = Some ([7], i)"
proof -
  obtain r s' ibs' where rm: "remove_user sample_crypto some_order some_order some_order (\<lambda>_. None) [7]
     (snd (add_user sample_crypto some_order (\<lambda>_. []) [7] [5, 6] (sample_observer, sample_inbounds))) = (r, s', ibs')"
    using prod_cases3 by blast
  have "r = Some True" using rm unfolding sample_added
    by (simp add: remove_user_def apply_user_change_def sample_inbounds_def some_order_singleton Let_def split: prod.splits)
  with rm show ?thesis unfolding sample_added
    using remove_user_effective [OF some_order_ok(2) some_order_ok(2) some_order_ok(2), of sample_crypto "\<lambda>_. None" "[7]"] by fastforce
qed

text \<open>A concrete encoding of persisted users.\<close>

definition sample_user_enc :: "persisted_user \<Rightarrow> bytes" where
  "sample_user_enc p = sample_enc \<lparr>de_domain = pu_username p, de_ip = pu_password p, de_outbound_tag = to_be 8 (sn_total_udp (pu_snapshot p)),
     de_upload = sn_upload (pu_snapshot p), de_download = sn_download (pu_snapshot p), de_last_active = sn_total_tcp (pu_snapshot p)\<rparr>"

definition sample_user_dec :: "bytes \<Rightarrow> persisted_user option" where
  "sample_user_dec s = map_option (\<lambda>e. \<lparr>pu_username = de_domain e, pu_password = de_ip e,
     pu_snapshot = \<lparr>sn_upload = de_upload e, sn_download = de_download e, sn_total_tcp = de_last_active e,
       sn_total_udp = from_be (de_outbound_tag e)\<rparr>\<rparr>) (sample_dec s)"

lemma sample_user_roundtrip: "sample_user_dec (sample_user_enc p) = Some p"
  by (simp add: sample_user_dec_def sample_user_enc_def sample_roundtrip from_be_to_be_id)

definition sample_active :: observer where
  "sample_active = (observer_new (Some \<lparr>db_tables = fmempty, db_durable = fmempty, db_dirty = False, db_faults = []\<rparr>))
     \<lparr>ob_heap := [add_traffic 5 6 stats_default], ob_user_stats := fmupd [7] 0 fmempty, ob_user_passwords := fmupd [7] [8] fmempty\<rparr>"

theorem users_survive_restart_witness:
  "fmlookup (ob_user_passwords (load_persisted_users some_order sample_user_dec
     (observer_new (ob_user_cache (persist_users some_order sample_user_enc sample_active))))) [7] = Some [8]"
proof -
  have "healthy_cache sample_active fmempty" by (simp add: healthy_cache_def sample_active_def observer_new_def)
  moreover have "table_keys USERS_TABLE fmempty = {||}" by (auto simp: table_keys_def)
  moreover have "fmlookup (ob_user_stats sample_active) [7] = Some 0" "fmlookup (ob_user_passwords sample_active) [7] = Some [8]"
    by (simp_all add: sample_active_def)
  ultimately show ?thesis
    using users_survive_restart [OF some_order_ok(1) sample_user_roundtrip, of sample_active fmempty "[7]" 0] by auto
qed



end
