(* ===== verification/Trojan.thy ===== *)
theory Trojan
  imports Dialogue Observe Read_Ahead Stream_Wrappers
begin

text \<open>
  The Trojan protocol: the outbound of \<open>src/src/proxy/outbound/trojan.rs\<close> and the inbound of
  \<open>src/src/proxy/inbound/trojan.rs\<close>. The client sends a handshake, lazily, in front of its first
  data; the server reads it, checks the password hash with the observer and its own users, and
  hands on the stream. UDP packets follow on the same stream, read through a read-ahead buffer.
\<close>

subsection \<open>The outbound\<close>

record trojan_outbound =
  tr_tag :: bytes
  tr_address :: target_addr
  tr_password_hash :: bytes
  tr_tls :: tls_config
  tr_connect_timeout :: nat
  tr_pool_size :: u16

definition trojan_outbound_new :: "crypto \<Rightarrow> bytes \<Rightarrow> outbound_config \<Rightarrow> config_error + trojan_outbound" where
  "trojan_outbound_new cr tag cfg =
     bindr (out_endpoint cfg) (\<lambda>address.
     bindr (required RequiresPassword (ob_password cfg)) (\<lambda>password.
     bindr (from_outbound cfg) (\<lambda>tls.
       Inr \<lparr>tr_tag = tag, tr_address = address, tr_password_hash = hex_encode (cr_sha224 cr password), tr_tls = tls,
            tr_connect_timeout = out_connect_timeout cfg, tr_pool_size = unwrap_or (ob_pool_size cfg) 0\<rparr>)))"

definition CRLF :: bytes where "CRLF = [0x0D, 0x0A]"

definition generate_handshake :: "bytes \<Rightarrow> target_addr \<Rightarrow> bool \<Rightarrow> bytes" where
  "generate_handshake password_hash target is_udp =
     password_hash @ CRLF @ [if is_udp then 3 else 1] @ to_bytes target @ CRLF"

definition trojan_send_to :: "target_addr \<Rightarrow> bytes \<Rightarrow> bytes" where
  "trojan_send_to target buf = write_to target [] @ to_be 2 (of_nat (length buf) :: u16) @ CRLF @ buf"

datatype trojan_error =
    TrojanAddr addr_error
  | InvalidCrlf
  | TrojanRead fill_result
  | MissingCrlf
  | InvalidPassword
  | MissingRequestCrlf
  | UnsupportedCmd u8

datatype packet_attempt = PkDone target_addr bytes bytes | PkBad trojan_error | PkNeed nat

text \<open>One turn of \<open>read_packet\<close> on what is buffered.\<close>

definition try_packet :: "bytes \<Rightarrow> packet_attempt" where
  "try_packet buf =
     (case decode buf of
        Inl e \<Rightarrow> PkBad (TrojanAddr e)
      | Inr None \<Rightarrow> PkNeed (length buf + 1)
      | Inr (Some (addr, addr_len)) \<Rightarrow>
          let header_len = addr_len + 4
          in if length buf \<ge> header_len then
               if slice buf (addr_len + 2) header_len \<noteq> CRLF then PkBad InvalidCrlf
               else
                 let len = unat (port_at buf addr_len)
                 in if length buf \<ge> header_len + len
                    then PkDone addr (take len (drop header_len buf)) (drop (header_len + len) buf)
                    else PkNeed (header_len + len)
             else PkNeed (length buf + 1))"

lemma try_packet_need: "try_packet buf = PkNeed n \<Longrightarrow> length buf < n"
  by (auto simp: try_packet_def Let_def split: sum.splits option.splits if_splits)

function read_packet :: "stream \<Rightarrow> bytes \<Rightarrow> (trojan_error + target_addr \<times> bytes) \<times> stream \<times> bytes" where
  "read_packet st buf =
     (case try_packet buf of
        PkDone addr payload rest \<Rightarrow> (Inr (addr, payload), st, rest)
      | PkBad e \<Rightarrow> (Inl e, st, buf)
      | PkNeed n \<Rightarrow>
          (case fill st buf n False of
             (r, st', buf') \<Rightarrow> if r = Filled then read_packet st' buf' else (Inl (TrojanRead r), st', buf')))"
  by pat_completeness auto
termination
  by (relation "measure (\<lambda>(st, _). length st)") (auto dest: fill_progress [OF sym] try_packet_need)

declare read_packet.simps [simp del]

subsection \<open>The inbound\<close>

datatype trojan_handler = TrojanStream target_addr | TrojanUdp target_addr

text \<open>\<open>account\<close> is what the observer makes of a credential.\<close>

definition trojan_local_ok :: "crypto \<Rightarrow> auth_user list \<Rightarrow> bytes \<Rightarrow> bool" where
  "trojan_local_ok cr users received =
     list_ex (\<lambda>u. case credential_hash cr (str ''trojan'') (au_username u) (au_password u) of
       Some c \<Rightarrow> c = received | None \<Rightarrow> False) users"

definition trojan_handle_client :: "crypto \<Rightarrow> (bytes \<Rightarrow> (bytes \<times> nat) option) \<Rightarrow> auth_user list \<Rightarrow>
    (trojan_error + (trojan_handler \<times> (bytes \<times> nat) option) option) proc" where
  "trojan_handle_client cr account users =
     Recv 58 (\<lambda>buf.
       if slice buf 56 58 \<noteq> CRLF then Ret (Inl MissingCrlf)
       else
         let received = map to_ascii_lower (slice buf 0 56);
             acc = account received
         in if acc = None \<and> \<not> trojan_local_ok cr users received then Ret (Inl InvalidPassword)
            else
              Recv 1 (\<lambda>cmd.
              recv_target (\<lambda>t. case t of
                  Inl e \<Rightarrow> Ret (Inl (TrojanAddr e))
                | Inr target \<Rightarrow>
                    Recv 2 (\<lambda>crlf.
                      if crlf \<noteq> CRLF then Ret (Inl MissingRequestCrlf)
                      else if cmd ! 0 = 1 then Ret (Inr (Some (TrojanStream target, acc)))
                      else if cmd ! 0 = 3 then Ret (Inr (Some (TrojanUdp target, acc)))
                      else Ret (Inl (UnsupportedCmd (cmd ! 0)))))))"

text \<open>\<open>TrojanInboundPacket\<close>.\<close>

definition trojan_in_send_to :: "bytes \<Rightarrow> target_addr \<Rightarrow> bytes" where
  "trojan_in_send_to buf source = write_to source [] @ to_be 2 (of_nat (length buf) :: u16) @ CRLF @ buf"

definition trojan_in_recv_from :: "target_addr \<Rightarrow> stream \<Rightarrow> bytes \<Rightarrow> (trojan_error + target_addr \<times> target_addr \<times> bytes) \<times> stream \<times> bytes" where
  "trojan_in_recv_from client st buf =
     (case read_packet st buf of (r, st', buf') \<Rightarrow> (bindr r (\<lambda>(target, payload). Inr (client, target, payload)), st', buf'))"

definition trojan_recv_from :: "stream \<Rightarrow> bytes \<Rightarrow> (trojan_error + target_addr \<times> target_addr \<times> bytes) \<times> stream \<times> bytes" where
  "trojan_recv_from st buf =
     (case read_packet st buf of (r, st', buf') \<Rightarrow> (bindr r (\<lambda>(source, payload). Inr (source, dummy, payload)), st', buf'))"

subsection \<open>Lemmas: packets\<close>

lemma slice_take: "slice buf a b = take (b - a) (drop a buf)"
  by (simp add: slice_def)

lemma try_packet_done_append: "try_packet b = PkDone a p r \<Longrightarrow> try_packet (b @ m) = PkDone a p (r @ m)"
  by (auto simp: try_packet_def Let_def slice_append port_at_append decode_append split: sum.splits option.splits if_splits)

lemma try_packet_bad_append: "try_packet b = PkBad e \<Longrightarrow> try_packet (b @ m) = PkBad e"
  by (auto simp: try_packet_def Let_def slice_append decode_append decode_invalid_append split: sum.splits option.splits if_splits)

lemma try_packet_need_append:
  assumes "try_packet b = PkNeed n" and "try_packet (b @ m) = PkDone a p r"
  shows "n \<le> length (b @ m)"
proof (cases "m = []")
  case True
  with assms show ?thesis by simp
next
  case False
  with assms show ?thesis
    by (auto simp: try_packet_def Let_def slice_append port_at_append decode_append Suc_le_eq
        split: sum.splits option.splits if_splits)
qed

text \<open>\<open>read_packet\<close> returns the first packet of the stream, however the stream is cut into reads.\<close>

lemma read_packet_ok:
  assumes "try_packet (buf @ wire st) = PkDone a p rest"
  shows "\<exists>st' buf'. read_packet st buf = (Inr (a, p), st', buf') \<and> buf' @ wire st' = rest"
  using assms
proof (induction st buf rule: read_packet.induct)
  case (1 st buf)
  show ?case
  proof (cases "try_packet buf")
    case (PkDone a' p' r')
    with try_packet_done_append [OF PkDone, of "wire st"] "1.prems" show ?thesis
      by (subst read_packet.simps) auto
  next
    case (PkBad e)
    with try_packet_bad_append [OF PkBad, of "wire st"] "1.prems" show ?thesis by simp
  next
    case (PkNeed n)
    from try_packet_need_append [OF PkNeed "1.prems"] have "n \<le> length (buf @ wire st)" .
    then obtain st1 buf1 where f: "fill st buf n False = (Filled, st1, buf1)" and w: "buf1 @ wire st1 = buf @ wire st"
      by (rule fill_enough)
    from "1.IH" [OF PkNeed f [symmetric] refl] "1.prems" w have
      "\<exists>st' buf'. read_packet st1 buf1 = (Inr (a, p), st', buf') \<and> buf' @ wire st' = rest" by simp
    with PkNeed f show ?thesis by (subst read_packet.simps) simp
  qed
qed

lemma try_packet_sent:
  assumes "encodable t" and "length buf < 65536"
  shows "try_packet (trojan_send_to t buf @ rest) = PkDone (canonical t) buf rest"
proof -
  let ?x = "to_bytes t" and ?l = "to_be 2 (of_nat (length buf) :: u16)"
  have s: "trojan_send_to t buf @ rest = ?x @ ?l @ CRLF @ buf @ rest" by (simp add: trojan_send_to_def write_to_append)
  have l: "unat (of_nat (length buf) :: u16) = length buf" using assms(2) by (rule unat_of_nat_u16)
  have "port_at (?x @ ?l @ CRLF @ buf @ rest) (encoded_len t) = of_nat (length buf)"
    by (simp add: port_at_drop length_to_bytes CRLF_def from_be_to_be_id)
  then show ?thesis unfolding s
    using decode_to_bytes [OF assms(1), of "?l @ CRLF @ buf @ rest"] l
    by (simp add: try_packet_def Let_def slice_def length_to_bytes CRLF_def)
qed

fun read_packets :: "nat \<Rightarrow> stream \<Rightarrow> bytes \<Rightarrow> (trojan_error + (target_addr \<times> bytes) list) \<times> stream \<times> bytes" where
  "read_packets 0 st buf = (Inr [], st, buf)"
| "read_packets (Suc n) st buf =
     (case read_packet st buf of
        (Inl e, st', buf') \<Rightarrow> (Inl e, st', buf')
      | (Inr p, st', buf') \<Rightarrow>
          (case read_packets n st' buf' of (r, st2, buf2) \<Rightarrow> (bindr r (\<lambda>ps. Inr (p # ps)), st2, buf2)))"

lemma read_packets_ok:
  assumes "\<forall>(t, p) \<in> set msgs. encodable t \<and> length p < 65536"
    and "buf @ wire st = concat (map (\<lambda>(t, p). trojan_send_to t p) msgs) @ rest"
  shows "\<exists>st' buf'. read_packets (length msgs) st buf = (Inr (map (apfst canonical) msgs), st', buf') \<and> buf' @ wire st' = rest"
  using assms
proof (induction msgs arbitrary: st buf)
  case (Cons m msgs)
  obtain t p where m: "m = (t, p)" by (cases m)
  from Cons.prems m have "try_packet (buf @ wire st) = PkDone (canonical t) p (concat (map (\<lambda>(t, p). trojan_send_to t p) msgs) @ rest)"
    by (simp add: try_packet_sent)
  from read_packet_ok [OF this] obtain st1 buf1 where r: "read_packet st buf = (Inr (canonical t, p), st1, buf1)"
    "buf1 @ wire st1 = concat (map (\<lambda>(t, p). trojan_send_to t p) msgs) @ rest" by blast
  with Cons.IH [OF _ r(2)] Cons.prems(1) m show ?case by auto
qed simp

subsection \<open>Lemmas: the handshake\<close>

lemma lower_hex_digit: "d < 16 \<Longrightarrow> to_ascii_lower (show_hex_digit d) = show_hex_digit d"
  by (auto simp: to_ascii_lower_def show_hex_digit_def word_le_nat_alt unat_of_nat_u8 simp del: of_nat_add)

lemma lower_hex_encode: "map to_ascii_lower (hex_encode bs) = hex_encode bs"
proof (induction bs)
  case (Cons b bs)
  have "unat b div 16 < 16" by (rule less_mult_imp_div_less) simp
  with Cons show ?case by (simp add: hex_encode_def lower_hex_digit)
qed (simp add: hex_encode_def)

lemma length_hex_encode [simp]: "length (hex_encode bs) = 2 * length bs"
  by (induction bs) (simp_all add: hex_encode_def)

text \<open>What the server does with a handshake: the password decides.\<close>

definition authorised :: "crypto \<Rightarrow> (bytes \<Rightarrow> (bytes \<times> nat) option) \<Rightarrow> auth_user list \<Rightarrow> bytes \<Rightarrow> bool" where
  "authorised cr account users hash \<longleftrightarrow> account hash \<noteq> None \<or> trojan_local_ok cr users hash"

lemma handle_handshake:
  assumes "length hash = 56" and "map to_ascii_lower hash = hash" and "encodable t"
  shows "run_on (trojan_handle_client cr account users) (generate_handshake hash t udp @ payload) =
    (if authorised cr account users hash
     then ([], Some (Inr (Some (if udp then TrojanUdp (canonical t) else TrojanStream (canonical t), account hash)), payload))
     else ([], Some (Inl InvalidPassword, [if udp then 3 else 1] @ to_bytes t @ CRLF @ payload)))"
  using assms(1,2)
  by (simp add: trojan_handle_client_def generate_handshake_def slice_def CRLF_def authorised_def Let_def
      run_on_recv_target [OF read_from_to_bytes [OF assms(3)]])

lemma handle_accepts:
  assumes "snd (run_on (trojan_handle_client cr account users) s) = Some (Inr h, rest)"
  shows "58 \<le> length s \<and> authorised cr account users (map to_ascii_lower (take 56 s))"
  using assms by (auto simp: trojan_handle_client_def Let_def authorised_def slice_def min_def split: if_splits)

subsection \<open>Properties\<close>

text \<open>C16. Trojan, end to end, for a target whose encoding fits (a domain of at most 255 bytes of valid
  text). Whatever polls the client makes on its lazily started stream: once the handshake is out, a server that accepts the password finds the target, in canonical form, and
  exactly the bytes the client's writes acknowledged.\<close>

theorem trojan_end_to_end:
  assumes "length hash = 56" and "map to_ascii_lower hash = hash" and "encodable t"
    and "authorised cr account users hash"
    and "relay_run lazy_step ops (lazy_new (generate_handshake hash t False)) = (outs, s)" and "lz_handshake s = None"
  shows "run_on (trojan_handle_client cr account users) (os_written (lz_stream s)) =
    ([], Some (Inr (Some (TrojanStream (canonical t), account hash)), taken outs))"
  using lazy_relay.run_rel [OF lazy_rel_new, of "generate_handshake hash t False" ops] assms(5,6)
    handle_handshake [OF assms(1-3), of cr account users False "taken outs"] assms(4)
  by (simp add: lazy_rel_def)

text \<open>Trojan UDP. The server finds a UDP session behind the handshake, and reads from what follows,
  however it is cut into reads, the packets the client sent, each with its canonical target.\<close>

theorem trojan_udp_end_to_end:
  assumes "length hash = 56" and "map to_ascii_lower hash = hash" and "encodable t"
    and "authorised cr account users hash" and "\<forall>(a, p) \<in> set msgs. encodable a \<and> length p < 65536"
  shows "\<exists>rest. run_on (trojan_handle_client cr account users)
      (generate_handshake hash t True @ concat (map (\<lambda>(a, p). trojan_send_to a p) msgs)) =
        ([], Some (Inr (Some (TrojanUdp (canonical t), account hash)), rest)) \<and>
    (\<forall>st. wire st = rest \<longrightarrow> fst (read_packets (length msgs) st []) = Inr (map (apfst canonical) msgs))"
proof -
  let ?rest = "concat (map (\<lambda>(a, p). trojan_send_to a p) msgs)"
  have "fst (read_packets (length msgs) st []) = Inr (map (apfst canonical) msgs)" if "wire st = ?rest" for st
    using read_packets_ok [OF assms(5), of "[]" st "[]"] that by auto
  with handle_handshake [OF assms(1-3), of cr account users True ?rest] assms(4) show ?thesis by simp
qed

text \<open>No Trojan access without a password: on any input, a handler is returned only if the first 56
  bytes, in lower case, are a credential the observer knows or the hash of a user's password.\<close>

theorem trojan_requires_password:
  assumes "snd (run_on (trojan_handle_client cr account users) s) = Some (Inr h, rest)"
  shows "account (map to_ascii_lower (take 56 s)) \<noteq> None \<or>
    (\<exists>u \<in> set users. hex_encode (cr_sha224 cr (au_password u)) = map to_ascii_lower (take 56 s))"
  using handle_accepts [OF assms]
  by (auto simp: authorised_def trojan_local_ok_def list_ex_iff credential_hash_def)

text \<open>C23. Removal locks out. After \<open>remove_user\<close> reported success, a Trojan inbound refuses the removed
  user's password, unless another user has the same credential.\<close>

theorem trojan_removed_user_refused:
  assumes "covers order" and "covers corder" and "covers uorder"
    and "remove_user cr order corder uorder decd username (s, ibs) = (Some True, s', ibs')"
    and "fmlookup ibs' tag = Some ib" and "iu_supports ib"
    and "length (cr_sha224 cr password) = 28" and "encodable t"
    and others: "\<And>v. v \<noteq> username \<Longrightarrow> fmlookup (ob_user_creds s') (tag, v) \<noteq> Some (hex_encode (cr_sha224 cr password))"
      "\<And>u. u \<in> set (iu_users ib) \<Longrightarrow> au_username u \<noteq> username \<Longrightarrow> hex_encode (cr_sha224 cr (au_password u)) \<noteq> hex_encode (cr_sha224 cr password)"
  shows "\<exists>rest. run_on (trojan_handle_client cr (\<lambda>c. authenticate_user corder tag c s') (iu_users ib))
      (generate_handshake (hex_encode (cr_sha224 cr password)) t udp @ payload) = ([], Some (Inl InvalidPassword, rest))"
proof -
  let ?h = "hex_encode (cr_sha224 cr password)"
  note gone = removed_user_unknown [OF assms(1-4)]
  have "authenticate_user corder tag ?h s' = None"
    using gone(2) [of tag ?h] others(1) authenticate_user_Some [of corder tag ?h s']
    by (cases "authenticate_user corder tag ?h s'") auto
  moreover have "\<not> trojan_local_ok cr (iu_users ib) ?h"
    using gone(1) [OF assms(5,6)] others(2) by (auto simp: trojan_local_ok_def list_ex_iff credential_hash_def)
  ultimately show ?thesis
    using handle_handshake [OF _ lower_hex_encode assms(8), of "cr_sha224 cr password"] assms(7)
    by (simp add: authorised_def)
qed

subsection \<open>Witnesses\<close>

definition trojan_crypto :: crypto where
  "trojan_crypto = sample_crypto\<lparr>cr_sha224 := (\<lambda>s. take 28 (s @ replicate 28 0))\<rparr>"

definition trojan_users :: "auth_user list" where
  "trojan_users = [\<lparr>au_username = [7], au_password = [5]\<rparr>]"

abbreviation (input) trojan_hash :: "bytes \<Rightarrow> bytes" where
  "trojan_hash p \<equiv> hex_encode (cr_sha224 trojan_crypto p)"

lemma trojan_hash_length: "length (trojan_hash p) = 56"
  by (simp add: trojan_crypto_def)

lemma sample_authorised: "authorised trojan_crypto (\<lambda>_. None) trojan_users (trojan_hash [5])"
  by (simp add: authorised_def trojan_local_ok_def trojan_users_def credential_hash_def)

theorem trojan_end_to_end_witness:
  "run_on (trojan_handle_client trojan_crypto (\<lambda>_. None) trojan_users)
     (os_written (lz_stream (snd (relay_run lazy_step [LWrite (WOk 100) (WOk 2) [8, 9]]
        (lazy_new (generate_handshake (trojan_hash [5]) (Ip (SockV4 1 80)) False)))))) =
   ([], Some (Inr (Some (TrojanStream (Ip (SockV4 1 80)), None)), [8, 9]))"
proof -
  let ?h = "generate_handshake (trojan_hash [5]) (Ip (SockV4 1 80)) False"
  obtain outs s where r: "relay_run lazy_step [LWrite (WOk 100) (WOk 2) [8, 9]] (lazy_new ?h) = (outs, s)" by fastforce
  have l: "length ?h = 68" by (simp add: generate_handshake_def trojan_crypto_def CRLF_def to_bytes_def)
  then have "?h \<noteq> []" by auto
  with r l have "taken outs = [8, 9]" "lz_handshake s = None"
    by (auto simp: lazy_poll_write_def lazy_new_def os_take_def)
  with trojan_end_to_end [OF trojan_hash_length lower_hex_encode _ sample_authorised r] r show ?thesis by simp
qed

theorem trojan_udp_end_to_end_witness:
  "fst (read_packets 1 [Data (take 3 (trojan_send_to (Ip (SockV4 1 53)) [4])), Pending, Data (drop 3 (trojan_send_to (Ip (SockV4 1 53)) [4]))] []) =
     Inr [(Ip (SockV4 1 53), [4])]"
proof -
  let ?m = "trojan_send_to (Ip (SockV4 1 53)) [4]"
  have l: "length ?m = 12" by (simp add: trojan_send_to_def CRLF_def)
  then have w: "wire [Data (take 3 ?m), Pending, Data (drop 3 ?m)] = ?m" by auto
  show ?thesis
    using trojan_udp_end_to_end [OF trojan_hash_length lower_hex_encode _ sample_authorised, of "Ip (SockV4 1 53)" "[(Ip (SockV4 1 53), [4])]"]
      handle_handshake [OF trojan_hash_length lower_hex_encode, of "Ip (SockV4 1 53)" trojan_crypto "\<lambda>_. None" trojan_users "[5]" True ?m] sample_authorised w
    by auto
qed

theorem trojan_requires_password_witness:
  "\<exists>u \<in> set trojan_users. hex_encode (cr_sha224 trojan_crypto (au_password u)) = trojan_hash [5]"
proof -
  let ?s = "generate_handshake (trojan_hash [5]) (Ip (SockV4 1 80)) False"
  have "snd (run_on (trojan_handle_client trojan_crypto (\<lambda>_. None) trojan_users) ?s) =
      Some (Inr (Some (TrojanStream (Ip (SockV4 1 80)), None)), [])"
    using handle_handshake [OF trojan_hash_length lower_hex_encode, of "Ip (SockV4 1 80)" trojan_crypto "\<lambda>_. None" trojan_users "[5]" False "[]"]
      sample_authorised by simp
  moreover have "take 56 ?s = trojan_hash [5]" by (simp add: generate_handshake_def trojan_crypto_def)
  ultimately show ?thesis using trojan_requires_password [of trojan_crypto "\<lambda>_. None" trojan_users ?s]
    by (simp add: lower_hex_encode)
qed

definition trojan_world :: "observer \<times> inbounds" where
  "trojan_world =
     ((observer_new None)\<lparr>ob_heap := [stats_default], ob_user_stats := fmupd [7] 0 fmempty,
        ob_user_creds := fmupd ([9], [7]) (trojan_hash [5]) fmempty\<rparr>,
      fmupd [9] \<lparr>iu_protocol = str ''trojan'', iu_supports = True, iu_users = trojan_users\<rparr> fmempty)"

lemma trojan_world_removed:
  "remove_user trojan_crypto some_order some_order some_order (\<lambda>_. None) [7] trojan_world =
     (Some True, (observer_new None)\<lparr>ob_heap := [stats_default], ob_user_stats := fmdrop [7] (fmupd [7] 0 fmempty),
        ob_user_passwords := fmdrop [7] fmempty, ob_user_creds := fmdrop ([9], [7]) (fmupd ([9], [7]) (trojan_hash [5]) fmempty)\<rparr>,
      fmupd [9] \<lparr>iu_protocol = str ''trojan'', iu_supports = True, iu_users = []\<rparr> (snd trojan_world))"
  by (simp add: remove_user_def trojan_world_def apply_user_change_def some_order_singleton inbound_remove_user_def users_remove_def
      trojan_users_def drop_credentials_def observer_new_def kill_connections_by_user_def kill_connections_where_def
      some_order_def Let_def sorted_list_of_fset.rep_eq)

theorem trojan_removed_user_refused_witness:
  "\<exists>rest. snd (run_on (trojan_handle_client trojan_crypto
       (\<lambda>c. authenticate_user some_order [9] c (fst (snd (remove_user trojan_crypto some_order some_order some_order (\<lambda>_. None) [7] trojan_world)))) [])
     (generate_handshake (trojan_hash [5]) (Ip (SockV4 1 80)) False)) = Some (Inl InvalidPassword, rest)"
proof -
  obtain s ibs where w: "trojan_world = (s, ibs)" by fastforce
  from trojan_removed_user_refused [OF some_order_ok(2) some_order_ok(2) some_order_ok(2) trojan_world_removed [unfolded w], of "[9]"
      "\<lparr>iu_protocol = str ''trojan'', iu_supports = True, iu_users = []\<rparr>" "[5]" "Ip (SockV4 1 80)" False "[]"]
  show ?thesis unfolding trojan_world_removed by (auto simp: trojan_crypto_def w)
qed

end
