(* ===== verification/Udp_Router.thy ===== *)
theory Udp_Router
  imports Routing Tokio_Std
begin

text \<open>
  UDP sessions of the router (\<open>src/src/proxy/router.rs\<close>, \<open>UdpHandler\<close> of
  \<open>src/src/proxy/outbound/mod.rs\<close>). One loop reads the packets of an inbound and
  hands each to the session of its source and destination, a task with a bounded queue of its
  own, which it spawns when there is none; the task connects an outbound, forwards packets in
  both directions until it breaks, and takes itself out of the session map. The loop and the
  tasks interleave: a run is a list of events.
\<close>

subsection \<open>State\<close>

type_synonym session_key = "target_addr \<times> target_addr"
type_synonym udp_packet = "target_addr \<times> target_addr \<times> bytes"

definition UDP_SESSION_QUEUE_CAPACITY :: nat where "UDP_SESSION_QUEUE_CAPACITY = 16"

text \<open>Where \<open>dispatch_packet\<close> is: selecting and connecting the outbound, sending the payload
  that opened the session, in the forwarding loop, returned (the handler and its receiver are
  dropped), or past the final \<open>remove_if\<close>.\<close>

datatype udp_phase = Connecting | First target_addr | Forwarding target_addr | Returned | Finished

text \<open>\<open>ut_inflight\<close> are the packets \<open>forward_udp_inbound_once\<close> has received and not yet sent,
  \<open>ut_sent\<close> what the outbound was handed, \<open>ut_replies\<close> and \<open>ut_answered\<close> the same for
  \<open>forward_udp_outbound_once\<close>.\<close>

record udp_task =
  ut_key :: session_key
  ut_chan :: "bytes chan"
  ut_phase :: udp_phase
  ut_inflight :: "udp_packet list"
  ut_sent :: "(target_addr \<times> bytes) list"
  ut_replies :: "udp_packet list"
  ut_answered :: "udp_packet list"
  ut_last_activity :: nat
  ut_check_timer :: nat

text \<open>The loop waits in \<open>recv_from\<close>, or in \<open>tx.send\<close> for a place in a session's queue.\<close>

datatype udp_loop = Receiving | Delivering session_key nat bytes | LoopEnded

record udp_state =
  us_loop :: udp_loop
  us_sessions :: "(session_key, nat) fmap"
  us_tasks :: "udp_task list"
  us_now :: nat

definition udp_start :: udp_state where
  "udp_start = \<lparr>us_loop = Receiving, us_sessions = fmempty, us_tasks = [], us_now = 0\<rparr>"

subsection \<open>The session's receiver\<close>

definition handler_recv_many :: "session_key \<Rightarrow> bytes chan \<Rightarrow> udp_packet list option \<times> bytes chan" where
  "handler_recv_many k c =
     (case ch_items c of
        [] \<Rightarrow> (None, c)
      | items \<Rightarrow> (Some (map (\<lambda>d. (fst k, snd k, d)) items), c\<lparr>ch_items := []\<rparr>))"

definition drop_receiver :: "udp_task \<Rightarrow> udp_task" where
  "drop_receiver t = t\<lparr>ut_chan := (ut_chan t)\<lparr>ch_closed := True\<rparr>, ut_phase := Returned\<rparr>"

subsection \<open>The loop\<close>

definition remove_if :: "session_key \<Rightarrow> (nat \<Rightarrow> bool) \<Rightarrow> (session_key, nat) fmap \<Rightarrow> (session_key, nat) fmap" where
  "remove_if k P m = (case fmlookup m k of Some i \<Rightarrow> if P i then fmdrop k m else m | None \<Rightarrow> m)"

definition is_closed_in :: "udp_state \<Rightarrow> nat \<Rightarrow> bool" where
  "is_closed_in s i = ch_closed (ut_chan (us_tasks s ! i))"

definition open_session :: "session_key \<Rightarrow> bytes \<Rightarrow> udp_state \<Rightarrow> udp_state" where
  "open_session k payload s =
     s\<lparr>us_loop := Receiving,
       us_sessions := fmupd k (length (us_tasks s)) (us_sessions s),
       us_tasks := us_tasks s @
         [\<lparr>ut_key = k, ut_chan = channel UDP_SESSION_QUEUE_CAPACITY, ut_phase = Connecting,
           ut_inflight = [(fst k, snd k, payload)], ut_sent = [], ut_replies = [], ut_answered = [],
           ut_last_activity = us_now s, ut_check_timer = us_now s\<rparr>]\<rparr>"

definition on_packet :: "udp_packet \<Rightarrow> udp_state \<Rightarrow> udp_state" where
  "on_packet p s =
     (case p of (src, dst, payload) \<Rightarrow>
        let k = (src, dst) in
        case fmlookup (us_sessions s) k of
          Some i \<Rightarrow> s\<lparr>us_loop := Delivering k i payload\<rparr>
        | None \<Rightarrow> open_session k payload s)"

text \<open>\<open>tx.send\<close> completes once the queue has room or the receiver is gone.\<close>

definition send_to_existing_udp_session :: "session_key \<Rightarrow> nat \<Rightarrow> bytes \<Rightarrow> udp_state \<Rightarrow> (bytes option \<times> udp_state) option" where
  "send_to_existing_udp_session k i payload s =
     (case try_send payload (ut_chan (us_tasks s ! i)) of
        (SendOk, c) \<Rightarrow> Some (None, s\<lparr>us_tasks := (us_tasks s)[i := (us_tasks s ! i)\<lparr>ut_chan := c\<rparr>]\<rparr>)
      | (SendFull, _) \<Rightarrow> None
      | (SendClosed, _) \<Rightarrow>
          Some (Some payload, s\<lparr>us_sessions := remove_if k (\<lambda>j. j = i \<and> is_closed_in s j) (us_sessions s)\<rparr>))"

definition loop_step :: "udp_state \<Rightarrow> udp_state" where
  "loop_step s =
     (case us_loop s of
        Delivering k i payload \<Rightarrow>
          (case send_to_existing_udp_session k i payload s of
             None \<Rightarrow> s
           | Some (None, s') \<Rightarrow> s'\<lparr>us_loop := Receiving\<rparr>
           | Some (Some recovered, s') \<Rightarrow> open_session k recovered s')
      | _ \<Rightarrow> s)"

subsection \<open>A session\<close>

text \<open>The outcome of \<open>select_out\<close> and \<open>connect_packet\<close> is the final target, or an error.\<close>

datatype task_event =
    ConnectDone "target_addr option"
  | SendDone bool
  | RecvMany
  | OutRecv "udp_packet list"
  | OutErr
  | ReplyDone bool
  | TimerFired
  | BreakSignal

definition on_timer :: "nat \<Rightarrow> nat \<Rightarrow> udp_task \<Rightarrow> udp_task" where
  "on_timer timeout now t =
     (if timeout \<le> now - ut_last_activity t then drop_receiver t
      else t\<lparr>ut_check_timer := ut_last_activity t + timeout\<rparr>)"

definition on_send :: "target_addr \<Rightarrow> bool \<Rightarrow> nat \<Rightarrow> udp_task \<Rightarrow> udp_task" where
  "on_send final ok now t =
     (case ut_inflight t of
        [] \<Rightarrow> t
      | (src, dst, buf) # ps \<Rightarrow>
          if ok then
            t\<lparr>ut_inflight := ps, ut_sent := ut_sent t @ [(nat_out (snd (ut_key t)) final dst, buf)],
              ut_last_activity := (if ps = [] then now else ut_last_activity t)\<rparr>
          else drop_receiver t)"

definition on_reply :: "target_addr \<Rightarrow> bool \<Rightarrow> nat \<Rightarrow> udp_task \<Rightarrow> udp_task" where
  "on_reply final ok now t =
     (case ut_replies t of
        [] \<Rightarrow> t
      | (sender, dst, buf) # ps \<Rightarrow>
          if ok then
            t\<lparr>ut_replies := ps,
              ut_answered := ut_answered t @ [(nat_in (snd (ut_key t)) final sender, fst (ut_key t), buf)],
              ut_last_activity := (if ps = [] then now else ut_last_activity t)\<rparr>
          else drop_receiver t)"

fun task_step :: "nat \<Rightarrow> nat \<Rightarrow> task_event \<Rightarrow> udp_task \<Rightarrow> udp_task" where
  "task_step timeout now e t =
     (case ut_phase t of
        Connecting \<Rightarrow>
          (case e of
             ConnectDone None \<Rightarrow> drop_receiver t
           | ConnectDone (Some final) \<Rightarrow> t\<lparr>ut_phase := First final\<rparr>
           | _ \<Rightarrow> t)
      | First final \<Rightarrow>
          (case e of
             SendDone ok \<Rightarrow>
               (let t' = on_send final ok now t in
                if ok then t'\<lparr>ut_phase := Forwarding final, ut_last_activity := now, ut_check_timer := now + timeout\<rparr>
                else t')
           | _ \<Rightarrow> t)
      | Forwarding final \<Rightarrow>
          (case e of
             RecvMany \<Rightarrow>
               (if ut_inflight t = [] then
                  (case handler_recv_many (ut_key t) (ut_chan t) of
                     (None, _) \<Rightarrow> t
                   | (Some ps, c) \<Rightarrow> t\<lparr>ut_inflight := ps, ut_chan := c\<rparr>)
                else t)
           | SendDone ok \<Rightarrow> on_send final ok now t
           | OutRecv ps \<Rightarrow> (if ut_replies t = []
                          then t\<lparr>ut_replies := ps, ut_last_activity := (if ps = [] then now else ut_last_activity t)\<rparr>
                          else t)
           | OutErr \<Rightarrow> (if ut_replies t = [] then drop_receiver t else t)
           | ReplyDone ok \<Rightarrow> on_reply final ok now t
           | TimerFired \<Rightarrow> (if ut_check_timer t \<le> now then on_timer timeout now t else t)
           | BreakSignal \<Rightarrow> drop_receiver t
           | ConnectDone _ \<Rightarrow> t)
      | _ \<Rightarrow> t)"

definition task_cleanup :: "nat \<Rightarrow> udp_state \<Rightarrow> udp_state" where
  "task_cleanup i s =
     (if ut_phase (us_tasks s ! i) = Returned then
        s\<lparr>us_sessions := remove_if (ut_key (us_tasks s ! i)) (is_closed_in s) (us_sessions s),
          us_tasks := (us_tasks s)[i := (us_tasks s ! i)\<lparr>ut_phase := Finished\<rparr>]\<rparr>
      else s)"

subsection \<open>Runs\<close>

datatype udp_event =
    Packet udp_packet
  | RecvErr
  | Delivered
  | Task nat task_event
  | Cleanup nat
  | Elapse nat

text \<open>An event that is not enabled changes nothing.\<close>

fun start_udp_loop :: "nat \<Rightarrow> udp_event \<Rightarrow> udp_state \<Rightarrow> udp_state" where
  "start_udp_loop timeout (Packet p) s = (if us_loop s = Receiving then on_packet p s else s)"
| "start_udp_loop timeout RecvErr s = (if us_loop s = Receiving then s\<lparr>us_loop := LoopEnded\<rparr> else s)"
| "start_udp_loop timeout Delivered s = loop_step s"
| "start_udp_loop timeout (Task i e) s =
     (if i < length (us_tasks s)
      then s\<lparr>us_tasks := (us_tasks s)[i := task_step timeout (us_now s) e (us_tasks s ! i)]\<rparr> else s)"
| "start_udp_loop timeout (Cleanup i) s = (if i < length (us_tasks s) then task_cleanup i s else s)"
| "start_udp_loop timeout (Elapse d) s = s\<lparr>us_now := us_now s + d\<rparr>"

definition udp_run :: "nat \<Rightarrow> udp_event list \<Rightarrow> udp_state \<Rightarrow> udp_state" where
  "udp_run timeout es s = fold (start_udp_loop timeout) es s"

subsection \<open>Every packet is with one session\<close>

text \<open>What a session was given by the loop, in order: sent, received and not yet sent, queued.\<close>

definition accepted :: "udp_task \<Rightarrow> bytes list" where
  "accepted t = map snd (ut_sent t) @ map (\<lambda>(_, _, d). d) (ut_inflight t) @ ch_items (ut_chan t)"

definition in_delivery :: "session_key \<Rightarrow> udp_loop \<Rightarrow> bytes list" where
  "in_delivery k l = (case l of Delivering k' i p \<Rightarrow> if k' = k then [p] else [] | _ \<Rightarrow> [])"

definition accounted :: "session_key \<Rightarrow> udp_state \<Rightarrow> bytes list" where
  "accounted k s = concat (map accepted (filter (\<lambda>t. ut_key t = k) (us_tasks s))) @ in_delivery k (us_loop s)"

text \<open>The payloads \<open>recv_from\<close> returned for a key during a run.\<close>

definition arrival :: "session_key \<Rightarrow> udp_event \<Rightarrow> udp_state \<Rightarrow> bytes list" where
  "arrival k e s =
     (case e of Packet (src, dst, p) \<Rightarrow> if us_loop s = Receiving \<and> (src, dst) = k then [p] else [] | _ \<Rightarrow> [])"

primrec arrivals :: "nat \<Rightarrow> session_key \<Rightarrow> udp_event list \<Rightarrow> udp_state \<Rightarrow> bytes list" where
  "arrivals timeout k [] s = []"
| "arrivals timeout k (e # es) s = arrival k e s @ arrivals timeout k es (start_udp_loop timeout e s)"

definition task_ok :: "nat \<Rightarrow> udp_task \<Rightarrow> bool" where
  "task_ok now t \<longleftrightarrow>
     ch_cap (ut_chan t) = UDP_SESSION_QUEUE_CAPACITY \<and> length (ch_items (ut_chan t)) \<le> UDP_SESSION_QUEUE_CAPACITY \<and>
     (ch_closed (ut_chan t) \<longleftrightarrow> ut_phase t \<in> {Returned, Finished}) \<and>
     (\<forall>p\<in>set (ut_inflight t). fst p = fst (ut_key t) \<and> fst (snd p) = snd (ut_key t)) \<and>
     (\<forall>p\<in>set (ut_answered t). fst (snd p) = fst (ut_key t)) \<and>
     ut_last_activity t \<le> now \<and>
     (case ut_phase t of
        Connecting \<Rightarrow> length (ut_inflight t) = 1 \<and> ut_sent t = []
      | First final \<Rightarrow> length (ut_inflight t) = 1 \<and> ut_sent t = []
      | Forwarding final \<Rightarrow> (\<forall>x\<in>set (ut_sent t). fst x = final)
      | _ \<Rightarrow> True)"

lemma nat_out_original [simp]: "nat_out original final original = final"
  by (simp add: nat_out_def)

lemma drop_receiver_ok:
  "task_ok now t \<Longrightarrow> task_ok now (drop_receiver t)"
  by (simp add: task_ok_def drop_receiver_def)

lemma drop_receiver_keeps [simp]:
  "ut_key (drop_receiver t) = ut_key t" "accepted (drop_receiver t) = accepted t"
  "ch_closed (ut_chan (drop_receiver t))" "ut_phase (drop_receiver t) = Returned"
  by (simp_all add: drop_receiver_def accepted_def)

lemma on_send_keeps:
  "ut_key (on_send final ok now t) = ut_key t" "accepted (on_send final ok now t) = accepted t"
  by (auto simp: on_send_def accepted_def drop_receiver_def split: list.split)

lemma on_reply_keeps:
  "ut_key (on_reply final ok now t) = ut_key t" "accepted (on_reply final ok now t) = accepted t"
  by (auto simp: on_reply_def accepted_def drop_receiver_def split: list.split)

lemma handler_recv_many_Some:
  "handler_recv_many k c = (Some ps, c') \<Longrightarrow>
     ps = map (\<lambda>d. (fst k, snd k, d)) (ch_items c) \<and> c' = c\<lparr>ch_items := []\<rparr>"
  by (auto simp: handler_recv_many_def split: list.splits)

lemma task_step_keeps:
  "ut_key (task_step timeout now e t) = ut_key t \<and> accepted (task_step timeout now e t) = accepted t"
proof -
  have "accepted (t\<lparr>ut_inflight := ps, ut_chan := c\<rparr>) = accepted t"
    if "handler_recv_many (ut_key t) (ut_chan t) = (Some ps, c)" "ut_inflight t = []" for ps c
    using handler_recv_many_Some [OF that(1)] that(2) by (simp add: accepted_def comp_def)
  moreover have "accepted (t\<lparr>ut_phase := p\<rparr>) = accepted t" "accepted (t\<lparr>ut_check_timer := n\<rparr>) = accepted t"
    "accepted (t\<lparr>ut_replies := r, ut_last_activity := n\<rparr>) = accepted t"
    "accepted (u\<lparr>ut_phase := p, ut_last_activity := n, ut_check_timer := m\<rparr>) = accepted u" for p n m r u
    by (simp_all add: accepted_def)
  ultimately show ?thesis
    by (auto simp: Let_def on_send_keeps on_reply_keeps on_timer_def
        split: udp_phase.split task_event.split option.split prod.split)
qed

lemma on_send_ok:
  "task_ok now t \<Longrightarrow> ut_phase t = Forwarding final \<Longrightarrow> task_ok now (on_send final ok now t)"
  by (auto simp: on_send_def task_ok_def drop_receiver_def split: list.split)

lemma on_first_ok:
  "task_ok now t \<Longrightarrow> ut_phase t = First final \<Longrightarrow>
     task_ok now ((on_send final True now t)\<lparr>ut_phase := Forwarding final, ut_last_activity := now, ut_check_timer := m\<rparr>)"
  by (auto simp: on_send_def task_ok_def length_Suc_conv split: list.split)

lemma on_send_fails:
  "task_ok now t \<Longrightarrow> task_ok now (on_send final False now t)"
  by (auto simp: on_send_def drop_receiver_ok split: list.split)

lemma on_reply_ok:
  "task_ok now t \<Longrightarrow> ut_phase t = Forwarding final \<Longrightarrow> task_ok now (on_reply final ok now t)"
  by (auto simp: on_reply_def task_ok_def drop_receiver_def split: list.split)

lemma recv_many_ok:
  "handler_recv_many (ut_key t) (ut_chan t) = (Some ps, c) \<Longrightarrow> task_ok now t \<Longrightarrow> ut_phase t = Forwarding final \<Longrightarrow>
     task_ok now (t\<lparr>ut_inflight := ps, ut_chan := c\<rparr>)"
  by (drule handler_recv_many_Some) (auto simp: task_ok_def)

lemma on_timer_ok: "task_ok now t \<Longrightarrow> ut_phase t = Forwarding final \<Longrightarrow> task_ok now (on_timer timeout now t)"
  by (auto simp: on_timer_def drop_receiver_ok) (simp add: task_ok_def)

lemma task_step_ok: "task_ok now t \<Longrightarrow> task_ok now (task_step timeout now e t)"
proof (cases "ut_phase t")
  case Connecting
  moreover assume "task_ok now t"
  ultimately show ?thesis
    by (auto simp: drop_receiver_ok split: task_event.split option.split) (simp add: task_ok_def)
next
  case (First final)
  moreover assume "task_ok now t"
  ultimately show ?thesis
    by (auto simp: Let_def on_first_ok on_send_fails split: task_event.split)
next
  case (Forwarding final)
  moreover assume ok: "task_ok now t"
  moreover have "task_ok now (t\<lparr>ut_replies := ps, ut_last_activity := (if ps = [] then now else ut_last_activity t)\<rparr>)" for ps
    using ok Forwarding by (simp add: task_ok_def)
  ultimately show ?thesis
    by (auto simp: drop_receiver_ok on_send_ok on_reply_ok on_timer_ok recv_many_ok split: task_event.split prod.split option.split)
qed auto

lemma task_step_closed:
  "task_ok now t \<Longrightarrow> ch_closed (ut_chan t) \<Longrightarrow> task_step timeout now e t = t"
  by (auto simp: task_ok_def)

lemma task_step_not_finished:
  "ut_phase t \<noteq> Finished \<Longrightarrow> task_ok now t \<Longrightarrow> ut_phase (task_step timeout now e t) \<noteq> Finished"
  by (auto simp: Let_def on_send_def on_reply_def on_timer_def handler_recv_many_def
      split: udp_phase.split task_event.split option.split list.split prod.split)

subsection \<open>The invariant of the loop\<close>

definition newest :: "session_key \<Rightarrow> nat \<Rightarrow> udp_task list \<Rightarrow> bool" where
  "newest k i ts \<longleftrightarrow> i < length ts \<and> ut_key (ts ! i) = k \<and> (\<forall>j<length ts. i < j \<longrightarrow> ut_key (ts ! j) \<noteq> k)"

definition udp_ok :: "udp_state \<Rightarrow> bool" where
  "udp_ok s \<longleftrightarrow>
     (\<forall>t\<in>set (us_tasks s). task_ok (us_now s) t) \<and>
     (\<forall>k i. fmlookup (us_sessions s) k = Some i \<longrightarrow> newest k i (us_tasks s) \<and> ut_phase (us_tasks s ! i) \<noteq> Finished) \<and>
     (\<forall>i<length (us_tasks s). \<not> ch_closed (ut_chan (us_tasks s ! i)) \<longrightarrow>
        fmlookup (us_sessions s) (ut_key (us_tasks s ! i)) = Some i) \<and>
     (\<forall>k i p. us_loop s = Delivering k i p \<longrightarrow> newest k i (us_tasks s))"

lemma udp_ok_session:
  "udp_ok s \<Longrightarrow> fmlookup (us_sessions s) k = Some i \<Longrightarrow> newest k i (us_tasks s) \<and> ut_phase (us_tasks s ! i) \<noteq> Finished"
  unfolding udp_ok_def by blast

lemma udp_ok_live:
  "udp_ok s \<Longrightarrow> i < length (us_tasks s) \<Longrightarrow> \<not> ch_closed (ut_chan (us_tasks s ! i)) \<Longrightarrow>
     fmlookup (us_sessions s) (ut_key (us_tasks s ! i)) = Some i"
  unfolding udp_ok_def by blast

lemma udp_ok_delivery: "udp_ok s \<Longrightarrow> us_loop s = Delivering k i p \<Longrightarrow> newest k i (us_tasks s)"
  unfolding udp_ok_def by blast

lemma udp_ok_tasks: "udp_ok s \<Longrightarrow> t \<in> set (us_tasks s) \<Longrightarrow> task_ok (us_now s) t"
  unfolding udp_ok_def by blast

lemma udp_start_ok: "udp_ok udp_start"
  by (simp add: udp_ok_def udp_start_def)

lemma key_update:
  "ut_key t' = ut_key (ts ! i) \<Longrightarrow> ut_key (ts[i := t'] ! j) = ut_key (ts ! j)"
  by (cases "i < length ts"; cases "i = j") (simp_all add: list_update_beyond)

lemma newest_update:
  "ut_key t' = ut_key (ts ! i) \<Longrightarrow> newest k j (ts[i := t']) \<longleftrightarrow> newest k j ts"
  by (simp add: newest_def key_update)

lemma concat_newest:
  assumes "newest k i ts"
  shows "concat (map f (filter (\<lambda>t. ut_key t = k) ts)) =
         concat (map f (filter (\<lambda>t. ut_key t = k) (take i ts))) @ f (ts ! i)"
proof -
  have "filter (\<lambda>t. ut_key t = k) (drop (Suc i) ts) = []"
    using assms by (auto simp: newest_def filter_empty_conv in_set_conv_nth)
  moreover have "ts = take i ts @ ts ! i # drop (Suc i) ts" using assms by (simp add: newest_def id_take_nth_drop)
  then have "filter (\<lambda>t. ut_key t = k) ts =
      filter (\<lambda>t. ut_key t = k) (take i ts) @ filter (\<lambda>t. ut_key t = k) (ts ! i # drop (Suc i) ts)"
    by (metis filter_append)
  ultimately show ?thesis using assms by (simp add: newest_def)
qed

lemma concat_update_same:
  "ut_key t' = ut_key (ts ! i) \<Longrightarrow> f t' = f (ts ! i) \<Longrightarrow>
     concat (map f (filter (\<lambda>t. ut_key t = k) (ts[i := t']))) = concat (map f (filter (\<lambda>t. ut_key t = k) ts))"
proof (induction ts arbitrary: i)
  case (Cons a ts)
  then show ?case by (cases i) auto
qed simp

lemma concat_update_other:
  "ut_key t' = ut_key (ts ! i) \<Longrightarrow> ut_key (ts ! i) \<noteq> k \<Longrightarrow>
     filter (\<lambda>t. ut_key t = k) (ts[i := t']) = filter (\<lambda>t. ut_key t = k) ts"
proof (induction ts arbitrary: i)
  case (Cons a ts)
  then show ?case by (cases i) auto
qed simp

lemma udp_ok_update:
  assumes "udp_ok s" "i < length (us_tasks s)" "task_ok (us_now s) t'" "ut_key t' = ut_key (us_tasks s ! i)"
    "ch_closed (ut_chan (us_tasks s ! i)) \<Longrightarrow> ch_closed (ut_chan t')" "ut_phase (us_tasks s ! i) \<noteq> Finished \<Longrightarrow> ut_phase t' \<noteq> Finished"
  shows "udp_ok (s\<lparr>us_tasks := (us_tasks s)[i := t']\<rparr>)"
  using assms by (auto simp: udp_ok_def newest_update key_update nth_list_update dest: subsetD [OF set_update_subset_insert])

lemma newest_snoc_new [simp]: "ut_key t = k \<Longrightarrow> newest k (length ts) (ts @ [t])"
  by (simp add: newest_def)

lemma newest_snoc_other: "newest k i ts \<Longrightarrow> ut_key t \<noteq> k \<Longrightarrow> newest k i (ts @ [t])"
  by (auto simp: newest_def nth_append less_Suc_eq)

lemma open_session_ok:
  assumes "udp_ok s" "\<And>i. fmlookup (us_sessions s) k = Some i \<Longrightarrow> ch_closed (ut_chan (us_tasks s ! i))"
  shows "udp_ok (open_session k p s)"
proof -
  have closed: "ch_closed (ut_chan (us_tasks s ! i))" if "i < length (us_tasks s)" "ut_key (us_tasks s ! i) = k" for i
    using assms(2) udp_ok_live [OF assms(1) that(1)] that(2) by blast
  let ?t = "\<lparr>ut_key = k, ut_chan = channel UDP_SESSION_QUEUE_CAPACITY, ut_phase = Connecting,
           ut_inflight = [(fst k, snd k, p)], ut_sent = [], ut_replies = [], ut_answered = [],
           ut_last_activity = us_now s, ut_check_timer = us_now s\<rparr>"
  have t: "task_ok (us_now s) ?t" by (simp add: task_ok_def channel_def)
  have new: "newest k' i (us_tasks s @ [?t]) \<and> ut_phase ((us_tasks s @ [?t]) ! i) \<noteq> Finished"
    if "fmlookup (fmupd k (length (us_tasks s)) (us_sessions s)) k' = Some i" for k' i
  proof (cases "k' = k")
    case False
    then show ?thesis using udp_ok_session [OF assms(1), of k' i] that
      by (auto simp: newest_snoc_other nth_append newest_def [of _ _ "us_tasks s"])
  qed (use that in auto)
  have live: "fmlookup (fmupd k (length (us_tasks s)) (us_sessions s)) (ut_key ((us_tasks s @ [?t]) ! i)) = Some i"
    if "i < length (us_tasks s @ [?t])" "\<not> ch_closed (ut_chan ((us_tasks s @ [?t]) ! i))" for i
  proof (cases "i < length (us_tasks s)")
    case True
    then show ?thesis using closed udp_ok_live [OF assms(1), of i] that by (auto simp: nth_append)
  qed (use that in \<open>auto simp: less_Suc_eq\<close>)
  show ?thesis using new live t udp_ok_tasks [OF assms(1)]
    unfolding udp_ok_def open_session_def by (simp del: split_paired_All add: ball_Un)
qed

lemma on_packet_ok:
  assumes "udp_ok s" "us_loop s = Receiving"
  shows "udp_ok (on_packet p s)"
proof (cases p)
  case (fields src dst payload)
  show ?thesis
  proof (cases "fmlookup (us_sessions s) (src, dst)")
    case None
    then show ?thesis by (simp add: on_packet_def fields) (rule open_session_ok [OF assms(1)]; simp)
  next
    case (Some i)
    then show ?thesis using assms udp_ok_session [OF assms(1) Some]
      by (simp add: on_packet_def fields) (unfold udp_ok_def, fastforce)
  qed
qed

lemma remove_if_Some: "fmlookup (remove_if k P m) k' = Some i \<longleftrightarrow> fmlookup m k' = Some i \<and> \<not> (k' = k \<and> P i)"
  by (auto simp: remove_if_def split: option.splits)

lemma remove_closed_ok:
  "udp_ok s \<Longrightarrow> (\<And>i. P i \<Longrightarrow> is_closed_in s i) \<Longrightarrow> udp_ok (s\<lparr>us_sessions := remove_if k P (us_sessions s)\<rparr>)"
  unfolding udp_ok_def by (auto simp del: split_paired_All simp: remove_if_Some is_closed_in_def)

lemma try_send_task_ok:
  "task_ok now t \<Longrightarrow> try_send p (ut_chan t) = (SendOk, c) \<Longrightarrow> task_ok now (t\<lparr>ut_chan := c\<rparr>)"
  by (auto simp: task_ok_def try_send_def split: if_splits udp_phase.splits)

lemma loop_end_ok: "udp_ok s \<Longrightarrow> udp_ok (s\<lparr>us_loop := Receiving\<rparr>)" "udp_ok s \<Longrightarrow> udp_ok (s\<lparr>us_loop := LoopEnded\<rparr>)"
  by (auto simp: udp_ok_def)

lemma task_at: "udp_ok s \<Longrightarrow> i < length (us_tasks s) \<Longrightarrow> task_ok (us_now s) (us_tasks s ! i)"
  by (auto simp: udp_ok_def)

lemma loop_step_ok:
  assumes "udp_ok s"
  shows "udp_ok (loop_step s)"
proof (cases "us_loop s")
  case (Delivering k i p)
  let ?t = "us_tasks s ! i"
  have n: "newest k i (us_tasks s)" using udp_ok_delivery [OF assms Delivering] .
  then have i: "i < length (us_tasks s)" "ut_key ?t = k" by (auto simp: newest_def)
  consider c where "try_send p (ut_chan ?t) = (SendOk, c)" | "fst (try_send p (ut_chan ?t)) = SendFull"
    | c where "try_send p (ut_chan ?t) = (SendClosed, c)" "ch_closed (ut_chan ?t)"
    by (cases "ch_closed (ut_chan ?t)"; cases "ch_cap (ut_chan ?t) \<le> length (ch_items (ut_chan ?t))")
      (auto simp: try_send_def)
  then show ?thesis
  proof cases
    case 1
    then have "udp_ok (s\<lparr>us_tasks := (us_tasks s)[i := ?t\<lparr>ut_chan := c\<rparr>]\<rparr>)"
      using try_send_task_ok [OF task_at [OF assms i(1)] 1]
      by (intro udp_ok_update [OF assms i(1)]) (auto simp: try_send_def split: if_splits)
    then show ?thesis using 1 by (simp add: loop_step_def Delivering send_to_existing_udp_session_def loop_end_ok)
  next
    case 2
    then show ?thesis using assms
      by (cases "try_send p (ut_chan ?t)") (simp add: loop_step_def Delivering send_to_existing_udp_session_def)
  next
    case 3
    let ?s = "s\<lparr>us_sessions := remove_if k (\<lambda>j. j = i \<and> is_closed_in s j) (us_sessions s)\<rparr>"
    have "udp_ok ?s" by (rule remove_closed_ok [OF assms]) simp
    moreover have "j = i" if "fmlookup (us_sessions s) k = Some j" for j
      using udp_ok_session [OF assms that] n unfolding newest_def by (metis nat_neq_iff)
    ultimately show ?thesis using 3
      by (simp add: loop_step_def Delivering send_to_existing_udp_session_def)
        (rule open_session_ok; auto simp: remove_if_Some is_closed_in_def)
  qed
qed (simp_all add: loop_step_def assms)

lemma finish_ok: "task_ok now t \<Longrightarrow> ut_phase t = Returned \<Longrightarrow> task_ok now (t\<lparr>ut_phase := Finished\<rparr>)"
  by (simp add: task_ok_def)

lemma task_cleanup_ok:
  assumes "udp_ok s" "i < length (us_tasks s)"
  shows "udp_ok (task_cleanup i s)"
proof (cases "ut_phase (us_tasks s ! i) = Returned")
  case True
  let ?t = "us_tasks s ! i"
  let ?m = "remove_if (ut_key ?t) (is_closed_in s) (us_sessions s)"
  have c: "ch_closed (ut_chan ?t)" using task_at [OF assms] True by (simp add: task_ok_def)
  have gone: "fmlookup ?m k \<noteq> Some i" for k
    using udp_ok_session [OF assms(1), of k i] c by (auto simp: remove_if_Some newest_def is_closed_in_def)
  have "udp_ok (s\<lparr>us_sessions := ?m\<rparr>)" by (rule remove_closed_ok [OF assms(1)])
  moreover have "task_ok (us_now s) (?t\<lparr>ut_phase := Finished\<rparr>)"
    using task_at [OF assms] True by (rule finish_ok)
  ultimately show ?thesis using True gone c assms(2)
    unfolding task_cleanup_def udp_ok_def
    by (auto simp del: split_paired_All simp: newest_update key_update nth_list_update
        dest: subsetD [OF set_update_subset_insert])
qed (simp add: task_cleanup_def assms)

lemma task_ok_later: "task_ok now t \<Longrightarrow> now \<le> now' \<Longrightarrow> task_ok now' t"
  by (auto simp: task_ok_def)

lemma udp_ok_step: "udp_ok s \<Longrightarrow> udp_ok (start_udp_loop timeout e s)"
proof (induction timeout e s rule: start_udp_loop.induct)
  case (4 timeout i e s)
  show ?case
  proof (cases "i < length (us_tasks s)")
    case True
    note t = task_at [OF 4 True]
    show ?thesis using True task_step_keeps task_step_ok [OF t] task_step_closed [OF t] task_step_not_finished [OF _ t]
      by (simp del: task_step.simps) (rule udp_ok_update [OF 4 True]; simp del: task_step.simps)
  qed (simp add: 4)
next
  case (6 timeout d s)
  then show ?case by (auto simp del: split_paired_All simp: udp_ok_def intro: task_ok_later)
qed (simp_all add: on_packet_ok loop_step_ok task_cleanup_ok loop_end_ok)

lemma udp_ok_run: "udp_ok s \<Longrightarrow> udp_ok (udp_run timeout es s)"
  unfolding udp_run_def by (induction es arbitrary: s) (simp_all add: udp_ok_step)

lemma accounted_step:
  assumes "udp_ok s"
  shows "accounted k (start_udp_loop timeout e s) = accounted k s @ arrival k e s"
proof (cases e)
  case (Task i te)
  then show ?thesis
    by (simp add: accounted_def arrival_def concat_update_same task_step_keeps del: task_step.simps)
next
  case (Cleanup i)
  have "accepted (t\<lparr>ut_phase := ph\<rparr>) = accepted t" for t ph by (simp add: accepted_def)
  then show ?thesis using Cleanup by (simp add: accounted_def arrival_def task_cleanup_def concat_update_same)
next
  case (Packet p)
  then show ?thesis
    by (cases p; cases "fmlookup (us_sessions s) (fst p, fst (snd p))")
      (auto simp: accounted_def arrival_def on_packet_def open_session_def in_delivery_def accepted_def Let_def)
next
  case Delivered
  show ?thesis
  proof (cases "us_loop s")
    case (Delivering k' i p)
    note n = udp_ok_delivery [OF assms Delivering]
    let ?t = "us_tasks s ! i"
    have k': "ut_key ?t = k'" "i < length (us_tasks s)" using n by (simp_all add: newest_def)
    have "concat (map accepted (filter (\<lambda>t. ut_key t = k) ((us_tasks s)[i := ?t\<lparr>ut_chan := c\<rparr>]))) =
        concat (map accepted (filter (\<lambda>t. ut_key t = k) (us_tasks s))) @ (if k' = k then [p] else [])"
      if "try_send p (ut_chan ?t) = (SendOk, c)" for c
    proof (cases "k' = k")
      case True
      have "newest k i ((us_tasks s)[i := ?t\<lparr>ut_chan := c\<rparr>])" using n True by (subst newest_update) simp_all
      moreover have "accepted (?t\<lparr>ut_chan := c\<rparr>) = accepted ?t @ [p]"
        using that by (auto simp: accepted_def try_send_def split: if_splits)
      ultimately show ?thesis using concat_newest [OF n, of accepted] k' True by (simp add: concat_newest)
    qed (simp add: concat_update_other k')
    then show ?thesis using Delivered Delivering
      by (auto simp: loop_step_def send_to_existing_udp_session_def accounted_def arrival_def in_delivery_def
          open_session_def accepted_def try_send_def [of p] split: if_splits)
  qed (simp_all add: Delivered loop_step_def arrival_def)
qed (auto simp: accounted_def arrival_def in_delivery_def)

lemma accounted_run: "udp_ok s \<Longrightarrow> accounted k (udp_run timeout es s) = accounted k s @ arrivals timeout k es s"
  unfolding udp_run_def by (induction es arbitrary: s) (simp_all add: accounted_step udp_ok_step)

subsection \<open>Properties\<close>

text \<open>C24. However the loop and the sessions interleave, the payloads received for a source and a
  destination are, in order, exactly what the sessions of that pair were given, session after
  session (sent, received and not yet sent, or queued), then the one the loop is delivering:
  no packet is dropped by the loop, duplicated, reordered or given to another pair's session,
  also when a session ends while its next packet is on the way to its queue.\<close>

theorem udp_packets_accounted:
  "concat (map accepted (filter (\<lambda>t. ut_key t = k) (us_tasks (udp_run timeout es udp_start))))
     @ in_delivery k (us_loop (udp_run timeout es udp_start))
   = arrivals timeout k es udp_start"
  using accounted_run [OF udp_start_ok, of k timeout es]
  by (simp add: accounted_def udp_start_def in_delivery_def)

text \<open>C25. A session whose receiver is alive is the one the session map names, so no pair has two, and
  when every session is over the map is empty.\<close>

theorem udp_session_map:
  assumes "s = udp_run timeout es udp_start"
  shows "(\<forall>i<length (us_tasks s). \<not> ch_closed (ut_chan (us_tasks s ! i)) \<longrightarrow>
            fmlookup (us_sessions s) (ut_key (us_tasks s ! i)) = Some i) \<and>
         ((\<forall>t\<in>set (us_tasks s). ut_phase t = Finished) \<longrightarrow> us_sessions s = fmempty)"
proof -
  have ok: "udp_ok s" unfolding assms by (rule udp_ok_run [OF udp_start_ok])
  have "fmlookup (us_sessions s) k = None" if "\<forall>t\<in>set (us_tasks s). ut_phase t = Finished" for k
  proof (cases "fmlookup (us_sessions s) k")
    case (Some i)
    then show ?thesis using udp_ok_session [OF ok Some] that by (auto simp: newest_def)
  qed
  then show ?thesis using udp_ok_live [OF ok] by (auto intro: fmap_ext)
qed

text \<open>A session in its forwarding loop has sent every payload to its final target, what it sent is a
  prefix of what it was given, and every reply it passed on went to the source that opened it.\<close>

theorem udp_session_forwards:
  assumes "t \<in> set (us_tasks (udp_run timeout es udp_start))"
  shows "(\<forall>final. ut_phase t = Forwarding final \<longrightarrow> (\<forall>x\<in>set (ut_sent t). fst x = final)) \<and>
         (\<exists>rest. accepted t = map snd (ut_sent t) @ rest) \<and>
         (\<forall>x\<in>set (ut_answered t). fst (snd x) = fst (ut_key t))"
proof -
  have "task_ok (us_now (udp_run timeout es udp_start)) t"
    by (rule udp_ok_tasks [OF udp_ok_run [OF udp_start_ok] assms])
  then show ?thesis by (simp add: task_ok_def accepted_def split: udp_phase.splits)
qed

definition stalled :: "nat \<Rightarrow> udp_state \<Rightarrow> bool" where
  "stalled i s \<longleftrightarrow>
     (case us_loop s of
        Delivering k j p \<Rightarrow> j = i \<and> i < length (us_tasks s) \<and> ut_phase (us_tasks s ! i) \<noteq> Returned \<and>
          \<not> ch_closed (ut_chan (us_tasks s ! i)) \<and>
          ch_cap (ut_chan (us_tasks s ! i)) \<le> length (ch_items (ut_chan (us_tasks s ! i)))
      | _ \<Rightarrow> False)"

lemma stalled_step:
  assumes "stalled i s" "\<And>x. e \<noteq> Task i x"
  shows "stalled i (start_udp_loop timeout e s) \<and> arrival k e s = [] \<and> us_loop (start_udp_loop timeout e s) = us_loop s"
proof -
  obtain k' p where l: "us_loop s = Delivering k' i p" using assms(1) by (auto simp: stalled_def split: udp_loop.splits)
  show ?thesis
  proof (cases e)
    case (Task j x)
    then have "j \<noteq> i" using assms(2) by auto
    then show ?thesis using assms(1) l Task by (simp add: stalled_def arrival_def del: task_step.simps)
  next
    case (Cleanup j)
    then show ?thesis using assms(1) l by (cases "j = i") (auto simp: stalled_def arrival_def task_cleanup_def)
  qed (use assms(1) l in \<open>auto simp: stalled_def arrival_def loop_step_def send_to_existing_udp_session_def
        try_send_def split: prod.split\<close>)
qed

text \<open>While one session does not take packets out of its full queue (its outbound is still connecting, or
  a send to it is pending), the loop waits for it: whatever else happens, no packet of any
  source is received.\<close>

theorem udp_stalled_session_blocks_all:
  assumes "stalled i s" "\<forall>e\<in>set es. \<forall>x. e \<noteq> Task i x"
  shows "us_loop (udp_run timeout es s) = us_loop s \<and> arrivals timeout k es s = []"
  using assms unfolding udp_run_def
proof (induction es arbitrary: s)
  case (Cons e es)
  have "stalled i (start_udp_loop timeout e s) \<and> arrival k e s = [] \<and> us_loop (start_udp_loop timeout e s) = us_loop s"
    by (rule stalled_step) (use Cons.prems in auto)
  then show ?case using Cons by simp
qed simp

definition sample_packet :: udp_packet where
  "sample_packet = (Domain (str ''c'') 1, Domain (str ''d'') 53, [7])"

definition stalling :: "udp_event list" where
  "stalling = Packet sample_packet # concat (replicate 16 [Packet sample_packet, Delivered]) @ [Packet sample_packet]"

lemma stalling_stalls: "stalled 0 (udp_run 60 stalling udp_start)"
  by code_simp

theorem udp_stalled_session_blocks_all_witness:
  "arrivals 60 k [Packet (Domain (str ''other'') 2, Domain (str ''e'') 80, [1]), Delivered, Task 1 BreakSignal]
     (udp_run 60 stalling udp_start) = []"
  using udp_stalled_session_blocks_all [OF stalling_stalls,
      of "[Packet (Domain (str ''other'') 2, Domain (str ''e'') 80, [1]), Delivered, Task 1 BreakSignal]" 60 k] by simp

definition sample_session :: "udp_event list" where
  "sample_session =
     [Packet sample_packet, Task 0 (ConnectDone (Some (Domain (str ''f'') 53))), Task 0 (SendDone True),
      Packet sample_packet, Delivered, Task 0 RecvMany, Task 0 (SendDone True), Task 0 BreakSignal,
      Packet sample_packet, Delivered, Cleanup 0, Task 1 (ConnectDone None), Cleanup 1]"

lemma sample_session_ends: "\<forall>t\<in>set (us_tasks (udp_run 60 sample_session udp_start)). ut_phase t = Finished"
  by code_simp

lemma sample_session_tasks: "length (us_tasks (udp_run 60 sample_session udp_start)) = 2"
  by code_simp

theorem udp_session_map_witness: "us_sessions (udp_run 60 sample_session udp_start) = fmempty"
  using udp_session_map [OF refl, of 60 sample_session] sample_session_ends by blast

theorem udp_session_forwards_witness:
  "\<exists>rest. accepted (us_tasks (udp_run 60 sample_session udp_start) ! 0) =
     map snd (ut_sent (us_tasks (udp_run 60 sample_session udp_start) ! 0)) @ rest"
  using udp_session_forwards [of "us_tasks (udp_run 60 sample_session udp_start) ! 0" 60 sample_session]
    sample_session_tasks by simp

end
