(* ===== verification/Observed.thy ===== *)
theory Observed
  imports Observe
begin

text \<open>
  The wrappers that count the traffic of a dispatched connection
  (\<open>src/src/proxy/router/observe.rs\<close>, \<open>wrap_streams_with_observer\<close> and
  \<open>_dispatch_packet\<close> of \<open>src/src/proxy/router.rs\<close>). A TCP connection has one wrapper per half,
  a UDP session one; each counts into the cells of its nodes, of its user, of its connection and
  into the global counters, raises the active counters when it is made and lowers them when
  it is dropped. The last wrapper of a connection to be dropped removes the connection.
\<close>

subsection \<open>Wrappers\<close>

record obs_stream =
  ow_stats :: nat
  ow_extra :: "nat option"
  ow_user :: "nat option"
  ow_conn :: nat
  ow_is_inbound :: bool

record obs_packet =
  op_conn :: nat
  op_inbound_tag :: bytes
  op_outbound_tag :: bytes
  op_extra_tag :: "bytes option"
  op_outbound_stats :: "nat option"
  op_extra_stats :: "nat option"
  op_inbound_stats :: "nat option"
  op_user :: "nat option"

datatype wrapper = WStream obs_stream | WPacket obs_packet | WDropped

text \<open>\<open>oy_done\<close> lists the trackers of the removed connections.\<close>

record obs_sys =
  oy_obs :: observer
  oy_wrappers :: "wrapper list"
  oy_done :: "conn_tracker list"

definition upd_opt :: "nat option \<Rightarrow> (stats \<Rightarrow> stats) \<Rightarrow> observer \<Rightarrow> observer" where
  "upd_opt c g s = (case c of None \<Rightarrow> s | Some i \<Rightarrow> upd_stats i g s)"

definition upd_tracker :: "nat \<Rightarrow> (conn_tracker \<Rightarrow> conn_tracker) \<Rightarrow> observer \<Rightarrow> observer" where
  "upd_tracker uuid g s =
     (case fmlookup (ob_connections s) uuid of
        None \<Rightarrow> s
      | Some r \<Rightarrow> s\<lparr>ob_connections := fmupd uuid (r\<lparr>cn_tracker := g (cn_tracker r)\<rparr>) (ob_connections s)\<rparr>)"

definition get_inbound_stats :: "bytes \<Rightarrow> observer \<Rightarrow> nat option" where
  "get_inbound_stats tag s = map_option ns_stats (fmlookup (ob_inbounds s) tag)"

definition get_outbound_stats :: "bytes \<Rightarrow> observer \<Rightarrow> nat option" where
  "get_outbound_stats tag s = map_option ns_stats (fmlookup (ob_outbounds s) tag)"

subsection \<open>Streams\<close>

definition stream_new :: "obs_stream \<Rightarrow> observer \<Rightarrow> observer" where
  "stream_new w s =
     (let s1 = upd_stats (ow_stats w) inc_active_tcp s;
          s2 = upd_opt (ow_extra w) inc_active_tcp s1
      in if ow_is_inbound w then upd_opt (ow_user w) inc_active_tcp s2 else s2)"

definition stream_drop :: "obs_stream \<Rightarrow> observer \<Rightarrow> observer" where
  "stream_drop w s =
     (let s1 = upd_stats (ow_stats w) dec_active_tcp s;
          s2 = upd_opt (ow_extra w) dec_active_tcp s1
      in if ow_is_inbound w then upd_opt (ow_user w) dec_active_tcp s2 else s2)"

definition stream_poll_read :: "u64 \<Rightarrow> obs_stream \<Rightarrow> observer \<Rightarrow> observer" where
  "stream_poll_read n w s =
     (if 0 < n then
        upd_opt (ow_extra w) (if ow_is_inbound w then inc_upload n else inc_download n)
          (if ow_is_inbound w then
             upd_opt (ow_user w) (inc_upload n)
               (update_global_traffic n 0 (upd_tracker (ow_conn w) (tk_inc_upload n) (upd_stats (ow_stats w) (inc_upload n) s)))
           else upd_stats (ow_stats w) (inc_download n) s)
      else s)"

definition stream_poll_write :: "u64 \<Rightarrow> obs_stream \<Rightarrow> observer \<Rightarrow> observer" where
  "stream_poll_write n w s =
     (if 0 < n then
        upd_opt (ow_extra w) (if ow_is_inbound w then inc_download n else inc_upload n)
          (if ow_is_inbound w then
             upd_opt (ow_user w) (inc_download n)
               (update_global_traffic 0 n (upd_tracker (ow_conn w) (tk_inc_download n) (upd_stats (ow_stats w) (inc_download n) s)))
           else upd_stats (ow_stats w) (inc_upload n) s)
      else s)"

definition stats_or_default :: "nat option \<Rightarrow> observer \<Rightarrow> nat \<times> observer" where
  "stats_or_default c s = (case c of Some i \<Rightarrow> (i, s) | None \<Rightarrow> alloc_stats s)"

text \<open>The tag whose node a connection is counted on: the leaf of the selected outbound.\<close>

definition stats_tag :: "bytes \<Rightarrow> bytes list \<Rightarrow> bytes" where
  "stats_tag outbound_tag outbound_tags = (if outbound_tags = [] then outbound_tag else last outbound_tags)"

record dispatch =
  dp_inbound_tag :: bytes
  dp_outbound_tag :: bytes
  dp_outbound_tags :: "bytes list"
  dp_matched_idx :: "nat option"
  dp_final_target :: target_addr
  dp_target :: target_addr
  dp_is_fakeip :: bool
  dp_user :: "(bytes \<times> nat) option"

definition dispatch_tracker :: "nat \<Rightarrow> u64 \<Rightarrow> bool \<Rightarrow> dispatch \<Rightarrow> conn_tracker" where
  "dispatch_tracker uuid now udp d =
     (tracker_new uuid (dp_inbound_tag d) (dp_outbound_tags d) (dp_matched_idx d) (dp_final_target d) (dp_target d)
        (dp_is_fakeip d) udp now)\<lparr>tk_user := map_option fst (dp_user d)\<rparr>"

definition wrap_streams_with_observer :: "(bytes \<Rightarrow> bytes option) \<Rightarrow> nat \<Rightarrow> nat \<Rightarrow> u64 \<Rightarrow> dispatch \<Rightarrow> observer \<Rightarrow>
    obs_stream \<times> obs_stream \<times> observer" where
  "wrap_streams_with_observer realip uuid closer now d s =
     (let st = stats_tag (dp_outbound_tag d) (dp_outbound_tags d) in
      case stats_or_default (get_inbound_stats (dp_inbound_tag d) s) s of (istats, s1) \<Rightarrow>
      case stats_or_default (get_outbound_stats st s1) s1 of (ostats, s2) \<Rightarrow>
      let extra = (if dp_outbound_tag d \<noteq> st then get_outbound_stats (dp_outbound_tag d) s2 else None);
          s3 = add_connection realip (dispatch_tracker uuid now False d) (Some closer) s2;
          inw = \<lparr>ow_stats = istats, ow_extra = None, ow_user = map_option snd (dp_user d), ow_conn = uuid, ow_is_inbound = True\<rparr>;
          outw = \<lparr>ow_stats = ostats, ow_extra = extra, ow_user = None, ow_conn = uuid, ow_is_inbound = False\<rparr>
      in (inw, outw, stream_new outw (stream_new inw s3)))"

subsection \<open>Packets\<close>

definition packet_new :: "(bytes \<Rightarrow> bytes option) \<Rightarrow> nat \<Rightarrow> nat option \<Rightarrow> u64 \<Rightarrow> dispatch \<Rightarrow> observer \<Rightarrow> obs_packet \<times> observer" where
  "packet_new realip uuid closer now d s =
     (let st = stats_tag (dp_outbound_tag d) (dp_outbound_tags d);
          s1 = on_outbound inc_active_udp st (on_inbound inc_active_udp (dp_inbound_tag d) s);
          s2 = add_connection realip (dispatch_tracker uuid now True d) closer s1;
          extra = (if dp_outbound_tag d \<noteq> st then Some (dp_outbound_tag d) else None);
          s3 = (case extra of None \<Rightarrow> s2 | Some tag \<Rightarrow> on_outbound inc_active_udp tag s2);
          w = \<lparr>op_conn = uuid, op_inbound_tag = dp_inbound_tag d, op_outbound_tag = st, op_extra_tag = extra,
               op_outbound_stats = get_outbound_stats st s3,
               op_extra_stats = Option.bind extra (\<lambda>tag. get_outbound_stats tag s3),
               op_inbound_stats = get_inbound_stats (dp_inbound_tag d) s3, op_user = map_option snd (dp_user d)\<rparr>
      in (w, upd_opt (op_user w) inc_active_udp s3))"

definition add_outbound :: "obs_packet \<Rightarrow> u64 \<Rightarrow> u64 \<Rightarrow> observer \<Rightarrow> observer" where
  "add_outbound w up down s =
     (case op_outbound_stats w of
        Some i \<Rightarrow> upd_stats i (add_traffic up down) s
      | None \<Rightarrow> on_outbound (add_traffic up down) (op_outbound_tag w) s)"

definition add_extra :: "obs_packet \<Rightarrow> u64 \<Rightarrow> u64 \<Rightarrow> observer \<Rightarrow> observer" where
  "add_extra w up down s =
     (case op_extra_tag w of
        None \<Rightarrow> s
      | Some tag \<Rightarrow>
          (case op_extra_stats w of
             Some i \<Rightarrow> upd_stats i (add_traffic up down) s
           | None \<Rightarrow> on_outbound (add_traffic up down) tag s))"

definition add_inbound :: "obs_packet \<Rightarrow> u64 \<Rightarrow> u64 \<Rightarrow> observer \<Rightarrow> observer" where
  "add_inbound w up down s =
     (case op_inbound_stats w of
        Some i \<Rightarrow> upd_stats i (add_traffic up down) s
      | None \<Rightarrow> on_inbound (add_traffic up down) (op_inbound_tag w) s)"

definition packet_send :: "u64 \<Rightarrow> obs_packet \<Rightarrow> observer \<Rightarrow> observer" where
  "packet_send n w s =
     upd_opt (op_user w) (inc_upload n)
       (upd_tracker (op_conn w) (tk_inc_upload n)
          (update_global_traffic n 0 (add_extra w n 0 (add_inbound w n 0 (add_outbound w n 0 s)))))"

definition packet_recv :: "u64 \<Rightarrow> obs_packet \<Rightarrow> observer \<Rightarrow> observer" where
  "packet_recv n w s =
     upd_opt (op_user w) (inc_download n)
       (upd_tracker (op_conn w) (tk_inc_download n)
          (update_global_traffic 0 n (add_extra w 0 n (add_inbound w 0 n (add_outbound w 0 n s)))))"

definition packet_recv_many :: "bytes list \<Rightarrow> obs_packet \<Rightarrow> observer \<Rightarrow> observer" where
  "packet_recv_many packets w s = packet_recv (sum_list (map (\<lambda>d. of_nat (length d)) packets)) w s"

definition get_udp_stats :: "obs_packet \<Rightarrow> observer \<Rightarrow> (u64 \<times> u64 \<times> u64) option" where
  "get_udp_stats w s =
     map_option (\<lambda>r. (tk_upload (cn_tracker r), tk_download (cn_tracker r), tk_start_time (cn_tracker r)))
       (fmlookup (ob_connections s) (op_conn w))"

definition packet_drop :: "obs_packet \<Rightarrow> observer \<Rightarrow> observer" where
  "packet_drop w s =
     (let s1 = on_inbound dec_active_udp (op_inbound_tag w) (on_outbound dec_active_udp (op_outbound_tag w) s);
          s2 = (case op_extra_tag w of Some tag \<Rightarrow> on_outbound dec_active_udp tag s1 | None \<Rightarrow> s1)
      in upd_opt (op_user w) dec_active_udp s2)"

subsection \<open>Runs\<close>

datatype obs_event =
    OpenTcp nat nat u64 dispatch
  | OpenUdp nat "nat option" u64 dispatch
  | StreamRead nat u64
  | StreamWrite nat u64
  | PacketSend nat u64
  | PacketRecv nat "bytes list"
  | DropWrapper nat

fun wrapper_conn :: "wrapper \<Rightarrow> nat option" where
  "wrapper_conn (WStream w) = Some (ow_conn w)"
| "wrapper_conn (WPacket w) = Some (op_conn w)"
| "wrapper_conn WDropped = None"

text \<open>Dropping a handle: the last one removes the connection.\<close>

definition release :: "nat \<Rightarrow> obs_sys \<Rightarrow> obs_sys" where
  "release uuid y =
     (if Some uuid \<in> wrapper_conn ` set (oy_wrappers y) then y
      else case fmlookup (ob_connections (oy_obs y)) uuid of
          None \<Rightarrow> y
        | Some r \<Rightarrow> y\<lparr>oy_obs := (oy_obs y)\<lparr>ob_connections := fmdrop uuid (ob_connections (oy_obs y))\<rparr>,
                     oy_done := oy_done y @ [cn_tracker r]\<rparr>)"

definition drop_wrapper :: "nat \<Rightarrow> obs_sys \<Rightarrow> obs_sys" where
  "drop_wrapper i y =
     (case oy_wrappers y ! i of
        WStream w \<Rightarrow> release (ow_conn w)
          (y\<lparr>oy_obs := stream_drop w (oy_obs y), oy_wrappers := (oy_wrappers y)[i := WDropped]\<rparr>)
      | WPacket w \<Rightarrow> release (op_conn w)
          (y\<lparr>oy_obs := packet_drop w (oy_obs y), oy_wrappers := (oy_wrappers y)[i := WDropped]\<rparr>)
      | WDropped \<Rightarrow> y)"

text \<open>A new connection has a fresh identifier, and its user's cell exists.\<close>

definition may_open :: "nat \<Rightarrow> dispatch \<Rightarrow> obs_sys \<Rightarrow> bool" where
  "may_open uuid d y \<longleftrightarrow>
     fmlookup (ob_connections (oy_obs y)) uuid = None \<and>
     (case dp_user d of None \<Rightarrow> True | Some (_, i) \<Rightarrow> i < length (ob_heap (oy_obs y)))"

fun obs_step :: "(bytes \<Rightarrow> bytes option) \<Rightarrow> obs_event \<Rightarrow> obs_sys \<Rightarrow> obs_sys" where
  "obs_step realip (OpenTcp uuid closer now d) y =
     (if may_open uuid d y then
        case wrap_streams_with_observer realip uuid closer now d (oy_obs y) of
          (inw, outw, s) \<Rightarrow> y\<lparr>oy_obs := s, oy_wrappers := oy_wrappers y @ [WStream inw, WStream outw]\<rparr>
      else y)"
| "obs_step realip (OpenUdp uuid closer now d) y =
     (if may_open uuid d y then
        case packet_new realip uuid closer now d (oy_obs y) of
          (w, s) \<Rightarrow> y\<lparr>oy_obs := s, oy_wrappers := oy_wrappers y @ [WPacket w]\<rparr>
      else y)"
| "obs_step realip (StreamRead i n) y =
     (if i < length (oy_wrappers y) then
        case oy_wrappers y ! i of WStream w \<Rightarrow> y\<lparr>oy_obs := stream_poll_read n w (oy_obs y)\<rparr> | _ \<Rightarrow> y else y)"
| "obs_step realip (StreamWrite i n) y =
     (if i < length (oy_wrappers y) then
        case oy_wrappers y ! i of WStream w \<Rightarrow> y\<lparr>oy_obs := stream_poll_write n w (oy_obs y)\<rparr> | _ \<Rightarrow> y else y)"
| "obs_step realip (PacketSend i n) y =
     (if i < length (oy_wrappers y) then
        case oy_wrappers y ! i of WPacket w \<Rightarrow> y\<lparr>oy_obs := packet_send n w (oy_obs y)\<rparr> | _ \<Rightarrow> y else y)"
| "obs_step realip (PacketRecv i ds) y =
     (if i < length (oy_wrappers y) then
        case oy_wrappers y ! i of WPacket w \<Rightarrow> y\<lparr>oy_obs := packet_recv_many ds w (oy_obs y)\<rparr> | _ \<Rightarrow> y else y)"
| "obs_step realip (DropWrapper i) y = (if i < length (oy_wrappers y) then drop_wrapper i y else y)"

definition obs_run :: "(bytes \<Rightarrow> bytes option) \<Rightarrow> obs_event list \<Rightarrow> obs_sys \<Rightarrow> obs_sys" where
  "obs_run realip es y = fold (obs_step realip) es y"

subsection \<open>Raising and lowering counters\<close>

definition opt_list :: "'a option \<Rightarrow> 'a list" where
  "opt_list c = (case c of None \<Rightarrow> [] | Some i \<Rightarrow> [i])"

definition upd_all :: "nat list \<Rightarrow> (stats \<Rightarrow> stats) \<Rightarrow> observer \<Rightarrow> observer" where
  "upd_all cs g s = fold (\<lambda>i. upd_stats i g) cs s"

lemma upd_stats_frame [simp]:
  "ob_inbounds (upd_stats i g s) = ob_inbounds s" "ob_outbounds (upd_stats i g s) = ob_outbounds s"
  "ob_connections (upd_stats i g s) = ob_connections s" "ob_global_stats (upd_stats i g s) = ob_global_stats s"
  "length (ob_heap (upd_stats i g s)) = length (ob_heap s)"
  by (simp_all add: upd_stats_def)

lemma upd_all_simps [simp]:
  "upd_all [] g s = s" "upd_all (i # cs) g s = upd_all cs g (upd_stats i g s)"
  "upd_all (cs @ cs') g s = upd_all cs' g (upd_all cs g s)"
  by (simp_all add: upd_all_def)

lemma upd_all_frame [simp]:
  "ob_inbounds (upd_all cs g s) = ob_inbounds s" "ob_outbounds (upd_all cs g s) = ob_outbounds s"
  "ob_connections (upd_all cs g s) = ob_connections s" "ob_global_stats (upd_all cs g s) = ob_global_stats s"
  "length (ob_heap (upd_all cs g s)) = length (ob_heap s)"
  by (induction cs arbitrary: s) simp_all

lemma get_stats_frame [simp]:
  "get_inbound_stats tag (upd_all cs g s) = get_inbound_stats tag s"
  "get_outbound_stats tag (upd_all cs g s) = get_outbound_stats tag s"
  by (simp_all add: get_inbound_stats_def get_outbound_stats_def)

lemma upd_opt_all: "upd_opt c g s = upd_all (opt_list c) g s"
  by (simp add: upd_opt_def opt_list_def split: option.split)

lemma on_inbound_all: "on_inbound g tag s = upd_all (opt_list (get_inbound_stats tag s)) g s"
  by (simp add: on_inbound_def get_inbound_stats_def opt_list_def split: option.split)

lemma on_outbound_all: "on_outbound g tag s = upd_all (opt_list (get_outbound_stats tag s)) g s"
  by (simp add: on_outbound_def get_outbound_stats_def opt_list_def split: option.split)

lemma upd_all_field:
  "(\<And>st. f (g st) = f st) \<Longrightarrow> f (ob_heap (upd_all cs g s) ! j) = f (ob_heap s ! j)"
proof (induction cs arbitrary: s)
  case (Cons i cs)
  then show ?case by (cases "i < length (ob_heap s)") (simp_all add: upd_stats_def nth_list_update list_update_beyond)
qed simp

text \<open>A counter of live objects: raised by one, lowered by one and never below zero.\<close>

locale active_counter =
  fixes act :: "stats \<Rightarrow> u64" and inc :: "stats \<Rightarrow> stats" and dec :: "stats \<Rightarrow> stats"
  assumes act_inc: "act (inc st) = act st + 1"
    and act_dec: "act (dec st) = saturating_sub (act st) 1"
begin

lemma act_inc_all:
  "set cs \<subseteq> {..<length (ob_heap s)} \<Longrightarrow>
     act (ob_heap (upd_all cs inc s) ! j) = act (ob_heap s ! j) + of_nat (count_list cs j)"
proof (induction cs arbitrary: s)
  case (Cons i cs)
  then show ?case by (simp add: upd_stats_def nth_list_update act_inc)
qed simp

lemma act_dec_all:
  "set cs \<subseteq> {..<length (ob_heap s)} \<Longrightarrow> count_list cs j \<le> unat (act (ob_heap s ! j)) \<Longrightarrow>
     act (ob_heap (upd_all cs dec s) ! j) = act (ob_heap s ! j) - of_nat (count_list cs j)"
proof (induction cs arbitrary: s)
  case (Cons i cs)
  let ?s = "upd_stats i dec s"
  show ?case
  proof (cases "i = j")
    case True
    then have "1 \<le> unat (act (ob_heap s ! j))" using Cons.prems(2) by simp
    then have one: "1 \<le> act (ob_heap s ! j)" by (simp add: word_le_nat_alt)
    then have a: "act (ob_heap ?s ! j) = act (ob_heap s ! j) - 1"
      using True Cons.prems(1) by (simp add: upd_stats_def act_dec saturating_sub_def)
    have "count_list cs j \<le> unat (act (ob_heap ?s ! j))"
      using Cons.prems(2) True one a by (simp add: unat_sub)
    then show ?thesis using Cons.IH [of ?s] Cons.prems(1) True a by simp
  next
    case False
    then have "act (ob_heap ?s ! j) = act (ob_heap s ! j)" by (simp add: upd_stats_def)
    then show ?thesis using Cons False by simp
  qed
qed simp

end

interpretation tcp: active_counter st_active_tcp inc_active_tcp dec_active_tcp
  by unfold_locales (simp_all add: inc_active_tcp_def dec_active_tcp_def)

interpretation udp: active_counter st_active_udp inc_active_udp dec_active_udp
  by unfold_locales (simp_all add: inc_active_udp_def dec_active_udp_def)

text \<open>The cells a wrapper is counted in while it lives.\<close>

definition stream_cells :: "obs_stream \<Rightarrow> nat list" where
  "stream_cells w = ow_stats w # opt_list (ow_extra w) @ (if ow_is_inbound w then opt_list (ow_user w) else [])"

definition packet_cells :: "observer \<Rightarrow> obs_packet \<Rightarrow> nat list" where
  "packet_cells s w =
     opt_list (get_outbound_stats (op_outbound_tag w) s) @ opt_list (get_inbound_stats (op_inbound_tag w) s) @
     opt_list (Option.bind (op_extra_tag w) (\<lambda>tag. get_outbound_stats tag s)) @ opt_list (op_user w)"

fun tcp_cells :: "wrapper \<Rightarrow> nat list" where
  "tcp_cells (WStream w) = stream_cells w"
| "tcp_cells _ = []"

fun udp_cells :: "observer \<Rightarrow> wrapper \<Rightarrow> nat list" where
  "udp_cells s (WPacket w) = packet_cells s w"
| "udp_cells s _ = []"

lemma stream_new_all: "stream_new w s = upd_all (stream_cells w) inc_active_tcp s"
  by (simp add: stream_new_def stream_cells_def upd_opt_all Let_def)

lemma stream_drop_all: "stream_drop w s = upd_all (stream_cells w) dec_active_tcp s"
  by (simp add: stream_drop_def stream_cells_def upd_opt_all Let_def)

lemma packet_drop_all: "packet_drop w s = upd_all (packet_cells s w) dec_active_udp s"
  by (simp add: packet_drop_def packet_cells_def upd_opt_all on_inbound_all on_outbound_all Let_def opt_list_def [of None]
      split: option.split)

lemma add_connection_frame [simp]:
  "ob_inbounds (add_connection realip t c s) = ob_inbounds s" "ob_outbounds (add_connection realip t c s) = ob_outbounds s"
  "ob_heap (add_connection realip t c s) = ob_heap s" "ob_global_stats (add_connection realip t c s) = ob_global_stats s"
  "get_inbound_stats tag (add_connection realip t c s) = get_inbound_stats tag s"
  "get_outbound_stats tag (add_connection realip t c s) = get_outbound_stats tag s"
  by (simp_all add: add_connection_def Let_def get_inbound_stats_def get_outbound_stats_def)

lemma add_connection_upd1: "add_connection realip t c (upd_stats i g s) = upd_stats i g (add_connection realip t c s)"
  by (simp add: add_connection_def Let_def upd_stats_def)

lemma add_connection_upd: "add_connection realip t c (upd_all cs g s) = upd_all cs g (add_connection realip t c s)"
  by (induction cs arbitrary: s) (simp_all add: add_connection_upd1)

lemma packet_new_all:
  assumes "packet_new realip uuid closer now d s = (w, s')"
  shows "\<exists>cs. s' = upd_all cs inc_active_udp (add_connection realip (dispatch_tracker uuid now True d) closer s) \<and>
           count_list cs = count_list (packet_cells s w) \<and> set cs = set (packet_cells s w) \<and>
           op_conn w = uuid \<and> op_user w = map_option snd (dp_user d)"
proof -
  let ?in = "opt_list (get_inbound_stats (op_inbound_tag w) s)" and ?out = "opt_list (get_outbound_stats (op_outbound_tag w) s)"
    and ?ex = "opt_list (Option.bind (op_extra_tag w) (\<lambda>tag. get_outbound_stats tag s))" and ?user = "opt_list (op_user w)"
  have "s' = upd_all (?in @ ?out @ ?ex @ ?user) inc_active_udp (add_connection realip (dispatch_tracker uuid now True d) closer s)"
    "op_conn w = uuid" "op_user w = map_option snd (dp_user d)"
    using assms by (auto simp: packet_new_def Let_def on_inbound_all on_outbound_all upd_opt_all add_connection_upd
        opt_list_def [of None])
  moreover have "count_list (?in @ ?out @ ?ex @ ?user) = count_list (packet_cells s w)"
    by (rule ext) (simp add: packet_cells_def)
  moreover have "set (?in @ ?out @ ?ex @ ?user) = set (packet_cells s w)"
    by (auto simp: packet_cells_def)
  ultimately show ?thesis by blast
qed

subsection \<open>Steps that leave the active counters alone\<close>

definition quiet :: "observer \<Rightarrow> observer \<Rightarrow> bool" where
  "quiet s s' \<longleftrightarrow> ob_inbounds s' = ob_inbounds s \<and> ob_outbounds s' = ob_outbounds s \<and>
     length (ob_heap s') = length (ob_heap s) \<and> fmdom (ob_connections s') = fmdom (ob_connections s) \<and>
     (\<forall>j. st_active_tcp (ob_heap s' ! j) = st_active_tcp (ob_heap s ! j) \<and>
          st_active_udp (ob_heap s' ! j) = st_active_udp (ob_heap s ! j))"

definition traffic_only :: "(stats \<Rightarrow> stats) \<Rightarrow> bool" where
  "traffic_only g \<longleftrightarrow> (\<forall>st. st_active_tcp (g st) = st_active_tcp st \<and> st_active_udp (g st) = st_active_udp st)"

lemma traffic_only_ops [simp]:
  "traffic_only (inc_upload n)" "traffic_only (inc_download n)" "traffic_only (add_traffic n m)"
  by (simp_all add: traffic_only_def inc_upload_def inc_download_def add_traffic_def)

lemma quiet_refl [simp]: "quiet s s"
  by (simp add: quiet_def)

lemma quiet_upd_all: "traffic_only g \<Longrightarrow> quiet s s' \<Longrightarrow> quiet s (upd_all cs g s')"
  by (simp add: quiet_def traffic_only_def upd_all_field [of st_active_tcp] upd_all_field [of st_active_udp])

lemma quiet_upd_stats: "traffic_only g \<Longrightarrow> quiet s s' \<Longrightarrow> quiet s (upd_stats i g s')"
  using quiet_upd_all [of g s s' "[i]"] by simp

lemma quiet_tracker: "quiet s s' \<Longrightarrow> quiet s (upd_tracker uuid g s')"
  by (auto simp: quiet_def upd_tracker_def fmlookup_dom_iff intro: fmdomI split: option.split)

lemma quiet_global: "quiet s s' \<Longrightarrow> quiet s (update_global_traffic up down s')"
  by (simp add: quiet_def update_global_traffic_def)

lemmas quiet_intros = quiet_upd_all quiet_upd_stats quiet_tracker quiet_global

lemma quiet_add: 
  "quiet s s' \<Longrightarrow> quiet s (add_outbound w up down s')" "quiet s s' \<Longrightarrow> quiet s (add_inbound w up down s')"
  "quiet s s' \<Longrightarrow> quiet s (add_extra w up down s')"
  by (simp_all add: add_outbound_def add_inbound_def add_extra_def on_inbound_all on_outbound_all quiet_intros split: option.split)

lemma quiet_traffic:
  "quiet s (stream_poll_read n sw s)" "quiet s (stream_poll_write n sw s)" "quiet s (packet_send n pw s)" "quiet s (packet_recv_many ds pw s)"
  by (simp_all add: stream_poll_read_def stream_poll_write_def packet_send_def packet_recv_many_def packet_recv_def upd_opt_all
      quiet_intros quiet_add)

subsection \<open>The active counters are the live wrappers\<close>

definition tcp_live :: "obs_sys \<Rightarrow> nat \<Rightarrow> nat" where
  "tcp_live y j = count_list (concat (map tcp_cells (oy_wrappers y))) j"

definition udp_live :: "obs_sys \<Rightarrow> nat \<Rightarrow> nat" where
  "udp_live y j = count_list (concat (map (udp_cells (oy_obs y)) (oy_wrappers y))) j"

definition nodes_ok :: "observer \<Rightarrow> bool" where
  "nodes_ok s \<longleftrightarrow>
     (\<forall>tag i. get_inbound_stats tag s = Some i \<longrightarrow> i < length (ob_heap s)) \<and>
     (\<forall>tag i. get_outbound_stats tag s = Some i \<longrightarrow> i < length (ob_heap s))"

definition counters_ok :: "obs_sys \<Rightarrow> bool" where
  "counters_ok y \<longleftrightarrow>
     nodes_ok (oy_obs y) \<and>
     (\<forall>w\<in>set (oy_wrappers y). set (tcp_cells w) \<subseteq> {..<length (ob_heap (oy_obs y))} \<and>
        set (udp_cells (oy_obs y) w) \<subseteq> {..<length (ob_heap (oy_obs y))}) \<and>
     (\<forall>j<length (ob_heap (oy_obs y)).
        st_active_tcp (ob_heap (oy_obs y) ! j) = of_nat (tcp_live y j) \<and>
        st_active_udp (ob_heap (oy_obs y) ! j) = of_nat (udp_live y j))"

lemma udp_cells_cong:
  "ob_inbounds s' = ob_inbounds s \<Longrightarrow> ob_outbounds s' = ob_outbounds s \<Longrightarrow> udp_cells s' = udp_cells s"
  by (rule ext, rename_tac w, case_tac w) (simp_all add: packet_cells_def get_inbound_stats_def get_outbound_stats_def)

lemma nodes_ok_cong:
  "ob_inbounds s' = ob_inbounds s \<Longrightarrow> ob_outbounds s' = ob_outbounds s \<Longrightarrow> length (ob_heap s) \<le> length (ob_heap s') \<Longrightarrow>
     nodes_ok s \<Longrightarrow> nodes_ok s'"
  unfolding nodes_ok_def get_inbound_stats_def get_outbound_stats_def by (metis order_less_le_trans)

lemma counters_quiet: "counters_ok y \<Longrightarrow> quiet (oy_obs y) s' \<Longrightarrow> counters_ok (y\<lparr>oy_obs := s'\<rparr>)"
  using udp_cells_cong [of s' "oy_obs y"] nodes_ok_cong [of s' "oy_obs y"]
  by (simp add: counters_ok_def quiet_def tcp_live_def udp_live_def)

lemma count_concat_update:
  "i < length ws \<Longrightarrow>
     count_list (concat (map f (ws[i := x]))) j + count_list (f (ws ! i)) j = count_list (concat (map f ws)) j + count_list (f x) j"
proof (induction ws arbitrary: i)
  case (Cons a ws)
  then show ?case by (cases i) auto
qed simp

lemma length_cells: "length (tcp_cells w) \<le> 4" "length (udp_cells s w) \<le> 4"
  by (cases w; simp add: stream_cells_def packet_cells_def opt_list_def split: option.split)+

lemma count_bound:
  assumes "\<And>w. length (f w) \<le> 4"
  shows "count_list (concat (map f ws)) j \<le> 4 * length ws"
proof -
  have "length (concat (map f ws)) \<le> 4 * length ws"
  proof (induction ws)
    case (Cons a ws)
    then show ?case using assms [of a] by simp
  qed simp
  with count_le_length show ?thesis by (rule le_trans)
qed

text \<open>Dropping one wrapper.\<close>

lemma drop_counts:
  assumes "i < length ws" and "\<And>w. length (f w) \<le> 4" and "4 * length ws < 2 ^ 64" and "f x = []"
  shows "count_list (f (ws ! i)) j \<le> unat (of_nat (count_list (concat (map f ws)) j) :: u64) \<and>
         (of_nat (count_list (concat (map f ws)) j) - of_nat (count_list (f (ws ! i)) j) :: u64) =
           of_nat (count_list (concat (map f (ws[i := x]))) j)"
proof -
  let ?old = "count_list (concat (map f ws)) j" and ?new = "count_list (concat (map f (ws[i := x]))) j"
  have eq: "?new + count_list (f (ws ! i)) j = ?old" using count_concat_update [OF assms(1), of f x j] assms(4) by simp
  have "?old < 2 ^ 64" by (rule le_less_trans [OF count_bound [OF assms(2)] assms(3)])
  then have u: "unat (of_nat ?old :: u64) = ?old" by (rule unat_of_nat_u64)
  have w: "(of_nat ?old :: u64) = of_nat ?new + of_nat (count_list (f (ws ! i)) j)"
    unfolding eq [symmetric] by (rule of_nat_add)
  show ?thesis
  proof
    show "count_list (f (ws ! i)) j \<le> unat (of_nat ?old :: u64)" unfolding u using eq by linarith
    show "(of_nat ?old - of_nat (count_list (f (ws ! i)) j) :: u64) = of_nat ?new" unfolding w by (rule add_diff_cancel_right')
  qed
qed

text \<open>Opening and dropping.\<close>

lemma counters_stream_drop:
  assumes "counters_ok y" "i < length (oy_wrappers y)" "oy_wrappers y ! i = WStream w" "4 * length (oy_wrappers y) < 2 ^ 64"
  shows "counters_ok (y\<lparr>oy_obs := stream_drop w (oy_obs y), oy_wrappers := (oy_wrappers y)[i := WDropped]\<rparr>)"
proof -
  let ?s = "oy_obs y" and ?s' = "upd_all (stream_cells w) dec_active_tcp (oy_obs y)" and ?ws = "(oy_wrappers y)[i := WDropped]"
  have cells: "set (stream_cells w) \<subseteq> {..<length (ob_heap ?s)}"
    using assms(1-3) nth_mem [OF assms(2)] by (fastforce simp: counters_ok_def)
  have d: "count_list (tcp_cells (WStream w)) j \<le> unat (of_nat (tcp_live y j) :: u64) \<and>
      (of_nat (tcp_live y j) - of_nat (count_list (tcp_cells (WStream w)) j) :: u64) =
        of_nat (count_list (concat (map tcp_cells ?ws)) j)" for j
    using drop_counts [where f = tcp_cells and x = WDropped and j = j, OF assms(2) length_cells(1) assms(4)]
    unfolding tcp_live_def assms(3) by simp
  have tcp: "st_active_tcp (ob_heap ?s' ! j) = of_nat (count_list (concat (map tcp_cells ?ws)) j)"
    if "j < length (ob_heap ?s)" for j
    using tcp.act_dec_all [OF cells, of j] d [of j] assms(1) that by (simp add: counters_ok_def)
  have "count_list (concat (map (udp_cells ?s) ?ws)) j = udp_live y j" for j
    using count_concat_update [OF assms(2), of "udp_cells ?s" WDropped j] assms(3) by (simp add: udp_live_def)
  moreover have "st_active_udp (ob_heap ?s' ! j) = st_active_udp (ob_heap ?s ! j)" for j
    by (rule upd_all_field) (simp add: dec_active_tcp_def)
  ultimately show ?thesis using assms(1) tcp udp_cells_cong [of ?s' ?s] nodes_ok_cong [of ?s' ?s]
    by (auto simp: counters_ok_def tcp_live_def udp_live_def stream_drop_all dest!: subsetD [OF set_update_subset_insert])
qed

lemma counters_packet_drop:
  assumes "counters_ok y" "i < length (oy_wrappers y)" "oy_wrappers y ! i = WPacket w" "4 * length (oy_wrappers y) < 2 ^ 64"
  shows "counters_ok (y\<lparr>oy_obs := packet_drop w (oy_obs y), oy_wrappers := (oy_wrappers y)[i := WDropped]\<rparr>)"
proof -
  let ?s = "oy_obs y" and ?s' = "upd_all (packet_cells (oy_obs y) w) dec_active_udp (oy_obs y)"
    and ?ws = "(oy_wrappers y)[i := WDropped]"
  have cells: "set (packet_cells ?s w) \<subseteq> {..<length (ob_heap ?s)}"
    using assms(1-3) nth_mem [OF assms(2)] by (fastforce simp: counters_ok_def)
  have d: "count_list (udp_cells ?s (WPacket w)) j \<le> unat (of_nat (udp_live y j) :: u64) \<and>
      (of_nat (udp_live y j) - of_nat (count_list (udp_cells ?s (WPacket w)) j) :: u64) =
        of_nat (count_list (concat (map (udp_cells ?s) ?ws)) j)" for j
    using drop_counts [where f = "udp_cells ?s" and x = WDropped and j = j, OF assms(2) length_cells(2) assms(4)]
    unfolding udp_live_def assms(3) by simp
  have udp: "st_active_udp (ob_heap ?s' ! j) = of_nat (count_list (concat (map (udp_cells ?s) ?ws)) j)"
    if "j < length (ob_heap ?s)" for j
    using udp.act_dec_all [OF cells, of j] d [of j] assms(1) that by (simp add: counters_ok_def)
  have "count_list (concat (map tcp_cells ?ws)) j = tcp_live y j" for j
    using count_concat_update [OF assms(2), of tcp_cells WDropped j] assms(3) by (simp add: tcp_live_def)
  moreover have "st_active_tcp (ob_heap ?s' ! j) = st_active_tcp (ob_heap ?s ! j)" for j
    by (rule upd_all_field) (simp add: dec_active_udp_def)
  ultimately show ?thesis using assms(1) udp udp_cells_cong [of ?s' ?s] nodes_ok_cong [of ?s' ?s]
    by (auto simp: counters_ok_def tcp_live_def udp_live_def packet_drop_all dest!: subsetD [OF set_update_subset_insert])
qed

lemma stats_or_default_frame:
  assumes "stats_or_default c s = (i, s')" "\<And>k. c = Some k \<Longrightarrow> k < length (ob_heap s)" "nodes_ok s"
  shows "ob_inbounds s' = ob_inbounds s \<and> ob_outbounds s' = ob_outbounds s \<and> ob_connections s' = ob_connections s \<and>
         ob_global_stats s' = ob_global_stats s \<and> i < length (ob_heap s') \<and>
         (ob_heap s' = ob_heap s \<or> ob_heap s' = ob_heap s @ [stats_default])"
  using assms by (auto simp: stats_or_default_def alloc_stats_def split: option.splits)

text \<open>A new cell is in no wrapper's list and starts at zero.\<close>

lemma counters_alloc:
  assumes "counters_ok y" "ob_inbounds s' = ob_inbounds (oy_obs y)" "ob_outbounds s' = ob_outbounds (oy_obs y)"
    "ob_heap s' = ob_heap (oy_obs y) \<or> ob_heap s' = ob_heap (oy_obs y) @ [stats_default]"
  shows "counters_ok (y\<lparr>oy_obs := s'\<rparr>)"
proof -
  let ?n = "length (ob_heap (oy_obs y))"
  have le: "?n \<le> length (ob_heap s')" using assms(4) by auto
  have "tcp_live y ?n = 0" "udp_live y ?n = 0"
    using assms(1) unfolding counters_ok_def tcp_live_def udp_live_def by (fastforce simp: count_list_0_iff)+
  then have "st_active_tcp (ob_heap s' ! j) = of_nat (tcp_live y j) \<and> st_active_udp (ob_heap s' ! j) = of_nat (udp_live y j)"
    if "j < length (ob_heap s')" for j
    using assms(1,4) that by (auto simp: counters_ok_def nth_append less_Suc_eq stats_default_def)
  moreover have "set cs \<subseteq> {..<length (ob_heap s')}" if "set cs \<subseteq> {..<?n}" for cs using that le by auto
  ultimately show ?thesis using assms(1) udp_cells_cong [OF assms(2,3)] nodes_ok_cong [OF assms(2,3) le]
    by (auto simp: counters_ok_def tcp_live_def udp_live_def)
qed

lemma counters_inc_tcp:
  assumes "counters_ok y" "set (stream_cells w) \<subseteq> {..<length (ob_heap (oy_obs y))}"
  shows "counters_ok (y\<lparr>oy_obs := stream_new w (oy_obs y), oy_wrappers := oy_wrappers y @ [WStream w]\<rparr>)"
proof -
  let ?s' = "upd_all (stream_cells w) inc_active_tcp (oy_obs y)"
  have "st_active_udp (ob_heap ?s' ! j) = st_active_udp (ob_heap (oy_obs y) ! j)" for j
    by (rule upd_all_field) (simp add: inc_active_tcp_def)
  then show ?thesis using assms udp_cells_cong [of ?s' "oy_obs y"] nodes_ok_cong [of ?s' "oy_obs y"] tcp.act_inc_all [OF assms(2)]
    by (auto simp: counters_ok_def stream_new_all tcp_live_def udp_live_def)
qed

lemma counters_inc_udp:
  assumes "counters_ok y" "set (packet_cells (oy_obs y) w) \<subseteq> {..<length (ob_heap (oy_obs y))}"
    "count_list cs = count_list (packet_cells (oy_obs y) w)" "set cs = set (packet_cells (oy_obs y) w)"
  shows "counters_ok (y\<lparr>oy_obs := upd_all cs inc_active_udp (oy_obs y), oy_wrappers := oy_wrappers y @ [WPacket w]\<rparr>)"
proof -
  let ?s' = "upd_all cs inc_active_udp (oy_obs y)"
  have "st_active_tcp (ob_heap ?s' ! j) = st_active_tcp (ob_heap (oy_obs y) ! j)" for j
    by (rule upd_all_field) (simp add: inc_active_udp_def)
  moreover have "set cs \<subseteq> {..<length (ob_heap (oy_obs y))}" using assms(2,4) by simp
  note udp.act_inc_all [OF this]
  ultimately show ?thesis using assms(1-3) udp_cells_cong [of ?s' "oy_obs y"] nodes_ok_cong [of ?s' "oy_obs y"]
    by (auto simp: counters_ok_def tcp_live_def udp_live_def)
qed

lemma packet_cells_ok:
  "nodes_ok s \<Longrightarrow> (\<And>i. op_user w = Some i \<Longrightarrow> i < length (ob_heap s)) \<Longrightarrow> set (packet_cells s w) \<subseteq> {..<length (ob_heap s)}"
  by (auto simp: packet_cells_def nodes_ok_def opt_list_def split: option.splits bind_splits)

lemma may_open_user:
  "may_open uuid d y \<Longrightarrow> u = map_option snd (dp_user d) \<Longrightarrow> u = Some i \<Longrightarrow> i < length (ob_heap (oy_obs y))"
  by (auto simp: may_open_def split: option.splits)

lemma add_connection_conns:
  "ob_connections (add_connection realip (dispatch_tracker uuid now udp d) c s) =
     fmupd uuid \<lparr>cn_tracker = (dispatch_tracker uuid now udp d)
       \<lparr>tk_domain := resolve_domain_for_target realip (dp_final_target d)\<rparr>, cn_closer = c\<rparr> (ob_connections s)"
  by (simp add: add_connection_def dispatch_tracker_def tracker_new_def)

lemma add_connection_new:
  "\<exists>r. ob_connections (add_connection realip (dispatch_tracker uuid now udp d) c s) = fmupd uuid r (ob_connections s) \<and>
     tk_upload (cn_tracker r) = 0 \<and> tk_download (cn_tracker r) = 0"
  by (intro exI conjI, rule add_connection_conns) (simp_all add: dispatch_tracker_def tracker_new_def)

lemma stream_cells_le:
  "ow_stats w < n \<Longrightarrow> (\<And>i. ow_extra w = Some i \<Longrightarrow> i < n) \<Longrightarrow> (\<And>i. ow_user w = Some i \<Longrightarrow> i < n) \<Longrightarrow>
     set (stream_cells w) \<subseteq> {..<n}"
  by (auto simp: stream_cells_def opt_list_def split: option.splits)

lemma wrap_streams:
  assumes "wrap_streams_with_observer realip uuid closer now d (oy_obs y) = (inw, outw, s')"
    "counters_ok y" "may_open uuid d y"
  shows "\<exists>s3. s' = stream_new outw (stream_new inw s3) \<and> counters_ok (y\<lparr>oy_obs := s3\<rparr>) \<and>
           set (stream_cells inw) \<subseteq> {..<length (ob_heap s3)} \<and> set (stream_cells outw) \<subseteq> {..<length (ob_heap s3)} \<and>
           ow_conn inw = uuid \<and> ow_conn outw = uuid \<and> ob_global_stats s3 = ob_global_stats (oy_obs y) \<and>
           (\<exists>r. ob_connections s3 = fmupd uuid r (ob_connections (oy_obs y)) \<and> tk_upload (cn_tracker r) = 0 \<and>
                tk_download (cn_tracker r) = 0)"
proof -
  let ?s = "oy_obs y" and ?st = "stats_tag (dp_outbound_tag d) (dp_outbound_tags d)"
  obtain i s1 where s1: "stats_or_default (get_inbound_stats (dp_inbound_tag d) ?s) ?s = (i, s1)" by fastforce
  obtain j s2 where s2: "stats_or_default (get_outbound_stats ?st s1) s1 = (j, s2)" by fastforce
  let ?ex = "if dp_outbound_tag d \<noteq> ?st then get_outbound_stats (dp_outbound_tag d) s2 else None"
  let ?s3 = "add_connection realip (dispatch_tracker uuid now False d) (Some closer) s2"
  have n0: "nodes_ok ?s" using assms(2) by (simp add: counters_ok_def)
  have f1: "ob_inbounds s1 = ob_inbounds ?s \<and> ob_outbounds s1 = ob_outbounds ?s \<and> ob_connections s1 = ob_connections ?s \<and>
      ob_global_stats s1 = ob_global_stats ?s \<and> i < length (ob_heap s1) \<and>
      (ob_heap s1 = ob_heap ?s \<or> ob_heap s1 = ob_heap ?s @ [stats_default])"
    by (rule stats_or_default_frame [OF s1 _ n0]) (use n0 in \<open>auto simp: nodes_ok_def\<close>)
  then have c1: "counters_ok (y\<lparr>oy_obs := s1\<rparr>)" by (intro counters_alloc [OF assms(2)]) auto
  then have n1: "nodes_ok s1" by (simp add: counters_ok_def)
  have f2: "ob_inbounds s2 = ob_inbounds s1 \<and> ob_outbounds s2 = ob_outbounds s1 \<and> ob_connections s2 = ob_connections s1 \<and>
      ob_global_stats s2 = ob_global_stats s1 \<and> j < length (ob_heap s2) \<and>
      (ob_heap s2 = ob_heap s1 \<or> ob_heap s2 = ob_heap s1 @ [stats_default])"
    by (rule stats_or_default_frame [OF s2 _ n1]) (use n1 in \<open>auto simp: nodes_ok_def\<close>)
  then have "counters_ok (y\<lparr>oy_obs := s1\<rparr>\<lparr>oy_obs := s2\<rparr>)" by (intro counters_alloc [OF c1]) auto
  then have c2: "counters_ok (y\<lparr>oy_obs := s2\<rparr>)" by simp
  then have n2: "nodes_ok s2" by (simp add: counters_ok_def)
  have "counters_ok (y\<lparr>oy_obs := s2\<rparr>\<lparr>oy_obs := ?s3\<rparr>)" by (intro counters_alloc [OF c2]) auto
  then have c3: "counters_ok (y\<lparr>oy_obs := ?s3\<rparr>)" by simp
  have le: "length (ob_heap ?s) \<le> length (ob_heap s2)" "i < length (ob_heap s2)" using f1 f2 by auto
  have w: "inw = \<lparr>ow_stats = i, ow_extra = None, ow_user = map_option snd (dp_user d), ow_conn = uuid, ow_is_inbound = True\<rparr>"
    "outw = \<lparr>ow_stats = j, ow_extra = ?ex, ow_user = None, ow_conn = uuid, ow_is_inbound = False\<rparr>"
    "s' = stream_new outw (stream_new inw ?s3)"
    using assms(1) by (auto simp: wrap_streams_with_observer_def s1 s2 Let_def)
  have "set (stream_cells inw) \<subseteq> {..<length (ob_heap s2)}"
    using le may_open_user [OF assms(3) refl] by (intro stream_cells_le) (auto simp: w)
  moreover have "set (stream_cells outw) \<subseteq> {..<length (ob_heap s2)}"
    using f2 n2 by (intro stream_cells_le) (auto simp: w nodes_ok_def split: if_splits)
  moreover have "\<exists>r. ob_connections ?s3 = fmupd uuid r (ob_connections ?s) \<and> tk_upload (cn_tracker r) = 0 \<and>
      tk_download (cn_tracker r) = 0"
    using add_connection_new [of realip uuid now False d "Some closer" s2] f1 f2 by simp
  ultimately show ?thesis using c3 f1 f2 w by (intro exI [of _ ?s3]) simp
qed

lemma counters_open_tcp:
  assumes "counters_ok y"
  shows "counters_ok (obs_step realip (OpenTcp uuid closer now d) y)"
proof (cases "may_open uuid d y")
  case True
  obtain inw outw s' where w: "wrap_streams_with_observer realip uuid closer now d (oy_obs y) = (inw, outw, s')"
    by (rule prod_cases3)
  obtain s3 where s3: "s' = stream_new outw (stream_new inw s3)" "counters_ok (y\<lparr>oy_obs := s3\<rparr>)"
    "set (stream_cells inw) \<subseteq> {..<length (ob_heap s3)}" "set (stream_cells outw) \<subseteq> {..<length (ob_heap s3)}"
    using wrap_streams [OF w assms True] by blast
  have c: "counters_ok (y\<lparr>oy_obs := stream_new inw s3, oy_wrappers := oy_wrappers y @ [WStream inw]\<rparr>)" (is "counters_ok ?y")
    using counters_inc_tcp [OF s3(2)] s3(3) by simp
  have "counters_ok (?y\<lparr>oy_obs := stream_new outw (oy_obs ?y), oy_wrappers := oy_wrappers ?y @ [WStream outw]\<rparr>)"
    by (rule counters_inc_tcp [OF c]) (use s3(4) in \<open>simp add: stream_new_all\<close>)
  then show ?thesis using True w s3(1) by simp
qed (simp add: assms)

lemma counters_open_udp:
  assumes "counters_ok y"
  shows "counters_ok (obs_step realip (OpenUdp uuid closer now d) y)"
proof (cases "may_open uuid d y")
  case True
  obtain w s' where w: "packet_new realip uuid closer now d (oy_obs y) = (w, s')" by fastforce
  let ?s = "add_connection realip (dispatch_tracker uuid now True d) closer (oy_obs y)"
  obtain cs where cs: "s' = upd_all cs inc_active_udp ?s" "count_list cs = count_list (packet_cells (oy_obs y) w)"
    "set cs = set (packet_cells (oy_obs y) w)" "op_user w = map_option snd (dp_user d)"
    using packet_new_all [OF w] by blast
  have c: "counters_ok (y\<lparr>oy_obs := ?s\<rparr>)" by (intro counters_alloc [OF assms]) auto
  have p: "packet_cells ?s w = packet_cells (oy_obs y) w" by (simp add: packet_cells_def)
  have "set (packet_cells ?s w) \<subseteq> {..<length (ob_heap ?s)}"
    using c may_open_user [OF True cs(4)] by (intro packet_cells_ok) (simp_all add: counters_ok_def)
  then have "counters_ok (y\<lparr>oy_obs := upd_all cs inc_active_udp ?s, oy_wrappers := oy_wrappers y @ [WPacket w]\<rparr>)"
    using counters_inc_udp [OF c, of w cs] cs(2,3) p by simp
  then show ?thesis using True w cs(1) by simp
qed (simp add: assms)

lemma counters_release: "counters_ok y \<Longrightarrow> counters_ok (release uuid y)"
  by (auto simp: release_def counters_ok_def tcp_live_def udp_live_def nodes_ok_def get_inbound_stats_def
      get_outbound_stats_def udp_cells_cong [of "(oy_obs y)\<lparr>ob_connections := _\<rparr>" "oy_obs y"] split: option.split)

lemma counters_step:
  assumes "counters_ok y" "4 * length (oy_wrappers y) < 2 ^ 64"
  shows "counters_ok (obs_step realip e y)"
proof (cases e)
  case (DropWrapper i)
  then show ?thesis
    using assms counters_stream_drop [OF assms(1), of i] counters_packet_drop [OF assms(1), of i]
    by (simp add: drop_wrapper_def counters_release split: wrapper.split)
qed (use assms(1) counters_open_tcp [OF assms(1), of realip] counters_open_udp [OF assms(1), of realip] in
     \<open>auto simp: counters_quiet quiet_traffic simp del: obs_step.simps(1,2) split: wrapper.split\<close>)

lemma wrappers_grow: "length (oy_wrappers (obs_step realip e y)) \<le> length (oy_wrappers y) + 2"
  by (cases e) (auto simp: drop_wrapper_def release_def split: prod.split wrapper.split option.split)

lemma counters_run:
  "counters_ok y \<Longrightarrow> 4 * (length (oy_wrappers y) + 2 * length es) < 2 ^ 64 \<Longrightarrow> counters_ok (obs_run realip es y)"
  unfolding obs_run_def
proof (induction es arbitrary: y)
  case (Cons e es)
  have "counters_ok (obs_step realip e y)" using Cons.prems by (intro counters_step) auto
  moreover have "4 * (length (oy_wrappers (obs_step realip e y)) + 2 * length es) < 2 ^ 64"
    using wrappers_grow [of realip e y] Cons.prems(2) by simp
  ultimately show ?case using Cons.IH by simp
qed simp

subsection \<open>The books balance\<close>

fun st_word :: "direction \<Rightarrow> stats \<Rightarrow> u64" where
  "st_word Up st = st_upload st"
| "st_word Down st = st_download st"

fun tk_word :: "direction \<Rightarrow> conn_tracker \<Rightarrow> u64" where
  "tk_word Up t = tk_upload t"
| "tk_word Down t = tk_download t"

definition conn_sum :: "direction \<Rightarrow> (nat, conn_record) fmap \<Rightarrow> u64" where
  "conn_sum x m = (\<Sum>c\<in>fset (fmdom m). tk_word x (cn_tracker (the (fmlookup m c))))"

lemma conn_sum_new:
  assumes "fmlookup m c = None"
  shows "conn_sum x (fmupd c r m) = conn_sum x m + tk_word x (cn_tracker r)"
proof -
  have "c \<notin> fset (fmdom m)" using assms by (simp add: fmdom_notI)
  moreover from this have "(\<Sum>k\<in>fset (fmdom m). tk_word x (cn_tracker (the (fmlookup (fmupd c r m) k)))) = conn_sum x m"
    unfolding conn_sum_def by (intro sum.cong) auto
  ultimately show ?thesis by (simp add: conn_sum_def)
qed

lemma conn_sum_drop:
  assumes "fmlookup m c = Some r"
  shows "conn_sum x m = conn_sum x (fmdrop c m) + tk_word x (cn_tracker r)"
proof -
  have "fmupd c r (fmdrop c m) = m" using assms by (intro fmap_ext) auto
  then show ?thesis using conn_sum_new [of "fmdrop c m" c x r] by simp
qed

lemma conn_sum_upd:
  assumes "fmlookup m c = Some r"
  shows "conn_sum x (fmupd c r' m) + tk_word x (cn_tracker r) = conn_sum x m + tk_word x (cn_tracker r')"
proof -
  have "fmdrop c (fmupd c r' m) = fmdrop c m" by (intro fmap_ext) auto
  then show ?thesis using conn_sum_drop [of "fmupd c r' m" c r' x] conn_sum_drop [OF assms, of x] by simp
qed

text \<open>A step that adds the same amounts to the global counters and to a connection.\<close>

definition balanced :: "observer \<Rightarrow> observer \<Rightarrow> bool" where
  "balanced s s' \<longleftrightarrow> (\<exists>a. \<forall>x. st_word x (ob_global_stats s') = st_word x (ob_global_stats s) + a x \<and>
     conn_sum x (ob_connections s') = conn_sum x (ob_connections s) + a x)"

lemma balanced_same:
  "ob_global_stats s' = ob_global_stats s \<Longrightarrow> ob_connections s' = ob_connections s \<Longrightarrow> balanced s s'"
  unfolding balanced_def by (intro exI [of _ "\<lambda>_. 0"]) simp

lemma upd_tracker_global [simp]:
  "ob_global_stats (upd_tracker c g s) = ob_global_stats s"
  "ob_connections (update_global_traffic up down s) = ob_connections s"
  "ob_global_stats (update_global_traffic up down s) = add_traffic up down (ob_global_stats s)"
  by (simp_all add: upd_tracker_def update_global_traffic_def split: option.split)

lemma upd_tracker_sum:
  assumes "c |\<in>| fmdom (ob_connections s)"
  shows "conn_sum x (ob_connections (upd_tracker c (tk_inc_upload n) s)) = conn_sum x (ob_connections s) + (if x = Up then n else 0)"
    "conn_sum x (ob_connections (upd_tracker c (tk_inc_download n) s)) = conn_sum x (ob_connections s) + (if x = Down then n else 0)"
proof -
  obtain r where r: "fmlookup (ob_connections s) c = Some r" using assms by (auto simp: fmlookup_dom_iff)
  note conn_sum_upd [OF r, of x "r\<lparr>cn_tracker := g (cn_tracker r)\<rparr>" for g]
  from this [of "tk_inc_upload n"] this [of "tk_inc_download n"]
  show "conn_sum x (ob_connections (upd_tracker c (tk_inc_upload n) s)) = conn_sum x (ob_connections s) + (if x = Up then n else 0)"
    "conn_sum x (ob_connections (upd_tracker c (tk_inc_download n) s)) = conn_sum x (ob_connections s) + (if x = Down then n else 0)"
    using r by (cases x; simp add: upd_tracker_def tk_inc_upload_def tk_inc_download_def algebra_simps)+
qed

lemma st_word_add: "st_word x (add_traffic up down st) = st_word x st + (case x of Up \<Rightarrow> up | Down \<Rightarrow> down)"
  by (cases x) (simp_all add: add_traffic_def)

lemma balanced_tracker:
  assumes "c |\<in>| fmdom (ob_connections s)"
  shows "ob_connections s' = ob_connections (upd_tracker c (tk_inc_upload n) s) \<Longrightarrow>
           ob_global_stats s' = add_traffic n 0 (ob_global_stats s) \<Longrightarrow> balanced s s'"
    "ob_connections s' = ob_connections (upd_tracker c (tk_inc_download n) s) \<Longrightarrow>
           ob_global_stats s' = add_traffic 0 n (ob_global_stats s) \<Longrightarrow> balanced s s'"
  unfolding balanced_def
  by (rule exI [of _ "\<lambda>x. if x = Up then n else 0"], simp add: upd_tracker_sum [OF assms] st_word_add split: direction.split)
    (rule exI [of _ "\<lambda>x. if x = Down then n else 0"], simp add: upd_tracker_sum [OF assms] st_word_add split: direction.split)

definition bump :: "nat \<Rightarrow> (conn_tracker \<Rightarrow> conn_tracker) \<Rightarrow> (nat, conn_record) fmap \<Rightarrow> (nat, conn_record) fmap" where
  "bump c g m = (case fmlookup m c of None \<Rightarrow> m | Some r \<Rightarrow> fmupd c (r\<lparr>cn_tracker := g (cn_tracker r)\<rparr>) m)"

lemma upd_tracker_conns: "ob_connections (upd_tracker c g s) = bump c g (ob_connections s)"
  by (simp add: upd_tracker_def bump_def split: option.split)

lemma add_frame [simp]:
  "ob_connections (add_outbound w up down s) = ob_connections s" "ob_global_stats (add_outbound w up down s) = ob_global_stats s"
  "ob_connections (add_inbound w up down s) = ob_connections s" "ob_global_stats (add_inbound w up down s) = ob_global_stats s"
  "ob_connections (add_extra w up down s) = ob_connections s" "ob_global_stats (add_extra w up down s) = ob_global_stats s"
  by (simp_all add: add_outbound_def add_inbound_def add_extra_def on_inbound_all on_outbound_all split: option.split)

lemma balanced_stream:
  assumes "ow_conn w |\<in>| fmdom (ob_connections s)"
  shows "balanced s (stream_poll_read n w s)" "balanced s (stream_poll_write n w s)"
proof -
  show "balanced s (stream_poll_read n w s)"
  proof (cases "0 < n \<and> ow_is_inbound w")
    case True
    then show ?thesis by (intro balanced_tracker(1) [OF assms, of _ n])
        (simp_all add: stream_poll_read_def upd_opt_all upd_tracker_conns)
  qed (auto simp: stream_poll_read_def upd_opt_all intro!: balanced_same)
  show "balanced s (stream_poll_write n w s)"
  proof (cases "0 < n \<and> ow_is_inbound w")
    case True
    then show ?thesis by (intro balanced_tracker(2) [OF assms, of _ n])
        (simp_all add: stream_poll_write_def upd_opt_all upd_tracker_conns)
  qed (auto simp: stream_poll_write_def upd_opt_all intro!: balanced_same)
qed

lemma balanced_packet:
  assumes "op_conn w |\<in>| fmdom (ob_connections s)"
  shows "balanced s (packet_send n w s)" "balanced s (packet_recv_many ds w s)"
  by (rule balanced_tracker(1) [OF assms, of _ n]; simp add: packet_send_def upd_opt_all upd_tracker_conns)
    (rule balanced_tracker(2) [OF assms]; simp add: packet_recv_many_def packet_recv_def upd_opt_all upd_tracker_conns)

text \<open>Every connection of the map has a live wrapper, every live wrapper a connection, and the global
  counters are the sum over the open and the removed connections.\<close>

definition books_ok :: "(direction \<Rightarrow> u64) \<Rightarrow> obs_sys \<Rightarrow> bool" where
  "books_ok base y \<longleftrightarrow>
     Some ` fset (fmdom (ob_connections (oy_obs y))) = wrapper_conn ` set (oy_wrappers y) - {None} \<and>
     (\<forall>x. st_word x (ob_global_stats (oy_obs y)) =
        base x + conn_sum x (ob_connections (oy_obs y)) + sum_list (map (tk_word x) (oy_done y)))"

lemma books_conn:
  "books_ok base y \<Longrightarrow> w \<in> set (oy_wrappers y) \<Longrightarrow> wrapper_conn w = Some c \<Longrightarrow> c |\<in>| fmdom (ob_connections (oy_obs y))"
  unfolding books_ok_def by (metis (no_types, lifting) DiffI image_iff option.distinct(1) option.inject singletonD)

lemma books_balanced:
  "books_ok base y \<Longrightarrow> balanced (oy_obs y) s' \<Longrightarrow> fmdom (ob_connections s') = fmdom (ob_connections (oy_obs y)) \<Longrightarrow>
     books_ok base (y\<lparr>oy_obs := s'\<rparr>)"
  by (auto simp: books_ok_def balanced_def)

lemma books_add:
  assumes "books_ok base y" "fmlookup (ob_connections (oy_obs y)) c = None"
    "ob_connections s' = fmupd c r (ob_connections (oy_obs y))" "tk_upload (cn_tracker r) = 0" "tk_download (cn_tracker r) = 0"
    "ob_global_stats s' = ob_global_stats (oy_obs y)" "wrapper_conn ` set ws = {Some c}"
  shows "books_ok base (y\<lparr>oy_obs := s', oy_wrappers := oy_wrappers y @ ws\<rparr>)"
proof -
  have "tk_word x (cn_tracker r) = 0" for x using assms(4,5) by (cases x) simp_all
  then show ?thesis using assms(1,6,7) conn_sum_new [OF assms(2), of _ r] by (auto simp: books_ok_def assms(3) image_Un)
qed

lemma image_update:
  "i < length ws \<Longrightarrow> f (ws ! i) = Some c \<Longrightarrow> f x = None \<Longrightarrow>
     f ` set (ws[i := x]) - {None, Some c} = f ` set ws - {None, Some c}"
proof (induction ws arbitrary: i)
  case (Cons a ws)
  show ?case
  proof (cases i)
    case 0
    then show ?thesis using Cons.prems by auto
  next
    case (Suc k)
    then have "f ` set (ws[k := x]) - {None, Some c} = f ` set ws - {None, Some c}" using Cons by simp
    then show ?thesis using Suc by (simp add: insert_Diff_if)
  qed
qed simp

lemma without_one: "A - {None, z} = B - {None, z} \<Longrightarrow> z \<in> A \<Longrightarrow> z \<in> B \<Longrightarrow> A - {None} = B - {None}"
  by blast

lemma books_drop:
  assumes "books_ok base y" "i < length (oy_wrappers y)" "wrapper_conn (oy_wrappers y ! i) = Some c"
    "ob_connections s' = ob_connections (oy_obs y)" "ob_global_stats s' = ob_global_stats (oy_obs y)"
  shows "books_ok base (release c (y\<lparr>oy_obs := s', oy_wrappers := (oy_wrappers y)[i := WDropped]\<rparr>))"
proof -
  let ?ws = "(oy_wrappers y)[i := WDropped]" and ?m = "ob_connections (oy_obs y)"
  have rest: "wrapper_conn ` set ?ws - {None, Some c} = wrapper_conn ` set (oy_wrappers y) - {None, Some c}"
    by (rule image_update [where f = wrapper_conn, OF assms(2,3)]) simp
  have c: "c |\<in>| fmdom ?m" using books_conn [OF assms(1)] assms(2,3) nth_mem by blast
  then obtain r where r: "fmlookup ?m c = Some r" by (auto simp: fmlookup_dom_iff)
  have dom: "Some ` fset (fmdom ?m) = wrapper_conn ` set (oy_wrappers y) - {None}" using assms(1) by (simp add: books_ok_def)
  show ?thesis
  proof (cases "Some c \<in> wrapper_conn ` set ?ws")
    case True
    have "Some c \<in> wrapper_conn ` set (oy_wrappers y)" using assms(2,3) nth_mem by (metis image_eqI)
    with True have "wrapper_conn ` set ?ws - {None} = wrapper_conn ` set (oy_wrappers y) - {None}" by (rule without_one [OF rest])
    then show ?thesis using assms(1,4,5) True by (simp add: release_def books_ok_def)
  next
    case False
    then have "wrapper_conn ` set ?ws - {None} = wrapper_conn ` set ?ws - {None, Some c}" by blast
    also have "\<dots> = Some ` fset (fmdom ?m) - {Some c}" unfolding rest dom by blast
    also have "\<dots> = Some ` (fset (fmdom ?m) - {c})" by blast
    finally have "wrapper_conn ` set ?ws - {None} = Some ` (fset (fmdom ?m) - {c})" .
    then show ?thesis using assms(1,4,5) False r conn_sum_drop [OF r]
      by (auto simp: release_def books_ok_def algebra_simps)
  qed
qed

lemma books_step:
  assumes "books_ok base y" "counters_ok y"
  shows "books_ok base (obs_step realip e y)"
proof (cases e)
  case (OpenTcp uuid closer now d)
  show ?thesis
  proof (cases "may_open uuid d y")
    case True
    obtain inw outw s' where w: "wrap_streams_with_observer realip uuid closer now d (oy_obs y) = (inw, outw, s')"
      by (rule prod_cases3)
    obtain s3 r where s3: "s' = stream_new outw (stream_new inw s3)" "ow_conn inw = uuid" "ow_conn outw = uuid"
      "ob_global_stats s3 = ob_global_stats (oy_obs y)" "ob_connections s3 = fmupd uuid r (ob_connections (oy_obs y))"
      "tk_upload (cn_tracker r) = 0" "tk_download (cn_tracker r) = 0"
      using wrap_streams [OF w assms(2) True] by blast
    have "books_ok base (y\<lparr>oy_obs := s', oy_wrappers := oy_wrappers y @ [WStream inw, WStream outw]\<rparr>)"
      by (rule books_add [OF assms(1), where r = r and c = uuid]) (use True s3 in \<open>simp_all add: may_open_def stream_new_all\<close>)
    then show ?thesis using OpenTcp True w by simp
  qed (simp add: OpenTcp assms(1))
next
  case (OpenUdp uuid closer now d)
  show ?thesis
  proof (cases "may_open uuid d y")
    case True
    obtain w s' where w: "packet_new realip uuid closer now d (oy_obs y) = (w, s')" by fastforce
    let ?s = "add_connection realip (dispatch_tracker uuid now True d) closer (oy_obs y)"
    obtain cs where s': "s' = upd_all cs inc_active_udp ?s" "op_conn w = uuid" using packet_new_all [OF w] by blast
    obtain r where r: "ob_connections ?s = fmupd uuid r (ob_connections (oy_obs y))" "tk_upload (cn_tracker r) = 0"
      "tk_download (cn_tracker r) = 0"
      using add_connection_new [of realip uuid now True d closer "oy_obs y"] by blast
    have "books_ok base (y\<lparr>oy_obs := s', oy_wrappers := oy_wrappers y @ [WPacket w]\<rparr>)"
      by (rule books_add [OF assms(1), where r = r and c = uuid]) (use True s' r in \<open>simp_all add: may_open_def\<close>)
    then show ?thesis using OpenUdp True w by simp
  qed (simp add: OpenUdp assms(1))
next
  case (DropWrapper i)
  then show ?thesis using assms(1) books_drop [OF assms(1), of i]
    by (simp add: drop_wrapper_def stream_drop_all packet_drop_all split: wrapper.split)
qed (use books_conn [OF assms(1) nth_mem] quiet_traffic in
     \<open>auto simp: quiet_def assms(1) intro!: books_balanced balanced_stream balanced_packet split: wrapper.split\<close>)

lemma books_run:
  "books_ok base y \<Longrightarrow> counters_ok y \<Longrightarrow> 4 * (length (oy_wrappers y) + 2 * length es) < 2 ^ 64 \<Longrightarrow>
     books_ok base (obs_run realip es y)"
  unfolding obs_run_def
proof (induction es arbitrary: y)
  case (Cons e es)
  have "counters_ok (obs_step realip e y)" using Cons.prems by (intro counters_step) auto
  moreover have "4 * (length (oy_wrappers (obs_step realip e y)) + 2 * length es) < 2 ^ 64"
    using wrappers_grow [of realip e y] Cons.prems(3) by simp
  ultimately show ?case using Cons.IH books_step Cons.prems(1,2) by simp
qed simp

subsection \<open>Properties\<close>

text \<open>An observer with its nodes and users registered and no connection yet.\<close>

definition obs_idle :: "observer \<Rightarrow> bool" where
  "obs_idle s \<longleftrightarrow> nodes_ok s \<and> ob_connections s = fmempty \<and>
     (\<forall>st\<in>set (ob_heap s). st_active_tcp st = 0 \<and> st_active_udp st = 0)"

definition obs_start :: "observer \<Rightarrow> obs_sys" where
  "obs_start s = \<lparr>oy_obs = s, oy_wrappers = [], oy_done = []\<rparr>"

lemma obs_start_ok:
  assumes "obs_idle s"
  shows "counters_ok (obs_start s) \<and> books_ok (\<lambda>x. st_word x (ob_global_stats s)) (obs_start s)"
  using assms by (auto simp: obs_idle_def obs_start_def counters_ok_def books_ok_def tcp_live_def udp_live_def conn_sum_def)

text \<open>C26. After any sequence of connections opened, bytes counted and wrappers dropped, the active TCP and UDP
  counters of every inbound, outbound and user are the numbers of live wrappers that count
  there: no connection is leaked or released twice.\<close>

theorem active_counters_exact:
  assumes "obs_idle s" "8 * length es < 2 ^ 64" "y = obs_run realip es (obs_start s)" "j < length (ob_heap (oy_obs y))"
  shows "unat (st_active_tcp (ob_heap (oy_obs y) ! j)) = tcp_live y j \<and>
         unat (st_active_udp (ob_heap (oy_obs y) ! j)) = udp_live y j"
proof -
  have len: "length (oy_wrappers (obs_run realip es z)) \<le> length (oy_wrappers z) + 2 * length es" for z
    unfolding obs_run_def
  proof (induction es arbitrary: z)
    case (Cons e es)
    show ?case using Cons [of "obs_step realip e z"] wrappers_grow [of realip e z] by simp
  qed simp
  have "4 * length (oy_wrappers y) < 2 ^ 64" using len [of "obs_start s"] assms(2,3) by (simp add: obs_start_def)
  then have "tcp_live y j < 2 ^ 64" "udp_live y j < 2 ^ 64"
    unfolding tcp_live_def udp_live_def by (auto intro: le_less_trans [OF count_bound] length_cells)
  moreover have "counters_ok y"
    using counters_run [of "obs_start s" es realip] obs_start_ok [OF assms(1)] assms(2,3) by (simp add: obs_start_def)
  ultimately show ?thesis using assms(4) by (simp add: counters_ok_def unat_of_nat_u64)
qed

text \<open>C27. The connections the API lists are those with a live wrapper, and what the global counters
  grew by is what the open and the removed connections carried, in each direction.\<close>

theorem traffic_books_balance:
  assumes "obs_idle s" "8 * length es < 2 ^ 64" "y = obs_run realip es (obs_start s)"
  shows "(\<forall>c. fmlookup (ob_connections (oy_obs y)) c \<noteq> None \<longleftrightarrow> (\<exists>w\<in>set (oy_wrappers y). wrapper_conn w = Some c)) \<and>
         (\<forall>x. st_word x (ob_global_stats (oy_obs y)) =
            st_word x (ob_global_stats s) + conn_sum x (ob_connections (oy_obs y)) + sum_list (map (tk_word x) (oy_done y)))"
proof -
  have b: "books_ok (\<lambda>x. st_word x (ob_global_stats s)) y"
    using books_run [of _ "obs_start s" es realip] obs_start_ok [OF assms(1)] assms(2,3) by (simp add: obs_start_def)
  then have "Some ` fset (fmdom (ob_connections (oy_obs y))) = wrapper_conn ` set (oy_wrappers y) - {None}"
    by (simp add: books_ok_def)
  then have "Some c \<in> Some ` fset (fmdom (ob_connections (oy_obs y))) \<longleftrightarrow> Some c \<in> wrapper_conn ` set (oy_wrappers y)" for c
    by auto
  then have "fmlookup (ob_connections (oy_obs y)) c \<noteq> None \<longleftrightarrow> (\<exists>w\<in>set (oy_wrappers y). wrapper_conn w = Some c)" for c
    by (simp add: image_iff fmlookup_dom_iff eq_commute [of "Some _" "wrapper_conn _"])
  then show ?thesis using b by (simp add: books_ok_def)
qed

definition sample_nodes :: observer where
  "sample_nodes = register_outbound (str ''leaf'') (str ''d'')
     (register_outbound (str ''sel'') (str ''s'') (register_inbound (str ''mix'') (str ''m'') (observer_new None)))"

definition sample_dispatch :: dispatch where
  "sample_dispatch = \<lparr>dp_inbound_tag = str ''mix'', dp_outbound_tag = str ''sel'', dp_outbound_tags = [str ''sel'', str ''leaf''],
     dp_matched_idx = None, dp_final_target = Domain (str ''a'') 80, dp_target = Domain (str ''a'') 80, dp_is_fakeip = False,
     dp_user = None\<rparr>"

definition sample_traffic :: "obs_event list" where
  "sample_traffic = [OpenTcp 1 1 0 sample_dispatch, OpenUdp 2 None 0 sample_dispatch, StreamRead 0 5, StreamWrite 1 5,
     PacketSend 2 7, DropWrapper 0, DropWrapper 2]"

lemma sample_nodes_idle: "obs_idle sample_nodes"
  by (auto simp: obs_idle_def sample_nodes_def register_outbound_def register_inbound_def observer_new_def alloc_stats_def
      nodes_ok_def get_inbound_stats_def get_outbound_stats_def str_def stats_default_def)

lemma sample_heap: "length (ob_heap (oy_obs (obs_run (\<lambda>_. None) sample_traffic (obs_start sample_nodes)))) = 3"
  by code_simp

theorem active_counters_exact_witness:
  "unat (st_active_tcp (ob_heap (oy_obs (obs_run (\<lambda>_. None) sample_traffic (obs_start sample_nodes))) ! 2)) =
     tcp_live (obs_run (\<lambda>_. None) sample_traffic (obs_start sample_nodes)) 2 \<and>
   tcp_live (obs_run (\<lambda>_. None) sample_traffic (obs_start sample_nodes)) 2 = 1"
proof -
  have "tcp_live (obs_run (\<lambda>_. None) sample_traffic (obs_start sample_nodes)) 2 = 1" by code_simp
  then show ?thesis using active_counters_exact [OF sample_nodes_idle _ refl, of sample_traffic 2 "\<lambda>_. None"] sample_heap
    by (simp add: sample_traffic_def)
qed

theorem traffic_books_balance_witness:
  "st_word Up (ob_global_stats (oy_obs (obs_run (\<lambda>_. None) sample_traffic (obs_start sample_nodes)))) =
     conn_sum Up (ob_connections (oy_obs (obs_run (\<lambda>_. None) sample_traffic (obs_start sample_nodes)))) + 7"
proof -
  have "map (tk_word Up) (oy_done (obs_run (\<lambda>_. None) sample_traffic (obs_start sample_nodes))) = [7]"
    "st_word Up (ob_global_stats sample_nodes) = 0"
    by code_simp+
  then show ?thesis using traffic_books_balance [OF sample_nodes_idle _ refl, of sample_traffic "\<lambda>_. None"]
    by (simp add: sample_traffic_def)
qed

end
