(* ===== verification/Selector.thy ===== *)
theory Selector
  imports Observed Bound_Config
begin

text \<open>
  The selector and urltest outbounds (\<open>src/src/proxy/outbound/selector.rs\<close>). A selector holds
  other outbounds, among them other selectors, and the index of the one in use, which a user,
  a latency test or a failed connection changes. A change closes the connections that go through the selector
  and is remembered in the cache. Outbounds are nodes of a list and refer to each other by index;
  a selector is made after the outbounds it refers to. Whether a leaf can be connected is a parameter.
\<close>

subsection \<open>State\<close>

datatype selector_type = SManual | SUrlTest

record selector =
  sl_tag :: bytes
  sl_type :: selector_type
  sl_default_outbound :: bytes
  sl_outbounds :: "nat list"
  sl_outbound_tags :: "bytes list"
  sl_selected_index :: nat
  sl_has_completed_test :: bool
  sl_cache :: bool
  sl_interval :: u64
  sl_tolerance :: u64
  sl_dns :: "bytes option"

datatype out_node = OLeaf bytes | OSel selector

record sel_sys =
  sy_nodes :: "out_node list"
  sy_registry :: "(bytes, nat) fmap"
  sy_observer :: "observer option"
  sy_db :: shared_db

fun node_tag :: "out_node \<Rightarrow> bytes" where
  "node_tag (OLeaf tag) = tag"
| "node_tag (OSel sl) = sl_tag sl"

definition SELECTED_KEY :: bytes where "SELECTED_KEY = str ''selected''"

subsection \<open>Construction\<close>

datatype selector_error = RequiresDefault | RequiresOutbounds | UnknownOutbound bytes | NoOutbound

definition cached_selection :: "(bytes \<Rightarrow> bytes option) \<Rightarrow> bytes \<Rightarrow> bytes list \<Rightarrow> bytes \<Rightarrow> shared_db \<Rightarrow> bytes \<times> shared_db" where
  "cached_selection decd tag tags dflt db =
     (case get_entry decd tag db SELECTED_KEY of
        (Some (Some t), db') \<Rightarrow> (if t \<in> set tags then t else dflt, db')
      | (_, db') \<Rightarrow> (dflt, db'))"

fun find_outbounds :: "(bytes, nat) fmap \<Rightarrow> bytes list \<Rightarrow> selector_error + nat list" where
  "find_outbounds reg [] = Inr []"
| "find_outbounds reg (t # ts) =
     (case fmlookup reg t of
        None \<Rightarrow> Inl (UnknownOutbound t)
      | Some i \<Rightarrow> bindr (find_outbounds reg ts) (\<lambda>outs. Inr (i # outs)))"

text \<open>The loop keeps the last index whose tag is the selected one, or zero.\<close>

definition selected_of :: "bytes \<Rightarrow> bytes list \<Rightarrow> nat" where
  "selected_of t tags = fold (\<lambda>i acc. if tags ! i = t then i else acc) [0..<length tags] 0"

definition selector_new :: "(bytes \<Rightarrow> bytes option) \<Rightarrow> bytes \<Rightarrow> outbound_config \<Rightarrow> sel_sys \<Rightarrow> (selector_error + selector) \<times> sel_sys" where
  "selector_new decd tag cfg s =
     (case outbound_config.ob_default_outbound cfg of
        None \<Rightarrow> (Inl RequiresDefault, s)
      | Some dflt \<Rightarrow>
     (case outbound_config.ob_outbounds cfg of
        None \<Rightarrow> (Inl RequiresOutbounds, s)
      | Some tags \<Rightarrow>
     (let has_cache = (ob_cache cfg \<noteq> None);
          (t, db) = (if has_cache then cached_selection decd tag tags dflt (sy_db s) else (dflt, sy_db s));
          s1 = s\<lparr>sy_db := db\<rparr>;
          ty = (if ob_type cfg = str ''urltest'' then SUrlTest else SManual)
      in case find_outbounds (sy_registry s) tags of
           Inl e \<Rightarrow> (Inl e, s1)
         | Inr outs \<Rightarrow>
             if outs = [] then (Inl NoOutbound, s1)
             else (Inr \<lparr>sl_tag = tag, sl_type = ty, sl_default_outbound = dflt, sl_outbounds = outs,
                      sl_outbound_tags = tags, sl_selected_index = selected_of t tags, sl_has_completed_test = False,
                      sl_cache = has_cache, sl_interval = (case ob_interval cfg of Some n \<Rightarrow> n | None \<Rightarrow> 3600),
                      sl_tolerance = (case ty of SManual \<Rightarrow> 0 | SUrlTest \<Rightarrow> (case ob_tolerance cfg of Some n \<Rightarrow> n | None \<Rightarrow> 50)),
                      sl_dns = ob_dns cfg\<rparr>, s1))))"

subsection \<open>Changing the selection\<close>

definition get_sel :: "nat \<Rightarrow> sel_sys \<Rightarrow> selector option" where
  "get_sel i s = (if i < length (sy_nodes s) then (case sy_nodes s ! i of OSel sl \<Rightarrow> Some sl | OLeaf _ \<Rightarrow> None) else None)"

definition put_sel :: "nat \<Rightarrow> selector \<Rightarrow> sel_sys \<Rightarrow> sel_sys" where
  "put_sel i sl s = s\<lparr>sy_nodes := (sy_nodes s)[i := OSel sl]\<rparr>"

text \<open>The latency of the node in use becomes the selector's own.\<close>

definition sync_selected_trace :: "selector \<Rightarrow> sel_sys \<Rightarrow> sel_sys" where
  "sync_selected_trace sl s =
     (case sy_observer s of
        None \<Rightarrow> s
      | Some ob \<Rightarrow>
          (let selected_tag = node_tag (sy_nodes s ! (sl_outbounds sl ! (sl_selected_index sl mod length (sl_outbounds sl)))) in
           case get_outbound_stats selected_tag ob of
             None \<Rightarrow> s
           | Some c \<Rightarrow>
               if fmlookup (sy_registry s) (sl_tag sl) = None then s
               else s\<lparr>sy_observer :=
                   Some (on_outbound (\<lambda>st. st\<lparr>st_latency_ms := st_latency_ms (ob_heap ob ! c)\<rparr>) (sl_tag sl) ob)\<rparr>))"

text \<open>An index out of range is a panic, here \<open>None\<close>.\<close>

definition update_selected_by_index :: "(bytes \<Rightarrow> bytes) \<Rightarrow> (nat fset \<Rightarrow> nat list) \<Rightarrow> nat \<Rightarrow> nat \<Rightarrow> sel_sys \<Rightarrow> sel_sys option" where
  "update_selected_by_index enc uorder i new_idx s =
     (case get_sel i s of
        None \<Rightarrow> None
      | Some sl \<Rightarrow>
          (let old_idx = sl_selected_index sl; sl' = sl\<lparr>sl_selected_index := new_idx\<rparr>; s1 = put_sel i sl' s in
           if old_idx = new_idx then Some s1
           else if length (sl_outbounds sl) \<le> new_idx \<or> length (sl_outbounds sl) \<le> old_idx then None
           else
             (let selected_tag = node_tag (sy_nodes s ! (sl_outbounds sl ! new_idx));
                  s2 = sync_selected_trace sl' s1;
                  s3 = (case sy_observer s2 of
                          None \<Rightarrow> s2
                        | Some ob \<Rightarrow> s2\<lparr>sy_observer := Some (kill_connections_by_outbound uorder (sl_tag sl) ob)\<rparr>)
              in Some (if sl_cache sl then s3\<lparr>sy_db := snd (set_entry enc (sl_tag sl) (sy_db s3) SELECTED_KEY selected_tag)\<rparr>
                       else s3))))"

fun position :: "'a \<Rightarrow> 'a list \<Rightarrow> nat option" where
  "position x [] = None"
| "position x (y # ys) = (if x = y then Some 0 else map_option Suc (position x ys))"

definition select_by_tag :: "(bytes \<Rightarrow> bytes) \<Rightarrow> (nat fset \<Rightarrow> nat list) \<Rightarrow> nat \<Rightarrow> bytes \<Rightarrow> sel_sys \<Rightarrow> (bool \<times> sel_sys) option" where
  "select_by_tag enc uorder i tag s =
     (case get_sel i s of
        None \<Rightarrow> None
      | Some sl \<Rightarrow>
          (case position tag (sl_outbound_tags sl) of
             Some idx \<Rightarrow> map_option (\<lambda>s'. (True, s')) (update_selected_by_index enc uorder i idx s)
           | None \<Rightarrow> Some (False, s)))"

subsection \<open>The latency test\<close>

definition I64_MAX :: int where "I64_MAX = 2 ^ 63 - 1"

definition i64_saturating_add :: "int \<Rightarrow> int \<Rightarrow> int" where
  "i64_saturating_add a b = min I64_MAX (a + b)"

definition tolerance_limit :: "u64 \<Rightarrow> int \<Rightarrow> int" where
  "tolerance_limit tol min_latency =
     i64_saturating_add min_latency (if int (unat tol) \<le> I64_MAX then int (unat tol) else I64_MAX)"

definition best_index :: "selector \<Rightarrow> (nat \<times> int) list \<Rightarrow> nat" where
  "best_index sl reachable =
     (case hd reachable of (min_idx, min_latency) \<Rightarrow>
        if \<not> sl_has_completed_test sl then min_idx
        else case find (\<lambda>(idx, _). idx = sl_selected_index sl) reachable of
            Some (_, latency) \<Rightarrow> (if latency \<le> tolerance_limit (sl_tolerance sl) min_latency then sl_selected_index sl else min_idx)
          | None \<Rightarrow> min_idx)"

definition reselect_node_by_info :: "(bytes \<Rightarrow> bytes) \<Rightarrow> (nat fset \<Rightarrow> nat list) \<Rightarrow> nat \<Rightarrow> (nat \<times> int) list \<Rightarrow> sel_sys \<Rightarrow> sel_sys option" where
  "reselect_node_by_info enc uorder i results s =
     (case get_sel i s of
        None \<Rightarrow> None
      | Some sl \<Rightarrow>
          if results = [] then Some s
          else if sl_type sl \<noteq> SUrlTest then Some s
          else let reachable = filter (\<lambda>(_, l). 0 < l) (sort_key snd results) in
            if reachable = [] then Some s
            else update_selected_by_index enc uorder i (best_index sl reachable)
                   (put_sel i (sl\<lparr>sl_has_completed_test := True\<rparr>) s))"

text \<open>\<open>check_all\<close> with the results that arrived before the deadline.\<close>

definition check_all :: "(bytes \<Rightarrow> bytes) \<Rightarrow> (nat fset \<Rightarrow> nat list) \<Rightarrow> nat \<Rightarrow> (nat \<times> int) list \<Rightarrow> sel_sys \<Rightarrow> sel_sys option" where
  "check_all enc uorder i results s =
     (if sy_observer s = None then Some s
      else Option.bind (reselect_node_by_info enc uorder i results s) (\<lambda>s'.
        map_option (\<lambda>sl. sync_selected_trace sl s') (get_sel i s')))"

subsection \<open>The path in use\<close>



subsection \<open>Connecting\<close>



subsection \<open>Well-formed outbounds\<close>

definition sel_ok :: "out_node list \<Rightarrow> nat \<Rightarrow> selector \<Rightarrow> bool" where
  "sel_ok nodes i sl \<longleftrightarrow>
     sl_outbounds sl \<noteq> [] \<and> length (sl_outbound_tags sl) = length (sl_outbounds sl) \<and>
     sl_selected_index sl < length (sl_outbounds sl) \<and> (\<forall>c\<in>set (sl_outbounds sl). c < i) \<and>
     sl_outbound_tags sl = map (\<lambda>c. node_tag (nodes ! c)) (sl_outbounds sl)"

definition sel_wf :: "out_node list \<Rightarrow> bool" where
  "sel_wf nodes \<longleftrightarrow> (\<forall>i<length nodes. \<forall>sl. nodes ! i = OSel sl \<longrightarrow> sel_ok nodes i sl)"

text \<open>What a change of selections leaves alone: everything but the tests done and the index of a urltest.\<close>

fun shape :: "out_node \<Rightarrow> out_node" where
  "shape (OLeaf tag) = OLeaf tag"
| "shape (OSel sl) = OSel (sl\<lparr>sl_has_completed_test := False,
     sl_selected_index := (case sl_type sl of SManual \<Rightarrow> sl_selected_index sl | SUrlTest \<Rightarrow> 0)\<rparr>)"

lemma get_sel_Some: "get_sel i s = Some sl \<longleftrightarrow> i < length (sy_nodes s) \<and> sy_nodes s ! i = OSel sl"
  by (auto simp: get_sel_def split: out_node.splits)

lemma sel_okD:
  assumes "sel_wf nodes" "i < length nodes" "nodes ! i = OSel sl"
  shows "sel_ok nodes i sl"
  using assms by (simp add: sel_wf_def)

lemma sel_child:
  assumes "sel_wf nodes" "i < length nodes" "nodes ! i = OSel sl" "k < length (sl_outbounds sl)"
  shows "sl_outbounds sl ! k < i" "sl_outbounds sl ! k < length nodes"
  using sel_okD [OF assms(1-3)] nth_mem [OF assms(4)] assms(2) by (auto simp: sel_ok_def)

lemma node_tag_select: "node_tag (OSel (sl\<lparr>sl_selected_index := k\<rparr>)) = node_tag (OSel sl)"
  by simp

lemma nth_tag_update:
  "node_tag x = node_tag (nodes ! i) \<Longrightarrow> node_tag (nodes[i := x] ! j) = node_tag (nodes ! j)"
  by (cases "i < length nodes"; cases "i = j") (simp_all add: list_update_beyond)

lemma sel_wf_update:
  assumes "sel_wf nodes" "i < length nodes" "nodes ! i = OSel sl" "sel_ok nodes i sl'" "sl_tag sl' = sl_tag sl"
  shows "sel_wf (nodes[i := OSel sl'])"
  using assms by (auto simp: sel_wf_def sel_ok_def nth_list_update nth_tag_update)

lemma sync_frame [simp]:
  "sy_nodes (sync_selected_trace sl s) = sy_nodes s" "sy_registry (sync_selected_trace sl s) = sy_registry s"
  "sy_db (sync_selected_trace sl s) = sy_db s"
  by (simp_all add: sync_selected_trace_def Let_def split: option.split)

lemma update_selected:
  assumes "sel_wf (sy_nodes s)" "get_sel i s = Some sl" "k < length (sl_outbounds sl)"
  obtains s' where "update_selected_by_index enc uorder i k s = Some s'"
    "sy_nodes s' = (sy_nodes s)[i := OSel (sl\<lparr>sl_selected_index := k\<rparr>)]" "sy_registry s' = sy_registry s" "sel_wf (sy_nodes s')"
proof -
  have n: "i < length (sy_nodes s)" "sy_nodes s ! i = OSel sl" using assms(2) by (auto simp: get_sel_Some)
  note ok = sel_okD [OF assms(1) n]
  have "sel_ok (sy_nodes s) i (sl\<lparr>sl_selected_index := k\<rparr>)" using ok assms(3) by (simp add: sel_ok_def)
  then have "sel_wf ((sy_nodes s)[i := OSel (sl\<lparr>sl_selected_index := k\<rparr>)])" by (intro sel_wf_update [OF assms(1) n]) simp_all
  moreover have "sl_selected_index sl < length (sl_outbounds sl)" using ok by (simp add: sel_ok_def)
  then have "\<exists>s'. update_selected_by_index enc uorder i k s = Some s' \<and>
      sy_nodes s' = (sy_nodes s)[i := OSel (sl\<lparr>sl_selected_index := k\<rparr>)] \<and> sy_registry s' = sy_registry s"
    using assms(2,3) by (auto simp: update_selected_by_index_def Let_def put_sel_def split: option.split)
  ultimately show thesis using that by metis
qed

subsection \<open>Failover\<close>

primrec leaves :: "nat \<Rightarrow> out_node list \<Rightarrow> nat \<Rightarrow> nat set" where
  "leaves 0 nodes i = {}"
| "leaves (Suc n) nodes i =
     (case nodes ! i of
        OLeaf _ \<Rightarrow> {i}
      | OSel sl \<Rightarrow>
          (case sl_type sl of
             SManual \<Rightarrow> leaves n nodes (sl_outbounds sl ! sl_selected_index sl)
           | SUrlTest \<Rightarrow> (\<Union>c\<in>set (sl_outbounds sl). leaves n nodes c)))"


lemma shape_sel:
  assumes "shape (OSel a) = shape (OSel b)"
  shows "sl_type a = sl_type b" "sl_outbounds a = sl_outbounds b" "sl_type a = SManual \<Longrightarrow> sl_selected_index a = sl_selected_index b"
  using assms by (cases a; cases b; simp split: selector_type.splits)+

lemma shape_cases:
  assumes "shape x = shape y"
  obtains tag where "x = OLeaf tag" "y = OLeaf tag"
  | a b where "x = OSel a" "y = OSel b" "sl_type a = sl_type b" "sl_outbounds a = sl_outbounds b"
      "sl_type a = SManual \<Longrightarrow> sl_selected_index a = sl_selected_index b"
proof (cases x)
  case (OLeaf tag)
  then show thesis using assms that(1) [of tag] by (cases y) auto
next
  case (OSel a)
  note x = OSel
  show thesis
  proof (cases y)
    case (OSel b)
    then have "shape (OSel a) = shape (OSel b)" using assms x by simp
    then show thesis using that(2) [OF x OSel] shape_sel by blast
  qed (use assms x in auto)
qed


lemma leaves_shape:
  assumes "map shape nodes = map shape nodes'" "sel_wf nodes" "i < length nodes"
  shows "leaves n nodes i = leaves n nodes' i"
  using assms(3)
proof (induction n arbitrary: i)
  case (Suc n)
  have "shape (nodes ! i) = shape (nodes' ! i)" using assms(1) Suc.prems by (metis length_map nth_map)
  then show ?case
  proof (cases rule: shape_cases)
    case (2 a b)
    have "sl_selected_index a < length (sl_outbounds a)" using sel_okD [OF assms(2) Suc.prems 2(1)] by (simp add: sel_ok_def)
    then have "leaves n nodes (sl_outbounds a ! sl_selected_index a) = leaves n nodes' (sl_outbounds a ! sl_selected_index a)"
      using Suc.IH sel_child(2) [OF assms(2) Suc.prems 2(1)] by blast
    moreover have "c < length nodes" if "c \<in> set (sl_outbounds a)" for c
      using that sel_okD [OF assms(2) Suc.prems 2(1)] Suc.prems by (auto simp: sel_ok_def)
    ultimately show ?thesis using 2 Suc.IH by (auto split: selector_type.split)
  qed simp
qed simp








lemma sync_observer:
  "sy_observer s = Some ob \<Longrightarrow> \<exists>ob'. sy_observer (sync_selected_trace sl s) = Some ob' \<and> ob_connections ob' = ob_connections ob"
  by (auto simp: sync_selected_trace_def Let_def on_outbound_def split: option.split)

lemma position_Some: "position x xs = Some k \<Longrightarrow> k < length xs \<and> xs ! k = x"
  by (induction xs arbitrary: k) (auto split: if_splits)

lemma selected_fold:
  "(\<exists>i\<in>set ks. xs ! i = t) \<or> xs ! a = t \<Longrightarrow> xs ! fold (\<lambda>i acc. if xs ! i = t then i else acc) ks a = t"
  by (induction ks arbitrary: a) auto

lemma selected_of_tag: "t \<in> set tags \<Longrightarrow> tags ! selected_of t tags = t"
  unfolding selected_of_def by (rule selected_fold) (auto simp: in_set_conv_nth)

lemma update_changed:
  assumes "update_selected_by_index enc uorder i k s = Some s'" "get_sel i s = Some sl" "sl_selected_index sl \<noteq> k"
  shows "(\<forall>ob. sy_observer s = Some ob \<longrightarrow> (\<exists>ob1. ob_connections ob1 = ob_connections ob \<and>
            sy_observer s' = Some (kill_connections_by_outbound uorder (sl_tag sl) ob1))) \<and>
         (sl_cache sl \<longrightarrow> sy_db s' = snd (set_entry enc (sl_tag sl) (sy_db s) SELECTED_KEY
            (node_tag (sy_nodes s ! (sl_outbounds sl ! k))))) \<and>
         sy_registry s' = sy_registry s"
proof -
  let ?sl = "sl\<lparr>sl_selected_index := k\<rparr>" and ?s1 = "put_sel i (sl\<lparr>sl_selected_index := k\<rparr>) s"
  let ?s2 = "sync_selected_trace ?sl ?s1"
  have o: "sy_observer ?s1 = sy_observer s" "sy_db ?s2 = sy_db s" "sy_registry ?s2 = sy_registry s" by (simp_all add: put_sel_def)
  have s': "s' = (let s3 = (case sy_observer ?s2 of None \<Rightarrow> ?s2
              | Some ob \<Rightarrow> ?s2\<lparr>sy_observer := Some (kill_connections_by_outbound uorder (sl_tag sl) ob)\<rparr>)
      in if sl_cache sl then s3\<lparr>sy_db := snd (set_entry enc (sl_tag sl) (sy_db s3) SELECTED_KEY
            (node_tag (sy_nodes s ! (sl_outbounds sl ! k))))\<rparr> else s3)"
    using assms by (simp add: update_selected_by_index_def Let_def split: if_splits)
  have "\<exists>ob1. sy_observer ?s2 = Some ob1 \<and> ob_connections ob1 = ob_connections ob" if "sy_observer s = Some ob" for ob
    using sync_observer [of ?s1 ob ?sl] that o(1) by simp
  then show ?thesis using o(2,3) unfolding s' Let_def by (cases "sy_observer s") (auto split: option.split)
qed

subsection \<open>Properties\<close>



text \<open>A selection survives a restart: a selector made again from the same configuration after the change uses the
  outbound that was selected.\<close>

theorem selector_selection_persists:
  assumes "sel_wf (sy_nodes s)" "get_sel i s = Some sl" "sl_cache sl" "db_faults (sy_db s) = []" "\<And>v. decd (enc v) = Some v"
    and "select_by_tag enc uorder i tag s = Some (True, s')" "sl_outbound_tags sl ! sl_selected_index sl \<noteq> tag"
    and "selector_new decd (sl_tag sl) cfg s' = (Inr sl', s'')"
    and "ob_cache cfg \<noteq> None" "outbound_config.ob_outbounds cfg = Some (sl_outbound_tags sl)"
  shows "sl_outbound_tags sl' ! sl_selected_index sl' = tag"
proof -
  obtain k where k: "position tag (sl_outbound_tags sl) = Some k" "update_selected_by_index enc uorder i k s = Some s'"
    using assms(2,6) by (auto simp: select_by_tag_def split: option.splits)
  note pos = position_Some [OF k(1)]
  have ok: "sel_ok (sy_nodes s) i sl" using sel_okD [OF assms(1)] assms(2) by (simp add: get_sel_Some)
  have "node_tag (sy_nodes s ! (sl_outbounds sl ! k)) = tag" using ok pos by (auto simp: sel_ok_def)
  then have db: "sy_db s' = snd (set_entry enc (sl_tag sl) (sy_db s) SELECTED_KEY tag)"
    using update_changed [OF k(2) assms(2)] assms(3,7) pos by metis
  then have "cached_selection decd (sl_tag sl) (sl_outbound_tags sl) dflt (sy_db s') = (tag, snd (next_txn (sy_db s')))" for dflt
    using assms(4,5) pos nth_mem [of k "sl_outbound_tags sl"]
    by (auto simp: cached_selection_def get_entry_def set_entry_def cache_write_def next_txn_def)
  then have sl': "sl_outbound_tags sl' = sl_outbound_tags sl" "sl_selected_index sl' = selected_of tag (sl_outbound_tags sl)"
    using assms(8-10) by (auto simp: selector_new_def Let_def split: option.splits sum.splits if_splits)
  show ?thesis unfolding sl' using pos by (intro selected_of_tag) (metis nth_mem)
qed

lemma sorted_hd_min: "sorted_wrt (\<lambda>x y. snd x \<le> snd y) (x # xs) \<Longrightarrow> y \<in> set (x # xs) \<Longrightarrow> snd x \<le> (snd y :: int)"
  by auto

lemma tolerance_mono: "a \<le> b \<Longrightarrow> tolerance_limit tol a \<le> tolerance_limit tol b"
  by (simp add: tolerance_limit_def i64_saturating_add_def)

lemma tolerance_ge: "a \<le> I64_MAX \<Longrightarrow> a \<le> tolerance_limit tol a"
  by (simp add: tolerance_limit_def i64_saturating_add_def I64_MAX_def)

lemma reachable_min:
  assumes "reachable = filter (\<lambda>(_, l). 0 < l) (sort_key snd results)" "reachable \<noteq> []" "(j, m) \<in> set results" "0 < m"
  shows "snd (hd reachable) \<le> (m :: int)"
proof -
  have "sorted_wrt (\<lambda>x y. snd x \<le> snd y) (sort_key snd results)"
    using sorted_sort_key [of snd results] unfolding sorted_wrt_map .
  then have "sorted_wrt (\<lambda>x y. snd x \<le> snd y) reachable" unfolding assms(1) by (rule sorted_wrt_filter)
  moreover have "(j, m) \<in> set reachable" using assms(1,3,4) by simp
  ultimately show ?thesis using assms(2) sorted_hd_min [of "hd reachable" "tl reachable" "(j, m)"] by simp
qed

text \<open>After a latency test in which some outbound answered, a urltest uses an outbound that answered; after the
  first such test it is the fastest, later one no slower than the fastest plus the
  tolerance (computed without overflow).\<close>

theorem urltest_reselects:
  assumes "sel_wf (sy_nodes s)" "get_sel i s = Some sl" "sl_type sl = SUrlTest"
    and "\<forall>(j, m)\<in>set results. j < length (sl_outbounds sl) \<and> m \<le> I64_MAX" "\<exists>(j, m)\<in>set results. 0 < m"
  shows "\<exists>s' sl' l. reselect_node_by_info enc uorder i results s = Some s' \<and> get_sel i s' = Some sl' \<and>
           (sl_selected_index sl', l) \<in> set results \<and> 0 < l \<and>
           (\<forall>(j, m)\<in>set results. 0 < m \<longrightarrow> l \<le> (if sl_has_completed_test sl then tolerance_limit (sl_tolerance sl) m else m))"
proof -
  let ?re = "filter (\<lambda>(_, l). 0 < l) (sort_key snd results)" and ?sl = "sl\<lparr>sl_has_completed_test := True\<rparr>"
  let ?s = "put_sel i ?sl s" and ?b = "best_index sl (filter (\<lambda>(_, l). 0 < l) (sort_key snd results))"
  have ne: "?re \<noteq> []" "results \<noteq> []" using assms(5) by (auto simp: filter_empty_conv)
  obtain mi ml where hd: "hd ?re = (mi, ml)" by fastforce
  then have mem: "(mi, ml) \<in> set results" "0 < ml" using hd_in_set [OF ne(1)] by auto
  have least: "ml \<le> m" if "(j, m) \<in> set results" "0 < m" for j m
    using reachable_min [OF refl ne(1) that] hd by simp
  have "\<exists>l. (?b, l) \<in> set results \<and> 0 < l \<and>
      (l = ml \<or> sl_has_completed_test sl \<and> l \<le> tolerance_limit (sl_tolerance sl) ml)"
    using mem by (auto simp: best_index_def hd dest!: find_Some_P split: option.split)
  then obtain l where l: "(?b, l) \<in> set results" "0 < l"
    "l = ml \<or> sl_has_completed_test sl \<and> l \<le> tolerance_limit (sl_tolerance sl) ml" by blast
  have bound: "l \<le> (if sl_has_completed_test sl then tolerance_limit (sl_tolerance sl) m else m)" if "(j, m) \<in> set results" "0 < m" for j m
    using l(3) least [OF that] tolerance_mono [OF least [OF that], of "sl_tolerance sl"]
      tolerance_ge [of ml "sl_tolerance sl"] assms(4) mem(1) by auto
  have n: "i < length (sy_nodes s)" "sy_nodes s ! i = OSel sl" using assms(2) by (auto simp: get_sel_Some)
  have "sel_ok (sy_nodes s) i ?sl" using sel_okD [OF assms(1) n] by (simp add: sel_ok_def)
  then have wf: "sel_wf (sy_nodes ?s)" unfolding put_sel_def by (simp, intro sel_wf_update [OF assms(1) n]) simp_all
  have gs: "get_sel i ?s = Some ?sl" using n by (simp add: get_sel_Some put_sel_def)
  have "?b < length (sl_outbounds ?sl)" using l(1) assms(4) by auto
  then obtain s' where s': "update_selected_by_index enc uorder i ?b ?s = Some s'"
    "sy_nodes s' = (sy_nodes ?s)[i := OSel (?sl\<lparr>sl_selected_index := ?b\<rparr>)]"
    using update_selected [OF wf gs, of ?b] by metis
  have "reselect_node_by_info enc uorder i results s = Some s'"
    using s'(1) ne assms(2,3) by (simp add: reselect_node_by_info_def)
  moreover have "get_sel i s' = Some (?sl\<lparr>sl_selected_index := ?b\<rparr>)" using s'(2) n by (simp add: get_sel_Some put_sel_def)
  ultimately show ?thesis using l(1,2) bound by (intro exI [of _ s'] exI [of _ "?sl\<lparr>sl_selected_index := ?b\<rparr>"] exI [of _ l]) auto
qed

definition sample_urltest :: selector where
  "sample_urltest = \<lparr>sl_tag = str ''auto'', sl_type = SUrlTest, sl_default_outbound = str ''a'', sl_outbounds = [0, 1],
     sl_outbound_tags = [str ''a'', str ''b''], sl_selected_index = 0, sl_has_completed_test = True, sl_cache = True,
     sl_interval = 3600, sl_tolerance = 50, sl_dns = None\<rparr>"

definition sample_tracker :: conn_tracker where
  "sample_tracker = tracker_new 4 (str ''mix'') [str ''auto'', str ''a''] None (Domain (str ''x'') 80) (Domain (str ''x'') 80)
     False False 0"

definition sample_sel_sys :: sel_sys where
  "sample_sel_sys = \<lparr>sy_nodes = [OLeaf (str ''a''), OLeaf (str ''b''), OSel sample_urltest],
     sy_registry = fmap_of_list [(str ''a'', 0), (str ''b'', 1), (str ''auto'', 2)],
     sy_observer = Some ((observer_new None)\<lparr>ob_connections := fmap_of_list [(4, \<lparr>cn_tracker = sample_tracker, cn_closer = Some 9\<rparr>)]\<rparr>),
     sy_db = \<lparr>db_tables = fmempty, db_durable = fmempty, db_dirty = False, db_faults = []\<rparr>\<rparr>"

lemma sample_sel_wf: "sel_wf (sy_nodes sample_sel_sys)"
  by (auto simp: sel_wf_def sel_ok_def sample_sel_sys_def sample_urltest_def less_Suc_eq nth_Cons')

lemma sample_sel: "get_sel 2 sample_sel_sys = Some sample_urltest"
  by (simp add: get_sel_Some sample_sel_sys_def)



definition sample_sel_cfg :: outbound_config where
  "sample_sel_cfg = sample_outbound\<lparr>ob_type := str ''urltest'', outbound_config.ob_outbounds := Some [str ''a'', str ''b''],
     outbound_config.ob_default_outbound := Some (str ''a''), ob_cache := Some (str ''c'')\<rparr>"

definition sample_switched :: sel_sys where
  "sample_switched = snd (the (select_by_tag id (\<lambda>_. []) 2 (str ''b'') sample_sel_sys))"

definition sample_restarted :: selector where
  "sample_restarted = (case fst (selector_new Some (str ''auto'') sample_sel_cfg sample_switched) of Inr sl \<Rightarrow> sl | Inl _ \<Rightarrow> sample_urltest)"

lemma sample_switches:
  "(case select_by_tag id (\<lambda>_. []) 2 (str ''b'') sample_sel_sys of Some (b, _) \<Rightarrow> b | None \<Rightarrow> False) \<and>
   (case fst (selector_new Some (str ''auto'') sample_sel_cfg sample_switched) of Inr _ \<Rightarrow> True | Inl _ \<Rightarrow> False)"
  by code_simp

lemma sample_sel_fields:
  "ob_cache sample_sel_cfg \<noteq> None" "outbound_config.ob_outbounds sample_sel_cfg = Some (sl_outbound_tags sample_urltest)"
  "sl_cache sample_urltest" "db_faults (sy_db sample_sel_sys) = []"
  "sl_outbound_tags sample_urltest ! sl_selected_index sample_urltest \<noteq> str ''b''"
  by (simp_all add: sample_sel_cfg_def sample_urltest_def sample_sel_sys_def)

theorem selector_selection_persists_witness:
  "sl_outbound_tags sample_restarted ! sl_selected_index sample_restarted = str ''b''"
proof -
  have sel: "select_by_tag id (\<lambda>_. []) 2 (str ''b'') sample_sel_sys = Some (True, sample_switched)"
    using conjunct1 [OF sample_switches] unfolding sample_switched_def by (auto split: option.splits prod.splits)
  have "sl_tag sample_urltest = str ''auto''" by (simp add: sample_urltest_def)
  moreover obtain r s'' where r: "selector_new Some (str ''auto'') sample_sel_cfg sample_switched = (r, s'')" by fastforce
  moreover have "r = Inr sample_restarted"
    using conjunct2 [OF sample_switches] r unfolding sample_restarted_def by (cases r) simp_all
  ultimately have new: "selector_new Some (sl_tag sample_urltest) sample_sel_cfg sample_switched = (Inr sample_restarted, s'')"
    by (simp del: str_Cons)
  show ?thesis
    by (rule selector_selection_persists [OF sample_sel_wf sample_sel sample_sel_fields(3,4) _ sel sample_sel_fields(5) new
          sample_sel_fields(1,2)]) simp
qed

theorem urltest_reselects_witness:
  "\<exists>s' sl' l. reselect_node_by_info id some_order 2 [(0, 90), (1, 30)] sample_sel_sys = Some s' \<and> get_sel 2 s' = Some sl' \<and>
     (sl_selected_index sl', l) \<in> set [(0, 90), (1, 30)] \<and> l \<le> tolerance_limit 50 30"
  using urltest_reselects [OF sample_sel_wf sample_sel, of "[(0, 90), (1, 30)]" id some_order]
  by (simp add: sample_urltest_def I64_MAX_def) blast

end
