(* ===== verification/Http_Inbound.thy ===== *)
theory Http_Inbound
  imports Socks5 Read_Ahead
begin

text \<open>
  The HTTP inbound (\<open>src/src/proxy/inbound/http.rs\<close>), the inbound that serves HTTP and SOCKS5 on one
  port (\<open>mix.rs\<close>) and the stream that gives back bytes read too far
  (\<open>PrefixedReadStream\<close> of \<open>src/src/utils/mod.rs\<close>). The request parser (the httparse crate) and
  the base64 decoder are parameters; what is used of the parser is that a head is complete at
  its end and not before, whatever follows.
\<close>

subsection \<open>Bytes read too far\<close>

record prefixed =
  ps_stream :: stream
  ps_prefix :: bytes

definition prefixed_new :: "stream \<Rightarrow> bytes \<Rightarrow> prefixed" where
  "prefixed_new st prefix = \<lparr>ps_stream = st, ps_prefix = prefix\<rparr>"

text \<open>One \<open>poll_read\<close> with room for \<open>n\<close> bytes; what the socket has and does not fit stays there.\<close>

definition prefixed_poll_read :: "nat \<Rightarrow> prefixed \<Rightarrow> poll_read \<times> prefixed" where
  "prefixed_poll_read n p =
     (if ps_prefix p \<noteq> [] then (Data (take n (ps_prefix p)), p\<lparr>ps_prefix := drop n (ps_prefix p)\<rparr>)
      else case ps_stream p of
          [] \<Rightarrow> (Data [], p)
        | Pending # st \<Rightarrow> (Pending, p\<lparr>ps_stream := st\<rparr>)
        | Failed # st \<Rightarrow> (Failed, p\<lparr>ps_stream := st\<rparr>)
        | Data d # st \<Rightarrow>
            (Data (take n d), p\<lparr>ps_stream := (if drop n d = [] then st else Data (drop n d) # st)\<rparr>))"

definition prefixed_content :: "prefixed \<Rightarrow> bytes" where
  "prefixed_content p = ps_prefix p @ wire (ps_stream p)"

subsection \<open>Requests\<close>

record http_head =
  hh_method :: "bytes option"
  hh_path :: "bytes option"
  hh_offset :: nat
  hh_headers :: "(bytes \<times> bytes) list"

datatype http_status = HComplete http_head | HPartial | HInvalid

datatype http_error = InvalidRequest | AuthFailed | BadTarget | NoHost | HttpIo

text \<open>A served request: where to and the stream to forward; nothing when the client closed before a
  complete head.\<close>

datatype http_result = HServe target_addr prefixed | HClosed | HErr http_error

definition crlf :: bytes where "crlf = [13, 10]"

definition RESPONSE_407 :: bytes where
  "RESPONSE_407 = str ''HTTP/1.1 407 Proxy Authentication Required'' @ crlf @ str ''Proxy-Authenticate: Basic realm='' @ [34] @
     str ''Proxy'' @ [34] @ crlf @ str ''Content-Length: 0'' @ crlf @ crlf"

definition RESPONSE_200 :: bytes where
  "RESPONSE_200 = str ''HTTP/1.1 200 Connection Established'' @ crlf @ crlf"

definition unwrap_or_empty :: "bytes option \<Rightarrow> bytes" where
  "unwrap_or_empty x = (case x of Some b \<Rightarrow> b | None \<Rightarrow> [])"

definition find_header :: "bytes \<Rightarrow> http_head \<Rightarrow> bytes option" where
  "find_header name h =
     map_option (\<lambda>(_, v). unwrap_or_empty (from_utf8 v)) (find (\<lambda>(n, _). eq_ignore_ascii_case n name) (hh_headers h))"

definition strip_prefix :: "bytes \<Rightarrow> bytes \<Rightarrow> bytes option" where
  "strip_prefix pre s = (if take (length pre) s = pre then Some (drop (length pre) s) else None)"

definition parse_target :: "bytes \<Rightarrow> target_addr option" where
  "parse_target path =
     (case parse_socket_addr path of
        Some addr \<Rightarrow> Some (Ip addr)
      | None \<Rightarrow>
          (case rsplit_colon path of
             None \<Rightarrow> None
           | Some (h, port_str) \<Rightarrow> map_option (\<lambda>p. Domain h (of_nat p)) (parse_uint 65535 port_str)))"

text \<open>The common part of \<open>parse_host_header\<close> and \<open>parse_url_target\<close>.\<close>

definition host_or_default :: "bytes \<Rightarrow> u16 \<Rightarrow> target_addr" where
  "host_or_default h dport =
     (case parse_socket_addr h of
        Some addr \<Rightarrow> Ip addr
      | None \<Rightarrow>
          (case rsplit_colon h of
             None \<Rightarrow> Domain h dport
           | Some (d, port_str) \<Rightarrow>
               (case parse_uint 65535 port_str of Some p \<Rightarrow> Domain d (of_nat p) | None \<Rightarrow> Domain h dport)))"

definition parse_host_header :: "bytes \<Rightarrow> target_addr" where
  "parse_host_header h = host_or_default h 80"

definition parse_url_target :: "bytes \<Rightarrow> target_addr" where
  "parse_url_target url =
     (let without_scheme =
            (case strip_prefix (str ''http://'') url of
               Some rest \<Rightarrow> rest
             | None \<Rightarrow> (case strip_prefix (str ''https://'') url of Some rest \<Rightarrow> rest | None \<Rightarrow> url));
          host_port = takeWhile (\<lambda>b. b \<noteq> 0x2F) without_scheme
      in host_or_default host_port (if strip_prefix (str ''https://'') url \<noteq> None then 443 else 80))"

definition http_authorized :: "(bytes \<Rightarrow> bytes option) \<Rightarrow> socks_user list \<Rightarrow> bytes option \<Rightarrow> bool" where
  "http_authorized b64 users auth =
     (case Option.bind auth (strip_prefix (str ''Basic '')) of
        None \<Rightarrow> False
      | Some encoded \<Rightarrow>
          (case Option.bind (b64 (trim encoded)) from_utf8 of
             None \<Rightarrow> False
           | Some creds \<Rightarrow>
               (case split_once 0x3A creds of
                  None \<Rightarrow> False
                | Some (u, p) \<Rightarrow> list_ex (\<lambda>user. su_username user = u \<and> su_password user = p) users)))"

text \<open>The part of \<open>handle_client\<close> after the head: the bytes written to the client and the
  outcome. \<open>wok\<close> tells whether \<open>write_all\<close> succeeds.\<close>

definition http_request :: "(bytes \<Rightarrow> bytes option) \<Rightarrow> bool \<Rightarrow> socks_user list option \<Rightarrow> http_head \<Rightarrow> bytes \<Rightarrow> stream \<Rightarrow> bytes \<times> http_result" where
  "http_request b64 wok users h buf st =
     (let mthd = unwrap_or_empty (hh_method h); path = unwrap_or_empty (hh_path h) in
      if (case users of None \<Rightarrow> False | Some us \<Rightarrow> \<not> http_authorized b64 us (find_header (str ''Proxy-Authorization'') h))
      then (if wok then (RESPONSE_407, HErr AuthFailed) else ([], HErr HttpIo))
      else if mthd = str ''CONNECT'' then
        (case parse_target path of
           None \<Rightarrow> ([], HErr BadTarget)
         | Some target \<Rightarrow>
             if wok then (RESPONSE_200, HServe target (prefixed_new st (drop (hh_offset h) buf))) else ([], HErr HttpIo))
      else if strip_prefix (str ''http://'') path \<noteq> None \<or> strip_prefix (str ''https://'') path \<noteq> None
      then ([], HServe (parse_url_target path) (prefixed_new st buf))
      else case find_header (str ''Host'') h of
          Some hst \<Rightarrow> ([], HServe (parse_host_header hst) (prefixed_new st buf))
        | None \<Rightarrow> ([], HErr NoHost))"

fun http_handle_client :: "(bytes \<Rightarrow> http_status) \<Rightarrow> (bytes \<Rightarrow> bytes option) \<Rightarrow> bool \<Rightarrow> socks_user list option \<Rightarrow> bytes \<Rightarrow> stream \<Rightarrow>
    bytes \<times> http_result" where
  "http_handle_client parse b64 wok users buf [] = ([], HClosed)"
| "http_handle_client parse b64 wok users buf (Pending # st) = http_handle_client parse b64 wok users buf st"
| "http_handle_client parse b64 wok users buf (Failed # st) = ([], HErr HttpIo)"
| "http_handle_client parse b64 wok users buf (Data d # st) =
     (if d = [] then ([], HClosed)
      else case parse (buf @ d) of
          HComplete h \<Rightarrow> http_request b64 wok users h (buf @ d) st
        | HPartial \<Rightarrow> http_handle_client parse b64 wok users (buf @ d) st
        | HInvalid \<Rightarrow> ([], HErr InvalidRequest))"

subsection \<open>Both protocols on one port\<close>

text \<open>The first byte, which is peeked and stays in the stream, decides; no byte counts as zero.\<close>

datatype mix_protocol = MixSocks5 | MixHttp

definition mix_choose :: "bytes \<Rightarrow> mix_protocol" where
  "mix_choose w = (if w \<noteq> [] \<and> hd w = 5 then MixSocks5 else MixHttp)"

datatype mix_result =
    MixSocks "bytes \<times> ((socks_error + socks5_handler option) \<times> bytes) option"
  | MixWeb "bytes \<times> http_result"

definition mix_handle :: "(bytes \<Rightarrow> http_status) \<Rightarrow> (bytes \<Rightarrow> bytes option) \<Rightarrow> bool \<Rightarrow> (socket_addr \<Rightarrow> socket_addr option) \<Rightarrow>
    socket_addr \<Rightarrow> socket_addr option \<Rightarrow> socks_user list option \<Rightarrow> stream \<Rightarrow> mix_result" where
  "mix_handle parse b64 wok bind peer loc users st =
     (case mix_choose (wire st) of
        MixSocks5 \<Rightarrow> MixSocks (run_on (socks5_handle_client bind peer loc users) (wire st))
      | MixHttp \<Rightarrow> MixWeb (http_handle_client parse b64 wok users [] st))"

subsection \<open>Reading the stream back\<close>

text \<open>Reading with any buffer sizes gives the prefix, then what the socket delivers.\<close>

fun read_back :: "nat list \<Rightarrow> prefixed \<Rightarrow> bytes \<times> prefixed" where
  "read_back [] p = ([], p)"
| "read_back (n # ns) p =
     (case prefixed_poll_read n p of
        (Data d, p') \<Rightarrow> (case read_back ns p' of (ds, p'') \<Rightarrow> (d @ ds, p''))
      | (_, p') \<Rightarrow> read_back ns p')"

lemma prefixed_poll_content:
  assumes "prefixed_poll_read n p = (r, p')" "Failed \<notin> set (ps_stream p)" "Data [] \<notin> set (ps_stream p)" "0 < n"
  shows "prefixed_content p = (case r of Data d \<Rightarrow> d | _ \<Rightarrow> []) @ prefixed_content p' \<and>
         Failed \<notin> set (ps_stream p') \<and> Data [] \<notin> set (ps_stream p')"
  using assms
  by (auto simp: prefixed_poll_read_def prefixed_content_def split: if_splits list.splits poll_read.splits)

lemma read_back_content:
  assumes "read_back ns p = (ds, p')" "Failed \<notin> set (ps_stream p)" "Data [] \<notin> set (ps_stream p)" "0 \<notin> set ns"
  shows "prefixed_content p = ds @ prefixed_content p'"
  using assms
proof (induction ns arbitrary: p ds)
  case (Cons n ns)
  obtain r q where r: "prefixed_poll_read n p = (r, q)" by fastforce
  have c: "prefixed_content p = (case r of Data d \<Rightarrow> d | _ \<Rightarrow> []) @ prefixed_content q"
    "Failed \<notin> set (ps_stream q)" "Data [] \<notin> set (ps_stream q)"
    using prefixed_poll_content [OF r Cons.prems(2,3)] Cons.prems(4) by auto
  show ?case
  proof (cases "read_back ns q")
    case (Pair es q')
    then show ?thesis using Cons.IH [of q] Cons.prems(1,4) c r by (cases r) auto
  qed
qed simp

subsection \<open>Any fragmentation of a request\<close>

definition head_laws :: "(bytes \<Rightarrow> http_status) \<Rightarrow> bool" where
  "head_laws parse \<longleftrightarrow>
     (\<forall>b h. parse b = HComplete h \<longrightarrow> 0 < hh_offset h \<and> hh_offset h \<le> length b \<and> (\<forall>x. parse (b @ x) = HComplete h)) \<and>
     (\<forall>b x h. parse (b @ x) = HComplete h \<longrightarrow> length b < hh_offset h \<longrightarrow> parse b = HPartial) \<and>
     (\<forall>b x h. parse (b @ x) = HComplete h \<longrightarrow> hh_offset h \<le> length b \<longrightarrow> parse b = HComplete h)"

lemma http_head_reached:
  assumes "head_laws parse" "parse (buf @ wire st) = HComplete h" "length buf < hh_offset h"
  shows "\<exists>buf' st'. http_handle_client parse b64 wok users buf st = http_request b64 wok users h buf' st' \<and>
           buf' @ wire st' = buf @ wire st \<and> hh_offset h \<le> length buf'"
  using assms(2,3)
proof (induction st arbitrary: buf)
  case Nil
  then show ?case using assms(1) unfolding head_laws_def by (metis append_Nil2 not_less wire.simps(1))
next
  case (Cons r st)
  have nonempty: "wire (r # st) \<noteq> []" using Cons.prems assms(1) unfolding head_laws_def by (metis append_Nil2 not_less)
  show ?case
  proof (cases r)
    case Pending
    then show ?thesis using Cons by simp
  next
    case Failed
    then show ?thesis using nonempty by simp
  next
    case (Data d)
    then have d: "d \<noteq> []" "parse ((buf @ d) @ wire st) = HComplete h" using nonempty Cons.prems(1) by (auto split: if_splits)
    show ?thesis
    proof (cases "hh_offset h \<le> length (buf @ d)")
      case True
      then have "parse (buf @ d) = HComplete h" using assms(1) d(2) unfolding head_laws_def by blast
      then show ?thesis using Data d(1) True by (intro exI [of _ "buf @ d"] exI [of _ st]) simp
    next
      case False
      then have "parse (buf @ d) = HPartial" using assms(1) d(2) unfolding head_laws_def by (meson not_le)
      then show ?thesis using Data d(1) False Cons.IH [OF d(2)] by simp
    qed
  qed
qed

lemmas http_request_head = http_head_reached [of _ "[]", simplified]


text \<open>Any other request is forwarded whole, head included, to the host of its absolute URI or of its Host header.\<close>

theorem http_forward_lossless:
  assumes "head_laws parse" "parse (wire st) = HComplete h"
    and "unwrap_or_empty (hh_method h) \<noteq> str ''CONNECT''" "find_header (str ''Host'') h = Some hst"
  shows "\<exists>p target. http_handle_client parse b64 wok None [] st = ([], HServe target p) \<and> prefixed_content p = wire st \<and>
           (target = parse_host_header hst \<or> target = parse_url_target (unwrap_or_empty (hh_path h)))"
proof -
  have "0 < hh_offset h" using assms(1,2) unfolding head_laws_def by blast
  then obtain buf st' where r: "http_handle_client parse b64 wok None [] st = http_request b64 wok None h buf st'"
    "buf @ wire st' = wire st"
    using http_request_head [OF assms(1,2), of b64 wok None] by blast
  then show ?thesis using assms(3,4)
    by (auto simp: http_request_def Let_def prefixed_content_def prefixed_new_def)
qed

lemma http_request_served:
  "http_request b64 wok (Some us) h buf st = (out, HServe target p) \<Longrightarrow>
     http_authorized b64 us (find_header (str ''Proxy-Authorization'') h)"
  by (simp add: http_request_def Let_def split: if_splits)

lemma http_served:
  "http_handle_client parse b64 wok (Some us) buf st = (out, HServe target p) \<Longrightarrow>
     \<exists>b h. parse b = HComplete h \<and> http_authorized b64 us (find_header (str ''Proxy-Authorization'') h)"
  by (induction parse b64 wok "Some us" buf st rule: http_handle_client.induct)
    (auto split: if_splits http_status.splits dest: http_request_served simp del: str_Cons)

lemma strip_prefix_Some: "strip_prefix pre s = Some r \<Longrightarrow> s = pre @ r"
  by (auto simp: strip_prefix_def split: if_splits) (metis append_take_drop_id)

lemma split_once_parts:
  assumes "split_once c s = Some (a, b)"
  shows "s = a @ c # b \<and> c \<notin> set a"
proof -
  from assms have a: "a = takeWhile (\<lambda>x. x \<noteq> c) s" "b = drop (Suc (length a)) s" "length a < length s"
    by (auto simp: split_once_def Let_def le_neq_implies_less length_takeWhile_le split: if_splits)
  have "s ! length a = c" using nth_length_takeWhile [of "\<lambda>x. x \<noteq> c" s] a by simp
  then have "s = take (length a) s @ c # b" using a by (metis id_take_nth_drop)
  moreover have "take (length a) s = a" using a(1) by (metis takeWhile_eq_take)
  moreover have "c \<notin> set a" using a(1) by (auto dest: set_takeWhileD)
  ultimately show ?thesis by simp
qed

text \<open>With users configured, a request is served only if its Proxy-Authorization header decodes to the
  name and the password of one of them.\<close>

theorem http_requires_credentials:
  assumes "http_handle_client parse b64 wok (Some us) [] st = (out, HServe target p)"
  shows "\<exists>b h encoded user. parse b = HComplete h \<and> find_header (str ''Proxy-Authorization'') h = Some (str ''Basic '' @ encoded) \<and>
           user \<in> set us \<and> b64 (trim encoded) = Some (su_username user @ [0x3A] @ su_password user)"
proof -
  obtain b h where h: "parse b = HComplete h" "http_authorized b64 us (find_header (str ''Proxy-Authorization'') h)"
    using http_served [OF assms] by blast
  then obtain auth encoded creds u pw user where
    "find_header (str ''Proxy-Authorization'') h = Some auth" "strip_prefix (str ''Basic '') auth = Some encoded"
    "b64 (trim encoded) = Some creds" "split_once 0x3A creds = Some (u, pw)"
    "user \<in> set us" "su_username user = u" "su_password user = pw"
    by (auto simp: http_authorized_def list_ex_iff from_utf8_Some_iff split: option.splits bind_splits)
  moreover from this have "creds = u @ [0x3A] @ pw" "auth = str ''Basic '' @ encoded"
    using split_once_parts [of "0x3A" creds u pw] strip_prefix_Some [of "str ''Basic ''" auth encoded] by simp_all
  ultimately show ?thesis using h(1) by metis
qed

definition line_parse :: "bytes \<Rightarrow> (bytes \<times> bytes) list \<Rightarrow> bytes \<Rightarrow> http_status" where
  "line_parse mthd hs b =
     (if 10 \<in> set b then
        let line = takeWhile (\<lambda>x. x \<noteq> 10) b in
        HComplete \<lparr>hh_method = Some mthd, hh_path = Some line, hh_offset = Suc (length line), hh_headers = hs\<rparr>
      else HPartial)"

lemma line_parse_append:
  "10 \<in> set b \<Longrightarrow> line_parse mthd hs (b @ x) = line_parse mthd hs b"
  using takeWhile_append1 [of 10 b "\<lambda>x. x \<noteq> 10" x] by (auto simp: line_parse_def)

lemma line_parse_offset:
  "line_parse mthd hs b = HComplete h \<Longrightarrow> 10 \<in> set b \<and> hh_offset h = Suc (length (takeWhile (\<lambda>x. x \<noteq> 10) b))"
  by (auto simp: line_parse_def Let_def split: if_splits)

lemma takeWhile_stops: "10 \<in> set b \<Longrightarrow> length (takeWhile (\<lambda>x. x \<noteq> (10 :: u8)) b) < length b"
  by (induction b) auto

lemma line_parse_prefix:
  assumes "line_parse mthd hs (b @ x) = HComplete h"
  shows "10 \<in> set b \<longleftrightarrow> hh_offset h \<le> length b"
proof (cases "10 \<in> set b")
  case True
  then have "line_parse mthd hs b = HComplete h" using assms line_parse_append by simp
  then show ?thesis using line_parse_offset takeWhile_stops [OF True] True by (metis Suc_leI)
next
  case False
  then have "takeWhile (\<lambda>x. x \<noteq> 10) (b @ x) = b @ takeWhile (\<lambda>x. x \<noteq> 10) x" by (intro takeWhile_append2) auto
  then show ?thesis using line_parse_offset [OF assms] False by simp
qed

lemma line_parse_laws: "head_laws (line_parse mthd hs)"
  unfolding head_laws_def
proof (intro conjI allI impI)
  fix b h x assume "line_parse mthd hs b = HComplete h"
  note o = line_parse_offset [OF this]
  show "0 < hh_offset h" "hh_offset h \<le> length b" using o takeWhile_stops [of b] by auto
  show "line_parse mthd hs (b @ x) = HComplete h" using o line_parse_append \<open>line_parse mthd hs b = HComplete h\<close> by simp
next
  fix b x h assume h: "line_parse mthd hs (b @ x) = HComplete h" and "length b < hh_offset h"
  then show "line_parse mthd hs b = HPartial" using line_parse_prefix [OF h] by (simp add: line_parse_def)
next
  fix b x h assume h: "line_parse mthd hs (b @ x) = HComplete h" and "hh_offset h \<le> length b"
  then show "line_parse mthd hs b = HComplete h" using line_parse_prefix [OF h] line_parse_append by simp
qed

definition sample_line :: bytes where
  "sample_line = str ''1.2.3.4:80''"

definition sample_target :: target_addr where
  "sample_target = Ip (SockV4 0x01020304 80)"

lemma sample_line_target: "parse_target sample_line = Some sample_target"
proof -
  have "show_socket_addr (SockV4 0x01020304 80) = sample_line" by code_simp
  then show ?thesis using parse_socket_addr_show_v4 [of "0x01020304" 80] by (simp add: parse_target_def sample_target_def)
qed

definition sample_request :: stream where
  "sample_request = [Data (take 2 sample_line), Pending, Data (drop 2 sample_line @ [10] @ str ''ea''), Data (str ''rly'')]"

definition sample_headers :: "(bytes \<times> bytes) list" where
  "sample_headers = [(str ''proxy-authorization'', str ''Basic x''), (str ''host'', str ''a'')]"

definition sample_head :: "bytes \<Rightarrow> http_head" where
  "sample_head mthd = \<lparr>hh_method = Some mthd, hh_path = Some sample_line, hh_offset = 11, hh_headers = sample_headers\<rparr>"

lemma sample_request_parsed: "line_parse mthd sample_headers (wire sample_request) = HComplete (sample_head mthd)"
  by (simp add: sample_request_def line_parse_def sample_head_def sample_line_def)

lemma sample_request_handled:
  obtains buf st' where
    "http_handle_client (line_parse mthd sample_headers) b64 wok users [] sample_request =
       http_request b64 wok users (sample_head mthd) buf st'"
proof -
  have "0 < hh_offset (sample_head mthd)" by (simp add: sample_head_def)
  then show thesis using http_request_head [OF line_parse_laws sample_request_parsed] that by blast
qed


definition http_users :: "socks_user list" where
  "http_users = [\<lparr>su_username = str ''u'', su_password = str ''p''\<rparr>]"

lemma sample_authorized:
  "http_authorized (\<lambda>_. Some (str ''u:p'')) http_users (find_header (str ''Proxy-Authorization'') (sample_head (str ''CONNECT'')))"
  by code_simp

theorem http_requires_credentials_witness:
  "\<exists>b h encoded user. line_parse (str ''CONNECT'') sample_headers b = HComplete h \<and>
     find_header (str ''Proxy-Authorization'') h = Some (str ''Basic '' @ encoded) \<and>
     user \<in> set http_users \<and> Some (str ''u:p'') = Some (su_username user @ [0x3A] @ su_password user)"
proof -
  let ?b64 = "\<lambda>_. Some (str ''u:p'')" and ?h = "sample_head (str ''CONNECT'')"
  obtain buf st' where
    "http_handle_client (line_parse (str ''CONNECT'') sample_headers) ?b64 True (Some http_users) [] sample_request =
       http_request ?b64 True (Some http_users) ?h buf st'"
    by (rule sample_request_handled)
  moreover have "http_request ?b64 True (Some http_users) ?h buf st' =
      (RESPONSE_200, HServe sample_target (prefixed_new st' (drop (hh_offset ?h) buf)))"
    using sample_authorized sample_line_target
    by (simp add: http_request_def Let_def del: str_Cons) (simp add: sample_head_def unwrap_or_empty_def)
  ultimately show ?thesis using http_requires_credentials by metis
qed

theorem http_forward_lossless_witness:
  "\<exists>p target. http_handle_client (line_parse (str ''GET'') sample_headers) (\<lambda>_. None) True None [] sample_request =
       ([], HServe target p) \<and> prefixed_content p = wire sample_request"
proof -
  have "find_header (str ''Host'') (sample_head (str ''GET'')) = Some (str ''a'')" by code_simp
  moreover have "unwrap_or_empty (hh_method (sample_head (str ''GET''))) \<noteq> str ''CONNECT''" by code_simp
  ultimately show ?thesis
    using http_forward_lossless [where ?b64.0 = "\<lambda>_. None" and wok = True, OF line_parse_laws sample_request_parsed] by blast
qed

end
