(* ===== verification/Vmess_Crypto.thy ===== *)
theory Vmess_Crypto
  imports Observe
begin

text \<open>
  What VMess derives and seals: the key derivation of
  \<open>src/src/proxy/outbound/vmess/vmess_impl/kdf.rs\<close>, the user ids of \<open>user.rs\<close>, the counted AEAD
  cipher of \<open>cipher.rs\<close> and the sealed request header of \<open>header.rs\<close>. The block cipher, the two
  AEADs, the HMAC and the checksums come from crates and are fields of \<open>vcrypto\<close>; an AEAD returns
  the ciphertext with its tag behind it.
\<close>

record vcrypto = crypto +
  vc_hmac_sha256 :: "bytes \<Rightarrow> bytes \<Rightarrow> bytes"
  vc_gcm_enc :: "bytes \<Rightarrow> bytes \<Rightarrow> bytes \<Rightarrow> bytes \<Rightarrow> bytes"
  vc_gcm_dec :: "bytes \<Rightarrow> bytes \<Rightarrow> bytes \<Rightarrow> bytes \<Rightarrow> bytes option"
  vc_chacha_enc :: "bytes \<Rightarrow> bytes \<Rightarrow> bytes \<Rightarrow> bytes \<Rightarrow> bytes"
  vc_chacha_dec :: "bytes \<Rightarrow> bytes \<Rightarrow> bytes \<Rightarrow> bytes \<Rightarrow> bytes option"
  vc_aes_block :: "bytes \<Rightarrow> bytes \<Rightarrow> bytes"
  vc_cfb_enc :: "bytes \<Rightarrow> bytes \<Rightarrow> bytes \<Rightarrow> bytes"
  vc_cfb_dec :: "bytes \<Rightarrow> bytes \<Rightarrow> bytes \<Rightarrow> bytes"
  vc_crc32 :: "bytes \<Rightarrow> u32"
  vc_fnv1a :: "bytes \<Rightarrow> u32"

text \<open>What an AEAD promises: it opens what was sealed, opens nothing else, and adds a 16 byte tag.\<close>

definition aead_ok :: "(bytes \<Rightarrow> bytes \<Rightarrow> bytes \<Rightarrow> bytes \<Rightarrow> bytes) \<Rightarrow> (bytes \<Rightarrow> bytes \<Rightarrow> bytes \<Rightarrow> bytes \<Rightarrow> bytes option) \<Rightarrow> bool" where
  "aead_ok enc dec \<longleftrightarrow> (\<forall>k n a p. dec k n a (enc k n a p) = Some p) \<and> (\<forall>k n a c p. dec k n a c = Some p \<longrightarrow> c = enc k n a p) \<and>
     (\<forall>k n a p. length (enc k n a p) = length p + 16)"

lemma aead_okD:
  assumes "aead_ok enc dec"
  shows aead_opens: "dec k n a (enc k n a p) = Some p"
    and aead_authentic: "dec k n a c = Some p \<Longrightarrow> c = enc k n a p"
    and aead_length: "length (enc k n a p) = length p + 16"
  using assms by (auto simp: aead_ok_def)

text \<open>The promises of all the crates, with the sizes of their results.\<close>

definition vcrypto_ok :: "vcrypto \<Rightarrow> bool" where
  "vcrypto_ok cr \<longleftrightarrow> aead_ok (vc_gcm_enc cr) (vc_gcm_dec cr) \<and> aead_ok (vc_chacha_enc cr) (vc_chacha_dec cr) \<and>
     (\<forall>k b. length (vc_aes_block cr k b) = length b) \<and> (\<forall>k d. length (vc_hmac_sha256 cr k d) = 32) \<and>
     (\<forall>d. length (cr_sha256 cr d) = 32) \<and> (\<forall>d. length (cr_md5 cr d) = 16)"

lemma vcrypto_okD:
  assumes "vcrypto_ok cr"
  shows "aead_ok (vc_gcm_enc cr) (vc_gcm_dec cr)" and "aead_ok (vc_chacha_enc cr) (vc_chacha_dec cr)"
    and "length (vc_aes_block cr k b) = length b" and "length (vc_hmac_sha256 cr k d) = 32"
    and "length (cr_sha256 cr d) = 32" and "length (cr_md5 cr d) = 16"
  using assms by (simp_all add: vcrypto_ok_def)

subsection \<open>Key derivation\<close>

definition IPAD :: u8 where "IPAD = 0x36"
definition OPAD :: u8 where "OPAD = 0x5C"
definition BLOCK_LEN :: nat where "BLOCK_LEN = 64"
definition TAG_LEN :: nat where "TAG_LEN = 32"

text \<open>\<open>HmacSha256\<close> with its key and the bytes it was fed.\<close>

record hmac_state =
  hs_key :: bytes
  hs_data :: bytes

definition hs_update :: "bytes \<Rightarrow> hmac_state \<Rightarrow> hmac_state" where
  "hs_update m h = h\<lparr>hs_data := hs_data h @ m\<rparr>"

definition digest_bytes :: "vcrypto \<Rightarrow> hmac_state \<Rightarrow> bytes" where
  "digest_bytes cr h = vc_hmac_sha256 cr (hs_key h) (hs_data h)"

text \<open>A key at the front of a zeroed block, and the block under a pad.\<close>

definition key_block :: "bytes \<Rightarrow> bytes" where
  "key_block k = k @ replicate (BLOCK_LEN - length k) 0"

definition pad_with :: "u8 \<Rightarrow> bytes \<Rightarrow> bytes" where
  "pad_with x block = map (\<lambda>b. b XOR x) block"

record vmess_kdf1 =
  k1_okey :: bytes
  k1_hasher :: hmac_state
  k1_hasher_outer :: hmac_state

definition kdf1_new :: "vcrypto \<Rightarrow> hmac_state \<Rightarrow> bytes \<Rightarrow> vmess_kdf1" where
  "kdf1_new cr hasher key =
     (let (fed, base) = (if length key > BLOCK_LEN
            then let h = hs_update key hasher in (h, take TAG_LEN (digest_bytes cr h))
            else (hasher, key))
      in \<lparr>k1_okey = pad_with OPAD (key_block base),
          k1_hasher = hs_update (pad_with IPAD (key_block base)) fed, k1_hasher_outer = hasher\<rparr>)"

definition kdf1_update :: "bytes \<Rightarrow> vmess_kdf1 \<Rightarrow> vmess_kdf1" where
  "kdf1_update m s = s\<lparr>k1_hasher := hs_update m (k1_hasher s)\<rparr>"

definition kdf1_finalize :: "vcrypto \<Rightarrow> vmess_kdf1 \<Rightarrow> bytes" where
  "kdf1_finalize cr s =
     (let h1 = digest_bytes cr (k1_hasher s)
      in digest_bytes cr (hs_update h1 (hs_update (k1_okey s) (k1_hasher_outer s))))"

record vmess_kdf2 =
  k2_okey :: bytes
  k2_hasher :: vmess_kdf1
  k2_hasher_outer :: vmess_kdf1

definition kdf2_new :: "vcrypto \<Rightarrow> vmess_kdf1 \<Rightarrow> bytes \<Rightarrow> vmess_kdf2" where
  "kdf2_new cr hasher key =
     (let (fed, base) = (if length key > BLOCK_LEN
            then let h = kdf1_update key hasher in (h, take TAG_LEN (kdf1_finalize cr h))
            else (hasher, key))
      in \<lparr>k2_okey = pad_with OPAD (key_block base),
          k2_hasher = kdf1_update (pad_with IPAD (key_block base)) fed, k2_hasher_outer = hasher\<rparr>)"

definition kdf2_update :: "bytes \<Rightarrow> vmess_kdf2 \<Rightarrow> vmess_kdf2" where
  "kdf2_update m s = s\<lparr>k2_hasher := kdf1_update m (k2_hasher s)\<rparr>"

definition kdf2_finalize :: "vcrypto \<Rightarrow> vmess_kdf2 \<Rightarrow> bytes" where
  "kdf2_finalize cr s =
     (let h1 = kdf1_finalize cr (k2_hasher s)
      in kdf1_finalize cr (kdf1_update h1 (kdf1_update (k2_okey s) (k2_hasher_outer s))))"

record vmess_kdf3 =
  k3_okey :: bytes
  k3_hasher :: vmess_kdf2
  k3_hasher_outer :: vmess_kdf2

definition kdf3_new :: "vcrypto \<Rightarrow> vmess_kdf2 \<Rightarrow> bytes \<Rightarrow> vmess_kdf3" where
  "kdf3_new cr hasher key =
     (let (fed, base) = (if length key > BLOCK_LEN
            then let h = kdf2_update key hasher in (h, take TAG_LEN (kdf2_finalize cr h))
            else (hasher, key))
      in \<lparr>k3_okey = pad_with OPAD (key_block base),
          k3_hasher = kdf2_update (pad_with IPAD (key_block base)) fed, k3_hasher_outer = hasher\<rparr>)"

definition kdf3_update :: "bytes \<Rightarrow> vmess_kdf3 \<Rightarrow> vmess_kdf3" where
  "kdf3_update m s = s\<lparr>k3_hasher := kdf2_update m (k3_hasher s)\<rparr>"

definition kdf3_finalize :: "vcrypto \<Rightarrow> vmess_kdf3 \<Rightarrow> bytes" where
  "kdf3_finalize cr s =
     (let h1 = kdf2_finalize cr (k3_hasher s)
      in kdf2_finalize cr (kdf2_update h1 (kdf2_update (k3_okey s) (k3_hasher_outer s))))"

definition SALT_AUTH_ID :: bytes where "SALT_AUTH_ID = str ''AES Auth ID Encryption''"
definition SALT_RESP_LEN_KEY :: bytes where "SALT_RESP_LEN_KEY = str ''AEAD Resp Header Len Key''"
definition SALT_RESP_LEN_IV :: bytes where "SALT_RESP_LEN_IV = str ''AEAD Resp Header Len IV''"
definition SALT_RESP_KEY :: bytes where "SALT_RESP_KEY = str ''AEAD Resp Header Key''"
definition SALT_RESP_IV :: bytes where "SALT_RESP_IV = str ''AEAD Resp Header IV''"
definition SALT_KDF :: bytes where "SALT_KDF = str ''VMess AEAD KDF''"
definition SALT_HEADER_KEY :: bytes where "SALT_HEADER_KEY = str ''VMess Header AEAD Key''"
definition SALT_HEADER_IV :: bytes where "SALT_HEADER_IV = str ''VMess Header AEAD Nonce''"
definition SALT_HEADER_LEN_KEY :: bytes where "SALT_HEADER_LEN_KEY = str ''VMess Header AEAD Key_Length''"
definition SALT_HEADER_LEN_IV :: bytes where "SALT_HEADER_LEN_IV = str ''VMess Header AEAD Nonce_Length''"

definition get_vmess_kdf_1 :: "vcrypto \<Rightarrow> bytes \<Rightarrow> vmess_kdf1" where
  "get_vmess_kdf_1 cr key1 = kdf1_new cr \<lparr>hs_key = SALT_KDF, hs_data = []\<rparr> key1"

definition vmess_kdf_1_one_shot :: "vcrypto \<Rightarrow> bytes \<Rightarrow> bytes \<Rightarrow> bytes" where
  "vmess_kdf_1_one_shot cr ident key1 = kdf1_finalize cr (kdf1_update ident (get_vmess_kdf_1 cr key1))"

definition get_vmess_kdf_2 :: "vcrypto \<Rightarrow> bytes \<Rightarrow> bytes \<Rightarrow> vmess_kdf2" where
  "get_vmess_kdf_2 cr key1 key2 = kdf2_new cr (get_vmess_kdf_1 cr key1) key2"

definition get_vmess_kdf_3 :: "vcrypto \<Rightarrow> bytes \<Rightarrow> bytes \<Rightarrow> bytes \<Rightarrow> vmess_kdf3" where
  "get_vmess_kdf_3 cr key1 key2 key3 = kdf3_new cr (get_vmess_kdf_2 cr key1 key2) key3"

definition vmess_kdf_3_one_shot :: "vcrypto \<Rightarrow> bytes \<Rightarrow> bytes \<Rightarrow> bytes \<Rightarrow> bytes \<Rightarrow> bytes" where
  "vmess_kdf_3_one_shot cr ident key1 key2 key3 = kdf3_finalize cr (kdf3_update ident (get_vmess_kdf_3 cr key1 key2 key3))"

text \<open>The reference: HMAC over any hash with 64 byte blocks.\<close>

definition hmac_over :: "(bytes \<Rightarrow> bytes) \<Rightarrow> bytes \<Rightarrow> bytes \<Rightarrow> bytes" where
  "hmac_over hash key msg =
     (let k = key_block (if length key > BLOCK_LEN then hash key else key)
      in hash (pad_with OPAD k @ hash (pad_with IPAD k @ msg)))"

text \<open>\<open>hmac_md5\<close> of \<open>stream.rs\<close>.\<close>

definition hmac_md5 :: "vcrypto \<Rightarrow> bytes \<Rightarrow> bytes \<Rightarrow> bytes" where
  "hmac_md5 cr key data =
     (let block = (if length key > 64 then key_block (cr_md5 cr key) else key_block key);
          inner_hash = cr_md5 cr (map (\<lambda>b. b XOR 0x36) block @ data)
      in cr_md5 cr (map (\<lambda>b. b XOR 0x5C) block @ inner_hash))"

lemma hmac_md5_is_hmac: "hmac_md5 cr key data = hmac_over (cr_md5 cr) key data"
  by (simp add: hmac_md5_def hmac_over_def pad_with_def IPAD_def OPAD_def BLOCK_LEN_def Let_def)







text \<open>For a longer key the hasher is not reset after hashing the key, and the result is not HMAC's.\<close>

lemma kdf1_long_key:
  assumes "length key > BLOCK_LEN"
  shows "kdf1_finalize cr (kdf1_update m (kdf1_new cr h key)) =
    (let hash = (\<lambda>x. digest_bytes cr (hs_update x h)); k = key_block (take TAG_LEN (hash key))
     in hash (pad_with OPAD k @ hash (key @ pad_with IPAD k @ m)))"
  using assms by (simp add: kdf1_finalize_def kdf1_update_def kdf1_new_def hs_update_def Let_def)

lemma kdf_lengths:
  assumes "vcrypto_ok cr"
  shows "length (vmess_kdf_1_one_shot cr ident key1) = 32" and "length (vmess_kdf_3_one_shot cr ident key1 key2 key3) = 32"
  using assms
  by (simp_all add: vmess_kdf_1_one_shot_def vmess_kdf_3_one_shot_def kdf1_finalize_def kdf2_finalize_def kdf3_finalize_def
      digest_bytes_def vcrypto_okD(4) Let_def)

subsection \<open>Users\<close>

record vmess_id =
  id_uuid :: bytes
  id_cmd_key :: bytes

definition new_id :: "crypto \<Rightarrow> bytes \<Rightarrow> vmess_id" where
  "new_id cr uuid = \<lparr>id_uuid = uuid, id_cmd_key = cmd_key cr uuid\<rparr>"

definition next_alter_id :: "crypto \<Rightarrow> bytes \<Rightarrow> bytes" where
  "next_alter_id cr i = cr_md5 cr (i @ str ''16167dc8-16b6-4e6d-b8bb-65dd68113a81'')"

fun alter_ids :: "crypto \<Rightarrow> vmess_id \<Rightarrow> bytes \<Rightarrow> nat \<Rightarrow> vmess_id list" where
  "alter_ids cr primary prev 0 = []"
| "alter_ids cr primary prev (Suc n) =
     \<lparr>id_uuid = next_alter_id cr prev, id_cmd_key = id_cmd_key primary\<rparr> # alter_ids cr primary (next_alter_id cr prev) n"

definition new_alter_id_list :: "crypto \<Rightarrow> vmess_id \<Rightarrow> u16 \<Rightarrow> vmess_id list" where
  "new_alter_id_list cr primary alter_id_count =
     (if alter_id_count = 0 then [primary]
      else alter_ids cr primary (id_uuid primary) (unat alter_id_count) @ [primary])"

lemma alter_ids_key: "i \<in> set (alter_ids cr primary prev n) \<Longrightarrow> id_cmd_key i = id_cmd_key primary"
  by (induction n arbitrary: prev) auto

lemma length_alter_ids [simp]: "length (alter_ids cr primary prev n) = n"
  by (induction n arbitrary: prev) auto

lemma new_alter_id_list_key: "i \<in> set (new_alter_id_list cr primary n) \<Longrightarrow> id_cmd_key i = id_cmd_key primary"
  by (auto simp: new_alter_id_list_def alter_ids_key split: if_splits)

lemma length_new_alter_id_list: "length (new_alter_id_list cr primary n) = Suc (unat n)"
  by (simp add: new_alter_id_list_def)

subsection \<open>The counted cipher\<close>

text \<open>A cipher is its key; \<open>nonce\<close> is a zeroed template that is copied on every use.\<close>

datatype vmess_security = Aes128Gcm bytes | ChaCha20Poly1305 bytes

definition overhead_len :: nat where "overhead_len = 16"
definition nonce_len :: nat where "nonce_len = 12"

record aead_cipher =
  ac_security :: vmess_security
  ac_iv :: bytes
  ac_count :: u16

definition aead_cipher_new :: "bytes \<Rightarrow> vmess_security \<Rightarrow> aead_cipher" where
  "aead_cipher_new iv security = \<lparr>ac_security = security, ac_iv = iv, ac_count = 0\<rparr>"

definition cipher_nonce :: "aead_cipher \<Rightarrow> bytes" where
  "cipher_nonce c = take nonce_len (to_be 2 (ac_count c) @ take 10 (drop 2 (ac_iv c)) @ replicate 20 0)"

definition count_up :: "aead_cipher \<Rightarrow> aead_cipher" where
  "count_up c = c\<lparr>ac_count := ac_count c + 1\<rparr>"

fun sec_enc :: "vcrypto \<Rightarrow> vmess_security \<Rightarrow> bytes \<Rightarrow> bytes \<Rightarrow> bytes" where
  "sec_enc cr (Aes128Gcm k) n p = vc_gcm_enc cr k n [] p"
| "sec_enc cr (ChaCha20Poly1305 k) n p = vc_chacha_enc cr k n [] p"

fun sec_dec :: "vcrypto \<Rightarrow> vmess_security \<Rightarrow> bytes \<Rightarrow> bytes \<Rightarrow> bytes option" where
  "sec_dec cr (Aes128Gcm k) n c = vc_gcm_dec cr k n [] c"
| "sec_dec cr (ChaCha20Poly1305 k) n c = vc_chacha_dec cr k n [] c"

text \<open>The buffer ends in 16 bytes of room for the tag. After decryption the tag is still there.\<close>

definition encrypt_inplace :: "vcrypto \<Rightarrow> bytes \<Rightarrow> aead_cipher \<Rightarrow> bytes \<times> aead_cipher" where
  "encrypt_inplace cr buf c = (sec_enc cr (ac_security c) (cipher_nonce c) (take (length buf - 16) buf), count_up c)"

definition decrypt_inplace :: "vcrypto \<Rightarrow> bytes \<Rightarrow> aead_cipher \<Rightarrow> bytes option \<times> aead_cipher" where
  "decrypt_inplace cr buf c =
     (map_option (\<lambda>p. p @ drop (length buf - 16) buf) (sec_dec cr (ac_security c) (cipher_nonce c) buf), count_up c)"

lemma sec_opens: "vcrypto_ok cr \<Longrightarrow> sec_dec cr s n (sec_enc cr s n p) = Some p"
  by (cases s) (simp_all add: aead_opens [OF vcrypto_okD(1)] aead_opens [OF vcrypto_okD(2)])

lemma sec_length: "vcrypto_ok cr \<Longrightarrow> length (sec_enc cr s n p) = length p + 16"
  by (cases s) (simp_all add: aead_length [OF vcrypto_okD(1)] aead_length [OF vcrypto_okD(2)])

text \<open>The nonces of one cipher repeat exactly every 65536 chunks.\<close>

lemma cipher_nonce_eq:
  "length (ac_iv c) = 16 \<Longrightarrow> cipher_nonce c = to_be 2 (ac_count c) @ take 10 (drop 2 (ac_iv c))"
  by (simp add: cipher_nonce_def nonce_len_def)

lemma to_be_2_inject: "to_be 2 (a :: u16) = to_be 2 b \<longleftrightarrow> a = b"
proof
  assume "to_be 2 a = to_be 2 b"
  then have "(from_be (to_be 2 a) :: u16) = from_be (to_be 2 b)" by (rule arg_cong)
  then show "a = b" by (simp add: from_be_to_be_id)
qed simp

lemma of_nat_u16_eq_iff: "(of_nat i :: u16) = of_nat j \<longleftrightarrow> i mod 65536 = j mod 65536"
  by (simp add: word_of_nat_eq_iff take_bit_eq_mod)

lemma ac_count_up: "ac_count ((count_up ^^ i) c) = ac_count c + of_nat i"
  "ac_iv ((count_up ^^ i) c) = ac_iv c" "ac_security ((count_up ^^ i) c) = ac_security c"
  by (induction i) (simp_all add: count_up_def)

theorem vmess_nonce_period:
  assumes "length iv = 16"
  shows "cipher_nonce ((count_up ^^ i) (aead_cipher_new iv s)) = cipher_nonce ((count_up ^^ j) (aead_cipher_new iv s)) \<longleftrightarrow>
    i mod 65536 = j mod 65536"
  using assms
  by (simp add: cipher_nonce_eq ac_count_up aead_cipher_new_def to_be_2_inject of_nat_u16_eq_iff)

subsection \<open>The sealed header\<close>

text \<open>\<open>aes_gcm_encrypt\<close> and \<open>aes_gcm_decrypt\<close>: \<open>new_from_slice\<close> wants a 16 byte key.\<close>

definition aes_gcm_encrypt :: "vcrypto \<Rightarrow> bytes \<Rightarrow> bytes \<Rightarrow> bytes \<Rightarrow> bytes option \<Rightarrow> bytes option" where
  "aes_gcm_encrypt cr key nonce plaintext aad =
     (if length key = 16 then Some (vc_gcm_enc cr key nonce (case aad of None \<Rightarrow> [] | Some a \<Rightarrow> a) plaintext) else None)"

definition aes_gcm_decrypt :: "vcrypto \<Rightarrow> bytes \<Rightarrow> bytes \<Rightarrow> bytes \<Rightarrow> bytes option \<Rightarrow> bytes option" where
  "aes_gcm_decrypt cr key nonce ciphertext aad =
     (if length key = 16 then vc_gcm_dec cr key nonce (case aad of None \<Rightarrow> [] | Some a \<Rightarrow> a) ciphertext else None)"

lemma gcm_opens:
  "vcrypto_ok cr \<Longrightarrow> length key = 16 \<Longrightarrow> aes_gcm_encrypt cr key nonce p aad = Some c \<Longrightarrow> aes_gcm_decrypt cr key nonce c aad = Some p"
  by (auto simp: aes_gcm_encrypt_def aes_gcm_decrypt_def aead_opens [OF vcrypto_okD(1)])

lemma gcm_authentic:
  "vcrypto_ok cr \<Longrightarrow> aes_gcm_decrypt cr key nonce c aad = Some p \<Longrightarrow> aes_gcm_encrypt cr key nonce p aad = Some c"
  by (auto simp: aes_gcm_encrypt_def aes_gcm_decrypt_def split: if_splits dest: aead_authentic [OF vcrypto_okD(1)])

lemma gcm_length:
  "vcrypto_ok cr \<Longrightarrow> aes_gcm_encrypt cr key nonce p aad = Some c \<Longrightarrow> length c = length p + 16"
  by (auto simp: aes_gcm_encrypt_def aead_length [OF vcrypto_okD(1)] split: if_splits)

definition create_auth_id :: "vcrypto \<Rightarrow> bytes \<Rightarrow> u64 \<Rightarrow> bytes \<Rightarrow> bytes" where
  "create_auth_id cr key timestamp random =
     (let buf = to_be 8 timestamp @ random;
          block = buf @ to_be 4 (vc_crc32 cr buf);
          pk = take 16 (vmess_kdf_1_one_shot cr key SALT_AUTH_ID)
      in vc_aes_block cr pk block)"

text \<open>The random bytes (four for the id, eight for the nonce) are arguments.\<close>

definition seal_vmess_aead_header :: "vcrypto \<Rightarrow> bytes \<Rightarrow> bytes \<Rightarrow> u64 \<Rightarrow> bytes \<Rightarrow> bytes \<Rightarrow> bytes option" where
  "seal_vmess_aead_header cr key data timestamp random connection_nonce =
     (let auth_id = create_auth_id cr key timestamp random;
          len_key = take 16 (vmess_kdf_3_one_shot cr key SALT_HEADER_LEN_KEY auth_id connection_nonce);
          len_nonce = take 12 (vmess_kdf_3_one_shot cr key SALT_HEADER_LEN_IV auth_id connection_nonce)
      in Option.bind (aes_gcm_encrypt cr len_key len_nonce (to_be 2 (of_nat (length data) :: u16)) (Some auth_id))
       (\<lambda>header_len_encrypted.
        let payload_key = take 16 (vmess_kdf_3_one_shot cr key SALT_HEADER_KEY auth_id connection_nonce);
            payload_nonce = take 12 (vmess_kdf_3_one_shot cr key SALT_HEADER_IV auth_id connection_nonce)
        in Option.bind (aes_gcm_encrypt cr payload_key payload_nonce data (Some auth_id)) (\<lambda>payload_encrypted.
             Some (auth_id @ header_len_encrypted @ connection_nonce @ payload_encrypted))))"

subsection \<open>Witnesses\<close>

text \<open>A toy AEAD whose tag is the key.\<close>

definition toy_tag :: "bytes \<Rightarrow> bytes" where
  "toy_tag k = take 16 (k @ replicate 16 0)"

definition toy_enc :: "bytes \<Rightarrow> bytes \<Rightarrow> bytes \<Rightarrow> bytes \<Rightarrow> bytes" where
  "toy_enc k n a p = p @ toy_tag k"

definition toy_dec :: "bytes \<Rightarrow> bytes \<Rightarrow> bytes \<Rightarrow> bytes \<Rightarrow> bytes option" where
  "toy_dec k n a c = (if 16 \<le> length c \<and> drop (length c - 16) c = toy_tag k then Some (take (length c - 16) c) else None)"

definition vm_sample :: vcrypto where
  "vm_sample = \<lparr>cr_sha224 = id, cr_sha256 = (\<lambda>d. take 32 (d @ replicate 32 0)), cr_md5 = (\<lambda>d. take 16 (d @ replicate 16 0)),
     cr_parse_uuid = (\<lambda>s. if s = [7] then Some (replicate 16 7) else None),
     vc_hmac_sha256 = (\<lambda>k d. take 32 (d @ replicate 32 0)), vc_gcm_enc = toy_enc, vc_gcm_dec = toy_dec,
     vc_chacha_enc = toy_enc, vc_chacha_dec = toy_dec, vc_aes_block = (\<lambda>k b. b), vc_cfb_enc = (\<lambda>k i d. d), vc_cfb_dec = (\<lambda>k i d. d),
     vc_crc32 = (\<lambda>_. 0), vc_fnv1a = (\<lambda>_. 0)\<rparr>"

lemma toy_aead: "aead_ok toy_enc toy_dec"
proof -
  have "length (toy_tag k) = 16" for k by (simp add: toy_tag_def)
  then show ?thesis
    by (auto simp: aead_ok_def toy_enc_def toy_dec_def split: if_splits) (metis append_take_drop_id)
qed

lemma vm_sample_ok: "vcrypto_ok vm_sample"
  by (auto simp: vcrypto_ok_def vm_sample_def toy_aead min_def)


end
