(* ===== verification/Vmess_Chunk.thy ===== *)
theory Vmess_Chunk
  imports Vmess_Crypto Read_Ahead Stream_Wrappers
begin

text \<open>
  The chunked data stream of VMess: \<open>VmessStream\<close> of
  \<open>src/src/proxy/outbound/vmess/vmess_impl/stream.rs\<close> and \<open>VmessServerStream\<close> of
  \<open>src/src/proxy/inbound/vmess.rs\<close>. A writer cuts data into chunks, each with its length in front
  and encrypted under a counted nonce, and may have to write a chunk in pieces; a reader collects
  bytes with \<open>poll_fill\<close>, opens a chunk and hands it out in pieces. What the connection answers to
  each inner \<open>poll_write\<close> is an input; the bytes it took are \<open>cw_out\<close>.
\<close>

definition CHUNK_SIZE :: nat where "CHUNK_SIZE = 16384"
definition MAX_CHUNK_SIZE :: nat where "MAX_CHUNK_SIZE = 17 * 1024"

subsection \<open>Writing\<close>

datatype write_state = BuildingData | FlushingData nat nat nat

record chunk_writer =
  cw_cipher :: "aead_cipher option"
  cw_state :: write_state
  cw_buf :: bytes
  cw_out :: bytes

definition chunk_writer_new :: "aead_cipher option \<Rightarrow> chunk_writer" where
  "chunk_writer_new c = \<lparr>cw_cipher = c, cw_state = BuildingData, cw_buf = [], cw_out = []\<rparr>"

text \<open>The \<open>BuildingData\<close> arm.\<close>

definition build_data :: "vcrypto \<Rightarrow> bytes \<Rightarrow> chunk_writer \<Rightarrow> chunk_writer" where
  "build_data cr buf w =
     (let overhead = (case cw_cipher w of Some c \<Rightarrow> overhead_len | None \<Rightarrow> 0);
          max_payload_size = CHUNK_SIZE - overhead;
          consume_len = min (length buf) max_payload_size;
          payload_len = consume_len + overhead;
          size_bytes = to_be 2 (of_nat payload_len :: u16);
          piece2 = take consume_len buf @ replicate overhead 0;
          (body, cipher) = (case cw_cipher w of
             Some c \<Rightarrow> apsnd Some (encrypt_inplace cr piece2 c)
           | None \<Rightarrow> (piece2, None));
          wbuf = cw_buf w @ size_bytes @ body
      in w\<lparr>cw_cipher := cipher, cw_buf := wbuf, cw_state := FlushingData consume_len 0 (length wbuf)\<rparr>)"

text \<open>The \<open>FlushingData\<close> arm and its \<open>continue\<close>: one inner answer after the other, until the chunk
  is out or the connection is not ready. \<open>OTaken\<close> carries the bytes of the caller's buffer that
  the returned count stands for.\<close>

fun flush_data :: "write_poll list \<Rightarrow> nat \<Rightarrow> nat \<Rightarrow> nat \<Rightarrow> bytes \<Rightarrow> chunk_writer \<Rightarrow> poll_out \<times> chunk_writer" where
  "flush_data [] consume_len written n buf w = (OPending, w\<lparr>cw_state := FlushingData consume_len written n\<rparr>)"
| "flush_data (WPending # as) consume_len written n buf w = (OPending, w\<lparr>cw_state := FlushingData consume_len written n\<rparr>)"
| "flush_data (WErr # as) consume_len written n buf w = (OErr, w\<lparr>cw_state := FlushingData consume_len written n\<rparr>)"
| "flush_data (WOk k # as) consume_len written n buf w =
     (let piece = take k (slice (cw_buf w) written n); new_written = written + length piece
      in if piece = [] then (OErr, w\<lparr>cw_state := FlushingData consume_len written n\<rparr>)
         else if new_written < n then
           flush_data as consume_len new_written n buf (w\<lparr>cw_out := cw_out w @ piece\<rparr>)
         else (OTaken (take consume_len buf),
               w\<lparr>cw_out := cw_out w @ piece, cw_buf := [], cw_state := BuildingData\<rparr>))"

definition vm_poll_write :: "vcrypto \<Rightarrow> write_poll list \<Rightarrow> bytes \<Rightarrow> chunk_writer \<Rightarrow> poll_out \<times> chunk_writer" where
  "vm_poll_write cr as buf w =
     (let w1 = (case cw_state w of BuildingData \<Rightarrow> build_data cr buf w | _ \<Rightarrow> w)
      in case cw_state w1 of
           FlushingData consume_len written n \<Rightarrow> flush_data as consume_len written n buf w1
         | BuildingData \<Rightarrow> (OPending, w1))"

text \<open>The server's \<open>poll_write\<close>.\<close>

definition srv_build_data :: "vcrypto \<Rightarrow> bytes \<Rightarrow> chunk_writer \<Rightarrow> chunk_writer" where
  "srv_build_data cr buf w =
     (let overhead = (case map_option (\<lambda>c. overhead_len) (cw_cipher w) of Some k \<Rightarrow> k | None \<Rightarrow> 0);
          max_payload = CHUNK_SIZE - overhead;
          consume = min (length buf) max_payload;
          payload_len = consume + overhead;
          piece = take consume buf @ (if overhead > 0 then replicate overhead 0 else []);
          (body, cipher) = (if overhead > 0 then apsnd Some (encrypt_inplace cr piece (the (cw_cipher w))) else (piece, cw_cipher w));
          wbuf = cw_buf w @ to_be 2 (of_nat payload_len :: u16) @ body
      in w\<lparr>cw_cipher := cipher, cw_buf := wbuf, cw_state := FlushingData consume 0 (length wbuf)\<rparr>)"

definition srv_poll_write :: "vcrypto \<Rightarrow> write_poll list \<Rightarrow> bytes \<Rightarrow> chunk_writer \<Rightarrow> poll_out \<times> chunk_writer" where
  "srv_poll_write cr as buf w =
     (let w1 = (case cw_state w of BuildingData \<Rightarrow> srv_build_data cr buf w | _ \<Rightarrow> w)
      in case cw_state w1 of
           FlushingData consume written n \<Rightarrow> flush_data as consume written n buf w1
         | BuildingData \<Rightarrow> (OPending, w1))"

text \<open>\<open>write_all\<close>: poll until everything is taken. Every element of the script is what the
  connection answers during one poll.\<close>

datatype write_end = WriteDone | WriteError | WriteWaiting

fun write_all :: "(write_poll list \<Rightarrow> bytes \<Rightarrow> chunk_writer \<Rightarrow> poll_out \<times> chunk_writer) \<Rightarrow> write_poll list list \<Rightarrow> bytes \<Rightarrow>
    chunk_writer \<Rightarrow> write_end \<times> chunk_writer" where
  "write_all pw [] buf w = (if buf = [] then WriteDone else WriteWaiting, w)"
| "write_all pw (as # ass) buf w =
     (if buf = [] then (WriteDone, w)
      else case pw as buf w of
        (OPending, w1) \<Rightarrow> write_all pw ass buf w1
      | (OErr, w1) \<Rightarrow> (WriteError, w1)
      | (OTaken b, w1) \<Rightarrow> if b = [] then (WriteError, w1) else write_all pw ass (drop (length b) buf) w1)"

fun write_bufs :: "(write_poll list \<Rightarrow> bytes \<Rightarrow> chunk_writer \<Rightarrow> poll_out \<times> chunk_writer) \<Rightarrow> (write_poll list list \<times> bytes) list \<Rightarrow>
    chunk_writer \<Rightarrow> write_end \<times> chunk_writer" where
  "write_bufs pw [] w = (WriteDone, w)"
| "write_bufs pw ((ass, buf) # rest) w =
     (case write_all pw ass buf w of
        (WriteDone, w1) \<Rightarrow> write_bufs pw rest w1
      | (e, w1) \<Rightarrow> (e, w1))"

subsection \<open>Reading\<close>

datatype read_state =
    AeadWaitingHeaderSize
  | AeadWaitingHeader nat
  | StreamWaitingLength
  | StreamWaitingData nat
  | StreamFlushingData nat
  | StreamClosed

datatype vmess_read_error =
    ReadFill fill_result
  | ChunkTooLarge
  | ChunkShort
  | DecryptFailed
  | HeaderLength
  | HeaderShort
  | RespVMismatch
  | DynamicPort

datatype read_out = ROPending | ROErr vmess_read_error | ROReady bytes

record chunk_reader =
  cr_cipher :: "aead_cipher option"
  cr_state :: read_state
  cr_read_buf :: bytes
  cr_chunk :: bytes

text \<open>\<open>ready!(poll_fill(..))?\<close>: what follows sees whether the bytes are there.\<close>

definition filled :: "nat \<Rightarrow> bool \<Rightarrow> stream \<Rightarrow> chunk_reader \<Rightarrow> (bool \<Rightarrow> stream \<Rightarrow> chunk_reader \<Rightarrow> read_out \<times> stream \<times> chunk_reader) \<Rightarrow>
    read_out \<times> stream \<times> chunk_reader" where
  "filled need allow_eof st r k =
     (case poll_fill st (cr_read_buf r) need allow_eof of
        (res, st', buf) \<Rightarrow>
          let r1 = r\<lparr>cr_read_buf := buf\<rparr>
          in case res of
               FillPending \<Rightarrow> (ROPending, st', r1)
             | Filled \<Rightarrow> k True st' r1
             | CleanEof \<Rightarrow> k False st' r1
             | _ \<Rightarrow> (ROErr (ReadFill res), st', r1))"

definition split_to :: "nat \<Rightarrow> chunk_reader \<Rightarrow> bytes \<times> chunk_reader" where
  "split_to n r = (take n (cr_read_buf r), r\<lparr>cr_read_buf := drop n (cr_read_buf r)\<rparr>)"

definition flushing_data :: "nat \<Rightarrow> nat \<Rightarrow> stream \<Rightarrow> chunk_reader \<Rightarrow> read_out \<times> stream \<times> chunk_reader" where
  "flushing_data room sz st r =
     (let to_read = min room sz;
          r1 = r\<lparr>cr_chunk := drop to_read (cr_chunk r),
                 cr_state := (if to_read < sz then StreamFlushingData (sz - to_read) else StreamWaitingLength)\<rparr>
      in (ROReady (take to_read (cr_chunk r)), st, r1))"

definition waiting_data :: "vcrypto \<Rightarrow> nat \<Rightarrow> nat \<Rightarrow> stream \<Rightarrow> chunk_reader \<Rightarrow> read_out \<times> stream \<times> chunk_reader" where
  "waiting_data cr room sz st r =
     filled sz False st r (\<lambda>_ st r.
       let (chunk, r1) = split_to sz r
       in case cr_cipher r1 of
            Some c \<Rightarrow>
              if sz < overhead_len then (ROErr ChunkShort, st, r1)
              else (case decrypt_inplace cr chunk c of
                 (None, c') \<Rightarrow> (ROErr DecryptFailed, st, r1\<lparr>cr_cipher := Some c'\<rparr>)
               | (Some plain, c') \<Rightarrow>
                   let data_len = sz - overhead_len
                   in flushing_data room data_len st
                        (r1\<lparr>cr_cipher := Some c', cr_state := StreamFlushingData data_len, cr_chunk := take data_len plain\<rparr>))
          | None \<Rightarrow> flushing_data room sz st (r1\<lparr>cr_state := StreamFlushingData sz, cr_chunk := chunk\<rparr>))"

definition waiting_length :: "vcrypto \<Rightarrow> nat \<Rightarrow> stream \<Rightarrow> chunk_reader \<Rightarrow> read_out \<times> stream \<times> chunk_reader" where
  "waiting_length cr room st r =
     filled 2 True st r (\<lambda>there st r.
       if \<not> there then (ROReady [], st, r\<lparr>cr_state := StreamClosed\<rparr>)
       else
         let (size_bytes, r1) = split_to 2 r; len = unat (from_be size_bytes :: u16)
         in if len > MAX_CHUNK_SIZE then (ROErr ChunkTooLarge, st, r1)
            else waiting_data cr room len st (r1\<lparr>cr_state := StreamWaitingData len\<rparr>))"

text \<open>The client's response header: its two arms, for the AEAD and for the legacy protocol.\<close>

record resp_params =
  rp_key :: bytes
  rp_iv :: bytes
  rp_v :: u8
  rp_is_aead :: bool

definition waiting_header :: "vcrypto \<Rightarrow> resp_params \<Rightarrow> nat \<Rightarrow> nat \<Rightarrow> stream \<Rightarrow> chunk_reader \<Rightarrow> read_out \<times> stream \<times> chunk_reader" where
  "waiting_header cr rp room header_size st r =
     filled (header_size + 16) False st r (\<lambda>_ st r.
       let key = take 16 (vmess_kdf_1_one_shot cr (rp_key rp) SALT_RESP_KEY);
           iv = take 12 (vmess_kdf_1_one_shot cr (rp_iv rp) SALT_RESP_IV);
           (sealed, r1) = split_to (header_size + 16) r
       in case aes_gcm_decrypt cr key iv sealed None of
            None \<Rightarrow> (ROErr DecryptFailed, st, r1)
          | Some buf \<Rightarrow>
              if length buf < 4 then (ROErr HeaderShort, st, r1)
              else if buf ! 0 \<noteq> rp_v rp then (ROErr RespVMismatch, st, r1)
              else if buf ! 2 \<noteq> 0 then (ROErr DynamicPort, st, r1)
              else waiting_length cr room st (r1\<lparr>cr_state := StreamWaitingLength\<rparr>))"

definition waiting_header_size :: "vcrypto \<Rightarrow> resp_params \<Rightarrow> nat \<Rightarrow> stream \<Rightarrow> chunk_reader \<Rightarrow> read_out \<times> stream \<times> chunk_reader" where
  "waiting_header_size cr rp room st r =
     (if \<not> rp_is_aead rp then
        filled 4 False st r (\<lambda>_ st r.
          let (sealed, r1) = split_to 4 r; buf = vc_cfb_dec cr (rp_key rp) (rp_iv rp) sealed
          in if length (rp_key rp) \<noteq> 16 then (ROErr DecryptFailed, st, r1)
             else if buf ! 0 \<noteq> rp_v rp then (ROErr RespVMismatch, st, r1)
             else if buf ! 2 \<noteq> 0 then (ROErr DynamicPort, st, r1)
             else waiting_length cr room st (r1\<lparr>cr_state := StreamWaitingLength\<rparr>))
      else
        filled 18 False st r (\<lambda>_ st r.
          let key = take 16 (vmess_kdf_1_one_shot cr (rp_key rp) SALT_RESP_LEN_KEY);
              iv = take 12 (vmess_kdf_1_one_shot cr (rp_iv rp) SALT_RESP_LEN_IV);
              (sealed, r1) = split_to 18 r
          in case aes_gcm_decrypt cr key iv sealed None of
               None \<Rightarrow> (ROErr DecryptFailed, st, r1)
             | Some plain \<Rightarrow>
                 if length plain < 2 then (ROErr HeaderLength, st, r1)
                 else
                   let header_size = unat (from_be (take 2 plain) :: u16)
                   in waiting_header cr rp room header_size st (r1\<lparr>cr_state := AeadWaitingHeader header_size\<rparr>)))"

definition vm_poll_read :: "vcrypto \<Rightarrow> resp_params \<Rightarrow> nat \<Rightarrow> stream \<Rightarrow> chunk_reader \<Rightarrow> read_out \<times> stream \<times> chunk_reader" where
  "vm_poll_read cr rp room st r =
     (case cr_state r of
        AeadWaitingHeaderSize \<Rightarrow> waiting_header_size cr rp room st r
      | AeadWaitingHeader n \<Rightarrow> waiting_header cr rp room n st r
      | StreamWaitingLength \<Rightarrow> waiting_length cr room st r
      | StreamWaitingData n \<Rightarrow> waiting_data cr room n st r
      | StreamFlushingData n \<Rightarrow> flushing_data room n st r
      | StreamClosed \<Rightarrow> (ROReady [], st, r))"

text \<open>The server's \<open>poll_read\<close>: no header, and the overhead decides whether to decrypt.\<close>

definition srv_waiting_data :: "vcrypto \<Rightarrow> nat \<Rightarrow> nat \<Rightarrow> stream \<Rightarrow> chunk_reader \<Rightarrow> read_out \<times> stream \<times> chunk_reader" where
  "srv_waiting_data cr room sz st r =
     filled sz False st r (\<lambda>_ st r.
       let (chunk, r1) = split_to sz r;
           overhead = (case map_option (\<lambda>c. overhead_len) (cr_cipher r1) of Some k \<Rightarrow> k | None \<Rightarrow> 0)
       in if overhead > 0 then
            if sz < overhead then (ROErr ChunkShort, st, r1)
            else
              let (res, c') = decrypt_inplace cr chunk (the (cr_cipher r1)); r2 = r1\<lparr>cr_cipher := Some c'\<rparr>
              in (case res of
                    None \<Rightarrow> (ROErr DecryptFailed, st, r2)
                  | Some plain \<Rightarrow>
                      let data_len = sz - overhead
                      in flushing_data room data_len st (r2\<lparr>cr_state := StreamFlushingData data_len, cr_chunk := take data_len plain\<rparr>))
          else flushing_data room sz st (r1\<lparr>cr_state := StreamFlushingData sz, cr_chunk := chunk\<rparr>))"

definition srv_waiting_length :: "vcrypto \<Rightarrow> nat \<Rightarrow> stream \<Rightarrow> chunk_reader \<Rightarrow> read_out \<times> stream \<times> chunk_reader" where
  "srv_waiting_length cr room st r =
     filled 2 True st r (\<lambda>there st r.
       if \<not> there then (ROReady [], st, r\<lparr>cr_state := StreamClosed\<rparr>)
       else
         let (size_bytes, r1) = split_to 2 r; len = unat (from_be size_bytes :: u16)
         in if len > MAX_CHUNK_SIZE then (ROErr ChunkTooLarge, st, r1)
            else srv_waiting_data cr room len st (r1\<lparr>cr_state := StreamWaitingData len\<rparr>))"

definition srv_poll_read :: "vcrypto \<Rightarrow> nat \<Rightarrow> stream \<Rightarrow> chunk_reader \<Rightarrow> read_out \<times> stream \<times> chunk_reader" where
  "srv_poll_read cr room st r =
     (case cr_state r of
        StreamWaitingLength \<Rightarrow> srv_waiting_length cr room st r
      | StreamWaitingData n \<Rightarrow> srv_waiting_data cr room n st r
      | StreamFlushingData n \<Rightarrow> flushing_data room n st r
      | _ \<Rightarrow> (ROReady [], st, r))"

text \<open>A reader that polls with buffers of the given sizes: the bytes of its successful reads, and
  how it ended.\<close>

datatype read_end = ReadOpen | ReadEof | ReadError vmess_read_error

fun chunk_reads :: "(nat \<Rightarrow> stream \<Rightarrow> chunk_reader \<Rightarrow> read_out \<times> stream \<times> chunk_reader) \<Rightarrow> nat list \<Rightarrow> stream \<Rightarrow> chunk_reader \<Rightarrow>
    bytes list \<times> read_end" where
  "chunk_reads pr [] st r = ([], ReadOpen)"
| "chunk_reads pr (room # rooms) st r =
     (case pr room st r of
        (ROPending, st', r') \<Rightarrow> chunk_reads pr rooms st' r'
      | (ROErr e, st', r') \<Rightarrow> ([], ReadError e)
      | (ROReady b, st', r') \<Rightarrow> if b = [] then ([], ReadEof) else apfst ((#) b) (chunk_reads pr rooms st' r'))"

subsection \<open>The two implementations agree\<close>

lemma overhead_pos [simp]: "0 < overhead_len" "overhead_len = 16"
  by (simp_all add: overhead_len_def)

lemma srv_build_data_eq: "srv_build_data = build_data"
  by (intro ext) (simp add: srv_build_data_def build_data_def Let_def split: option.split)

lemma srv_poll_write_eq: "srv_poll_write = vm_poll_write"
  by (intro ext) (unfold srv_poll_write_def vm_poll_write_def srv_build_data_eq, rule refl)

lemma srv_waiting_data_eq: "srv_waiting_data = waiting_data"
  unfolding srv_waiting_data_def waiting_data_def
  by (intro ext arg_cong [where f = "filled _ _ _ _"])
    (simp add: split_def Let_def split: option.split)

lemma srv_waiting_length_eq: "srv_waiting_length = waiting_length"
  by (intro ext) (unfold srv_waiting_length_def waiting_length_def srv_waiting_data_eq, rule refl)

lemma srv_poll_read_eq:
  "cr_state r \<notin> {AeadWaitingHeaderSize} \<union> range AeadWaitingHeader \<Longrightarrow> srv_poll_read cr room st r = vm_poll_read cr rp room st r"
  by (cases "cr_state r") (auto simp: srv_poll_read_def vm_poll_read_def srv_waiting_data_eq srv_waiting_length_eq)

subsection \<open>What is on the wire\<close>

definition chunk_body :: "vcrypto \<Rightarrow> aead_cipher option \<Rightarrow> bytes \<Rightarrow> bytes" where
  "chunk_body cr c p = (case c of None \<Rightarrow> p | Some a \<Rightarrow> sec_enc cr (ac_security a) (cipher_nonce a) p)"

definition chunk_of :: "vcrypto \<Rightarrow> aead_cipher option \<Rightarrow> bytes \<Rightarrow> bytes" where
  "chunk_of cr c p = (let b = chunk_body cr c p in to_be 2 (of_nat (length p + (if c = None then 0 else 16)) :: u16) @ b)"

abbreviation bump :: "aead_cipher option \<Rightarrow> aead_cipher option" where
  "bump \<equiv> map_option count_up"

fun chunks_of :: "vcrypto \<Rightarrow> aead_cipher option \<Rightarrow> bytes list \<Rightarrow> bytes" where
  "chunks_of cr c [] = []"
| "chunks_of cr c (p # ps) = chunk_of cr c p @ chunks_of cr (bump c) ps"

definition max_payload :: "aead_cipher option \<Rightarrow> nat" where
  "max_payload c = CHUNK_SIZE - (if c = None then 0 else 16)"

lemma max_payload_bump [simp]: "max_payload (bump c) = max_payload c"
  by (simp add: max_payload_def)

lemma max_payload_pos [simp]: "0 < max_payload c"
  by (simp add: max_payload_def CHUNK_SIZE_def)

lemma length_chunk_body:
  "vcrypto_ok cr \<Longrightarrow> length (chunk_body cr c p) = length p + (if c = None then 0 else 16)"
  by (cases c) (simp_all add: chunk_body_def sec_length)

lemma chunks_of_append: "chunks_of cr c (ps @ qs) = chunks_of cr c ps @ chunks_of cr ((bump ^^ length ps) c) qs"
  by (induction ps arbitrary: c) (simp_all add: funpow_swap1)

lemma funpow_bump_None [simp]: "(bump ^^ n) c = None \<longleftrightarrow> c = None"
  by (induction n) simp_all

lemma max_payload_funpow [simp]: "max_payload ((bump ^^ n) c) = max_payload c"
  by (induction n) simp_all

subsection \<open>Lemmas: writing\<close>

definition idle :: "aead_cipher option \<Rightarrow> bytes \<Rightarrow> chunk_writer \<Rightarrow> bool" where
  "idle c out w \<longleftrightarrow> w = \<lparr>cw_cipher = c, cw_state = BuildingData, cw_buf = [], cw_out = out\<rparr>"

definition midway :: "vcrypto \<Rightarrow> aead_cipher option \<Rightarrow> bytes \<Rightarrow> bytes \<Rightarrow> chunk_writer \<Rightarrow> bool" where
  "midway cr c out p w \<longleftrightarrow>
     (let ch = chunk_of cr c p in \<exists>k < length ch.
        w = \<lparr>cw_cipher = bump c, cw_state = FlushingData (length p) k (length ch), cw_buf = ch, cw_out = out @ take k ch\<rparr>)"

lemma idle_new: "idle c [] (chunk_writer_new c)"
  by (simp add: idle_def chunk_writer_new_def)

lemma chunk_of_nonempty [simp]: "chunk_of cr c p \<noteq> []"
  by (auto simp: chunk_of_def Let_def dest: arg_cong [where f = length])

lemma max_payload_nonzero [simp]: "max_payload c \<noteq> 0"
  using max_payload_pos [of c] by (simp del: max_payload_pos)

lemma take_min_length [simp]: "take (min (length xs) n) xs = take n xs"
  by (simp add: min_def)

lemma build_data_idle:
  assumes "idle c out w" and "p = take (max_payload c) buf"
  shows "build_data cr buf w =
    \<lparr>cw_cipher = bump c, cw_state = FlushingData (length p) 0 (length (chunk_of cr c p)), cw_buf = chunk_of cr c p, cw_out = out\<rparr>"
  using assms
  by (cases c) (simp_all add: build_data_def idle_def chunk_of_def chunk_body_def max_payload_def encrypt_inplace_def Let_def)

lemma flush_data_progress:
  assumes "flush_data as (length p) k (length ch) buf w = (res, w')" and "k < length ch"
    and "w = \<lparr>cw_cipher = c, cw_state = s, cw_buf = ch, cw_out = out @ take k ch\<rparr>"
  shows "res = OTaken (take (length p) buf) \<and> idle c (out @ ch) w' \<or>
    res \<in> {OPending, OErr} \<and> (\<exists>j < length ch.
      w' = \<lparr>cw_cipher = c, cw_state = FlushingData (length p) j (length ch), cw_buf = ch, cw_out = out @ take j ch\<rparr>)"
  using assms
proof (induction as arbitrary: k w)
  case (Cons a as)
  show ?case
  proof (cases a)
    case (WOk m)
    let ?piece = "take m (drop k ch)"
    have sl: "slice ch k (length ch) = drop k ch" by (simp add: slice_def)
    have tk: "take k ch @ ?piece = take (k + length ?piece) ch"
      using Cons.prems(2) by (simp add: take_add [symmetric] min_def)
    consider "?piece = []" | "?piece \<noteq> []" "k + length ?piece < length ch" | "?piece \<noteq> []" "\<not> k + length ?piece < length ch" by blast
    then show ?thesis
    proof cases
      case 2
      then have m: "k + m < length ch" by (auto simp: min_def split: if_splits)
      with 2 Cons.prems(1,3) WOk sl tk have "flush_data as (length p) (k + length ?piece) (length ch) buf
          (w\<lparr>cw_out := out @ take (k + length ?piece) ch\<rparr>) = (res, w')" by (auto simp: Let_def min_def)
      from Cons.IH [OF this 2(2)] Cons.prems(3) show ?thesis by simp
    next
      case 3
      then have "take (k + length ?piece) ch = ch" by simp
      with 3 Cons.prems WOk sl tk show ?thesis by (auto simp: Let_def idle_def)
    qed (use Cons.prems WOk sl in \<open>auto simp: Let_def\<close>)
  qed (use Cons.prems in auto)
qed auto

lemma poll_write_progress:
  assumes "idle c out w \<and> p = take (max_payload c) buf \<or> midway cr c out p w \<and> take (length p) buf = p"
    and "vm_poll_write cr as buf w = (res, w')"
  shows "res = OTaken p \<and> idle (bump c) (out @ chunk_of cr c p) w' \<or> res \<in> {OPending, OErr} \<and> midway cr c out p w'"
proof -
  let ?ch = "chunk_of cr c p"
  from assms obtain k w1 where f: "flush_data as (length p) k (length ?ch) buf w1 = (res, w')" "k < length ?ch"
    "w1 = \<lparr>cw_cipher = bump c, cw_state = FlushingData (length p) k (length ?ch), cw_buf = ?ch, cw_out = out @ take k ?ch\<rparr>"
  proof (elim disjE conjE)
    assume "idle c out w" "p = take (max_payload c) buf"
    with build_data_idle [OF this, of cr] assms(2) show thesis
      by (intro that [of 0]) (simp_all add: vm_poll_write_def idle_def Let_def)
  next
    assume "midway cr c out p w"
    with assms(2) show thesis using that by (auto simp: midway_def vm_poll_write_def Let_def)
  qed
  have t: "take (length p) buf = p" using assms(1) by auto
  from flush_data_progress [OF f] t show ?thesis by (auto simp: midway_def Let_def)
qed

lemma write_all_chunks:
  assumes "write_all (vm_poll_write cr) ass buf w = (WriteDone, w')"
    and "idle c out w \<or> buf \<noteq> [] \<and> midway cr c out (take (max_payload c) buf) w"
  shows "\<exists>ps. concat ps = buf \<and> (\<forall>p \<in> set ps. p \<noteq> [] \<and> length p \<le> max_payload c) \<and>
    idle ((bump ^^ length ps) c) (out @ chunks_of cr c ps) w'"
  using assms
proof (induction ass arbitrary: buf w c out)
  case Nil
  then show ?case by (auto split: if_splits intro: exI [of _ "[]"])
next
  case (Cons as ass)
  show ?case
  proof (cases "buf = []")
    case True
    with Cons.prems show ?thesis by (auto intro: exI [of _ "[]"])
  next
    case False
    let ?p = "take (max_payload c) buf"
    obtain res w1 where pw: "vm_poll_write cr as buf w = (res, w1)" by (cases "vm_poll_write cr as buf w")
    have "idle c out w \<and> ?p = ?p \<or> midway cr c out ?p w \<and> take (length ?p) buf = ?p"
      using Cons.prems(2) by (auto simp: min_def)
    from poll_write_progress [OF this pw] consider
        "res = OTaken ?p" "idle (bump c) (out @ chunk_of cr c ?p) w1"
      | "res = OPending" "midway cr c out ?p w1" | "res = OErr" by auto
    then show ?thesis
    proof cases
      case 1
      have ne: "?p \<noteq> []" using False by simp
      have d: "drop (length ?p) buf = drop (max_payload c) buf" by (simp add: min_def)
      from Cons.prems(1) pw 1 False ne have "write_all (vm_poll_write cr) ass (drop (max_payload c) buf) w1 = (WriteDone, w')"
        by (simp only: write_all.simps if_False pw prod.case poll_out.case d simp_thms)
      from Cons.IH [OF this disjI1 [OF 1(2)]] obtain ps where ps: "concat ps = drop (max_payload c) buf"
        "\<forall>p \<in> set ps. p \<noteq> [] \<and> length p \<le> max_payload c"
        "idle ((bump ^^ length ps) (bump c)) (out @ chunk_of cr c ?p @ chunks_of cr (bump c) ps) w'" by auto
      with ne show ?thesis by (intro exI [of _ "?p # ps"]) (simp add: funpow_swap1)
    next
      case 2
      with Cons.prems(1) pw False have "write_all (vm_poll_write cr) ass buf w1 = (WriteDone, w')" by simp
      from Cons.IH [OF this] 2(2) False show ?thesis by blast
    next
      case 3
      with Cons.prems(1) pw False show ?thesis by simp
    qed
  qed
qed

lemma write_bufs_chunks:
  assumes "write_bufs (vm_poll_write cr) bufs w = (WriteDone, w')" and "idle c out w"
  shows "\<exists>ps. concat ps = concat (map snd bufs) \<and> (\<forall>p \<in> set ps. p \<noteq> [] \<and> length p \<le> max_payload c) \<and>
    idle ((bump ^^ length ps) c) (out @ chunks_of cr c ps) w'"
  using assms
proof (induction "vm_poll_write cr" bufs w arbitrary: c out rule: write_bufs.induct)
  case (2 ass buf rest w)
  from "2.prems"(1) obtain w1 where w: "write_all (vm_poll_write cr) ass buf w = (WriteDone, w1)"
    "write_bufs (vm_poll_write cr) rest w1 = (WriteDone, w')" by (auto split: prod.splits write_end.splits)
  from write_all_chunks [OF w(1) disjI1 [OF "2.prems"(2)]] obtain ps where ps: "concat ps = buf"
    "\<forall>p \<in> set ps. p \<noteq> [] \<and> length p \<le> max_payload c" "idle ((bump ^^ length ps) c) (out @ chunks_of cr c ps) w1" by blast
  from "2.hyps" [OF w(1) [symmetric] refl w(2) ps(3)] obtain qs where "concat qs = concat (map snd rest)"
    "\<forall>p \<in> set qs. p \<noteq> [] \<and> length p \<le> max_payload c"
    "idle ((bump ^^ length qs) ((bump ^^ length ps) c)) ((out @ chunks_of cr c ps) @ chunks_of cr ((bump ^^ length ps) c) qs) w'" by auto
  moreover have "(bump ^^ (length ps + length qs)) c = (bump ^^ length qs) ((bump ^^ length ps) c)"
    by (subst add.commute) (simp add: funpow_add)
  ultimately show ?case using ps by (intro exI [of _ "ps @ qs"]) (auto simp: chunks_of_append)
qed (auto intro: exI [of _ "[]"])

subsection \<open>Lemmas: reading\<close>

text \<open>What a reader that is in order has before it: the rest of the chunk it is handing out, and
  the payloads of the chunks still in its buffer and on the connection.\<close>

definition reader_at :: "vcrypto \<Rightarrow> bytes \<Rightarrow> bytes list \<Rightarrow> stream \<Rightarrow> chunk_reader \<Rightarrow> bool" where
  "reader_at cr cur ps st r \<longleftrightarrow>
     vcrypto_ok cr \<and> Failed \<notin> set st \<and> (\<forall>p \<in> set ps. p \<noteq> [] \<and> length p \<le> max_payload (cr_cipher r)) \<and>
     (case cr_state r of
        StreamWaitingLength \<Rightarrow> cur = [] \<and> cr_read_buf r @ wire st = chunks_of cr (cr_cipher r) ps
      | StreamWaitingData n \<Rightarrow> cur = [] \<and> (\<exists>p qs. ps = p # qs \<and> n = length (chunk_body cr (cr_cipher r) p) \<and>
          cr_read_buf r @ wire st = chunk_body cr (cr_cipher r) p @ chunks_of cr (bump (cr_cipher r)) qs)
      | StreamFlushingData n \<Rightarrow> cur \<noteq> [] \<and> n = length cur \<and> cr_chunk r = cur \<and>
          cr_read_buf r @ wire st = chunks_of cr (cr_cipher r) ps
      | StreamClosed \<Rightarrow> cur = [] \<and> ps = []
      | _ \<Rightarrow> False)"

fun next_read :: "nat \<Rightarrow> bytes \<Rightarrow> bytes list \<Rightarrow> bytes \<times> bytes \<times> bytes list" where
  "next_read room [] [] = ([], [], [])"
| "next_read room [] (p # ps) = (take room p, drop room p, ps)"
| "next_read room (x # xs) ps = (take room (x # xs), drop room (x # xs), ps)"

text \<open>A poll takes nothing away, delivers the next bytes of the current chunk, or finds the end.\<close>

definition poll_fair :: "(bytes \<Rightarrow> bytes list \<Rightarrow> stream \<Rightarrow> chunk_reader \<Rightarrow> bool) \<Rightarrow> nat \<Rightarrow> bytes \<Rightarrow> bytes list \<Rightarrow> stream \<Rightarrow> read_out \<times> stream \<times> chunk_reader \<Rightarrow> bool" where
  "poll_fair at room cur ps st out =
     (case out of (res, st', r') \<Rightarrow>
        (case res of
           ROPending \<Rightarrow> at cur ps st' r' \<and> length st' < length st
         | ROErr e \<Rightarrow> False
         | ROReady b \<Rightarrow>
             if cur = [] \<and> ps = [] then b = []
             else length st' \<le> length st \<and> b \<noteq> [] \<and>
               (case next_read room cur ps of (b', cur', ps') \<Rightarrow> b = b' \<and> at cur' ps' st' r')))"

lemma poll_fair_mono:
  "poll_fair at room cur ps st out \<Longrightarrow> (\<And>cur ps st r. at cur ps st r \<Longrightarrow> at' cur ps st r) \<Longrightarrow> length st \<le> length st0 \<Longrightarrow>
    poll_fair at' room cur ps st0 out"
  by (auto simp: poll_fair_def split: prod.splits read_out.splits if_splits)

lemma poll_fill_fair:
  assumes "poll_fill st buf n e = (res, st', buf')"
  shows "length st' \<le> length st \<and> set st' \<subseteq> set st"
  using assms by (induction st buf n e rule: poll_fill.induct) (fastforce split: if_splits poll_read.splits)+

lemma poll_fill_at_end:
  assumes "poll_fill st [] n True = (res, st', buf')" and "wire st = []" and "Failed \<notin> set st" and "0 < n"
  shows "res = CleanEof \<or> res = FillPending \<and> wire st' = [] \<and> buf' = []"
  using assms by (cases st) (auto simp: fill_eof_def split: if_splits poll_read.splits)

text \<open>\<open>filled\<close> when the bytes are under way.\<close>

lemma filled_enough:
  assumes "need \<le> length (cr_read_buf r @ wire st)" and "Failed \<notin> set st"
    and pend: "\<And>st' buf. buf @ wire st' = cr_read_buf r @ wire st \<Longrightarrow> length st' < length st \<Longrightarrow> Failed \<notin> set st' \<Longrightarrow>
      poll_ok (ROPending, st', r\<lparr>cr_read_buf := buf\<rparr>)"
    and go: "\<And>st' buf. need \<le> length buf \<Longrightarrow> buf @ wire st' = cr_read_buf r @ wire st \<Longrightarrow> length st' \<le> length st \<Longrightarrow> Failed \<notin> set st' \<Longrightarrow>
      poll_ok (k True st' (r\<lparr>cr_read_buf := buf\<rparr>))"
  shows "poll_ok (filled need e st r k)"
proof -
  obtain res st' buf where p: "poll_fill st (cr_read_buf r) need e = (res, st', buf)" by (cases "poll_fill st (cr_read_buf r) need e")
  note f = poll_fill_fair [OF p] and q = poll_fill_enough [OF assms(1) p]
  show ?thesis
  proof (cases "res = FillPending")
    case True
    with p q f assms(2) pend [of buf st'] poll_fill_pending_shorter [of st "cr_read_buf r" need e st' buf] show ?thesis
      by (auto simp: filled_def)
  next
    case False
    with p q f assms(2) go [of buf st'] show ?thesis by (auto simp: filled_def)
  qed
qed

lemma flushing_fair:
  assumes "vcrypto_ok cr" and "Failed \<notin> set st" and "\<forall>p \<in> set ps. p \<noteq> [] \<and> length p \<le> max_payload (cr_cipher r)"
    and "cur \<noteq> []" and "n = length cur" and "cr_chunk r = cur" and "cr_read_buf r @ wire st = chunks_of cr (cr_cipher r) ps"
    and "0 < room" and "length st \<le> length st0" and "cr_state r = StreamFlushingData n"
    and "next_read room cur0 ps0 = (take room cur, drop room cur, ps)" and "cur0 \<noteq> [] \<or> ps0 \<noteq> []"
  shows "poll_fair (reader_at cr) room cur0 ps0 st0 (flushing_data room n st r)"
  using assms by (auto simp: flushing_data_def poll_fair_def reader_at_def Let_def min_def split: if_splits)

lemma waiting_data_fair:
  assumes "reader_at cr [] (p # ps) st r" and "cr_state r = StreamWaitingData n" and "0 < room" and "length st \<le> length st0"
  shows "poll_fair (reader_at cr) room [] (p # ps) st0 (waiting_data cr room n st r)"
proof -
  let ?body = "chunk_body cr (cr_cipher r) p"
  from assms(1,2) have ok: "vcrypto_ok cr" and nf: "Failed \<notin> set st"
    and ps: "\<forall>p \<in> set (p # ps). p \<noteq> [] \<and> length p \<le> max_payload (cr_cipher r)"
    and n: "n = length ?body" and w: "cr_read_buf r @ wire st = ?body @ chunks_of cr (bump (cr_cipher r)) ps"
    by (auto simp: reader_at_def)
  show ?thesis unfolding waiting_data_def
  proof (rule filled_enough, goal_cases)
    case 1
    show ?case using n w by simp
  next
    case 2
    show ?case by (rule nf)
  next
    case (3 st' buf)
    then show ?case using ok ps n w assms(2,4) by (auto simp: poll_fair_def reader_at_def)
  next
    case b: (4 st' buf)
    from b(1,2) n w have t: "take n buf = ?body" "drop n buf @ wire st' = chunks_of cr (bump (cr_cipher r)) ps"
      by (simp_all add: append_eq_append_conv_if split: if_splits)
    show ?case
    proof (cases "cr_cipher r")
      case None
      with t n ok b ps assms(3,4) show ?thesis
        by (auto simp: split_to_def Let_def chunk_body_def intro!: flushing_fair)
    next
      case (Some c)
      with n ok have len: "n = length p + 16" by (simp add: length_chunk_body)
      have "decrypt_inplace cr ?body c = (Some (p @ drop (length ?body - 16) ?body), count_up c)"
        using Some ok by (simp add: decrypt_inplace_def chunk_body_def sec_opens)
      with Some t len ok b ps assms(3,4) show ?thesis
        by (auto simp: split_to_def Let_def max_payload_def intro!: flushing_fair)
    qed
  qed
qed

lemma waiting_length_fair:
  assumes "reader_at cr [] ps st r" and "cr_state r = StreamWaitingLength" and "0 < room"
  shows "poll_fair (reader_at cr) room [] ps st (waiting_length cr room st r)"
proof (cases ps)
  case Nil
  with assms have b: "cr_read_buf r = []" "wire st = []" "Failed \<notin> set st" "vcrypto_ok cr" by (auto simp: reader_at_def)
  obtain res st' buf where p: "poll_fill st [] 2 True = (res, st', buf)" by (cases "poll_fill st [] 2 True")
  from poll_fill_at_end [OF p b(2,3)] poll_fill_fair [OF p] poll_fill_pending_shorter [of st "[]" 2 True st' buf] p b Nil assms(2)
  show ?thesis by (auto simp: waiting_length_def filled_def poll_fair_def reader_at_def)
next
  case (Cons p qs)
  let ?c = "cr_cipher r"
  from assms Cons have ok: "vcrypto_ok cr" and nf: "Failed \<notin> set st" and ps: "\<forall>p \<in> set ps. p \<noteq> [] \<and> length p \<le> max_payload ?c"
    and w: "cr_read_buf r @ wire st = chunk_of cr ?c p @ chunks_of cr (bump ?c) qs" by (auto simp: reader_at_def)
  let ?n = "length p + (if ?c = None then 0 else 16)"
  have le: "?n \<le> CHUNK_SIZE" using ps Cons by (auto simp: max_payload_def CHUNK_SIZE_def split: if_splits)
  have ch: "chunk_of cr ?c p = to_be 2 (of_nat ?n :: u16) @ chunk_body cr ?c p" by (simp add: chunk_of_def Let_def)
  show ?thesis unfolding waiting_length_def
  proof (rule filled_enough, goal_cases)
    case 1
    show ?case unfolding w ch by simp
  next
    case 2
    show ?case by (rule nf)
  next
    case (3 st' buf)
    then show ?case using ok ps w assms(2) Cons by (auto simp: poll_fair_def reader_at_def)
  next
    case b: (4 st' buf)
    from b(1,2) w ch have t: "take 2 buf = to_be 2 (of_nat ?n :: u16)" "drop 2 buf @ wire st' = chunk_body cr ?c p @ chunks_of cr (bump ?c) qs"
      by (simp_all add: append_eq_append_conv_if split: if_splits)
    have l: "unat (from_be (take 2 buf) :: u16) = ?n" unfolding t(1)
      using le by (simp add: from_be_to_be_id unat_of_nat_u16 CHUNK_SIZE_def del: of_nat_add)
    let ?r = "r\<lparr>cr_read_buf := drop 2 buf, cr_state := StreamWaitingData ?n\<rparr>"
    have "reader_at cr [] (p # qs) st' ?r" using ok ps b t Cons by (auto simp: reader_at_def length_chunk_body)
    from waiting_data_fair [OF this _ assms(3) b(3)] have "poll_fair (reader_at cr) room [] (p # qs) st (waiting_data cr room ?n st' ?r)" by simp
    with l le Cons show ?case by (simp add: split_to_def Let_def MAX_CHUNK_SIZE_def CHUNK_SIZE_def)
  qed
qed

lemma vm_poll_read_fair:
  assumes "reader_at cr cur ps st r" and "0 < room"
  shows "poll_fair (reader_at cr) room cur ps st (vm_poll_read cr rp room st r)"
proof (cases "cr_state r")
  case StreamWaitingLength
  with assms waiting_length_fair [of cr ps st r room] show ?thesis by (auto simp: vm_poll_read_def reader_at_def)
next
  case (StreamWaitingData n)
  with assms obtain p qs where "ps = p # qs" "cur = []" by (auto simp: reader_at_def)
  with StreamWaitingData assms waiting_data_fair [of cr p qs st r n room st] show ?thesis by (simp add: vm_poll_read_def)
next
  case (StreamFlushingData n)
  with assms show ?thesis by (cases cur) (auto simp: vm_poll_read_def reader_at_def intro!: flushing_fair)
qed (use assms in \<open>auto simp: vm_poll_read_def reader_at_def poll_fair_def\<close>)

lemma srv_poll_read_fair:
  assumes "reader_at cr cur ps st r" and "0 < room"
  shows "poll_fair (reader_at cr) room cur ps st (srv_poll_read cr room st r)"
proof -
  have "cr_state r \<notin> {AeadWaitingHeaderSize} \<union> range AeadWaitingHeader" using assms(1) by (auto simp: reader_at_def)
  from srv_poll_read_eq [OF this] vm_poll_read_fair [OF assms] show ?thesis by simp
qed

subsection \<open>Readers\<close>

text \<open>What both streams promise to whoever reads from them.\<close>

locale chunk_source =
  fixes at :: "bytes \<Rightarrow> bytes list \<Rightarrow> stream \<Rightarrow> chunk_reader \<Rightarrow> bool"
    and pr :: "nat \<Rightarrow> stream \<Rightarrow> chunk_reader \<Rightarrow> read_out \<times> stream \<times> chunk_reader"
  assumes fair: "at cur ps st r \<Longrightarrow> 0 < room \<Longrightarrow> poll_fair at room cur ps st (pr room st r)"
    and bounded: "at cur ps st r \<Longrightarrow> \<forall>p \<in> set ps. length p \<le> CHUNK_SIZE"
begin

lemma poll_cases:
  assumes "at cur ps st r" and "0 < room"
  obtains (pending) st' r' where "pr room st r = (ROPending, st', r')" and "at cur ps st' r'" and "length st' < length st"
  | (bytes) b cur' ps' st' r' where "pr room st r = (ROReady b, st', r')" and "b \<noteq> []" and "next_read room cur ps = (b, cur', ps')"
      and "at cur' ps' st' r'" and "length st' \<le> length st"
  | (eof) st' r' where "pr room st r = (ROReady [], st', r')" and "cur = []" and "ps = []"
proof (cases "pr room st r")
  case (fields res st' r')
  with fair [OF assms] that show thesis
    by (cases res) (auto simp: poll_fair_def split: if_splits prod.splits)
qed

text \<open>A byte reader gets the data in order, and all of it with enough polls.\<close>

lemma reads_data:
  assumes "at cur ps st r" and "\<forall>room \<in> set rooms. 0 < room"
  shows "\<exists>rest. cur @ concat ps = concat (fst (chunk_reads pr rooms st r)) @ rest \<and>
    (snd (chunk_reads pr rooms st r) = ReadOpen \<or> snd (chunk_reads pr rooms st r) = ReadEof \<and> rest = []) \<and>
    (length st + length (cur @ concat ps) < length rooms \<longrightarrow> snd (chunk_reads pr rooms st r) = ReadEof)"
  using assms
proof (induction rooms arbitrary: cur ps st r)
  case (Cons room rooms)
  from Cons.prems(2) have pos: "0 < room" "\<forall>room \<in> set rooms. 0 < room" by simp_all
  from Cons.prems(1) pos(1) show ?case
  proof (cases rule: poll_cases)
    case (pending st' r')
    with Cons.IH [OF pending(2) pos(2)] show ?thesis by (auto 0 3)
  next
    case (bytes b cur' ps' st' r')
    then have "cur @ concat ps = b @ cur' @ concat ps'" by (cases "(room, cur, ps)" rule: next_read.cases) auto
    moreover obtain x xs where "b = x # xs" using bytes(2) by (cases b) simp_all
    moreover obtain rest where "cur' @ concat ps' = concat (fst (chunk_reads pr rooms st' r')) @ rest"
      "snd (chunk_reads pr rooms st' r') = ReadOpen \<or> snd (chunk_reads pr rooms st' r') = ReadEof \<and> rest = []"
      "length st' + length (cur' @ concat ps') < length rooms \<longrightarrow> snd (chunk_reads pr rooms st' r') = ReadEof"
      using Cons.IH [OF bytes(4) pos(2)] by blast
    ultimately show ?thesis using bytes(1,2,5) by (intro exI [of _ rest]) (auto simp: split_beta)
  next
    case (eof st' r')
    then show ?thesis by simp
  qed
qed simp

text \<open>A reader whose buffer holds any chunk gets exactly one payload per read.\<close>

lemma reads_packets:
  assumes "at [] ps st r" and "\<forall>room \<in> set rooms. CHUNK_SIZE \<le> room"
  shows "\<exists>rest. ps = fst (chunk_reads pr rooms st r) @ rest \<and>
    (snd (chunk_reads pr rooms st r) = ReadOpen \<or> snd (chunk_reads pr rooms st r) = ReadEof \<and> rest = []) \<and>
    (length st + length ps < length rooms \<longrightarrow> snd (chunk_reads pr rooms st r) = ReadEof)"
  using assms
proof (induction rooms arbitrary: ps st r)
  case (Cons room rooms)
  from Cons.prems(2) have room: "CHUNK_SIZE \<le> room" "0 < room" "\<forall>room \<in> set rooms. CHUNK_SIZE \<le> room" by (auto simp: CHUNK_SIZE_def)
  from Cons.prems(1) room(2) show ?case
  proof (cases rule: poll_cases)
    case (pending st' r')
    with Cons.IH [OF pending(2) room(3)] show ?thesis by auto
  next
    case (bytes b cur' ps' st' r')
    then obtain p where p: "ps = p # ps'" "b = take room p" "cur' = drop room p" by (cases ps) auto
    with bounded [OF Cons.prems(1)] have "length p \<le> CHUNK_SIZE" by simp
    with p room(1) have "b = p" "cur' = []" by simp_all
    with p bytes Cons.IH [of ps' st' r'] room(3) show ?thesis by (auto simp: split_beta split: if_splits)
  next
    case (eof st' r')
    then show ?thesis by simp
  qed
qed simp

end

lemma reader_at_bounded: "reader_at cr cur ps st r \<Longrightarrow> \<forall>p \<in> set ps. length p \<le> CHUNK_SIZE"
  by (auto simp: reader_at_def max_payload_def)

interpretation server_source: chunk_source "reader_at cr" "srv_poll_read cr" for cr
  by unfold_locales (rule srv_poll_read_fair, assumption+, rule reader_at_bounded)

text \<open>A fresh reader under the writer's cipher.\<close>

lemma reader_at_start:
  assumes "vcrypto_ok cr" and "Failed \<notin> set st" and "cr_state r = StreamWaitingLength"
    and "cr_read_buf r @ wire st = chunks_of cr (cr_cipher r) ps" and "\<forall>p \<in> set ps. p \<noteq> [] \<and> length p \<le> max_payload (cr_cipher r)"
  shows "reader_at cr [] ps st r"
  using assms by (simp add: reader_at_def)

end
