(* ===== verification/Vmess.thy ===== *)
theory Vmess
  imports Vmess_Chunk Dialogue
begin

text \<open>
  The VMess handshake and the sessions on it: the client of
  \<open>src/src/proxy/outbound/vmess/\<close> (\<open>client.rs\<close>, \<open>stream.rs\<close>, \<open>datagram.rs\<close>, \<open>mod.rs\<close>) and the server of
  \<open>src/src/proxy/inbound/vmess.rs\<close>. The client seals a request header under its user's key; the
  server tries the keys of its users on the sealed length, opens the header, answers with a sealed
  response header and reads and writes chunks under keys from the request. Random bytes and the
  time are arguments.
\<close>

definition VERSION :: u8 where "VERSION = 1"
definition OPTION_CHUNK_STREAM :: u8 where "OPTION_CHUNK_STREAM = 1"
definition SECURITY_AES_128_GCM :: u8 where "SECURITY_AES_128_GCM = 3"
definition SECURITY_CHACHA20_POLY1305 :: u8 where "SECURITY_CHACHA20_POLY1305 = 4"
definition SECURITY_NONE :: u8 where "SECURITY_NONE = 5"
definition COMMAND_TCP :: u8 where "COMMAND_TCP = 1"
definition COMMAND_UDP :: u8 where "COMMAND_UDP = 2"

lemmas vmess_consts = VERSION_def OPTION_CHUNK_STREAM_def SECURITY_AES_128_GCM_def SECURITY_CHACHA20_POLY1305_def
  SECURITY_NONE_def COMMAND_TCP_def COMMAND_UDP_def

datatype vmess_error =
    InvalidUuid
  | InvalidSecurity
  | UnsupportedSecurity
  | AuthFailed
  | HeaderDecrypt
  | HeaderTooShort
  | UnsupportedVersion u8
  | AddrTooShort
  | ShortIpv4
  | ShortDomain
  | ShortDomainBytes
  | ShortIpv6
  | UnsupportedAtyp u8
  | SealFailed
  | VmessConfig config_error
  | RequiresUuid
  | NoUsers
  | UserNotUuid bytes

subsection \<open>Addresses\<close>

fun write_to_buf_vmess :: "target_addr \<Rightarrow> bytes" where
  "write_to_buf_vmess (Ip (SockV4 a p)) = to_be 2 p @ [1] @ to_be 4 a"
| "write_to_buf_vmess (Ip (SockV6 a p _ _)) = to_be 2 p @ [3] @ to_be 16 a"
| "write_to_buf_vmess (Domain d p) = to_be 2 p @ [2] @ [of_nat (length d)] @ d"

definition read_vmess_addr :: "bytes \<Rightarrow> vmess_error + target_addr" where
  "read_vmess_addr buf0 =
     (if length buf0 < 3 then Inl AddrTooShort
      else
        let p = from_be (take 2 buf0) :: u16; atyp = buf0 ! 2; buf = drop 3 buf0
        in if atyp = 1 then
             if length buf < 4 then Inl ShortIpv4 else Inr (Ip (sock_new (V4 (from_be (take 4 buf))) p))
           else if atyp = 2 then
             if buf = [] then Inl ShortDomain
             else
               let len = unat (buf ! 0)
               in if length buf < 1 + len then Inl ShortDomainBytes
                  else Inr (Domain (from_utf8_lossy (slice buf 1 (1 + len))) p)
           else if atyp = 3 then
             if length buf < 16 then Inl ShortIpv6 else Inr (Ip (sock_new (V6 (from_be (take 16 buf))) p))
           else Inl (UnsupportedAtyp atyp))"

text \<open>What arrives of an address: an IPv6 scope and flow label are not transmitted.\<close>

fun vm_arrives :: "target_addr \<Rightarrow> target_addr" where
  "vm_arrives (Ip a) = Ip (sock_new (sock_ip a) (sock_port a))"
| "vm_arrives (Domain d p) = Domain d p"

lemma read_vmess_addr_written:
  assumes "encodable t"
  shows "read_vmess_addr (write_to_buf_vmess t) = Inr (vm_arrives t)"
proof (cases t rule: write_to_buf_vmess.cases)
  case (3 d p)
  with assms have "unat (of_nat (length d) :: u8) = length d" "from_utf8_lossy d = d"
    by (simp_all add: unat_of_nat_u8 from_utf8_lossy_valid)
  with 3 show ?thesis by (simp add: read_vmess_addr_def Let_def slice_def nth_append from_be_to_be_id)
qed (simp_all add: read_vmess_addr_def Let_def nth_append from_be_to_be_id)

subsection \<open>The client\<close>

record vmess_option =
  vo_uuid :: bytes
  vo_alter_id :: u16
  vo_security :: bytes
  vo_udp :: bool
  vo_dst :: target_addr

record vmess_builder =
  vb_user :: "vmess_id list"
  vb_security :: u8
  vb_is_aead :: bool
  vb_is_udp :: bool
  vb_dst :: target_addr

text \<open>The cipher names are ASCII, so lower-casing matters only for ASCII; \<open>arch\<close> is the target's
  architecture.\<close>

definition builder_security :: "bytes \<Rightarrow> bytes \<Rightarrow> vmess_error + u8" where
  "builder_security arch name =
     (let s = map to_ascii_lower name
      in if s = str ''chacha20-poly1305'' then Inr SECURITY_CHACHA20_POLY1305
         else if s = str ''aes-128-gcm'' then Inr SECURITY_AES_128_GCM
         else if s = str ''none'' then Inr SECURITY_NONE
         else if s = str ''auto'' then
           Inr (if arch \<in> {str ''x86_64'', str ''s390x'', str ''aarch64''} then SECURITY_AES_128_GCM else SECURITY_CHACHA20_POLY1305)
         else Inl InvalidSecurity)"

definition builder_new :: "vcrypto \<Rightarrow> bytes \<Rightarrow> vmess_option \<Rightarrow> vmess_error + vmess_builder" where
  "builder_new cr arch opt =
     bindr (ok_or InvalidUuid (cr_parse_uuid cr (vo_uuid opt))) (\<lambda>uuid.
     bindr (builder_security arch (vo_security opt)) (\<lambda>security.
       Inr \<lparr>vb_user = new_alter_id_list (crypto.truncate cr) (new_id (crypto.truncate cr) uuid) (vo_alter_id opt),
            vb_security = security, vb_is_aead = (vo_alter_id opt = 0), vb_is_udp = vo_udp opt, vb_dst = vo_dst opt\<rparr>))"

record vmess_stream =
  vm_reader :: chunk_reader
  vm_writer :: chunk_writer
  vm_dst :: target_addr
  vm_id :: vmess_id
  vm_req_body_iv :: bytes
  vm_req_body_key :: bytes
  vm_resp :: resp_params
  vm_security :: u8
  vm_is_udp :: bool

definition chacha_key :: "vcrypto \<Rightarrow> bytes \<Rightarrow> bytes" where
  "chacha_key cr key16 = (let front = cr_md5 cr key16 in front @ cr_md5 cr front)"

definition client_ciphers :: "vcrypto \<Rightarrow> u8 \<Rightarrow> bytes \<Rightarrow> bytes \<Rightarrow> bytes \<Rightarrow> bytes \<Rightarrow>
    vmess_error + aead_cipher option \<times> aead_cipher option" where
  "client_ciphers cr security req_iv req_key resp_iv resp_key =
     (if security = SECURITY_NONE then Inr (None, None)
      else if security = SECURITY_AES_128_GCM then
        Inr (Some (aead_cipher_new resp_iv (Aes128Gcm resp_key)), Some (aead_cipher_new req_iv (Aes128Gcm req_key)))
      else if security = SECURITY_CHACHA20_POLY1305 then
        Inr (Some (aead_cipher_new resp_iv (ChaCha20Poly1305 (cr_md5 cr resp_key @ cr_md5 cr (cr_md5 cr resp_key)))),
             Some (aead_cipher_new req_iv (ChaCha20Poly1305 (cr_md5 cr req_key @ cr_md5 cr (cr_md5 cr req_key)))))
      else Inl UnsupportedSecurity)"

text \<open>\<open>VmessStream::new\<close> up to the handshake; the 33 random bytes are an argument.\<close>

definition vmess_stream_new :: "vcrypto \<Rightarrow> bytes \<Rightarrow> vmess_id \<Rightarrow> target_addr \<Rightarrow> u8 \<Rightarrow> bool \<Rightarrow> bool \<Rightarrow> vmess_error + vmess_stream" where
  "vmess_stream_new cr rand_bytes i dst security is_aead is_udp =
     (let req_iv = slice rand_bytes 0 16; req_key = slice rand_bytes 16 32; resp_v = rand_bytes ! 32;
          (resp_key, resp_iv) = (if is_aead then (take 16 (cr_sha256 cr req_key), take 16 (cr_sha256 cr req_iv))
                                 else (cr_md5 cr req_key, cr_md5 cr req_iv))
      in bindr (client_ciphers cr security req_iv req_key resp_iv resp_key) (\<lambda>(read_cipher, write_cipher).
           Inr \<lparr>vm_reader = \<lparr>cr_cipher = read_cipher, cr_state = AeadWaitingHeaderSize, cr_read_buf = [], cr_chunk = []\<rparr>,
                vm_writer = chunk_writer_new write_cipher, vm_dst = dst, vm_id = i,
                vm_req_body_iv = req_iv, vm_req_body_key = req_key,
                vm_resp = \<lparr>rp_key = resp_key, rp_iv = resp_iv, rp_v = resp_v, rp_is_aead = is_aead\<rparr>,
                vm_security = security, vm_is_udp = is_udp\<rparr>))"

definition hash_timestamp :: "vcrypto \<Rightarrow> u64 \<Rightarrow> bytes" where
  "hash_timestamp cr now = cr_md5 cr (show_nat (unat now))"

definition aes_cfb_encrypt :: "vcrypto \<Rightarrow> bytes \<Rightarrow> bytes \<Rightarrow> bytes \<Rightarrow> bytes option" where
  "aes_cfb_encrypt cr key iv data = (if length key = 16 then Some (vc_cfb_enc cr key iv data) else None)"

record handshake_rand =
  hr_p :: nat
  hr_padding :: bytes
  hr_auth :: bytes
  hr_nonce :: bytes

definition request_header :: "vcrypto \<Rightarrow> handshake_rand \<Rightarrow> vmess_stream \<Rightarrow> bytes" where
  "request_header cr h s =
     (let buf = [VERSION] @ vm_req_body_iv s @ vm_req_body_key s @ [rp_v (vm_resp s)] @ [OPTION_CHUNK_STREAM] @
            [push_bit 4 (of_nat (hr_p h)) OR vm_security s] @ [0] @ [if vm_is_udp s then COMMAND_UDP else COMMAND_TCP] @
            write_to_buf_vmess (vm_dst s) @ (if hr_p h > 0 then hr_padding h else [])
      in buf @ to_be 4 (vc_fnv1a cr buf))"

definition send_handshake_request :: "vcrypto \<Rightarrow> u64 \<Rightarrow> handshake_rand \<Rightarrow> vmess_stream \<Rightarrow> bytes option" where
  "send_handshake_request cr now h s =
     (let buf = request_header cr h s
      in if \<not> rp_is_aead (vm_resp s) then
           Option.bind (aes_cfb_encrypt cr (id_cmd_key (vm_id s)) (hash_timestamp cr now) buf) (\<lambda>data.
             Some (hmac_md5 cr (id_uuid (vm_id s)) (to_be 8 now) @ data))
         else seal_vmess_aead_header cr (id_cmd_key (vm_id s)) buf now (hr_auth h) (hr_nonce h))"

text \<open>\<open>VmessOutbound\<close>: the cipher comes from the UDP mode of the configuration, the number of
  alternative ids from its user name. \<open>proxy_stream\<close> picks one of the ids at random.\<close>

record vmess_outbound =
  vx_tag :: bytes
  vx_server :: target_addr
  vx_uuid :: bytes
  vx_alter_id :: u16
  vx_security :: bytes
  vx_connect_timeout :: nat

definition vmess_outbound_new :: "bytes \<Rightarrow> outbound_config \<Rightarrow> vmess_error + vmess_outbound" where
  "vmess_outbound_new tag cfg =
     (case out_endpoint cfg of
        Inl e \<Rightarrow> Inl (VmessConfig e)
      | Inr server \<Rightarrow>
          bindr (required RequiresUuid (ob_uuid cfg)) (\<lambda>uuid.
            Inr \<lparr>vx_tag = tag, vx_server = server, vx_uuid = uuid,
                 vx_alter_id = of_nat (unwrap_or (Option.bind (ob_username cfg) (parse_uint 65535)) 0),
                 vx_security = out_udp_mode_or cfg (str ''auto''), vx_connect_timeout = out_connect_timeout cfg\<rparr>))"

definition build_vmess_option :: "vmess_outbound \<Rightarrow> target_addr \<Rightarrow> bool \<Rightarrow> vmess_option" where
  "build_vmess_option ob target udp =
     \<lparr>vo_uuid = vx_uuid ob, vo_alter_id = vx_alter_id ob, vo_security = vx_security ob, vo_udp = udp, vo_dst = target\<rparr>"

definition builder_proxy_stream :: "vcrypto \<Rightarrow> nat \<Rightarrow> bytes \<Rightarrow> vmess_builder \<Rightarrow> vmess_error + vmess_stream" where
  "builder_proxy_stream cr idx rnd b =
     vmess_stream_new cr rnd (vb_user b ! idx) (vb_dst b) (vb_security b) (vb_is_aead b) (vb_is_udp b)"

definition vmess_proxy_stream :: "vcrypto \<Rightarrow> bytes \<Rightarrow> nat \<Rightarrow> bytes \<Rightarrow> vmess_outbound \<Rightarrow> target_addr \<Rightarrow> bool \<Rightarrow> vmess_error + vmess_stream" where
  "vmess_proxy_stream cr arch idx rnd ob target udp =
     bindr (builder_new cr arch (build_vmess_option ob target udp)) (builder_proxy_stream cr idx rnd)"

text \<open>Whatever id is picked, the stream has the command key of the configured uuid, and is an AEAD
  stream exactly when there are no alternative ids.\<close>

lemma vmess_proxy_stream_ok:
  assumes "vmess_proxy_stream cr arch idx rnd ob target udp = Inr s" and "idx \<le> unat (vx_alter_id ob)"
  shows "\<exists>uuid security. cr_parse_uuid cr (vx_uuid ob) = Some uuid \<and> builder_security arch (vx_security ob) = Inr security \<and>
    (\<exists>i. id_cmd_key i = cmd_key (crypto.truncate cr) uuid \<and> vmess_stream_new cr rnd i target security (vx_alter_id ob = 0) udp = Inr s)"
proof -
  from assms(1) obtain uuid security where u: "cr_parse_uuid cr (vx_uuid ob) = Some uuid" "builder_security arch (vx_security ob) = Inr security"
    and s: "vmess_stream_new cr rnd (new_alter_id_list (crypto.truncate cr) (new_id (crypto.truncate cr) uuid) (vx_alter_id ob) ! idx)
      target security (vx_alter_id ob = 0) udp = Inr s"
    by (auto simp: vmess_proxy_stream_def builder_new_def build_vmess_option_def builder_proxy_stream_def bindr_Inr_iff)
  have "new_alter_id_list (crypto.truncate cr) (new_id (crypto.truncate cr) uuid) (vx_alter_id ob) ! idx
      \<in> set (new_alter_id_list (crypto.truncate cr) (new_id (crypto.truncate cr) uuid) (vx_alter_id ob))"
    using assms(2) by (intro nth_mem) (simp add: length_new_alter_id_list)
  from new_alter_id_list_key [OF this] u s show ?thesis by (auto simp: new_id_def)
qed

subsection \<open>The server\<close>

text \<open>\<open>VmessInbound::new\<close>: at least one user, and every user name a uuid.\<close>

definition vmess_inbound_new :: "vcrypto \<Rightarrow> inbound_config \<Rightarrow> auth_user list \<Rightarrow> vmess_error + socket_addr \<times> auth_user list" where
  "vmess_inbound_new cr cfg users =
     (if users = [] then Inl NoUsers
      else case find (\<lambda>u. cr_parse_uuid cr (au_username u) = None) users of
        Some u \<Rightarrow> Inl (UserNotUuid (au_username u))
      | None \<Rightarrow> (case in_socket_addr cfg of Inl e \<Rightarrow> Inl (VmessConfig e) | Inr a \<Rightarrow> Inr (a, users)))"

record vmess_request =
  vq_dst :: target_addr
  vq_security :: u8
  vq_is_udp :: bool
  vq_req_body_iv :: bytes
  vq_req_body_key :: bytes
  vq_resp_v :: u8

definition parse_request :: "bytes \<Rightarrow> vmess_error + vmess_request" where
  "parse_request header =
     (if length header < 41 then Inl HeaderTooShort
      else if header ! 0 \<noteq> VERSION then Inl (UnsupportedVersion (header ! 0))
      else
        let req_body_iv = slice header 1 17; req_body_key = slice header 17 33; resp_v = header ! 33;
            pad_security = header ! 35; padding_len = unat (drop_bit 4 pad_security);
            security = pad_security AND 0x0F; cmd = header ! 37; cur = drop 38 header;
            stop = length cur - (4 + padding_len)
        in bindr (read_vmess_addr (take stop cur)) (\<lambda>dst.
             Inr \<lparr>vq_dst = dst, vq_security = security, vq_is_udp = (cmd = COMMAND_UDP), vq_req_body_iv = req_body_iv,
                  vq_req_body_key = req_body_key, vq_resp_v = resp_v\<rparr>))"

record vmess_server_stream =
  vs_dst :: target_addr
  vs_resp_v :: u8
  vs_is_udp :: bool
  vs_is_aead :: bool
  vs_reader :: chunk_reader
  vs_writer :: chunk_writer
  vs_resp_body_key :: bytes
  vs_resp_body_iv :: bytes

definition vmess_server_stream_new :: "vcrypto \<Rightarrow> vmess_request \<Rightarrow> vmess_server_stream" where
  "vmess_server_stream_new cr q =
     (let resp_key = take 16 (cr_sha256 cr (vq_req_body_key q)); resp_iv = take 16 (cr_sha256 cr (vq_req_body_iv q));
          (read_cipher, write_cipher) =
            (if vq_security q = SECURITY_AES_128_GCM then
               (Some (aead_cipher_new (vq_req_body_iv q) (Aes128Gcm (vq_req_body_key q))),
                Some (aead_cipher_new resp_iv (Aes128Gcm resp_key)))
             else if vq_security q = SECURITY_CHACHA20_POLY1305 then
               (Some (aead_cipher_new (vq_req_body_iv q) (ChaCha20Poly1305 (chacha_key cr (vq_req_body_key q)))),
                Some (aead_cipher_new resp_iv (ChaCha20Poly1305 (chacha_key cr resp_key))))
             else (None, None))
      in \<lparr>vs_dst = vq_dst q, vs_resp_v = vq_resp_v q, vs_is_udp = vq_is_udp q, vs_is_aead = True,
          vs_reader = \<lparr>cr_cipher = read_cipher, cr_state = StreamWaitingLength, cr_read_buf = [], cr_chunk = []\<rparr>,
          vs_writer = chunk_writer_new write_cipher, vs_resp_body_key = resp_key, vs_resp_body_iv = resp_iv\<rparr>)"

definition response_header :: "vcrypto \<Rightarrow> vmess_server_stream \<Rightarrow> bytes option" where
  "response_header cr s =
     (let payload = [vs_resp_v s, OPTION_CHUNK_STREAM, 0, 0]
      in if vs_is_aead s then
           let len_key = take 16 (vmess_kdf_1_one_shot cr (vs_resp_body_key s) SALT_RESP_LEN_KEY);
               len_iv = take 12 (vmess_kdf_1_one_shot cr (vs_resp_body_iv s) SALT_RESP_LEN_IV);
               key = take 16 (vmess_kdf_1_one_shot cr (vs_resp_body_key s) SALT_RESP_KEY);
               iv = take 12 (vmess_kdf_1_one_shot cr (vs_resp_body_iv s) SALT_RESP_IV)
           in Option.bind (aes_gcm_encrypt cr len_key len_iv (to_be 2 (of_nat (length payload) :: u16)) None) (\<lambda>l.
              Option.bind (aes_gcm_encrypt cr key iv payload None) (\<lambda>p. Some (l @ p)))
         else Some payload)"

text \<open>The sealed length of a header under a user's key.\<close>

definition open_length :: "vcrypto \<Rightarrow> bytes \<Rightarrow> bytes \<Rightarrow> bytes \<Rightarrow> bytes \<Rightarrow> u16 option" where
  "open_length cr key auth_id enc_len connection_nonce =
     (let len_key = take 16 (vmess_kdf_3_one_shot cr key SALT_HEADER_LEN_KEY auth_id connection_nonce);
          len_iv = take 12 (vmess_kdf_3_one_shot cr key SALT_HEADER_LEN_IV auth_id connection_nonce)
      in case aes_gcm_decrypt cr len_key len_iv enc_len (Some auth_id) of
           Some plain \<Rightarrow> if 2 \<le> length plain then Some (from_be (take 2 plain)) else None
         | None \<Rightarrow> None)"

fun find_user :: "vcrypto \<Rightarrow> bytes \<Rightarrow> bytes \<Rightarrow> bytes \<Rightarrow> auth_user list \<Rightarrow> (vmess_id \<times> u16) option" where
  "find_user cr auth_id enc_len connection_nonce [] = None"
| "find_user cr auth_id enc_len connection_nonce (user # users) =
     (case cr_parse_uuid cr (au_username user) of
        None \<Rightarrow> find_user cr auth_id enc_len connection_nonce users
      | Some uuid \<Rightarrow>
          let i = new_id (crypto.truncate cr) uuid
          in case open_length cr (id_cmd_key i) auth_id enc_len connection_nonce of
               Some len \<Rightarrow> Some (i, len)
             | None \<Rightarrow> find_user cr auth_id enc_len connection_nonce users)"

text \<open>\<open>accept\<close>; \<open>account\<close> is what the observer makes of a command key.\<close>

definition vmess_accept :: "vcrypto \<Rightarrow> (bytes \<Rightarrow> (bytes \<times> nat) option) \<Rightarrow> auth_user list \<Rightarrow>
    (vmess_error + vmess_server_stream \<times> (bytes \<times> nat) option) proc" where
  "vmess_accept cr account users =
     Recv 42 (\<lambda>prefix.
       let auth_id = slice prefix 0 16; enc_len = slice prefix 16 34; connection_nonce = slice prefix 34 42
       in case find_user cr auth_id enc_len connection_nonce users of
            None \<Rightarrow> Ret (Inl AuthFailed)
          | Some (i, header_len) \<Rightarrow>
              let key = take 16 (vmess_kdf_3_one_shot cr (id_cmd_key i) SALT_HEADER_KEY auth_id connection_nonce);
                  iv = take 12 (vmess_kdf_3_one_shot cr (id_cmd_key i) SALT_HEADER_IV auth_id connection_nonce)
              in Recv (unat header_len + 16) (\<lambda>enc_header.
                   case aes_gcm_decrypt cr key iv enc_header (Some auth_id) of
                     None \<Rightarrow> Ret (Inl HeaderDecrypt)
                   | Some header \<Rightarrow>
                       (case parse_request header of
                          Inl e \<Rightarrow> Ret (Inl e)
                        | Inr request \<Rightarrow>
                            let user = account (id_cmd_key i); s = vmess_server_stream_new cr request
                            in (case response_header cr s of
                                  None \<Rightarrow> Ret (Inl SealFailed)
                                | Some r \<Rightarrow> Send r (Ret (Inr (s, user)))))))"

subsection \<open>Lemmas: the request\<close>

lemma pad_security_table:
  "list_all (\<lambda>p. list_all (\<lambda>s. unat (drop_bit 4 (push_bit 4 (of_nat p) OR s) :: u8) = p \<and>
     (push_bit 4 (of_nat p) OR s) AND 0x0F = s) [3, 4, 5]) [0..<16]"
  by code_simp

lemma pad_security:
  fixes s :: u8
  assumes "p < 16" and "s \<in> {3, 4, 5}"
  shows "unat (drop_bit 4 (push_bit 4 (of_nat p) OR s)) = p" and "(push_bit 4 (of_nat p) OR s) AND 0x0F = s"
  using pad_security_table assms by (auto simp: list_all_iff)

definition rand_ok :: "handshake_rand \<Rightarrow> bool" where
  "rand_ok h \<longleftrightarrow> hr_p h < 16 \<and> length (hr_padding h) = hr_p h \<and> length (hr_auth h) = 4 \<and> length (hr_nonce h) = 8"

lemma length_write_to_buf_vmess: "3 \<le> length (write_to_buf_vmess t)"
  by (cases t rule: write_to_buf_vmess.cases) simp_all

lemma parse_request_header:
  assumes "rand_ok h" and "length (vm_req_body_iv s) = 16" and "length (vm_req_body_key s) = 16"
    and "vm_security s \<in> {3, 4, 5}" and "encodable (vm_dst s)"
  shows "parse_request (request_header cr h s) =
    Inr \<lparr>vq_dst = vm_arrives (vm_dst s), vq_security = vm_security s, vq_is_udp = vm_is_udp s,
         vq_req_body_iv = vm_req_body_iv s, vq_req_body_key = vm_req_body_key s, vq_resp_v = rp_v (vm_resp s)\<rparr>"
proof -
  let ?pad = "if hr_p h > 0 then hr_padding h else []" and ?addr = "write_to_buf_vmess (vm_dst s)"
  from assms(1) have l: "length ?pad = hr_p h" "hr_p h < 16" by (auto simp: rand_ok_def)
  obtain fnv where f: "length fnv = 4" and e: "request_header cr h s = VERSION # vm_req_body_iv s @ vm_req_body_key s @
      [rp_v (vm_resp s), OPTION_CHUNK_STREAM, push_bit 4 (of_nat (hr_p h)) OR vm_security s, 0,
       if vm_is_udp s then COMMAND_UDP else COMMAND_TCP] @ ?addr @ ?pad @ fnv"
    by (simp add: request_header_def Let_def) (metis length_to_be)
  have d: "drop 38 (request_header cr h s) = ?addr @ ?pad @ fnv" unfolding e using assms(2,3) by simp
  have len: "length (request_header cr h s) = 42 + length ?addr + hr_p h" unfolding e using assms(2,3) f l(1) by simp
  have n: "request_header cr h s ! 0 = VERSION" "request_header cr h s ! 33 = rp_v (vm_resp s)"
    "request_header cr h s ! 35 = push_bit 4 (of_nat (hr_p h)) OR vm_security s"
    "request_header cr h s ! 37 = (if vm_is_udp s then COMMAND_UDP else COMMAND_TCP)"
    "slice (request_header cr h s) 1 17 = vm_req_body_iv s" "slice (request_header cr h s) 17 33 = vm_req_body_key s"
    unfolding e slice_def using assms(2,3) by (simp_all add: nth_append)
  have "take (length ?addr + hr_p h + 4 - (4 + hr_p h)) (?addr @ ?pad @ fnv) = ?addr" by simp
  then show ?thesis
    using pad_security [OF l(2) assms(4)] read_vmess_addr_written [OF assms(5)] l f
    unfolding parse_request_def Let_def len n d by (simp add: COMMAND_UDP_def COMMAND_TCP_def add.commute)
qed

lemma seal_parts:
  assumes "vcrypto_ok cr"
  obtains enc_len payload where
    "seal_vmess_aead_header cr key data now r n = Some (create_auth_id cr key now r @ enc_len @ n @ payload)"
    and "length enc_len = 18" and "length payload = length data + 16"
    and "open_length cr key (create_auth_id cr key now r) enc_len n = Some (of_nat (length data))"
    and "aes_gcm_decrypt cr (take 16 (vmess_kdf_3_one_shot cr key SALT_HEADER_KEY (create_auth_id cr key now r) n))
      (take 12 (vmess_kdf_3_one_shot cr key SALT_HEADER_IV (create_auth_id cr key now r) n)) payload (Some (create_auth_id cr key now r)) = Some data"
  using assms that
  by (simp add: seal_vmess_aead_header_def open_length_def aes_gcm_encrypt_def aes_gcm_decrypt_def Let_def kdf_lengths
      aead_opens [OF vcrypto_okD(1)] aead_length [OF vcrypto_okD(1)] from_be_to_be_id)

lemma length_create_auth_id: "vcrypto_ok cr \<Longrightarrow> length r = 4 \<Longrightarrow> length (create_auth_id cr key now r) = 16"
  by (simp add: create_auth_id_def Let_def vcrypto_okD(3))

text \<open>No other user's key opens the sealed length.\<close>

definition only_opens_for :: "vcrypto \<Rightarrow> bytes \<Rightarrow> bytes \<Rightarrow> auth_user list \<Rightarrow> bool" where
  "only_opens_for cr key hello users \<longleftrightarrow>
     (\<forall>u \<in> set users. \<forall>uuid. cr_parse_uuid cr (au_username u) = Some uuid \<longrightarrow> cmd_key (crypto.truncate cr) uuid \<noteq> key \<longrightarrow>
        open_length cr (cmd_key (crypto.truncate cr) uuid) (slice hello 0 16) (slice hello 16 34) (slice hello 34 42) = None)"

lemma find_user_found:
  assumes "open_length cr key a e n = Some len" and "u \<in> set users" and "cr_parse_uuid cr (au_username u) = Some uuid"
    and "cmd_key (crypto.truncate cr) uuid = key"
    and "\<forall>u \<in> set users. \<forall>uuid. cr_parse_uuid cr (au_username u) = Some uuid \<longrightarrow> cmd_key (crypto.truncate cr) uuid \<noteq> key \<longrightarrow>
      open_length cr (cmd_key (crypto.truncate cr) uuid) a e n = None"
  shows "\<exists>i. find_user cr a e n users = Some (i, len) \<and> id_cmd_key i = key"
  using assms(2,5)
proof (induction users)
  case (Cons v users)
  show ?case
  proof (cases "cr_parse_uuid cr (au_username v)")
    case None
    with Cons assms(3) show ?thesis by auto
  next
    case (Some w)
    with Cons assms(1,3,4) show ?thesis
      by (cases "cmd_key (crypto.truncate cr) w = key") (auto simp: new_id_def Let_def)
  qed
qed simp

lemma find_user_sound:
  assumes "find_user cr a e n users = Some (i, len)"
  shows "\<exists>u \<in> set users. cr_parse_uuid cr (au_username u) = Some (id_uuid i) \<and>
    id_cmd_key i = cmd_key (crypto.truncate cr) (id_uuid i) \<and> open_length cr (id_cmd_key i) a e n = Some len"
  using assms by (induction users) (auto simp: new_id_def Let_def split: option.splits)

text \<open>\<open>accept\<close> on a sealed header.\<close>

lemma accept_sealed:
  assumes ok: "vcrypto_ok cr" and hello: "seal_vmess_aead_header cr key header now r n = Some hello"
    and "length r = 4" and "length n = 8" and "length header < 65536" and "parse_request header = Inr q"
    and "u \<in> set users" and "cr_parse_uuid cr (au_username u) = Some uuid" and "cmd_key (crypto.truncate cr) uuid = key"
    and "only_opens_for cr key hello users"
  shows "run_on (vmess_accept cr account users) (hello @ rest) =
    (the (response_header cr (vmess_server_stream_new cr q)), Some (Inr (vmess_server_stream_new cr q, account key), rest))"
proof -
  let ?a = "create_auth_id cr key now r"
  obtain e p where s: "seal_vmess_aead_header cr key header now r n = Some (?a @ e @ n @ p)" "length e = 18" "length p = length header + 16"
    "open_length cr key ?a e n = Some (of_nat (length header))"
    "aes_gcm_decrypt cr (take 16 (vmess_kdf_3_one_shot cr key SALT_HEADER_KEY ?a n))
      (take 12 (vmess_kdf_3_one_shot cr key SALT_HEADER_IV ?a n)) p (Some ?a) = Some header"
    by (rule seal_parts [OF ok])
  have la: "length ?a = 16" by (rule length_create_auth_id [OF ok assms(3)])
  from s(1) hello have h: "hello = ?a @ e @ n @ p" by simp
  define w where "w = hello @ rest"
  have sl: "slice (take 42 w) 0 16 = ?a" "slice (take 42 w) 16 34 = e" "slice (take 42 w) 34 42 = n"
    "slice hello 0 16 = ?a" "slice hello 16 34 = e" "slice hello 34 42 = n"
    unfolding w_def h slice_def using la s(2) assms(4) by simp_all
  from find_user_found [OF s(4) assms(7-9)] assms(10) sl obtain i where f: "find_user cr ?a e n users = Some (i, of_nat (length header))"
    "id_cmd_key i = key" by (auto simp: only_opens_for_def)
  have u: "unat (of_nat (length header) :: u16) = length header" using assms(5) by (rule unat_of_nat_u16)
  have dr: "drop 42 w = p @ rest" "42 \<le> length w" unfolding w_def h using la s(2) assms(4) by simp_all
  have "response_header cr (vmess_server_stream_new cr q) \<noteq> None"
    by (simp add: response_header_def aes_gcm_encrypt_def kdf_lengths [OF ok] Let_def vmess_server_stream_new_def split_beta)
  then show ?thesis unfolding vmess_accept_def w_def [symmetric]
    by (auto simp: dr sl f u s(3,5) assms(6) Let_def)
qed

subsection \<open>Lemmas: the response\<close>

definition resp_len_part :: "vcrypto \<Rightarrow> resp_params \<Rightarrow> bytes" where
  "resp_len_part cr rp = vc_gcm_enc cr (take 16 (vmess_kdf_1_one_shot cr (rp_key rp) SALT_RESP_LEN_KEY))
     (take 12 (vmess_kdf_1_one_shot cr (rp_iv rp) SALT_RESP_LEN_IV)) [] (to_be 2 (4 :: u16))"

definition resp_part :: "vcrypto \<Rightarrow> resp_params \<Rightarrow> bytes" where
  "resp_part cr rp = vc_gcm_enc cr (take 16 (vmess_kdf_1_one_shot cr (rp_key rp) SALT_RESP_KEY))
     (take 12 (vmess_kdf_1_one_shot cr (rp_iv rp) SALT_RESP_IV)) [] [rp_v rp, OPTION_CHUNK_STREAM, 0, 0]"

lemma response_header_parts:
  assumes "vcrypto_ok cr" and "vs_is_aead s" and "rp_key rp = vs_resp_body_key s" and "rp_iv rp = vs_resp_body_iv s" and "rp_v rp = vs_resp_v s"
  shows "response_header cr s = Some (resp_len_part cr rp @ resp_part cr rp)"
  using assms by (simp add: response_header_def aes_gcm_encrypt_def resp_len_part_def resp_part_def kdf_lengths Let_def)

lemma resp_lengths:
  "vcrypto_ok cr \<Longrightarrow> length (resp_len_part cr rp) = 18" "vcrypto_ok cr \<Longrightarrow> length (resp_part cr rp) = 20"
  by (simp_all add: resp_len_part_def resp_part_def aead_length [OF vcrypto_okD(1)])

text \<open>The client's reader before, and at, the response header.\<close>

definition header_at :: "vcrypto \<Rightarrow> resp_params \<Rightarrow> bytes list \<Rightarrow> stream \<Rightarrow> chunk_reader \<Rightarrow> bool" where
  "header_at cr rp ps st r \<longleftrightarrow>
     vcrypto_ok cr \<and> rp_is_aead rp \<and> Failed \<notin> set st \<and> (\<forall>p \<in> set ps. p \<noteq> [] \<and> length p \<le> max_payload (cr_cipher r)) \<and>
     (case cr_state r of
        AeadWaitingHeaderSize \<Rightarrow>
          cr_read_buf r @ wire st = resp_len_part cr rp @ resp_part cr rp @ chunks_of cr (cr_cipher r) ps
      | AeadWaitingHeader n \<Rightarrow> n = 4 \<and> cr_read_buf r @ wire st = resp_part cr rp @ chunks_of cr (cr_cipher r) ps
      | _ \<Rightarrow> False)"

definition client_at :: "vcrypto \<Rightarrow> resp_params \<Rightarrow> bytes \<Rightarrow> bytes list \<Rightarrow> stream \<Rightarrow> chunk_reader \<Rightarrow> bool" where
  "client_at cr rp cur ps st r \<longleftrightarrow> reader_at cr cur ps st r \<or> cur = [] \<and> header_at cr rp ps st r"

lemma reader_client: "reader_at cr cur ps st r \<Longrightarrow> client_at cr rp cur ps st r"
  by (simp add: client_at_def)

lemma waiting_header_fair:
  assumes "header_at cr rp ps st r" and "cr_state r = AeadWaitingHeader n" and "0 < room" and "length st \<le> length st0"
  shows "poll_fair (client_at cr rp) room [] ps st0 (waiting_header cr rp room n st r)"
proof -
  from assms(1,2) have ok: "vcrypto_ok cr" and nf: "Failed \<notin> set st" and ae: "rp_is_aead rp" and n: "n = 4"
    and ps: "\<forall>p \<in> set ps. p \<noteq> [] \<and> length p \<le> max_payload (cr_cipher r)"
    and w: "cr_read_buf r @ wire st = resp_part cr rp @ chunks_of cr (cr_cipher r) ps"
    by (auto simp: header_at_def)
  note len = resp_lengths(2) [OF ok]
  show ?thesis unfolding waiting_header_def
  proof (rule filled_enough, goal_cases)
    case 1
    show ?case unfolding w n by (simp add: len)
  next
    case 2
    show ?case by (rule nf)
  next
    case (3 st' buf)
    then show ?case using ok ae ps n w assms(2,4) by (auto simp: poll_fair_def client_at_def header_at_def)
  next
    case b: (4 st' buf)
    from b(1,2) n w have t: "take (n + 16) buf = resp_part cr rp" "drop (n + 16) buf @ wire st' = chunks_of cr (cr_cipher r) ps"
      using len [of rp] by (simp_all add: append_eq_append_conv_if split: if_splits)
    have d: "aes_gcm_decrypt cr (take 16 (vmess_kdf_1_one_shot cr (rp_key rp) SALT_RESP_KEY))
        (take 12 (vmess_kdf_1_one_shot cr (rp_iv rp) SALT_RESP_IV)) (resp_part cr rp) None = Some [rp_v rp, OPTION_CHUNK_STREAM, 0, 0]"
      by (simp add: aes_gcm_decrypt_def resp_part_def kdf_lengths [OF ok] aead_opens [OF vcrypto_okD(1) [OF ok]])
    let ?r = "r\<lparr>cr_read_buf := drop (n + 16) buf, cr_state := StreamWaitingLength\<rparr>"
    have "reader_at cr [] ps st' ?r" using ok b(4) t(2) ps by (simp add: reader_at_def)
    from poll_fair_mono [OF waiting_length_fair [OF this _ assms(3)] reader_client] b(3) assms(4)
    have "poll_fair (client_at cr rp) room [] ps st0 (waiting_length cr room st' ?r)" by simp
    then show ?case using t(1) d by (simp add: split_to_def Let_def)
  qed
qed

lemma waiting_header_size_fair:
  assumes "header_at cr rp ps st r" and "cr_state r = AeadWaitingHeaderSize" and "0 < room"
  shows "poll_fair (client_at cr rp) room [] ps st (waiting_header_size cr rp room st r)"
proof -
  from assms(1,2) have ok: "vcrypto_ok cr" and nf: "Failed \<notin> set st" and ae: "rp_is_aead rp"
    and ps: "\<forall>p \<in> set ps. p \<noteq> [] \<and> length p \<le> max_payload (cr_cipher r)"
    and w: "cr_read_buf r @ wire st = resp_len_part cr rp @ resp_part cr rp @ chunks_of cr (cr_cipher r) ps"
    by (auto simp: header_at_def)
  note len = resp_lengths(1) [OF ok]
  have "poll_fair (client_at cr rp) room [] ps st (filled 18 False st r (\<lambda>_ st r.
          let key = take 16 (vmess_kdf_1_one_shot cr (rp_key rp) SALT_RESP_LEN_KEY);
              iv = take 12 (vmess_kdf_1_one_shot cr (rp_iv rp) SALT_RESP_LEN_IV);
              (sealed, r1) = split_to 18 r
          in case aes_gcm_decrypt cr key iv sealed None of
               None \<Rightarrow> (ROErr DecryptFailed, st, r1)
             | Some plain \<Rightarrow>
                 if length plain < 2 then (ROErr HeaderLength, st, r1)
                 else
                   let header_size = unat (from_be (take 2 plain) :: u16)
                   in waiting_header cr rp room header_size st (r1\<lparr>cr_state := AeadWaitingHeader header_size\<rparr>)))"
  proof (rule filled_enough, goal_cases)
    case 1
    show ?case unfolding w by (simp add: len)
  next
    case 2
    show ?case by (rule nf)
  next
    case (3 st' buf)
    then show ?case using ok ae ps w assms(2) by (auto simp: poll_fair_def client_at_def header_at_def)
  next
    case b: (4 st' buf)
    from b(1,2) w have t: "take 18 buf = resp_len_part cr rp" "drop 18 buf @ wire st' = resp_part cr rp @ chunks_of cr (cr_cipher r) ps"
      using len [of rp] by (simp_all add: append_eq_append_conv_if split: if_splits)
    have d: "aes_gcm_decrypt cr (take 16 (vmess_kdf_1_one_shot cr (rp_key rp) SALT_RESP_LEN_KEY))
        (take 12 (vmess_kdf_1_one_shot cr (rp_iv rp) SALT_RESP_LEN_IV)) (resp_len_part cr rp) None = Some (to_be 2 (4 :: u16))"
      by (simp add: aes_gcm_decrypt_def resp_len_part_def kdf_lengths [OF ok] aead_opens [OF vcrypto_okD(1) [OF ok]])
    have f: "unat (from_be (to_be 2 (4 :: u16)) :: u16) = 4" by (simp add: from_be_to_be_id)
    let ?r = "r\<lparr>cr_read_buf := drop 18 buf, cr_state := AeadWaitingHeader 4\<rparr>"
    have "header_at cr rp ps st' ?r" using ok ae b(4) t(2) ps by (simp add: header_at_def)
    from waiting_header_fair [OF this _ assms(3) b(3)]
    have "poll_fair (client_at cr rp) room [] ps st (waiting_header cr rp room 4 st' ?r)" by simp
    then show ?case using t(1) d f by (simp add: split_to_def Let_def)
  qed
  with ae show ?thesis by (simp add: waiting_header_size_def)
qed

lemma client_poll_fair:
  assumes "client_at cr rp cur ps st r" and "0 < room"
  shows "poll_fair (client_at cr rp) room cur ps st (vm_poll_read cr rp room st r)"
proof (cases "reader_at cr cur ps st r")
  case True
  from poll_fair_mono [OF vm_poll_read_fair [OF True assms(2)] reader_client order_refl] show ?thesis .
next
  case False
  with assms(1) have h: "header_at cr rp ps st r" "cur = []" by (auto simp: client_at_def)
  with waiting_header_fair [OF h(1) _ assms(2) order_refl] waiting_header_size_fair [OF h(1) _ assms(2)] show ?thesis
    by (cases "cr_state r") (auto simp: vm_poll_read_def header_at_def)
qed

lemma client_at_bounded: "client_at cr rp cur ps st r \<Longrightarrow> \<forall>p \<in> set ps. length p \<le> CHUNK_SIZE"
  using reader_at_bounded [of cr cur ps st r] by (auto simp: client_at_def header_at_def max_payload_def)

interpretation client_source: chunk_source "client_at cr rp" "vm_poll_read cr rp" for cr rp
  by unfold_locales (rule client_poll_fair, assumption+, rule client_at_bounded)

subsection \<open>Datagrams\<close>









text \<open>\<open>VmessInboundPacket\<close>: one poll of \<open>recv_from\<close>, and \<open>send_to\<close>.\<close>

datatype recv_out = RecvPending | RecvClosed | RecvFailed vmess_read_error | RecvOk target_addr target_addr bytes

definition vm_in_recv_from :: "vcrypto \<Rightarrow> target_addr \<Rightarrow> stream \<Rightarrow> vmess_server_stream \<Rightarrow> recv_out \<times> stream \<times> vmess_server_stream" where
  "vm_in_recv_from cr client st s =
     (case srv_poll_read cr 65535 st (vs_reader s) of
        (ROPending, st', r) \<Rightarrow> (RecvPending, st', s\<lparr>vs_reader := r\<rparr>)
      | (ROErr e, st', r) \<Rightarrow> (RecvFailed e, st', s\<lparr>vs_reader := r\<rparr>)
      | (ROReady b, st', r) \<Rightarrow>
          (if b = [] then RecvClosed else RecvOk client (vs_dst s) b, st', s\<lparr>vs_reader := r\<rparr>))"

definition vm_in_send_to :: "vcrypto \<Rightarrow> write_poll list list \<Rightarrow> bytes \<Rightarrow> vmess_server_stream \<Rightarrow> write_end \<times> vmess_server_stream" where
  "vm_in_send_to cr ass buf s =
     (case write_all (srv_poll_write cr) ass buf (vs_writer s) of (e, w) \<Rightarrow> (e, s\<lparr>vs_writer := w\<rparr>))"









subsection \<open>Sessions\<close>

lemma length_write_to_buf_vmess_le: "encodable t \<Longrightarrow> length (write_to_buf_vmess t) \<le> 259"
  by (cases t rule: write_to_buf_vmess.cases) auto

lemma client_ciphers_security: "client_ciphers cr security a b c d = Inr x \<Longrightarrow> security \<in> {3, 4, 5}"
  by (auto simp: client_ciphers_def vmess_consts split: if_splits)

lemma stream_new_fields:
  assumes "vmess_stream_new cr rnd i dst security True udp = Inr s" and "length rnd = 33"
  shows "vm_security s = security \<and> security \<in> {3, 4, 5} \<and> vm_dst s = dst \<and> vm_id s = i \<and> vm_is_udp s = udp \<and>
    length (vm_req_body_iv s) = 16 \<and> length (vm_req_body_key s) = 16 \<and> rp_is_aead (vm_resp s) \<and>
    rp_key (vm_resp s) = take 16 (cr_sha256 cr (vm_req_body_key s)) \<and> rp_iv (vm_resp s) = take 16 (cr_sha256 cr (vm_req_body_iv s)) \<and>
    client_ciphers cr security (vm_req_body_iv s) (vm_req_body_key s) (rp_iv (vm_resp s)) (rp_key (vm_resp s)) =
      Inr (cr_cipher (vm_reader s), cw_cipher (vm_writer s)) \<and>
    vm_reader s = \<lparr>cr_cipher = cr_cipher (vm_reader s), cr_state = AeadWaitingHeaderSize, cr_read_buf = [], cr_chunk = []\<rparr> \<and>
    vm_writer s = chunk_writer_new (cw_cipher (vm_writer s))"
proof -
  from assms(1) obtain cp where "client_ciphers cr security (slice rnd 0 16) (slice rnd 16 32)
      (take 16 (cr_sha256 cr (slice rnd 0 16))) (take 16 (cr_sha256 cr (slice rnd 16 32))) = Inr cp"
    by (auto simp: vmess_stream_new_def bindr_Inr_iff Let_def)
  with client_ciphers_security [OF this] assms show ?thesis
    by (auto simp: vmess_stream_new_def bindr_Inr_iff Let_def slice_def chunk_writer_new_def split: prod.splits)
qed

text \<open>The server stream that belongs to a client stream.\<close>

lemma session_match:
  assumes ok: "vcrypto_ok cr" and new: "vmess_stream_new cr rnd i dst security True udp = Inr s" "length rnd = 33"
    and "rand_ok h" and "encodable dst"
  obtains q where "parse_request (request_header cr h s) = Inr q" and "length (request_header cr h s) < 65536"
    and "vs_dst (vmess_server_stream_new cr q) = vm_arrives dst" and "vs_is_udp (vmess_server_stream_new cr q) = udp"
    and "vs_reader (vmess_server_stream_new cr q) =
      \<lparr>cr_cipher = cw_cipher (vm_writer s), cr_state = StreamWaitingLength, cr_read_buf = [], cr_chunk = []\<rparr>"
    and "vs_writer (vmess_server_stream_new cr q) = chunk_writer_new (cr_cipher (vm_reader s))"
    and "response_header cr (vmess_server_stream_new cr q) = Some (resp_len_part cr (vm_resp s) @ resp_part cr (vm_resp s))"
proof -
  let ?q = "\<lparr>vq_dst = vm_arrives dst, vq_security = security, vq_is_udp = udp,
         vq_req_body_iv = vm_req_body_iv s, vq_req_body_key = vm_req_body_key s, vq_resp_v = rp_v (vm_resp s)\<rparr>"
  note f = stream_new_fields [OF new]
  have p: "parse_request (request_header cr h s) = Inr ?q"
    using parse_request_header [OF assms(4), of s cr] f assms(5) by simp
  have l: "length (request_header cr h s) < 65536"
    using f assms(4) length_write_to_buf_vmess_le [OF assms(5)] by (simp add: request_header_def Let_def rand_ok_def)
  have c: "client_ciphers cr security (vm_req_body_iv s) (vm_req_body_key s) (rp_iv (vm_resp s)) (rp_key (vm_resp s)) =
      Inr (cr_cipher (vm_reader s), cw_cipher (vm_writer s))" using f by blast
  then have "vs_reader (vmess_server_stream_new cr ?q) =
      \<lparr>cr_cipher = cw_cipher (vm_writer s), cr_state = StreamWaitingLength, cr_read_buf = [], cr_chunk = []\<rparr>"
    "vs_writer (vmess_server_stream_new cr ?q) = chunk_writer_new (cr_cipher (vm_reader s))"
    using f by (auto simp: vmess_server_stream_new_def client_ciphers_def chacha_key_def vmess_consts Let_def split: if_splits)
  moreover have "response_header cr (vmess_server_stream_new cr ?q) = Some (resp_len_part cr (vm_resp s) @ resp_part cr (vm_resp s))"
    by (rule response_header_parts [OF ok]) (use f in \<open>simp_all add: vmess_server_stream_new_def Let_def split_beta\<close>)
  ultimately show thesis using that [OF p l] by (simp add: vmess_server_stream_new_def Let_def split_beta)
qed

text \<open>A client that has sent its request, and a server that knows its user.\<close>

definition handshake_sent :: "vcrypto \<Rightarrow> bytes \<Rightarrow> vmess_id \<Rightarrow> target_addr \<Rightarrow> u8 \<Rightarrow> bool \<Rightarrow> u64 \<Rightarrow> handshake_rand \<Rightarrow> auth_user list \<Rightarrow>
    vmess_stream \<Rightarrow> bytes \<Rightarrow> bool" where
  "handshake_sent cr rnd i dst security udp now h users s hello \<longleftrightarrow>
     vcrypto_ok cr \<and> length rnd = 33 \<and> rand_ok h \<and> encodable dst \<and>
     vmess_stream_new cr rnd i dst security True udp = Inr s \<and> send_handshake_request cr now h s = Some hello \<and>
     (\<exists>u \<in> set users. \<exists>uuid. cr_parse_uuid cr (au_username u) = Some uuid \<and> cmd_key (crypto.truncate cr) uuid = id_cmd_key i) \<and>
     only_opens_for cr (id_cmd_key i) hello users"

lemma handshake_accepted:
  assumes "handshake_sent cr rnd i dst security udp now h users s hello"
  obtains sv where "run_on (vmess_accept cr account users) (hello @ rest) =
      (resp_len_part cr (vm_resp s) @ resp_part cr (vm_resp s), Some (Inr (sv, account (id_cmd_key i)), rest))"
    and "vs_dst sv = vm_arrives dst" and "vs_is_udp sv = udp"
    and "vs_reader sv = \<lparr>cr_cipher = cw_cipher (vm_writer s), cr_state = StreamWaitingLength, cr_read_buf = [], cr_chunk = []\<rparr>"
    and "vs_writer sv = chunk_writer_new (cr_cipher (vm_reader s))"
proof -
  from assms have ok: "vcrypto_ok cr" and new: "vmess_stream_new cr rnd i dst security True udp = Inr s" "length rnd = 33"
    and r: "rand_ok h" "encodable dst" by (simp_all add: handshake_sent_def)
  obtain q where q: "parse_request (request_header cr h s) = Inr q" "length (request_header cr h s) < 65536"
      "vs_dst (vmess_server_stream_new cr q) = vm_arrives dst" "vs_is_udp (vmess_server_stream_new cr q) = udp"
      "vs_reader (vmess_server_stream_new cr q) =
        \<lparr>cr_cipher = cw_cipher (vm_writer s), cr_state = StreamWaitingLength, cr_read_buf = [], cr_chunk = []\<rparr>"
      "vs_writer (vmess_server_stream_new cr q) = chunk_writer_new (cr_cipher (vm_reader s))"
      "response_header cr (vmess_server_stream_new cr q) = Some (resp_len_part cr (vm_resp s) @ resp_part cr (vm_resp s))"
    by (rule session_match [OF ok new r])
  from assms obtain u uuid where u: "u \<in> set users" "cr_parse_uuid cr (au_username u) = Some uuid"
      "cmd_key (crypto.truncate cr) uuid = id_cmd_key i" "only_opens_for cr (id_cmd_key i) hello users"
    by (auto simp: handshake_sent_def)
  have "seal_vmess_aead_header cr (id_cmd_key i) (request_header cr h s) now (hr_auth h) (hr_nonce h) = Some hello"
    using assms stream_new_fields [OF new] by (simp add: handshake_sent_def send_handshake_request_def Let_def)
  from accept_sealed [OF ok this _ _ q(2,1) u, of account rest] r(1) q that show thesis by (simp add: rand_ok_def)
qed

subsection \<open>Properties\<close>

text \<open>C17. VMess, end to end, for AEAD clients (\<open>alter_id\<close> zero). A client of a known
  user, with an encodable target, has sent its request and its data, in any writes that the
  connection took in any pieces: the server accepts, finds the target and the kind of session, and
  reads exactly that data and then the end, however the connection delivers it and whatever buffers
  it reads with. In the other direction the client reads, behind the response header, exactly what
  the server wrote. Hypotheses of \<open>handshake_sent\<close>: the laws of the cryptographic primitives
  (\<open>vcrypto_ok\<close>), and that the sealed request opens under the key of no user of the server's list
  with another key than the client's (\<open>only_opens_for\<close>).\<close>

theorem vmess_end_to_end:
  assumes "handshake_sent cr rnd i dst security udp now h users s hello"
    and "write_bufs (vm_poll_write cr) ups (vm_writer s) = (WriteDone, w)"
  shows "\<exists>resp sv. run_on (vmess_accept cr account users) (hello @ cw_out w) =
      (resp, Some (Inr (sv, account (id_cmd_key i)), cw_out w)) \<and> vs_dst sv = vm_arrives dst \<and> vs_is_udp sv = udp \<and>
    (\<forall>st rooms. wire st = cw_out w \<longrightarrow> Failed \<notin> set st \<longrightarrow> (\<forall>room \<in> set rooms. 0 < room) \<longrightarrow>
      length st + length (concat (map snd ups)) < length rooms \<longrightarrow>
      concat (fst (chunk_reads (srv_poll_read cr) rooms st (vs_reader sv))) = concat (map snd ups) \<and>
      snd (chunk_reads (srv_poll_read cr) rooms st (vs_reader sv)) = ReadEof) \<and>
    (\<forall>downs dw st rooms. write_bufs (srv_poll_write cr) downs (vs_writer sv) = (WriteDone, dw) \<longrightarrow>
      wire st = resp @ cw_out dw \<longrightarrow> Failed \<notin> set st \<longrightarrow> (\<forall>room \<in> set rooms. 0 < room) \<longrightarrow>
      length st + length (concat (map snd downs)) < length rooms \<longrightarrow>
      concat (fst (chunk_reads (vm_poll_read cr (vm_resp s)) rooms st (vm_reader s))) = concat (map snd downs) \<and>
      snd (chunk_reads (vm_poll_read cr (vm_resp s)) rooms st (vm_reader s)) = ReadEof)"
proof -
  from assms(1) have ok: "vcrypto_ok cr" and new: "vmess_stream_new cr rnd i dst security True udp = Inr s" "length rnd = 33"
    by (simp_all add: handshake_sent_def)
  note f = stream_new_fields [OF new]
  obtain sv where sv: "run_on (vmess_accept cr account users) (hello @ cw_out w) =
      (resp_len_part cr (vm_resp s) @ resp_part cr (vm_resp s), Some (Inr (sv, account (id_cmd_key i)), cw_out w))"
    "vs_dst sv = vm_arrives dst" "vs_is_udp sv = udp"
    "vs_reader sv = \<lparr>cr_cipher = cw_cipher (vm_writer s), cr_state = StreamWaitingLength, cr_read_buf = [], cr_chunk = []\<rparr>"
    "vs_writer sv = chunk_writer_new (cr_cipher (vm_reader s))"
    by (rule handshake_accepted [OF assms(1)])
  have up: "concat (fst (chunk_reads (srv_poll_read cr) rooms st (vs_reader sv))) = concat (map snd ups) \<and>
      snd (chunk_reads (srv_poll_read cr) rooms st (vs_reader sv)) = ReadEof"
    if "wire st = cw_out w" "Failed \<notin> set st" "\<forall>room \<in> set rooms. 0 < room" "length st + length (concat (map snd ups)) < length rooms"
    for st rooms
  proof -
    have "idle (cw_cipher (vm_writer s)) [] (vm_writer s)" using f idle_new [of "cw_cipher (vm_writer s)"] by simp
    from write_bufs_chunks [OF assms(2) this] obtain ps where ps: "concat ps = concat (map snd ups)"
      "\<forall>p \<in> set ps. p \<noteq> [] \<and> length p \<le> max_payload (cw_cipher (vm_writer s))" "cw_out w = chunks_of cr (cw_cipher (vm_writer s)) ps"
      by (auto simp: idle_def)
    have "reader_at cr [] ps st (vs_reader sv)" using sv(4) ps that by (intro reader_at_start [OF ok]) simp_all
    from server_source.reads_data [OF this that(3)] ps(1) that(4) show ?thesis by auto
  qed
  have down: "concat (fst (chunk_reads (vm_poll_read cr (vm_resp s)) rooms st (vm_reader s))) = concat (map snd downs) \<and>
      snd (chunk_reads (vm_poll_read cr (vm_resp s)) rooms st (vm_reader s)) = ReadEof"
    if "write_bufs (srv_poll_write cr) downs (vs_writer sv) = (WriteDone, dw)"
      "wire st = (resp_len_part cr (vm_resp s) @ resp_part cr (vm_resp s)) @ cw_out dw" "Failed \<notin> set st" "\<forall>room \<in> set rooms. 0 < room"
      "length st + length (concat (map snd downs)) < length rooms" for downs dw st rooms
  proof -
    from write_bufs_chunks [OF that(1) [unfolded srv_poll_write_eq sv(5)] idle_new] obtain ps where ps: "concat ps = concat (map snd downs)"
      "\<forall>p \<in> set ps. p \<noteq> [] \<and> length p \<le> max_payload (cr_cipher (vm_reader s))" "cw_out dw = chunks_of cr (cr_cipher (vm_reader s)) ps"
      by (auto simp: idle_def)
    from f have r: "cr_state (vm_reader s) = AeadWaitingHeaderSize" "cr_read_buf (vm_reader s) = []" "rp_is_aead (vm_resp s)"
      by (metis chunk_reader.select_convs(2), metis chunk_reader.select_convs(3), blast)
    have "client_at cr (vm_resp s) [] ps st (vm_reader s)"
      using r ok ps(2,3) that(2,3) by (simp add: client_at_def header_at_def)
    from client_source.reads_data [OF this that(4)] ps(1) that(5) show ?thesis by auto
  qed
  from sv(1-3) up down show ?thesis by blast
qed


text \<open>C18. No VMess session without a user's key: whatever is sent, a session starts only if the request
  header, and its length, are sealed under the command key of a user of the list.\<close>

theorem vmess_requires_user:
  assumes "vcrypto_ok cr" and "snd (run_on (vmess_accept cr account users) input) = Some (Inr (sv, acc), rest)"
  shows "\<exists>u \<in> set users. \<exists>uuid header enc_header. cr_parse_uuid cr (au_username u) = Some uuid \<and>
    acc = account (cmd_key (crypto.truncate cr) uuid) \<and> input = take 42 input @ enc_header @ rest \<and>
    open_length cr (cmd_key (crypto.truncate cr) uuid) (slice input 0 16) (slice input 16 34) (slice input 34 42) = Some (of_nat (length header)) \<and>
    aes_gcm_encrypt cr (take 16 (vmess_kdf_3_one_shot cr (cmd_key (crypto.truncate cr) uuid) SALT_HEADER_KEY (slice input 0 16) (slice input 34 42)))
      (take 12 (vmess_kdf_3_one_shot cr (cmd_key (crypto.truncate cr) uuid) SALT_HEADER_IV (slice input 0 16) (slice input 34 42)))
      header (Some (slice input 0 16)) = Some enc_header"
proof -
  let ?a = "slice input 0 16" and ?n = "slice input 34 42"
  have sl: "slice (take 42 input) 0 16 = ?a" "slice (take 42 input) 16 34 = slice input 16 34" "slice (take 42 input) 34 42 = ?n"
    by (simp_all add: slice_def drop_take min_def)
  from assms(2) obtain i len where f: "find_user cr ?a (slice input 16 34) ?n users = Some (i, len)" and l: "42 \<le> length input"
    by (auto simp: vmess_accept_def sl Let_def split: if_splits option.splits)
  let ?k = "take 16 (vmess_kdf_3_one_shot cr (id_cmd_key i) SALT_HEADER_KEY ?a ?n)"
    and ?v = "take 12 (vmess_kdf_3_one_shot cr (id_cmd_key i) SALT_HEADER_IV ?a ?n)"
    and ?e = "take (unat len + 16) (drop 42 input)"
  from assms(2) f l obtain header where h: "aes_gcm_decrypt cr ?k ?v ?e (Some ?a) = Some header" "unat len + 16 \<le> length input - 42"
    "rest = drop (unat len + 16) (drop 42 input)" "acc = account (id_cmd_key i)"
    by (auto simp: vmess_accept_def sl Let_def split: if_splits option.splits sum.splits)
  from gcm_authentic [OF assms(1) h(1)] have e: "aes_gcm_encrypt cr ?k ?v header (Some ?a) = Some ?e" .
  from gcm_length [OF assms(1) this] h(2) have "length header = unat len" by simp
  then have "of_nat (length header) = len" by simp
  moreover from find_user_sound [OF f] obtain u where u: "u \<in> set users" "cr_parse_uuid cr (au_username u) = Some (id_uuid i)"
    "id_cmd_key i = cmd_key (crypto.truncate cr) (id_uuid i)" "open_length cr (id_cmd_key i) ?a (slice input 16 34) ?n = Some len" by blast
  moreover have "input = take 42 input @ ?e @ rest" using h(3) by (metis append_take_drop_id)
  ultimately show ?thesis using e h(4)
    by (intro bexI [OF _ u(1)] exI [of _ "id_uuid i"] exI [of _ header] exI [of _ ?e]) simp
qed

text \<open>An empty chunk looks like the end of the stream to the server's \<open>recv_from\<close>: an empty
  datagram ends a UDP session, although the stream is not closed.\<close>

theorem vmess_empty_datagram_ends:
  assumes "vcrypto_ok cr" and "vs_reader sv = \<lparr>cr_cipher = c, cr_state = StreamWaitingLength, cr_read_buf = chunk_of cr c [] @ later, cr_chunk = []\<rparr>"
  shows "fst (vm_in_recv_from cr client st sv) = RecvClosed \<and>
    cr_state (vs_reader (snd (snd (vm_in_recv_from cr client st sv)))) = StreamWaitingLength"
proof -
  have b: "length (chunk_body cr c []) = (if c = None then 0 else 16)" using length_chunk_body [OF assms(1), of c "[]"] by simp
  have l: "unat (from_be (to_be 2 (0 :: u16)) :: u16) = 0" "unat (from_be (to_be 2 (16 :: u16)) :: u16) = 16"
    by (simp_all add: from_be_to_be_id)
  show ?thesis
  proof (cases c)
    case None
    with assms(2) l show ?thesis
      by (simp add: vm_in_recv_from_def srv_poll_read_def srv_waiting_length_def srv_waiting_data_def filled_def poll_fill_ready
          chunk_of_def chunk_body_def split_to_def flushing_data_def MAX_CHUNK_SIZE_def Let_def)
  next
    case (Some a)
    have d: "decrypt_inplace cr (chunk_body cr c []) a = (Some (drop 0 (chunk_body cr c [])), count_up a)"
      using assms(1) b Some by (simp add: decrypt_inplace_def chunk_body_def sec_opens)
    from Some assms(2) l b d show ?thesis
      by (simp add: vm_in_recv_from_def srv_poll_read_def srv_waiting_length_def srv_waiting_data_def filled_def poll_fill_ready
          chunk_of_def split_to_def flushing_data_def MAX_CHUNK_SIZE_def Let_def)
  qed
qed

subsection \<open>Witnesses\<close>

definition vm_users :: "auth_user list" where
  "vm_users = [\<lparr>au_username = [7], au_password = []\<rparr>]"

definition vm_rand :: handshake_rand where
  "vm_rand = \<lparr>hr_p = 1, hr_padding = [9], hr_auth = [1, 2, 3, 4], hr_nonce = [1, 2, 3, 4, 5, 6, 7, 8]\<rparr>"

abbreviation (input) vm_sample_id :: vmess_id where
  "vm_sample_id \<equiv> new_id (crypto.truncate vm_sample) (replicate 16 7)"

abbreviation (input) vm_target :: target_addr where
  "vm_target \<equiv> Ip (SockV4 1 80)"

definition vm_sample_stream :: "bool \<Rightarrow> vmess_stream" where
  "vm_sample_stream udp = (case vmess_stream_new vm_sample (replicate 33 1) vm_sample_id vm_target 3 True udp of Inr s \<Rightarrow> s)"

definition vm_hello :: "bool \<Rightarrow> bytes" where
  "vm_hello udp = the (send_handshake_request vm_sample 5 vm_rand (vm_sample_stream udp))"

lemma vm_sample_new: "vmess_stream_new vm_sample (replicate 33 1) vm_sample_id vm_target 3 True udp = Inr (vm_sample_stream udp)"
  by (simp add: vm_sample_stream_def vmess_stream_new_def client_ciphers_def vmess_consts Let_def)

lemma vm_sample_handshake:
  "handshake_sent vm_sample (replicate 33 1) vm_sample_id vm_target 3 udp 5 vm_rand vm_users (vm_sample_stream udp) (vm_hello udp)"
proof -
  note f = stream_new_fields [OF vm_sample_new [of udp]]
  have "send_handshake_request vm_sample 5 vm_rand (vm_sample_stream udp) \<noteq> None"
    using f by (auto simp: send_handshake_request_def Let_def intro: seal_parts [OF vm_sample_ok])
  moreover have "only_opens_for vm_sample (id_cmd_key vm_sample_id) (vm_hello udp) vm_users"
    by (auto simp: only_opens_for_def vm_users_def new_id_def vm_sample_def split: if_splits)
  moreover have "\<exists>u \<in> set vm_users. \<exists>uuid. cr_parse_uuid vm_sample (au_username u) = Some uuid \<and>
      cmd_key (crypto.truncate vm_sample) uuid = id_cmd_key vm_sample_id"
    by (simp add: vm_users_def new_id_def vm_sample_def)
  ultimately show ?thesis
    using vm_sample_ok vm_sample_new by (auto simp: handshake_sent_def vm_hello_def rand_ok_def vm_rand_def)
qed

lemma vm_sample_writer: "vm_writer (vm_sample_stream udp) = chunk_writer_new (Some (aead_cipher_new (replicate 16 1) (Aes128Gcm (replicate 16 1))))"
  by (simp add: vm_sample_stream_def vmess_stream_new_def client_ciphers_def vmess_consts Let_def slice_def)

definition vm_sample_sent :: chunk_writer where
  "vm_sample_sent = snd (write_bufs (vm_poll_write vm_sample) [([[WOk 7], [WPending], [WOk 100]], [8, 9])] (vm_writer (vm_sample_stream False)))"

lemma vm_sample_write:
  "write_bufs (vm_poll_write vm_sample) [([[WOk 7], [WPending], [WOk 100]], [8, 9])] (vm_writer (vm_sample_stream False)) =
    (WriteDone, vm_sample_sent)"
  unfolding vm_sample_sent_def vm_sample_writer by code_simp

theorem vmess_end_to_end_witness:
  "\<exists>resp sv. run_on (vmess_accept vm_sample (\<lambda>_. None) vm_users) (vm_hello False @ cw_out vm_sample_sent) =
      (resp, Some (Inr (sv, None), cw_out vm_sample_sent)) \<and> vs_dst sv = vm_target \<and>
    concat (fst (chunk_reads (srv_poll_read vm_sample) [1, 5, 1, 5, 5] [Pending, Data (cw_out vm_sample_sent)] (vs_reader sv))) = [8, 9]"
proof -
  obtain resp sv where r: "run_on (vmess_accept vm_sample (\<lambda>_. None) vm_users) (vm_hello False @ cw_out vm_sample_sent) =
      (resp, Some (Inr (sv, None), cw_out vm_sample_sent))" "vs_dst sv = vm_arrives vm_target"
    "\<And>st rooms. wire st = cw_out vm_sample_sent \<Longrightarrow> Failed \<notin> set st \<Longrightarrow> \<forall>room \<in> set rooms. 0 < room \<Longrightarrow>
      length st + 2 < length rooms \<Longrightarrow> concat (fst (chunk_reads (srv_poll_read vm_sample) rooms st (vs_reader sv))) = [8, 9]"
    using vmess_end_to_end [OF vm_sample_handshake vm_sample_write, of "\<lambda>_. None"] by (simp del: split_paired_All) blast
  from r(1,2) r(3) [of "[Pending, Data (cw_out vm_sample_sent)]" "[1, 5, 1, 5, 5]"] show ?thesis by simp
qed

theorem vmess_requires_user_witness:
  "\<exists>sv. snd (run_on (vmess_accept vm_sample (\<lambda>_. None) vm_users) (vm_hello False)) = Some (Inr (sv, None), []) \<and>
   (\<exists>u \<in> set vm_users. \<exists>uuid header enc_header. cr_parse_uuid vm_sample (au_username u) = Some uuid \<and>
      vm_hello False = take 42 (vm_hello False) @ enc_header \<and>
      open_length vm_sample (cmd_key (crypto.truncate vm_sample) uuid) (slice (vm_hello False) 0 16)
        (slice (vm_hello False) 16 34) (slice (vm_hello False) 34 42) = Some (of_nat (length header)) \<and>
      aes_gcm_encrypt vm_sample
        (take 16 (vmess_kdf_3_one_shot vm_sample (cmd_key (crypto.truncate vm_sample) uuid) SALT_HEADER_KEY
          (slice (vm_hello False) 0 16) (slice (vm_hello False) 34 42)))
        (take 12 (vmess_kdf_3_one_shot vm_sample (cmd_key (crypto.truncate vm_sample) uuid) SALT_HEADER_IV
          (slice (vm_hello False) 0 16) (slice (vm_hello False) 34 42)))
        header (Some (slice (vm_hello False) 0 16)) = Some enc_header)"
proof -
  obtain sv where "run_on (vmess_accept vm_sample (\<lambda>_. None) vm_users) (vm_hello False @ []) =
      (resp_len_part vm_sample (vm_resp (vm_sample_stream False)) @ resp_part vm_sample (vm_resp (vm_sample_stream False)), Some (Inr (sv, None), []))"
    by (rule handshake_accepted [OF vm_sample_handshake [of False], of "\<lambda>_. None" "[]"])
  then have run: "snd (run_on (vmess_accept vm_sample (\<lambda>_. None) vm_users) (vm_hello False)) = Some (Inr (sv, None), [])"
    by simp
  from vmess_requires_user [OF vm_sample_ok run] show ?thesis
    by (intro exI [of _ sv] conjI run) simp
qed

theorem vmess_empty_datagram_ends_witness:
  "fst (vm_in_recv_from vm_sample vm_target [] \<lparr>vs_dst = vm_target, vs_resp_v = 1, vs_is_udp = True, vs_is_aead = True,
     vs_reader = \<lparr>cr_cipher = None, cr_state = StreamWaitingLength, cr_read_buf = chunk_of vm_sample None [] @ [0, 1, 5], cr_chunk = []\<rparr>,
     vs_writer = chunk_writer_new None, vs_resp_body_key = [], vs_resp_body_iv = []\<rparr>) = RecvClosed"
  using vmess_empty_datagram_ends [OF vm_sample_ok, of _ None "[0, 1, 5]"] by simp





end
