(* ===== verification/Fake_Ip.thy ===== *)
theory Fake_Ip
  imports Redb_Store Rust_Std
begin

text \<open>
  The fake-IP DNS server (\<open>FakeIPDNS\<close> of \<open>src/src/dns/mod.rs\<close>): it answers every name with an
  address of its own from a range, remembers in a persistent cache which name it stands for, and
  finds the name again when a connection to the address arrives. \<open>resolve_internal\<close> is one call
  on its own; \<open>fi_task_step\<close> is the same code as the atomic steps of a task, for calls that run
  at the same time. The JSON coding of cached strings is an argument.
\<close>

datatype fake_qtype = QA | QAAAA | QOther

datatype ip_net = Net4 "32 word" nat | Net6 "128 word" nat

record str_json =
  sj_enc :: "bytes \<Rightarrow> bytes"
  sj_dec :: "bytes \<Rightarrow> bytes option"

record fakeip =
  fi_tag :: bytes
  fi_min_ttl :: "nat option"
  fi_v4_cidr :: "32 word \<times> nat"
  fi_v6_cidr :: "128 word \<times> nat"
  fi_db :: shared_db
  fi_v4_cursor :: u64
  fi_v6_cursor :: u64
  fi_reject_ipv6 :: bool

definition IPV4_CURSOR_CACHE_KEY :: bytes where "IPV4_CURSOR_CACHE_KEY = str ''fakeip_ipv4_cursor_index''"
definition IPV6_CURSOR_CACHE_KEY :: bytes where "IPV6_CURSOR_CACHE_KEY = str ''fakeip_ipv6_cursor_index''"

text \<open>The cache of this server: the table named after its tag.\<close>

definition fi_table :: "fakeip \<Rightarrow> bytes" where
  "fi_table f = str ''fakeip:'' @ fi_tag f"

definition fi_get :: "str_json \<Rightarrow> bytes \<Rightarrow> fakeip \<Rightarrow> bytes option option \<times> fakeip" where
  "fi_get j key f = (case get_entry (sj_dec j) (fi_table f) (fi_db f) key of (r, d) \<Rightarrow> (r, f\<lparr>fi_db := d\<rparr>))"

definition fi_set :: "str_json \<Rightarrow> bytes \<Rightarrow> bytes \<Rightarrow> fakeip \<Rightarrow> bool \<times> fakeip" where
  "fi_set j key v f = (case set_entry (sj_enc j) (fi_table f) (fi_db f) key v of (ok, d) \<Rightarrow> (ok, f\<lparr>fi_db := d\<rparr>))"

definition load_cursor :: "str_json \<Rightarrow> bytes \<Rightarrow> fakeip \<Rightarrow> u64 \<times> fakeip" where
  "load_cursor j key f =
     (case fi_get j key f of
        (Some (Some r), f1) \<Rightarrow> (case parse_uint (2 ^ 64 - 1) (trim r) of Some n \<Rightarrow> of_nat n | None \<Rightarrow> 0, f1)
      | (_, f1) \<Rightarrow> (0, f1))"

fun first_v4 :: "ip_net list \<Rightarrow> (32 word \<times> nat) option" where
  "first_v4 [] = None"
| "first_v4 (Net4 a p # ns) = Some (a, p)"
| "first_v4 (Net6 a p # ns) = first_v4 ns"

fun first_v6 :: "ip_net list \<Rightarrow> (128 word \<times> nat) option" where
  "first_v6 [] = None"
| "first_v6 (Net6 a p # ns) = Some (a, p)"
| "first_v6 (Net4 a p # ns) = first_v6 ns"

datatype fi_new_error = RequiresCache | CacheInitFailed | NoDefaultOutbound

text \<open>\<open>new\<close>: ranges that do not parse are skipped, and the first of each family counts. \<open>open_cache\<close> opens
  the database of the given name; \<open>has_default\<close> says whether a default outbound is registered.\<close>

definition fakeip_new :: "str_json \<Rightarrow> (bytes \<Rightarrow> ip_net option) \<Rightarrow> (bytes \<Rightarrow> shared_db option) \<Rightarrow> bool \<Rightarrow>
    bytes \<Rightarrow> u64 option \<Rightarrow> bytes list option \<Rightarrow> bool \<Rightarrow> bytes option \<Rightarrow> fi_new_error + fakeip" where
  "fakeip_new j parse_net open_cache has_default tag min_ttl ranges reject_ipv6 cache_name =
     (let nets = List.map_filter parse_net (case ranges of None \<Rightarrow> [] | Some rs \<Rightarrow> rs) in
      case cache_name of
        None \<Rightarrow> Inl RequiresCache
      | Some name \<Rightarrow>
          (case open_cache name of
             None \<Rightarrow> Inl CacheInitFailed
           | Some db \<Rightarrow>
               let f0 = \<lparr>fi_tag = tag, fi_min_ttl = map_option unat min_ttl,
                         fi_v4_cidr = (case first_v4 nets of Some n \<Rightarrow> n | None \<Rightarrow> (0xC6120000, 16)),
                         fi_v6_cidr = (case first_v6 nets of Some n \<Rightarrow> n | None \<Rightarrow> (push_bit 112 0xFC00, 18)),
                         fi_db = db, fi_v4_cursor = 0, fi_v6_cursor = 0, fi_reject_ipv6 = reject_ipv6\<rparr>;
                   (c4, f1) = load_cursor j IPV4_CURSOR_CACHE_KEY f0;
                   (c6, f2) = load_cursor j IPV6_CURSOR_CACHE_KEY f1
               in if has_default then Inr (f2\<lparr>fi_v4_cursor := c4, fi_v6_cursor := c6\<rparr>) else Inl NoDefaultOutbound))"

definition save_cursor :: "str_json \<Rightarrow> bytes \<Rightarrow> u64 \<Rightarrow> fakeip \<Rightarrow> fakeip" where
  "save_cursor j key current f = snd (fi_set j key (show_nat (unat current)) f)"

definition next_ipv4_cursor :: "str_json \<Rightarrow> fakeip \<Rightarrow> u64 \<times> fakeip" where
  "next_ipv4_cursor j f =
     (let current = fi_v4_cursor f; f1 = f\<lparr>fi_v4_cursor := current + 1\<rparr>
      in (current, save_cursor j IPV4_CURSOR_CACHE_KEY (fi_v4_cursor f1) f1))"

definition next_ipv6_cursor :: "str_json \<Rightarrow> fakeip \<Rightarrow> u64 \<times> fakeip" where
  "next_ipv6_cursor j f =
     (let current = fi_v6_cursor f; f1 = f\<lparr>fi_v6_cursor := current + 1\<rparr>
      in (current, save_cursor j IPV6_CURSOR_CACHE_KEY (fi_v6_cursor f1) f1))"

text \<open>The additions wrap, as in a release build.\<close>

definition get_fake_ipv4 :: "fakeip \<Rightarrow> u64 \<Rightarrow> 32 word" where
  "get_fake_ipv4 f cursor =
     (let (base, prefix_len) = fi_v4_cidr f; total_hosts = 2 ^ (32 - prefix_len)
      in base + of_nat (unat cursor mod total_hosts))"

definition get_fake_ipv6 :: "fakeip \<Rightarrow> u64 \<Rightarrow> 128 word" where
  "get_fake_ipv6 f cursor =
     (let (base, prefix_len) = fi_v6_cidr f
      in if prefix_len > 64 then
           let host_bits = 128 - prefix_len; total_hosts = 2 ^ host_bits
           in base + of_nat (unat cursor mod total_hosts)
         else base + of_nat (unat cursor))"

datatype fi_error = QtypeUnsupported | FiCacheError | FiParseError

fun domain_key :: "fake_qtype \<Rightarrow> bytes \<Rightarrow> bytes" where
  "domain_key QA domain = domain @ str '':A''"
| "domain_key QAAAA domain = domain @ str '':AAAA''"
| "domain_key QOther domain = domain"

definition ptr_key :: "bytes \<Rightarrow> bytes" where
  "ptr_key ip_str = str ''ptr:'' @ ip_str"

definition resolve_internal :: "str_json \<Rightarrow> bytes \<Rightarrow> fake_qtype \<Rightarrow> fakeip \<Rightarrow> (fi_error + bytes) \<times> fakeip" where
  "resolve_internal j domain qtype f =
     (if qtype = QOther then (Inl QtypeUnsupported, f)
      else case fi_get j (domain_key qtype domain) f of
        (Some (Some ip_str), f1) \<Rightarrow> (Inr ip_str, f1)
      | (_, f1) \<Rightarrow>
          let (ip_str, f2) =
                (if qtype = QA then case next_ipv4_cursor j f1 of (c, g) \<Rightarrow> (show_ip (V4 (get_fake_ipv4 g c)), g)
                 else case next_ipv6_cursor j f1 of (c, g) \<Rightarrow> (show_ip (V6 (get_fake_ipv6 g c)), g))
          in case fi_set j (domain_key qtype domain) ip_str f2 of
               (False, f3) \<Rightarrow> (Inl FiCacheError, f3)
             | (True, f3) \<Rightarrow>
                 (case fi_set j (ptr_key ip_str) domain f3 of
                    (False, f4) \<Rightarrow> (Inl FiCacheError, f4)
                  | (True, f4) \<Rightarrow> (Inr ip_str, f4)))"

definition resolve_v4 :: "str_json \<Rightarrow> bytes \<Rightarrow> fakeip \<Rightarrow> (fi_error + 32 word) \<times> fakeip" where
  "resolve_v4 j domain f =
     (case resolve_internal j domain QA f of
        (Inl e, f1) \<Rightarrow> (Inl e, f1)
      | (Inr res, f1) \<Rightarrow> (case parse_all read_ipv4_addr (trim res) of Some a \<Rightarrow> (Inr a, f1) | None \<Rightarrow> (Inl FiParseError, f1)))"

definition resolve_v6 :: "str_json \<Rightarrow> bytes \<Rightarrow> fakeip \<Rightarrow> (fi_error + 128 word) \<times> fakeip" where
  "resolve_v6 j domain f =
     (case resolve_internal j domain QAAAA f of
        (Inl e, f1) \<Rightarrow> (Inl e, f1)
      | (Inr res, f1) \<Rightarrow> (case parse_all read_ipv6_addr (trim res) of Some a \<Rightarrow> (Inr a, f1) | None \<Rightarrow> (Inl FiParseError, f1)))"

definition reverse_lookup :: "str_json \<Rightarrow> ip_addr \<Rightarrow> fakeip \<Rightarrow> bytes option \<times> fakeip" where
  "reverse_lookup j ip f =
     (case fi_get j (ptr_key (show_ip ip)) f of
        (Some (Some domain), f1) \<Rightarrow> (let d = trim domain in if d = [] then None else Some d, f1)
      | (_, f1) \<Rightarrow> (None, f1))"

text \<open>\<open>lookup_with_type\<close>, with \<open>lookup_ipv4\<close> and \<open>lookup_ipv6\<close>.\<close>

definition fake_lookup :: "str_json \<Rightarrow> bytes \<Rightarrow> fake_qtype \<Rightarrow> fakeip \<Rightarrow> (fi_error + ip_addr list) \<times> fakeip" where
  "fake_lookup j domain qtype f =
     (case qtype of
        QA \<Rightarrow> (case resolve_v4 j domain f of (Inr ip, f1) \<Rightarrow> (Inr [V4 ip], f1) | (Inl e, f1) \<Rightarrow> (Inl e, f1))
      | QAAAA \<Rightarrow> (case resolve_v6 j domain f of (Inr ip, f1) \<Rightarrow> (Inr [V6 ip], f1) | (Inl e, f1) \<Rightarrow> (Inl e, f1))
      | QOther \<Rightarrow> (Inr [], f))"

text \<open>\<open>Ipv4Net::contains\<close> compares the leading bits.\<close>

fun is_fakeip :: "fakeip \<Rightarrow> ip_addr \<Rightarrow> bool" where
  "is_fakeip f (V4 a) = (case fi_v4_cidr f of (base, p) \<Rightarrow> drop_bit (32 - p) a = drop_bit (32 - p) base)"
| "is_fakeip f (V6 a) = (case fi_v6_cidr f of (base, p) \<Rightarrow> drop_bit (128 - p) a = drop_bit (128 - p) base)"

record fake_answer =
  fa_id :: u16
  fa_question :: "bytes \<times> fake_qtype"
  fa_answers :: "(ip_addr \<times> u32) list"

text \<open>\<open>exchange_without_cache\<close> on the questions of a query; an address that cannot be had gives an
  empty answer.\<close>

definition fake_exchange :: "str_json \<Rightarrow> u16 \<Rightarrow> (bytes \<times> fake_qtype) list \<Rightarrow> fakeip \<Rightarrow> fake_answer option \<times> fakeip" where
  "fake_exchange j qid questions f =
     (case questions of
        [] \<Rightarrow> (None, f)
      | (domain, qtype) # _ \<Rightarrow>
          let ttl = of_nat (case fi_min_ttl f of Some t \<Rightarrow> t | None \<Rightarrow> 60) :: u32
          in case qtype of
               QA \<Rightarrow> (case resolve_v4 j domain f of (r, f1) \<Rightarrow>
                 (Some \<lparr>fa_id = qid, fa_question = (domain, qtype), fa_answers = (case r of Inr ip \<Rightarrow> [(V4 ip, ttl)] | Inl _ \<Rightarrow> [])\<rparr>, f1))
             | QAAAA \<Rightarrow> (case resolve_v6 j domain f of (r, f1) \<Rightarrow>
                 (Some \<lparr>fa_id = qid, fa_question = (domain, qtype), fa_answers = (case r of Inr ip \<Rightarrow> [(V6 ip, ttl)] | Inl _ \<Rightarrow> [])\<rparr>, f1))
             | QOther \<Rightarrow> (None, f))"

subsection \<open>Calls that run at the same time\<close>

text \<open>Where a call of \<open>resolve_internal\<close> is: before the lookup, after a miss, with its cursor,
  with the value to save, after saving it, after storing the address, at the end.\<close>

datatype fi_task =
    FiStart fake_qtype bytes
  | FiMiss fake_qtype bytes
  | FiFetched fake_qtype bytes u64
  | FiLoaded fake_qtype bytes u64 u64
  | FiSaved fake_qtype bytes u64
  | FiStored fake_qtype bytes bytes
  | FiDone fake_qtype bytes bytes
  | FiFailed fi_error

definition fake_ip_str :: "fakeip \<Rightarrow> fake_qtype \<Rightarrow> u64 \<Rightarrow> bytes" where
  "fake_ip_str f qtype c = (if qtype = QA then show_ip (V4 (get_fake_ipv4 f c)) else show_ip (V6 (get_fake_ipv6 f c)))"

fun fi_task_step :: "str_json \<Rightarrow> fi_task \<Rightarrow> fakeip \<Rightarrow> fi_task \<times> fakeip" where
  "fi_task_step j (FiStart q d) f =
     (if q = QOther then (FiFailed QtypeUnsupported, f)
      else case fi_get j (domain_key q d) f of
        (Some (Some ip_str), f1) \<Rightarrow> (FiDone q d ip_str, f1)
      | (_, f1) \<Rightarrow> (FiMiss q d, f1))"
| "fi_task_step j (FiMiss q d) f =
     (if q = QA then (FiFetched q d (fi_v4_cursor f), f\<lparr>fi_v4_cursor := fi_v4_cursor f + 1\<rparr>)
      else (FiFetched q d (fi_v6_cursor f), f\<lparr>fi_v6_cursor := fi_v6_cursor f + 1\<rparr>))"
| "fi_task_step j (FiFetched q d c) f = (FiLoaded q d c (if q = QA then fi_v4_cursor f else fi_v6_cursor f), f)"
| "fi_task_step j (FiLoaded q d c v) f =
     (FiSaved q d c, save_cursor j (if q = QA then IPV4_CURSOR_CACHE_KEY else IPV6_CURSOR_CACHE_KEY) v f)"
| "fi_task_step j (FiSaved q d c) f =
     (case fi_set j (domain_key q d) (fake_ip_str f q c) f of
        (True, f1) \<Rightarrow> (FiStored q d (fake_ip_str f q c), f1)
      | (False, f1) \<Rightarrow> (FiFailed FiCacheError, f1))"
| "fi_task_step j (FiStored q d ip_str) f =
     (case fi_set j (ptr_key ip_str) d f of
        (True, f1) \<Rightarrow> (FiDone q d ip_str, f1)
      | (False, f1) \<Rightarrow> (FiFailed FiCacheError, f1))"
| "fi_task_step j t f = (t, f)"

fun fi_task_steps :: "nat \<Rightarrow> str_json \<Rightarrow> fi_task \<Rightarrow> fakeip \<Rightarrow> fi_task \<times> fakeip" where
  "fi_task_steps 0 j t f = (t, f)"
| "fi_task_steps (Suc n) j t f = (case fi_task_step j t f of (t1, f1) \<Rightarrow> fi_task_steps n j t1 f1)"

definition fi_sys_step :: "str_json \<Rightarrow> nat \<Rightarrow> fakeip \<times> fi_task list \<Rightarrow> fakeip \<times> fi_task list" where
  "fi_sys_step j i s =
     (case s of (f, ts) \<Rightarrow>
        if i < length ts then (case fi_task_step j (ts ! i) f of (t, f1) \<Rightarrow> (f1, ts[i := t])) else (f, ts))"

text \<open>The order in which the tasks move.\<close>

definition fi_run :: "str_json \<Rightarrow> nat list \<Rightarrow> fakeip \<times> fi_task list \<Rightarrow> fakeip \<times> fi_task list" where
  "fi_run j sched s = fold (fi_sys_step j) sched s"

fun fi_result :: "fi_task \<Rightarrow> (fi_error + bytes) option" where
  "fi_result (FiDone q d ip_str) = Some (Inr ip_str)"
| "fi_result (FiFailed e) = Some (Inl e)"
| "fi_result _ = None"

text \<open>The steps of one call on its own are \<open>resolve_internal\<close>.\<close>

lemma fi_set_fields:
  "fi_set j k v f = (ok, f') \<Longrightarrow> fi_v4_cursor f' = fi_v4_cursor f \<and> fi_v6_cursor f' = fi_v6_cursor f \<and>
     fi_v4_cidr f' = fi_v4_cidr f \<and> fi_v6_cidr f' = fi_v6_cidr f \<and> fi_tag f' = fi_tag f"
  by (auto simp: fi_set_def split: prod.splits)

lemma task_is_resolve_internal:
  "(case fi_task_steps 6 j (FiStart q d) f of (t, f1) \<Rightarrow> (fi_result t, f1)) = apfst Some (resolve_internal j d q f)"
  by (auto simp: eval_nat_numeral resolve_internal_def next_ipv4_cursor_def next_ipv6_cursor_def fake_ip_str_def Let_def
      split: prod.splits option.splits bool.splits)

subsection \<open>Lemmas: printed addresses\<close>

lemma set_join: "set (join sep xs) \<subseteq> set sep \<union> \<Union> (set ` set xs)"
  by (induction sep xs rule: join.induct) auto

lemma show_ipv4_chars: "b \<in> set (show_ipv4 a) \<Longrightarrow> b = 0x2E \<or> 0x30 \<le> b \<and> b \<le> 0x39"
  using set_join [of "[0x2E]" "map (\<lambda>b. show_nat (unat b)) (to_be 4 a)"] show_nat_digit
  by (fastforce simp: show_ipv4_def)

lemma show_hex_chars: "b \<in> set (show_hex n) \<Longrightarrow> b \<noteq> 0x41"
proof (induction n rule: show_hex.induct)
  case (1 n)
  have "show_hex_digit d \<noteq> 0x41" if "d < 16" for d
  proof -
    from that have "d \<in> set [0..<16]" by simp
    moreover have "list_all (\<lambda>d. show_hex_digit d \<noteq> 0x41) [0..<16]" by code_simp
    ultimately show ?thesis by (simp add: list_all_iff)
  qed
  with 1 show ?case by (subst (asm) (2) show_hex.simps) (auto split: if_splits)
qed

lemma show_groups_chars: "b \<in> set (show_groups gs) \<Longrightarrow> b \<noteq> 0x41"
  using set_join [of "[0x3A]" "map (\<lambda>g. show_hex (unat g)) gs"] show_hex_chars by (fastforce simp: show_groups_def)

lemma show_ipv6_chars: "b \<in> set (show_ipv6 a) \<Longrightarrow> b \<noteq> 0x41"
  using show_groups_chars show_ipv4_chars [of b "ucast a"]
  by (auto simp: show_ipv6_def Let_def split: if_splits prod.splits)

lemma show_ipv6_colon: "0x3A \<in> set (show_ipv6 a)"
  by (auto simp: show_ipv6_def Let_def addr_groups_def upt_rec show_groups_def split: prod.splits)

lemma show_ipv4_ends: "show_ipv4 a \<noteq> []" "0x30 \<le> hd (show_ipv4 a) \<and> hd (show_ipv4 a) \<le> 0x39" "0x30 \<le> last (show_ipv4 a) \<and> last (show_ipv4 a) \<le> 0x39"
  using show_nat_nonempty show_nat_digit [OF hd_in_set] show_nat_digit [OF last_in_set]
  by (simp_all add: show_ipv4_def to_be_4 hd_append last_append)

lemma trim_show_ipv4: "trim (show_ipv4 a) = show_ipv4 a"
proof (rule trim_id)
  have "graph_ascii b" if "0x30 \<le> b" "b \<le> 0x39" for b :: u8
    using that by (simp add: graph_ascii_def word_le_nat_alt word_less_nat_alt)
  with show_ipv4_ends [of a] show "show_ipv4 a = [] \<or> graph_ascii (hd (show_ipv4 a)) \<and> graph_ascii (last (show_ipv4 a))" by blast
qed

lemma read_octet_end:
  assumes "n \<le> 255" and "0 < i"
  shows "read_octet i (0x2E # show_nat n) = Some (n, [])"
proof -
  have "\<not> is_digit 10 (0x2E :: u8)" by (simp add: is_digit_10)
  note t = show_nat_takeWhile(3,4) [OF this]
  show ?thesis using assms length_show_nat_3 [of n] hd_show_nat [of n]
    by (auto simp: read_octet_def read_separator_def read_given_def read_number_def Let_def t
        digits_val_show_nat show_nat_nonempty show_nat.simps [of 0])
qed

lemma parse_show_ipv4: "parse_all read_ipv4_addr (show_ipv4 a) = Some a"
proof -
  have dot: "\<not> is_digit 10 (0x2E :: u8)" by (simp add: is_digit_10)
  have le: "unat (b :: u8) \<le> 255" for b using unat_u8_lt [of b] by linarith
  have "from_be (to_be 4 a) = a" by (simp add: wire_simps)
  then show ?thesis
    unfolding parse_all_def read_ipv4_addr_def show_ipv4_def to_be_4
    by (simp add: read_octet_show [OF le dot] read_octet_end [OF le] del: One_nat_def)
qed

lemma show_ipv4_inject: "show_ipv4 a = show_ipv4 b \<longleftrightarrow> a = b"
proof
  assume "show_ipv4 a = show_ipv4 b"
  then have "parse_all read_ipv4_addr (show_ipv4 a) = parse_all read_ipv4_addr (show_ipv4 b)" by (rule arg_cong)
  then show "a = b" by (simp add: parse_show_ipv4)
qed simp

subsection \<open>Lemmas: keys and addresses\<close>

lemma domain_key_inject: "domain_key QA d = domain_key QA e \<longleftrightarrow> d = e"
  by simp

lemma domain_keys_apart: "domain_key QA d \<noteq> domain_key QAAAA e"
proof
  assume "domain_key QA d = domain_key QAAAA e"
  then have "rev (domain_key QA d) = rev (domain_key QAAAA e)" by (rule arg_cong)
  then show False by simp
qed

lemma ptr_key_apart:
  assumes "0x41 \<notin> set s" and "q \<noteq> QOther"
  shows "ptr_key s \<noteq> domain_key q d"
proof
  assume "ptr_key s = domain_key q d"
  then have "last (ptr_key s) = last (domain_key q d)" by (rule arg_cong)
  moreover have "last (domain_key q d) = 0x41" using assms(2) by (cases q) simp_all
  moreover have "last (ptr_key s) \<noteq> 0x41" using assms(1) by (cases s rule: rev_cases) (auto simp: ptr_key_def)
  ultimately show False by simp
qed

lemma ptr_key_inject: "ptr_key s = ptr_key t \<longleftrightarrow> s = t"
  by (simp add: ptr_key_def)

lemma cursor_key_apart:
  assumes "k = IPV4_CURSOR_CACHE_KEY \<or> k = IPV6_CURSOR_CACHE_KEY"
  shows "k \<noteq> ptr_key s" and "q \<noteq> QOther \<Longrightarrow> k \<noteq> domain_key q d"
proof -
  show "k \<noteq> ptr_key s" using assms by (auto simp: ptr_key_def IPV4_CURSOR_CACHE_KEY_def IPV6_CURSOR_CACHE_KEY_def)
  assume q: "q \<noteq> QOther"
  have "last k = 0x78" using assms by (auto simp: IPV4_CURSOR_CACHE_KEY_def IPV6_CURSOR_CACHE_KEY_def)
  moreover have "last (domain_key q d) = 0x41" using q by (cases q) simp_all
  ultimately show "k \<noteq> domain_key q d" by auto
qed

declare domain_key.simps [simp del]

definition hosts :: "fakeip \<Rightarrow> nat" where
  "hosts f = 2 ^ (32 - snd (fi_v4_cidr f))"

lemma hosts_le: "hosts f \<le> 2 ^ 32"
  unfolding hosts_def by (rule power_increasing) simp_all

lemma of_nat_32_inject: "x < 2 ^ 32 \<Longrightarrow> y < 2 ^ 32 \<Longrightarrow> (of_nat x :: 32 word) = of_nat y \<longleftrightarrow> x = y"
  by (simp add: word_of_nat_eq_iff take_bit_nat_eq_self)

definition v4_str :: "fakeip \<Rightarrow> nat \<Rightarrow> bytes" where
  "v4_str f c = show_ipv4 (fst (fi_v4_cidr f) + of_nat c)"

lemma fake_ip_str_v4: "unat c < hosts f \<Longrightarrow> fake_ip_str f QA c = v4_str f (unat c)"
  by (simp add: fake_ip_str_def get_fake_ipv4_def v4_str_def hosts_def split_beta Let_def)

lemma v4_str_inject: "c < hosts f \<Longrightarrow> d < hosts f \<Longrightarrow> v4_str f c = v4_str f d \<longleftrightarrow> c = d"
  using hosts_le [of f] by (simp add: v4_str_def show_ipv4_inject of_nat_32_inject)

lemma v4_str_chars: "0x41 \<notin> set (v4_str f c)" "0x3A \<notin> set (v4_str f c)"
  using show_ipv4_chars [of "0x41"] show_ipv4_chars [of "0x3A"] by (auto simp: v4_str_def)

subsection \<open>The invariant\<close>

text \<open>The address a task has taken and not yet published in its reverse entry.\<close>

fun owner :: "(nat \<Rightarrow> bytes) \<Rightarrow> fi_task \<Rightarrow> bytes option" where
  "owner g (FiFetched QA d c) = Some (g (unat c))"
| "owner g (FiLoaded QA d c v) = Some (g (unat c))"
| "owner g (FiSaved QA d c) = Some (g (unat c))"
| "owner g (FiStored QA d s) = Some s"
| "owner g _ = None"

fun waiting :: "fi_task \<Rightarrow> nat" where
  "waiting (FiStart QA d) = 1"
| "waiting (FiMiss QA d) = 1"
| "waiting _ = 0"

definition known :: "(nat \<Rightarrow> bytes) \<Rightarrow> (bytes \<Rightarrow> bytes option) \<Rightarrow> nat \<Rightarrow> fi_task list \<Rightarrow> bytes \<Rightarrow> bytes \<Rightarrow> bool" where
  "known g V n ts d s \<longleftrightarrow> (\<exists>c < n. s = g c) \<and> (V (ptr_key s) = Some d \<or> FiStored QA d s \<in> set ts)"

definition fi_inv :: "(nat \<Rightarrow> bytes) \<Rightarrow> nat \<Rightarrow> (bytes \<Rightarrow> bytes option) \<Rightarrow> nat \<Rightarrow> fi_task list \<Rightarrow> bool" where
  "fi_inv g H V n ts \<longleftrightarrow>
     n + sum_list (map waiting ts) \<le> H \<and>
     (\<forall>i < length ts. \<forall>s. owner g (ts ! i) = Some s \<longrightarrow> (\<exists>c < n. s = g c) \<and> V (ptr_key s) = None) \<and>
     (\<forall>i < length ts. \<forall>k < length ts. \<forall>s. i \<noteq> k \<longrightarrow> owner g (ts ! i) = Some s \<longrightarrow> owner g (ts ! k) \<noteq> Some s) \<and>
     (\<forall>c. n \<le> c \<longrightarrow> c < H \<longrightarrow> V (ptr_key (g c)) = None) \<and>
     (\<forall>d s. V (domain_key QA d) = Some s \<longrightarrow> known g V n ts d s) \<and>
     (\<forall>i < length ts. \<forall>d s. ts ! i = FiDone QA d s \<longrightarrow> known g V n ts d s)"

lemma fi_invD:
  assumes "fi_inv g H V n ts"
  shows fi_inv_room: "n + sum_list (map waiting ts) \<le> H"
    and fi_inv_owned: "i < length ts \<Longrightarrow> owner g (ts ! i) = Some s \<Longrightarrow> (\<exists>c < n. s = g c) \<and> V (ptr_key s) = None"
    and fi_inv_apart: "i < length ts \<Longrightarrow> k < length ts \<Longrightarrow> i \<noteq> k \<Longrightarrow> owner g (ts ! i) = Some s \<Longrightarrow> owner g (ts ! k) \<noteq> Some s"
    and fi_inv_fresh: "n \<le> c \<Longrightarrow> c < H \<Longrightarrow> V (ptr_key (g c)) = None"
    and fi_inv_names: "V (domain_key QA d) = Some s \<Longrightarrow> known g V n ts d s"
    and fi_inv_done: "i < length ts \<Longrightarrow> ts ! i = FiDone QA d s \<Longrightarrow> known g V n ts d s"
  using assms by (auto simp: fi_inv_def)

lemma fi_invI:
  assumes "n + sum_list (map waiting ts) \<le> H"
    and "\<And>i s. i < length ts \<Longrightarrow> owner g (ts ! i) = Some s \<Longrightarrow> (\<exists>c < n. s = g c) \<and> V (ptr_key s) = None"
    and "\<And>i k s. i < length ts \<Longrightarrow> k < length ts \<Longrightarrow> i \<noteq> k \<Longrightarrow> owner g (ts ! i) = Some s \<Longrightarrow> owner g (ts ! k) \<noteq> Some s"
    and "\<And>c. n \<le> c \<Longrightarrow> c < H \<Longrightarrow> V (ptr_key (g c)) = None"
    and "\<And>d s. V (domain_key QA d) = Some s \<Longrightarrow> known g V n ts d s"
    and "\<And>i d s. i < length ts \<Longrightarrow> ts ! i = FiDone QA d s \<Longrightarrow> known g V n ts d s"
  shows "fi_inv g H V n ts"
  using assms by (simp add: fi_inv_def)

lemma set_update_other: "x \<in> set ts \<Longrightarrow> ts ! i \<noteq> x \<Longrightarrow> x \<in> set (ts[i := t])"
  by (metis in_set_conv_nth length_list_update nth_list_update_neq)

lemma waiting_update:
  "i < length ts \<Longrightarrow> sum_list (map waiting (ts[i := t])) = sum_list (map waiting ts) + waiting t - waiting (ts ! i)"
  by (simp add: map_update sum_list_update)

lemma waiting_member: "i < length ts \<Longrightarrow> waiting (ts ! i) \<le> sum_list (map waiting ts)"
  by (rule member_le_sum_list) simp_all

lemma known_update:
  "known g V n ts d s \<Longrightarrow> (\<And>e u. ts ! i \<noteq> FiStored QA e u) \<Longrightarrow> known g V n (ts[i := t]) d s"
  by (auto simp: known_def intro: set_update_other)

lemma known_Suc: "known g V n ts d s \<Longrightarrow> known g V (Suc n) ts d s"
  unfolding known_def using less_SucI by blast

text \<open>A task moves without taking or publishing an address.\<close>

lemma fi_inv_quiet:
  assumes inv: "fi_inv g H V n ts" and i: "i < length ts" and own: "owner g t = owner g (ts ! i)" and w: "waiting t \<le> waiting (ts ! i)"
    and ns: "\<And>e u. ts ! i \<noteq> FiStored QA e u" and kn: "\<And>d s. t = FiDone QA d s \<Longrightarrow> known g V n ts d s"
  shows "fi_inv g H V n (ts[i := t])"
proof (rule fi_invI)
  have o: "owner g (ts[i := t] ! k) = owner g (ts ! k)" for k using own i by (cases "k = i") simp_all
  show "n + sum_list (map waiting (ts[i := t])) \<le> H"
    using fi_inv_room [OF inv] w waiting_member [OF i] unfolding waiting_update [OF i] by linarith
  show "(\<exists>c < n. s = g c) \<and> V (ptr_key s) = None" if "k < length (ts[i := t])" "owner g (ts[i := t] ! k) = Some s" for k s
    using fi_inv_owned [OF inv] that o by simp
  show "owner g (ts[i := t] ! l) \<noteq> Some s" if "k < length (ts[i := t])" "l < length (ts[i := t])" "k \<noteq> l" "owner g (ts[i := t] ! k) = Some s" for k l s
    using fi_inv_apart [OF inv] that o by simp
  show "V (ptr_key (g c)) = None" if "n \<le> c" "c < H" for c using fi_inv_fresh [OF inv that] .
  show "known g V n (ts[i := t]) d s" if "V (domain_key QA d) = Some s" for d s
    using known_update [OF fi_inv_names [OF inv that] ns] .
  show "known g V n (ts[i := t]) d s" if "k < length (ts[i := t])" "ts[i := t] ! k = FiDone QA d s" for k d s
    using known_update [OF _ ns] kn fi_inv_done [OF inv] that by (cases "k = i") auto
qed

text \<open>Other keys do not matter.\<close>

lemma fi_inv_frame:
  assumes inv: "fi_inv g H V n ts" and dk: "\<And>d. W (domain_key QA d) = V (domain_key QA d)"
    and pk: "\<And>c. c < H \<Longrightarrow> W (ptr_key (g c)) = V (ptr_key (g c))"
  shows "fi_inv g H W n ts"
proof (rule fi_invI)
  have n: "n \<le> H" using fi_inv_room [OF inv] by simp
  have k: "known g V n ts d s \<Longrightarrow> known g W n ts d s" for d s using pk n by (auto simp: known_def)
  show "n + sum_list (map waiting ts) \<le> H" by (rule fi_inv_room [OF inv])
  show "(\<exists>c < n. s = g c) \<and> W (ptr_key s) = None" if "i < length ts" "owner g (ts ! i) = Some s" for i s
    using fi_inv_owned [OF inv that] pk n by auto
  show "owner g (ts ! l) \<noteq> Some s" if "k < length ts" "l < length ts" "k \<noteq> l" "owner g (ts ! k) = Some s" for k l s
    using fi_inv_apart [OF inv that] .
  show "W (ptr_key (g c)) = None" if "n \<le> c" "c < H" for c using fi_inv_fresh [OF inv that] pk that by simp
  show "known g W n ts d s" if "W (domain_key QA d) = Some s" for d s using k fi_inv_names [OF inv] that dk by simp
  show "known g W n ts d s" if "i < length ts" "ts ! i = FiDone QA d s" for i d s using k fi_inv_done [OF inv that] .
qed

text \<open>Taking the next address.\<close>

lemma fi_inv_fetch:
  assumes inv: "fi_inv g H V n ts" and i: "i < length ts" and t: "ts ! i = FiMiss QA d" and c: "unat c = n"
    and inj: "\<And>c e. c < H \<Longrightarrow> e < H \<Longrightarrow> g c = g e \<Longrightarrow> c = e"
  shows "fi_inv g H V (Suc n) (ts[i := FiFetched QA d c])"
proof (rule fi_invI)
  let ?ts = "ts[i := FiFetched QA d c]"
  have w: "1 \<le> sum_list (map waiting ts)" using waiting_member [OF i] t by simp
  with fi_inv_room [OF inv] have n: "n < H" by simp
  have old: "owner g (ts ! k) = Some s \<Longrightarrow> k < length ts \<Longrightarrow> s \<noteq> g n" for k s
    using fi_inv_owned [OF inv, of k s] inj n by (metis less_irrefl less_trans)
  have kn: "known g V n ts e s \<Longrightarrow> known g V (Suc n) ?ts e s" for e s
    using known_Suc known_update [of g V n ts e s i "FiFetched QA d c"] t by simp
  show "Suc n + sum_list (map waiting ?ts) \<le> H" using fi_inv_room [OF inv] w t unfolding waiting_update [OF i] by simp
  show "(\<exists>c < Suc n. s = g c) \<and> V (ptr_key s) = None" if "k < length ?ts" "owner g (?ts ! k) = Some s" for k s
  proof (cases "k = i")
    case True
    with that i c fi_inv_fresh [OF inv order_refl n] show ?thesis by auto
  next
    case False
    with that fi_inv_owned [OF inv, of k s] show ?thesis by (auto intro: less_SucI)
  qed
  show "owner g (?ts ! l) \<noteq> Some s" if "k < length ?ts" "l < length ?ts" "k \<noteq> l" "owner g (?ts ! k) = Some s" for k l s
    using that fi_inv_apart [OF inv, of k l s] old [of k s] old [of l s] c i by (cases "k = i"; cases "l = i") auto
  show "V (ptr_key (g c)) = None" if "Suc n \<le> c" "c < H" for c using fi_inv_fresh [OF inv, of c] that by simp
  show "known g V (Suc n) ?ts e s" if "V (domain_key QA e) = Some s" for e s using kn fi_inv_names [OF inv that] .
  show "known g V (Suc n) ?ts e s" if "k < length ?ts" "?ts ! k = FiDone QA e s" for k e s
    using kn fi_inv_done [OF inv, of k e s] that i by (cases "k = i") auto
qed

text \<open>Storing the address under the name, and then the name under the address.\<close>

lemma fi_inv_store:
  assumes inv: "fi_inv g H V n ts" and i: "i < length ts" and t: "ts ! i = FiSaved QA d c"
    and apart: "\<And>c. ptr_key (g c) \<noteq> domain_key QA d"
  shows "fi_inv g H (V(domain_key QA d \<mapsto> g (unat c))) n (ts[i := FiStored QA d (g (unat c))])"
proof (rule fi_invI)
  let ?s = "g (unat c)" and ?V = "V(domain_key QA d \<mapsto> g (unat c))" and ?ts = "ts[i := FiStored QA d (g (unat c))]"
  have o: "owner g (?ts ! k) = owner g (ts ! k)" for k using t i by (cases "k = i") simp_all
  have V: "?V (ptr_key (g e)) = V (ptr_key (g e))" for e using apart by simp
  have kn: "known g V n ts e s \<Longrightarrow> known g ?V n ?ts e s" for e s
    using known_update [of g V n ts e s i "FiStored QA d ?s"] t apart by (auto simp: known_def)
  have stored: "known g ?V n ?ts d ?s" using fi_inv_owned [OF inv i, of ?s] t i by (simp add: known_def set_update_memI)
  show "n + sum_list (map waiting ?ts) \<le> H" using fi_inv_room [OF inv] t unfolding waiting_update [OF i] by simp
  show "(\<exists>c < n. s = g c) \<and> ?V (ptr_key s) = None" if "k < length ?ts" "owner g (?ts ! k) = Some s" for k s
    using fi_inv_owned [OF inv, of k s] that o apart by auto
  show "owner g (?ts ! l) \<noteq> Some s" if "k < length ?ts" "l < length ?ts" "k \<noteq> l" "owner g (?ts ! k) = Some s" for k l s
    using fi_inv_apart [OF inv, of k l s] that o by simp
  show "?V (ptr_key (g c)) = None" if "n \<le> c" "c < H" for c using fi_inv_fresh [OF inv that] V by simp
  show "known g ?V n ?ts e s" if "?V (domain_key QA e) = Some s" for e s
    using that kn stored fi_inv_names [OF inv, of e s] by (cases "e = d") (auto simp: domain_key_inject)
  show "known g ?V n ?ts e s" if "k < length ?ts" "?ts ! k = FiDone QA e s" for k e s
    using kn fi_inv_done [OF inv, of k e s] that i by (cases "k = i") auto
qed

lemma fi_inv_publish:
  assumes inv: "fi_inv g H V n ts" and i: "i < length ts" and t: "ts ! i = FiStored QA d s"
    and apart: "\<And>e. domain_key QA e \<noteq> ptr_key s"
    and inj: "\<And>c e. c < H \<Longrightarrow> e < H \<Longrightarrow> g c = g e \<Longrightarrow> c = e"
  shows "fi_inv g H (V(ptr_key s \<mapsto> d)) n (ts[i := FiDone QA d s])"
proof (rule fi_invI)
  let ?V = "V(ptr_key s \<mapsto> d)" and ?ts = "ts[i := FiDone QA d s]"
  have own: "owner g (ts ! i) = Some s" using t by simp
  from fi_inv_owned [OF inv i own] obtain c where mine: "c < n" "s = g c" and none: "V (ptr_key s) = None" by blast
  have n: "n \<le> H" using fi_inv_room [OF inv] by simp
  have other: "owner g (ts ! k) = Some u \<Longrightarrow> k < length ts \<Longrightarrow> k \<noteq> i \<Longrightarrow> u \<noteq> s" for k u
    using fi_inv_apart [OF inv i _ _ own] by auto
  have kn: "known g ?V n ?ts e u" if "known g V n ts e u" for e u
  proof (cases "u = s")
    case True
    with that none have "FiStored QA e s \<in> set ts" by (simp add: known_def)
    then obtain k where k: "k < length ts" "ts ! k = FiStored QA e s" by (auto simp: in_set_conv_nth)
    with other [of k s] have "k = i" by auto
    with k t mine True show ?thesis by (auto simp: known_def)
  next
    case False
    with that t show ?thesis by (auto simp: known_def ptr_key_inject intro: set_update_other)
  qed
  show "n + sum_list (map waiting ?ts) \<le> H" using fi_inv_room [OF inv] t unfolding waiting_update [OF i] by simp
  show "(\<exists>c < n. u = g c) \<and> ?V (ptr_key u) = None" if "k < length ?ts" "owner g (?ts ! k) = Some u" for k u
    using that fi_inv_owned [OF inv, of k u] other [of k u] i by (cases "k = i") (auto simp: ptr_key_inject)
  show "owner g (?ts ! l) \<noteq> Some u" if "k < length ?ts" "l < length ?ts" "k \<noteq> l" "owner g (?ts ! k) = Some u" for k l u
    using that fi_inv_apart [OF inv, of k l u] i by (cases "k = i"; cases "l = i") auto
  show "?V (ptr_key (g e)) = None" if "n \<le> e" "e < H" for e
    using fi_inv_fresh [OF inv that] inj [of e c] mine that n by (auto simp: ptr_key_inject)
  show "known g ?V n ?ts e u" if "?V (domain_key QA e) = Some u" for e u
    using that kn apart fi_inv_names [OF inv, of e u] by simp
  show "known g ?V n ?ts e u" if "k < length ?ts" "?ts ! k = FiDone QA e u" for k e u
    using kn fi_inv_done [OF inv, of k e u] that i mine by (cases "k = i") (auto simp: known_def)
qed

subsection \<open>The invariant under every step\<close>

definition fi_view :: "str_json \<Rightarrow> fakeip \<Rightarrow> bytes \<Rightarrow> bytes option" where
  "fi_view j f key = Option.bind (fmlookup (db_tables (fi_db f)) (fi_table f, key)) (sj_dec j)"

definition json_ok :: "str_json \<Rightarrow> bool" where
  "json_ok j \<longleftrightarrow> (\<forall>s. sj_dec j (sj_enc j s) = Some s)"

definition fi_healthy :: "fakeip \<Rightarrow> bool" where
  "fi_healthy f \<longleftrightarrow> db_faults (fi_db f) = []"

lemma fi_get_view:
  "fi_healthy f \<Longrightarrow> \<exists>r. fi_get j k f = (r, f) \<and> (\<forall>v. r = Some (Some v) \<longleftrightarrow> fi_view j f k = Some v)"
  by (auto simp: fi_healthy_def fi_get_def get_entry_def next_txn_def fi_view_def split: option.splits)

lemma fi_set_view:
  assumes "fi_healthy f" and "json_ok j"
  obtains f' where "fi_set j k v f = (True, f')" "fi_view j f' = (fi_view j f)(k \<mapsto> v)" "fi_healthy f'"
    "fi_v4_cidr f' = fi_v4_cidr f" "fi_v4_cursor f' = fi_v4_cursor f"
proof -
  let ?f = "f\<lparr>fi_db := snd (set_entry (sj_enc j) (fi_table f) (fi_db f) k v)\<rparr>"
  show ?thesis
    by (rule that [of ?f])
      (use assms in \<open>auto simp: fi_healthy_def fi_set_def set_entry_def cache_write_def next_txn_def fi_view_def fi_table_def json_ok_def\<close>)
qed

text \<open>What a task that is under way works for.\<close>

fun task_ok :: "nat \<Rightarrow> fi_task \<Rightarrow> bool" where
  "task_ok H (FiMiss q d) = (q \<noteq> QOther)"
| "task_ok H (FiFetched q d c) = (q \<noteq> QOther \<and> (q = QA \<longrightarrow> unat c < H))"
| "task_ok H (FiLoaded q d c v) = (q \<noteq> QOther \<and> (q = QA \<longrightarrow> unat c < H))"
| "task_ok H (FiSaved q d c) = (q \<noteq> QOther \<and> (q = QA \<longrightarrow> unat c < H))"
| "task_ok H (FiStored q d s) = (q \<noteq> QOther \<and> 0x41 \<notin> set s \<and> (q = QAAAA \<longrightarrow> 0x3A \<in> set s))"
| "task_ok H _ = True"

definition fi_sys_inv :: "str_json \<Rightarrow> fakeip \<Rightarrow> fakeip \<times> fi_task list \<Rightarrow> bool" where
  "fi_sys_inv j f0 s = (case s of (f, ts) \<Rightarrow>
     fi_healthy f \<and> fi_v4_cidr f = fi_v4_cidr f0 \<and> list_all (task_ok (hosts f0)) ts \<and>
     fi_inv (v4_str f0) (hosts f0) (fi_view j f) (unat (fi_v4_cursor f)) ts)"

lemma list_all_update: "list_all P xs \<Longrightarrow> P x \<Longrightarrow> list_all P (xs[i := x])"
  using set_update_subset_insert [of xs i x] by (auto simp: list_all_iff)

text \<open>One lemma per atomic step.\<close>

lemma step_start:
  assumes inv: "fi_sys_inv j f0 (f, ts)" and i: "i < length ts" and t: "ts ! i = FiStart q d"
  shows "fi_sys_inv j f0 (fi_sys_step j i (f, ts))"
proof -
  from inv have h: "fi_healthy f" and I: "fi_inv (v4_str f0) (hosts f0) (fi_view j f) (unat (fi_v4_cursor f)) ts"
    by (simp_all add: fi_sys_inv_def)
  from fi_get_view [OF h, of j "domain_key q d"] obtain r where r: "fi_get j (domain_key q d) f = (r, f)"
    and v: "\<And>v. r = Some (Some v) \<longleftrightarrow> fi_view j f (domain_key q d) = Some v" by blast
  define t' where "t' = fst (fi_task_step j (ts ! i) f)"
  have t': "fi_task_step j (ts ! i) f = (t', f)" and ok: "task_ok (hosts f0) t'"
    and q: "owner (v4_str f0) t' = owner (v4_str f0) (ts ! i)" "waiting t' \<le> waiting (ts ! i)"
    and kn: "t' = FiDone QA e s \<Longrightarrow> fi_view j f (domain_key QA e) = Some s" for e s
    unfolding t'_def using t r v by (cases q; auto split: option.splits)+
  have "fi_inv (v4_str f0) (hosts f0) (fi_view j f) (unat (fi_v4_cursor f)) (ts[i := t'])"
    using fi_inv_quiet [OF I i q] t fi_inv_names [OF I] kn by simp
  with inv i t' ok show ?thesis by (simp add: fi_sys_inv_def fi_sys_step_def list_all_update)
qed

lemma step_miss:
  assumes inv: "fi_sys_inv j f0 (f, ts)" and i: "i < length ts" and t: "ts ! i = FiMiss q d"
  shows "fi_sys_inv j f0 (fi_sys_step j i (f, ts))"
proof -
  from inv have I: "fi_inv (v4_str f0) (hosts f0) (fi_view j f) (unat (fi_v4_cursor f)) ts" and q: "q \<noteq> QOther"
    using i t by (auto simp: fi_sys_inv_def list_all_length)
  show ?thesis
  proof (cases "q = QA")
    case True
    with waiting_member [OF i] t fi_inv_room [OF I] have lt: "unat (fi_v4_cursor f) < hosts f0" by simp
    with hosts_le [of f0] have u: "unat (fi_v4_cursor f + 1) = Suc (unat (fi_v4_cursor f))" by (simp add: unat_word_ariths)
    have "fi_inv (v4_str f0) (hosts f0) (fi_view j f) (Suc (unat (fi_v4_cursor f))) (ts[i := FiFetched QA d (fi_v4_cursor f)])"
      using fi_inv_fetch [OF I i] t True v4_str_inject by simp
    with inv i t True u lt show ?thesis
      by (simp add: fi_sys_inv_def fi_sys_step_def list_all_update fi_view_def [abs_def] fi_healthy_def fi_table_def)
  next
    case False
    with q have q6: "q = QAAAA" by (cases q) simp_all
    have "fi_inv (v4_str f0) (hosts f0) (fi_view j f) (unat (fi_v4_cursor f)) (ts[i := FiFetched QAAAA d (fi_v6_cursor f)])"
      by (rule fi_inv_quiet [OF I i]) (simp_all add: t q6)
    with inv i t q6 show ?thesis
      by (simp add: fi_sys_inv_def fi_sys_step_def list_all_update fi_view_def [abs_def] fi_healthy_def fi_table_def)
  qed
qed

lemma step_load:
  assumes inv: "fi_sys_inv j f0 (f, ts)" and i: "i < length ts" and t: "ts ! i = FiFetched q d c"
  shows "fi_sys_inv j f0 (fi_sys_step j i (f, ts))"
proof -
  from inv have I: "fi_inv (v4_str f0) (hosts f0) (fi_view j f) (unat (fi_v4_cursor f)) ts" and q: "q \<noteq> QOther"
    and c: "q = QA \<longrightarrow> unat c < hosts f0"
    using i t by (auto simp: fi_sys_inv_def list_all_length)
  have "fi_inv (v4_str f0) (hosts f0) (fi_view j f) (unat (fi_v4_cursor f)) (ts[i := FiLoaded q d c v])" for v
    by (rule fi_inv_quiet [OF I i]) (use q in \<open>cases q; simp add: t\<close>)+
  with inv i t q c show ?thesis by (simp add: fi_sys_inv_def fi_sys_step_def list_all_update)
qed

text \<open>A write to a key that is neither an A entry nor the reverse entry of an IPv4 address of the range.\<close>

lemma fi_inv_other_write:
  assumes "fi_inv (v4_str f0) H V n ts" and "\<And>d. k \<noteq> domain_key QA d" and "\<And>c. k \<noteq> ptr_key (v4_str f0 c)"
  shows "fi_inv (v4_str f0) H (V(k \<mapsto> v)) n ts"
  by (rule fi_inv_frame [OF assms(1)]) (use assms(2,3) in \<open>metis fun_upd_other\<close>)+

lemma step_save:
  assumes inv: "fi_sys_inv j f0 (f, ts)" and j: "json_ok j" and i: "i < length ts" and t: "ts ! i = FiLoaded q d c v"
  shows "fi_sys_inv j f0 (fi_sys_step j i (f, ts))"
proof -
  let ?k = "if q = QA then IPV4_CURSOR_CACHE_KEY else IPV6_CURSOR_CACHE_KEY"
  from inv have h: "fi_healthy f" and I: "fi_inv (v4_str f0) (hosts f0) (fi_view j f) (unat (fi_v4_cursor f)) ts" and q: "q \<noteq> QOther"
    and c: "q = QA \<longrightarrow> unat c < hosts f0"
    using i t by (auto simp: fi_sys_inv_def list_all_length)
  obtain f' where f': "fi_set j ?k (show_nat (unat v)) f = (True, f')" "fi_view j f' = (fi_view j f)(?k \<mapsto> show_nat (unat v))"
    "fi_healthy f'" "fi_v4_cidr f' = fi_v4_cidr f" "fi_v4_cursor f' = fi_v4_cursor f" by (rule fi_set_view [OF h j])
  have k: "?k \<noteq> domain_key QA e" "?k \<noteq> ptr_key s" for e s using cursor_key_apart [of ?k] by auto
  have "fi_inv (v4_str f0) (hosts f0) (fi_view j f) (unat (fi_v4_cursor f)) (ts[i := FiSaved q d c])"
    by (rule fi_inv_quiet [OF I i]) (use q in \<open>cases q; simp add: t\<close>)+
  then have "fi_inv (v4_str f0) (hosts f0) (fi_view j f') (unat (fi_v4_cursor f)) (ts[i := FiSaved q d c])"
    unfolding f'(2) by (rule fi_inv_other_write) (rule k)+
  moreover have "fi_sys_step j i (f, ts) = (f', ts[i := FiSaved q d c])"
    using i t f'(1) by (simp add: fi_sys_step_def save_cursor_def)
  ultimately show ?thesis using inv f' q c by (simp add: fi_sys_inv_def list_all_update)
qed

lemma step_store:
  assumes inv: "fi_sys_inv j f0 (f, ts)" and j: "json_ok j" and i: "i < length ts" and t: "ts ! i = FiSaved q d c"
  shows "fi_sys_inv j f0 (fi_sys_step j i (f, ts))"
proof -
  let ?s = "fake_ip_str f q c" and ?k = "domain_key q d"
  from inv have h: "fi_healthy f" and I: "fi_inv (v4_str f0) (hosts f0) (fi_view j f) (unat (fi_v4_cursor f)) ts" and q: "q \<noteq> QOther"
    and c: "q = QA \<longrightarrow> unat c < hosts f0" and cidr: "fi_v4_cidr f = fi_v4_cidr f0"
    using i t by (auto simp: fi_sys_inv_def list_all_length)
  obtain f' where f': "fi_set j ?k ?s f = (True, f')" "fi_view j f' = (fi_view j f)(?k \<mapsto> ?s)"
    "fi_healthy f'" "fi_v4_cidr f' = fi_v4_cidr f" "fi_v4_cursor f' = fi_v4_cursor f" by (rule fi_set_view [OF h j])
  have s: "0x41 \<notin> set ?s" "q = QAAAA \<longrightarrow> 0x3A \<in> set ?s"
    using show_ipv4_chars [of "0x41"] show_ipv6_chars [of "0x41"] show_ipv6_colon by (auto simp: fake_ip_str_def)
  have "fi_inv (v4_str f0) (hosts f0) (fi_view j f') (unat (fi_v4_cursor f)) (ts[i := FiStored q d ?s])"
  proof (cases "q = QA")
    case True
    with c cidr have "?s = v4_str f0 (unat c)" using fake_ip_str_v4 [of c f] by (simp add: v4_str_def hosts_def)
    with fi_inv_store [OF I i, of d c] t True ptr_key_apart [OF v4_str_chars(1)] show ?thesis unfolding f'(2) by simp
  next
    case False
    with q have q6: "q = QAAAA" by (cases q) simp_all
    have "fi_inv (v4_str f0) (hosts f0) (fi_view j f) (unat (fi_v4_cursor f)) (ts[i := FiStored q d ?s])"
      by (rule fi_inv_quiet [OF I i]) (simp_all add: t q6)
    then show ?thesis unfolding f'(2)
      by (rule fi_inv_other_write) (use q6 domain_keys_apart ptr_key_apart [OF v4_str_chars(1)] in \<open>metis fake_qtype.distinct(6)\<close>)+
  qed
  moreover have "fi_sys_step j i (f, ts) = (f', ts[i := FiStored q d ?s])" using i t f'(1) by (simp add: fi_sys_step_def)
  ultimately show ?thesis using inv f' q s by (simp add: fi_sys_inv_def list_all_update)
qed

lemma step_publish:
  assumes inv: "fi_sys_inv j f0 (f, ts)" and j: "json_ok j" and i: "i < length ts" and t: "ts ! i = FiStored q d s"
  shows "fi_sys_inv j f0 (fi_sys_step j i (f, ts))"
proof -
  from inv have h: "fi_healthy f" and I: "fi_inv (v4_str f0) (hosts f0) (fi_view j f) (unat (fi_v4_cursor f)) ts" and q: "q \<noteq> QOther"
    and s: "0x41 \<notin> set s" "q = QAAAA \<longrightarrow> 0x3A \<in> set s"
    using i t by (auto simp: fi_sys_inv_def list_all_length)
  obtain f' where f': "fi_set j (ptr_key s) d f = (True, f')" "fi_view j f' = (fi_view j f)(ptr_key s \<mapsto> d)"
    "fi_healthy f'" "fi_v4_cidr f' = fi_v4_cidr f" "fi_v4_cursor f' = fi_v4_cursor f" by (rule fi_set_view [OF h j])
  have k: "ptr_key s \<noteq> domain_key QA e" for e using ptr_key_apart [OF s(1)] by simp
  have "fi_inv (v4_str f0) (hosts f0) (fi_view j f') (unat (fi_v4_cursor f)) (ts[i := FiDone q d s])"
  proof (cases "q = QA")
    case True
    with fi_inv_publish [OF I i, of d s] t k v4_str_inject show ?thesis unfolding f'(2) by (metis)
  next
    case False
    with q have q6: "q = QAAAA" by (cases q) simp_all
    have "fi_inv (v4_str f0) (hosts f0) (fi_view j f) (unat (fi_v4_cursor f)) (ts[i := FiDone q d s])"
      by (rule fi_inv_quiet [OF I i]) (simp_all add: t q6)
    then show ?thesis unfolding f'(2)
      by (rule fi_inv_other_write) (use q6 k s v4_str_chars(2) in \<open>auto simp: ptr_key_inject\<close>)
  qed
  moreover have "fi_sys_step j i (f, ts) = (f', ts[i := FiDone q d s])" using i t f'(1) by (simp add: fi_sys_step_def)
  ultimately show ?thesis using inv f' by (simp add: fi_sys_inv_def list_all_update)
qed

lemma fi_sys_step_inv:
  assumes inv: "fi_sys_inv j f0 s" and j: "json_ok j"
  shows "fi_sys_inv j f0 (fi_sys_step j i s)"
proof -
  obtain f ts where s: "s = (f, ts)" by (cases s)
  show ?thesis
  proof (cases "i < length ts")
    case True
    note steps = step_start step_miss step_load step_save [OF _ j] step_store [OF _ j] step_publish [OF _ j]
    from steps [OF inv [unfolded s] True] inv True show ?thesis unfolding s
      by (cases "ts ! i") (auto simp: fi_sys_step_def, (metis list_update_id)+)
  qed (use inv s in \<open>simp add: fi_sys_step_def\<close>)
qed

lemma fi_run_inv: "fi_sys_inv j f0 s \<Longrightarrow> json_ok j \<Longrightarrow> fi_sys_inv j f0 (fi_run j sched s)"
  unfolding fi_run_def by (induction sched arbitrary: s) (simp_all add: fi_sys_step_inv)

subsection \<open>Every call ends\<close>

fun rank :: "fi_task \<Rightarrow> nat" where
  "rank (FiStart q d) = 6"
| "rank (FiMiss q d) = 5"
| "rank (FiFetched q d c) = 4"
| "rank (FiLoaded q d c v) = 3"
| "rank (FiSaved q d c) = 2"
| "rank (FiStored q d s) = 1"
| "rank _ = 0"

fun task_req :: "fi_task \<Rightarrow> (fake_qtype \<times> bytes) option" where
  "task_req (FiStart q d) = Some (q, d)"
| "task_req (FiMiss q d) = Some (q, d)"
| "task_req (FiFetched q d c) = Some (q, d)"
| "task_req (FiLoaded q d c v) = Some (q, d)"
| "task_req (FiSaved q d c) = Some (q, d)"
| "task_req (FiStored q d s) = Some (q, d)"
| "task_req (FiDone q d s) = Some (q, d)"
| "task_req (FiFailed e) = None"

lemma step_rank: "rank (fst (fi_task_step j t f)) \<le> rank t - 1"
  by (cases t) (auto split: option.splits prod.splits bool.splits)

lemma step_req:
  assumes "fi_healthy f" and "json_ok j" and "task_req t = Some (q, d)" and "q \<noteq> QOther"
  shows "task_req (fst (fi_task_step j t f)) = Some (q, d)"
proof -
  have "fst (fi_set j k v f)" for k v using fi_set_view [OF assms(1,2)] by (metis fst_conv)
  with assms(3,4) show ?thesis by (cases t) (auto split: option.splits prod.splits bool.splits, (metis fst_conv)+)
qed

lemma fi_sys_step_other: "k \<noteq> i \<Longrightarrow> snd (fi_sys_step j k s) ! i = snd s ! i"
  by (auto simp: fi_sys_step_def split: prod.splits)

lemma fi_sys_step_this: "i < length (snd s) \<Longrightarrow> snd (fi_sys_step j i s) ! i = fst (fi_task_step j (snd s ! i) (fst s))"
  by (auto simp: fi_sys_step_def split: prod.splits)

lemma fi_sys_step_length: "length (snd (fi_sys_step j k s)) = length (snd s)"
  by (auto simp: fi_sys_step_def split: prod.splits)

lemma fi_run_length: "length (snd (fi_run j sched s)) = length (snd s)"
  unfolding fi_run_def by (induction sched arbitrary: s) (simp_all add: fi_sys_step_length)

lemma fi_run_rank:
  assumes "i < length (snd s)"
  shows "rank (snd (fi_run j sched s) ! i) \<le> rank (snd s ! i) - count_list sched i"
  using assms unfolding fi_run_def
proof (induction sched arbitrary: s)
  case (Cons k sched)
  have "rank (snd (fi_sys_step j k s) ! i) \<le> rank (snd s ! i) - (if k = i then 1 else 0)"
    using step_rank fi_sys_step_other [of k i j s] fi_sys_step_this [of i s j] Cons.prems by (cases "k = i") simp_all
  with Cons.IH [of "fi_sys_step j k s"] Cons.prems show ?case by (auto simp: fi_sys_step_length)
qed simp

lemma fi_run_req:
  assumes "fi_sys_inv j f0 s" and "json_ok j" and "i < length (snd s)" and "task_req (snd s ! i) = Some (q, d)" and "q \<noteq> QOther"
  shows "task_req (snd (fi_run j sched s) ! i) = Some (q, d)"
  using assms unfolding fi_run_def
proof (induction sched arbitrary: s)
  case (Cons k sched)
  have h: "fi_healthy (fst s)" using Cons.prems(1) by (auto simp: fi_sys_inv_def split: prod.splits)
  have "task_req (snd (fi_sys_step j k s) ! i) = Some (q, d)"
    using step_req [OF h Cons.prems(2,4,5)] fi_sys_step_other [of k i j s] fi_sys_step_this [OF Cons.prems(3), of j] Cons.prems(4)
    by (cases "k = i") simp_all
  then show ?case using Cons.IH [OF fi_sys_step_inv [OF Cons.prems(1,2)] Cons.prems(2)] Cons.prems(3,5)
    by (simp add: fi_sys_step_length)
qed simp

lemma rank_done: "rank t = 0 \<Longrightarrow> task_req t = Some (q, d) \<Longrightarrow> \<exists>s. t = FiDone q d s"
  by (cases t) simp_all

subsection \<open>A fake address leads back to its name\<close>

text \<open>A server whose cache table is still empty.\<close>

definition fi_fresh :: "fakeip \<Rightarrow> bool" where
  "fi_fresh f \<longleftrightarrow> fi_healthy f \<and> fi_v4_cursor f = 0 \<and> fBall (fmdom (db_tables (fi_db f))) (\<lambda>(table, _). table \<noteq> fi_table f)"

lemma fi_fresh_view: "fi_fresh f \<Longrightarrow> fi_view j f k = None"
  by (fastforce simp: fi_fresh_def fi_view_def bind_eq_None_conv fmlookup_dom_iff)

definition start :: "fake_qtype \<times> bytes \<Rightarrow> fi_task" where
  "start r = FiStart (fst r) (snd r)"

lemma start_inv:
  assumes "fi_fresh f" and "length (filter (\<lambda>r. fst r = QA) reqs) \<le> hosts f"
  shows "fi_sys_inv j f (f, map start reqs)"
proof -
  have "sum_list (map waiting (map start reqs)) = length (filter (\<lambda>r. fst r = QA) reqs)"
  proof (induction reqs)
    case (Cons r rs) then show ?case by (cases "fst r") (simp_all add: start_def)
  qed simp
  with assms show ?thesis
    by (auto simp: fi_sys_inv_def fi_inv_def fi_fresh_view start_def list_all_length fi_fresh_def)
qed

lemma fi_get_hit: "fi_healthy f \<Longrightarrow> fi_view j f k = Some v \<Longrightarrow> fi_get j k f = (Some (Some v), f)"
  using fi_get_view by metis

lemma fi_view_reverse:
  assumes "fi_healthy f" and "fi_view j f (ptr_key (show_ip a)) = Some d"
  shows "fst (reverse_lookup j a f) = (if trim d = [] then None else Some (trim d))"
  unfolding reverse_lookup_def fi_get_hit [OF assms] by (simp add: Let_def)

text \<open>C35. Any number of requests for names, running at the same time in any order, on a server with an
  empty cache and a database that does not fail (both in \<open>fi_fresh\<close>) and a range that is large
  enough: once every task has had its turns, each A request has got an address
  that reads back as itself, the reverse lookup of the address gives the name of the request, and no
  request for another name has got the same address.\<close>

theorem fakeip_reverse:
  assumes j: "json_ok j" and f: "fi_fresh f"
    and room: "length (filter (\<lambda>r. fst r = QA) reqs) \<le> hosts f"
    and fair: "\<forall>i < length reqs. 6 \<le> count_list sched i"
    and run: "fi_run j sched (f, map start reqs) = (f', ts)"
    and i: "i < length reqs" and req: "reqs ! i = (QA, d)"
  shows "\<exists>a. ts ! i = FiDone QA d (show_ip (V4 a)) \<and> parse_all read_ipv4_addr (trim (show_ip (V4 a))) = Some a \<and>
           fst (reverse_lookup j (V4 a) f') = (if trim d = [] then None else Some (trim d)) \<and>
           (\<forall>k < length reqs. \<forall>e. ts ! k = FiDone QA e (show_ip (V4 a)) \<longrightarrow> e = d)"
proof -
  note inv0 = start_inv [OF f room, of j]
  have len: "length ts = length reqs" using fi_run_length [of j sched "(f, map start reqs)"] run by simp
  have inv: "fi_sys_inv j f (f', ts)" using fi_run_inv [OF inv0 j, of sched] run by simp
  then have h: "fi_healthy f'" and I: "fi_inv (v4_str f) (hosts f) (fi_view j f') (unat (fi_v4_cursor f')) ts" by (simp_all add: fi_sys_inv_def)
  have r0: "rank (ts ! k) = 0" if "k < length ts" for k
    using fi_run_rank [of k "(f, map start reqs)" j sched] that fair len run by (simp add: start_def)
  have unstored: "FiStored q e s \<notin> set ts" for q e s using r0 by (force simp: in_set_conv_nth)
  have ptr: "\<exists>c. s = v4_str f c \<and> fi_view j f' (ptr_key s) = Some e" if "k < length ts" "ts ! k = FiDone QA e s" for k e s
    using fi_inv_done [OF I that] unstored by (auto simp: known_def)
  have "task_req (ts ! i) = Some (QA, d)"
    using fi_run_req [OF inv0 j, of i QA d sched] i req run by (simp add: start_def)
  with r0 [of i] i len obtain s where s: "ts ! i = FiDone QA d s" using rank_done by metis
  with ptr [of i] i len obtain c where c: "s = v4_str f c" and v: "fi_view j f' (ptr_key s) = Some d" by auto
  define a where "a = fst (fi_v4_cidr f) + of_nat c"
  have sa: "s = show_ip (V4 a)" by (simp add: c a_def v4_str_def)
  show ?thesis
  proof (intro exI conjI)
    show "ts ! i = FiDone QA d (show_ip (V4 a))" using s sa by simp
    show "parse_all read_ipv4_addr (trim (show_ip (V4 a))) = Some a" by (simp add: trim_show_ipv4 parse_show_ipv4)
    show "fst (reverse_lookup j (V4 a) f') = (if trim d = [] then None else Some (trim d))" using fi_view_reverse [OF h] v sa by simp
    show "\<forall>k < length reqs. \<forall>e. ts ! k = FiDone QA e (show_ip (V4 a)) \<longrightarrow> e = d" using ptr v sa len by fastforce
  qed
qed

definition plain_json :: str_json where
  "plain_json = \<lparr>sj_enc = id, sj_dec = Some\<rparr>"

definition sample_fakeip :: fakeip where
  "sample_fakeip = projr (fakeip_new plain_json (\<lambda>_. None)
     (\<lambda>_. Some \<lparr>db_tables = fmempty, db_durable = fmempty, db_dirty = False, db_faults = []\<rparr>) True (str ''fake'') None None False (Some (str ''main'')))"

lemma plain_json_ok: "json_ok plain_json"
  by (simp add: json_ok_def plain_json_def)

lemma sample_fakeip_fields:
  "sample_fakeip = \<lparr>fi_tag = str ''fake'', fi_min_ttl = None, fi_v4_cidr = (0xC6120000, 16), fi_v6_cidr = (push_bit 112 0xFC00, 18),
     fi_db = \<lparr>db_tables = fmempty, db_durable = fmempty, db_dirty = False, db_faults = []\<rparr>,
     fi_v4_cursor = 0, fi_v6_cursor = 0, fi_reject_ipv6 = False\<rparr>"
  by (simp add: sample_fakeip_def fakeip_new_def load_cursor_def fi_get_def get_entry_def next_txn_def List.map_filter_def Let_def)

lemma sample_fresh: "fi_fresh sample_fakeip"
  by (simp add: sample_fakeip_fields fi_fresh_def fi_healthy_def)

theorem fakeip_reverse_witness:
  "\<exists>a f' ts. fi_run plain_json [0, 1, 0, 1, 2, 0, 1, 2, 2, 0, 1, 2, 1, 0, 1, 0, 2, 2]
       (sample_fakeip, map start [(QA, str ''a.com''), (QA, str ''b.com''), (QAAAA, str ''a.com'')]) = (f', ts) \<and>
     ts ! 1 = FiDone QA (str ''b.com'') (show_ip (V4 a)) \<and> fst (reverse_lookup plain_json (V4 a) f') = Some (str ''b.com'')"
proof -
  let ?sched = "[0, 1, 0, 1, 2, 0, 1, 2, 2, 0, 1, 2, 1, 0, 1, 0, 2, 2] :: nat list"
  let ?reqs = "[(QA, str ''a.com''), (QA, str ''b.com''), (QAAAA, str ''a.com'')]"
  obtain f' ts where run: "fi_run plain_json ?sched (sample_fakeip, map start ?reqs) = (f', ts)" by fastforce
  have room: "length (filter (\<lambda>r. fst r = QA) ?reqs) \<le> hosts sample_fakeip" by (simp add: hosts_def sample_fakeip_fields)
  have fair: "\<forall>i < length ?reqs. 6 \<le> count_list ?sched i" by (simp add: less_Suc_eq)
  have t: "trim (str ''b.com'') = str ''b.com''" by code_simp
  from fakeip_reverse [OF plain_json_ok sample_fresh room fair run, of 1 "str ''b.com''"] run t
  show ?thesis by fastforce
qed

subsection \<open>When the range is used up\<close>

text \<open>A call on a miss, with a healthy cache.\<close>

lemma resolve_internal_miss:
  assumes j: "json_ok j" and h: "fi_healthy f" and new: "fi_view j f (domain_key QA e) = None"
  obtains f' v where "resolve_internal j e QA f = (Inr (fake_ip_str f QA (fi_v4_cursor f)), f')" "fi_healthy f'"
    "fi_view j f' = (fi_view j f)(IPV4_CURSOR_CACHE_KEY \<mapsto> v, domain_key QA e \<mapsto> fake_ip_str f QA (fi_v4_cursor f),
       ptr_key (fake_ip_str f QA (fi_v4_cursor f)) \<mapsto> e)"
proof -
  let ?c = "fi_v4_cursor f" and ?s = "fake_ip_str f QA (fi_v4_cursor f)" and ?f1 = "f\<lparr>fi_v4_cursor := fi_v4_cursor f + 1\<rparr>"
  let ?v = "show_nat (unat (?c + 1))"
  from fi_get_view [OF h, of j "domain_key QA e"] new obtain r where r: "fi_get j (domain_key QA e) f = (r, f)"
    and miss: "\<And>v. r \<noteq> Some (Some v)" by auto
  have h1: "fi_healthy ?f1" and v1: "fi_view j ?f1 = fi_view j f" using h by (simp_all add: fi_healthy_def fi_view_def [abs_def] fi_table_def)
  obtain f2 where f2: "fi_set j IPV4_CURSOR_CACHE_KEY ?v ?f1 = (True, f2)" "fi_view j f2 = (fi_view j ?f1)(IPV4_CURSOR_CACHE_KEY \<mapsto> ?v)"
    "fi_healthy f2" "fi_v4_cidr f2 = fi_v4_cidr ?f1" "fi_v4_cursor f2 = fi_v4_cursor ?f1" by (rule fi_set_view [OF h1 j])
  obtain f3 where f3: "fi_set j (domain_key QA e) ?s f2 = (True, f3)" "fi_view j f3 = (fi_view j f2)(domain_key QA e \<mapsto> ?s)"
    "fi_healthy f3" "fi_v4_cidr f3 = fi_v4_cidr f2" "fi_v4_cursor f3 = fi_v4_cursor f2" by (rule fi_set_view [OF f2(3) j])
  obtain f4 where f4: "fi_set j (ptr_key ?s) e f3 = (True, f4)" "fi_view j f4 = (fi_view j f3)(ptr_key ?s \<mapsto> e)"
    "fi_healthy f4" "fi_v4_cidr f4 = fi_v4_cidr f3" "fi_v4_cursor f4 = fi_v4_cursor f3" by (rule fi_set_view [OF f3(3) j])
  have s: "show_ip (V4 (get_fake_ipv4 f2 ?c)) = ?s" using f2(4) by (simp add: fake_ip_str_def get_fake_ipv4_def)
  have "next_ipv4_cursor j f = (?c, f2)" using f2(1) by (simp add: next_ipv4_cursor_def save_cursor_def Let_def)
  then have "resolve_internal j e QA f = (Inr ?s, f4)"
    unfolding resolve_internal_def r using miss s f3(1) f4(1) by (auto split: option.splits simp del: show_ip.simps)
  then show ?thesis by (rule that [OF _ f4(3)]) (simp add: f4(2) f3(2) f2(2) v1)
qed

lemma resolve_v4_of_internal:
  "resolve_internal j d QA f = (Inr (show_ip (V4 a)), f') \<Longrightarrow> resolve_v4 j d f = (Inr a, f')"
  by (simp add: resolve_v4_def trim_show_ipv4 parse_show_ipv4)

lemma resolve_internal_hit:
  "fi_healthy f \<Longrightarrow> fi_view j f (domain_key QA d) = Some s \<Longrightarrow> resolve_internal j d QA f = (Inr s, f)"
  by (simp add: resolve_internal_def fi_get_hit)

text \<open>Past the end of the range the cursor starts again, and the old entry is not withdrawn: a new name
  gets an address that the server still hands out for the old name, and the reverse lookup then gives the
  new name, so that a connection meant for the old name goes to the new one.\<close>

theorem fakeip_cursor_wraps:
  assumes j: "json_ok j" and h: "fi_healthy f" and de: "d \<noteq> e"
    and old: "fi_view j f (domain_key QA d) = Some (show_ip (V4 (get_fake_ipv4 f c)))"
    and new: "fi_view j f (domain_key QA e) = None"
    and cur: "unat (fi_v4_cursor f) = unat c + hosts f"
  shows "\<exists>f'. resolve_v4 j e f = (Inr (get_fake_ipv4 f c), f') \<and> fst (resolve_v4 j d f') = Inr (get_fake_ipv4 f c) \<and>
           fst (reverse_lookup j (V4 (get_fake_ipv4 f c)) f') = (if trim e = [] then None else Some (trim e))"
proof -
  let ?a = "get_fake_ipv4 f c"
  have s: "fake_ip_str f QA (fi_v4_cursor f) = show_ip (V4 ?a)"
    using cur by (simp add: fake_ip_str_def get_fake_ipv4_def hosts_def split_beta Let_def)
  obtain f' v where f': "resolve_internal j e QA f = (Inr (show_ip (V4 ?a)), f')" "fi_healthy f'"
    "fi_view j f' = (fi_view j f)(IPV4_CURSOR_CACHE_KEY \<mapsto> v, domain_key QA e \<mapsto> show_ip (V4 ?a), ptr_key (show_ip (V4 ?a)) \<mapsto> e)"
    by (rule resolve_internal_miss [OF j h new, unfolded s])
  have k: "ptr_key (show_ip (V4 ?a)) \<noteq> domain_key QA d" using ptr_key_apart [of "show_ip (V4 ?a)" QA d] show_ipv4_chars [of "0x41" ?a] by auto
  have d: "fi_view j f' (domain_key QA d) = Some (show_ip (V4 ?a))"
    using k old de cursor_key_apart(2) [of IPV4_CURSOR_CACHE_KEY QA d] unfolding f'(3) by (simp add: domain_key_inject del: show_ip.simps)
  have p: "fi_view j f' (ptr_key (show_ip (V4 ?a))) = Some e" unfolding f'(3) by simp
  show ?thesis
    using resolve_v4_of_internal [OF f'(1)] resolve_v4_of_internal [OF resolve_internal_hit [OF f'(2) d]] fi_view_reverse [OF f'(2) p] by auto
qed

theorem fakeip_cursor_wraps_witness:
  "let f = sample_fakeip\<lparr>fi_v4_cidr := (0xC6120000, 32), fi_v4_cursor := 1, fi_db := \<lparr>db_tables =
             fmupd (str ''fakeip:fake'', domain_key QA (str ''a.com'')) (show_ip (V4 0xC6120000)) fmempty,
             db_durable = fmempty, db_dirty = True, db_faults = []\<rparr>\<rparr>
   in \<exists>f'. resolve_v4 plain_json (str ''b.com'') f = (Inr 0xC6120000, f') \<and>
        fst (resolve_v4 plain_json (str ''a.com'') f') = Inr 0xC6120000 \<and>
        fst (reverse_lookup plain_json (V4 0xC6120000) f') = Some (str ''b.com'')"
proof -
  let ?f = "sample_fakeip\<lparr>fi_v4_cidr := (0xC6120000, 32), fi_v4_cursor := 1, fi_db := \<lparr>db_tables =
             fmupd (str ''fakeip:fake'', domain_key QA (str ''a.com'')) (show_ip (V4 0xC6120000)) fmempty,
             db_durable = fmempty, db_dirty = True, db_faults = []\<rparr>\<rparr>"
  have t: "trim (str ''b.com'') = str ''b.com''" by code_simp
  have a: "get_fake_ipv4 ?f 0 = 0xC6120000" by (simp add: get_fake_ipv4_def)
  have tab: "fi_table ?f = str ''fakeip:fake''" by (simp add: fi_table_def sample_fakeip_fields)
  have h: "fi_healthy ?f" by (simp add: fi_healthy_def)
  have old: "fi_view plain_json ?f (domain_key QA (str ''a.com'')) = Some (show_ip (V4 (get_fake_ipv4 ?f 0)))"
    unfolding fi_view_def tab a by (simp add: plain_json_def)
  have new: "fi_view plain_json ?f (domain_key QA (str ''b.com'')) = None"
    unfolding fi_view_def tab by (simp add: domain_key_inject)
  have cur: "unat (fi_v4_cursor ?f) = unat (0 :: u64) + hosts ?f" by (simp add: hosts_def)
  have ne: "str ''a.com'' \<noteq> str ''b.com''" by simp
  show ?thesis using fakeip_cursor_wraps [OF plain_json_ok h ne old new cur] unfolding a t by simp
qed

subsection \<open>Addresses inside the range\<close>

lemma same_prefix:
  fixes base :: "'a :: len word"
  assumes b: "take_bit k base = 0" and m: "m < 2 ^ k" and k: "k \<le> LENGTH('a)"
  shows "drop_bit k (base + of_nat m) = drop_bit k base"
proof -
  from b have "take_bit k (unat base) = 0" by (metis unsigned_0 unsigned_take_bit_eq)
  then obtain q where q: "unat base = 2 ^ k * q" by (auto simp: take_bit_eq_mod elim: dvdE)
  have L: "(2 :: nat) ^ LENGTH('a) = 2 ^ k * 2 ^ (LENGTH('a) - k)" using k by (simp flip: power_add)
  have lt0: "unat base < 2 ^ LENGTH('a)" by (rule unsigned_less)
  have "q < 2 ^ (LENGTH('a) - k)" using lt0 unfolding q L by simp
  then have "2 ^ k * Suc q \<le> (2 :: nat) ^ LENGTH('a)" unfolding L by (intro mult_le_mono2) simp
  with m have lt: "unat base + m < 2 ^ LENGTH('a)" using q by simp
  then have "unat (base + of_nat m) = unat base + m" by (simp add: unat_word_ariths unat_of_nat mod_add_right_eq)
  then have "unat (drop_bit k (base + of_nat m)) = unat (drop_bit k base)"
    unfolding unat_drop_bit_eq using m by (simp add: drop_bit_eq_div [of _ "_ :: nat"] q)
  then show ?thesis by (simp add: word_unat_eq_iff)
qed

text \<open>With a range given by its network address, every address handed out is recognised as fake.\<close>

theorem fake_addresses_in_range:
  assumes "take_bit (32 - snd (fi_v4_cidr f)) (fst (fi_v4_cidr f)) = 0" and "take_bit (128 - snd (fi_v6_cidr f)) (fst (fi_v6_cidr f)) = 0"
  shows "is_fakeip f (V4 (get_fake_ipv4 f c)) \<and> is_fakeip f (V6 (get_fake_ipv6 f c))"
proof
  show "is_fakeip f (V4 (get_fake_ipv4 f c))"
    using assms(1) by (simp add: get_fake_ipv4_def Let_def split_beta same_prefix)
  have "unat c < 2 ^ (128 - p)" if "p \<le> 64" for p
  proof -
    have "(2 :: nat) ^ 64 \<le> 2 ^ (128 - p)" using that by (intro power_increasing) simp_all
    moreover have "unat c < 2 ^ 64" using unsigned_less [of c] by simp
    ultimately show ?thesis by (rule order_less_le_trans [rotated])
  qed
  then have "drop_bit (128 - p) (b + of_nat (unat c)) = drop_bit (128 - p) b" if "take_bit (128 - p) b = 0" "\<not> 64 < p" for b :: "128 word" and p
    using same_prefix [of "128 - p" b "unat c"] that by simp
  with assms(2) show "is_fakeip f (V6 (get_fake_ipv6 f c))"
    by (simp add: get_fake_ipv6_def Let_def split_beta same_prefix)
qed

theorem fake_addresses_in_range_witness:
  "is_fakeip sample_fakeip (V4 (get_fake_ipv4 sample_fakeip 70000)) \<and> is_fakeip sample_fakeip (V6 (get_fake_ipv6 sample_fakeip 70000))"
  by (rule fake_addresses_in_range) (simp_all add: sample_fakeip_fields take_bit_push_bit)

text \<open>A range written with host bits set starts at that address, and runs past its own end.\<close>

lemma fake_address_outside_range:
  "\<not> is_fakeip (sample_fakeip\<lparr>fi_v4_cidr := (0xC61200C8, 24)\<rparr>) (V4 (get_fake_ipv4 (sample_fakeip\<lparr>fi_v4_cidr := (0xC61200C8, 24)\<rparr>) 100))"
  by (simp add: get_fake_ipv4_def)

end
