(* ===== verification/Shadow_Udp_Tasks.thy ===== *)
theory Shadow_Udp_Tasks
  imports Shadow_Udp_Laws
begin

text \<open>
  The tasks of a ShadowQUIC connection that run at the same time on its shared maps
  (\<open>src/src/proxy/shadowquic_udp.rs\<close>): one listener per session on its control stream, the workers of
  the unidirectional streams, the loop that reads datagrams, and the tasks of the buffers of early
  datagrams. A step is one operation on a map, a channel or a closer, and the steps of
  different tasks come in any order. The \<open>entry\<close> of a context id that \<open>bind_context_id\<close> holds keeps
  other tasks out of the shared map at this id until it is filled.
\<close>

subsection \<open>The tasks\<close>

text \<open>A listener reads an announcement; holds the vacant entry; has inserted the address and still holds
  the entry; has left its loop; cleans up, with the ids left to remove; has removed the address of an id
  and not yet the entry; closes the session.\<close>

datatype listener =
    LReading
  | LHolding target_addr u16
  | LInserted target_addr u16
  | LLeft
  | LCleaning "u16 list"
  | LUnmapping u16 "u16 list"
  | LClosing
  | LEnded

text \<open>A worker has found the receiver of its stream; reads; hands over a packet; closes the session
  because the queue is closed; has left its loop; has removed the address of its id and not yet the entry;
  looks whether an id is left; closes the session because none is.\<close>

datatype worker =
    WFound nat u16
  | WReading nat u16 target_addr
  | WSending nat u16 target_addr bytes
  | WFailing nat u16
  | WLeft nat u16
  | WUnmapping nat u16
  | WChecking nat
  | WClosing nat
  | WEnded

text \<open>The loop over the datagrams: reads; has a receiver; has the address too; closes the session; has no
  receiver; is to count the buffers; is to get or make the buffer; has it; spawns its task; removes it.\<close>

datatype datagram_loop =
    DReading
  | DFeeding nat u16 bytes
  | DSending nat target_addr bytes
  | DClosing nat
  | DUnknown u16 bytes
  | DCounting u16 bytes
  | DEntry u16 bytes
  | DPushing u16 bytes bool
  | DSpawning u16
  | DRemoving u16

text \<open>\<open>us_announced\<close> and \<open>us_arrived\<close> record what has come in: which session announced which address
  under which id, and which payload came under which id.\<close>

record udp_sys =
  us_conn :: udp_conn
  us_listeners :: "listener list"
  us_workers :: "worker list"
  us_loop :: datagram_loop
  us_announced :: "(nat \<times> u16 \<times> target_addr) list"
  us_arrived :: "(u16 \<times> bytes) list"

definition sys_new :: udp_sys where
  "sys_new = \<lparr>us_conn = conn_new, us_listeners = [], us_workers = [], us_loop = DReading, us_announced = [], us_arrived = []\<rparr>"

fun holds :: "u16 \<Rightarrow> listener \<Rightarrow> bool" where
  "holds cid (LHolding t i) = (i = cid)"
| "holds cid (LInserted t i) = (i = cid)"
| "holds cid _ = False"

definition locked :: "u16 \<Rightarrow> udp_sys \<Rightarrow> bool" where
  "locked cid s = list_ex (holds cid) (us_listeners s)"

definition put_listener :: "nat \<Rightarrow> listener \<Rightarrow> udp_sys \<Rightarrow> udp_sys" where
  "put_listener r l s = s\<lparr>us_listeners := (us_listeners s)[r := l]\<rparr>"

definition put_worker :: "nat \<Rightarrow> worker \<Rightarrow> udp_sys \<Rightarrow> udp_sys" where
  "put_worker i w s = s\<lparr>us_workers := (us_workers s)[i := w]\<rparr>"

definition on_conn :: "(udp_conn \<Rightarrow> udp_conn) \<Rightarrow> udp_sys \<Rightarrow> udp_sys" where
  "on_conn f s = s\<lparr>us_conn := f (us_conn s)\<rparr>"

abbreviation bound_of :: "udp_sys \<Rightarrow> nat \<Rightarrow> (u16, target_addr) fmap" where
  "bound_of s r \<equiv> rc_bound (uc_receivers (us_conn s) ! r)"

abbreviation recv_map :: "udp_sys \<Rightarrow> (u16, nat) fmap" where
  "recv_map s \<equiv> uc_recv_map (us_conn s)"

subsection \<open>The steps\<close>

definition new_session :: "udp_sys \<Rightarrow> udp_sys" where
  "new_session s = (on_conn add_receiver s)\<lparr>us_listeners := us_listeners s @ [LReading]\<rparr>"

text \<open>\<open>run_bistream_recv_listener\<close> with \<open>bind_context_id\<close> and \<open>clean\<close>. The ids to clean are read off
  in one step: at that point other tasks only remove ids of this receiver, and to remove an id twice
  is to remove it once.\<close>

definition listener_read :: "nat \<Rightarrow> target_addr \<Rightarrow> u16 \<Rightarrow> udp_sys \<Rightarrow> udp_sys" where
  "listener_read r t cid s =
     (if r < length (us_listeners s) \<and> us_listeners s ! r = LReading \<and> \<not> locked cid s then
        (case fmlookup (recv_map s) cid of
           None \<Rightarrow> put_listener r (LHolding t cid) s
         | Some _ \<Rightarrow> put_listener r LLeft s)
      else s)"

definition listener_stop :: "nat \<Rightarrow> udp_sys \<Rightarrow> udp_sys" where
  "listener_stop r s =
     (if r < length (us_listeners s) \<and> us_listeners s ! r = LReading then put_listener r LLeft s else s)"

definition listener_step :: "nat \<Rightarrow> udp_sys \<Rightarrow> udp_sys" where
  "listener_step r s =
     (if length (us_listeners s) \<le> r then s
      else case us_listeners s ! r of
        LHolding t cid \<Rightarrow>
          put_listener r (LInserted t cid)
            (on_conn (upd_receiver r (\<lambda>x. x\<lparr>rc_bound := fmupd cid t (rc_bound x)\<rparr>)) s)
              \<lparr>us_announced := us_announced s @ [(r, cid, t)]\<rparr>
      | LInserted t cid \<Rightarrow>
          put_listener r LReading (on_conn (\<lambda>c. c\<lparr>uc_recv_map := fmupd cid r (uc_recv_map c)\<rparr>) s)
      | LLeft \<Rightarrow> put_listener r (LCleaning (bound_ids r (us_conn s))) s
      | LCleaning [] \<Rightarrow> put_listener r LClosing s
      | LCleaning (cid # cids) \<Rightarrow> put_listener r (LUnmapping cid cids) (on_conn (bound_remove r cid) s)
      | LUnmapping cid cids \<Rightarrow>
          if locked cid s then s else put_listener r (LCleaning cids) (on_conn (unmap r cid) s)
      | LClosing \<Rightarrow> put_listener r LEnded (on_conn (close_receiver r) s)
      | _ \<Rightarrow> s)"

text \<open>\<open>start_unistream_listener\<close> and \<open>run_unistream_worker\<close>: \<open>get_receiver\<close> finds the receiver of a new stream.\<close>

definition uni_accept :: "u16 \<Rightarrow> udp_sys \<Rightarrow> udp_sys" where
  "uni_accept cid s =
     (case fmlookup (recv_map s) cid of
        Some r \<Rightarrow> if locked cid s then s else s\<lparr>us_workers := us_workers s @ [WFound r cid]\<rparr>
      | None \<Rightarrow> s)"

definition worker_read :: "nat \<Rightarrow> bytes \<Rightarrow> udp_sys \<Rightarrow> udp_sys" where
  "worker_read i p s =
     (if length (us_workers s) \<le> i then s
      else case us_workers s ! i of
        WReading r cid t \<Rightarrow> put_worker i (WSending r cid t p) s\<lparr>us_arrived := us_arrived s @ [(cid, p)]\<rparr>
      | _ \<Rightarrow> s)"

definition worker_stop :: "nat \<Rightarrow> udp_sys \<Rightarrow> udp_sys" where
  "worker_stop i s =
     (if length (us_workers s) \<le> i then s
      else case us_workers s ! i of
        WReading r cid t \<Rightarrow> put_worker i (WLeft r cid) s
      | WSending r cid t p \<Rightarrow> put_worker i (WLeft r cid) s
      | _ \<Rightarrow> s)"

definition worker_step :: "nat \<Rightarrow> udp_sys \<Rightarrow> udp_sys" where
  "worker_step i s =
     (if length (us_workers s) \<le> i then s
      else case us_workers s ! i of
        WFound r cid \<Rightarrow>
          (case worker_start r cid (us_conn s) of
             Inl e \<Rightarrow> put_worker i WEnded s
           | Inr t \<Rightarrow> put_worker i (WReading r cid t) s)
      | WSending r cid t p \<Rightarrow>
          (case try_send (t, p) (rc_queue (uc_receivers (us_conn s) ! r)) of
             (SendOk, q) \<Rightarrow> put_worker i (WReading r cid t) (on_conn (upd_receiver r (\<lambda>x. x\<lparr>rc_queue := q\<rparr>)) s)
           | (SendFull, q) \<Rightarrow> s
           | (SendClosed, q) \<Rightarrow> put_worker i (WFailing r cid) s)
      | WFailing r cid \<Rightarrow> put_worker i (WLeft r cid) (on_conn (close_receiver r) s)
      | WLeft r cid \<Rightarrow> put_worker i (WUnmapping r cid) (on_conn (bound_remove r cid) s)
      | WUnmapping r cid \<Rightarrow>
          if locked cid s then s else put_worker i (WChecking r) (on_conn (unmap r cid) s)
      | WChecking r \<Rightarrow> put_worker i (if bound_of s r = fmempty then WClosing r else WEnded) s
      | WClosing r \<Rightarrow> put_worker i WEnded (on_conn (close_receiver r) s)
      | _ \<Rightarrow> s)"

text \<open>\<open>start_datagram_loop\<close> and \<open>handle_datagram\<close>. A buffer that its own task has removed in the meantime
  is the loop's alone, and what is pushed into it is lost with it.\<close>

definition datagram_read :: "bytes \<Rightarrow> udp_sys \<Rightarrow> udp_sys" where
  "datagram_read d s =
     (if us_loop s = DReading \<and> 2 \<le> length d \<and> \<not> locked (from_be (take 2 d)) s then
        let cid = from_be (take 2 d); payload = drop 2 d;
            s' = s\<lparr>us_arrived := us_arrived s @ [(cid, payload)]\<rparr>
        in case fmlookup (recv_map s) cid of
             Some r \<Rightarrow> s'\<lparr>us_loop := DFeeding r cid payload\<rparr>
           | None \<Rightarrow> s'\<lparr>us_loop := DUnknown cid payload\<rparr>
      else s)"

definition datagram_step :: "udp_sys \<Rightarrow> udp_sys" where
  "datagram_step s =
     (case us_loop s of
        DReading \<Rightarrow> s
      | DFeeding r cid payload \<Rightarrow>
          (case fmlookup (bound_of s r) cid of
             None \<Rightarrow> s\<lparr>us_loop := DReading\<rparr>
           | Some target \<Rightarrow> s\<lparr>us_loop := DSending r target payload\<rparr>)
      | DSending r target payload \<Rightarrow>
          (case try_send (target, payload) (rc_queue (uc_receivers (us_conn s) ! r)) of
             (SendOk, q) \<Rightarrow> (on_conn (upd_receiver r (\<lambda>x. x\<lparr>rc_queue := q\<rparr>)) s)\<lparr>us_loop := DReading\<rparr>
           | (SendFull, q) \<Rightarrow> s\<lparr>us_loop := DReading\<rparr>
           | (SendClosed, q) \<Rightarrow> s\<lparr>us_loop := DClosing r\<rparr>)
      | DClosing r \<Rightarrow> (on_conn (close_receiver r) s)\<lparr>us_loop := DReading\<rparr>
      | DUnknown cid payload \<Rightarrow>
          s\<lparr>us_loop := if cid |\<in>| fmdom (uc_waiting (us_conn s)) then DEntry cid payload else DCounting cid payload\<rparr>
      | DCounting cid payload \<Rightarrow>
          s\<lparr>us_loop := if hm_len (uc_waiting (us_conn s)) \<ge> MAX_WAITING_DATAGRAM_CONTEXTS then DReading else DEntry cid payload\<rparr>
      | DEntry cid payload \<Rightarrow>
          if cid |\<in>| fmdom (uc_waiting (us_conn s)) then s\<lparr>us_loop := DPushing cid payload False\<rparr>
          else (on_conn (put_waiting cid buffer_new) s)\<lparr>us_loop := DPushing cid payload True\<rparr>
      | DPushing cid payload is_new \<Rightarrow>
          (case fmlookup (uc_waiting (us_conn s)) cid of
             None \<Rightarrow> s\<lparr>us_loop := DReading\<rparr>
           | Some w \<Rightarrow>
               (case try_send payload (wb_queue w) of
                  (SendOk, q) \<Rightarrow> (on_conn (put_waiting cid (w\<lparr>wb_queue := q\<rparr>)) s)\<lparr>us_loop := if is_new then DSpawning cid else DReading\<rparr>
                | (SendFull, q) \<Rightarrow> s\<lparr>us_loop := DReading\<rparr>
                | (SendClosed, q) \<Rightarrow> s\<lparr>us_loop := DRemoving cid\<rparr>))
      | DSpawning cid \<Rightarrow>
          (case fmlookup (uc_waiting (us_conn s)) cid of
             None \<Rightarrow> s\<lparr>us_loop := DReading\<rparr>
           | Some w \<Rightarrow> (on_conn (set_task cid w Waiting) s)\<lparr>us_loop := DReading\<rparr>)
      | DRemoving cid \<Rightarrow> (on_conn (drop_waiting cid) s)\<lparr>us_loop := DReading\<rparr>)"

text \<open>What can happen next on a connection.\<close>

datatype udp_event =
    NewSession
  | ListenerReads nat target_addr u16
  | ListenerStops nat
  | ListenerStep nat
  | UniStream u16
  | WorkerReads nat bytes
  | WorkerStops nat
  | WorkerStep nat
  | DatagramArrives bytes
  | LoopStep
  | WaiterAcquires u16
  | WaiterTimesOut u16
  | WaiterTakes u16
  | WaiterSeesClose u16
  | WaiterStep u16
  | SessionCloses nat
  | SessionReceives bool socket_addr nat

fun udp_step :: "udp_event \<Rightarrow> udp_sys \<Rightarrow> udp_sys" where
  "udp_step NewSession s = new_session s"
| "udp_step (ListenerReads r t cid) s = listener_read r t cid s"
| "udp_step (ListenerStops r) s = listener_stop r s"
| "udp_step (ListenerStep r) s = listener_step r s"
| "udp_step (UniStream cid) s = uni_accept cid s"
| "udp_step (WorkerReads i p) s = worker_read i p s"
| "udp_step (WorkerStops i) s = worker_stop i s"
| "udp_step (WorkerStep i) s = worker_step i s"
| "udp_step (DatagramArrives d) s = datagram_read d s"
| "udp_step LoopStep s = datagram_step s"
| "udp_step (WaiterAcquires cid) s = (if locked cid s then s else on_conn (waiter_acquire cid) s)"
| "udp_step (WaiterTimesOut cid) s = on_conn (waiter_timeout cid) s"
| "udp_step (WaiterTakes cid) s = on_conn (waiter_take cid) s"
| "udp_step (WaiterSeesClose cid) s = on_conn (waiter_closed cid) s"
| "udp_step (WaiterStep cid) s = on_conn (waiter_step cid) s"
| "udp_step (SessionCloses r) s = on_conn (close_receiver r) s"
| "udp_step (SessionReceives is_client remote r) s =
     (if length (uc_receivers (us_conn s)) \<le> r then s
      else case recv_many is_client remote r (us_conn s) of None \<Rightarrow> s | Some (ps, c) \<Rightarrow> s\<lparr>us_conn := c\<rparr>)"

definition udp_exec :: "udp_event list \<Rightarrow> udp_sys \<Rightarrow> udp_sys" where
  "udp_exec es s = fold udp_step es s"

subsection \<open>Indices and bounds\<close>

lemma sys_updates [simp]:
  "us_conn (put_listener r l s) = us_conn s" "us_workers (put_listener r l s) = us_workers s"
  "us_loop (put_listener r l s) = us_loop s" "us_announced (put_listener r l s) = us_announced s"
  "us_arrived (put_listener r l s) = us_arrived s" "us_listeners (put_listener r l s) = (us_listeners s)[r := l]"
  "us_conn (put_worker i w s) = us_conn s" "us_listeners (put_worker i w s) = us_listeners s"
  "us_loop (put_worker i w s) = us_loop s" "us_announced (put_worker i w s) = us_announced s"
  "us_arrived (put_worker i w s) = us_arrived s" "us_workers (put_worker i w s) = (us_workers s)[i := w]"
  "us_conn (on_conn f s) = f (us_conn s)" "us_listeners (on_conn f s) = us_listeners s" "us_workers (on_conn f s) = us_workers s"
  "us_loop (on_conn f s) = us_loop s" "us_announced (on_conn f s) = us_announced s" "us_arrived (on_conn f s) = us_arrived s"
  by (simp_all add: put_listener_def put_worker_def on_conn_def)

fun worker_receiver :: "worker \<Rightarrow> nat option" where
  "worker_receiver (WFound r cid) = Some r"
| "worker_receiver (WReading r cid t) = Some r"
| "worker_receiver (WSending r cid t p) = Some r"
| "worker_receiver (WFailing r cid) = Some r"
| "worker_receiver (WLeft r cid) = Some r"
| "worker_receiver (WUnmapping r cid) = Some r"
| "worker_receiver (WChecking r) = Some r"
| "worker_receiver (WClosing r) = Some r"
| "worker_receiver WEnded = None"

fun loop_receiver :: "datagram_loop \<Rightarrow> nat option" where
  "loop_receiver (DFeeding r cid p) = Some r"
| "loop_receiver (DSending r t p) = Some r"
| "loop_receiver (DClosing r) = Some r"
| "loop_receiver _ = None"

definition room_for :: "u16 \<Rightarrow> udp_conn \<Rightarrow> bool" where
  "room_for cid c \<longleftrightarrow> cid |\<in>| fmdom (uc_waiting c) \<or> hm_len (uc_waiting c) < MAX_WAITING_DATAGRAM_CONTEXTS"

definition sys_ok :: "udp_sys \<Rightarrow> bool" where
  "sys_ok s \<longleftrightarrow> conn_ok (us_conn s) \<and> length (us_listeners s) = length (uc_receivers (us_conn s)) \<and>
     (\<forall>w \<in> set (us_workers s). \<forall>r. worker_receiver w = Some r \<longrightarrow> r < length (uc_receivers (us_conn s))) \<and>
     (\<forall>r. loop_receiver (us_loop s) = Some r \<longrightarrow> r < length (uc_receivers (us_conn s))) \<and>
     (\<forall>cid p. us_loop s = DEntry cid p \<longrightarrow> room_for cid (us_conn s))"

lemma sys_okI:
  assumes "conn_ok (us_conn s)" and "length (us_listeners s) = length (uc_receivers (us_conn s))"
    and "\<And>w r. w \<in> set (us_workers s) \<Longrightarrow> worker_receiver w = Some r \<Longrightarrow> r < length (uc_receivers (us_conn s))"
    and "\<And>r. loop_receiver (us_loop s) = Some r \<Longrightarrow> r < length (uc_receivers (us_conn s))"
    and "\<And>cid p. us_loop s = DEntry cid p \<Longrightarrow> room_for cid (us_conn s)"
  shows "sys_ok s"
  using assms by (auto simp: sys_ok_def)

lemma sys_okD:
  assumes "sys_ok s"
  shows "conn_ok (us_conn s)" and "length (us_listeners s) = length (uc_receivers (us_conn s))"
    and "w \<in> set (us_workers s) \<Longrightarrow> worker_receiver w = Some r \<Longrightarrow> r < length (uc_receivers (us_conn s))"
    and "loop_receiver (us_loop s) = Some r \<Longrightarrow> r < length (uc_receivers (us_conn s))"
    and "us_loop s = DEntry cid p \<Longrightarrow> room_for cid (us_conn s)"
  using assms by (auto simp: sys_ok_def)

text \<open>An operation on the connection that adds no buffer.\<close>

lemma room_for_less:
  assumes "room_for cid c" and "fmdom (uc_waiting c') |\<subseteq>| fmdom (uc_waiting c)" and "conn_ok c"
  shows "room_for cid c'"
proof (cases "cid |\<in>| fmdom (uc_waiting c')")
  case False
  have le: "hm_len (uc_waiting c') \<le> hm_len (uc_waiting c)"
    using assms(2) unfolding hm_len_def by (rule fcard_mono)
  show ?thesis
  proof (cases "cid |\<in>| fmdom (uc_waiting c)")
    case True
    with False assms(2) have "fmdom (uc_waiting c') |\<subset>| fmdom (uc_waiting c)" by auto
    then have "hm_len (uc_waiting c') < hm_len (uc_waiting c)" unfolding hm_len_def by (rule pfsubset_fcard_mono)
    with assms(3) show ?thesis by (simp add: room_for_def conn_ok_def waiting_ok_def)
  qed (use assms(1) le in \<open>simp add: room_for_def\<close>)
qed (simp add: room_for_def)

lemma sys_ok_conn:
  assumes "sys_ok s" and "conn_ok (f (us_conn s))" and "length (uc_receivers (f (us_conn s))) = length (uc_receivers (us_conn s))"
    and "fmdom (uc_waiting (f (us_conn s))) |\<subseteq>| fmdom (uc_waiting (us_conn s))"
  shows "sys_ok (on_conn f s)"
  by (rule sys_okI) (use assms sys_okD [OF assms(1)] room_for_less in auto)

lemma sys_ok_listener: "sys_ok s \<Longrightarrow> sys_ok (put_listener r l s)"
  by (rule sys_okI) (auto dest: sys_okD)

lemma sys_ok_worker:
  assumes "sys_ok s" and "\<And>r. worker_receiver w = Some r \<Longrightarrow> r < length (uc_receivers (us_conn s))"
  shows "sys_ok (put_worker i w s)"
  by (rule sys_okI) (use assms sys_okD [OF assms(1)] set_update_subset_insert [of "us_workers s" i w] in auto)

lemma sys_ok_loop:
  assumes "sys_ok s" and "\<And>r. loop_receiver l = Some r \<Longrightarrow> r < length (uc_receivers (us_conn s))"
    and "\<And>cid p. l = DEntry cid p \<Longrightarrow> room_for cid (us_conn s)"
  shows "sys_ok (s\<lparr>us_loop := l\<rparr>)"
  by (rule sys_okI) (use assms sys_okD [OF assms(1)] in \<open>auto simp: room_for_def\<close>)

lemma sys_ok_logs [simp]: "sys_ok (s\<lparr>us_announced := A\<rparr>) = sys_ok s" "sys_ok (s\<lparr>us_arrived := B\<rparr>) = sys_ok s"
  by (simp_all add: sys_ok_def)

lemma upd_receiver_ok:
  "sys_ok s \<Longrightarrow> r < length (uc_receivers (us_conn s)) \<Longrightarrow>
     sys_ok (on_conn (upd_receiver r (\<lambda>x. x\<lparr>rc_queue := snd (try_send y (rc_queue (uc_receivers (us_conn s) ! r)))\<rparr>)) s)"
  by (rule sys_ok_conn) (auto intro: conn_ok_send dest: sys_okD)

lemma close_receiver_ok: "sys_ok s \<Longrightarrow> sys_ok (on_conn (close_receiver r) s)"
  by (rule sys_ok_conn) (auto intro: conn_ok_close dest: sys_okD)

lemma bound_remove_ok: "sys_ok s \<Longrightarrow> sys_ok (on_conn (bound_remove r cid) s)"
  by (rule sys_ok_conn) (auto intro: conn_ok_bound_remove dest: sys_okD)

lemma unmap_ok: "sys_ok s \<Longrightarrow> sys_ok (on_conn (unmap r cid) s)"
  by (rule sys_ok_conn) (auto intro: conn_ok_unmap dest: sys_okD)

lemma new_session_ok: "sys_ok s \<Longrightarrow> sys_ok (new_session s)"
  by (rule sys_okI)
    (auto simp: new_session_def add_receiver_def room_for_def less_Suc_eq dest: sys_okD conn_ok_add_receiver [unfolded add_receiver_def])

lemma listener_read_ok: "sys_ok s \<Longrightarrow> sys_ok (listener_read r t cid s)"
  by (auto simp: listener_read_def sys_ok_listener split: option.split)

lemma listener_step_ok:
  assumes "sys_ok s"
  shows "sys_ok (listener_step r s)"
proof (cases "length (us_listeners s) \<le> r")
  case False
  have ins: "sys_ok (on_conn (upd_receiver r (\<lambda>x. x\<lparr>rc_bound := fmupd cid t (rc_bound x)\<rparr>)) s)" for cid t
    by (rule sys_ok_conn [OF assms]) (auto intro!: conn_ok_upd simp: sys_okD(1) [OF assms])
  have map: "sys_ok (on_conn (\<lambda>c. c\<lparr>uc_recv_map := fmupd cid r (uc_recv_map c)\<rparr>) s)" for cid
    by (rule sys_ok_conn [OF assms]) (use sys_okD(1,2) [OF assms] False in \<open>auto simp: conn_ok_defs\<close>)
  show ?thesis using False
    by (auto simp: listener_step_def sys_ok_listener close_receiver_ok bound_remove_ok unmap_ok ins map assms
        split: listener.split list.split)
qed (simp add: listener_step_def assms)

lemma uni_accept_ok:
  assumes "sys_ok s"
  shows "sys_ok (uni_accept cid s)"
proof (cases "fmlookup (recv_map s) cid")
  case (Some r)
  have "sys_ok (s\<lparr>us_workers := us_workers s @ [WFound r cid]\<rparr>)"
    by (rule sys_okI) (use sys_okD [OF assms] mapped_receiver [OF _ Some] in auto)
  with Some assms show ?thesis by (simp add: uni_accept_def)
qed (simp add: uni_accept_def assms)

lemma worker_ok:
  assumes "sys_ok s"
  shows "sys_ok (worker_read i p s)" and "sys_ok (worker_stop i s)"
proof -
  have r: "r < length (uc_receivers (us_conn s))" if "i < length (us_workers s)" "worker_receiver (us_workers s ! i) = Some r" for r
    using sys_okD(3) [OF assms _ that(2)] that(1) by simp
  show "sys_ok (worker_read i p s)" "sys_ok (worker_stop i s)"
    using r assms by (auto simp: worker_read_def worker_stop_def intro!: sys_ok_worker split: worker.split)
qed

lemma worker_step_ok:
  assumes "sys_ok s"
  shows "sys_ok (worker_step i s)"
proof (cases "length (us_workers s) \<le> i")
  case False
  have r: "worker_receiver (us_workers s ! i) = Some r \<Longrightarrow> r < length (uc_receivers (us_conn s))" for r
    using sys_okD(3) [OF assms, of "us_workers s ! i"] False by simp
  show ?thesis
  proof (cases "us_workers s ! i")
    case (WSending r cid t p)
    with r [of r] upd_receiver_ok [OF assms, of r "(t, p)"] assms False show ?thesis
      by (auto simp: worker_step_def intro!: sys_ok_worker split: prod.splits try_send_result.splits)
  qed (use False r assms in \<open>auto simp: worker_step_def close_receiver_ok
      bound_remove_ok unmap_ok intro!: sys_ok_worker split: sum.split\<close>)
qed (simp add: worker_step_def assms)

lemma datagram_read_ok: "sys_ok s \<Longrightarrow> sys_ok (datagram_read d s)"
  using mapped_receiver [OF sys_okD(1)]
  by (auto simp: datagram_read_def Let_def intro!: sys_ok_loop split: option.split)

lemma conn_ok_new_buffer: "conn_ok c \<Longrightarrow> room_for cid c \<Longrightarrow> conn_ok (put_waiting cid buffer_new c)"
  by (rule conn_ok_put_waiting) (auto simp: buffer_new_def room_for_def)

lemma datagram_step_ok:
  assumes "sys_ok s"
  shows "sys_ok (datagram_step s)"
proof -
  have r: "loop_receiver (us_loop s) = Some r \<Longrightarrow> r < length (uc_receivers (us_conn s))" for r
    using sys_okD(4) [OF assms] .
  show ?thesis
  proof (cases "us_loop s")
    case (DSending r t p)
    with r [of r] upd_receiver_ok [OF assms, of r "(t, p)"] assms show ?thesis
      by (auto simp: datagram_step_def intro!: sys_ok_loop split: prod.splits try_send_result.splits)
  next
    case (DEntry cid p)
    with sys_okD(1,5) [OF assms] have "conn_ok (put_waiting cid buffer_new (us_conn s))" by (intro conn_ok_new_buffer) auto
    then have "sys_ok ((on_conn (put_waiting cid buffer_new) s)\<lparr>us_loop := DPushing cid p b\<rparr>)" for b
      by (intro sys_okI) (use sys_okD [OF assms] in auto)
    with assms DEntry show ?thesis by (auto simp: datagram_step_def intro!: sys_ok_loop)
  next
    case (DPushing cid p b)
    show ?thesis
    proof (cases "fmlookup (uc_waiting (us_conn s)) cid")
      case (Some w)
      note w = waiting_lookup [OF sys_okD(1) [OF assms] Some]
      have "sys_ok (on_conn (put_waiting cid (w\<lparr>wb_queue := snd (try_send p (wb_queue w))\<rparr>)) s)"
        by (rule sys_ok_conn [OF assms]) (use w sys_okD(1) [OF assms] in \<open>auto intro!: conn_ok_put_waiting simp: chan_ok_try_send\<close>)
      with assms DPushing Some show ?thesis
        by (auto simp: datagram_step_def intro!: sys_ok_loop split: prod.splits try_send_result.splits)
    qed (use assms DPushing in \<open>auto simp: datagram_step_def intro!: sys_ok_loop\<close>)
  next
    case (DSpawning cid)
    have "sys_ok (on_conn (set_task cid w Waiting) s)" if "fmlookup (uc_waiting (us_conn s)) cid = Some w" for w
      by (rule sys_ok_conn [OF assms])
        (use that sys_okD(1) [OF assms] waiting_lookup(3) [OF _ that] in \<open>auto intro!: conn_ok_set_task\<close>)
    with assms DSpawning show ?thesis by (auto simp: datagram_step_def intro!: sys_ok_loop split: option.split)
  next
    case (DRemoving cid)
    have "sys_ok (on_conn (drop_waiting cid) s)"
      by (rule sys_ok_conn [OF assms]) (use sys_okD(1) [OF assms] in \<open>auto intro: conn_ok_drop_waiting\<close>)
    with DRemoving show ?thesis by (auto simp: datagram_step_def intro!: sys_ok_loop)
  qed (use r assms in \<open>auto simp: datagram_step_def close_receiver_ok room_for_def intro!: sys_ok_loop split: option.split\<close>)
qed

lemma waiter_dom:
  "length (uc_receivers (waiter_acquire cid c)) = length (uc_receivers c) \<and> fmdom (uc_waiting (waiter_acquire cid c)) |\<subseteq>| fmdom (uc_waiting c)"
  "length (uc_receivers (waiter_timeout cid c)) = length (uc_receivers c) \<and> fmdom (uc_waiting (waiter_timeout cid c)) |\<subseteq>| fmdom (uc_waiting c)"
  "length (uc_receivers (waiter_take cid c)) = length (uc_receivers c) \<and> fmdom (uc_waiting (waiter_take cid c)) |\<subseteq>| fmdom (uc_waiting c)"
  "length (uc_receivers (waiter_closed cid c)) = length (uc_receivers c) \<and> fmdom (uc_waiting (waiter_closed cid c)) |\<subseteq>| fmdom (uc_waiting c)"
  "length (uc_receivers (waiter_step cid c)) = length (uc_receivers c) \<and> fmdom (uc_waiting (waiter_step cid c)) |\<subseteq>| fmdom (uc_waiting c)"
  by (auto simp: waiter_acquire_def waiter_timeout_def waiter_take_def waiter_closed_def waiter_step_def fmdomI split: option.splits waiter.splits prod.splits try_send_result.splits)

lemma waiter_ok:
  assumes "sys_ok s"
  shows "sys_ok (on_conn (waiter_acquire cid) s)" and "sys_ok (on_conn (waiter_timeout cid) s)"
    and "sys_ok (on_conn (waiter_take cid) s)" and "sys_ok (on_conn (waiter_closed cid) s)" and "sys_ok (on_conn (waiter_step cid) s)"
  using assms sys_okD(1) [OF assms] by (simp_all add: sys_ok_conn waiter_dom conn_ok_waiter conn_ok_waiter_step)

lemma udp_step_ok: "sys_ok s \<Longrightarrow> sys_ok (udp_step e s)"
proof (cases e)
  case (SessionReceives cl remote r)
  assume ok: "sys_ok s"
  have "sys_ok (s\<lparr>us_conn := c\<rparr>)" if "recv_many cl remote r (us_conn s) = Some (ps, c)" for ps c
  proof -
    have "length (uc_receivers c) = length (uc_receivers (us_conn s))" "uc_waiting c = uc_waiting (us_conn s)"
      using that by (auto simp: recv_many_def split: list.splits)
    then show ?thesis
      by (intro sys_okI) (use sys_okD [OF ok] conn_ok_recv_many [OF _ that] in \<open>auto simp: room_for_def\<close>)
  qed
  with SessionReceives ok show ?thesis by (auto split: option.split)
qed (auto simp: new_session_ok listener_read_ok listener_stop_def sys_ok_listener listener_step_ok uni_accept_ok worker_ok
    worker_step_ok datagram_read_ok datagram_step_ok close_receiver_ok waiter_ok)

subsection \<open>The shared map and the receivers' tables\<close>

text \<open>The id a worker was started for.\<close>

fun worker_id :: "worker \<Rightarrow> (nat \<times> u16) option" where
  "worker_id (WFound r cid) = Some (r, cid)"
| "worker_id (WReading r cid t) = Some (r, cid)"
| "worker_id (WSending r cid t p) = Some (r, cid)"
| "worker_id (WFailing r cid) = Some (r, cid)"
| "worker_id (WLeft r cid) = Some (r, cid)"
| "worker_id (WUnmapping r cid) = Some (r, cid)"
| "worker_id _ = None"

text \<open>The maps, the tasks that change them and what has been announced, apart from the rest of the state.\<close>

type_synonym announced = "(nat \<times> u16 \<times> target_addr) list"

definition ann_times :: "announced \<Rightarrow> nat \<Rightarrow> u16 \<Rightarrow> nat" where
  "ann_times A r cid = length (filter (\<lambda>(q, i, t). q = r \<and> i = cid) A)"

lemma ann_times_snoc [simp]: "ann_times (A @ [(q, i, t)]) r cid = ann_times A r cid + (if q = r \<and> i = cid then 1 else 0)"
  by (simp add: ann_times_def)

text \<open>A task of the session is between the two removals of an id, or between the two insertions.\<close>

definition unmapping :: "listener list \<Rightarrow> nat \<Rightarrow> u16 \<Rightarrow> bool" where
  "unmapping L r cid \<longleftrightarrow> r < length L \<and> (\<exists>cids. L ! r = LUnmapping cid cids)"

definition removing :: "listener list \<Rightarrow> worker list \<Rightarrow> nat \<Rightarrow> u16 \<Rightarrow> bool" where
  "removing L W r cid \<longleftrightarrow> unmapping L r cid \<or> WUnmapping r cid \<in> set W"

definition inserting :: "listener list \<Rightarrow> nat \<Rightarrow> u16 \<Rightarrow> bool" where
  "inserting L r cid \<longleftrightarrow> r < length L \<and> (\<exists>t. L ! r = LInserted t cid)"

definition holding :: "listener list \<Rightarrow> nat \<Rightarrow> u16 \<Rightarrow> bool" where
  "holding L r cid \<longleftrightarrow> r < length L \<and> holds cid (L ! r)"

lemma locked_holding: "locked cid s \<longleftrightarrow> (\<exists>r. holding (us_listeners s) r cid)"
  by (auto simp: locked_def holding_def list_ex_length)

record bind_view =
  bv_map :: "u16 \<Rightarrow> nat option"
  bv_bound :: "nat \<Rightarrow> u16 \<Rightarrow> target_addr option"
  bv_listeners :: "listener list"
  bv_workers :: "worker list"
  bv_announced :: announced

definition locks_ok :: "bind_view \<Rightarrow> bool" where
  "locks_ok v \<longleftrightarrow>
     (\<forall>r cid. holding (bv_listeners v) r cid \<longrightarrow> bv_map v cid = None) \<and>
     (\<forall>r q cid. holding (bv_listeners v) r cid \<longrightarrow> holding (bv_listeners v) q cid \<longrightarrow> r = q)"

definition logged :: "bind_view \<Rightarrow> bool" where
  "logged v \<longleftrightarrow>
     (\<forall>r cid t. bv_bound v r cid = Some t \<longrightarrow> (r, cid, t) \<in> set (bv_announced v)) \<and>
     (\<forall>cid r. bv_map v cid = Some r \<longrightarrow> 0 < ann_times (bv_announced v) r cid) \<and>
     (\<forall>r cid. inserting (bv_listeners v) r cid \<longrightarrow> 0 < ann_times (bv_announced v) r cid) \<and>
     (\<forall>w \<in> set (bv_workers v). \<forall>r cid. worker_id w = Some (r, cid) \<longrightarrow> 0 < ann_times (bv_announced v) r cid)"

definition removals_ok :: "bind_view \<Rightarrow> bool" where
  "removals_ok v \<longleftrightarrow>
     (\<forall>r cid. WUnmapping r cid \<in> set (bv_workers v) \<longrightarrow> bv_bound v r cid = None \<or> 2 \<le> ann_times (bv_announced v) r cid) \<and>
     (\<forall>r cid. unmapping (bv_listeners v) r cid \<longrightarrow> bv_bound v r cid = None)"

definition mapped_bound :: "bind_view \<Rightarrow> bool" where
  "mapped_bound v \<longleftrightarrow>
     (\<forall>cid r. bv_map v cid = Some r \<longrightarrow> bv_bound v r cid \<noteq> None \<or> removing (bv_listeners v) (bv_workers v) r cid) \<and>
     (\<forall>cid r. inserting (bv_listeners v) r cid \<longrightarrow> bv_bound v r cid \<noteq> None \<or> WUnmapping r cid \<in> set (bv_workers v))"

definition bound_mapped :: "bind_view \<Rightarrow> bool" where
  "bound_mapped v \<longleftrightarrow> (\<forall>r cid. bv_bound v r cid \<noteq> None \<longrightarrow> ann_times (bv_announced v) r cid \<le> 1 \<longrightarrow>
     bv_map v cid = Some r \<or> inserting (bv_listeners v) r cid)"

definition bind_inv :: "bind_view \<Rightarrow> bool" where
  "bind_inv v \<longleftrightarrow> locks_ok v \<and> logged v \<and> removals_ok v \<and> mapped_bound v \<and> bound_mapped v"

lemmas bind_defs = bind_inv_def locks_ok_def logged_def removals_ok_def mapped_bound_def bound_mapped_def removing_def

lemma bind_invI:
  assumes "\<And>r cid. holding (bv_listeners v) r cid \<Longrightarrow> bv_map v cid = None"
    and "\<And>r q cid. holding (bv_listeners v) r cid \<Longrightarrow> holding (bv_listeners v) q cid \<Longrightarrow> r = q"
    and "\<And>r cid t. bv_bound v r cid = Some t \<Longrightarrow> (r, cid, t) \<in> set (bv_announced v)"
    and "\<And>r cid. bv_map v cid = Some r \<Longrightarrow> 0 < ann_times (bv_announced v) r cid"
    and "\<And>r cid. inserting (bv_listeners v) r cid \<Longrightarrow> 0 < ann_times (bv_announced v) r cid"
    and "\<And>w r cid. w \<in> set (bv_workers v) \<Longrightarrow> worker_id w = Some (r, cid) \<Longrightarrow> 0 < ann_times (bv_announced v) r cid"
    and "\<And>r cid. WUnmapping r cid \<in> set (bv_workers v) \<Longrightarrow> bv_bound v r cid = None \<or> 2 \<le> ann_times (bv_announced v) r cid"
    and "\<And>r cid. unmapping (bv_listeners v) r cid \<Longrightarrow> bv_bound v r cid = None"
    and "\<And>r cid. bv_map v cid = Some r \<Longrightarrow> bv_bound v r cid \<noteq> None \<or> unmapping (bv_listeners v) r cid \<or> WUnmapping r cid \<in> set (bv_workers v)"
    and "\<And>r cid. inserting (bv_listeners v) r cid \<Longrightarrow> bv_bound v r cid \<noteq> None \<or> WUnmapping r cid \<in> set (bv_workers v)"
    and "\<And>r cid. bv_bound v r cid \<noteq> None \<Longrightarrow> ann_times (bv_announced v) r cid \<le> 1 \<Longrightarrow> bv_map v cid = Some r \<or> inserting (bv_listeners v) r cid"
  shows "bind_inv v"
  unfolding bind_defs by (intro conjI allI ballI impI; (rule assms; assumption))

lemma bind_invD:
  assumes "bind_inv v"
  shows "holding (bv_listeners v) r cid \<Longrightarrow> bv_map v cid = None"
    and "holding (bv_listeners v) r cid \<Longrightarrow> holding (bv_listeners v) q cid \<Longrightarrow> r = q"
    and "bv_bound v r cid = Some t \<Longrightarrow> (r, cid, t) \<in> set (bv_announced v)"
    and "bv_map v cid = Some r \<Longrightarrow> 0 < ann_times (bv_announced v) r cid"
    and "inserting (bv_listeners v) r cid \<Longrightarrow> 0 < ann_times (bv_announced v) r cid"
    and "w \<in> set (bv_workers v) \<Longrightarrow> worker_id w = Some (r, cid) \<Longrightarrow> 0 < ann_times (bv_announced v) r cid"
    and "WUnmapping r cid \<in> set (bv_workers v) \<Longrightarrow> bv_bound v r cid = None \<or> 2 \<le> ann_times (bv_announced v) r cid"
    and "unmapping (bv_listeners v) r cid \<Longrightarrow> bv_bound v r cid = None"
    and "bv_map v cid = Some r \<Longrightarrow> bv_bound v r cid \<noteq> None \<or> unmapping (bv_listeners v) r cid \<or> WUnmapping r cid \<in> set (bv_workers v)"
    and "inserting (bv_listeners v) r cid \<Longrightarrow> bv_bound v r cid \<noteq> None \<or> WUnmapping r cid \<in> set (bv_workers v)"
    and "bv_bound v r cid \<noteq> None \<Longrightarrow> ann_times (bv_announced v) r cid \<le> 1 \<Longrightarrow> bv_map v cid = Some r \<or> inserting (bv_listeners v) r cid"
  using assms unfolding bind_defs by auto

lemma task_update:
  assumes "r < length L"
  shows "holding (L[r := l]) q cid = (if q = r then holds cid l else holding L q cid)"
    and "inserting (L[r := l]) q cid = (if q = r then \<exists>t. l = LInserted t cid else inserting L q cid)"
    and "unmapping (L[r := l]) q cid = (if q = r then \<exists>cids. l = LUnmapping cid cids else unmapping L q cid)"
  using assms by (auto simp: holding_def inserting_def unmapping_def nth_list_update)

lemma task_now:
  assumes "r < length L"
  shows "holding L r cid = holds cid (L ! r)" and "inserting L r cid = (\<exists>t. L ! r = LInserted t cid)"
    and "unmapping L r cid = (\<exists>cids. L ! r = LUnmapping cid cids)"
  using assms by (simp_all add: holding_def inserting_def unmapping_def)

lemma inserting_holding: "inserting L r cid \<Longrightarrow> holding L r cid"
  by (auto simp: inserting_def holding_def)

text \<open>What each step does to the view.\<close>

lemma bind_inv_listener:
  assumes inv: "bind_inv v" and r: "r < length (bv_listeners v)" and "\<And>cid. \<not> holds cid (bv_listeners v ! r)" and "\<And>cid. \<not> holds cid l"
    and "\<And>cid cids. bv_listeners v ! r \<noteq> LUnmapping cid cids" and "\<And>cid cids. l \<noteq> LUnmapping cid cids"
  shows "bind_inv (v\<lparr>bv_listeners := (bv_listeners v)[r := l]\<rparr>)"
proof -
  let ?L = "(bv_listeners v)[r := l]"
  have "holding ?L = holding (bv_listeners v)" "unmapping ?L = unmapping (bv_listeners v)"
    using assms by (auto simp: fun_eq_iff task_update task_now)
  moreover have "inserting ?L = inserting (bv_listeners v)"
    using assms by (auto simp: fun_eq_iff task_update task_now) (metis holds.simps(2))+
  ultimately show ?thesis using inv by (simp add: bind_defs)
qed

lemma bind_inv_hold:
  assumes inv: "bind_inv v" and r: "r < length (bv_listeners v)" and l: "bv_listeners v ! r = LReading"
    and free: "\<And>q. \<not> holding (bv_listeners v) q cid" and m: "bv_map v cid = None"
  shows "bind_inv (v\<lparr>bv_listeners := (bv_listeners v)[r := LHolding t cid]\<rparr>)"
proof -
  let ?L = "(bv_listeners v)[r := LHolding t cid]"
  have h: "holding ?L q i \<longleftrightarrow> q = r \<and> i = cid \<or> holding (bv_listeners v) q i" for q i
    using r l by (auto simp: task_update task_now)
  have "inserting ?L = inserting (bv_listeners v)" "unmapping ?L = unmapping (bv_listeners v)"
    using r l by (auto simp: fun_eq_iff task_update task_now)
  then show ?thesis using inv free m by (auto simp: bind_defs h)
qed

lemma bind_inv_insert:
  assumes inv: "bind_inv v" and r: "r < length (bv_listeners v)" and l: "bv_listeners v ! r = LHolding t cid"
  shows "bind_inv (v\<lparr>bv_bound := (bv_bound v)(r := (bv_bound v r)(cid \<mapsto> t)), bv_announced := bv_announced v @ [(r, cid, t)],
    bv_listeners := (bv_listeners v)[r := LInserted t cid]\<rparr>)"
proof -
  let ?L = "(bv_listeners v)[r := LInserted t cid]"
  have h: "holding ?L = holding (bv_listeners v)" and u: "unmapping ?L = unmapping (bv_listeners v)"
    using r l by (auto simp: fun_eq_iff task_update task_now)
  have i: "inserting ?L q i \<longleftrightarrow> q = r \<and> i = cid \<or> inserting (bv_listeners v) q i" for q i
    using r l by (auto simp: task_update task_now)
  have nu: "\<not> unmapping (bv_listeners v) r cid" using r l by (simp add: task_now)
  have w: "WUnmapping r cid \<in> set (bv_workers v) \<Longrightarrow> 0 < ann_times (bv_announced v) r cid"
    using inv by (auto simp: bind_defs)
  show ?thesis using inv nu w unfolding bind_defs by (auto simp: h u i)
qed

lemma bind_inv_publish:
  assumes inv: "bind_inv v" and r: "r < length (bv_listeners v)" and l: "bv_listeners v ! r = LInserted t cid"
  shows "bind_inv (v\<lparr>bv_map := (bv_map v)(cid \<mapsto> r), bv_listeners := (bv_listeners v)[r := LReading]\<rparr>)"
proof -
  let ?L = "(bv_listeners v)[r := LReading]"
  have h: "holding ?L q i \<longleftrightarrow> q \<noteq> r \<and> holding (bv_listeners v) q i" for q i using r l by (auto simp: task_update task_now)
  have i: "inserting ?L q i \<longleftrightarrow> q \<noteq> r \<and> inserting (bv_listeners v) q i" for q i using r l by (auto simp: task_update task_now)
  have u: "unmapping ?L = unmapping (bv_listeners v)" using r l by (auto simp: fun_eq_iff task_update task_now)
  have ins: "inserting (bv_listeners v) r cid" using r l by (simp add: task_now)
  then have hr: "holding (bv_listeners v) r cid" by (rule inserting_holding)
  have own: "inserting (bv_listeners v) r i \<Longrightarrow> i = cid" for i using r l by (auto simp: task_now)
  note D = bind_invD [OF inv]
  show ?thesis (is "bind_inv ?v")
  proof (rule bind_invI)
    show "bv_map ?v j = None" if "holding (bv_listeners ?v) q j" for q j
      using that D(1) [of q j] D(2) [of q cid r] hr by (auto simp: h)
    show "q = p" if "holding (bv_listeners ?v) q j" "holding (bv_listeners ?v) p j" for q p j
      using that D(2) [of q j p] by (auto simp: h)
    show "(q, j, u) \<in> set (bv_announced ?v)" if "bv_bound ?v q j = Some u" for q j u using that D(3) by simp
    show "0 < ann_times (bv_announced ?v) q j" if "bv_map ?v j = Some q" for q j
      using that D(4) [of j q] D(5) [OF ins] by (cases "j = cid") auto
    show "0 < ann_times (bv_announced ?v) q j" if "inserting (bv_listeners ?v) q j" for q j using that D(5) by (simp add: i)
    show "0 < ann_times (bv_announced ?v) q j" if "w \<in> set (bv_workers ?v)" "worker_id w = Some (q, j)" for w q j
      using that D(6) by simp
    show "bv_bound ?v q j = None \<or> 2 \<le> ann_times (bv_announced ?v) q j" if "WUnmapping q j \<in> set (bv_workers ?v)" for q j
      using that D(7) by simp
    show "bv_bound ?v q j = None" if "unmapping (bv_listeners ?v) q j" for q j using that D(8) by (simp add: u)
    show "bv_bound ?v q j \<noteq> None \<or> unmapping (bv_listeners ?v) q j \<or> WUnmapping q j \<in> set (bv_workers ?v)" if "bv_map ?v j = Some q" for q j
      using that D(9) [of j q] D(10) [OF ins] by (cases "j = cid") (auto simp: u)
    show "bv_bound ?v q j \<noteq> None \<or> WUnmapping q j \<in> set (bv_workers ?v)" if "inserting (bv_listeners ?v) q j" for q j
      using that D(10) by (simp add: i)
    show "bv_map ?v j = Some q \<or> inserting (bv_listeners ?v) q j" if "bv_bound ?v q j \<noteq> None" "ann_times (bv_announced ?v) q j \<le> 1" for q j
    proof -
      have "bv_map v j = Some q \<or> inserting (bv_listeners v) q j" using that D(11) [of q j] by simp
      moreover have "bv_map v cid = None" by (rule D(1) [OF hr])
      ultimately show ?thesis using own [of j] by (cases "q = r") (auto simp: i)
    qed
  qed
qed

lemma bind_inv_worker:
  assumes inv: "bind_inv v" and i: "i < length (bv_workers v)" and "\<And>r cid. bv_workers v ! i \<noteq> WUnmapping r cid"
    and "\<And>r cid. w \<noteq> WUnmapping r cid" and "worker_id w = None \<or> worker_id w = worker_id (bv_workers v ! i)"
  shows "bind_inv (v\<lparr>bv_workers := (bv_workers v)[i := w]\<rparr>)"
proof -
  have "WUnmapping r cid \<in> set ((bv_workers v)[i := w]) \<longleftrightarrow> WUnmapping r cid \<in> set (bv_workers v)" for r cid
    using assms(2-4) by (auto simp: in_set_conv_nth nth_list_update) metis+
  moreover have "x \<in> set ((bv_workers v)[i := w]) \<Longrightarrow> worker_id x = Some y \<Longrightarrow> \<exists>x' \<in> set (bv_workers v). worker_id x' = Some y" for x y
    using assms(2,5) nth_mem [of i "bv_workers v"] subsetD [OF set_update_subset_insert, of x "bv_workers v" i w] by fastforce
  ultimately show ?thesis using inv unfolding bind_defs by simp metis
qed

lemma bind_inv_worker_new:
  assumes inv: "bind_inv v" and m: "bv_map v cid = Some r"
  shows "bind_inv (v\<lparr>bv_workers := bv_workers v @ [WFound r cid]\<rparr>)"
  by (rule bind_invI) (use bind_invD [OF inv] m in auto)

text \<open>Removing the address of an id.\<close>

lemma bind_inv_unbind:
  assumes inv: "bind_inv v" and later: "unmapping L r cid \<or> WUnmapping r cid \<in> set W"
    and L: "\<And>q j. holding L q j = holding (bv_listeners v) q j" "\<And>q j. inserting L q j = inserting (bv_listeners v) q j"
      "\<And>q j. unmapping L q j \<Longrightarrow> unmapping (bv_listeners v) q j \<or> q = r \<and> j = cid"
      "\<And>q j. unmapping (bv_listeners v) q j \<Longrightarrow> unmapping L q j"
    and W: "\<And>w. w \<in> set W \<Longrightarrow> w \<in> set (bv_workers v) \<or> w = WUnmapping r cid \<and> 0 < ann_times (bv_announced v) r cid"
      "\<And>q j. WUnmapping q j \<in> set (bv_workers v) \<Longrightarrow> WUnmapping q j \<in> set W"
    and ins: "inserting L r cid \<Longrightarrow> WUnmapping r cid \<in> set W"
    and v': "v' = v\<lparr>bv_bound := (bv_bound v)(r := (bv_bound v r)(cid := None)), bv_listeners := L, bv_workers := W\<rparr>"
  shows "bind_inv v'"
  unfolding v'
proof (rule bind_invI)
  let ?v = "v\<lparr>bv_bound := (bv_bound v)(r := (bv_bound v r)(cid := None)), bv_listeners := L, bv_workers := W\<rparr>"
  note D = bind_invD [OF inv]
  have B: "bv_bound ?v q j = (if q = r \<and> j = cid then None else bv_bound v q j)" for q j by simp
  show "bv_map ?v j = None" if "holding (bv_listeners ?v) q j" for q j using that D(1) L(1) by simp
  show "q = p" if "holding (bv_listeners ?v) q j" "holding (bv_listeners ?v) p j" for q p j using that D(2) [of q j p] L(1) by simp
  show "(q, j, u) \<in> set (bv_announced ?v)" if "bv_bound ?v q j = Some u" for q j u using that D(3) by (simp add: B split: if_splits)
  show "0 < ann_times (bv_announced ?v) q j" if "bv_map ?v j = Some q" for q j using that D(4) by simp
  show "0 < ann_times (bv_announced ?v) q j" if "inserting (bv_listeners ?v) q j" for q j using that D(5) L(2) by simp
  show "0 < ann_times (bv_announced ?v) q j" if "w \<in> set (bv_workers ?v)" "worker_id w = Some (q, j)" for w q j
    using that D(6) [of w q j] W(1) [of w] by auto
  show "bv_bound ?v q j = None \<or> 2 \<le> ann_times (bv_announced ?v) q j" if "WUnmapping q j \<in> set (bv_workers ?v)" for q j
    using that D(7) [of q j] W(1) [of "WUnmapping q j"] by auto
  show "bv_bound ?v q j = None" if "unmapping (bv_listeners ?v) q j" for q j using that D(8) [of q j] L(3) [of q j] by auto
  show "bv_bound ?v q j \<noteq> None \<or> unmapping (bv_listeners ?v) q j \<or> WUnmapping q j \<in> set (bv_workers ?v)" if "bv_map ?v j = Some q" for q j
    using that D(9) [of j q] later L(4) [of q j] W(2) [of q j] by auto
  show "bv_bound ?v q j \<noteq> None \<or> WUnmapping q j \<in> set (bv_workers ?v)" if "inserting (bv_listeners ?v) q j" for q j
    using that D(10) [of q j] L(2) W(2) [of q j] ins by auto
  show "bv_map ?v j = Some q \<or> inserting (bv_listeners ?v) q j" if "bv_bound ?v q j \<noteq> None" "ann_times (bv_announced ?v) q j \<le> 1" for q j
    using that D(11) [of q j] L(2) by (auto split: if_splits)
qed

text \<open>Removing the entry of an id.\<close>

lemma bind_inv_unmap:
  assumes inv: "bind_inv v" and free: "\<And>q. \<not> holding (bv_listeners v) q cid"
    and gone: "bv_bound v r cid = None \<or> 2 \<le> ann_times (bv_announced v) r cid"
    and L: "\<And>q j. holding L q j = holding (bv_listeners v) q j" "\<And>q j. inserting L q j = inserting (bv_listeners v) q j"
      "\<And>q j. unmapping L q j \<Longrightarrow> unmapping (bv_listeners v) q j"
      "\<And>q j. unmapping (bv_listeners v) q j \<Longrightarrow> unmapping L q j \<or> q = r \<and> j = cid"
    and W: "\<And>w y. w \<in> set W \<Longrightarrow> worker_id w = Some y \<Longrightarrow> w \<in> set (bv_workers v)"
      "\<And>q j. WUnmapping q j \<in> set (bv_workers v) \<Longrightarrow> WUnmapping q j \<in> set W \<or> q = r \<and> j = cid"
    and v': "v' = v\<lparr>bv_map := (if bv_map v cid = Some r then (bv_map v)(cid := None) else bv_map v), bv_listeners := L, bv_workers := W\<rparr>"
  shows "bind_inv v'"
  unfolding v'
proof (rule bind_invI)
  let ?v = "v\<lparr>bv_map := (if bv_map v cid = Some r then (bv_map v)(cid := None) else bv_map v), bv_listeners := L, bv_workers := W\<rparr>"
  note D = bind_invD [OF inv]
  have M: "bv_map ?v j = (if j = cid \<and> bv_map v cid = Some r then None else bv_map v j)" for j by simp
  show "bv_map ?v j = None" if "holding (bv_listeners ?v) q j" for q j using that D(1) [of q j] L(1) by (simp add: M)
  show "q = p" if "holding (bv_listeners ?v) q j" "holding (bv_listeners ?v) p j" for q p j using that D(2) [of q j p] L(1) by simp
  show "(q, j, u) \<in> set (bv_announced ?v)" if "bv_bound ?v q j = Some u" for q j u using that D(3) by simp
  show "0 < ann_times (bv_announced ?v) q j" if "bv_map ?v j = Some q" for q j using that D(4) [of j q] by (simp add: M split: if_splits)
  show "0 < ann_times (bv_announced ?v) q j" if "inserting (bv_listeners ?v) q j" for q j using that D(5) L(2) by simp
  show "0 < ann_times (bv_announced ?v) q j" if "w \<in> set (bv_workers ?v)" "worker_id w = Some (q, j)" for w q j
    using that D(6) [of w q j] W(1) [of w "(q, j)"] by simp
  show "bv_bound ?v q j = None \<or> 2 \<le> ann_times (bv_announced ?v) q j" if "WUnmapping q j \<in> set (bv_workers ?v)" for q j
    using that D(7) [of q j] W(1) [of "WUnmapping q j" "(q, j)"] by simp
  show "bv_bound ?v q j = None" if "unmapping (bv_listeners ?v) q j" for q j using that D(8) L(3) by simp
  show "bv_bound ?v q j \<noteq> None \<or> unmapping (bv_listeners ?v) q j \<or> WUnmapping q j \<in> set (bv_workers ?v)" if "bv_map ?v j = Some q" for q j
    using that D(9) [of j q] L(4) [of q j] W(2) [of q j] by (auto simp: M split: if_splits)
  show "bv_bound ?v q j \<noteq> None \<or> WUnmapping q j \<in> set (bv_workers ?v)" if "inserting (bv_listeners ?v) q j" for q j
    using that D(10) [of q j] L(2) W(2) [of q j] free [of r] inserting_holding [of "bv_listeners v" q j] by auto
  show "bv_map ?v j = Some q \<or> inserting (bv_listeners ?v) q j" if "bv_bound ?v q j \<noteq> None" "ann_times (bv_announced ?v) q j \<le> 1" for q j
    using that D(11) [of q j] L(2) gone by (auto simp: M split: if_splits)
qed

lemma bind_inv_session:
  assumes inv: "bind_inv v"
  shows "bind_inv (v\<lparr>bv_listeners := bv_listeners v @ [LReading]\<rparr>)"
proof -
  let ?L = "bv_listeners v @ [LReading]"
  have "holding ?L = holding (bv_listeners v)" "inserting ?L = inserting (bv_listeners v)" "unmapping ?L = unmapping (bv_listeners v)"
    by (auto simp: fun_eq_iff holding_def inserting_def unmapping_def nth_append less_Suc_eq split: if_splits)
  then show ?thesis using inv by (simp add: bind_defs)
qed

subsection \<open>The maps in every interleaving\<close>

definition view_of :: "udp_sys \<Rightarrow> bind_view" where
  "view_of s = \<lparr>bv_map = fmlookup (recv_map s),
     bv_bound = (\<lambda>r. if r < length (uc_receivers (us_conn s)) then fmlookup (bound_of s r) else Map.empty),
     bv_listeners = us_listeners s, bv_workers = us_workers s, bv_announced = us_announced s\<rparr>"

lemma view_of_simps [simp]:
  "bv_listeners (view_of s) = us_listeners s" "bv_workers (view_of s) = us_workers s" "bv_announced (view_of s) = us_announced s"
  "bv_map (view_of s) = fmlookup (recv_map s)"
  "r < length (uc_receivers (us_conn s)) \<Longrightarrow> bv_bound (view_of s) r = fmlookup (bound_of s r)"
  by (simp_all add: view_of_def)

lemma view_of_eqI:
  assumes "recv_map s' = recv_map s" and "us_listeners s' = us_listeners s" and "us_workers s' = us_workers s"
    and "us_announced s' = us_announced s" and "length (uc_receivers (us_conn s')) = length (uc_receivers (us_conn s))"
    and "\<And>r. r < length (uc_receivers (us_conn s)) \<Longrightarrow> bound_of s' r = bound_of s r"
  shows "view_of s' = view_of s"
  using assms by (auto simp: view_of_def fun_eq_iff)

definition quiet :: "(udp_conn \<Rightarrow> udp_conn) \<Rightarrow> udp_conn \<Rightarrow> bool" where
  "quiet f c \<longleftrightarrow> uc_recv_map (f c) = uc_recv_map c \<and> map rc_bound (uc_receivers (f c)) = map rc_bound (uc_receivers c)"

lemma view_of_quiet:
  assumes "quiet f (us_conn s)"
  shows "view_of (on_conn f s) = view_of s"
proof (rule view_of_eqI)
  from assms have m: "map rc_bound (uc_receivers (f (us_conn s))) = map rc_bound (uc_receivers (us_conn s))" by (simp add: quiet_def)
  then have l: "length (uc_receivers (f (us_conn s))) = length (uc_receivers (us_conn s))" by (rule map_eq_imp_length_eq)
  then show "length (uc_receivers (us_conn (on_conn f s))) = length (uc_receivers (us_conn s))" by simp
  show "bound_of (on_conn f s) r = bound_of s r" if "r < length (uc_receivers (us_conn s))" for r
    using arg_cong [OF m, of "\<lambda>xs. xs ! r"] that l by simp
qed (use assms in \<open>simp_all add: quiet_def\<close>)

lemma quiet_upd: "(\<And>x. rc_bound (f x) = rc_bound x) \<Longrightarrow> quiet (upd_receiver r f) c"
  by (cases "r < length (uc_receivers c)") (auto simp: quiet_def upd_receiver_def map_update list_update_beyond intro: list_update_same_conv [THEN iffD2])

lemma quiet_close: "quiet (close_receiver r) c"
  unfolding close_receiver_def by (rule quiet_upd) simp

lemma view_of_loop [simp]: "view_of (s\<lparr>us_loop := l\<rparr>) = view_of s" "view_of (s\<lparr>us_arrived := A\<rparr>) = view_of s"
  by (rule view_of_eqI; simp)+

lemma quiet_waiting: "quiet (put_waiting cid w) c" "quiet (drop_waiting cid) c" "quiet (set_task cid w t) c"
  by (simp_all add: quiet_def)

lemma quiet_comp: "quiet f c \<Longrightarrow> quiet g (f c) \<Longrightarrow> quiet (\<lambda>c. g (f c)) c"
  by (simp add: quiet_def)

lemma quiet_waiter: "quiet (waiter_acquire cid) c" "quiet (waiter_timeout cid) c" "quiet (waiter_take cid) c"
  "quiet (waiter_closed cid) c" "quiet (waiter_step cid) c"
  using quiet_close [of _ c] quiet_upd [of _ _ c]
  by (auto simp: quiet_def waiter_acquire_def waiter_timeout_def waiter_take_def waiter_closed_def waiter_step_def
      split: option.split waiter.split prod.split try_send_result.split)

lemma loop_view: "view_of (datagram_read d s) = view_of s" "view_of (datagram_step s) = view_of s"
  by (auto simp: datagram_read_def datagram_step_def Let_def view_of_quiet quiet_waiting quiet_close quiet_upd
      split: option.split datagram_loop.split prod.split try_send_result.split)

lemma view_put [simp]:
  "view_of (put_listener r l s) = (view_of s)\<lparr>bv_listeners := (us_listeners s)[r := l]\<rparr>"
  "view_of (put_worker i w s) = (view_of s)\<lparr>bv_workers := (us_workers s)[i := w]\<rparr>"
  "view_of (s\<lparr>us_workers := W\<rparr>) = (view_of s)\<lparr>bv_workers := W\<rparr>"
  by (auto simp: view_of_def put_listener_def put_worker_def fun_eq_iff)

lemma view_bound_remove:
  "r < length (uc_receivers (us_conn s)) \<Longrightarrow> view_of (on_conn (bound_remove r cid) s) =
     (view_of s)\<lparr>bv_bound := (bv_bound (view_of s))(r := (bv_bound (view_of s) r)(cid := None))\<rparr>"
  by (auto simp: view_of_def bound_remove_def fun_eq_iff)

lemma view_unmap:
  "view_of (on_conn (unmap r cid) s) = (view_of s)\<lparr>bv_map :=
     (if bv_map (view_of s) cid = Some r then (bv_map (view_of s))(cid := None) else bv_map (view_of s))\<rparr>"
  by (auto simp: view_of_def unmap_def fun_eq_iff)

lemma listener_step_bind:
  assumes ok: "sys_ok s" and inv: "bind_inv (view_of s)"
  shows "bind_inv (view_of (listener_step r s))"
proof (cases "length (us_listeners s) \<le> r")
  case False
  then have r: "r < length (us_listeners s)" "r < length (uc_receivers (us_conn s))" using sys_okD(2) [OF ok] by simp_all
  note same = bind_inv_listener [OF inv, of r]
  show ?thesis
  proof (cases "us_listeners s ! r")
    case (LHolding t cid)
    have "view_of (listener_step r s) = (view_of s)\<lparr>bv_bound := (bv_bound (view_of s))(r := (bv_bound (view_of s) r)(cid \<mapsto> t)),
        bv_announced := us_announced s @ [(r, cid, t)], bv_listeners := (us_listeners s)[r := LInserted t cid]\<rparr>"
      using r LHolding by (auto simp: listener_step_def view_of_def put_listener_def on_conn_def fun_eq_iff)
    with bind_inv_insert [OF inv, of r t cid] r LHolding show ?thesis by simp
  next
    case (LInserted t cid)
    have "view_of (listener_step r s) = (view_of s)\<lparr>bv_map := (bv_map (view_of s))(cid \<mapsto> r), bv_listeners := (us_listeners s)[r := LReading]\<rparr>"
      using r LInserted by (auto simp: listener_step_def view_of_def put_listener_def on_conn_def fun_eq_iff)
    with bind_inv_publish [OF inv, of r t cid] r LInserted show ?thesis by simp
  next
    case (LCleaning cids)
    show ?thesis
    proof (cases cids)
      case Nil
      with LCleaning r same [of LClosing] show ?thesis by (simp add: listener_step_def)
    next
      case (Cons cid rest)
      have "bind_inv ((view_of s)\<lparr>bv_bound := (bv_bound (view_of s))(r := (bv_bound (view_of s) r)(cid := None)),
          bv_listeners := (us_listeners s)[r := LUnmapping cid rest]\<rparr>)"
        by (rule bind_inv_unbind [OF inv, of "(us_listeners s)[r := LUnmapping cid rest]" r cid "us_workers s"])
          (use r Cons LCleaning in \<open>auto simp: task_update task_now split: if_splits\<close>)
      with LCleaning Cons r show ?thesis by (simp add: listener_step_def view_bound_remove)
    qed
  next
    case (LUnmapping cid cids)
    then have "bv_bound (view_of s) r cid = None" using bind_invD(8) [OF inv, of r cid] r by (simp add: task_now)
    then have "bind_inv ((view_of s)\<lparr>bv_map := (if bv_map (view_of s) cid = Some r then (bv_map (view_of s))(cid := None) else bv_map (view_of s)),
        bv_listeners := (us_listeners s)[r := LCleaning cids]\<rparr>)" if "\<not> locked cid s"
      by (intro bind_inv_unmap [OF inv, of cid r "(us_listeners s)[r := LCleaning cids]" "us_workers s"])
        (use that r LUnmapping in \<open>auto simp: task_update task_now locked_holding split: if_splits\<close>)
    with LUnmapping r inv show ?thesis by (simp add: listener_step_def view_unmap)
  next
    case LClosing
    with r same [of LEnded] show ?thesis by (simp add: listener_step_def view_of_quiet [OF quiet_close])
  qed (use r same inv in \<open>simp_all add: listener_step_def\<close>)
qed (simp add: listener_step_def inv)

lemma listener_bind:
  assumes ok: "sys_ok s" and inv: "bind_inv (view_of s)"
  shows "bind_inv (view_of (listener_read r t cid s))" and "bind_inv (view_of (listener_stop r s))"
  using bind_inv_listener [OF inv, of r LLeft] bind_inv_hold [OF inv, of r cid t] inv
  by (auto simp: listener_read_def listener_stop_def locked_holding split: option.split)

lemma in_set_update: "i < length xs \<Longrightarrow> x \<in> set xs \<Longrightarrow> x \<noteq> xs ! i \<Longrightarrow> x \<in> set (xs[i := y])"
  by (metis in_set_conv_nth length_list_update nth_list_update_neq)

lemma worker_step_bind:
  assumes ok: "sys_ok s" and inv: "bind_inv (view_of s)"
  shows "bind_inv (view_of (worker_step i s))"
proof (cases "length (us_workers s) \<le> i")
  case False
  then have i: "i < length (us_workers s)" by simp
  note same = bind_inv_worker [OF inv, of i]
  have mem: "us_workers s ! i \<in> set (us_workers s)" using i by simp
  show ?thesis
  proof (cases "us_workers s ! i")
    case (WSending r cid t p)
    then show ?thesis using i same inv view_of_quiet [OF quiet_upd]
      by (auto simp: worker_step_def split: prod.split try_send_result.split)
  next
    case (WLeft r cid)
    then have r: "r < length (uc_receivers (us_conn s))" using sys_okD(3) [OF ok mem] by simp
    have "0 < ann_times (us_announced s) r cid" using bind_invD(6) [OF inv, of "us_workers s ! i"] mem WLeft by simp
    then have "bind_inv ((view_of s)\<lparr>bv_bound := (bv_bound (view_of s))(r := (bv_bound (view_of s) r)(cid := None)),
        bv_workers := (us_workers s)[i := WUnmapping r cid]\<rparr>)"
      using i WLeft subsetD [OF set_update_subset_insert, of _ "us_workers s" i "WUnmapping r cid"]
      by (intro bind_inv_unbind [OF inv, of "us_listeners s" r cid "(us_workers s)[i := WUnmapping r cid]"])
        (auto simp: set_update_memI intro: in_set_update)
    with WLeft i r show ?thesis by (simp add: worker_step_def view_bound_remove)
  next
    case (WUnmapping r cid)
    then have gone: "bv_bound (view_of s) r cid = None \<or> 2 \<le> ann_times (us_announced s) r cid"
      using bind_invD(7) [OF inv, of r cid] mem by simp
    have "bind_inv ((view_of s)\<lparr>bv_map := (if bv_map (view_of s) cid = Some r then (bv_map (view_of s))(cid := None) else bv_map (view_of s)),
        bv_workers := (us_workers s)[i := WChecking r]\<rparr>)" if "\<not> locked cid s"
      using that i WUnmapping gone
      by (intro bind_inv_unmap [OF inv, of cid r "us_listeners s" "(us_workers s)[i := WChecking r]"])
        (auto simp: locked_holding intro: in_set_update dest!: subsetD [OF set_update_subset_insert])
    with WUnmapping i inv show ?thesis by (simp add: worker_step_def view_unmap)
  qed (use i same inv in \<open>auto simp: worker_step_def view_of_quiet [OF quiet_close] split: sum.split\<close>)
qed (simp add: worker_step_def inv)

lemma worker_bind:
  assumes inv: "bind_inv (view_of s)"
  shows "bind_inv (view_of (worker_read i p s))" and "bind_inv (view_of (worker_stop i s))" and "bind_inv (view_of (uni_accept cid s))"
proof -
  note same = bind_inv_worker [OF inv, of i]
  show "bind_inv (view_of (worker_read i p s))" "bind_inv (view_of (worker_stop i s))"
    using same inv by (auto simp: worker_read_def worker_stop_def split: worker.split)
  show "bind_inv (view_of (uni_accept cid s))"
    using bind_inv_worker_new [OF inv, of cid] inv by (auto simp: uni_accept_def split: option.split)
qed

lemma udp_step_bind:
  assumes ok: "sys_ok s" and inv: "bind_inv (view_of s)"
  shows "bind_inv (view_of (udp_step e s))"
proof (cases e)
  case NewSession
  have "view_of (new_session s) = (view_of s)\<lparr>bv_listeners := us_listeners s @ [LReading]\<rparr>"
    by (auto simp: new_session_def view_of_def on_conn_def add_receiver_def receiver_new_def nth_append fun_eq_iff)
  with NewSession bind_inv_session [OF inv] show ?thesis by simp
next
  case (SessionReceives cl remote r)
  have "view_of (s\<lparr>us_conn := c\<rparr>) = view_of s" if "recv_many cl remote r (us_conn s) = Some (ps, c)" for ps c
    using that by (intro view_of_eqI) (auto simp: recv_many_def split: list.splits)
  with SessionReceives inv show ?thesis by (auto split: option.split)
qed (use inv in \<open>simp_all add: listener_bind [OF ok] listener_step_bind [OF ok] worker_bind worker_step_bind [OF ok] loop_view
      view_of_quiet quiet_waiter quiet_close\<close>)

lemma udp_exec_inv: "sys_ok (udp_exec es sys_new) \<and> bind_inv (view_of (udp_exec es sys_new))"
proof -
  have "sys_ok s \<and> bind_inv (view_of s) \<Longrightarrow> sys_ok (udp_exec es s) \<and> bind_inv (view_of (udp_exec es s))" for s
    unfolding udp_exec_def by (induction es arbitrary: s) (simp_all add: udp_step_ok udp_step_bind)
  moreover have "sys_ok sys_new" using conn_ok_new by (simp add: sys_ok_def sys_new_def conn_new_def)
  moreover have "bind_inv (view_of sys_new)"
    by (rule bind_invI) (simp_all add: sys_new_def view_of_def conn_new_def holding_def inserting_def unmapping_def)
  ultimately show ?thesis by blast
qed

subsection \<open>Where a session's packets come from\<close>

text \<open>Session \<open>r\<close> has announced the address \<open>t\<close> under \<open>cid\<close>, and \<open>p\<close> has arrived under \<open>cid\<close>.\<close>

definition brought :: "udp_sys \<Rightarrow> nat \<Rightarrow> u16 \<Rightarrow> target_addr \<Rightarrow> bytes \<Rightarrow> bool" where
  "brought s r cid t p \<longleftrightarrow> (r, cid, t) \<in> set (us_announced s) \<and> (cid, p) \<in> set (us_arrived s)"

fun waiter_traced :: "udp_sys \<Rightarrow> u16 \<Rightarrow> waiter \<Rightarrow> bool" where
  "waiter_traced s cid (Feeding r p) = ((cid, p) \<in> set (us_arrived s))"
| "waiter_traced s cid (Sending r t p) = brought s r cid t p"
| "waiter_traced s cid _ = True"

fun worker_traced :: "udp_sys \<Rightarrow> worker \<Rightarrow> bool" where
  "worker_traced s (WReading r cid t) = ((r, cid, t) \<in> set (us_announced s))"
| "worker_traced s (WSending r cid t p) = brought s r cid t p"
| "worker_traced s _ = True"

fun loop_traced :: "udp_sys \<Rightarrow> datagram_loop \<Rightarrow> bool" where
  "loop_traced s (DFeeding r cid p) = ((cid, p) \<in> set (us_arrived s))"
| "loop_traced s (DSending r t p) = (\<exists>cid. brought s r cid t p)"
| "loop_traced s (DUnknown cid p) = ((cid, p) \<in> set (us_arrived s))"
| "loop_traced s (DCounting cid p) = ((cid, p) \<in> set (us_arrived s))"
| "loop_traced s (DEntry cid p) = ((cid, p) \<in> set (us_arrived s))"
| "loop_traced s (DPushing cid p b) = ((cid, p) \<in> set (us_arrived s))"
| "loop_traced s _ = True"

definition conn_traced :: "udp_sys \<Rightarrow> udp_conn \<Rightarrow> bool" where
  "conn_traced s c \<longleftrightarrow>
     (\<forall>r < length (uc_receivers c). \<forall>t p. (t, p) \<in> set (ch_items (rc_queue (uc_receivers c ! r))) \<longrightarrow> (\<exists>cid. brought s r cid t p)) \<and>
     (\<forall>cid w. fmlookup (uc_waiting c) cid = Some w \<longrightarrow>
        (\<forall>p \<in> set (ch_items (wb_queue w)). (cid, p) \<in> set (us_arrived s)) \<and> waiter_traced s cid (wb_task w))"

definition traced :: "udp_sys \<Rightarrow> bool" where
  "traced s \<longleftrightarrow> conn_traced s (us_conn s) \<and> (\<forall>w \<in> set (us_workers s). worker_traced s w) \<and> loop_traced s (us_loop s)"

text \<open>What has come in only grows.\<close>

definition grows :: "udp_sys \<Rightarrow> udp_sys \<Rightarrow> bool" where
  "grows s s' \<longleftrightarrow> set (us_announced s) \<subseteq> set (us_announced s') \<and> set (us_arrived s) \<subseteq> set (us_arrived s')"

lemma brought_mono: "grows s s' \<Longrightarrow> brought s r cid t p \<Longrightarrow> brought s' r cid t p"
  by (auto simp: grows_def brought_def)

lemma traced_mono:
  assumes "grows s s'"
  shows "waiter_traced s cid w \<Longrightarrow> waiter_traced s' cid w" and "worker_traced s x \<Longrightarrow> worker_traced s' x"
    and "loop_traced s l \<Longrightarrow> loop_traced s' l" and "conn_traced s c \<Longrightarrow> conn_traced s' c"
proof -
  note b = brought_mono [OF assms]
  show w: "waiter_traced s cid w \<Longrightarrow> waiter_traced s' cid w" for cid w
    using assms b by (cases w) (auto simp: grows_def)
  show "worker_traced s x \<Longrightarrow> worker_traced s' x" using assms b by (cases x) (auto simp: grows_def)
  show "loop_traced s l \<Longrightarrow> loop_traced s' l" using assms b by (cases l) (auto simp: grows_def, blast)
  show "conn_traced s c \<Longrightarrow> conn_traced s' c" using assms b w unfolding conn_traced_def grows_def by blast
qed

lemma tracedI:
  assumes "traced s" and "grows s s'" and "conn_traced s' (us_conn s')"
    and "\<And>w. w \<in> set (us_workers s') \<Longrightarrow> w \<in> set (us_workers s) \<or> worker_traced s' w"
    and "us_loop s' = us_loop s \<or> loop_traced s' (us_loop s')"
  shows "traced s'"
  using assms traced_mono [OF assms(2)] unfolding traced_def by metis

lemma conn_traced_upd:
  assumes "conn_traced s c"
    and "\<And>t p. r < length (uc_receivers c) \<Longrightarrow> (t, p) \<in> set (ch_items (rc_queue (f (uc_receivers c ! r)))) \<Longrightarrow>
      (t, p) \<in> set (ch_items (rc_queue (uc_receivers c ! r))) \<or> (\<exists>cid. brought s r cid t p)"
  shows "conn_traced s (upd_receiver r f c)"
proof -
  have "\<exists>cid. brought s q cid t p" if "q < length (uc_receivers c)" "(t, p) \<in> set (ch_items (rc_queue (uc_receivers (upd_receiver r f c) ! q)))" for q t p
    using that assms(2) [of t p] assms(1) by (cases "q = r") (auto simp: conn_traced_def)
  with assms(1) show ?thesis unfolding conn_traced_def by simp
qed

lemma conn_traced_send:
  assumes "conn_traced s c" and "brought s r cid t p"
  shows "conn_traced s (upd_receiver r (\<lambda>x. x\<lparr>rc_queue := snd (try_send (t, p) (rc_queue (uc_receivers c ! r)))\<rparr>) c)"
proof (rule conn_traced_upd [OF assms(1)])
  fix t' p'
  assume "(t', p') \<in> set (ch_items (rc_queue ((uc_receivers c ! r)\<lparr>rc_queue := snd (try_send (t, p) (rc_queue (uc_receivers c ! r)))\<rparr>)))"
  with try_send_items [of "(t, p)" "rc_queue (uc_receivers c ! r)"] assms(2)
  show "(t', p') \<in> set (ch_items (rc_queue (uc_receivers c ! r))) \<or> (\<exists>cid. brought s r cid t' p')" by auto
qed

lemma conn_traced_same:
  assumes "conn_traced s c" and "uc_waiting c' = uc_waiting c" and "length (uc_receivers c') = length (uc_receivers c)"
    and "\<And>r. r < length (uc_receivers c) \<Longrightarrow> rc_queue (uc_receivers c' ! r) = rc_queue (uc_receivers c ! r)"
  shows "conn_traced s c'"
  using assms unfolding conn_traced_def by simp

lemma conn_traced_put:
  assumes "conn_traced s c" and "\<And>p. p \<in> set (ch_items (wb_queue w)) \<Longrightarrow> (cid, p) \<in> set (us_arrived s)"
    and "waiter_traced s cid (wb_task w)"
  shows "conn_traced s (put_waiting cid w c)"
  using assms unfolding conn_traced_def by (auto split: if_splits)

lemma conn_traced_drop: "conn_traced s c \<Longrightarrow> conn_traced s (drop_waiting cid c)"
  unfolding conn_traced_def by (auto split: if_splits)

lemma conn_traced_waiting:
  assumes "conn_traced s c" and "fmlookup (uc_waiting c) cid = Some w"
  shows "p \<in> set (ch_items (wb_queue w)) \<Longrightarrow> (cid, p) \<in> set (us_arrived s)" and "waiter_traced s cid (wb_task w)"
  using assms by (auto simp: conn_traced_def)

lemma conn_traced_task:
  assumes "conn_traced s c" and "fmlookup (uc_waiting c) cid = Some w" and "waiter_traced s cid t"
  shows "conn_traced s (set_task cid w t c)"
  unfolding set_task_def using conn_traced_waiting [OF assms(1,2)] assms by (intro conn_traced_put) auto

lemma conn_traced_close: "conn_traced s c \<Longrightarrow> conn_traced s (close_receiver r c)"
  unfolding close_receiver_def by (erule conn_traced_upd) simp

lemma conn_traced_bound_remove: "conn_traced s c \<Longrightarrow> conn_traced s (bound_remove r cid c)"
  unfolding bound_remove_def by (erule conn_traced_upd) simp

lemma conn_traced_unmap: "conn_traced s c \<Longrightarrow> conn_traced s (unmap r cid c)"
  by (erule conn_traced_same) simp_all

lemma grows_refl [simp]: "grows s s" by (simp add: grows_def)

lemma bound_logged:
  "sys_ok s \<Longrightarrow> bind_inv (view_of s) \<Longrightarrow> r < length (uc_receivers (us_conn s)) \<Longrightarrow> fmlookup (bound_of s r) cid = Some t \<Longrightarrow>
     (r, cid, t) \<in> set (us_announced s)"
  using bind_invD(3) [of "view_of s" r cid t] by simp

lemma listener_step_traced:
  assumes "traced s"
  shows "traced (listener_step r s)"
proof (rule tracedI [OF assms])
  have c: "conn_traced s (us_conn s)" using assms by (simp add: traced_def)
  show g: "grows s (listener_step r s)" by (auto simp: grows_def listener_step_def split: listener.split list.split)
  have "conn_traced s (us_conn (listener_step r s))"
    using c by (auto simp: listener_step_def conn_traced_close conn_traced_bound_remove conn_traced_unmap
        intro: conn_traced_upd conn_traced_same split: listener.split list.split)
  then show "conn_traced (listener_step r s) (us_conn (listener_step r s))" by (rule traced_mono(4) [OF g])
qed (auto simp: listener_step_def split: listener.splits list.splits if_splits)

lemma listener_traced:
  assumes "traced s"
  shows "traced (listener_read r t cid s)" and "traced (listener_stop r s)" and "traced (uni_accept cid s)"
proof -
  have p: "traced (put_listener r l s)" for l
    by (rule tracedI [OF assms]) (use assms in \<open>auto simp: grows_def traced_def traced_mono(4) [of s]\<close>)
  show "traced (listener_read r t cid s)" "traced (listener_stop r s)"
    using p assms by (auto simp: listener_read_def listener_stop_def split: option.split)
  have "traced (s\<lparr>us_workers := us_workers s @ [WFound q cid]\<rparr>)" for q
    by (rule tracedI [OF assms]) (use assms in \<open>auto simp: grows_def traced_def traced_mono(4) [of s]\<close>)
  then show "traced (uni_accept cid s)" using assms by (auto simp: uni_accept_def split: option.split)
qed

lemma worker_step_traced:
  assumes tr: "traced s" and ok: "sys_ok s" and inv: "bind_inv (view_of s)"
  shows "traced (worker_step i s)"
proof (cases "i < length (us_workers s)")
  case True
  let ?w = "us_workers s ! i"
  have mem: "?w \<in> set (us_workers s)" using True by simp
  with tr have c: "conn_traced s (us_conn s)" and w: "worker_traced s ?w" by (auto simp: traced_def)
  have g: "grows s (worker_step i s)"
    by (auto simp: grows_def worker_step_def split: worker.split prod.split try_send_result.split sum.split)
  have start: "(r, cid, t) \<in> set (us_announced s)" if "?w = WFound r cid" "worker_start r cid (us_conn s) = Inr t" for r cid t
    using bound_logged [OF ok inv, of r cid t] that sys_okD(3) [OF ok mem] by (auto simp: worker_start_def split: option.splits)
  show ?thesis
  proof (rule tracedI [OF tr g])
    have "conn_traced s (us_conn (worker_step i s))"
    proof (cases ?w)
      case (WSending r cid t p)
      with w c conn_traced_send [OF c, of r cid t p] show ?thesis
        by (auto simp: worker_step_def split: prod.splits try_send_result.splits)
    qed (use c in \<open>auto simp: worker_step_def conn_traced_close conn_traced_bound_remove conn_traced_unmap split: sum.split\<close>)
    then show "conn_traced (worker_step i s) (us_conn (worker_step i s))" by (rule traced_mono(4) [OF g])
    have u: "us_workers (worker_step i s) = us_workers s \<or> (\<exists>x. us_workers (worker_step i s) = (us_workers s)[i := x] \<and> worker_traced s x)"
      using w start by (cases ?w) (auto simp: worker_step_def brought_def split: prod.split try_send_result.split sum.split)
    then show "x \<in> set (us_workers s) \<or> worker_traced (worker_step i s) x" if "x \<in> set (us_workers (worker_step i s))" for x
      using that traced_mono(2) [OF g] set_update_subset_insert [of "us_workers s" i] by fastforce
  qed (auto simp: worker_step_def split: worker.split prod.split try_send_result.split sum.split)
qed (use tr in \<open>simp add: worker_step_def\<close>)

lemma worker_traced_io:
  assumes tr: "traced s"
  shows "traced (worker_read i p s)" and "traced (worker_stop i s)"
proof -
  have c: "conn_traced s (us_conn s)" using tr by (simp add: traced_def)
  have stop: "traced (put_worker i w s)" if "\<And>s. worker_traced s w" for w
    by (rule tracedI [OF tr]) (use c that in \<open>auto simp: grows_def traced_mono(4) [of s] dest!: subsetD [OF set_update_subset_insert]\<close>)
  then show "traced (worker_stop i s)" using tr by (auto simp: worker_stop_def split: worker.split)
  have "traced (put_worker i (WSending r cid t p) s\<lparr>us_arrived := us_arrived s @ [(cid, p)]\<rparr>)" (is "traced ?s")
    if "i < length (us_workers s)" "us_workers s ! i = WReading r cid t" for r cid t
  proof (rule tracedI [OF tr])
    show g: "grows s ?s" by (auto simp: grows_def)
    have "(r, cid, t) \<in> set (us_announced s)" using tr that nth_mem [OF that(1)] by (auto simp: traced_def)
    then show "x \<in> set (us_workers s) \<or> worker_traced ?s x" if "x \<in> set (us_workers ?s)" for x
      using that by (auto simp: brought_def dest!: subsetD [OF set_update_subset_insert])
    show "conn_traced ?s (us_conn ?s)" using traced_mono(4) [OF g c] by simp
  qed simp
  then show "traced (worker_read i p s)" using tr by (auto simp: worker_read_def split: worker.split)
qed

lemma traced_conn:
  assumes "traced s" and "conn_traced s (f (us_conn s))"
  shows "traced (on_conn f s)"
  by (rule tracedI [OF assms(1)]) (use assms(2) in \<open>auto simp: grows_def traced_mono(4) [of s]\<close>)

lemma traced_loop:
  assumes "traced s" and "loop_traced s l"
  shows "traced (s\<lparr>us_loop := l\<rparr>)"
proof (rule tracedI [OF assms(1)])
  show g: "grows s (s\<lparr>us_loop := l\<rparr>)" by (simp add: grows_def)
  show "conn_traced (s\<lparr>us_loop := l\<rparr>) (us_conn (s\<lparr>us_loop := l\<rparr>))"
    using traced_mono(4) [OF g] assms(1) by (simp add: traced_def)
  show "us_loop (s\<lparr>us_loop := l\<rparr>) = us_loop s \<or> loop_traced (s\<lparr>us_loop := l\<rparr>) (us_loop (s\<lparr>us_loop := l\<rparr>))"
    using traced_mono(3) [OF g assms(2)] by simp
qed auto

lemma traced_arrived:
  assumes "traced s"
  shows "traced (s\<lparr>us_arrived := us_arrived s @ xs\<rparr>)"
proof (rule tracedI [OF assms])
  show g: "grows s (s\<lparr>us_arrived := us_arrived s @ xs\<rparr>)" by (auto simp: grows_def)
  show "conn_traced (s\<lparr>us_arrived := us_arrived s @ xs\<rparr>) (us_conn (s\<lparr>us_arrived := us_arrived s @ xs\<rparr>))"
    using traced_mono(4) [OF g] assms by (simp add: traced_def)
qed auto

lemma datagram_read_traced: "traced s \<Longrightarrow> traced (datagram_read d s)"
  using traced_arrived [of s] by (auto simp: datagram_read_def Let_def intro!: traced_loop split: option.split)

lemma datagram_step_traced:
  assumes tr: "traced s" and ok: "sys_ok s" and inv: "bind_inv (view_of s)"
  shows "traced (datagram_step s)"
proof -
  have c: "conn_traced s (us_conn s)" and l: "loop_traced s (us_loop s)" using tr by (simp_all add: traced_def)
  show ?thesis
  proof (cases "us_loop s")
    case (DFeeding r cid p)
    have "r < length (uc_receivers (us_conn s))" using sys_okD(4) [OF ok] DFeeding by simp
    from bound_logged [OF ok inv this] l DFeeding have "loop_traced s (DSending r t p)" if "fmlookup (bound_of s r) cid = Some t" for t
      using that by (auto simp: brought_def)
    with traced_loop [OF tr] DFeeding show ?thesis by (auto simp: datagram_step_def split: option.split)
  next
    case (DSending r t p)
    with l obtain cid where "brought s r cid t p" by auto
    then have "traced (on_conn (upd_receiver r (\<lambda>x. x\<lparr>rc_queue := snd (try_send (t, p) (rc_queue (uc_receivers (us_conn s) ! r)))\<rparr>)) s)"
      using conn_traced_send [OF c] by (intro traced_conn [OF tr]) simp
    with tr DSending show ?thesis
      by (auto simp: datagram_step_def intro!: traced_loop split: prod.splits try_send_result.splits)
  next
    case (DEntry cid p)
    have "conn_traced s (put_waiting cid buffer_new (us_conn s))" by (rule conn_traced_put [OF c]) (simp_all add: buffer_new_def)
    then have g: "traced (on_conn (put_waiting cid buffer_new) s)" by (rule traced_conn [OF tr])
    have "loop_traced (on_conn (put_waiting cid buffer_new) s) (DPushing cid p b)" for b using l DEntry by simp
    from traced_loop [OF g this] l tr DEntry show ?thesis by (auto simp: datagram_step_def intro!: traced_loop)
  next
    case (DPushing cid p b)
    show ?thesis
    proof (cases "fmlookup (uc_waiting (us_conn s)) cid")
      case (Some w)
      have "conn_traced s (put_waiting cid (w\<lparr>wb_queue := snd (try_send p (wb_queue w))\<rparr>) (us_conn s))"
        by (rule conn_traced_put [OF c])
          (use conn_traced_waiting [OF c Some] l DPushing try_send_items [of p "wb_queue w"] in \<open>auto\<close>)
      then have "traced (on_conn (put_waiting cid (w\<lparr>wb_queue := snd (try_send p (wb_queue w))\<rparr>)) s)" by (rule traced_conn [OF tr])
      with tr Some DPushing show ?thesis
        by (auto simp: datagram_step_def intro!: traced_loop split: prod.splits try_send_result.splits)
    qed (use tr DPushing in \<open>auto simp: datagram_step_def intro!: traced_loop\<close>)
  next
    case (DSpawning cid)
    have "traced (on_conn (set_task cid w Waiting) s)" if "fmlookup (uc_waiting (us_conn s)) cid = Some w" for w
      using conn_traced_task [OF c that] by (intro traced_conn [OF tr]) simp
    with tr DSpawning show ?thesis by (auto simp: datagram_step_def intro!: traced_loop split: option.split)
  qed (use tr l c traced_conn [OF tr] conn_traced_close conn_traced_drop in \<open>auto simp: datagram_step_def intro!: traced_loop\<close>)
qed

lemma waiter_traced_step:
  assumes c: "conn_traced s c" and b: "\<And>r cid t. r < length (uc_receivers c) \<Longrightarrow> fmlookup (rc_bound (uc_receivers c ! r)) cid = Some t \<Longrightarrow>
      (r, cid, t) \<in> set (us_announced s)" and ok: "conn_ok c"
  shows "conn_traced s (waiter_acquire cid c)" and "conn_traced s (waiter_timeout cid c)" and "conn_traced s (waiter_closed cid c)"
    and "conn_traced s (waiter_take cid c)" and "conn_traced s (waiter_step cid c)"
proof -
  note task = conn_traced_task [OF c, of cid]
  show "conn_traced s (waiter_acquire cid c)" "conn_traced s (waiter_timeout cid c)" "conn_traced s (waiter_closed cid c)"
    using c task by (auto simp: waiter_acquire_def waiter_timeout_def waiter_closed_def split: option.split waiter.split)
  show "conn_traced s (waiter_take cid c)"
  proof (cases "fmlookup (uc_waiting c) cid")
    case (Some w)
    with c conn_traced_waiting [OF c Some] show ?thesis
      by (auto simp: waiter_take_def try_recv_def intro!: conn_traced_put split: waiter.split list.split)
  qed (simp add: waiter_take_def c)
  show "conn_traced s (waiter_step cid c)"
  proof (cases "fmlookup (uc_waiting c) cid")
    case (Some w)
    note w = conn_traced_waiting [OF c Some] and r = waiting_lookup(2) [OF ok Some]
    show ?thesis
    proof (cases "wb_task w")
      case (Feeding r p)
      with Some w r [of r] b [of r cid] task [OF Some] show ?thesis by (auto simp: waiter_step_def brought_def split: option.split)
    next
      case (Sending r t p)
      then have "conn_traced s (set_task cid w (Looping r) (upd_receiver r (\<lambda>x. x\<lparr>rc_queue := snd (try_send (t, p) (rc_queue (uc_receivers c ! r)))\<rparr>) c))"
        using w Some by (intro conn_traced_task conn_traced_send [OF c]) auto
      with Some Sending task [OF Some] show ?thesis by (auto simp: waiter_step_def split: prod.splits try_send_result.splits)
    next
      case (ClosingSession r)
      with Some conn_traced_task [OF conn_traced_close [OF c]] show ?thesis by (simp add: waiter_step_def)
    qed (use Some c conn_traced_drop [OF c] in \<open>simp_all add: waiter_step_def\<close>)
  qed (simp add: waiter_step_def c)
qed

lemma udp_step_traced:
  assumes tr: "traced s" and ok: "sys_ok s" and inv: "bind_inv (view_of s)"
  shows "traced (udp_step e s)"
proof -
  have c: "conn_traced s (us_conn s)" using tr by (simp add: traced_def)
  note waiter = waiter_traced_step [OF c bound_logged [OF ok inv] sys_okD(1) [OF ok]]
  show ?thesis
  proof (cases e)
    case NewSession
    have "conn_traced s (add_receiver (us_conn s))"
      using c by (auto simp: conn_traced_def add_receiver_def receiver_new_def nth_append less_Suc_eq)
    then have "traced (new_session s)" unfolding new_session_def
      by (intro tracedI [OF tr]) (auto simp: grows_def traced_mono(4) [of s])
    with NewSession show ?thesis by simp
  next
    case (SessionReceives cl remote r)
    have "conn_traced s c'" if "recv_many cl remote r (us_conn s) = Some (ps, c')" for ps c'
      using that c by (auto simp: recv_many_def intro!: conn_traced_upd dest: in_set_dropD split: list.splits)
    with SessionReceives tr show ?thesis using traced_conn [OF tr, of "\<lambda>_. c'" for c'] by (auto simp: on_conn_def split: option.split)
  qed (use tr waiter in \<open>simp_all add: listener_traced listener_step_traced worker_traced_io worker_step_traced [OF tr ok inv]
      datagram_read_traced datagram_step_traced [OF tr ok inv] traced_conn conn_traced_close c\<close>)
qed

lemma udp_exec_traced: "traced (udp_exec es sys_new)"
proof -
  have "sys_ok s \<and> bind_inv (view_of s) \<and> traced s \<Longrightarrow> traced (udp_exec es s)" for s
    unfolding udp_exec_def by (induction es arbitrary: s) (simp_all add: udp_step_ok udp_step_bind udp_step_traced)
  moreover have "traced sys_new" by (simp add: traced_def conn_traced_def sys_new_def conn_new_def)
  ultimately show ?thesis using udp_exec_inv [of "[]"] by (simp add: udp_exec_def)
qed

subsection \<open>A task on its own\<close>

text \<open>Without other tasks in between, the steps are the operations of \<open>Shadow_Udp\<close>.\<close>

lemma put_waiting_again: "put_waiting cid w (put_waiting cid w' c) = put_waiting cid w c"
  by (simp add: put_waiting_def)

lemma put_waiting_same: "fmlookup (uc_waiting c) cid = Some w \<Longrightarrow> put_waiting cid w c = c"
proof -
  assume "fmlookup (uc_waiting c) cid = Some w"
  then have "fmupd cid w (uc_waiting c) = uc_waiting c" by (intro fmap_ext) auto
  then show ?thesis by (simp add: put_waiting_def)
qed

lemma bind_alone:
  assumes "r < length (us_listeners s)" and "us_listeners s ! r = LReading" and "\<not> locked cid s" and "fmlookup (recv_map s) cid = None"
  shows "us_conn (listener_step r (listener_step r (listener_read r t cid s))) = snd (bind_context_id r t cid (us_conn s))"
  using assms by (simp add: listener_read_def listener_step_def bind_context_id_def)

lemma worker_exit_alone:
  assumes "i < length (us_workers s)" and "us_workers s ! i = WLeft r cid" and "\<not> locked cid s"
  shows "us_conn ((worker_step i ^^ 4) s) = worker_exit r cid (us_conn s)"
  using assms by (simp add: eval_nat_numeral worker_step_def worker_exit_def locked_def)

lemma clean_alone:
  assumes "r < length (us_listeners s)" and "us_listeners s ! r = LCleaning cids" and "\<And>cid. cid \<in> set cids \<Longrightarrow> \<not> locked cid s"
  shows "us_conn ((listener_step r ^^ (2 * length cids)) s) = fold (\<lambda>cid c. unmap r cid (bound_remove r cid c)) cids (us_conn s)"
  using assms
proof (induction cids arbitrary: s)
  case (Cons cid cids)
  let ?s1 = "put_listener r (LUnmapping cid cids) (on_conn (bound_remove r cid) s)"
  let ?s2 = "put_listener r (LCleaning cids) (on_conn (unmap r cid) ?s1)"
  have l: "locked i ?s1 = locked i s" "locked i ?s2 = locked i s" for i
  proof -
    have "holding ((us_listeners s)[r := l]) q i = holding (us_listeners s) q i" if "\<not> holds i l" for q l
      using Cons.prems(1,2) that by (simp add: task_update task_now)
    then show "locked i ?s1 = locked i s" "locked i ?s2 = locked i s" by (simp_all add: locked_holding)
  qed
  have "listener_step r (listener_step r s) = ?s2"
    using Cons.prems l by (simp add: listener_step_def)
  moreover have "us_conn ((listener_step r ^^ (2 * length cids)) ?s2) = fold (\<lambda>cid c. unmap r cid (bound_remove r cid c)) cids (us_conn ?s2)"
    using Cons.prems l by (intro Cons.IH) auto
  ultimately show ?case by (simp add: funpow_swap1)
qed simp

lemma loop_idle: "us_loop s = DReading \<Longrightarrow> (datagram_step ^^ n) s = s"
  by (induction n) (simp_all add: datagram_step_def)

lemma loop_feed_alone:
  assumes "us_loop s = DFeeding r cid p"
  shows "us_conn ((datagram_step ^^ 5) s) = snd (feed_datagram r p cid (us_conn s))"
proof (cases "fmlookup (bound_of s r) cid")
  case None
  then have "us_loop (datagram_step s) = DReading" "us_conn (datagram_step s) = us_conn s" using assms by (simp_all add: datagram_step_def)
  with loop_idle [of "datagram_step s" 4] None show ?thesis by (simp add: eval_nat_numeral funpow_swap1 feed_datagram_def)
next
  case (Some t)
  let ?s1 = "datagram_step s"
  have s1: "us_loop ?s1 = DSending r t p" "us_conn ?s1 = us_conn s" using assms Some by (simp_all add: datagram_step_def)
  obtain res q where ts: "try_send (t, p) (rc_queue (uc_receivers (us_conn s) ! r)) = (res, q)" by (cases "try_send (t, p) (rc_queue (uc_receivers (us_conn s) ! r))")
  let ?s2 = "datagram_step ?s1" and ?s3 = "datagram_step (datagram_step ?s1)"
  have "us_loop ?s3 = DReading \<and> us_conn ?s3 = snd (feed_datagram r p cid (us_conn s))"
    using s1 ts Some by (cases res) (simp_all add: datagram_step_def feed_datagram_def Let_def)
  with loop_idle [of ?s3 2] show ?thesis by (simp add: eval_nat_numeral funpow_swap1)
qed

lemma loop_buffer_alone:
  assumes "us_loop s = DEntry cid p" and "fmlookup (uc_waiting (us_conn s)) cid = w"
  shows "us_conn ((datagram_step ^^ 3) s) =
    (let item = (case w of None \<Rightarrow> buffer_new | Some w \<Rightarrow> w); c' = put_waiting cid item (us_conn s)
     in case try_send p (wb_queue item) of
          (SendOk, q) \<Rightarrow> put_waiting cid (item\<lparr>wb_queue := q, wb_task := if w \<noteq> None then wb_task item else Waiting\<rparr>) c'
        | (SendFull, q) \<Rightarrow> c'
        | (SendClosed, q) \<Rightarrow> drop_waiting cid c') \<and> us_loop ((datagram_step ^^ 3) s) = DReading"
proof -
  let ?item = "case w of None \<Rightarrow> buffer_new | Some w \<Rightarrow> w"
  define s1 where "s1 = datagram_step s"
  have s1: "us_loop s1 = DPushing cid p (w = None)" "us_conn s1 = put_waiting cid ?item (us_conn s)"
    using assms by (auto simp: s1_def datagram_step_def put_waiting_same fmlookup_dom_iff split: option.split)
  obtain res q where ts: "try_send p (wb_queue ?item) = (res, q)" by (cases "try_send p (wb_queue ?item)")
  have new: "res = SendOk" if "w = None"
    using ts that by (auto simp: buffer_new_def try_send_def channel_def WAITING_DATAGRAM_QUEUE_CAPACITY_def)
  have "(datagram_step ^^ 3) s = datagram_step (datagram_step s1)" by (simp add: eval_nat_numeral s1_def)
  then show ?thesis using s1 ts new
    by (cases res; cases w) (simp_all add: datagram_step_def Let_def set_task_def put_waiting_again)
qed

lemma loop_alone:
  assumes "us_loop s = DReading" and "2 \<le> length d" and "\<not> locked (from_be (take 2 d)) s"
  shows "us_conn ((datagram_step ^^ 5) (datagram_read d s)) = snd (handle_datagram d (us_conn s))"
proof (cases "fmlookup (recv_map s) (from_be (take 2 d))")
  case (Some r)
  then show ?thesis using assms loop_feed_alone [of "datagram_read d s"] by (simp add: datagram_read_def Let_def handle_datagram_def)
next
  case None
  let ?cid = "from_be (take 2 d) :: u16" and ?s1 = "datagram_read d s"
  let ?W = "uc_waiting (us_conn s)" and ?s2 = "datagram_step (datagram_step ?s1)"
  have s1: "us_loop ?s1 = DUnknown ?cid (drop 2 d)" "us_conn ?s1 = us_conn s"
    using assms None by (simp_all add: datagram_read_def Let_def)
  show ?thesis
  proof (cases "?cid |\<in>| fmdom ?W")
    case True
    then obtain w where w: "fmlookup ?W ?cid = Some w" by (auto simp: fmlookup_dom_iff)
    have l: "us_loop (datagram_step ?s1) = DEntry ?cid (drop 2 d)" "us_conn (datagram_step ?s1) = us_conn s" using s1 True by (simp_all add: datagram_step_def)
    note b = loop_buffer_alone [OF l(1), unfolded l(2), OF w]
    have "(datagram_step ^^ 5) ?s1 = (datagram_step ^^ 1) ((datagram_step ^^ 3) (datagram_step ?s1))" by (simp add: eval_nat_numeral funpow_swap1)
    with b loop_idle [of "(datagram_step ^^ 3) (datagram_step ?s1)" 1] assms(2) None w True show ?thesis
      by (auto simp: handle_datagram_def Let_def split: prod.splits try_send_result.splits)
  next
    case False
    then have w: "fmlookup ?W ?cid = None" by (simp add: fmdom_notD)
    have l: "us_loop (datagram_step ?s1) = DCounting ?cid (drop 2 d)" "us_conn (datagram_step ?s1) = us_conn s" using s1 False by (simp_all add: datagram_step_def)
    show ?thesis
    proof (cases "hm_len ?W \<ge> MAX_WAITING_DATAGRAM_CONTEXTS")
      case True
      then have "us_loop ?s2 = DReading" "us_conn ?s2 = us_conn s" using l by (simp_all add: datagram_step_def [of "datagram_step _"])
      with loop_idle [of ?s2 3] assms(2) None False True show ?thesis
        by (simp add: eval_nat_numeral funpow_swap1 handle_datagram_def Let_def)
    next
      case room: False
      then have l2: "us_loop ?s2 = DEntry ?cid (drop 2 d)" "us_conn ?s2 = us_conn s" using l by (simp_all add: datagram_step_def [of "datagram_step _"])
      note b = loop_buffer_alone [OF l2(1), unfolded l2(2), OF w]
      have "(datagram_step ^^ 5) ?s1 = (datagram_step ^^ 3) ?s2" by (simp add: eval_nat_numeral funpow_swap1)
      with b assms(2) None w False room show ?thesis
        by (auto simp: handle_datagram_def Let_def split: prod.splits try_send_result.splits)
    qed
  qed
qed

subsection \<open>Properties\<close>

text \<open>C7. The shared maps of a connection stay consistent however the single operations of its tasks
  are interleaved. The shared map sends an id only to a session that holds an address for it, unless a task
  of this session is just removing the id. Conversely, where a session holds an address for an id it has
  announced once, the shared map sends the id to this session, unless its listener is just inserting it.
  Every receive queue holds at most 64 packets, at most 1024 contexts are buffered
  with at most 8 datagrams each, and no channel is ever closed.\<close>

theorem udp_connection_invariant:
  assumes "s = udp_exec es sys_new"
  shows "(\<forall>cid r. fmlookup (recv_map s) cid = Some r \<longrightarrow> r < length (uc_receivers (us_conn s)) \<and>
      (fmlookup (bound_of s r) cid \<noteq> None \<or> removing (us_listeners s) (us_workers s) r cid)) \<and>
    (\<forall>r < length (uc_receivers (us_conn s)). \<forall>cid. fmlookup (bound_of s r) cid \<noteq> None \<and> ann_times (us_announced s) r cid \<le> 1 \<longrightarrow>
      fmlookup (recv_map s) cid = Some r \<or> inserting (us_listeners s) r cid) \<and>
    queues_ok (us_conn s) \<and> waiting_ok (us_conn s)"
proof -
  have ok: "sys_ok s" and inv: "bind_inv (view_of s)" unfolding assms using udp_exec_inv by simp_all
  have c: "conn_ok (us_conn s)" by (rule sys_okD(1) [OF ok])
  note D = bind_invD [OF inv]
  have "r < length (uc_receivers (us_conn s)) \<and> (fmlookup (bound_of s r) cid \<noteq> None \<or> removing (us_listeners s) (us_workers s) r cid)"
    if "fmlookup (recv_map s) cid = Some r" for cid r
    using mapped_receiver [OF c that] D(9) [of cid r] that by (simp add: removing_def)
  moreover have "fmlookup (recv_map s) cid = Some r \<or> inserting (us_listeners s) r cid"
    if "r < length (uc_receivers (us_conn s))" "fmlookup (bound_of s r) cid \<noteq> None" "ann_times (us_announced s) r cid \<le> 1" for r cid
    using D(11) [of r cid] that by simp
  moreover have "queues_ok (us_conn s)" "waiting_ok (us_conn s)" using c by (simp_all add: conn_ok_def)
  ultimately show ?thesis by blast
qed

definition sample_events :: "udp_event list" where
  "sample_events = [NewSession, NewSession, ListenerReads 0 (Domain [97] 53) 7, ListenerStep 0, ListenerStep 0,
     DatagramArrives [0, 7, 9], UniStream 7, LoopStep, WorkerStep 0, LoopStep, WorkerReads 0 [5], WorkerStep 0, WorkerStops 0, WorkerStep 0]"

lemmas sample_simps = sample_events_def udp_exec_def sys_new_def conn_new_def new_session_def add_receiver_def receiver_new_def
  listener_read_def listener_step_def put_listener_def on_conn_def upd_receiver_def locked_def datagram_read_def datagram_step_def Let_def
  uni_accept_def worker_step_def worker_read_def worker_stop_def put_worker_def worker_start_def from_be_def try_send_def channel_def
  UDP_RECEIVE_QUEUE_CAPACITY_def bound_remove_def

lemma sample_state:
  "fmlookup (recv_map (udp_exec sample_events sys_new)) 7 = Some 0"
  "fmlookup (bound_of (udp_exec sample_events sys_new) 0) 7 = None"
  "length (uc_receivers (us_conn (udp_exec sample_events sys_new))) = 2"
  "ch_items (rc_queue (uc_receivers (us_conn (udp_exec sample_events sys_new)) ! 0)) = [(Domain [97] 53, [9]), (Domain [97] 53, [5])]"
  "us_announced (udp_exec sample_events sys_new) = [(0, 7, Domain [97] 53)]"
  by (simp_all add: sample_simps)

theorem udp_connection_invariant_witness:
  "let s = udp_exec sample_events sys_new in
     fmlookup (recv_map s) 7 = Some 0 \<and> fmlookup (bound_of s 0) 7 = None \<and> removing (us_listeners s) (us_workers s) 0 7 \<and>
     queues_ok (us_conn s) \<and> waiting_ok (us_conn s)"
proof -
  let ?s = "udp_exec sample_events sys_new"
  note inv = udp_connection_invariant [OF refl, of sample_events]
  from inv sample_state(1) have "fmlookup (bound_of ?s 0) 7 \<noteq> None \<or> removing (us_listeners ?s) (us_workers ?s) 0 7" by blast
  with inv sample_state(1,2) show ?thesis unfolding Let_def by simp
qed

text \<open>C8. Sessions are isolated, however the single operations of the tasks are interleaved: every packet in
  a session's receive queue arrived, as a datagram or on a stream, under some context id that was announced,
  together with the address the packet is labelled with, on the control stream of this very session.\<close>

theorem udp_session_isolation:
  assumes "s = udp_exec es sys_new" and "r < length (uc_receivers (us_conn s))"
    and "(t, p) \<in> set (ch_items (rc_queue (uc_receivers (us_conn s) ! r)))"
  shows "\<exists>cid. (r, cid, t) \<in> set (us_announced s) \<and> (cid, p) \<in> set (us_arrived s)"
  using udp_exec_traced [of es] assms by (auto simp: traced_def conn_traced_def brought_def)

theorem udp_session_isolation_witness:
  "let s = udp_exec sample_events sys_new in
     0 < length (uc_receivers (us_conn s)) \<and> (Domain [97] 53, [5]) \<in> set (ch_items (rc_queue (uc_receivers (us_conn s) ! 0))) \<and>
     (\<exists>cid. (0, cid, Domain [97] 53) \<in> set (us_announced s) \<and> (cid, [5]) \<in> set (us_arrived s))"
  using udp_session_isolation [OF refl, of 0 sample_events "Domain [97] 53" "[5]"] sample_state(3,4) by (auto simp: Let_def)

end
